(* ===== verification/Prelude.thy ===== *)
theory Prelude
  imports Main "HOL-Library.Word"
begin

text \<open>
  Shared vocabulary of the RedPandaOS development: the C integer types as words, byte
  memory with little-endian loads and stores, zero-terminated byte strings, and the generic
  lemmas on words and lists that several components use. Named collections:
  \<^item> \<open>unat_bounds\<close>: facts that move word arithmetic to \<open>nat\<close>;
  \<^item> \<open>frame_simps\<close>: "this operation leaves that field or cell alone".
\<close>

unbundle bit_operations_syntax

named_theorems unat_bounds "facts that move word arithmetic to nat"
named_theorems frame_simps "fields and cells an operation leaves unchanged"

type_synonym u8 = "8 word"
type_synonym u16 = "16 word"
type_synonym u32 = "32 word"
type_synonym u64 = "64 word"

text \<open>Flat byte-addressed memory; addresses wrap at 4 GB as the i686 does.\<close>

type_synonym mem = "u32 \<Rightarrow> u8"

subsection \<open>Words as natural numbers\<close>

lemma unat_lt32 [unat_bounds]: "unat (x :: u32) < 4294967296"
  using unsigned_less [of x] by simp

lemma unat_lt16 [unat_bounds]: "unat (x :: u16) < 65536"
  using unsigned_less [of x] by simp

lemma unat_lt8 [unat_bounds]: "unat (x :: u8) < 256"
  using unsigned_less [of x] by simp

lemma unat_add32: "unat x + unat y < 4294967296 \<Longrightarrow> unat (x + y :: u32) = unat x + unat y"
  by (simp add: unat_word_ariths)

lemma unat_sub32: "unat y \<le> unat x \<Longrightarrow> unat (x - y :: u32) = unat x - unat y"
  by (simp add: unat_sub word_le_nat_alt)

lemma unat_mult32: "unat x * unat y < 4294967296 \<Longrightarrow> unat (x * y :: u32) = unat x * unat y"
  by (simp add: unat_word_ariths)

lemma unat_of_nat32: "n < 4294967296 \<Longrightarrow> unat (of_nat n :: u32) = n"
  by (simp add: unat_of_nat)

lemma unat_of_nat16: "n < 65536 \<Longrightarrow> unat (of_nat n :: u16) = n"
  by (simp add: unat_of_nat)

lemma u32_eq_iff: "(x :: u32) = y \<longleftrightarrow> unat x = unat y"
  by (simp add: word_unat_eq_iff)

lemma u16_eq_iff: "(x :: u16) = y \<longleftrightarrow> unat x = unat y"
  by (simp add: word_unat_eq_iff)

lemma unat_div_4096 [unat_bounds]: "unat (x div 4096 :: u32) = unat x div 4096"
  by (simp add: unat_div_distrib)

lemma bit_all_ones: "bit (0xFFFFFFFF :: u32) n \<longleftrightarrow> n < 32"
proof -
  have "(0xFFFFFFFF :: u32) = - 1" by simp
  then show ?thesis by (simp only: bit_minus_1_iff) simp
qed

subsection \<open>Little-endian memory access\<close>

definition byte_of :: "nat \<Rightarrow> u32 \<Rightarrow> u8" where
  "byte_of k w = ucast (drop_bit (8 * k) w)"

definition le32 :: "u8 \<Rightarrow> u8 \<Rightarrow> u8 \<Rightarrow> u8 \<Rightarrow> u32" where
  "le32 b0 b1 b2 b3 =
     ucast b0 OR push_bit 8 (ucast b1) OR push_bit 16 (ucast b2) OR push_bit 24 (ucast b3)"

definition load32 :: "mem \<Rightarrow> u32 \<Rightarrow> u32" where
  "load32 m a = le32 (m a) (m (a + 1)) (m (a + 2)) (m (a + 3))"

definition load64 :: "mem \<Rightarrow> u32 \<Rightarrow> u64" where
  "load64 m a = ucast (load32 m a) OR push_bit 32 (ucast (load32 m (a + 4)))"

definition store32 :: "mem \<Rightarrow> u32 \<Rightarrow> u32 \<Rightarrow> mem" where
  "store32 m a w =
     m(a := byte_of 0 w, a + 1 := byte_of 1 w, a + 2 := byte_of 2 w, a + 3 := byte_of 3 w)"

lemma le32_byte_of: "le32 (byte_of 0 w) (byte_of 1 w) (byte_of 2 w) (byte_of 3 w) = w"
proof (rule bit_word_eqI)
  fix n assume "n < LENGTH(32)"
  then consider "n < 8" | "8 \<le> n \<and> n < 16" | "16 \<le> n \<and> n < 24" | "24 \<le> n \<and> n < 32"
    by fastforce
  then show "bit (le32 (byte_of 0 w) (byte_of 1 w) (byte_of 2 w) (byte_of 3 w)) n = bit w n"
    by cases (auto simp: le32_def byte_of_def bit_simps)
qed

lemma load32_store32 [simp]: "load32 (store32 m a w) a = w"
  by (simp add: load32_def store32_def le32_byte_of [simplified])

lemma byte_of_le32:
  "byte_of 0 (le32 b0 b1 b2 b3) = b0" "byte_of 1 (le32 b0 b1 b2 b3) = b1"
  "byte_of 2 (le32 b0 b1 b2 b3) = b2" "byte_of 3 (le32 b0 b1 b2 b3) = b3"
  by (rule bit_word_eqI; auto simp: le32_def byte_of_def bit_simps dest: bit_imp_le_length)+

subsection \<open>Aligned 32-bit cells do not overlap\<close>

lemma unat_plus_lt4:
  assumes "unat (a :: u32) = 4 * x" "k < 4"
  shows "unat (a + of_nat k) = 4 * x + k"
proof -
  have "4 * x + k < 4294967296"
    using unat_lt32 [of a] assms by presburger
  then show ?thesis
    using assms by (simp add: unat_add32 unat_of_nat32)
qed

lemma aligned_cells:
  assumes "unat (a :: u32) = 4 * x" "unat (b :: u32) = 4 * y" "x \<noteq> y" "j < 4" "k < 4"
  shows "a + of_nat j \<noteq> b + of_nat k"
proof
  assume "a + of_nat j = b + of_nat k"
  then have "4 * x + j = 4 * y + k"
    using assms unat_plus_lt4 by metis
  with assms show False by presburger
qed

lemma load32_cong:
  assumes "\<And>k. k < 4 \<Longrightarrow> m (a + of_nat k) = m' (a + of_nat k)"
  shows "load32 m a = load32 m' a"
  using assms [of 0] assms [of 1] assms [of 2] assms [of 3] by (simp add: load32_def)

lemma load32_store32_other:
  assumes "unat a = 4 * x" "unat b = 4 * y" "x \<noteq> y"
  shows "load32 (store32 m a w) b = load32 m b"
proof (rule load32_cong)
  fix k :: nat assume "k < 4"
  then have "b + of_nat k \<noteq> a + of_nat j" if "j < 4" for j
    using aligned_cells [OF assms, of j k] that by metis
  from this [of 0] this [of 1] this [of 2] this [of 3]
  show "store32 m a w (b + of_nat k) = m (b + of_nat k)"
    by (simp add: store32_def)
qed

subsection \<open>Page numbers, page offsets and entry flags\<close>

lemma page_mask: "(0xFFFFF000 :: u32) = NOT (mask 12)"
  by (simp add: mask_eq_exp_minus_1)

lemma low_masks: "(0xFFF :: u32) = mask 12" "(0x3FF :: u32) = mask 10"
  by (simp_all add: mask_eq_exp_minus_1)

lemma flag_bits: "(3 :: u32) = mask 2"
  by (simp add: mask_eq_exp_minus_1)

lemma entry_frame: "((p AND 0xFFFFF000) OR 3) AND 0xFFFFF000 = (p :: u32) AND 0xFFFFF000"
  unfolding flag_bits unfolding page_mask by (rule bit_word_eqI) (auto simp: bit_simps)

lemma entry_present: "(x OR 3) AND 1 \<noteq> (0 :: u32)"
proof -
  have "bit ((x OR 3) AND 1 :: u32) 0"
    unfolding flag_bits by (simp add: bit_simps)
  then show ?thesis by auto
qed

lemma unat_and_mask: "unat (v AND mask n :: u32) = unat v mod 2 ^ n"
  by (simp add: unsigned_take_bit_eq take_bit_eq_mod [where ?'a = nat] flip: take_bit_eq_mask)

lemma take_bit_32_unat: "take_bit 32 (unat (v :: u32)) = unat v"
  using unsigned_less [of v] by (intro take_bit_nat_eq_self) simp

lemma unat_page_offset [unat_bounds]: "unat (v AND 0xFFF :: u32) = unat v mod 4096"
  unfolding low_masks unat_and_mask by simp

lemma unat_table_index [unat_bounds]: "unat (drop_bit 12 v AND 0x3FF :: u32) = unat v div 4096 mod 1024"
  using take_bit_32_unat [of v] unfolding low_masks unat_and_mask
  by (simp add: unsigned_drop_bit_eq drop_bit_eq_div [where ?'a = nat])

lemma unat_dir_index [unat_bounds]: "unat (drop_bit 22 v :: u32) = unat v div 4194304"
  using take_bit_32_unat [of v] by (simp add: unsigned_drop_bit_eq drop_bit_eq_div [where ?'a = nat])

lemma and_not_mask_plus: "v = (v AND NOT (mask n)) + (v AND mask n :: u32)"
  by (subst disjunctive_add) (auto simp: bit_simps bit_eq_iff)

lemma unat_and_not_mask: "unat (v AND NOT (mask n) :: u32) = unat v div 2 ^ n * 2 ^ n"
proof -
  have "unat (v AND mask n) \<le> unat v"
    unfolding unat_and_mask by simp
  moreover have "v AND NOT (mask n) = v - (v AND mask n)"
    using and_not_mask_plus [of v n] by (metis add_diff_cancel_right')
  ultimately have "unat (v AND NOT (mask n)) = unat v - unat v mod 2 ^ n"
    by (simp only: unat_sub32 unat_and_mask)
  then show ?thesis by (simp add: minus_mod_eq_div_mult)
qed

lemma page_base_offset: "v = (v AND 0xFFFFF000) + (v AND 0xFFF :: u32)"
  unfolding low_masks page_mask by (rule and_not_mask_plus)

lemma unat_page_base [unat_bounds]: "unat (v AND 0xFFFFF000 :: u32) = unat v div 4096 * 4096"
  unfolding page_mask unat_and_not_mask by simp

end
