(* ===== verification/Kstring.thy ===== *)
theory Kstring
  imports Prelude
begin

text \<open>
  \<open>kernel/string.c\<close>: the freestanding memory and string routines, over flat byte memory.
  The loops are the source's loops (alignment prologue, 32-bit bulk, byte epilogue); the
  lemmas show that each computes its byte-wise reference definition, whatever the alignment.
  \<open>strcmp_bytes\<close> is the comparison of zero-terminated strings as byte lists that the
  file system and the shell use; \<open>strcmp\<close> on memory is proved to compute it.
\<close>

subsection \<open>memset\<close>

fun memset_head :: "mem \<Rightarrow> u32 \<Rightarrow> nat \<Rightarrow> u8 \<Rightarrow> mem \<times> u32 \<times> nat" where
  "memset_head m d 0 v = (m, d, 0)"
| "memset_head m d (Suc n) v =
     (if d AND 3 \<noteq> 0 then memset_head (m(d := v)) (d + 1) n v else (m, d, Suc n))"

fun memset_bulk :: "mem \<Rightarrow> u32 \<Rightarrow> nat \<Rightarrow> u32 \<Rightarrow> mem \<times> u32 \<times> nat" where
  "memset_bulk m d n v32 =
     (if 4 \<le> n then memset_bulk (store32 m d v32) (d + 4) (n - 4) v32 else (m, d, n))"

declare memset_bulk.simps [simp del]

fun memset_tail :: "mem \<Rightarrow> u32 \<Rightarrow> nat \<Rightarrow> u8 \<Rightarrow> mem" where
  "memset_tail m d 0 v = m"
| "memset_tail m d (Suc n) v = memset_tail (m(d := v)) (d + 1) n v"

definition memset :: "mem \<Rightarrow> u32 \<Rightarrow> u8 \<Rightarrow> u32 \<Rightarrow> mem" where
  "memset m dest v count =
     (let (m1, d1, n1) = memset_head m dest (unat count) v;
          v32 = ucast v * 0x01010101;
          (m2, d2, n2) = memset_bulk m1 d1 n1 v32
      in memset_tail m2 d2 n2 v)"

text \<open>The reference: the \<open>n\<close> bytes from \<open>d\<close> on (modulo 4 GB) become \<open>v\<close>.\<close>

definition set_bytes :: "mem \<Rightarrow> u32 \<Rightarrow> u8 \<Rightarrow> nat \<Rightarrow> mem" where
  "set_bytes m d v n = (\<lambda>a. if unat (a - d) < n then v else m a)"

lemma set_bytes_0 [simp]: "set_bytes m d v 0 = m"
  by (simp add: set_bytes_def)

lemma unat_minus_1:
  assumes "(x :: u32) \<noteq> 0"
  shows "unat (x - 1) = unat x - 1"
proof -
  have "1 \<le> unat x"
    using assms by (metis One_nat_def Suc_leI unat_gt_0)
  then show ?thesis
    by (simp add: unat_sub32)
qed

lemma unat_diff_Suc_less:
  "unat (a - (d + 1) :: u32) < n \<or> a = d \<longleftrightarrow> unat (a - d) < Suc n \<or> (a = d \<or> False)"
  if "n < 4294967296"
proof (cases "a = d")
  case False
  then have "a - d \<noteq> 0" by simp
  then have "unat (a - d - 1) = unat (a - d) - 1" "0 < unat (a - d)"
    by (simp_all add: unat_minus_1 unat_gt_0)
  moreover have "a - (d + 1) = a - d - 1" by simp
  ultimately show ?thesis using False by (metis One_nat_def Suc_pred not_less_eq)
qed simp

lemma set_bytes_Suc:
  assumes "n < 4294967296"
  shows "set_bytes (m(d := v)) (d + 1) v n = set_bytes m d v (Suc n)"
proof
  fix a
  show "set_bytes (m(d := v)) (d + 1) v n a = set_bytes m d v (Suc n) a"
    using unat_diff_Suc_less [OF assms, of a d] by (auto simp: set_bytes_def)
qed

lemma memset_tail_eq: "n \<le> 4294967296 \<Longrightarrow> memset_tail m d n v = set_bytes m d v n"
  by (induction m d n v rule: memset_tail.induct) (simp_all add: set_bytes_Suc)

lemma set_bytes_append:
  assumes "k + n \<le> 4294967296"
  shows "set_bytes (set_bytes m d v k) (d + of_nat k) v n = set_bytes m d v (k + n)"
proof
  fix a
  have *: "unat (a - (d + of_nat k)) = unat (a - d) - k" if "k \<le> unat (a - d)" "k < 4294967296"
  proof -
    have "unat (of_nat k :: u32) = k"
      using that(2) by (rule unat_of_nat32)
    then have "unat (a - d - of_nat k) = unat (a - d) - k"
      using that(1) by (simp add: unat_sub32)
    then show ?thesis by (simp add: diff_diff_eq)
  qed
  show "set_bytes (set_bytes m d v k) (d + of_nat k) v n a = set_bytes m d v (k + n) a"
  proof (cases "unat (a - d) < k")
    case True
    then show ?thesis by (simp add: set_bytes_def)
  next
    case False
    then have "k < 4294967296"
      using unat_lt32 [of "a - d"] by simp
    with False * have "unat (a - (d + of_nat k)) < n \<longleftrightarrow> unat (a - d) < k + n"
      by auto
    with False show ?thesis by (simp add: set_bytes_def)
  qed
qed

lemma splat_bytes:
  assumes "(x :: nat) < 256"
  shows "x * 16843009 mod 256 = x" and "x * 16843009 div 256 mod 256 = x"
    and "x * 16843009 div 65536 mod 256 = x" and "x * 16843009 div 16777216 mod 256 = x"
proof -
  have "x * 16843009 = x + 256 * (x * 65793)" by simp
  then show "x * 16843009 mod 256 = x"
    using assms by (simp only: mod_mult_self2 mod_less)
  have "x * 16843009 = x + (x * 65793) * 256" by simp
  then have "x * 16843009 div 256 = x * 65793"
    using assms by (simp only: div_mult_self1 div_less)
  moreover have "x * 65793 = x + 256 * (x * 257)" by simp
  ultimately show "x * 16843009 div 256 mod 256 = x"
    using assms by (simp only: mod_mult_self2 mod_less)
  have "x * 16843009 = x * 257 + (x * 257) * 65536" and "x * 257 < 65536"
    using assms by simp_all
  then have "x * 16843009 div 65536 = x * 257"
    by (simp only: div_mult_self1 div_less)
  moreover have "x * 257 = x + 256 * x" by simp
  ultimately show "x * 16843009 div 65536 mod 256 = x"
    using assms by (simp only: mod_mult_self2 mod_less)
  have "x * 16843009 = x * 65793 + x * 16777216" and "x * 65793 < 16777216"
    using assms by simp_all
  then have "x * 16843009 div 16777216 = x"
    by (simp only: div_mult_self1 div_less)
  then show "x * 16843009 div 16777216 mod 256 = x"
    using assms by simp
qed

lemma byte_of_splat:
  assumes "k < 4"
  shows "byte_of k (ucast v * 0x01010101 :: u32) = v"
proof -
  have v: "unat v < 256" by (rule unat_lt8)
  have "unat (ucast v * 0x01010101 :: u32) = unat v * 16843009"
    using v by (subst unat_mult32) (simp_all add: unsigned_ucast_eq take_bit_eq_mod)
  moreover have "unat v * 16843009 mod 4294967296 = unat v * 16843009"
    using v by simp
  ultimately have "unat (byte_of k (ucast v * 0x01010101 :: u32)) = unat v * 16843009 div 2 ^ (8 * k) mod 256"
    by (simp add: byte_of_def unsigned_ucast_eq unsigned_drop_bit_eq take_bit_eq_mod
        drop_bit_eq_div [where ?'a = nat])
  also have "\<dots> = unat v"
  proof -
    consider "k = 0" | "k = 1" | "k = 2" | "k = 3" using assms by linarith
    then show ?thesis using splat_bytes [OF v] by cases simp_all
  qed
  finally show ?thesis by (simp add: word_unat_eq_iff)
qed

lemma store32_splat: "store32 m d (ucast v * 0x01010101) = set_bytes m d v 4"
proof
  fix a
  have [simp]: "unat (a - d) < 4 \<longleftrightarrow> a = d \<or> a = d + 1 \<or> a = d + 2 \<or> a = d + 3"
  proof -
    have "unat (a - d) < 4 \<longleftrightarrow> unat (a - d) = 0 \<or> unat (a - d) = 1 \<or> unat (a - d) = 2 \<or> unat (a - d) = 3"
      by linarith
    also have "\<dots> \<longleftrightarrow> a - d = 0 \<or> a - d = 1 \<or> a - d = 2 \<or> a - d = 3"
      by (simp add: u32_eq_iff)
    finally show ?thesis by (auto simp: algebra_simps)
  qed
  show "store32 m d (ucast v * 0x01010101) a = set_bytes m d v 4 a"
    by (simp add: store32_def set_bytes_def byte_of_splat)
qed

text \<open>Each phase of the loop fills a prefix and leaves pointer and count right behind it.\<close>

definition filled :: "mem \<Rightarrow> u32 \<Rightarrow> nat \<Rightarrow> u8 \<Rightarrow> mem \<times> u32 \<times> nat \<Rightarrow> bool" where
  "filled m d n v r \<longleftrightarrow>
     (case r of (m', d', n') \<Rightarrow>
       n' \<le> n \<and> d' = d + of_nat (n - n') \<and> m' = set_bytes m d v (n - n'))"

lemma filled_step:
  assumes "filled (set_bytes m d v k) (d + of_nat k) n v r" "k + n \<le> 4294967296"
  shows "filled m d (k + n) v r"
  using assms set_bytes_append [of k "n - snd (snd r)" m d v]
  by (auto simp: filled_def algebra_simps split: prod.splits)

lemma filled_refl: "filled m d n v (m, d, n)"
  by (simp add: filled_def)

lemma set_bytes_1: "set_bytes m d v 1 = m(d := v)"
  by (simp add: set_bytes_def fun_eq_iff unsigned_eq_0_iff)

lemma filled_head: "n \<le> 4294967296 \<Longrightarrow> filled m d n v (memset_head m d n v)"
proof (induction m d n v rule: memset_head.induct)
  case (2 m d n v)
  let ?r = "memset_head (m(d := v)) (d + 1) n v"
  show ?case
  proof (cases "d AND 3 = 0")
    case False
    with "2.IH" "2.prems" have "filled (m(d := v)) (d + 1) n v ?r"
      by linarith
    then have "filled (set_bytes m d v 1) (d + of_nat 1) n v ?r"
      by (simp only: set_bytes_1 of_nat_1)
    then have "filled m d (1 + n) v ?r"
      using "2.prems" by (intro filled_step) simp_all
    with False show ?thesis by simp
  qed (simp add: filled_refl)
qed (simp add: filled_refl)

lemma filled_bulk:
  "n \<le> 4294967296 \<Longrightarrow> filled m d n v (memset_bulk m d n (ucast v * 0x01010101))"
proof (induction n arbitrary: m d rule: less_induct)
  case (less n)
  show ?case
  proof (cases "4 \<le> n")
    case True
    let ?r = "memset_bulk (set_bytes m d v 4) (d + 4) (n - 4) (ucast v * 0x01010101)"
    have "filled (set_bytes m d v 4) (d + of_nat 4) (n - 4) v ?r"
      using less.IH [of "n - 4"] less.prems True by simp
    then have "filled m d n v ?r"
      using filled_step [of m d v 4 "n - 4"] True less.prems by simp
    with True show ?thesis
      by (simp add: memset_bulk.simps [of m d n] store32_splat)
  next
    case False
    then show ?thesis
      by (simp add: memset_bulk.simps [of m d n] filled_refl)
  qed
qed

lemma memset_eq: "memset m dest v count = set_bytes m dest v (unat count)"
proof -
  obtain m1 d1 n1 where h: "memset_head m dest (unat count) v = (m1, d1, n1)"
    by (metis prod_cases3)
  obtain m2 d2 n2 where b: "memset_bulk m1 d1 n1 (ucast v * 0x01010101) = (m2, d2, n2)"
    by (metis prod_cases3)
  have c: "unat count \<le> 4294967296"
    using unat_lt32 [of count] by simp
  have 1: "filled m dest (unat count) v (m1, d1, n1)"
    using filled_head [OF c, of m dest v] h by simp
  then have "n1 \<le> 4294967296"
    using c by (simp add: filled_def)
  then have 2: "filled m1 d1 n1 v (m2, d2, n2)"
    using filled_bulk [of n1 m1 d1 v] b by simp
  have "filled m dest (unat count) v (m2, d2, n2)"
    using 1 2 c filled_step [of m dest v "unat count - n1" n1 "(m2, d2, n2)"]
    by (simp add: filled_def)
  then have "memset_tail m2 d2 n2 v = set_bytes m dest v (unat count)"
    using c set_bytes_append [of "unat count - n2" n2 m dest v]
    by (simp add: filled_def memset_tail_eq)
  then show ?thesis
    by (simp add: memset_def h b)
qed

text \<open>\<open>memset\<close> with its 32-bit fast path sets exactly the \<open>count\<close> bytes from \<open>dest\<close>
  on to the value, for every alignment and every count, and no other byte.\<close>

theorem memset_correct: "memset m dest v count = set_bytes m dest v (unat count)"
  by (rule memset_eq)

subsection \<open>memcpy and memmove\<close>

fun memcpy_bytes :: "mem \<Rightarrow> u32 \<Rightarrow> u32 \<Rightarrow> nat \<Rightarrow> mem" where
  "memcpy_bytes m d s 0 = m"
| "memcpy_bytes m d s (Suc n) = memcpy_bytes (m(d := m s)) (d + 1) (s + 1) n"

fun memcpy_head :: "mem \<Rightarrow> u32 \<Rightarrow> u32 \<Rightarrow> nat \<Rightarrow> mem \<times> u32 \<times> u32 \<times> nat" where
  "memcpy_head m d s 0 = (m, d, s, 0)"
| "memcpy_head m d s (Suc n) =
     (if d AND 3 \<noteq> 0 then memcpy_head (m(d := m s)) (d + 1) (s + 1) n else (m, d, s, Suc n))"

fun memcpy_bulk :: "mem \<Rightarrow> u32 \<Rightarrow> u32 \<Rightarrow> nat \<Rightarrow> mem \<times> u32 \<times> u32 \<times> nat" where
  "memcpy_bulk m d s n =
     (if 4 \<le> n then memcpy_bulk (store32 m d (load32 m s)) (d + 4) (s + 4) (n - 4)
      else (m, d, s, n))"

declare memcpy_bulk.simps [simp del]

definition memcpy :: "mem \<Rightarrow> u32 \<Rightarrow> u32 \<Rightarrow> u32 \<Rightarrow> mem" where
  "memcpy m dest src count =
     (let (m2, d2, s2, n2) =
            (if dest AND 3 = src AND 3 then
               (let (m1, d1, s1, n1) = memcpy_head m dest src (unat count)
                in memcpy_bulk m1 d1 s1 n1)
             else (m, dest, src, unat count))
      in memcpy_bytes m2 d2 s2 n2)"

fun memmove_back :: "mem \<Rightarrow> u32 \<Rightarrow> u32 \<Rightarrow> nat \<Rightarrow> mem" where
  "memmove_back m d s 0 = m"
| "memmove_back m d s (Suc n) = memmove_back (m(d - 1 := m (s - 1))) (d - 1) (s - 1) n"

definition memmove :: "mem \<Rightarrow> u32 \<Rightarrow> u32 \<Rightarrow> u32 \<Rightarrow> mem" where
  "memmove m dest src count =
     (if dest < src then memcpy_bytes m dest src (unat count)
      else if src < dest then memmove_back m (dest + count) (src + count) (unat count)
      else m)"

text \<open>The reference: every byte of the destination takes the source byte of the
  \emph{original} memory. A forward copy computes it unless the destination starts inside
  the source.\<close>

definition copy_bytes :: "mem \<Rightarrow> u32 \<Rightarrow> u32 \<Rightarrow> nat \<Rightarrow> mem" where
  "copy_bytes m d s n = (\<lambda>a. if unat (a - d) < n then m (s + (a - d)) else m a)"

definition fwd_ok :: "u32 \<Rightarrow> u32 \<Rightarrow> nat \<Rightarrow> bool" where
  "fwd_ok d s n \<longleftrightarrow> d = s \<or> n \<le> unat (d - s)"

lemma copy_bytes_0 [simp]: "copy_bytes m d s 0 = m"
  by (simp add: copy_bytes_def)

lemma copy_bytes_1: "copy_bytes m d s 1 = m(d := m s)"
  by (simp add: copy_bytes_def fun_eq_iff unsigned_eq_0_iff)

lemma copy_bytes_same: "copy_bytes m d d n = m"
  by (simp add: copy_bytes_def fun_eq_iff)

lemma unat_less_4: "unat (a - d :: u32) < 4 \<longleftrightarrow> a = d \<or> a = d + 1 \<or> a = d + 2 \<or> a = d + 3"
proof -
  have "unat (a - d) < 4 \<longleftrightarrow> unat (a - d) = 0 \<or> unat (a - d) = 1 \<or> unat (a - d) = 2 \<or> unat (a - d) = 3"
    by linarith
  also have "\<dots> \<longleftrightarrow> a - d = 0 \<or> a - d = 1 \<or> a - d = 2 \<or> a - d = 3"
    by (simp add: u32_eq_iff)
  finally show ?thesis by (auto simp: algebra_simps)
qed

lemma store32_load32: "store32 m d (load32 m s) = copy_bytes m d s 4"
  by (auto simp: store32_def load32_def copy_bytes_def byte_of_le32 [simplified] unat_less_4 fun_eq_iff)

lemma copy_bytes_append:
  assumes "k + n \<le> 4294967296" "fwd_ok d s (k + n)"
  shows "copy_bytes (copy_bytes m d s k) (d + of_nat k) (s + of_nat k) n = copy_bytes m d s (k + n)"
proof (cases "d = s")
  case True
  then show ?thesis by (simp add: copy_bytes_same)
next
  case False
  then have far: "k + n \<le> unat (d - s)"
    using assms(2) by (simp add: fwd_ok_def)
  then have k: "unat (of_nat k :: u32) = k"
    using unat_lt32 [of "d - s"] by (intro unat_of_nat32) linarith
  show ?thesis
  proof
    fix a
    show "copy_bytes (copy_bytes m d s k) (d + of_nat k) (s + of_nat k) n a = copy_bytes m d s (k + n) a"
    proof (cases "unat (a - d) < k")
      case True
      have "unat (a - (d + of_nat k)) = unat (a - d) + 4294967296 - k"
        using True k unat_sub_if' [of "a - d" "of_nat k"] by (simp add: diff_diff_eq)
      then have "\<not> unat (a - (d + of_nat k)) < n"
        using far unat_lt32 [of "d - s"] by linarith
      with True show ?thesis by (simp add: copy_bytes_def)
    next
      case ge: False
      have sub: "unat (a - (d + of_nat k)) = unat (a - d) - k"
        using ge k unat_sub_if' [of "a - d" "of_nat k"] by (simp add: diff_diff_eq)
      show ?thesis
      proof (cases "unat (a - d) < k + n")
        case True
        have "unat ((a - d) - (d - s)) = unat (a - d) + 4294967296 - unat (d - s)"
          using True far unfolding unat_sub_if' [of "a - d" "d - s"] by simp
        moreover have "s + (a - d) - d = (a - d) - (d - s)" by simp
        ultimately have "unat (s + (a - d) - d) = unat (a - d) + 4294967296 - unat (d - s)"
          by (simp only:)
        then have "\<not> unat (s + (a - d) - d) < k"
          using ge unat_lt32 [of "d - s"] by linarith
        then have "copy_bytes m d s k (s + (a - d)) = m (s + (a - d))"
          by (simp add: copy_bytes_def)
        moreover have "s + of_nat k + (a - (d + of_nat k)) = s + (a - d)" by simp
        moreover have "unat (a - d) - k < n"
          using True ge by linarith
        ultimately show ?thesis
          using True sub ge by (simp add: copy_bytes_def [of "copy_bytes m d s k"] copy_bytes_def [of m d s "k + n"])
      next
        case False
        then have "\<not> unat (a - d) - k < n"
          using ge by linarith
        then show ?thesis
          using sub ge False by (simp add: copy_bytes_def)
      qed
    qed
  qed
qed

text \<open>The phases of \<open>memcpy\<close>, as for \<open>memset\<close>: a prefix copied, the three cursors behind it.\<close>

definition copied :: "mem \<Rightarrow> u32 \<Rightarrow> u32 \<Rightarrow> nat \<Rightarrow> mem \<times> u32 \<times> u32 \<times> nat \<Rightarrow> bool" where
  "copied m d s n r \<longleftrightarrow>
     (case r of (m', d', s', n') \<Rightarrow>
       n' \<le> n \<and> d' = d + of_nat (n - n') \<and> s' = s + of_nat (n - n') \<and>
       m' = copy_bytes m d s (n - n'))"

lemma copied_refl: "copied m d s n (m, d, s, n)"
  by (simp add: copied_def)

lemma fwd_ok_mono: "fwd_ok d s n \<Longrightarrow> k \<le> n \<Longrightarrow> fwd_ok d s k"
  by (auto simp: fwd_ok_def)

lemma fwd_ok_shift: "fwd_ok (d + x) (s + x) n = fwd_ok d s n"
  by (simp add: fwd_ok_def)

lemma fwd_ok_after: "fwd_ok d s n \<Longrightarrow> k \<le> n \<Longrightarrow> fwd_ok (d + x) (s + x) k"
  by (auto simp: fwd_ok_shift intro: fwd_ok_mono)

lemma copied_step:
  assumes "copied (copy_bytes m d s k) (d + of_nat k) (s + of_nat k) n r"
    and "k + n \<le> 4294967296" "fwd_ok d s (k + n)"
  shows "copied m d s (k + n) r"
proof -
  obtain m' d' s' n' where r: "r = (m', d', s', n')"
    by (metis prod_cases4)
  have "fwd_ok d s (k + (n - n'))"
    using assms(3) by (rule fwd_ok_mono) simp
  then have "copy_bytes (copy_bytes m d s k) (d + of_nat k) (s + of_nat k) (n - n')
      = copy_bytes m d s (k + (n - n'))"
    using assms(2) by (intro copy_bytes_append) auto
  then show ?thesis
    using assms(1) r by (auto simp: copied_def)
qed

lemma memcpy_bytes_eq:
  "n \<le> 4294967296 \<Longrightarrow> fwd_ok d s n \<Longrightarrow> memcpy_bytes m d s n = copy_bytes m d s n"
proof (induction n arbitrary: m d s)
  case (Suc n)
  then have "memcpy_bytes (m(d := m s)) (d + 1) (s + 1) n
      = copy_bytes (copy_bytes m d s 1) (d + of_nat 1) (s + of_nat 1) n"
    using fwd_ok_after [OF Suc.prems(2), of n 1] by (simp add: copy_bytes_1 [simplified])
  also have "\<dots> = copy_bytes m d s (1 + n)"
    using Suc.prems by (intro copy_bytes_append) simp_all
  finally show ?case by simp
qed simp

lemma copied_head:
  "n \<le> 4294967296 \<Longrightarrow> fwd_ok d s n \<Longrightarrow> copied m d s n (memcpy_head m d s n)"
proof (induction m d s n rule: memcpy_head.induct)
  case (2 m d s n)
  let ?r = "memcpy_head (m(d := m s)) (d + 1) (s + 1) n"
  show ?case
  proof (cases "d AND 3 = 0")
    case False
    have "fwd_ok (d + 1) (s + 1) n"
      using "2.prems"(2) by (rule fwd_ok_after) simp
    with False "2.IH" "2.prems" have "copied (m(d := m s)) (d + 1) (s + 1) n ?r"
      by linarith
    then have "copied (copy_bytes m d s 1) (d + of_nat 1) (s + of_nat 1) n ?r"
      by (simp only: copy_bytes_1 of_nat_1)
    then have "copied m d s (1 + n) ?r"
      using "2.prems" by (intro copied_step) simp_all
    with False show ?thesis by simp
  qed (simp add: copied_refl)
qed (simp add: copied_refl)

lemma copied_bulk:
  "n \<le> 4294967296 \<Longrightarrow> fwd_ok d s n \<Longrightarrow> copied m d s n (memcpy_bulk m d s n)"
proof (induction n arbitrary: m d s rule: less_induct)
  case (less n)
  show ?case
  proof (cases "4 \<le> n")
    case True
    let ?r = "memcpy_bulk (copy_bytes m d s 4) (d + 4) (s + 4) (n - 4)"
    have "copied (copy_bytes m d s 4) (d + of_nat 4) (s + of_nat 4) (n - 4) ?r"
      using less.IH [of "n - 4"] less.prems True fwd_ok_after [OF less.prems(2), of "n - 4" 4] by simp
    then have "copied m d s (4 + (n - 4)) ?r"
      using less.prems True by (intro copied_step) simp_all
    with True show ?thesis
      by (simp add: memcpy_bulk.simps [of m d s n] store32_load32)
  next
    case False
    then show ?thesis
      by (simp add: memcpy_bulk.simps [of m d s n] copied_refl)
  qed
qed

lemma memcpy_copies:
  assumes "fwd_ok dest src (unat count)"
  shows "memcpy m dest src count = copy_bytes m dest src (unat count)"
proof -
  let ?n = "unat count"
  have c: "?n \<le> 4294967296"
    using unat_lt32 [of count] by simp
  have finish: "memcpy_bytes m2 d2 s2 n2 = copy_bytes m dest src ?n"
    if "copied m dest src ?n (m2, d2, s2, n2)" for m2 d2 s2 n2
  proof -
    from that have n2: "n2 \<le> ?n" and d2: "d2 = dest + of_nat (?n - n2)"
      and s2: "s2 = src + of_nat (?n - n2)" and m2: "m2 = copy_bytes m dest src (?n - n2)"
      by (simp_all add: copied_def)
    have "fwd_ok d2 s2 n2"
      using assms n2 by (auto simp: d2 s2 fwd_ok_shift intro: fwd_ok_mono)
    then have "memcpy_bytes m2 d2 s2 n2 = copy_bytes m2 d2 s2 n2"
      using c n2 by (intro memcpy_bytes_eq) simp_all
    also have "\<dots> = copy_bytes m dest src (?n - n2 + n2)"
      unfolding m2 d2 s2 using assms c n2 by (intro copy_bytes_append) simp_all
    finally show ?thesis using n2 by simp
  qed
  show ?thesis
  proof (cases "dest AND 3 = src AND 3")
    case True
    obtain m1 d1 s1 n1 where h: "memcpy_head m dest src ?n = (m1, d1, s1, n1)"
      by (metis prod_cases4)
    obtain m2 d2 s2 n2 where b: "memcpy_bulk m1 d1 s1 n1 = (m2, d2, s2, n2)"
      by (metis prod_cases4)
    have 1: "copied m dest src ?n (m1, d1, s1, n1)"
      using copied_head [OF c assms, of m] h by simp
    then have n1: "n1 \<le> ?n" and "fwd_ok d1 s1 n1"
      using assms by (auto simp: copied_def fwd_ok_shift intro: fwd_ok_mono)
    then have "copied m1 d1 s1 n1 (m2, d2, s2, n2)"
      using copied_bulk [of n1 d1 s1 m1] b c by simp
    with 1 have "copied m dest src (?n - n1 + n1) (m2, d2, s2, n2)"
      using c n1 assms by (intro copied_step) (auto simp: copied_def)
    then show ?thesis
      using True n1 finish by (simp add: memcpy_def h b)
  next
    case False
    then show ?thesis
      using finish [of m dest src ?n] by (simp add: memcpy_def copied_refl)
  qed
qed

text \<open>C26: unless the destination starts inside the source, \<open>memcpy\<close> (word path or byte path,
  whichever the alignments select) copies exactly \<open>count\<close> bytes and changes no other.\<close>

theorem memcpy_correct:
  assumes "fwd_ok dest src (unat count)"
  shows "memcpy m dest src count = copy_bytes m dest src (unat count)"
  by (rule memcpy_copies [OF assms])

text \<open>The backward loop runs down from the two end pointers.\<close>

lemma memmove_back_eq:
  "d = s \<or> n \<le> unat (s - d) \<Longrightarrow>
   memmove_back m (d + of_nat n) (s + of_nat n) n = copy_bytes m d s n"
proof (induction n arbitrary: m)
  case (Suc n)
  let ?m = "m(d + of_nat n := m (s + of_nat n))"
  have "d = s \<or> n \<le> unat (s - d)"
    using Suc.prems by auto
  then have IH: "memmove_back ?m (d + of_nat n) (s + of_nat n) n = copy_bytes ?m d s n"
    by (rule Suc.IH)
  have "copy_bytes ?m d s n = copy_bytes m d s (Suc n)"
  proof (cases "d = s")
    case True
    then show ?thesis by (simp add: copy_bytes_same fun_eq_iff)
  next
    case False
    with Suc.prems have far: "Suc n \<le> unat (s - d)" by simp
    then have n: "unat (of_nat n :: u32) = n"
      using unat_lt32 [of "s - d"] by (intro unat_of_nat32) linarith
    show ?thesis
    proof
      fix a
      have edge: "a = d + of_nat n \<longleftrightarrow> unat (a - d) = n"
        using n by (metis add_diff_cancel_left' diff_add_cancel word_unat_eq_iff)
      have "s + (a - d) \<noteq> d + of_nat n" if "unat (a - d) < n"
      proof
        assume "s + (a - d) = d + of_nat n"
        then have "s - d = of_nat n - (a - d)" by (simp add: algebra_simps)
        moreover have "unat (of_nat n - (a - d)) = n - unat (a - d)"
          using unat_sub32 [of "a - d" "of_nat n"] that unfolding n by simp
        ultimately have "unat (s - d) = n - unat (a - d)"
          by (simp only:)
        with far show False by linarith
      qed
      then show "copy_bytes ?m d s n a = copy_bytes m d s (Suc n) a"
        using edge by (auto simp: copy_bytes_def less_Suc_eq)
    qed
  qed
  with IH show ?case
    by (simp add: add.assoc [symmetric])
qed simp

text \<open>\<open>memmove\<close> copies correctly for every overlap of the two regions, as long as neither
  wraps around the end of the address space.\<close>

theorem memmove_correct:
  assumes "unat dest + unat count \<le> 4294967296" "unat src + unat count \<le> 4294967296"
  shows "memmove m dest src count = copy_bytes m dest src (unat count)"
proof -
  consider "dest < src" | "src < dest" | "dest = src" by (rule linorder_cases)
  then show ?thesis
  proof cases
    case 1
    then have "unat (dest - src) = unat dest + 4294967296 - unat src"
      using unat_sub_if' [of dest src] by (simp add: word_less_nat_alt)
    then have "unat count \<le> unat (dest - src)"
      using assms by linarith
    then have "fwd_ok dest src (unat count)"
      by (simp add: fwd_ok_def)
    with 1 show ?thesis
      using unat_lt32 [of count] by (simp add: memmove_def memcpy_bytes_eq)
  next
    case 2
    then have "unat (src - dest) = unat src + 4294967296 - unat dest"
      using unat_sub_if' [of src dest] by (simp add: word_less_nat_alt)
    then have "unat count \<le> unat (src - dest)"
      using assms by linarith
    then show ?thesis
      using 2 less_not_sym [OF 2] memmove_back_eq [of dest src "unat count" m]
      by (simp add: memmove_def)
  next
    case 3
    then show ?thesis by (simp add: memmove_def copy_bytes_same)
  qed
qed

theorem memcpy_correct_witness: "memcpy (\<lambda>a. ucast a) 0x203 0x107 9 0x20A = 0x0E"
  using memcpy_correct [where dest = "0x203" and src = "0x107" and count = 9 and m = "\<lambda>a. ucast a"]
  by (simp add: fwd_ok_def copy_bytes_def)

theorem memmove_correct_witness: "memmove (\<lambda>a. ucast a) 0x104 0x100 9 0x10B = 0x07"
  using memmove_correct [where dest = "0x104" and count = 9 and src = "0x100" and m = "\<lambda>a. ucast a"] by (simp add: copy_bytes_def)

subsection \<open>Comparisons and lengths\<close>

fun memcmp_loop :: "mem \<Rightarrow> u32 \<Rightarrow> u32 \<Rightarrow> nat \<Rightarrow> int" where
  "memcmp_loop m a b 0 = 0"
| "memcmp_loop m a b (Suc n) =
     (if m a \<noteq> m b then uint (m a) - uint (m b) else memcmp_loop m (a + 1) (b + 1) n)"

definition memcmp :: "mem \<Rightarrow> u32 \<Rightarrow> u32 \<Rightarrow> u32 \<Rightarrow> int" where
  "memcmp m a b count = memcmp_loop m a b (unat count)"

text \<open>The unbounded loops return only if they meet a terminator: \<open>None\<close> is "never returns".\<close>

partial_function (option) strlen_loop :: "mem \<Rightarrow> u32 \<Rightarrow> u32 \<Rightarrow> u32 option" where
  "strlen_loop m s p = (if m p \<noteq> 0 then strlen_loop m s (p + 1) else Some (p - s))"

definition strlen :: "mem \<Rightarrow> u32 \<Rightarrow> u32 option" where
  "strlen m s = strlen_loop m s s"

partial_function (option) strcmp :: "mem \<Rightarrow> u32 \<Rightarrow> u32 \<Rightarrow> int option" where
  "strcmp m a b =
     (if m a \<noteq> 0 \<and> m a = m b then strcmp m (a + 1) (b + 1)
      else Some (uint (m a) - uint (m b)))"

fun strncmp_loop :: "mem \<Rightarrow> u32 \<Rightarrow> u32 \<Rightarrow> nat \<Rightarrow> int" where
  "strncmp_loop m a b 0 = 0"
| "strncmp_loop m a b (Suc n) =
     (if m a \<noteq> 0 \<and> m a = m b then strncmp_loop m (a + 1) (b + 1) n
      else uint (m a) - uint (m b))"

definition strncmp :: "mem \<Rightarrow> u32 \<Rightarrow> u32 \<Rightarrow> u32 \<Rightarrow> int" where
  "strncmp m a b count = strncmp_loop m a b (unat count)"

text \<open>A zero-terminated string in memory, and the comparison of two strings as byte lists
  (the terminator is the implicit zero behind the last byte).\<close>

fun cstr_at :: "mem \<Rightarrow> u32 \<Rightarrow> u8 list \<Rightarrow> bool" where
  "cstr_at m p [] \<longleftrightarrow> m p = 0"
| "cstr_at m p (c # cs) \<longleftrightarrow> c \<noteq> 0 \<and> m p = c \<and> cstr_at m (p + 1) cs"

fun strcmp_bytes :: "u8 list \<Rightarrow> u8 list \<Rightarrow> int" where
  "strcmp_bytes [] [] = 0"
| "strcmp_bytes [] (y # ys) = 0 - uint y"
| "strcmp_bytes (x # xs) [] = uint x"
| "strcmp_bytes (x # xs) (y # ys) = (if x = y then strcmp_bytes xs ys else uint x - uint y)"

fun strncmp_bytes :: "u8 list \<Rightarrow> u8 list \<Rightarrow> nat \<Rightarrow> int" where
  "strncmp_bytes xs ys n = strcmp_bytes (take n xs) (take n ys)"

lemma strlen_loop_cstr: "cstr_at m p s \<Longrightarrow> strlen_loop m q p = Some (p + of_nat (length s) - q)"
  by (induction s arbitrary: p) (simp_all add: strlen_loop.simps [of m q] add.assoc)

lemma strcmp_eq_bytes: "cstr_at m a s \<Longrightarrow> cstr_at m b t \<Longrightarrow> strcmp m a b = Some (strcmp_bytes s t)"
proof (induction s t arbitrary: a b rule: strcmp_bytes.induct)
  case (4 x xs y ys)
  then show ?case by (cases "x = y") (simp_all add: strcmp.simps [of m a b])
qed (simp_all add: strcmp.simps)

lemma strncmp_eq_bytes:
  "cstr_at m a s \<Longrightarrow> cstr_at m b t \<Longrightarrow> strncmp_loop m a b n = strncmp_bytes s t n"
proof (induction m a b n arbitrary: s t rule: strncmp_loop.induct)
  case (2 m a b n)
  then show ?case by (cases s; cases t) auto
qed simp

lemma strcmp_bytes_0 [simp]: "0 \<notin> set s \<Longrightarrow> 0 \<notin> set t \<Longrightarrow> strcmp_bytes s t = 0 \<longleftrightarrow> s = t"
  by (induction s t rule: strcmp_bytes.induct) (auto simp: word_uint_eq_iff)

lemma strcmp_bytes_less:
  "0 \<notin> set s \<Longrightarrow> 0 \<notin> set t \<Longrightarrow> strcmp_bytes s t < 0 \<longleftrightarrow> (s, t) \<in> lexord {(x, y). x < y}"
proof (induction s t rule: strcmp_bytes.induct)
  case (2 y ys)
  then show ?case by (simp add: order_less_le unsigned_eq_0_iff)
next
  case (4 x xs y ys)
  then show ?case by (auto simp: word_less_def)
qed simp_all

lemma cstr_at_nonzero: "cstr_at m p s \<Longrightarrow> 0 \<notin> set s"
  by (induction s arbitrary: p) auto

text \<open>On two zero-terminated strings \<open>strcmp\<close> returns; its result is zero exactly for equal
  strings and negative exactly when the first is smaller in the unsigned byte-wise
  lexicographic order.\<close>

theorem strcmp_correct:
  assumes "cstr_at m a s" "cstr_at m b t"
  shows "\<exists>r. strcmp m a b = Some r \<and> (r = 0 \<longleftrightarrow> s = t) \<and> (r < 0 \<longleftrightarrow> (s, t) \<in> lexord {(x, y). x < y})"
  using cstr_at_nonzero [OF assms(1)] cstr_at_nonzero [OF assms(2)]
  by (simp add: strcmp_eq_bytes [OF assms] strcmp_bytes_less)

theorem strcmp_correct_witness:
  "\<exists>r. strcmp ((\<lambda>_. 0)(8 := 0x61, 9 := 0x62, 16 := 0x61, 17 := 0xE9)) 8 16 = Some r \<and> r < 0"
proof -
  let ?m = "(\<lambda>_. 0)(8 := 0x61, 9 := 0x62, 16 := 0x61, 17 := 0xE9)"
  have "cstr_at ?m 8 [0x61, 0x62]" "cstr_at ?m 16 [0x61, 0xE9]" by simp_all
  then have "\<exists>r. strcmp ?m 8 16 = Some r \<and> (r = 0 \<longleftrightarrow> [0x61, 0x62 :: u8] = [0x61, 0xE9]) \<and>
      (r < 0 \<longleftrightarrow> ([0x61, 0x62 :: u8], [0x61, 0xE9]) \<in> lexord {(x, y). x < y})"
    by (rule strcmp_correct)
  moreover have "([0x61, 0x62 :: u8], [0x61, 0xE9]) \<in> lexord {(x, y). x < y}" by simp
  ultimately show ?thesis by blast
qed

lemma strncmp_prefix:
  assumes "cstr_at m a s" "cstr_at m b t"
  shows "strncmp m a b n = 0 \<longleftrightarrow> take (unat n) s = take (unat n) t"
proof -
  have "0 \<notin> set (take k s)" "0 \<notin> set (take k t)" for k
    using assms cstr_at_nonzero by (meson in_set_takeD)+
  then show ?thesis
    by (simp add: strncmp_def strncmp_eq_bytes [OF assms])
qed

lemma strlen_cstr: "cstr_at m p s \<Longrightarrow> strlen m p = Some (of_nat (length s))"
  by (simp add: strlen_def strlen_loop_cstr)

lemma memcmp_zero: "memcmp_loop m a b n = 0 \<longleftrightarrow> (\<forall>i < n. m (a + of_nat i) = m (b + of_nat i))"
proof (induction n arbitrary: a b)
  case (Suc n)
  show ?case
    by (auto simp: Suc.IH All_less_Suc2 word_uint_eq_iff add.assoc)
qed simp

subsection \<open>Reading back a filled region\<close>

lemma set_bytes_unat:
  assumes "unat d + n \<le> 4294967296"
  shows "set_bytes m d v n a = (if unat d \<le> unat a \<and> unat a < unat d + n then v else m a)"
proof (cases "unat d \<le> unat a")
  case True
  then show ?thesis
    by (auto simp: set_bytes_def unat_sub32)
next
  case False
  then have "unat (a - d) = unat a + 4294967296 - unat d"
    using unat_sub_if' [of a d] by simp
  then have "\<not> unat (a - d) < n"
    using assms by linarith
  then show ?thesis
    using False by (simp add: set_bytes_def)
qed

end
