(* ===== verification/Memmap.thy ===== *)
theory Memmap
  imports Prelude
begin

text \<open>
  \<open>kernel/memmap.c\<close>, \<open>kernel/memmap.h\<close>: the C-side reader of the BIOS E820 map, which the
  entry stub left at \<open>0x6000\<close>: a 32-bit count, then packed 24-byte entries. The memory
  itself is the parameter \<open>m\<close>.
\<close>

record e820_entry =
  e_base :: u64
  e_len :: u64
  e_type :: u32
  e_attr :: u32

definition E820_BUF :: u32 where "E820_BUF = 0x6000"
definition E820_USABLE :: u32 where "E820_USABLE = 1"
definition E820_RESERVED :: u32 where "E820_RESERVED = 2"
definition E820_ACPI_RECLAIM :: u32 where "E820_ACPI_RECLAIM = 3"
definition E820_ACPI_NVS :: u32 where "E820_ACPI_NVS = 4"
definition E820_BAD :: u32 where "E820_BAD = 5"

definition memmap_count :: "mem \<Rightarrow> u32" where
  "memmap_count m = load32 m E820_BUF"

text \<open>\<open>memmap_entries()[i]\<close>: the packed entry at \<open>E820_BUF + 4 + 24 * i\<close>.\<close>

definition memmap_entry :: "mem \<Rightarrow> nat \<Rightarrow> e820_entry" where
  "memmap_entry m i =
     (let a = E820_BUF + 4 + 24 * of_nat i
      in \<lparr>e_base = load64 m a, e_len = load64 m (a + 8),
          e_type = load32 m (a + 16), e_attr = load32 m (a + 20)\<rparr>)"

definition memmap_list :: "mem \<Rightarrow> e820_entry list" where
  "memmap_list m = map (memmap_entry m) [0..<unat (memmap_count m)]"

definition memmap_type_name :: "u32 \<Rightarrow> string" where
  "memmap_type_name t =
     (if t = E820_USABLE then ''usable''
      else if t = E820_RESERVED then ''reserved''
      else if t = E820_ACPI_RECLAIM then ''ACPI reclaimable''
      else if t = E820_ACPI_NVS then ''ACPI NVS''
      else if t = E820_BAD then ''bad RAM''
      else ''unknown'')"

end
