(* ===== verification/Interfaces.thy ===== *)
theory Interfaces
  imports Prelude "HOL-Library.Sublist"
begin

text \<open>
  The contracts between components, as locales: what a client calls (\<open>fixes\<close>), what the
  provider promises (\<open>assumes\<close>), and the client's lemmas proved once over them. Each is
  interpreted on the model's own definitions in the theory of its provider.
\<close>

subsection \<open>A source of page frames (provider: \<open>pmm.c\<close>; clients: \<open>paging.c\<close>, \<open>heap.c\<close>)\<close>

text \<open>A client that takes up to \<open>n\<close> frames and stops at the first refusal (address 0).\<close>

fun take_frames :: "('s \<Rightarrow> u32 \<times> 's) \<Rightarrow> nat \<Rightarrow> 's \<Rightarrow> u32 list \<times> 's" where
  "take_frames alloc 0 s = ([], s)"
| "take_frames alloc (Suc n) s =
     (let (a, s1) = alloc s
      in if a = 0 then ([], s1)
         else let (as, s2) = take_frames alloc n s1 in (a # as, s2))"

locale frame_source =
  fixes alloc :: "'s \<Rightarrow> u32 \<times> 's"
    and avail :: "'s \<Rightarrow> u32 set"
    and inv :: "'s \<Rightarrow> bool"
  assumes finite_avail: "finite (avail s)"
    and avail_nonzero: "inv s \<Longrightarrow> 0 \<notin> avail s"
    and alloc_some: "inv s \<Longrightarrow> avail s \<noteq> {} \<Longrightarrow> alloc s = (a, s') \<Longrightarrow>
      a \<in> avail s \<and> avail s' = avail s - {a} \<and> inv s'"
    and alloc_none: "inv s \<Longrightarrow> avail s = {} \<Longrightarrow> alloc s = (0, s)"
begin

lemma alloc_zero_iff: "inv s \<Longrightarrow> fst (alloc s) = 0 \<longleftrightarrow> avail s = {}"
  using alloc_some alloc_none avail_nonzero by (metis fst_conv surj_pair)

lemma alloc_inv: "inv s \<Longrightarrow> inv (snd (alloc s))"
  using alloc_some alloc_none by (metis prod.collapse snd_conv)

lemma alloc_avail: "inv s \<Longrightarrow> avail (snd (alloc s)) = avail s - {fst (alloc s)}"
  using alloc_some [of s "fst (alloc s)" "snd (alloc s)"] alloc_none [of s]
  by (cases "avail s = {}") auto

lemma take_frames_correct:
  "inv s \<Longrightarrow> take_frames alloc n s = (as, s') \<Longrightarrow>
   distinct as \<and> set as \<subseteq> avail s \<and> avail s' = avail s - set as \<and> inv s' \<and>
   length as = min n (card (avail s))"
proof (induction n arbitrary: s as s')
  case (Suc n)
  obtain a s1 where a: "alloc s = (a, s1)" by fastforce
  show ?case
  proof (cases "avail s = {}")
    case True
    then show ?thesis using Suc.prems alloc_none by auto
  next
    case False
    then have s1: "a \<in> avail s" "avail s1 = avail s - {a}" "inv s1"
      using alloc_some Suc.prems(1) a by blast+
    then have "a \<noteq> 0" using avail_nonzero Suc.prems(1) by metis
    then obtain as2 where r: "take_frames alloc n s1 = (as2, s')" "as = a # as2"
      using Suc.prems(2) a by (auto split: prod.splits)
    moreover have "card (avail s) = Suc (card (avail s1))"
      using s1 finite_avail [of s] by (metis card.remove)
    ultimately show ?thesis
      using Suc.IH [OF s1(3) r(1)] s1 by auto
  qed
qed simp

end

subsection \<open>A disk of 512-byte sectors (provider: \<open>ata.c\<close>; client: \<open>fs.c\<close>)\<close>

text \<open>The client's loops over consecutive sectors: stop at the first error, as the code does.\<close>

fun wr_run :: "(u32 \<Rightarrow> u8 list \<Rightarrow> 's \<Rightarrow> int \<times> 's) \<Rightarrow> u32 \<Rightarrow> u8 list list \<Rightarrow> 's \<Rightarrow> int \<times> 's" where
  "wr_run wr lba [] s = (0, s)"
| "wr_run wr lba (c # cs) s =
     (let (r, s1) = wr lba c s in if r \<noteq> 0 then (- 1, s1) else wr_run wr (lba + 1) cs s1)"

fun rd_run :: "(u32 \<Rightarrow> u8 list \<Rightarrow> 's \<Rightarrow> (int \<times> u8 list) \<times> 's) \<Rightarrow> u32 \<Rightarrow> u8 list list \<Rightarrow> 's \<Rightarrow>
    (int \<times> u8 list list) \<times> 's" where
  "rd_run rd lba [] s = ((0, []), s)"
| "rd_run rd lba (c # cs) s =
     (let ((r, bs), s1) = rd lba c s
      in if r \<noteq> 0 then ((- 1, bs # cs), s1)
         else let ((r', bss), s2) = rd_run rd (lba + 1) cs s1 in ((r', bs # bss), s2))"

locale sector_disk =
  fixes rd :: "u32 \<Rightarrow> u8 list \<Rightarrow> 's \<Rightarrow> (int \<times> u8 list) \<times> 's"
    and wr :: "u32 \<Rightarrow> u8 list \<Rightarrow> 's \<Rightarrow> int \<times> 's"
    and ready :: "'s \<Rightarrow> bool"
    and cap :: "'s \<Rightarrow> nat"
    and sector :: "'s \<Rightarrow> u32 \<Rightarrow> u8 list"
  assumes sector_512: "ready s \<Longrightarrow> length (sector s l) = 512"
    and rd_ok: "ready s \<Longrightarrow> unat l < cap s \<Longrightarrow>
      \<exists>s'. rd l buf s = ((0, sector s l), s') \<and> ready s' \<and> cap s' = cap s \<and> sector s' = sector s"
    and wr_ok: "ready s \<Longrightarrow> unat l < cap s \<Longrightarrow> length buf = 512 \<Longrightarrow>
      \<exists>s'. wr l buf s = (0, s') \<and> ready s' \<and> cap s' = cap s \<and>
        (\<forall>k. unat k < cap s \<longrightarrow> sector s' k = (if k = l then buf else sector s k))"
begin

lemma wr_run_ok:
  "ready s \<Longrightarrow> unat l + length cs \<le> cap s \<Longrightarrow> cap s \<le> 4294967296 \<Longrightarrow> \<forall>c \<in> set cs. length c = 512 \<Longrightarrow>
   \<exists>s'. wr_run wr l cs s = (0, s') \<and> ready s' \<and> cap s' = cap s \<and>
     (\<forall>k. unat k < cap s \<longrightarrow>
        sector s' k = (if unat l \<le> unat k \<and> unat k < unat l + length cs then cs ! (unat k - unat l)
                       else sector s k))"
proof (induction cs arbitrary: l s)
  case Nil
  then show ?case by auto
next
  case (Cons c cs)
  obtain s1 where s1: "wr l c s = (0, s1)" "ready s1" "cap s1 = cap s"
      "\<And>k. unat k < cap s \<Longrightarrow> sector s1 k = (if k = l then c else sector s k)"
    using wr_ok [of s l c] Cons.prems by auto
  show ?case
  proof (cases "cs = []")
    case True
    with s1 show ?thesis by (auto simp: u32_eq_iff)
  next
    case False
    then have "0 < length cs" by simp
    then have "unat l + 1 < 4294967296"
      using Cons.prems(2,3) by (cases cs) auto
    then have l1: "unat (l + 1) = unat l + 1"
      using unat_add32 [of l 1] by simp
    have "unat (l + 1) + length cs \<le> cap s1" "cap s1 \<le> 4294967296" "\<forall>c \<in> set cs. length c = 512"
      using Cons.prems l1 s1(3) by auto
    from Cons.IH [OF s1(2) this] obtain s2 where
      s2: "wr_run wr (l + 1) cs s1 = (0, s2)" "ready s2" "cap s2 = cap s"
        "\<And>k. unat k < cap s \<Longrightarrow>
           sector s2 k = (if unat (l + 1) \<le> unat k \<and> unat k < unat (l + 1) + length cs
                          then cs ! (unat k - unat (l + 1)) else sector s1 k)"
      using s1(3) by auto
    have "sector s2 k = (if unat l \<le> unat k \<and> unat k < unat l + length (c # cs)
        then (c # cs) ! (unat k - unat l) else sector s k)" if k: "unat k < cap s" for k
    proof (cases "unat k = unat l")
      case True
      then show ?thesis using s2(4) [OF k] s1(4) [OF k] l1 by (simp add: u32_eq_iff)
    next
      case False
      then show ?thesis
        using s2(4) [OF k] s1(4) [OF k] l1 by (auto simp: u32_eq_iff nth_Cons' not_le Suc_diff_Suc)
    qed
    then show ?thesis
      using s1(1) s2(1-3) by simp
  qed
qed

lemma rd_run_ok:
  "ready s \<Longrightarrow> unat l + length cs \<le> cap s \<Longrightarrow> cap s \<le> 4294967296 \<Longrightarrow>
   \<exists>s'. rd_run rd l cs s = ((0, map (\<lambda>i. sector s (l + of_nat i)) [0..<length cs]), s') \<and>
     ready s' \<and> cap s' = cap s \<and> sector s' = sector s"
proof (induction cs arbitrary: l s)
  case Nil
  then show ?case by simp
next
  case (Cons c cs)
  obtain s1 where s1: "rd l c s = ((0, sector s l), s1)" "ready s1" "cap s1 = cap s" "sector s1 = sector s"
    using rd_ok [of s l c] Cons.prems by auto
  show ?case
  proof (cases "cs = []")
    case True
    with s1 show ?thesis by simp
  next
    case False
    then have "0 < length cs" by simp
    then have "unat l + 1 < 4294967296"
      using Cons.prems(2,3) by (cases cs) auto
    then have l1: "unat (l + 1) = unat l + 1"
      using unat_add32 [of l 1] by simp
    have "unat (l + 1) + length cs \<le> cap s1" "cap s1 \<le> 4294967296"
      using Cons.prems l1 s1(3) by auto
    from Cons.IH [OF s1(2) this] obtain s2 where
      "rd_run rd (l + 1) cs s1 = ((0, map (\<lambda>i. sector s1 (l + 1 + of_nat i)) [0..<length cs]), s2)"
      "ready s2" "cap s2 = cap s" "sector s2 = sector s"
      using s1 by auto
    moreover have "map (\<lambda>i. sector s (l + of_nat i)) [0..<length (c # cs)] =
        sector s l # map (\<lambda>i. sector s (l + 1 + of_nat i)) [0..<length cs]"
      by (simp add: upt_conv_Cons map_Suc_upt [symmetric] add.assoc del: upt_Suc)
    ultimately show ?thesis
      using s1 by simp
  qed
qed

text \<open>What a run of writes stored, a run of reads brings back.\<close>

lemma run_roundtrip:
  assumes "ready s" "unat l + length cs \<le> cap s" "cap s \<le> 4294967296" "\<forall>c \<in> set cs. length c = 512"
    and "length bufs = length cs"
  shows "\<exists>s1 s2. wr_run wr l cs s = (0, s1) \<and> rd_run rd l bufs s1 = ((0, cs), s2) \<and> ready s2"
proof -
  obtain s1 where s1: "wr_run wr l cs s = (0, s1)" "ready s1" "cap s1 = cap s"
      "\<And>k. unat k < cap s \<Longrightarrow>
         sector s1 k = (if unat l \<le> unat k \<and> unat k < unat l + length cs then cs ! (unat k - unat l)
                        else sector s k)"
    using wr_run_ok [OF assms(1-4)] by blast
  have "unat l + length bufs \<le> cap s1" "cap s1 \<le> 4294967296"
    using assms s1(3) by simp_all
  from rd_run_ok [OF s1(2) this] obtain s2 where
    s2: "rd_run rd l bufs s1 = ((0, map (\<lambda>i. sector s1 (l + of_nat i)) [0..<length cs]), s2)" "ready s2"
    using assms(5) by auto
  have "sector s1 (l + of_nat i) = cs ! i" if "i < length cs" for i
  proof -
    have "unat (l + of_nat i) = unat l + i"
      using that assms(2,3) by (simp add: unat_add32 unat_of_nat32)
    then show ?thesis using s1(4) [of "l + of_nat i"] that assms(2) by simp
  qed
  then have "map (\<lambda>i. sector s1 (l + of_nat i)) [0..<length cs] = cs"
    by (intro nth_equalityI) auto
  with s1(1) s2 show ?thesis by auto
qed

end

subsection \<open>A bounded queue that drops what does not fit (providers: \<open>input.c\<close>, \<open>keyboard.c\<close>)\<close>

datatype 'a queue_op = Push 'a | Pop

text \<open>Producers (interrupt handlers) and the consumer, in the order they ran.\<close>

fun run_queue :: "('a \<Rightarrow> 'q \<Rightarrow> 'q) \<Rightarrow> ('q \<Rightarrow> 'a option \<times> 'q) \<Rightarrow> 'a queue_op list \<Rightarrow> 'q \<Rightarrow> 'a list \<times> 'q" where
  "run_queue push pop [] q = ([], q)"
| "run_queue push pop (Push x # ops) q = run_queue push pop ops (push x q)"
| "run_queue push pop (Pop # ops) q =
     (let (r, q1) = pop q; (out, q2) = run_queue push pop ops q1
      in (case r of None \<Rightarrow> out | Some x \<Rightarrow> x # out, q2))"

fun pushed :: "'a queue_op list \<Rightarrow> 'a list" where
  "pushed [] = []"
| "pushed (Push x # ops) = x # pushed ops"
| "pushed (Pop # ops) = pushed ops"

locale bounded_fifo =
  fixes push :: "'a \<Rightarrow> 'q \<Rightarrow> 'q"
    and pop :: "'q \<Rightarrow> 'a option \<times> 'q"
    and items :: "'q \<Rightarrow> 'a list"
    and ok :: "'q \<Rightarrow> bool"
    and room :: nat
  assumes push_ok: "ok q \<Longrightarrow> ok (push x q)"
    and push_items: "ok q \<Longrightarrow> items (push x q) = (if length (items q) < room then items q @ [x] else items q)"
    and pop_empty: "ok q \<Longrightarrow> items q = [] \<Longrightarrow> pop q = (None, q)"
    and pop_first: "ok q \<Longrightarrow> items q = x # xs \<Longrightarrow> \<exists>q'. pop q = (Some x, q') \<and> ok q' \<and> items q' = xs"
begin

text \<open>Nothing is invented, reordered or duplicated.\<close>

lemma fifo_order:
  "ok q \<Longrightarrow> run_queue push pop ops q = (out, q') \<Longrightarrow>
   ok q' \<and> (\<exists>acc. subseq acc (pushed ops) \<and> items q @ acc = out @ items q')"
proof (induction ops arbitrary: q out)
  case Nil
  then show ?case by simp
next
  case (Cons p ops)
  show ?case
  proof (cases p)
    case (Push x)
    with Cons.prems Cons.IH [of "push x q" out] obtain acc where
      a: "ok q'" "subseq acc (pushed ops)" "items (push x q) @ acc = out @ items q'"
      by (auto simp: push_ok)
    show ?thesis
    proof (cases "length (items q) < room")
      case True
      with a Push Cons.prems(1) show ?thesis
        by (intro conjI exI [of _ "x # acc"]) (simp_all add: push_items)
    next
      case False
      with a Push Cons.prems(1) show ?thesis
        by (intro conjI exI [of _ acc]) (simp_all add: push_items list_emb_Cons)
    qed
  next
    case Pop
    show ?thesis
    proof (cases "items q")
      case Nil
      with Pop Cons.prems have "run_queue push pop ops q = (out, q')"
        by (simp add: pop_empty split: prod.splits)
      with Pop Cons.IH [OF Cons.prems(1)] show ?thesis by simp
    next
      case (Cons x xs)
      then obtain q1 where q1: "pop q = (Some x, q1)" "ok q1" "items q1 = xs"
        using pop_first Cons.prems(1) by blast
      with Pop Cons.prems(2) obtain out1 where "out = x # out1" "run_queue push pop ops q1 = (out1, q')"
        by (auto split: prod.splits)
      with Cons.IH [OF q1(2)] q1(3) Pop \<open>items q = x # xs\<close> show ?thesis by auto
    qed
  qed
qed

text \<open>Nothing is lost while the pushes fit.\<close>

lemma fifo_lossless:
  "ok q \<Longrightarrow> length (items q) + length (pushed ops) \<le> room \<Longrightarrow> run_queue push pop ops q = (out, q') \<Longrightarrow>
   items q @ pushed ops = out @ items q'"
proof (induction ops arbitrary: q out)
  case Nil
  then show ?case by simp
next
  case (Cons p ops)
  show ?case
  proof (cases p)
    case (Push x)
    with Cons.prems have "items (push x q) = items q @ [x]" by (simp add: push_items)
    moreover have "length (items (push x q)) + length (pushed ops) \<le> room"
      using calculation Push Cons.prems(2) by simp
    ultimately show ?thesis
      using Push Cons.prems(3) Cons.IH [OF push_ok [OF Cons.prems(1)], of x out] by simp
  next
    case Pop
    show ?thesis
    proof (cases "items q")
      case Nil
      with Pop Cons.prems have "run_queue push pop ops q = (out, q')"
        by (simp add: pop_empty split: prod.splits)
      with Pop Cons.IH [OF Cons.prems(1)] Cons.prems(2) show ?thesis by simp
    next
      case (Cons x xs)
      then obtain q1 where q1: "pop q = (Some x, q1)" "ok q1" "items q1 = xs"
        using pop_first Cons.prems(1) by blast
      with Pop Cons.prems(3) obtain out1 where "out = x # out1" "run_queue push pop ops q1 = (out1, q')"
        by (auto split: prod.splits)
      with Cons.IH [OF q1(2)] Cons.prems(2) q1(3) Pop \<open>items q = x # xs\<close> show ?thesis by simp
    qed
  qed
qed

end

subsection \<open>Memory blocks on request\<close>

text \<open>What a client of the kernel heap relies on: a granted block is one nobody owns, a refused
  request changes nothing that is owned, and a block given back is no longer owned.\<close>

locale allocator =
  fixes alloc :: "u32 \<Rightarrow> 'h \<Rightarrow> u32 \<times> 'h"
    and release :: "u32 \<Rightarrow> 'h \<Rightarrow> 'h"
    and owned :: "'h \<Rightarrow> u32 set"
    and sane :: "'h \<Rightarrow> bool"
    and limit :: nat
  assumes owned_nonzero: "sane h \<Longrightarrow> 0 \<notin> owned h"
    and alloc_ok: "sane h \<Longrightarrow> unat n \<le> limit \<Longrightarrow> alloc n h = (p, h') \<Longrightarrow>
      sane h' \<and> (if p = 0 then owned h' = owned h else p \<notin> owned h \<and> owned h' = insert p (owned h))"
    and release_ok: "sane h \<Longrightarrow> p \<in> owned h \<Longrightarrow> sane (release p h) \<and> owned (release p h) = owned h - {p}"
begin

lemma alloc_sane: "sane h \<Longrightarrow> unat n \<le> limit \<Longrightarrow> sane (snd (alloc n h))"
  using alloc_ok [of h n "fst (alloc n h)" "snd (alloc n h)"] by simp

lemma alloc_release:
  assumes "sane h" "unat n \<le> limit" "alloc n h = (p, h')" "p \<noteq> 0"
  shows "sane (release p h') \<and> owned (release p h') = owned h"
  using alloc_ok [OF assms(1-3)] release_ok [of h' p] assms(4) by auto

text \<open>Giving back a list of different blocks.\<close>

lemma release_all:
  "sane h \<Longrightarrow> distinct ps \<Longrightarrow> set ps \<subseteq> owned h \<Longrightarrow>
   sane (fold release ps h) \<and> owned (fold release ps h) = owned h - set ps"
proof (induction ps arbitrary: h)
  case (Cons p ps)
  then have r: "sane (release p h)" "owned (release p h) = owned h - {p}"
    using release_ok [of h p] by auto
  then have "set ps \<subseteq> owned (release p h)" using Cons.prems by auto
  with Cons.IH [OF r(1)] Cons.prems(2) r(2) show ?case by auto
qed simp

end

end
