(* ===== verification/Pmm.thy ===== *)
theory Pmm
  imports Memmap Interfaces
begin

text \<open>
  \<open>kernel/pmm.c\<close>: the physical frame allocator. The state is the file's four statics: the
  bitmap (word \<open>w\<close>, bit \<open>b\<close> is frame \<open>32 w + b\<close>, set = in use), the two frame counters
  and the search hint. Frame numbers are natural numbers below \<open>2 ^ 20\<close>; addresses and
  counters keep their 32 bits. The lemmas establish the invariant \<open>pmm_inv\<close> (the free
  counter is the number of clear bits, the first megabyte is reserved), show that every
  operation keeps it, and characterise allocation, release and initialisation.
\<close>

definition FRAME_SIZE :: u32 where "FRAME_SIZE = 4096"
definition MAX_FRAMES :: nat where "MAX_FRAMES = 2 ^ 20"

type_synonym bitmap = "nat \<Rightarrow> u32"

record pmm =
  bitmap :: bitmap
  usable_frames :: u32
  free_frames :: u32
  search_hint :: nat

subsection \<open>Bits\<close>

definition mark_used :: "bitmap \<Rightarrow> nat \<Rightarrow> bitmap" where
  "mark_used bm f = bm(f div 32 := bm (f div 32) OR push_bit (f mod 32) 1)"

definition mark_free :: "bitmap \<Rightarrow> nat \<Rightarrow> bitmap" where
  "mark_free bm f = bm(f div 32 := bm (f div 32) AND NOT (push_bit (f mod 32) 1))"

definition is_used :: "bitmap \<Rightarrow> nat \<Rightarrow> bool" where
  "is_used bm f \<longleftrightarrow> drop_bit (f mod 32) (bm (f div 32)) AND 1 \<noteq> 0"

lemma is_used_bit: "is_used bm f = bit (bm (f div 32)) (f mod 32)"
  by (simp add: is_used_def and_one_eq bit_iff_odd_drop_bit odd_iff_mod_2_eq_one)

lemma frame_eq_iff: "(f :: nat) = g \<longleftrightarrow> f div 32 = g div 32 \<and> f mod 32 = g mod 32"
  by (metis div_mod_decomp)

lemma is_used_mark_used [simp]: "is_used (mark_used bm f) g \<longleftrightarrow> g = f \<or> is_used bm g"
  using frame_eq_iff [of g f]
  by (auto simp: is_used_bit mark_used_def bit_simps)

lemma is_used_mark_free [simp]: "is_used (mark_free bm f) g \<longleftrightarrow> g \<noteq> f \<and> is_used bm g"
  using frame_eq_iff [of g f]
  by (auto simp: is_used_bit mark_free_def bit_simps)

definition free_set :: "bitmap \<Rightarrow> nat set" where
  "free_set bm = {f. f < MAX_FRAMES \<and> \<not> is_used bm f}"

lemma finite_free_set [simp, intro]: "finite (free_set bm)"
  by (simp add: free_set_def)

lemma card_free_set: "card (free_set bm) \<le> MAX_FRAMES"
proof -
  have "free_set bm \<subseteq> {..<MAX_FRAMES}" by (auto simp: free_set_def)
  then have "card (free_set bm) \<le> card {..<MAX_FRAMES}" by (intro card_mono) auto
  then show ?thesis by simp
qed

lemma free_set_mark_used [simp]: "free_set (mark_used bm f) = free_set bm - {f}"
  by (auto simp: free_set_def)

lemma free_set_mark_free: "f < MAX_FRAMES \<Longrightarrow> free_set (mark_free bm f) = insert f (free_set bm)"
  by (auto simp: free_set_def)

text \<open>The counter agrees with the bitmap.\<close>

definition counted :: "pmm \<Rightarrow> bool" where
  "counted st \<longleftrightarrow> unat (free_frames st) = card (free_set (bitmap st))"

lemma counted_mark_used:
  assumes "counted st" "f \<in> free_set (bitmap st)"
  shows "counted (st\<lparr>bitmap := mark_used (bitmap st) f, free_frames := free_frames st - 1,
    search_hint := h\<rparr>)"
proof -
  have "0 < card (free_set (bitmap st))"
    using assms(2) by (auto simp: card_gt_0_iff)
  then have "unat (free_frames st - 1) = card (free_set (bitmap st)) - 1"
    using assms(1) unat_sub32 [of 1 "free_frames st"] by (simp add: counted_def)
  then show ?thesis
    using assms(2) by (simp add: counted_def)
qed

lemma counted_mark_free:
  assumes "counted st" "f < MAX_FRAMES" "f \<notin> free_set (bitmap st)"
  shows "counted (st\<lparr>bitmap := mark_free (bitmap st) f, usable_frames := u,
    free_frames := free_frames st + 1, search_hint := h\<rparr>)"
proof -
  have "unat (free_frames st + 1) = card (free_set (bitmap st)) + 1"
    using assms(1) card_free_set [of "bitmap st"] unat_add32 [of "free_frames st" 1]
    by (simp add: counted_def MAX_FRAMES_def)
  then show ?thesis
    using assms(2,3) by (simp add: counted_def free_set_mark_free)
qed

subsection \<open>Initialisation from the E820 map\<close>

definition region_end64 :: "e820_entry \<Rightarrow> u64" where
  "region_end64 e =
     (let end64 = e_base e + e_len e in if 0xFFFFF000 < end64 then 0xFFFFF000 else end64)"

definition region_reachable :: "e820_entry \<Rightarrow> bool" where
  "region_reachable e \<longleftrightarrow> e_type e = E820_USABLE \<and> drop_bit 32 (e_base e) = 0"

definition region_first :: "e820_entry \<Rightarrow> u32" where
  "region_first e = (ucast (e_base e) + FRAME_SIZE - 1) div FRAME_SIZE"

definition region_last :: "e820_entry \<Rightarrow> u32" where
  "region_last e = ucast (region_end64 e div ucast FRAME_SIZE)"

definition open_frame :: "nat \<Rightarrow> pmm \<Rightarrow> pmm" where
  "open_frame f st =
     (if is_used (bitmap st) f
      then st\<lparr>bitmap := mark_free (bitmap st) f,
              usable_frames := usable_frames st + 1, free_frames := free_frames st + 1\<rparr>
      else st)"

definition init_region :: "e820_entry \<Rightarrow> pmm \<Rightarrow> pmm" where
  "init_region e st =
     (if region_reachable e
      then fold open_frame [unat (region_first e)..<unat (region_last e)] st
      else st)"

definition reserve_frame :: "nat \<Rightarrow> pmm \<Rightarrow> pmm" where
  "reserve_frame f st =
     (if \<not> is_used (bitmap st) f
      then st\<lparr>bitmap := mark_used (bitmap st) f, free_frames := free_frames st - 1\<rparr>
      else st)"

definition pmm_bss :: pmm where
  "pmm_bss = \<lparr>bitmap = (\<lambda>_. 0), usable_frames = 0, free_frames = 0, search_hint = 0\<rparr>"

definition pmm_init :: "mem \<Rightarrow> pmm \<Rightarrow> pmm" where
  "pmm_init m st =
     fold reserve_frame [0..<0x100000 div unat FRAME_SIZE]
       (fold init_region (memmap_list m) (st\<lparr>bitmap := (\<lambda>_. 0xFFFFFFFF)\<rparr>))"

definition region_frames :: "e820_entry \<Rightarrow> nat set" where
  "region_frames e =
     (if region_reachable e then {unat (region_first e)..<unat (region_last e)} else {})"

lemma region_last_bound: "unat (region_last e) < MAX_FRAMES"
proof -
  have "region_end64 e \<le> 0xFFFFF000"
    by (simp add: region_end64_def Let_def linorder_not_less)
  then have "unat (region_end64 e) \<le> 0xFFFFF000"
    by (simp add: word_le_nat_alt)
  then have "unat (region_end64 e div 4096) \<le> 0xFFFFF"
    by (simp add: unat_div_distrib)
  moreover have "unat (region_last e) \<le> unat (region_end64 e div 4096)"
    by (simp add: region_last_def FRAME_SIZE_def unsigned_ucast_eq take_bit_eq_mod)
  ultimately show ?thesis by (simp add: MAX_FRAMES_def)
qed

lemma open_frame_correct:
  assumes "counted st" "f < MAX_FRAMES"
  shows "counted (open_frame f st) \<and>
    free_set (bitmap (open_frame f st)) = insert f (free_set (bitmap st)) \<and>
    search_hint (open_frame f st) = search_hint st"
proof (cases "is_used (bitmap st) f")
  case True
  then have "f \<notin> free_set (bitmap st)" by (simp add: free_set_def)
  with assms True show ?thesis
    using counted_mark_free [of st f]
    by (simp add: open_frame_def free_set_mark_free counted_def)
next
  case False
  then show ?thesis
    using assms by (auto simp: open_frame_def free_set_def)
qed

lemma reserve_frame_correct:
  assumes "counted st" "f < MAX_FRAMES"
  shows "counted (reserve_frame f st) \<and>
    free_set (bitmap (reserve_frame f st)) = free_set (bitmap st) - {f} \<and>
    search_hint (reserve_frame f st) = search_hint st"
proof (cases "is_used (bitmap st) f")
  case True
  then show ?thesis
    using assms by (auto simp: reserve_frame_def free_set_def)
next
  case False
  then have "f \<in> free_set (bitmap st)" using assms(2) by (simp add: free_set_def)
  with assms False show ?thesis
    using counted_mark_used [of st f] by (simp add: reserve_frame_def counted_def)
qed

lemma fold_open_correct:
  "counted st \<Longrightarrow> \<forall>f \<in> set fs. f < MAX_FRAMES \<Longrightarrow>
   counted (fold open_frame fs st) \<and>
   free_set (bitmap (fold open_frame fs st)) = free_set (bitmap st) \<union> set fs \<and>
   search_hint (fold open_frame fs st) = search_hint st"
proof (induction fs arbitrary: st)
  case (Cons f fs)
  then show ?case
    using open_frame_correct [of st f] by auto
qed simp

lemma fold_reserve_correct:
  "counted st \<Longrightarrow> \<forall>f \<in> set fs. f < MAX_FRAMES \<Longrightarrow>
   counted (fold reserve_frame fs st) \<and>
   free_set (bitmap (fold reserve_frame fs st)) = free_set (bitmap st) - set fs \<and>
   search_hint (fold reserve_frame fs st) = search_hint st"
proof (induction fs arbitrary: st)
  case (Cons f fs)
  then show ?case
    using reserve_frame_correct [of st f] by auto
qed simp

lemma init_region_correct:
  assumes "counted st"
  shows "counted (init_region e st) \<and>
    free_set (bitmap (init_region e st)) = free_set (bitmap st) \<union> region_frames e \<and>
    search_hint (init_region e st) = search_hint st"
proof -
  have "\<forall>f \<in> set [unat (region_first e)..<unat (region_last e)]. f < MAX_FRAMES"
    using region_last_bound [of e] by auto
  from fold_open_correct [OF assms this] show ?thesis
    using assms by (simp add: init_region_def region_frames_def)
qed

lemma fold_init_region_correct:
  "counted st \<Longrightarrow>
   counted (fold init_region es st) \<and>
   free_set (bitmap (fold init_region es st)) = free_set (bitmap st) \<union> (\<Union>e \<in> set es. region_frames e) \<and>
   search_hint (fold init_region es st) = search_hint st"
proof (induction es arbitrary: st)
  case (Cons e es)
  then show ?case
    using init_region_correct [of st e] by auto
qed simp

subsection \<open>The invariant, and what initialisation leaves free\<close>

definition pmm_inv :: "pmm \<Rightarrow> bool" where
  "pmm_inv st \<longleftrightarrow>
     counted st \<and> (\<forall>f \<in> free_set (bitmap st). 256 \<le> f) \<and> search_hint st < MAX_FRAMES div 32"

lemma pmm_init_free_set:
  "counted (pmm_init m pmm_bss) \<and>
   free_set (bitmap (pmm_init m pmm_bss)) = (\<Union>e \<in> set (memmap_list m). region_frames e) - {0..<256} \<and>
   search_hint (pmm_init m pmm_bss) = 0"
proof -
  let ?s0 = "pmm_bss\<lparr>bitmap := (\<lambda>_. 0xFFFFFFFF)\<rparr>"
  let ?s1 = "fold init_region (memmap_list m) ?s0"
  have "is_used (\<lambda>_. 0xFFFFFFFF) f" for f
    by (simp only: is_used_bit bit_all_ones)
  then have free0: "free_set (bitmap ?s0) = {}"
    by (simp add: free_set_def)
  then have "counted ?s0"
    by (simp add: counted_def pmm_bss_def)
  note 1 = fold_init_region_correct [OF this, of "memmap_list m"]
  have low: "\<forall>f \<in> set [0..<256]. f < MAX_FRAMES"
    by (simp add: MAX_FRAMES_def)
  from 1 have "counted ?s1" by simp
  note 2 = fold_reserve_correct [OF this low]
  have "pmm_init m pmm_bss = fold reserve_frame [0..<256] ?s1"
    by (simp add: pmm_init_def FRAME_SIZE_def)
  with 1 2 free0 show ?thesis
    by (simp add: pmm_bss_def)
qed

lemma pmm_init_inv: "pmm_inv (pmm_init m pmm_bss)"
  using pmm_init_free_set [of m] by (auto simp: pmm_inv_def MAX_FRAMES_def)

text \<open>A region whose 32-bit arithmetic does not wrap.\<close>

definition region_sane :: "e820_entry \<Rightarrow> bool" where
  "region_sane e \<longleftrightarrow>
     unat (e_base e) + unat (e_len e) < 2 ^ 64 \<and>
     (region_reachable e \<longrightarrow> unat (e_base e) \<le> 0xFFFFF000)"

definition whole_frame_in :: "e820_entry \<Rightarrow> nat \<Rightarrow> bool" where
  "whole_frame_in e f \<longleftrightarrow>
     unat (e_base e) \<le> 4096 * f \<and> 4096 * (f + 1) \<le> unat (e_base e) + unat (e_len e) \<and>
     4096 * (f + 1) \<le> 0xFFFFF000"

lemma region_first_nat:
  assumes "unat (e_base e) \<le> 0xFFFFF000"
  shows "unat (region_first e) = (unat (e_base e) + 4095) div 4096"
proof -
  have "unat (ucast (e_base e) :: u32) = unat (e_base e)"
    using assms by (simp add: unsigned_ucast_eq take_bit_eq_mod)
  then have "unat (ucast (e_base e) + 4095 :: u32) = unat (e_base e) + 4095"
    using assms unat_add32 [of "ucast (e_base e)" 4095] by simp
  then show ?thesis
    by (simp add: region_first_def FRAME_SIZE_def unat_div_4096 add.commute)
qed

lemma region_last_nat:
  assumes "unat (e_base e) + unat (e_len e) < 2 ^ 64"
  shows "unat (region_last e) = min (unat (e_base e) + unat (e_len e)) 0xFFFFF000 div 4096"
proof -
  have s: "unat (e_base e + e_len e) = unat (e_base e) + unat (e_len e)"
    using assms by (simp add: unat_word_ariths)
  have "unat (region_end64 e) = min (unat (e_base e) + unat (e_len e)) 0xFFFFF000"
    using s by (simp add: region_end64_def Let_def word_less_nat_alt min_def)
  then show ?thesis
    by (simp add: region_last_def FRAME_SIZE_def unsigned_ucast_eq take_bit_eq_mod unat_div_distrib)
qed

lemma region_frames_iff:
  assumes "region_sane e"
  shows "f \<in> region_frames e \<longleftrightarrow> region_reachable e \<and> whole_frame_in e f"
proof (cases "region_reachable e")
  case True
  then have "unat (region_first e) = (unat (e_base e) + 4095) div 4096"
    using assms by (intro region_first_nat) (simp add: region_sane_def)
  moreover have "unat (region_last e) = min (unat (e_base e) + unat (e_len e)) 0xFFFFF000 div 4096"
    using assms by (intro region_last_nat) (simp add: region_sane_def)
  moreover have "(b + 4095) div 4096 \<le> f \<longleftrightarrow> b \<le> 4096 * f" for b :: nat
    by linarith
  moreover have "f < x div 4096 \<longleftrightarrow> 4096 * (f + 1) \<le> x" for x :: nat
    using less_eq_div_iff_mult_less_eq [of 4096 "Suc f" x] by (simp add: Suc_le_eq mult.commute)
  ultimately show ?thesis
    using True by (auto simp: region_frames_def whole_frame_in_def)
qed (simp add: region_frames_def)

subsection \<open>Allocation and release\<close>

function scan_bits :: "u32 \<Rightarrow> nat \<Rightarrow> nat option" where
  "scan_bits x b =
     (if b < 32 then (if x AND push_bit b 1 = 0 then Some b else scan_bits x (b + 1)) else None)"
  by pat_completeness auto
termination
  by (relation "measure (\<lambda>(x, b). 32 - b)") auto

declare scan_bits.simps [simp del]

function scan_words :: "bitmap \<Rightarrow> nat \<Rightarrow> (nat \<times> nat) option" where
  "scan_words bm w =
     (if w < MAX_FRAMES div 32 then
        (if bm w = 0xFFFFFFFF then scan_words bm (w + 1)
         else case scan_bits (bm w) 0 of Some b \<Rightarrow> Some (w, b) | None \<Rightarrow> scan_words bm (w + 1))
      else None)"
  by pat_completeness auto
termination
  by (relation "measure (\<lambda>(bm, w). MAX_FRAMES div 32 - w)") auto

declare scan_words.simps [simp del]

function pmm_alloc_frame :: "pmm \<Rightarrow> u32 \<times> pmm" where
  "pmm_alloc_frame st =
     (if free_frames st = 0 then (0, st)
      else case scan_words (bitmap st) (search_hint st) of
        Some (w, b) \<Rightarrow>
          (let frame = w * 32 + b
           in (of_nat frame * FRAME_SIZE,
               st\<lparr>bitmap := mark_used (bitmap st) frame, free_frames := free_frames st - 1,
                  search_hint := w\<rparr>))
      | None \<Rightarrow>
          (if search_hint st \<noteq> 0 then pmm_alloc_frame (st\<lparr>search_hint := 0\<rparr>) else (0, st)))"
  by pat_completeness auto
termination
  by (relation "measure search_hint") auto

declare pmm_alloc_frame.simps [simp del]

definition pmm_free_frame :: "pmm \<Rightarrow> u32 \<Rightarrow> pmm" where
  "pmm_free_frame st addr =
     (let frame = unat (addr div FRAME_SIZE)
      in if is_used (bitmap st) frame
         then st\<lparr>bitmap := mark_free (bitmap st) frame, free_frames := free_frames st + 1,
                 search_hint := (if frame div 32 < search_hint st then frame div 32
                                 else search_hint st)\<rparr>
         else st)"

definition pmm_total_kb :: "pmm \<Rightarrow> u32" where
  "pmm_total_kb st = usable_frames st * (FRAME_SIZE div 1024)"

definition pmm_free_kb :: "pmm \<Rightarrow> u32" where
  "pmm_free_kb st = free_frames st * (FRAME_SIZE div 1024)"

lemma and_bit_eq_0: "(x :: u32) AND push_bit b 1 = 0 \<longleftrightarrow> \<not> bit x b"
proof
  assume "x AND push_bit b 1 = 0"
  then have "\<not> bit (x AND push_bit b 1) b" by simp
  then show "\<not> bit x b"
    by (auto simp: bit_simps dest: bit_imp_le_length)
next
  assume "\<not> bit x b"
  then show "x AND push_bit b 1 = 0"
    by (auto intro!: bit_word_eqI simp: bit_simps)
qed

lemma and_exp_eq_0: "(x :: u32) AND 2 ^ b = 0 \<longleftrightarrow> \<not> bit x b"
  using and_bit_eq_0 [of x b] by (simp add: push_bit_eq_mult)

lemma scan_bits_Some: "scan_bits x b = Some c \<Longrightarrow> c < 32 \<and> \<not> bit x c"
  by (induction x b rule: scan_bits.induct)
    (metis scan_bits.simps and_bit_eq_0 option.inject option.distinct(1))

lemma scan_bits_None: "scan_bits x b = None \<Longrightarrow> b \<le> c \<Longrightarrow> c < 32 \<Longrightarrow> bit x c"
proof (induction x b rule: scan_bits.induct)
  case (1 x b)
  from "1.prems" have b: "b < 32" by simp
  with "1.prems"(1) have "bit x b" "scan_bits x (b + 1) = None"
    by (auto simp: scan_bits.simps [of x b] and_bit_eq_0 and_exp_eq_0 split: if_splits)
  with "1.IH" b "1.prems" show ?case
    by (cases "c = b") (auto simp: and_bit_eq_0 and_exp_eq_0)
qed

lemma scan_words_Some:
  "scan_words bm w = Some (v, b) \<Longrightarrow>
   v < MAX_FRAMES div 32 \<and> v * 32 + b \<in> free_set bm \<and> b < 32"
proof (induction bm w rule: scan_words.induct)
  case (1 bm w)
  show ?case
  proof (cases "w < MAX_FRAMES div 32 \<and> bm w \<noteq> 0xFFFFFFFF \<and> scan_bits (bm w) 0 \<noteq> None")
    case True
    then have "v = w" "scan_bits (bm w) 0 = Some b"
      using "1.prems" by (auto simp: scan_words.simps [of bm w] split: option.splits)
    then show ?thesis
      using True scan_bits_Some [of "bm w" 0 b]
      by (auto simp: free_set_def is_used_bit MAX_FRAMES_def)
  next
    case False
    then show ?thesis
      using 1 by (auto simp: scan_words.simps [of bm w] split: if_splits option.splits)
  qed
qed

lemma scan_words_None:
  "scan_words bm w = None \<Longrightarrow> f \<in> free_set bm \<Longrightarrow> f div 32 < w"
proof (induction bm w rule: scan_words.induct)
  case (1 bm w)
  show ?case
  proof (cases "w < MAX_FRAMES div 32")
    case True
    then have none: "scan_words bm (w + 1) = None"
      and full: "bm w = 0xFFFFFFFF \<or> scan_bits (bm w) 0 = None"
      using "1.prems"(1) by (auto simp: scan_words.simps [of bm w] split: if_splits option.splits)
    have "f div 32 < w + 1"
      using "1.IH" True none full "1.prems"(2) by (cases "bm w = 0xFFFFFFFF") auto
    moreover have "f div 32 \<noteq> w"
    proof
      assume "f div 32 = w"
      then have "bit (bm (f div 32)) (f mod 32)"
        using full scan_bits_None [of "bm w" 0 "f mod 32"] bit_all_ones [of "f mod 32"] by auto
      with "1.prems"(2) show False
        by (simp add: free_set_def is_used_bit)
    qed
    ultimately show ?thesis by simp
  next
    case False
    moreover have "f < MAX_FRAMES" using "1.prems"(2) by (simp add: free_set_def)
    ultimately show ?thesis by (simp add: MAX_FRAMES_def)
  qed
qed

text \<open>What one call does: either there is no free frame and nothing changes, or a frame that
  was free is reserved and its address returned.\<close>

lemma pmm_alloc_none:
  assumes "pmm_inv st" "free_set (bitmap st) = {}"
  shows "pmm_alloc_frame st = (0, st)"
proof -
  have "free_frames st = 0"
    using assms by (simp add: pmm_inv_def counted_def unsigned_eq_0_iff)
  then show ?thesis by (simp add: pmm_alloc_frame.simps)
qed

lemma pmm_alloc_some:
  "pmm_inv st \<Longrightarrow> free_set (bitmap st) \<noteq> {} \<Longrightarrow>
   \<exists>f st'. pmm_alloc_frame st = (of_nat f * FRAME_SIZE, st') \<and> f \<in> free_set (bitmap st) \<and>
     bitmap st' = mark_used (bitmap st) f \<and> free_frames st' = free_frames st - 1 \<and>
     usable_frames st' = usable_frames st \<and> pmm_inv st'"
proof (induction st rule: pmm_alloc_frame.induct)
  case (1 st)
  have nz: "free_frames st \<noteq> 0"
    using "1.prems" by (auto simp: pmm_inv_def counted_def)
  show ?case
  proof (cases "scan_words (bitmap st) (search_hint st)")
    case (Some r)
    then obtain w b where wb: "r = (w, b)" by fastforce
    with Some scan_words_Some [of "bitmap st" "search_hint st" w b]
    have f: "w < MAX_FRAMES div 32" "w * 32 + b \<in> free_set (bitmap st)" by auto
    let ?st = "st\<lparr>bitmap := mark_used (bitmap st) (w * 32 + b), free_frames := free_frames st - 1,
      search_hint := w\<rparr>"
    have "pmm_inv ?st"
      using f "1.prems"(1) counted_mark_used [of st "w * 32 + b" w] by (auto simp: pmm_inv_def)
    moreover have "pmm_alloc_frame st = (of_nat (w * 32 + b) * FRAME_SIZE, ?st)"
      using nz Some wb by (simp add: pmm_alloc_frame.simps [of st] Let_def)
    ultimately show ?thesis
      using f(2) by (intro exI [of _ "w * 32 + b"] exI [of _ ?st]) simp
  next
    case None
    obtain f where f: "f \<in> free_set (bitmap st)" using "1.prems"(2) by blast
    then have hint: "search_hint st \<noteq> 0"
      using scan_words_None [OF None f] by linarith
    have "pmm_inv (st\<lparr>search_hint := 0\<rparr>)"
      using "1.prems"(1) by (auto simp: pmm_inv_def counted_def MAX_FRAMES_def)
    moreover have "pmm_alloc_frame st = pmm_alloc_frame (st\<lparr>search_hint := 0\<rparr>)"
      using nz None hint by (simp add: pmm_alloc_frame.simps [of st])
    ultimately show ?thesis
      using "1.IH" [OF nz None hint] "1.prems"(2) by simp
  qed
qed

definition frame_addr :: "nat \<Rightarrow> u32" where
  "frame_addr f = of_nat f * FRAME_SIZE"

lemma unat_frame_addr: "f < MAX_FRAMES \<Longrightarrow> unat (frame_addr f) = 4096 * f"
  by (simp add: frame_addr_def FRAME_SIZE_def MAX_FRAMES_def unat_mult32 unat_of_nat32)

lemma frame_addr_inj: "f < MAX_FRAMES \<Longrightarrow> g < MAX_FRAMES \<Longrightarrow> frame_addr f = frame_addr g \<longleftrightarrow> f = g"
  by (metis mult_cancel1 unat_frame_addr zero_neq_numeral)

definition avail_frames :: "pmm \<Rightarrow> u32 set" where
  "avail_frames st = frame_addr ` free_set (bitmap st)"

lemma card_avail_frames: "card (avail_frames st) = card (free_set (bitmap st))"
proof -
  have "inj_on frame_addr (free_set (bitmap st))"
    by (rule inj_onI) (simp add: frame_addr_inj free_set_def)
  then show ?thesis
    by (simp add: avail_frames_def card_image)
qed

interpretation pmm_source: frame_source pmm_alloc_frame avail_frames pmm_inv
proof
  fix s :: pmm
  show "finite (avail_frames s)"
    by (simp add: avail_frames_def)
next
  fix s :: pmm assume "pmm_inv s"
  show "0 \<notin> avail_frames s"
  proof
    assume "0 \<in> avail_frames s"
    then obtain f where f: "f \<in> free_set (bitmap s)" "frame_addr f = 0"
      by (auto simp: avail_frames_def)
    then have "4096 * f = 0"
      using unat_frame_addr [of f] by (simp add: free_set_def)
    with f(1) \<open>pmm_inv s\<close> show False
      by (auto simp: pmm_inv_def)
  qed
next
  fix s a s' assume s: "pmm_inv s" "avail_frames s \<noteq> {}" "pmm_alloc_frame s = (a, s')"
  then have "free_set (bitmap s) \<noteq> {}" by (simp add: avail_frames_def)
  with s obtain f where f: "a = frame_addr f" "f \<in> free_set (bitmap s)"
      "bitmap s' = mark_used (bitmap s) f" "pmm_inv s'"
    using pmm_alloc_some [of s] by (auto simp: frame_addr_def)
  moreover have "frame_addr ` (free_set (bitmap s) - {f}) = frame_addr ` free_set (bitmap s) - {frame_addr f}"
    using f(2) by (auto simp: free_set_def frame_addr_inj)
  ultimately show "a \<in> avail_frames s \<and> avail_frames s' = avail_frames s - {a} \<and> pmm_inv s'"
    by (simp add: avail_frames_def)
next
  fix s assume "pmm_inv s" "avail_frames s = {}"
  then show "pmm_alloc_frame s = (0, s)"
    by (intro pmm_alloc_none) (simp_all add: avail_frames_def)
qed

lemma free_frames_zero_iff: "counted st \<Longrightarrow> free_frames st = 0 \<longleftrightarrow> free_set (bitmap st) = {}"
  by (simp add: counted_def flip: unsigned_eq_0_iff [where 'a = nat])

lemma pmm_free_frame_correct:
  assumes "pmm_inv st" "f < MAX_FRAMES" "256 \<le> f"
  shows "pmm_inv (pmm_free_frame st (frame_addr f)) \<and>
    free_set (bitmap (pmm_free_frame st (frame_addr f))) = insert f (free_set (bitmap st))"
proof -
  have f: "unat (frame_addr f div FRAME_SIZE) = f"
    using unat_frame_addr [OF assms(2)] by (simp add: FRAME_SIZE_def unat_div_4096)
  show ?thesis
  proof (cases "is_used (bitmap st) f")
    case True
    then have "f \<notin> free_set (bitmap st)" by (simp add: free_set_def)
    with assms True show ?thesis
      using counted_mark_free [of st f]
      by (auto simp: pmm_free_frame_def f pmm_inv_def counted_def free_set_mark_free Let_def)
  next
    case False
    then have "f \<in> free_set (bitmap st)" using assms(2) by (simp add: free_set_def)
    with assms False show ?thesis
      by (auto simp: pmm_free_frame_def f Let_def)
  qed
qed

subsection \<open>A concrete map: one usable region of four frames at 1 MB\<close>

definition boot_map :: mem where
  "boot_map = (\<lambda>_. 0)(0x6000 := 1, 0x6006 := 0x10, 0x600D := 0x40, 0x6014 := 1)"

lemma boot_map_list:
  "memmap_list boot_map = [\<lparr>e_base = 0x100000, e_len = 0x4000, e_type = 1, e_attr = 0\<rparr>]"
  by (simp add: memmap_list_def memmap_count_def memmap_entry_def E820_BUF_def boot_map_def
      load32_def load64_def le32_def push_bit_eq_mult)

lemma boot_map_sane: "\<forall>e \<in> set (memmap_list boot_map). region_sane e"
  by (simp add: boot_map_list region_sane_def region_reachable_def E820_USABLE_def)

lemma boot_map_free: "free_set (bitmap (pmm_init boot_map pmm_bss)) = {256..<260}"
proof -
  have "region_frames \<lparr>e_base = 0x100000, e_len = 0x4000, e_type = 1, e_attr = 0\<rparr> = {256..<260}"
    by (simp add: region_frames_def region_reachable_def region_first_def drop_bit_eq_div
        region_last_def region_end64_def E820_USABLE_def FRAME_SIZE_def)
  moreover have "{256..<260} - {0..<256} = {256..<260 :: nat}"
    by (intro set_eqI) (simp, linarith)
  ultimately show ?thesis
    using pmm_init_free_set [of boot_map] by (simp add: boot_map_list)
qed

lemma boot_map_free_frames: "unat (free_frames (pmm_init boot_map pmm_bss)) = 4"
  using pmm_init_free_set [of boot_map] by (simp add: counted_def boot_map_free)

subsection \<open>Properties\<close>

text \<open>C25: for an E820 map whose usable regions do not wrap, \<open>pmm_init\<close> leaves free exactly the
  frames at or above 1 MB that lie wholly inside a usable region below 4 GB, and the free
  counter is their number.\<close>

theorem pmm_init_exact:
  assumes "\<forall>e \<in> set (memmap_list m). region_sane e"
  shows "free_set (bitmap (pmm_init m pmm_bss)) =
      {f. 256 \<le> f \<and> (\<exists>e \<in> set (memmap_list m). region_reachable e \<and> whole_frame_in e f)} \<and>
    unat (free_frames (pmm_init m pmm_bss)) = card (free_set (bitmap (pmm_init m pmm_bss)))"
proof -
  have "(\<Union>e \<in> set (memmap_list m). region_frames e) =
      {f. \<exists>e \<in> set (memmap_list m). region_reachable e \<and> whole_frame_in e f}"
    using assms region_frames_iff by blast
  then show ?thesis
    using pmm_init_free_set [of m] by (auto simp: counted_def)
qed

theorem pmm_init_exact_witness:
  "unat (free_frames (pmm_init boot_map pmm_bss)) = 4 \<and>
   (\<exists>e \<in> set (memmap_list boot_map). region_reachable e \<and> whole_frame_in e 259)"
proof -
  note exact = pmm_init_exact [OF boot_map_sane]
  have "259 \<in> free_set (bitmap (pmm_init boot_map pmm_bss))"
    by (simp add: boot_map_free)
  then have "\<exists>e \<in> set (memmap_list boot_map). region_reachable e \<and> whole_frame_in e 259"
    unfolding conjunct1 [OF exact] by blast
  moreover have "card {256..<260 :: nat} = 4" by simp
  ultimately show ?thesis
    using conjunct2 [OF exact] unfolding boot_map_free by simp
qed

text \<open>Every call of \<open>pmm_alloc_frame\<close> on a consistent allocator keeps it consistent; with
  the counter at zero it returns 0 and changes nothing; otherwise it returns the address of a
  frame that was free and at or above 1 MB, reserves that frame and no other, and counts it
  (a frame is found wherever the search hint points).\<close>

theorem pmm_alloc_correct:
  assumes "pmm_inv st" "pmm_alloc_frame st = (a, st')"
  shows "pmm_inv st' \<and>
    (if free_frames st = 0 then a = 0 \<and> st' = st
     else \<exists>f. 256 \<le> f \<and> f < MAX_FRAMES \<and> unat a = 4096 * f \<and> \<not> is_used (bitmap st) f \<and>
       (\<forall>g. is_used (bitmap st') g \<longleftrightarrow> g = f \<or> is_used (bitmap st) g) \<and>
       free_frames st' = free_frames st - 1)"
proof (cases "free_frames st = 0")
  case True
  with assms show ?thesis by (simp add: pmm_alloc_frame.simps [of st])
next
  case False
  then have "free_set (bitmap st) \<noteq> {}"
    using assms(1) free_frames_zero_iff by (auto simp: pmm_inv_def)
  from pmm_alloc_some [OF assms(1) this] assms(2)
  obtain f where f: "a = frame_addr f" "f \<in> free_set (bitmap st)" "pmm_inv st'"
      "bitmap st' = mark_used (bitmap st) f" "free_frames st' = free_frames st - 1"
    by (auto simp: frame_addr_def)
  moreover have "256 \<le> f" "f < MAX_FRAMES" "\<not> is_used (bitmap st) f"
    using f(2) assms(1) by (auto simp: free_set_def pmm_inv_def)
  ultimately show ?thesis
    using False unat_frame_addr [of f] by auto
qed

theorem pmm_alloc_correct_witness:
  "\<exists>f. 256 \<le> f \<and> unat (fst (pmm_alloc_frame (pmm_init boot_map pmm_bss))) = 4096 * f"
proof -
  let ?st = "pmm_init boot_map pmm_bss"
  have "free_frames ?st \<noteq> 0"
    using boot_map_free_frames by auto
  then show ?thesis
    using pmm_alloc_correct [OF pmm_init_inv, of boot_map "fst (pmm_alloc_frame ?st)"
        "snd (pmm_alloc_frame ?st)"] by auto
qed

text \<open>C11: a client that asks a freshly booted allocator for \<open>n\<close> frames gets \<open>n\<close> pairwise
  different, non-zero ones, or all there are if there are fewer.\<close>

theorem pmm_boot_frames_distinct:
  assumes "take_frames pmm_alloc_frame n (pmm_init m pmm_bss) = (as, st)"
  shows "distinct as \<and> 0 \<notin> set as \<and> set as \<subseteq> avail_frames (pmm_init m pmm_bss) \<and>
    length as = min n (unat (free_frames (pmm_init m pmm_bss))) \<and> pmm_inv st"
proof -
  let ?st = "pmm_init m pmm_bss"
  note inv = pmm_init_inv [of m]
  show ?thesis
    using card_avail_frames [of ?st] pmm_source.take_frames_correct [OF inv assms] pmm_source.avail_nonzero [OF inv] inv
    by (auto simp: pmm_inv_def counted_def)
qed

theorem pmm_boot_frames_distinct_witness:
  "length (fst (take_frames pmm_alloc_frame 6 (pmm_init boot_map pmm_bss))) = 4"
  using pmm_boot_frames_distinct [of 6 boot_map
      "fst (take_frames pmm_alloc_frame 6 (pmm_init boot_map pmm_bss))"
      "snd (take_frames pmm_alloc_frame 6 (pmm_init boot_map pmm_bss))"]
  by (simp add: boot_map_free_frames)

text \<open>Freeing what was just allocated makes the same set of frames available again.\<close>

theorem pmm_alloc_free_roundtrip:
  assumes "pmm_inv st" "pmm_alloc_frame st = (a, st')" "a \<noteq> 0"
  shows "free_set (bitmap (pmm_free_frame st' a)) = free_set (bitmap st) \<and>
    pmm_inv (pmm_free_frame st' a)"
proof -
  have "free_set (bitmap st) \<noteq> {}"
    using assms pmm_alloc_none by fastforce
  from pmm_alloc_some [OF assms(1) this] assms(2)
  obtain f where f: "a = frame_addr f" "f \<in> free_set (bitmap st)" "pmm_inv st'"
      "bitmap st' = mark_used (bitmap st) f"
    by (auto simp: frame_addr_def)
  then have "256 \<le> f" "f < MAX_FRAMES"
    using assms(1) by (auto simp: pmm_inv_def free_set_def)
  with f show ?thesis
    using pmm_free_frame_correct [of st' f] by (auto simp: insert_absorb)
qed

theorem pmm_alloc_free_roundtrip_witness:
  "free_set (bitmap (case pmm_alloc_frame (pmm_init boot_map pmm_bss) of (a, st) \<Rightarrow> pmm_free_frame st a))
     = free_set (bitmap (pmm_init boot_map pmm_bss))"
proof -
  let ?st = "pmm_init boot_map pmm_bss"
  obtain a st' where a: "pmm_alloc_frame ?st = (a, st')" by fastforce
  have "a \<noteq> 0"
    using pmm_source.alloc_zero_iff [OF pmm_init_inv, of boot_map] a
    by (auto simp: avail_frames_def boot_map_free)
  from pmm_alloc_free_roundtrip [OF pmm_init_inv a this] show ?thesis
    by (simp add: a)
qed

text \<open>A usable region that starts in the last page below 4 GB makes the 32-bit rounding of its
  start wrap to frame 0: every frame up to the region's end is opened.\<close>

lemma region_first_wraps:
  assumes "0xFFFFF001 \<le> unat (e_base e)" "unat (e_base e) < 2 ^ 32"
  shows "region_first e = 0"
proof -
  have "unat (ucast (e_base e) :: u32) = unat (e_base e)"
    using assms by (simp add: unsigned_ucast_eq take_bit_eq_mod)
  then have "unat (ucast (e_base e) + 4095 :: u32) = (unat (e_base e) + 4095) mod 4294967296"
    by (simp add: unat_word_ariths)
  also have "\<dots> = unat (e_base e) + 4095 - 4294967296"
    using assms by (simp add: le_mod_geq)
  finally have "unat (ucast (e_base e) + 4095 :: u32) < 4096"
    using assms by simp
  then have "unat ((ucast (e_base e) + 4095) div 4096 :: u32) = 0"
    by (simp add: unat_div_4096)
  then show ?thesis
    by (simp add: region_first_def FRAME_SIZE_def add.commute unsigned_eq_0_iff)
qed

definition wrap_entry :: e820_entry where
  "wrap_entry = \<lparr>e_base = 0xFFFFF800, e_len = 0x800, e_type = 1, e_attr = 0\<rparr>"

lemma wrap_entry_opens_everything:
  "{0..<0xFFFFF} \<subseteq> region_frames wrap_entry" "\<not> whole_frame_in wrap_entry f"
proof -
  have "region_first wrap_entry = 0"
    by (rule region_first_wraps) (simp_all add: wrap_entry_def)
  then show "{0..<0xFFFFF} \<subseteq> region_frames wrap_entry"
    by (simp add: region_frames_def region_reachable_def wrap_entry_def E820_USABLE_def
        drop_bit_eq_div region_last_def region_end64_def FRAME_SIZE_def)
  show "\<not> whole_frame_in wrap_entry f"
    by (auto simp: whole_frame_in_def wrap_entry_def)
qed

end
