(* ===== verification/Videoinfo.thy ===== *)
theory Videoinfo
  imports Prelude
begin

text \<open>\<open>kernel/videoinfo.h\<close>: the VBE mode description the entry stub left at \<open>0x6400\<close>.\<close>

record video_info =
  vi_width :: u16
  vi_height :: u16
  vi_bpp :: u16
  vi_pitch :: u32
  vi_lfb :: u32

definition load16 :: "mem \<Rightarrow> u32 \<Rightarrow> u16" where
  "load16 m a = ucast (m a) OR push_bit 8 (ucast (m (a + 1)))"

definition video_info_at :: "mem \<Rightarrow> video_info" where
  "video_info_at m =
     \<lparr>vi_width = load16 m 0x6400, vi_height = load16 m 0x6402, vi_bpp = load16 m 0x6404,
      vi_pitch = load32 m 0x6408, vi_lfb = load32 m 0x640C\<rparr>"

end
