(* ===== verification/Paging.thy ===== *)
theory Paging
  imports Kstring Pmm Videoinfo
begin

text \<open>
  \<open>kernel/paging.c\<close>: the page directory, page tables in physical memory, and identity
  mapping. The state holds the directory (1024 entries), physical memory (the page tables
  are written there, at their physical addresses, as the code does through the identity
  map), the frame allocator and the paging bit of \<open>CR0\<close>. \<open>translate\<close> is the processor's
  two-level walk, the specification the operations are proved against; the TLB
  (\<open>invlpg\<close>) is not modelled.
\<close>

definition PTE_PRESENT :: u32 where "PTE_PRESENT = 1"
definition PTE_WRITE :: u32 where "PTE_WRITE = 2"

record paging =
  page_dir :: "nat \<Rightarrow> u32"
  phys_mem :: mem
  pg_pmm :: pmm
  pg_enabled :: bool

definition pd_idx :: "u32 \<Rightarrow> nat" where
  "pd_idx virt = unat (drop_bit 22 virt)"

definition pt_idx :: "u32 \<Rightarrow> nat" where
  "pt_idx virt = unat (drop_bit 12 virt AND 0x3FF)"

definition paging_map :: "u32 \<Rightarrow> u32 \<Rightarrow> paging \<Rightarrow> paging" where
  "paging_map virt phys st =
     (let (pt, st1) =
            (if page_dir st (pd_idx virt) AND PTE_PRESENT \<noteq> 0
             then (page_dir st (pd_idx virt) AND 0xFFFFF000, st)
             else let (pt, pmm') = pmm_alloc_frame (pg_pmm st)
                  in (pt, st\<lparr>pg_pmm := pmm',
                             phys_mem := memset (phys_mem st) pt 0 FRAME_SIZE,
                             page_dir := (page_dir st)(pd_idx virt := pt OR PTE_PRESENT OR PTE_WRITE)\<rparr>))
      in st1\<lparr>phys_mem := store32 (phys_mem st1) (pt + 4 * of_nat (pt_idx virt))
                           ((phys AND 0xFFFFF000) OR PTE_PRESENT OR PTE_WRITE)\<rparr>)"

text \<open>The loop of \<open>identity_map_range\<close>; the page address wraps at 4 GB like the code's.\<close>

partial_function (option) identity_map_from :: "u32 \<Rightarrow> u32 \<Rightarrow> paging \<Rightarrow> paging option" where
  "identity_map_from p stop st =
     (if p < stop then identity_map_from (p + FRAME_SIZE) stop (paging_map p p st) else Some st)"

definition identity_map_range :: "u32 \<Rightarrow> u32 \<Rightarrow> paging \<Rightarrow> paging option" where
  "identity_map_range start stop st = identity_map_from (start AND NOT (FRAME_SIZE - 1)) stop st"

definition map_region :: "e820_entry \<Rightarrow> paging \<Rightarrow> paging option" where
  "map_region e st =
     (if e_type e \<noteq> E820_USABLE \<or> drop_bit 32 (e_base e) \<noteq> 0 then Some st
      else identity_map_range (ucast (e_base e)) (ucast (region_end64 e)) st)"

fun map_regions :: "e820_entry list \<Rightarrow> paging \<Rightarrow> paging option" where
  "map_regions [] st = Some st"
| "map_regions (e # es) st = (case map_region e st of None \<Rightarrow> None | Some st' \<Rightarrow> map_regions es st')"

definition map_framebuffer :: "video_info \<Rightarrow> paging \<Rightarrow> paging option" where
  "map_framebuffer vi st =
     (if vi_lfb vi \<noteq> 0
      then identity_map_range (vi_lfb vi) (vi_lfb vi + vi_pitch vi * ucast (vi_height vi)) st
      else Some st)"

text \<open>\<open>low\<close> is the memory the entry stub left its tables in.\<close>

definition paging_init :: "mem \<Rightarrow> paging \<Rightarrow> paging option" where
  "paging_init low st =
     (case identity_map_range 0 0x100000 st of None \<Rightarrow> None
      | Some st1 \<Rightarrow>
          (case map_regions (memmap_list low) st1 of None \<Rightarrow> None
           | Some st2 \<Rightarrow>
               (case map_framebuffer (video_info_at low) st2 of None \<Rightarrow> None
                | Some st3 \<Rightarrow> Some (st3\<lparr>pg_enabled := True\<rparr>))))"

subsection \<open>The processor's walk\<close>

definition translate :: "paging \<Rightarrow> u32 \<Rightarrow> u32 option" where
  "translate st v =
     (let pde = page_dir st (pd_idx v)
      in if pde AND PTE_PRESENT = 0 then None
         else let pte = load32 (phys_mem st) ((pde AND 0xFFFFF000) + 4 * of_nat (pt_idx v))
              in if pte AND PTE_PRESENT = 0 then None
                 else Some ((pte AND 0xFFFFF000) + (v AND 0xFFF)))"

subsection \<open>The invariant\<close>

definition present :: "paging \<Rightarrow> nat \<Rightarrow> bool" where
  "present st i \<longleftrightarrow> page_dir st i AND PTE_PRESENT \<noteq> 0"

definition table_of :: "paging \<Rightarrow> nat \<Rightarrow> u32" where
  "table_of st i = page_dir st i AND 0xFFFFF000"

text \<open>Every page table sits in a frame of its own above 1 MB that the allocator will not hand
  out again.\<close>

definition tables_ok :: "paging \<Rightarrow> bool" where
  "tables_ok st \<longleftrightarrow>
     (\<forall>i < 1024. present st i \<longrightarrow>
        (\<exists>f. 256 \<le> f \<and> f < MAX_FRAMES \<and> table_of st i = frame_addr f \<and>
             f \<notin> free_set (bitmap (pg_pmm st)))) \<and>
     (\<forall>i < 1024. \<forall>j < 1024. present st i \<longrightarrow> present st j \<longrightarrow> table_of st i = table_of st j \<longrightarrow> i = j)"

definition paging_inv :: "paging \<Rightarrow> bool" where
  "paging_inv st \<longleftrightarrow> pmm_inv (pg_pmm st) \<and> tables_ok st"

lemma pd_idx_less [simp]: "pd_idx v < 1024"
  using unat_lt32 [of v] by (simp add: pd_idx_def unat_dir_index div_less_iff_less_mult)

lemma pt_idx_less [simp]: "pt_idx v < 1024"
  by (simp add: pt_idx_def unat_table_index)

lemma same_page_iff:
  "pd_idx v = pd_idx w \<and> pt_idx v = pt_idx w \<longleftrightarrow> unat v div 4096 = unat w div 4096"
proof -
  have "unat v div 4194304 = unat v div 4096 div 1024" for v :: u32
    by (simp add: div_mult2_eq [symmetric])
  then show ?thesis
    unfolding pd_idx_def pt_idx_def unat_dir_index unat_table_index
    by (metis div_mod_decomp)
qed

lemma frame_addr_page: "f < MAX_FRAMES \<Longrightarrow> frame_addr f AND 0xFFFFF000 = frame_addr f"
  by (simp add: u32_eq_iff unat_page_base unat_frame_addr)

lemma frame_entry_page:
  "f < MAX_FRAMES \<Longrightarrow> (frame_addr f OR 3) AND 0xFFFFF000 = frame_addr f"
  using entry_frame [of "frame_addr f"] by (simp add: frame_addr_page)

lemma unat_slot:
  assumes "f < MAX_FRAMES" "k < 1024"
  shows "unat (frame_addr f + 4 * of_nat k) = 4 * (1024 * f + k)"
proof -
  have "unat (4 * of_nat k :: u32) = 4 * k"
    using assms(2) by (simp add: unat_mult32 unat_of_nat32)
  moreover have "4096 * f + 4 * k < 4294967296"
    using assms by (simp add: MAX_FRAMES_def)
  ultimately show ?thesis
    using assms by (simp add: unat_add32 unat_frame_addr)
qed

lemma slot_eq_iff:
  assumes "f < MAX_FRAMES" "g < MAX_FRAMES" "j < 1024" "k < 1024"
  shows "1024 * f + j = 1024 * g + k \<longleftrightarrow> f = g \<and> j = k"
proof -
  have "(1024 * f + j) div 1024 = f" "(1024 * f + j) mod 1024 = j"
    "(1024 * g + k) div 1024 = g" "(1024 * g + k) mod 1024 = k"
    using assms by simp_all
  then show ?thesis by metis
qed

lemma slot_read_other:
  assumes "f < MAX_FRAMES" "g < MAX_FRAMES" "j < 1024" "k < 1024" "f \<noteq> g \<or> j \<noteq> k"
  shows "load32 (store32 m (frame_addr f + 4 * of_nat j) x) (frame_addr g + 4 * of_nat k)
    = load32 m (frame_addr g + 4 * of_nat k)"
  using assms slot_eq_iff [of f g j k]
  by (intro load32_store32_other [OF unat_slot unat_slot]) auto

text \<open>A zeroed table frame reads as zero, and other frames are untouched.\<close>

lemma zeroed_frame:
  assumes "f < MAX_FRAMES" "g < MAX_FRAMES" "k < 1024"
  shows "load32 (memset m (frame_addr f) 0 FRAME_SIZE) (frame_addr g + 4 * of_nat k)
    = (if g = f then 0 else load32 m (frame_addr g + 4 * of_nat k))"
proof -
  let ?b = "frame_addr g + 4 * of_nat k"
  have f: "unat (frame_addr f) = 4096 * f"
    using assms(1) by (rule unat_frame_addr)
  have set: "memset m (frame_addr f) 0 FRAME_SIZE a
      = (if 4096 * f \<le> unat a \<and> unat a < 4096 * f + 4096 then 0 else m a)" for a
    using assms(1) set_bytes_unat [of "frame_addr f" 4096 m 0 a]
    by (simp add: memset_eq FRAME_SIZE_def f MAX_FRAMES_def)
  have b: "unat (?b + of_nat n) = 4096 * g + 4 * k + n" if "n < 4" for n
    using unat_plus_lt4 [OF unat_slot [OF assms(2,3)] that] by simp
  have inside: "4096 * f \<le> 4096 * g + 4 * k + n \<and> 4096 * g + 4 * k + n < 4096 * f + 4096 \<longleftrightarrow> g = f"
    if "n < 4" for n
    using assms(3) that by (auto simp: not_less; linarith)
  have byte: "memset m (frame_addr f) 0 FRAME_SIZE (?b + of_nat n)
      = (if g = f then 0 else m (?b + of_nat n))" if "n < 4" for n
    unfolding set b [OF that] inside [OF that] by (rule refl)
  show ?thesis
  proof (cases "g = f")
    case True
    have "load32 (memset m (frame_addr f) 0 FRAME_SIZE) ?b = load32 (\<lambda>_. 0) ?b"
      by (rule load32_cong) (simp add: byte [unfolded True] True)
    also have "\<dots> = 0" by (simp add: load32_def le32_def)
    finally show ?thesis using True by simp
  next
    case False
    have "load32 (memset m (frame_addr f) 0 FRAME_SIZE) ?b = load32 m ?b"
      by (rule load32_cong) (simp add: byte False)
    then show ?thesis using False by simp
  qed
qed

subsection \<open>One mapping\<close>

text \<open>The two halves of \<open>paging_map\<close>: making sure there is a table, and writing the entry.\<close>

definition ensure_table :: "nat \<Rightarrow> paging \<Rightarrow> paging" where
  "ensure_table i st =
     (if present st i then st
      else let (pt, pmm') = pmm_alloc_frame (pg_pmm st)
           in st\<lparr>pg_pmm := pmm', phys_mem := memset (phys_mem st) pt 0 FRAME_SIZE,
                 page_dir := (page_dir st)(i := pt OR PTE_PRESENT OR PTE_WRITE)\<rparr>)"

definition write_entry :: "u32 \<Rightarrow> u32 \<Rightarrow> paging \<Rightarrow> paging" where
  "write_entry virt phys st =
     st\<lparr>phys_mem := store32 (phys_mem st) (table_of st (pd_idx virt) + 4 * of_nat (pt_idx virt))
                     ((phys AND 0xFFFFF000) OR PTE_PRESENT OR PTE_WRITE)\<rparr>"

lemma new_table_addr:
  assumes "pmm_inv p" "avail_frames p \<noteq> {}" "pmm_alloc_frame p = (a, p')"
  shows "\<exists>f. 256 \<le> f \<and> f < MAX_FRAMES \<and> a = frame_addr f \<and> f \<in> free_set (bitmap p) \<and>
    free_set (bitmap p') = free_set (bitmap p) - {f} \<and> pmm_inv p'"
proof -
  have "free_set (bitmap p) \<noteq> {}" using assms(2) by (simp add: avail_frames_def)
  from pmm_alloc_some [OF assms(1) this] assms(3)
  obtain f where "a = frame_addr f" "f \<in> free_set (bitmap p)" "pmm_inv p'"
      "bitmap p' = mark_used (bitmap p) f"
    by (auto simp: frame_addr_def)
  then show ?thesis
    using assms(1) by (intro exI [of _ f]) (auto simp: free_set_def pmm_inv_def)
qed

lemma paging_map_split:
  assumes "paging_inv st" "present st (pd_idx v) \<or> avail_frames (pg_pmm st) \<noteq> {}"
  shows "paging_map v p st = write_entry v p (ensure_table (pd_idx v) st)"
proof (cases "present st (pd_idx v)")
  case True
  then show ?thesis
    by (simp add: paging_map_def ensure_table_def write_entry_def present_def table_of_def)
next
  case False
  obtain a p' where a: "pmm_alloc_frame (pg_pmm st) = (a, p')" by fastforce
  with assms False obtain f where "f < MAX_FRAMES" "a = frame_addr f"
    using new_table_addr [of "pg_pmm st" a p'] by (auto simp: paging_inv_def)
  then have "(a OR 3) AND 0xFFFFF000 = a"
    by (simp add: frame_entry_page)
  with False a show ?thesis
    by (simp add: paging_map_def ensure_table_def write_entry_def present_def table_of_def
        PTE_PRESENT_def PTE_WRITE_def)
qed

lemma ensure_table_correct:
  assumes "paging_inv st" "i < 1024" "present st i \<or> avail_frames (pg_pmm st) \<noteq> {}"
  shows "paging_inv (ensure_table i st) \<and> present (ensure_table i st) i \<and>
    (\<forall>j. j \<noteq> i \<longrightarrow> present (ensure_table i st) j = present st j) \<and>
    (\<forall>w. translate (ensure_table i st) w = translate st w)"
proof (cases "present st i")
  case True
  with assms show ?thesis by (simp add: ensure_table_def)
next
  case new: False
  obtain a p' where a: "pmm_alloc_frame (pg_pmm st) = (a, p')" by fastforce
  with assms new obtain f where f: "256 \<le> f" "f < MAX_FRAMES" "a = frame_addr f"
      "f \<in> free_set (bitmap (pg_pmm st))" "free_set (bitmap p') = free_set (bitmap (pg_pmm st)) - {f}"
      "pmm_inv p'"
    using new_table_addr [of "pg_pmm st" a p'] by (auto simp: paging_inv_def)
  let ?st = "ensure_table i st"
  have st: "?st = st\<lparr>pg_pmm := p', phys_mem := memset (phys_mem st) (frame_addr f) 0 FRAME_SIZE,
      page_dir := (page_dir st)(i := frame_addr f OR 3)\<rparr>"
    using new a f(3) by (simp add: ensure_table_def PTE_PRESENT_def PTE_WRITE_def)
  have pres: "present ?st j = (j = i \<or> present st j)" for j
    using entry_present [of "frame_addr f"] by (simp add: st present_def PTE_PRESENT_def)
  have tab_i: "table_of ?st i = frame_addr f"
    using f(2) by (simp add: st table_of_def frame_entry_page)
  have tab: "table_of ?st j = table_of st j" if "j \<noteq> i" for j
    using that by (simp add: st table_of_def)
  have old: "\<exists>g. 256 \<le> g \<and> g < MAX_FRAMES \<and> table_of st j = frame_addr g \<and> g \<noteq> f \<and>
      g \<notin> free_set (bitmap (pg_pmm st))" if "present st j" "j < 1024" for j
    using assms(1) that f(4) unfolding paging_inv_def tables_ok_def by blast
  have other: "table_of st j \<noteq> frame_addr f" if "present st j" "j < 1024" for j
    using old [OF that] f(2) by (auto simp: frame_addr_inj)
  have "tables_ok ?st"
    unfolding tables_ok_def
  proof (intro conjI allI impI)
    fix j :: nat assume j: "j < 1024" "present ?st j"
    show "\<exists>g\<ge>256. g < MAX_FRAMES \<and> table_of ?st j = frame_addr g \<and>
        g \<notin> free_set (bitmap (pg_pmm ?st))"
    proof (cases "j = i")
      case True
      then show ?thesis using f tab_i by (auto simp: st)
    next
      case False
      then have "present st j" using j pres by simp
      from old [OF this j(1)] show ?thesis
        using f(5) tab [OF False] by (auto simp: st)
    qed
  next
    fix j k :: nat
    assume jk: "j < 1024" "k < 1024" "present ?st j" "present ?st k" "table_of ?st j = table_of ?st k"
    have "present st j \<Longrightarrow> present st k \<Longrightarrow> table_of st j = table_of st k \<Longrightarrow> j = k"
      using assms(1) jk(1,2) by (auto simp: paging_inv_def tables_ok_def)
    then show "j = k"
      using jk pres tab tab_i other by metis
  qed
  moreover have "translate ?st w = translate st w" for w
  proof (cases "present st (pd_idx w)")
    case True
    then obtain g where g: "g < MAX_FRAMES" "table_of st (pd_idx w) = frame_addr g" "g \<noteq> f"
      using old by fastforce
    then have "load32 (memset (phys_mem st) (frame_addr f) 0 FRAME_SIZE) (frame_addr g + 4 * of_nat (pt_idx w))
        = load32 (phys_mem st) (frame_addr g + 4 * of_nat (pt_idx w))"
      using f(2) by (simp add: zeroed_frame)
    moreover have "pd_idx w \<noteq> i" using True new by auto
    ultimately show ?thesis
      using g(2) by (simp add: translate_def st table_of_def Let_def)
  next
    case False
    then have "translate st w = None"
      by (simp add: translate_def present_def)
    moreover have "translate ?st w = None"
    proof (cases "pd_idx w = i")
      case True
      then have "load32 (phys_mem ?st) (table_of ?st (pd_idx w) + 4 * of_nat (pt_idx w)) = 0"
        using f(2) tab_i by (simp add: st zeroed_frame)
      then show ?thesis by (simp add: translate_def table_of_def Let_def)
    next
      case False
      with \<open>\<not> present st (pd_idx w)\<close> pres have "\<not> present ?st (pd_idx w)" by simp
      then show ?thesis by (simp add: translate_def present_def)
    qed
    ultimately show ?thesis by simp
  qed
  ultimately show ?thesis
    using f(6) pres by (simp add: paging_inv_def st)
qed

lemma entry_value: "((p AND 0xFFFFF000) OR PTE_PRESENT OR PTE_WRITE) = (p AND 0xFFFFF000) OR 3"
  by (simp add: PTE_PRESENT_def PTE_WRITE_def)

lemma write_entry_correct:
  assumes "paging_inv st" "present st (pd_idx v)"
  shows "paging_inv (write_entry v p st) \<and> (\<forall>j. present (write_entry v p st) j = present st j) \<and>
    translate (write_entry v p st) w =
      (if unat w div 4096 = unat v div 4096 then Some ((p AND 0xFFFFF000) + (w AND 0xFFF))
       else translate st w)"
proof -
  let ?st = "write_entry v p st"
  have pres: "present ?st j = present st j" and tab: "table_of ?st j = table_of st j" for j
    by (simp_all add: write_entry_def present_def table_of_def)
  have inv: "paging_inv ?st"
    using assms(1) unfolding paging_inv_def tables_ok_def pres tab by (simp add: write_entry_def)
  have cell: "\<exists>g. g < MAX_FRAMES \<and> table_of st j = frame_addr g" if "present st j" "j < 1024" for j
    using assms(1) that unfolding paging_inv_def tables_ok_def by blast
  obtain f where f: "f < MAX_FRAMES" "table_of st (pd_idx v) = frame_addr f"
    using cell [OF assms(2)] by auto
  have walk: "translate ?st w =
      (if present st (pd_idx w)
       then let pte = load32 (phys_mem ?st) (table_of st (pd_idx w) + 4 * of_nat (pt_idx w))
            in if pte AND PTE_PRESENT = 0 then None else Some ((pte AND 0xFFFFF000) + (w AND 0xFFF))
       else None)"
    by (simp add: translate_def write_entry_def present_def table_of_def Let_def)
  have mem: "phys_mem ?st = store32 (phys_mem st) (frame_addr f + 4 * of_nat (pt_idx v))
      ((p AND 0xFFFFF000) OR 3)"
    by (simp add: write_entry_def f(2) entry_value)
  show ?thesis
  proof (cases "unat w div 4096 = unat v div 4096")
    case True
    then have "pd_idx w = pd_idx v" "pt_idx w = pt_idx v"
      using same_page_iff [of w v] by auto
    then show ?thesis
      using walk mem f(2) assms(2) inv pres True entry_present [of "p AND 0xFFFFF000"]
      by (simp add: entry_frame PTE_PRESENT_def)
  next
    case False
    have "translate ?st w = translate st w"
    proof (cases "present st (pd_idx w)")
      case pw: True
      then obtain g where g: "g < MAX_FRAMES" "table_of st (pd_idx w) = frame_addr g"
        using cell by fastforce
      have "f \<noteq> g \<or> pt_idx v \<noteq> pt_idx w"
      proof (rule ccontr)
        assume "\<not> (f \<noteq> g \<or> pt_idx v \<noteq> pt_idx w)"
        then have "table_of st (pd_idx w) = table_of st (pd_idx v)" "pt_idx w = pt_idx v"
          using f g by auto
        then have "pd_idx w = pd_idx v"
          using assms pw by (auto simp: paging_inv_def tables_ok_def)
        with False \<open>pt_idx w = pt_idx v\<close> show False
          using same_page_iff [of w v] by auto
      qed
      then have "load32 (phys_mem ?st) (frame_addr g + 4 * of_nat (pt_idx w))
          = load32 (phys_mem st) (frame_addr g + 4 * of_nat (pt_idx w))"
        unfolding mem using f g by (intro slot_read_other) auto
      then show ?thesis
        using walk pw g(2) by (simp add: translate_def present_def table_of_def Let_def)
    next
      case False
      then show ?thesis
        using walk by (simp add: translate_def present_def)
    qed
    with False inv pres show ?thesis by simp
  qed
qed

lemma paging_map_step:
  assumes "paging_inv st" "present st (pd_idx v) \<or> avail_frames (pg_pmm st) \<noteq> {}"
  shows "paging_inv (paging_map v p st) \<and>
    translate (paging_map v p st) w =
      (if unat w div 4096 = unat v div 4096 then Some ((p AND 0xFFFFF000) + (w AND 0xFFF))
       else translate st w)"
  using ensure_table_correct [OF assms(1) pd_idx_less assms(2)]
    write_entry_correct [of "ensure_table (pd_idx v) st" v p w]
  by (simp add: paging_map_split [OF assms])

text \<open>C27: mapping one page is exactly an update of the address translation: the page's
  addresses go to the frame, every other address translates as before (or stays unmapped),
  and the tables stay in frames of their own.\<close>

theorem paging_map_translate:
  assumes "paging_inv st" "present st (pd_idx v) \<or> avail_frames (pg_pmm st) \<noteq> {}"
  shows "paging_inv (paging_map v p st) \<and>
    translate (paging_map v p st) w =
      (if unat w div 4096 = unat v div 4096 then Some ((p AND 0xFFFFF000) + (w AND 0xFFF))
       else translate st w)"
  by (rule paging_map_step [OF assms])

definition paging_bss :: "pmm \<Rightarrow> paging" where
  "paging_bss p = \<lparr>page_dir = (\<lambda>_. 0), phys_mem = (\<lambda>_. 0), pg_pmm = p, pg_enabled = False\<rparr>"

lemma paging_bss_empty:
  "\<not> present (paging_bss p) i" "translate (paging_bss p) w = None" "pg_pmm (paging_bss p) = p"
  by (simp_all add: present_def translate_def paging_bss_def)

lemma paging_bss_inv: "pmm_inv p \<Longrightarrow> paging_inv (paging_bss p)"
  by (simp add: paging_inv_def tables_ok_def paging_bss_empty)

theorem paging_map_translate_witness:
  "translate (paging_map 0xD0000000 0x103000 (paging_bss (pmm_init boot_map pmm_bss))) 0xD0000123
     = Some 0x103123"
proof -
  let ?st = "paging_bss (pmm_init boot_map pmm_bss)"
  have "present ?st (pd_idx 0xD0000000) \<or> avail_frames (pg_pmm ?st) \<noteq> {}"
    by (simp add: paging_bss_empty avail_frames_def boot_map_free)
  from paging_map_translate [OF paging_bss_inv [OF pmm_init_inv] this, of "0x103000" "0xD0000123"]
  show ?thesis by simp
qed

text \<open>The allocator's refusal is not checked: with no frame left, the new table is physical
  page 0, which is zeroed and installed.\<close>

lemma paging_map_out_of_frames:
  assumes "\<not> present st (pd_idx v)" "pmm_alloc_frame (pg_pmm st) = (0, p')"
  shows "page_dir (paging_map v p st) (pd_idx v) = 3"
    and "phys_mem (paging_map v p st) =
      store32 (set_bytes (phys_mem st) 0 0 4096) (4 * of_nat (pt_idx v)) ((p AND 0xFFFFF000) OR 3)"
  using assms by (simp_all add: paging_map_def present_def PTE_PRESENT_def PTE_WRITE_def
      memset_eq FRAME_SIZE_def)

subsection \<open>Enough frames for every table\<close>

text \<open>A free frame for every page table still absent, and \<open>r\<close> more.\<close>

definition roomy :: "nat \<Rightarrow> paging \<Rightarrow> bool" where
  "roomy r st \<longleftrightarrow> card {i. i < 1024 \<and> \<not> present st i} + r \<le> card (avail_frames (pg_pmm st))"

lemma roomy_avail:
  assumes "roomy r st" "i < 1024" "\<not> present st i"
  shows "avail_frames (pg_pmm st) \<noteq> {}"
proof -
  have "finite {i. i < 1024 \<and> \<not> present st i}" by simp
  then have "0 < card {i. i < 1024 \<and> \<not> present st i}"
    using assms(2,3) by (auto simp: card_gt_0_iff)
  then have "0 < card (avail_frames (pg_pmm st))"
    using assms(1) unfolding roomy_def by linarith
  then show ?thesis by auto
qed

lemma ensure_table_roomy:
  assumes "paging_inv st" "roomy r st" "i < 1024"
  shows "roomy r (ensure_table i st)"
proof (cases "present st i")
  case True
  with assms(2) show ?thesis by (simp add: ensure_table_def)
next
  case False
  let ?A = "{j. j < 1024 \<and> \<not> present st j}"
  let ?st = "ensure_table i st"
  note avail = roomy_avail [OF assms(2,3) False]
  have inv: "pmm_inv (pg_pmm st)"
    using assms(1) by (simp add: paging_inv_def)
  obtain a p' where a: "pmm_alloc_frame (pg_pmm st) = (a, p')" by fastforce
  with pmm_source.alloc_some [OF inv avail a]
  have a': "a \<in> avail_frames (pg_pmm st)" "avail_frames p' = avail_frames (pg_pmm st) - {a}"
    by auto
  have st: "pg_pmm ?st = p'"
    using False a by (simp add: ensure_table_def)
  have "{j. j < 1024 \<and> \<not> present ?st j} = ?A - {i}"
    using ensure_table_correct [OF assms(1,3)] avail by auto
  moreover have "0 < card ?A"
    using assms(3) False by (auto simp: card_gt_0_iff)
  moreover have "card (?A - {i}) = card ?A - 1"
    using assms(3) False by (intro card_Diff_singleton) auto
  moreover have "card (avail_frames p') = card (avail_frames (pg_pmm st)) - 1"
    using a' by (simp add: card_Diff_singleton)
  ultimately show ?thesis
    using assms(2) \<open>0 < card ?A\<close> by (simp add: roomy_def st)
qed

lemma paging_map_roomy:
  assumes "paging_inv st" "roomy r st"
  shows "roomy r (paging_map v p st)"
proof -
  have "present st (pd_idx v) \<or> avail_frames (pg_pmm st) \<noteq> {}"
    using assms(2) roomy_avail [of r st "pd_idx v"] by auto
  note split = paging_map_split [OF assms(1) this]
  have "roomy r (write_entry v p s) = roomy r s" for s
    by (simp add: roomy_def write_entry_def present_def)
  then show ?thesis
    using split ensure_table_roomy [OF assms pd_idx_less] by simp
qed

lemma paging_map_total:
  assumes "paging_inv st" "roomy r st"
  shows "paging_inv (paging_map v p st) \<and> roomy r (paging_map v p st) \<and>
    translate (paging_map v p st) w =
      (if unat w div 4096 = unat v div 4096 then Some ((p AND 0xFFFFF000) + (w AND 0xFFF))
       else translate st w)"
proof -
  have "present st (pd_idx v) \<or> avail_frames (pg_pmm st) \<noteq> {}"
    using assms(2) roomy_avail [of r st "pd_idx v"] by auto
  then show ?thesis
    using paging_map_step [OF assms(1), of v p w] paging_map_roomy [OF assms] by blast
qed

subsection \<open>Ranges\<close>

lemma page_start_aligned: "unat (p AND NOT (FRAME_SIZE - 1)) = unat p div 4096 * 4096"
proof -
  have "NOT (FRAME_SIZE - 1) = 0xFFFFF000"
    by (simp add: FRAME_SIZE_def)
  then show ?thesis by (simp add: unat_page_base)
qed

lemma next_page:
  assumes "unat p = 4096 * k" "unat p < unat stop" "unat stop \<le> 0xFFFFF000"
  shows "unat (p + FRAME_SIZE) = 4096 * (k + 1)"
  using assms unat_add32 [of p 4096] by (simp add: FRAME_SIZE_def)

lemma identity_map_from_returns:
  assumes "unat p = 4096 * k" "unat stop \<le> 0xFFFFF000"
  shows "\<exists>st'. identity_map_from p stop st = Some st'"
  using assms(1)
proof (induction "unat stop - unat p" arbitrary: p k st rule: less_induct)
  case less
  show ?case
  proof (cases "unat p < unat stop")
    case True
    have p': "unat (p + FRAME_SIZE) = 4096 * (k + 1)"
      using next_page less.prems True assms(2) by blast
    have "unat stop - unat (p + FRAME_SIZE) < unat stop - unat p"
      unfolding p' using less.prems True by simp
    from less.hyps [OF this p'] show ?thesis
      using True by (simp add: identity_map_from.simps [of p] word_less_nat_alt)
  next
    case False
    then show ?thesis
      by (simp add: identity_map_from.simps [of p] word_less_nat_alt)
  qed
qed

lemma page_aligned_step:
  assumes "unat p mod 4096 = 0"
  shows "unat (p + FRAME_SIZE) mod 4096 = 0"
proof -
  have "unat (p + FRAME_SIZE) = (unat p + 4096) mod (4096 * 1048576)"
    by (simp add: FRAME_SIZE_def unat_word_ariths)
  then show ?thesis
    using assms by (simp add: mod_mod_cancel)
qed

lemma identity_map_from_diverges:
  assumes "identity_map_from p stop st = Some st'"
  shows "unat p mod 4096 = 0 \<longrightarrow> unat stop \<le> 0xFFFFF000"
proof (rule identity_map_from.raw_induct
    [where P = "\<lambda>p stop st st'. unat p mod 4096 = 0 \<longrightarrow> unat stop \<le> 0xFFFFF000", OF _ assms])
  fix f p stop st st'
  assume IH: "\<And>p stop st st'. f p stop st = Some st' \<Longrightarrow> unat p mod 4096 = 0 \<longrightarrow> unat stop \<le> 0xFFFFF000"
    and eq: "(if p < stop then f (p + FRAME_SIZE) stop (paging_map p p st) else Some st) = Some st'"
  show "unat p mod 4096 = 0 \<longrightarrow> unat stop \<le> 0xFFFFF000"
  proof (cases "p < stop")
    case True
    with eq IH page_aligned_step show ?thesis by simp
  next
    case False
    have "unat p \<le> 0xFFFFF000" if "unat p mod 4096 = 0"
    proof -
      from that obtain k where "unat p = 4096 * k" by auto
      then show ?thesis using unat_lt32 [of p] by simp
    qed
    with False show ?thesis by (auto simp: word_less_nat_alt)
  qed
qed

text \<open>C28: \<open>identity_map_range\<close> returns exactly when the end of the range is not inside the
  last page of the address space; beyond that the page counter wraps and the loop never ends.\<close>

theorem identity_map_range_terminates_iff:
  "(\<exists>st'. identity_map_range start stop st = Some st') \<longleftrightarrow> unat stop \<le> 0xFFFFF000"
proof -
  have a: "unat (start AND NOT (FRAME_SIZE - 1)) = 4096 * (unat start div 4096)"
    by (simp add: page_start_aligned)
  then show ?thesis
    using identity_map_from_returns [OF a] identity_map_from_diverges
    unfolding identity_map_range_def by (metis mod_mult_self1_is_0)
qed

definition in_range :: "u32 \<Rightarrow> u32 \<Rightarrow> u32 \<Rightarrow> bool" where
  "in_range start stop w \<longleftrightarrow>
     unat start div 4096 \<le> unat w div 4096 \<and> 4096 * (unat w div 4096) < unat stop"

lemma identity_entry:
  assumes "unat w div 4096 = unat v div 4096"
  shows "(v AND 0xFFFFF000) + (w AND 0xFFF) = (w :: u32)"
proof -
  have "v AND 0xFFFFF000 = w AND 0xFFFFF000"
    unfolding u32_eq_iff unat_page_base using assms by simp
  then show ?thesis by (simp flip: page_base_offset)
qed

lemma identity_map_from_correct:
  assumes "unat p = 4096 * k" "unat stop \<le> 0xFFFFF000" "paging_inv st" "roomy r st"
    and "identity_map_from p stop st = Some st'"
  shows "paging_inv st' \<and> roomy r st' \<and>
    translate st' w = (if in_range p stop w then Some w else translate st w)"
  using assms(1,3-5)
proof (induction "unat stop - unat p" arbitrary: p k st rule: less_induct)
  case less
  note pm = paging_map_total [OF less.prems(2,3), of p p w]
  show ?case
  proof (cases "unat p < unat stop")
    case True
    have p': "unat (p + FRAME_SIZE) = 4096 * (k + 1)"
      using next_page less.prems(1) True assms(2) by blast
    have dec: "unat stop - unat (p + FRAME_SIZE) < unat stop - unat p"
      unfolding p' using less.prems(1) True by simp
    have step: "identity_map_from (p + FRAME_SIZE) stop (paging_map p p st) = Some st'"
      using less.prems(4) True by (simp add: identity_map_from.simps [of p] word_less_nat_alt)
    have IH: "paging_inv st' \<and> roomy r st' \<and>
        translate st' w = (if in_range (p + FRAME_SIZE) stop w then Some w else translate (paging_map p p st) w)"
      using less.hyps [OF dec p' _ _ step] pm by blast
    have "in_range p stop w \<longleftrightarrow> in_range (p + FRAME_SIZE) stop w \<or> unat w div 4096 = unat p div 4096"
      unfolding in_range_def p' using less.prems(1) True by auto
    then show ?thesis
      using IH pm identity_entry [of w p] by auto
  next
    case False
    then have "st' = st"
      using less.prems(4) by (simp add: identity_map_from.simps [of p] word_less_nat_alt)
    moreover have "\<not> in_range p stop w"
      unfolding in_range_def using False less.prems(1) by auto
    ultimately show ?thesis using less.prems by simp
  qed
qed

lemma identity_map_range_correct:
  assumes "unat stop \<le> 0xFFFFF000" "paging_inv st" "roomy r st"
  shows "\<exists>st'. identity_map_range start stop st = Some st' \<and> paging_inv st' \<and> roomy r st' \<and>
    (\<forall>w. translate st' w = (if in_range start stop w then Some w else translate st w))"
proof -
  let ?p = "start AND NOT (FRAME_SIZE - 1)"
  have a: "unat ?p = 4096 * (unat start div 4096)"
    by (simp add: page_start_aligned)
  obtain st' where "identity_map_from ?p stop st = Some st'"
    using identity_map_from_returns [OF a assms(1)] by blast
  moreover have "in_range ?p stop w = in_range start stop w" for w
    by (simp add: in_range_def a)
  ultimately show ?thesis
    using identity_map_from_correct [OF a assms] by (auto simp: identity_map_range_def)
qed

subsection \<open>Boot\<close>

definition region_range :: "e820_entry \<Rightarrow> u32 \<Rightarrow> bool" where
  "region_range e w \<longleftrightarrow> region_reachable e \<and> in_range (ucast (e_base e)) (ucast (region_end64 e)) w"

lemma unat_region_end: "unat (ucast (region_end64 e) :: u32) = unat (region_end64 e)"
  and unat_region_end_le: "unat (region_end64 e) \<le> 0xFFFFF000"
proof -
  have "region_end64 e \<le> 0xFFFFF000"
    by (simp add: region_end64_def Let_def linorder_not_less)
  then show *: "unat (region_end64 e) \<le> 0xFFFFF000"
    by (simp add: word_le_nat_alt)
  then show "unat (ucast (region_end64 e) :: u32) = unat (region_end64 e)"
    by (simp add: unsigned_ucast_eq take_bit_eq_mod)
qed

lemma map_region_correct:
  assumes "paging_inv st" "roomy r st"
  shows "\<exists>st'. map_region e st = Some st' \<and> paging_inv st' \<and> roomy r st' \<and>
    (\<forall>w. translate st' w = (if region_range e w then Some w else translate st w))"
proof (cases "region_reachable e")
  case True
  have "unat (ucast (region_end64 e) :: u32) \<le> 0xFFFFF000"
    unfolding unat_region_end by (rule unat_region_end_le)
  from identity_map_range_correct [OF this assms, of "ucast (e_base e)"] True
  show ?thesis by (auto simp: map_region_def region_range_def region_reachable_def)
next
  case False
  with assms show ?thesis
    by (auto simp: map_region_def region_range_def region_reachable_def)
qed

lemma map_regions_correct:
  "paging_inv st \<Longrightarrow> roomy r st \<Longrightarrow>
   \<exists>st'. map_regions es st = Some st' \<and> paging_inv st' \<and> roomy r st' \<and>
     (\<forall>w. translate st' w = (if \<exists>e \<in> set es. region_range e w then Some w else translate st w))"
proof (induction es arbitrary: st)
  case (Cons e es)
  then obtain s1 where 1: "map_region e st = Some s1" "paging_inv s1" "roomy r s1"
      "\<forall>w. translate s1 w = (if region_range e w then Some w else translate st w)"
    using map_region_correct by blast
  from Cons.IH [OF 1(2,3)] obtain s2 where "map_regions es s1 = Some s2" "paging_inv s2" "roomy r s2"
      "\<forall>w. translate s2 w = (if \<exists>e \<in> set es. region_range e w then Some w else translate s1 w)"
    by blast
  with 1 show ?case by (intro exI [of _ s2]) auto
qed simp

lemma free_frame_in_range:
  assumes "region_sane e" "f \<in> region_frames e" "unat w div 4096 = f"
  shows "region_range e w"
proof -
  have r: "region_reachable e" "whole_frame_in e f"
    using assms(1,2) region_frames_iff by auto
  then have b: "unat (e_base e) \<le> 4096 * f" "4096 * (f + 1) \<le> unat (e_base e) + unat (e_len e)"
      "4096 * (f + 1) \<le> 0xFFFFF000"
    by (auto simp: whole_frame_in_def)
  have "unat (ucast (e_base e) :: u32) = unat (e_base e)"
    using b(1,3) by (simp add: unsigned_ucast_eq take_bit_eq_mod)
  moreover have "unat (e_base e + e_len e) = unat (e_base e) + unat (e_len e)"
    using assms(1) by (simp add: region_sane_def unat_word_ariths)
  then have "4096 * f < unat (region_end64 e)"
    using b by (simp add: region_end64_def Let_def)
  moreover have "unat (e_base e) div 4096 \<le> f"
    using b(1) by linarith
  ultimately show ?thesis
    using r(1) assms(3) by (simp add: region_range_def in_range_def unat_region_end)
qed

lemma map_framebuffer_correct:
  assumes "paging_inv st" "roomy r st"
    and "vi_lfb vi \<noteq> 0 \<Longrightarrow> unat (vi_lfb vi + vi_pitch vi * ucast (vi_height vi)) \<le> 0xFFFFF000"
  shows "\<exists>st'. map_framebuffer vi st = Some st' \<and> paging_inv st' \<and> roomy r st' \<and>
    (\<forall>w. translate st' w =
      (if vi_lfb vi \<noteq> 0 \<and> in_range (vi_lfb vi) (vi_lfb vi + vi_pitch vi * ucast (vi_height vi)) w
       then Some w else translate st w))"
proof (cases "vi_lfb vi = 0")
  case True
  with assms show ?thesis by (simp add: map_framebuffer_def)
next
  case False
  from identity_map_range_correct [OF assms(3) [OF False] assms(1,2), of "vi_lfb vi"] False
  show ?thesis by (auto simp: map_framebuffer_def)
qed


text \<open>A machine with 8 MB of usable RAM at 1 MB and a 1024x768x32 framebuffer.\<close>

definition boot_low :: mem where
  "boot_low = boot_map(0x600D := 0, 0x600E := 0x80,
     0x6401 := 4, 0x6403 := 3, 0x6404 := 32, 0x6409 := 0x10, 0x640F := 0xFD)"

lemma boot_low_list:
  "memmap_list boot_low = [\<lparr>e_base = 0x100000, e_len = 0x800000, e_type = 1, e_attr = 0\<rparr>]"
  by (simp add: memmap_list_def memmap_count_def memmap_entry_def E820_BUF_def boot_map_def
      boot_low_def load32_def load64_def le32_def push_bit_eq_mult)

lemma boot_low_video:
  "video_info_at boot_low =
     \<lparr>vi_width = 1024, vi_height = 768, vi_bpp = 32, vi_pitch = 4096, vi_lfb = 0xFD000000\<rparr>"
  by (simp add: video_info_at_def boot_map_def boot_low_def load16_def load32_def le32_def
      push_bit_eq_mult)

lemma boot_low_free: "free_set (bitmap (pmm_init boot_low pmm_bss)) = {256..<2304}"
proof -
  have "region_frames \<lparr>e_base = 0x100000, e_len = 0x800000, e_type = 1, e_attr = 0\<rparr> = {256..<2304}"
    by (simp add: region_frames_def region_reachable_def region_first_def drop_bit_eq_div
        region_last_def region_end64_def E820_USABLE_def FRAME_SIZE_def)
  moreover have "{256..<2304} - {0..<256} = {256..<2304 :: nat}"
    by (intro set_eqI) (simp, linarith)
  ultimately show ?thesis
    using pmm_init_free_set [of boot_low] by (simp add: boot_low_list)
qed


end
