(* ===== verification/Heap.thy ===== *)
theory Heap
  imports Paging
begin

text \<open>
  \<open>kernel/heap.c\<close>: the kernel heap. Block headers live in an explicit store indexed by the
  header's address and linked by next pointers (0 is NULL), as in the code; the payload
  bytes behind a header are the callers'. Loops over the list are \<open>partial_function\<close>s: that
  they return is proved, not assumed. The abstraction of a well-formed heap is the list of
  its blocks' sizes and free flags, against which \<open>coalesce\<close> refines \<open>merge_free\<close> and the
  search in \<open>kmalloc\<close> refines \<open>first_fit\<close>; clients see the set of live allocations.
\<close>

definition HEAP_BASE :: u32 where "HEAP_BASE = 0xD0000000"
definition MIN_EXPAND_PAGES :: u32 where "MIN_EXPAND_PAGES = 4"
definition sizeof_block :: u32 where "sizeof_block = 12"

definition ALIGN8 :: "u32 \<Rightarrow> u32" where
  "ALIGN8 n = (n + 7) AND NOT 7"

record block =
  b_size :: u32
  b_free :: bool
  b_next :: u32

type_synonym store = "u32 \<Rightarrow> block"

record heap =
  blocks :: store
  heap_head :: u32
  heap_mapped :: u32
  heap_pg :: paging

definition block_end :: "store \<Rightarrow> u32 \<Rightarrow> u32" where
  "block_end m b = b + sizeof_block + b_size (m b)"

partial_function (option) coalesce_from :: "store \<Rightarrow> u32 \<Rightarrow> store option" where
  "coalesce_from m b =
     (if b \<noteq> 0 \<and> b_next (m b) \<noteq> 0 then
        (if b_free (m b) \<and> b_free (m (b_next (m b))) \<and> block_end m b = b_next (m b)
         then coalesce_from
                (m(b := (m b)\<lparr>b_size := b_size (m b) + sizeof_block + b_size (m (b_next (m b))),
                              b_next := b_next (m (b_next (m b)))\<rparr>)) b
         else coalesce_from m (b_next (m b)))
      else Some m)"

definition coalesce :: "heap \<Rightarrow> heap option" where
  "coalesce hp =
     (case coalesce_from (blocks hp) (heap_head hp) of None \<Rightarrow> None
      | Some m \<Rightarrow> Some (hp\<lparr>blocks := m\<rparr>))"

text \<open>The mapping loop of \<open>expand\<close>: \<open>base\<close> is \<open>HEAP_BASE + mapped\<close>.\<close>

fun map_frames :: "nat \<Rightarrow> u32 \<Rightarrow> u32 \<Rightarrow> paging \<Rightarrow> u32 \<times> paging" where
  "map_frames 0 base grown pg = (grown, pg)"
| "map_frames (Suc n) base grown pg =
     (let (frame, pmm') = pmm_alloc_frame (pg_pmm pg); pg1 = pg\<lparr>pg_pmm := pmm'\<rparr>
      in if frame = 0 then (grown, pg1)
         else map_frames n base (grown + FRAME_SIZE) (paging_map (base + grown) frame pg1))"

definition expand_pages :: "u32 \<Rightarrow> u32" where
  "expand_pages min_bytes =
     (let pages = (min_bytes + sizeof_block + FRAME_SIZE - 1) div FRAME_SIZE
      in if pages < MIN_EXPAND_PAGES then MIN_EXPAND_PAGES else pages)"

partial_function (option) last_from :: "store \<Rightarrow> u32 \<Rightarrow> u32 option" where
  "last_from m b = (if b_next (m b) \<noteq> 0 then last_from m (b_next (m b)) else Some b)"

definition append_block :: "u32 \<Rightarrow> heap \<Rightarrow> heap option" where
  "append_block b hp =
     (if heap_head hp = 0 then Some (hp\<lparr>heap_head := b\<rparr>)
      else case last_from (blocks hp) (heap_head hp) of None \<Rightarrow> None
        | Some l \<Rightarrow> Some (hp\<lparr>blocks := (blocks hp)(l := (blocks hp l)\<lparr>b_next := b\<rparr>)\<rparr>))"

definition expand :: "u32 \<Rightarrow> heap \<Rightarrow> (bool \<times> heap) option" where
  "expand min_bytes hp =
     (let (grown, pg) = map_frames (unat (expand_pages min_bytes)) (HEAP_BASE + heap_mapped hp) 0 (heap_pg hp);
          b = HEAP_BASE + heap_mapped hp
      in if grown = 0 then Some (False, hp\<lparr>heap_pg := pg\<rparr>)
         else case append_block b
                (hp\<lparr>heap_pg := pg, heap_mapped := heap_mapped hp + grown,
                    blocks := (blocks hp)(b := \<lparr>b_size = grown - sizeof_block, b_free = True, b_next = 0\<rparr>)\<rparr>)
              of None \<Rightarrow> None
              | Some hp1 \<Rightarrow>
                  (case coalesce hp1 of None \<Rightarrow> None | Some hp2 \<Rightarrow> Some (True, hp2)))"

definition heap_init :: "heap \<Rightarrow> heap option" where
  "heap_init hp = map_option snd (expand 1 hp)"

partial_function (option) find_fit :: "store \<Rightarrow> u32 \<Rightarrow> u32 \<Rightarrow> u32 option" where
  "find_fit m want b =
     (if b = 0 then Some 0
      else if \<not> b_free (m b) \<or> b_size (m b) < want then find_fit m want (b_next (m b))
      else Some b)"

definition take_block :: "store \<Rightarrow> u32 \<Rightarrow> u32 \<Rightarrow> store" where
  "take_block m want b =
     (let m1 =
            (if want + sizeof_block + 8 \<le> b_size (m b)
             then let rest = b + sizeof_block + want
                  in m(rest := \<lparr>b_size = b_size (m b) - want - sizeof_block, b_free = True,
                                b_next = b_next (m b)\<rparr>,
                       b := (m b)\<lparr>b_size := want, b_next := rest\<rparr>)
             else m)
      in m1(b := (m1 b)\<lparr>b_free := False\<rparr>))"

fun kmalloc_try :: "nat \<Rightarrow> u32 \<Rightarrow> heap \<Rightarrow> (u32 \<times> heap) option" where
  "kmalloc_try 0 want hp = Some (0, hp)"
| "kmalloc_try (Suc n) want hp =
     (case find_fit (blocks hp) want (heap_head hp) of None \<Rightarrow> None
      | Some b \<Rightarrow>
          (if b \<noteq> 0 then Some (b + sizeof_block, hp\<lparr>blocks := take_block (blocks hp) want b\<rparr>)
           else case expand want hp of None \<Rightarrow> None
             | Some (ok, hp') \<Rightarrow> if ok then kmalloc_try n want hp' else Some (0, hp')))"

definition kmalloc :: "u32 \<Rightarrow> heap \<Rightarrow> (u32 \<times> heap) option" where
  "kmalloc sz hp = (if sz = 0 then Some (0, hp) else kmalloc_try 2 (ALIGN8 sz) hp)"

definition kfree :: "u32 \<Rightarrow> heap \<Rightarrow> heap option" where
  "kfree ptr hp =
     (if ptr = 0 then Some hp
      else let b = ptr - sizeof_block
           in coalesce (hp\<lparr>blocks := (blocks hp)(b := (blocks hp b)\<lparr>b_free := True\<rparr>)\<rparr>))"

definition heap_mapped_bytes :: "heap \<Rightarrow> u32" where
  "heap_mapped_bytes hp = heap_mapped hp"

partial_function (option) used_from :: "store \<Rightarrow> u32 \<Rightarrow> u32 \<Rightarrow> u32 option" where
  "used_from m b used =
     (if b \<noteq> 0 then used_from m (b_next (m b)) (if b_free (m b) then used else used + b_size (m b))
      else Some used)"

definition heap_used_bytes :: "heap \<Rightarrow> u32 option" where
  "heap_used_bytes hp = used_from (blocks hp) (heap_head hp) 0"

subsection \<open>Well-formed heaps\<close>

text \<open>The next pointers from \<open>p\<close> visit exactly \<open>as\<close>; the blocks tile \<open>[s, e)\<close> without gaps.\<close>

fun chain :: "store \<Rightarrow> u32 \<Rightarrow> u32 list \<Rightarrow> bool" where
  "chain m p [] \<longleftrightarrow> p = 0"
| "chain m p (a # as) \<longleftrightarrow> p = a \<and> a \<noteq> 0 \<and> chain m (b_next (m a)) as"

fun tiled :: "store \<Rightarrow> nat \<Rightarrow> u32 list \<Rightarrow> nat \<Rightarrow> bool" where
  "tiled m s [] e \<longleftrightarrow> s = e"
| "tiled m s (a # as) e \<longleftrightarrow> unat a = s \<and> tiled m (s + 12 + unat (b_size (m a))) as e"

definition heap_inv :: "heap \<Rightarrow> u32 list \<Rightarrow> bool" where
  "heap_inv hp as \<longleftrightarrow>
     chain (blocks hp) (heap_head hp) as \<and>
     tiled (blocks hp) 0xD0000000 as (0xD0000000 + unat (heap_mapped hp)) \<and>
     0xD0000000 + unat (heap_mapped hp) < 4294967296"

definition sizes :: "store \<Rightarrow> u32 list \<Rightarrow> (nat \<times> bool) list" where
  "sizes m as = map (\<lambda>a. (unat (b_size (m a)), b_free (m a))) as"

text \<open>The live allocations: header address and payload size of every block not free.\<close>

definition live :: "store \<Rightarrow> u32 list \<Rightarrow> (u32 \<times> nat) set" where
  "live m as = {(a, unat (b_size (m a))) | a. a \<in> set as \<and> \<not> b_free (m a)}"

fun merge_free :: "(nat \<times> bool) list \<Rightarrow> (nat \<times> bool) list" where
  "merge_free ((s, f) # (t, g) # r) =
     (if f \<and> g then merge_free ((s + 12 + t, True) # r) else (s, f) # merge_free ((t, g) # r))"
| "merge_free r = r"

fun first_fit :: "nat \<Rightarrow> (nat \<times> bool) list \<Rightarrow> (nat \<times> bool) list option" where
  "first_fit want [] = None"
| "first_fit want ((s, f) # r) =
     (if f \<and> want \<le> s
      then Some (if want + 20 \<le> s then (want, False) # (s - want - 12, True) # r else (s, False) # r)
      else map_option ((#) (s, f)) (first_fit want r))"

subsection \<open>Facts about tilings\<close>

lemma tiled_bounds:
  "tiled m s as e \<Longrightarrow> s \<le> e \<and> (\<forall>a \<in> set as. s \<le> unat a \<and> unat a + 12 + unat (b_size (m a)) \<le> e)"
proof (induction as arbitrary: s)
  case (Cons a as)
  then have a: "unat a = s" and t: "tiled m (s + 12 + unat (b_size (m a))) as e" by simp_all
  show ?case using Cons.IH [OF t] a by auto
qed simp

lemma tiled_head_notin: "tiled m s (a # as) e \<Longrightarrow> a \<notin> set as"
  using tiled_bounds [of m "s + 12 + unat (b_size (m a))" as e] by auto

lemma tiled_distinct: "tiled m s as e \<Longrightarrow> distinct as"
proof (induction as arbitrary: s)
  case (Cons a as)
  then show ?case using tiled_head_notin by auto
qed simp

lemma tiled_cong: "\<forall>a \<in> set as. b_size (m' a) = b_size (m a) \<Longrightarrow> tiled m' s as e = tiled m s as e"
  by (induction as arbitrary: s) auto

lemma chain_cong: "\<forall>a \<in> set as. b_next (m' a) = b_next (m a) \<Longrightarrow> chain m' p as = chain m p as"
  by (induction as arbitrary: p) auto

lemma live_cong: "\<forall>a \<in> set as. m' a = m a \<Longrightarrow> live m' as = live m as"
  by (auto simp: live_def)

lemma live_Cons:
  "live m (a # as) = (if b_free (m a) then {} else {(a, unat (b_size (m a)))}) \<union> live m as"
  by (auto simp: live_def)

lemma live_append: "live m (as @ bs) = live m as \<union> live m bs"
  by (auto simp: live_def)

lemma tiled_append: "tiled m s (as @ bs) e \<longleftrightarrow> (\<exists>t. tiled m s as t \<and> tiled m t bs e)"
  by (induction as arbitrary: s) auto

lemma live_disjoint:
  assumes "tiled m s as e" "(a, n) \<in> live m as" "(b, k) \<in> live m as" "a \<noteq> b"
  shows "unat a + 12 + n \<le> unat b \<or> unat b + 12 + k \<le> unat a"
  using assms
proof (induction as arbitrary: s)
  case (Cons c as)
  have t: "tiled m (s + 12 + unat (b_size (m c))) as e" and c: "unat c = s"
    using Cons.prems(1) by simp_all
  show ?case
  proof (cases "a = c \<or> b = c")
    case True
    with Cons.prems c tiled_bounds [OF t] show ?thesis
      by (auto simp: live_def)
  next
    case False
    with Cons.prems have "(a, n) \<in> live m as" "(b, k) \<in> live m as"
      by (auto simp: live_Cons split: if_splits)
    with Cons.IH [OF t] Cons.prems(4) show ?thesis by blast
  qed
qed (simp add: live_def)

lemma chain_append_last:
  "chain m p (as @ [a]) \<Longrightarrow> distinct (as @ [a]) \<Longrightarrow> a' \<noteq> 0 \<Longrightarrow> chain m a' bs \<Longrightarrow> a \<notin> set bs \<Longrightarrow>
   chain (m(a := (m a)\<lparr>b_next := a'\<rparr>)) p (as @ a # bs)"
proof (induction as arbitrary: p)
  case Nil
  have "chain (m(a := (m a)\<lparr>b_next := a'\<rparr>)) a' bs"
    using Nil.prems by (subst chain_cong [where m = m]) auto
  with Nil.prems show ?case by (simp add: fun_upd_def)
qed auto

lemma last_from_chain: "chain m p (as @ [a]) \<Longrightarrow> last_from m p = Some a"
proof (induction as arbitrary: p)
  case Nil
  then show ?case by (simp add: last_from.simps [of m a])
next
  case (Cons b as)
  then have "b_next (m b) \<noteq> 0"
    by (cases as) auto
  with Cons show ?case by (simp add: last_from.simps [of m b])
qed

subsection \<open>\<open>coalesce\<close> refines \<open>merge_free\<close>\<close>

lemma sizes_Cons: "sizes m (a # as) = (unat (b_size (m a)), b_free (m a)) # sizes m as"
  by (simp add: sizes_def)

lemma sizes_cong: "\<forall>a \<in> set as. m' a = m a \<Longrightarrow> sizes m' as = sizes m as"
  by (simp add: sizes_def)

definition merged :: "store \<Rightarrow> u32 \<Rightarrow> nat \<Rightarrow> u32 list \<Rightarrow> nat \<Rightarrow> store \<Rightarrow> u32 list \<Rightarrow> bool" where
  "merged m p s as e m' as' \<longleftrightarrow>
     chain m' p as' \<and> tiled m' s as' e \<and> sizes m' as' = merge_free (sizes m as) \<and>
     set as' \<subseteq> set as \<and> live m' as' = live m as \<and> (\<forall>x. x \<notin> set as \<longrightarrow> m' x = m x)"

lemma coalesce_from_correct:
  "chain m p as \<Longrightarrow> tiled m s as e \<Longrightarrow> 0 < s \<Longrightarrow> e < 4294967296 \<Longrightarrow>
   \<exists>m' as'. coalesce_from m p = Some m' \<and> merged m p s as e m' as'"
proof (induction "length as" arbitrary: m p s as rule: less_induct)
  case less
  show ?case
  proof (cases as)
    case Nil
    with less.prems show ?thesis
      by (intro exI [of _ m] exI [of _ "[]"])
        (simp add: coalesce_from.simps [of m 0] merged_def sizes_def live_def)
  next
    case as: (Cons a r)
    with less.prems have p: "p = a" "a \<noteq> 0" by auto
    show ?thesis
    proof (cases r)
      case Nil
      with as p less.prems have "coalesce_from m p = Some m"
        by (simp add: coalesce_from.simps [of m a])
      with Nil as less.prems show ?thesis
        by (intro exI [of _ m] exI [of _ as]) (auto simp: merged_def sizes_def)
    next
      case r: (Cons c t)
      with as less.prems have c: "b_next (m a) = c" "c \<noteq> 0" "chain m (b_next (m c)) t" by auto
      have ua: "unat a = s" and tc: "tiled m (s + 12 + unat (b_size (m a))) (c # t) e"
        and uc: "unat c = s + 12 + unat (b_size (m a))"
        using as r less.prems by auto
      have tt: "tiled m (unat c + 12 + unat (b_size (m c))) t e"
        using tc uc by simp
      note bt = tiled_bounds [OF tt]
      have size2: "unat (b_size (m a) + sizeof_block + b_size (m c))
          = unat (b_size (m a)) + 12 + unat (b_size (m c))"
        using bt uc less.prems(4) by (simp add: sizeof_block_def unat_add32)
      have "unat (block_end m a) = unat c"
        using bt uc ua less.prems(4) by (simp add: block_end_def sizeof_block_def unat_add32)
      then have adj: "block_end m a = c"
        by (simp add: u32_eq_iff)
      have notin: "a \<notin> set t" "c \<notin> set t" "a \<noteq> c"
        using tiled_distinct [OF less.prems(2)] as r by auto
      show ?thesis
      proof (cases "b_free (m a) \<and> b_free (m c)")
        case True
        define m1 where "m1 = m(a := (m a)\<lparr>b_size := b_size (m a) + sizeof_block + b_size (m c),
          b_next := b_next (m c)\<rparr>)"
        have m1: "unat (b_size (m1 a)) = unat (b_size (m a)) + 12 + unat (b_size (m c))"
            "b_next (m1 a) = b_next (m c)" "b_free (m1 a)"
          using size2 True by (simp_all add: m1_def)
        have same: "\<forall>x \<in> set t. m1 x = m x" and other: "\<forall>x. x \<noteq> a \<longrightarrow> m1 x = m x"
          using notin by (auto simp: m1_def)
        have "chain m1 a (a # t)"
          using c(3) p(2) m1(2) chain_cong [of t m1 m] same by simp
        moreover have "tiled m1 s (a # t) e"
          using tt uc ua m1(1) tiled_cong [of t m1 m] same by (simp add: algebra_simps)
        ultimately obtain m' as' where r': "coalesce_from m1 a = Some m'" "merged m1 a s (a # t) e m' as'"
          using less.hyps [of "a # t" m1 a s] as r less.prems(3,4) by auto
        have "coalesce_from m p = Some m'"
          using r'(1) True adj c p by (simp add: coalesce_from.simps [of m a] m1_def)
        moreover have "merge_free (sizes m1 (a # t)) = merge_free (sizes m as)"
          using m1 True as r sizes_cong [OF same] by (simp add: sizes_Cons)
        moreover have "live m1 (a # t) = live m as"
          using True as r m1(3) live_cong [OF same] by (simp add: live_Cons)
        moreover have "\<forall>x. x \<notin> set as \<longrightarrow> m1 x = m x"
          using other as by auto
        ultimately have "merged m p s as e m' as'"
          using r'(2) as r p unfolding merged_def by auto
        with \<open>coalesce_from m p = Some m'\<close> show ?thesis by blast
      next
        case False
        have "chain m c r" "length r < length as"
          using c r as by simp_all
        then obtain m' as' where r': "coalesce_from m c = Some m'"
            "merged m c (s + 12 + unat (b_size (m a))) r e m' as'"
          using less.hyps [of r m c] tc r less.prems(3,4) by auto
        have ar: "a \<notin> set r" using notin r by auto
        then have a': "m' a = m a" "a \<notin> set as'"
          using r'(2) by (auto simp: merged_def)
        have "coalesce_from m p = Some m'"
          using r'(1) False adj c p by (auto simp: coalesce_from.simps [of m a])
        moreover have "merged m p s as e m' (a # as')"
          using r'(2) a' p c(1) ua as r False by (auto simp: merged_def sizes_Cons live_Cons)
        ultimately show ?thesis by blast
      qed
    qed
  qed
qed

subsection \<open>First fit\<close>

fun path :: "store \<Rightarrow> u32 \<Rightarrow> u32 list \<Rightarrow> u32 \<Rightarrow> bool" where
  "path m p [] q \<longleftrightarrow> p = q"
| "path m p (x # xs) q \<longleftrightarrow> p = x \<and> x \<noteq> 0 \<and> path m (b_next (m x)) xs q"

lemma chain_append: "chain m p (xs @ a # ys) \<longleftrightarrow> path m p xs a \<and> chain m a (a # ys)"
  by (induction xs arbitrary: p) auto

lemma path_cong: "\<forall>a \<in> set as. b_next (m' a) = b_next (m a) \<Longrightarrow> path m' p as q = path m p as q"
  by (induction as arbitrary: p) auto

definition fits :: "store \<Rightarrow> u32 \<Rightarrow> u32 \<Rightarrow> bool" where
  "fits m want a \<longleftrightarrow> b_free (m a) \<and> want \<le> b_size (m a)"

lemma find_fit_correct:
  "chain m p as \<Longrightarrow>
   (find_fit m want p = Some 0 \<and> (\<forall>a \<in> set as. \<not> fits m want a)) \<or>
   (\<exists>xs a ys. as = xs @ a # ys \<and> find_fit m want p = Some a \<and> a \<noteq> 0 \<and> fits m want a \<and>
      (\<forall>x \<in> set xs. \<not> fits m want x))"
proof (induction as arbitrary: p)
  case Nil
  then show ?case by (simp add: find_fit.simps [of m want 0])
next
  case (Cons a as)
  then have p: "p = a" "a \<noteq> 0" "chain m (b_next (m a)) as" by auto
  show ?case
  proof (cases "fits m want a")
    case True
    then have "b_free (m a)" "\<not> b_size (m a) < want"
      by (simp_all add: fits_def linorder_not_less)
    then have "find_fit m want p = Some a"
      using p by (subst find_fit.simps) auto
    with True p show ?thesis by (intro disjI2 exI [of _ "[]"]) auto
  next
    case False
    then have eq: "find_fit m want p = find_fit m want (b_next (m a))"
      using p by (auto simp: find_fit.simps [of m want a] fits_def linorder_not_less)
    from Cons.IH [OF p(3)] show ?thesis
    proof
      assume "find_fit m want (b_next (m a)) = Some 0 \<and> (\<forall>a \<in> set as. \<not> fits m want a)"
      with False eq show ?thesis by auto
    next
      assume "\<exists>xs b ys. as = xs @ b # ys \<and> find_fit m want (b_next (m a)) = Some b \<and> b \<noteq> 0 \<and>
        fits m want b \<and> (\<forall>x \<in> set xs. \<not> fits m want x)"
      then obtain xs b ys where "as = xs @ b # ys" "find_fit m want (b_next (m a)) = Some b" "b \<noteq> 0"
          "fits m want b" "\<forall>x \<in> set xs. \<not> fits m want x" by blast
      with False eq show ?thesis
        by (intro disjI2 exI [of _ "a # xs"] exI [of _ b] exI [of _ ys]) auto
    qed
  qed
qed

lemma first_fit_append:
  assumes "\<forall>x \<in> set xs. \<not> fits m want x" "fits m want a"
  shows "first_fit (unat want) (sizes m (xs @ a # ys)) =
    Some (sizes m xs @
      (if unat want + 20 \<le> unat (b_size (m a))
       then (unat want, False) # (unat (b_size (m a)) - unat want - 12, True) # sizes m ys
       else (unat (b_size (m a)), False) # sizes m ys))"
  using assms by (induction xs) (auto simp: sizes_def fits_def word_le_nat_alt)

text \<open>Taking the block: split or whole, the list stays a tiling and exactly one live
  allocation is new.\<close>

definition taken :: "store \<Rightarrow> u32 \<Rightarrow> nat \<Rightarrow> u32 list \<Rightarrow> nat \<Rightarrow> u32 \<Rightarrow> u32 \<Rightarrow> store \<Rightarrow> u32 list \<Rightarrow> bool" where
  "taken m p s as e want a m' as' \<longleftrightarrow>
     chain m' p as' \<and> tiled m' s as' e \<and>
     Some (sizes m' as') = first_fit (unat want) (sizes m as) \<and>
     unat want \<le> unat (b_size (m' a)) \<and>
     live m' as' = insert (a, unat (b_size (m' a))) (live m as)"

lemma take_block_correct:
  assumes "chain m p (xs @ a # ys)" "tiled m s (xs @ a # ys) e" "20 \<le> s" "e < 4294967296"
    and "fits m want a" "\<forall>x \<in> set xs. \<not> fits m want x"
  shows "\<exists>as'. taken m p s (xs @ a # ys) e want a (take_block m want a) as'"
proof -
  define m' where "m' = take_block m want a"
  let ?n = "unat (b_size (m a))"
  have a0: "a \<noteq> 0" and ch: "path m p xs a" "chain m (b_next (m a)) ys"
    using assms(1) by (simp_all add: chain_append)
  obtain t where txs: "tiled m s xs t" and ta: "unat a = t" and tys: "tiled m (t + 12 + ?n) ys e"
    using assms(2) by (auto simp: tiled_append)
  note bx = tiled_bounds [OF txs] and byy = tiled_bounds [OF tys]
  have free: "b_free (m a)" and want: "unat want \<le> ?n"
    using assms(5) by (auto simp: fits_def word_le_nat_alt)
  have sum: "unat (want + sizeof_block + 8) = unat want + 20"
    using want byy bx assms(3,4) by (simp add: sizeof_block_def unat_add32)
  have dist: "a \<notin> set xs" "a \<notin> set ys"
    using tiled_distinct [OF assms(2)] by auto
  show ?thesis
  proof (cases "unat want + 20 \<le> ?n")
    case True
    define rest where "rest = a + sizeof_block + want"
    have ur: "unat rest = unat a + 12 + unat want"
      using True byy ta assms(4) by (simp add: rest_def sizeof_block_def unat_add32)
    have us: "unat (b_size (m a) - want - sizeof_block) = ?n - unat want - 12"
      using True by (simp add: sizeof_block_def unat_sub32)
    have new: "rest \<noteq> a" "rest \<notin> set xs" "rest \<notin> set ys" "rest \<noteq> 0"
      using ur bx byy ta True by (auto simp: u32_eq_iff)
    have m': "b_size (m' a) = want" "\<not> b_free (m' a)" "b_next (m' a) = rest"
        "b_size (m' rest) = b_size (m a) - want - sizeof_block" "b_free (m' rest)"
        "b_next (m' rest) = b_next (m a)"
      using True sum new(1) by (simp_all add: m'_def take_block_def rest_def word_le_nat_alt Let_def)
    have same: "\<forall>x \<in> set xs. m' x = m x" "\<forall>x \<in> set ys. m' x = m x"
      using True sum dist new unfolding m'_def take_block_def rest_def
      by (auto simp: word_le_nat_alt Let_def)
    have "chain m' p (xs @ a # rest # ys)"
      using ch a0 new(4) m' path_cong [of xs m' m] chain_cong [of ys m' m] same
      by (simp add: chain_append)
    moreover have "tiled m' s (xs @ a # rest # ys) e"
    proof -
      have "t + 12 + unat (b_size (m' a)) + 12 + unat (b_size (m' rest)) = t + 12 + ?n"
        using True m'(1,4) us by simp
      moreover have "tiled m' s xs t" "tiled m' (t + 12 + ?n) ys e"
        using txs tys tiled_cong [of xs m' m] tiled_cong [of ys m' m] same by simp_all
      ultimately have "tiled m' (t + 12 + unat (b_size (m' a)) + 12 + unat (b_size (m' rest))) ys e"
        by metis
      with \<open>tiled m' s xs t\<close> show ?thesis
        using ta ur m'(1) unfolding tiled_append by (intro exI [of _ t]) simp
    qed
    moreover have "Some (sizes m' (xs @ a # rest # ys)) = first_fit (unat want) (sizes m (xs @ a # ys))"
      using first_fit_append [OF assms(6,5), of ys] True m' us sizes_cong [OF same(1)] sizes_cong [OF same(2)]
      by (simp add: sizes_def)
    moreover have "live m' (xs @ a # rest # ys) = insert (a, unat (b_size (m' a))) (live m (xs @ a # ys))"
      using m' free live_cong [OF same(1)] live_cong [OF same(2)] by (auto simp: live_append live_Cons)
    ultimately show ?thesis
      using m'(1) unfolding taken_def m'_def by (intro exI [of _ "xs @ a # rest # ys"]) auto
  next
    case False
    have m': "m' = m(a := (m a)\<lparr>b_free := False\<rparr>)"
      using False sum by (simp add: m'_def take_block_def word_le_nat_alt Let_def)
    have ma: "b_size (m' a) = b_size (m a)" "b_next (m' a) = b_next (m a)" "\<not> b_free (m' a)"
      by (simp_all add: m')
    have same: "\<forall>x \<in> set xs. m' x = m x" "\<forall>x \<in> set ys. m' x = m x"
      using dist by (auto simp: m')
    have "chain m' p (xs @ a # ys)"
      using ch a0 ma path_cong [of xs m' m] chain_cong [of ys m' m] same by (simp add: chain_append)
    moreover have "tiled m' s (xs @ a # ys) e"
      using txs ta tys ma tiled_cong [of xs m' m] tiled_cong [of ys m' m] same
      by (auto simp: tiled_append)
    moreover have "Some (sizes m' (xs @ a # ys)) = first_fit (unat want) (sizes m (xs @ a # ys))"
      using first_fit_append [OF assms(6,5), of ys] False ma sizes_cong [OF same(1)] sizes_cong [OF same(2)]
      by (simp add: sizes_def)
    moreover have "live m' (xs @ a # ys) = insert (a, unat (b_size (m' a))) (live m (xs @ a # ys))"
      using ma free live_cong [OF same(1)] live_cong [OF same(2)] by (auto simp: live_append live_Cons)
    ultimately show ?thesis
      using ma(1) want unfolding taken_def m'_def by (intro exI [of _ "xs @ a # ys"]) auto
  qed
qed

subsection \<open>Growing the heap\<close>

lemma map_frames_grown:
  "map_frames n base g pg = (g', pg') \<Longrightarrow> \<exists>k \<le> n. g' = g + of_nat (4096 * k)"
proof (induction n arbitrary: g pg)
  case 0
  then show ?case by simp
next
  case (Suc n)
  obtain a p' where a: "pmm_alloc_frame (pg_pmm pg) = (a, p')" by fastforce
  show ?case
  proof (cases "a = 0")
    case True
    with Suc.prems a show ?thesis by (intro exI [of _ 0]) simp
  next
    case False
    with Suc.prems a have
      "map_frames n base (g + FRAME_SIZE) (paging_map (base + g) a (pg\<lparr>pg_pmm := p'\<rparr>)) = (g', pg')"
      by simp
    from Suc.IH [OF this] obtain k where "k \<le> n" "g' = g + FRAME_SIZE + of_nat (4096 * k)" by blast
    then show ?thesis
      by (intro exI [of _ "Suc k"]) (simp add: FRAME_SIZE_def algebra_simps)
  qed
qed

text \<open>The bytes one expansion asks for, as a number.\<close>

definition growth :: "u32 \<Rightarrow> nat" where
  "growth want = 4096 * unat (expand_pages want)"

lemma growth_bound: "unat want < 4294963189 \<Longrightarrow> unat want + 12 \<le> growth want \<and> 16384 \<le> growth want \<and> growth want \<le> unat want + 16384"
proof -
  assume w: "unat want < 4294963189"
  let ?p = "(want + sizeof_block + FRAME_SIZE - 1) div FRAME_SIZE"
  have "want + sizeof_block + FRAME_SIZE - 1 = want + 4107"
    by (simp add: sizeof_block_def FRAME_SIZE_def)
  moreover have "unat (want + 4107) = unat want + 4107"
    using w unat_add32 [of want 4107] by simp
  ultimately have p: "unat ?p = (unat want + 4107) div 4096"
    by (simp only: unat_div_4096 FRAME_SIZE_def)
  have "unat (expand_pages want) = max 4 ((unat want + 4107) div 4096)"
    using p by (auto simp: expand_pages_def MIN_EXPAND_PAGES_def word_less_nat_alt Let_def max_def)
  then show ?thesis
    unfolding growth_def by (auto simp: max_def)
qed

lemma tiled_snoc: "tiled m s as t \<Longrightarrow> unat b = t \<Longrightarrow> tiled m s (as @ [b]) (t + 12 + unat (b_size (m b)))"
  by (auto simp: tiled_append)

lemma append_block_correct:
  assumes "chain (blocks hp) (heap_head hp) as" "tiled (blocks hp) s as (unat b)" "b \<noteq> 0"
    and "b_next (blocks hp b) = 0"
  shows "\<exists>m' h. append_block b hp = Some (hp\<lparr>blocks := m', heap_head := h\<rparr>) \<and> chain m' h (as @ [b]) \<and>
    (\<forall>x. b_size (m' x) = b_size (blocks hp x) \<and> b_free (m' x) = b_free (blocks hp x))"
proof (cases as rule: rev_cases)
  case Nil
  with assms show ?thesis
    by (intro exI [of _ "blocks hp"] exI [of _ b]) (simp add: append_block_def)
next
  case (snoc r l)
  let ?m = "blocks hp"
  have nz: "heap_head hp \<noteq> 0"
    using assms(1) snoc by (cases r) auto
  have "b \<notin> set as"
    using tiled_bounds [OF assms(2)] by auto
  moreover have "distinct as"
    by (rule tiled_distinct [OF assms(2)])
  ultimately have "chain (?m(l := (?m l)\<lparr>b_next := b\<rparr>)) (heap_head hp) (r @ l # [b])"
    using assms snoc by (intro chain_append_last) auto
  moreover have "last_from ?m (heap_head hp) = Some l"
    using last_from_chain assms(1) snoc by blast
  ultimately show ?thesis
    using nz snoc
    by (intro exI [of _ "?m(l := (?m l)\<lparr>b_next := b\<rparr>)"] exI [of _ "heap_head hp"])
      (simp add: append_block_def)
qed

lemma tiled_fresh_block:
  assumes "tiled m s as t" "unat b = t" "x \<in> set as" shows "x \<noteq> b"
  using tiled_bounds [OF assms(1)] assms(2,3) by auto

definition grown_to :: "heap \<Rightarrow> u32 list \<Rightarrow> nat \<Rightarrow> heap \<Rightarrow> u32 list \<Rightarrow> bool" where
  "grown_to hp as g hp' as' \<longleftrightarrow>
     heap_inv hp' as' \<and> unat (heap_mapped hp') = unat (heap_mapped hp) + g \<and>
     live (blocks hp') as' = live (blocks hp) as \<and>
     sizes (blocks hp') as' = merge_free (sizes (blocks hp) as @ [(g - 12, True)])"

lemma expand_block:
  assumes inv: "heap_inv hp as" and g: "unat grown = g" "12 \<le> g"
    and room: "0xD0000000 + unat (heap_mapped hp) + g < 4294967296"
    and b: "b = HEAP_BASE + heap_mapped hp"
  shows "\<exists>hp1 hp2 as'. append_block b
      (hp\<lparr>heap_pg := pg, heap_mapped := heap_mapped hp + grown,
          blocks := (blocks hp)(b := \<lparr>b_size = grown - sizeof_block, b_free = True, b_next = 0\<rparr>)\<rparr>) = Some hp1 \<and>
    coalesce hp1 = Some hp2 \<and> heap_pg hp2 = pg \<and> grown_to hp as g hp2 as'"
proof -
  define m1 where "m1 = (blocks hp)(b := \<lparr>b_size = grown - sizeof_block, b_free = True, b_next = 0\<rparr>)"
  define hp0 where "hp0 = hp\<lparr>heap_pg := pg, heap_mapped := heap_mapped hp + grown, blocks := m1\<rparr>"
  have ub: "unat b = 0xD0000000 + unat (heap_mapped hp)"
    using room b by (simp add: HEAP_BASE_def unat_add32)
  have um: "unat (heap_mapped hp + grown) = unat (heap_mapped hp) + g"
    using room g by (simp add: unat_add32)
  have ug: "unat (grown - sizeof_block) = g - 12"
    using g by (simp add: sizeof_block_def unat_sub32)
  have inv': "chain (blocks hp) (heap_head hp) as" "tiled (blocks hp) 0xD0000000 as (unat b)"
    using inv ub by (simp_all add: heap_inv_def)
  have m1: "m1 b = \<lparr>b_size = grown - sizeof_block, b_free = True, b_next = 0\<rparr>" "\<forall>x \<in> set as. m1 x = blocks hp x"
    using tiled_fresh_block [OF inv'(2)] by (auto simp: m1_def)
  have "chain (blocks hp0) (heap_head hp0) as" "tiled (blocks hp0) 0xD0000000 as (unat b)"
    using inv' m1(2) chain_cong [of as m1 "blocks hp"] tiled_cong [of as m1 "blocks hp"]
    by (simp_all add: hp0_def)
  moreover have "b \<noteq> 0" "b_next (blocks hp0 b) = 0"
    using ub m1 by (auto simp: hp0_def)
  ultimately obtain m2 h where ap: "append_block b hp0 = Some (hp0\<lparr>blocks := m2, heap_head := h\<rparr>)"
      and ch2: "chain m2 h (as @ [b])"
      and sh: "\<forall>x. b_size (m2 x) = b_size (m1 x) \<and> b_free (m2 x) = b_free (m1 x)"
    using append_block_correct [of hp0 as "0xD0000000" b] by (auto simp: hp0_def)
  have "tiled m2 0xD0000000 as (unat b)"
    using inv'(2) tiled_cong [of as m2 "blocks hp"] sh m1(2) by simp
  from tiled_snoc [OF this refl]
  have t2: "tiled m2 0xD0000000 (as @ [b]) (unat b + g)"
    using sh m1(1) ug g(2) by (simp add: add.assoc)
  have "unat b + g < 4294967296"
    using room ub by simp
  with coalesce_from_correct [OF ch2 t2] obtain m3 as' where
      c: "coalesce_from m2 h = Some m3" "merged m2 h 0xD0000000 (as @ [b]) (unat b + g) m3 as'"
    by auto
  define hp3 where "hp3 = hp0\<lparr>heap_head := h, blocks := m3\<rparr>"
  have "sizes m2 (as @ [b]) = sizes (blocks hp) as @ [(g - 12, True)]"
    using sh m1 ug by (simp add: sizes_def)
  moreover have "live m2 (as @ [b]) = live (blocks hp) as"
    using sh m1 by (auto simp: live_def)
  ultimately have "grown_to hp as g hp3 as'"
    using c(2) ub um room
    by (simp add: grown_to_def heap_inv_def merged_def hp3_def hp0_def add.assoc)
  moreover have "coalesce (hp0\<lparr>blocks := m2, heap_head := h\<rparr>) = Some hp3" "heap_pg hp3 = pg"
    using c(1) by (simp_all add: coalesce_def hp3_def hp0_def)
  ultimately show ?thesis
    using ap unfolding hp0_def m1_def by blast
qed

lemma expand_correct:
  assumes inv: "heap_inv hp as" and room: "0xD0000000 + unat (heap_mapped hp) + growth want < 4294967296"
  shows "\<exists>ok hp'. expand want hp = Some (ok, hp') \<and>
    (if ok then \<exists>g as'. 4096 \<le> g \<and> g \<le> growth want \<and> grown_to hp as g hp' as'
     else \<exists>pg. hp' = hp\<lparr>heap_pg := pg\<rparr>)"
proof -
  let ?n = "unat (expand_pages want)"
  obtain grown pg where mf: "map_frames ?n (HEAP_BASE + heap_mapped hp) 0 (heap_pg hp) = (grown, pg)"
    by (rule prod.exhaust)
  from map_frames_grown [OF mf] obtain k where k: "k \<le> ?n" "grown = of_nat (4096 * k)"
    by auto
  have ug: "unat grown = 4096 * k"
    using room k unat_of_nat32 [of "4096 * k"] by (simp add: growth_def)
  show ?thesis
  proof (cases "grown = 0")
    case True
    with mf show ?thesis
      by (intro exI [of _ False] exI [of _ "hp\<lparr>heap_pg := pg\<rparr>"]) (auto simp: expand_def)
  next
    case False
    with ug have g: "4096 \<le> 4096 * k" "4096 * k \<le> growth want"
      using k(1) by (auto simp: growth_def u32_eq_iff)
    then have "12 \<le> 4096 * k" "0xD0000000 + unat (heap_mapped hp) + 4096 * k < 4294967296"
      using room by linarith+
    from expand_block [OF inv ug this refl, of pg] obtain hp1 hp2 as' where
      e: "append_block (HEAP_BASE + heap_mapped hp)
        (hp\<lparr>heap_pg := pg, heap_mapped := heap_mapped hp + grown,
            blocks := (blocks hp)(HEAP_BASE + heap_mapped hp :=
              \<lparr>b_size = grown - sizeof_block, b_free = True, b_next = 0\<rparr>)\<rparr>) = Some hp1"
        "coalesce hp1 = Some hp2" "grown_to hp as (4096 * k) hp2 as'" by blast
    then have "expand want hp = Some (True, hp2)"
      using mf False by (simp add: expand_def Let_def)
    with e(3) g show ?thesis
      by (intro exI [of _ True] exI [of _ hp2])
        (auto intro: exI [of "\<lambda>g. 4096 \<le> g \<and> g \<le> growth want \<and> Ex (grown_to hp as g hp2)" "4096 * k"])
  qed
qed

subsection \<open>\<open>kmalloc\<close>\<close>

lemma heap_inv_pg [simp]: "heap_inv (hp\<lparr>heap_pg := pg\<rparr>) as = heap_inv hp as"
  by (simp add: heap_inv_def)

lemma unat_ALIGN8:
  assumes "unat n < 4294967289"
  shows "unat (ALIGN8 n) = (unat n + 7) div 8 * 8"
proof -
  have "NOT 7 = NOT (mask 3 :: u32)" by (simp add: low_masks mask_eq_exp_minus_1)
  moreover have "unat (n + 7) = unat n + 7"
    using assms unat_add32 [of n 7] by simp
  ultimately show ?thesis
    unfolding ALIGN8_def by (simp only: unat_and_not_mask) simp
qed

text \<open>What a successful request gives: one new live allocation.\<close>

definition obtained :: "heap \<Rightarrow> u32 list \<Rightarrow> nat \<Rightarrow> u32 \<Rightarrow> heap \<Rightarrow> u32 list \<Rightarrow> bool" where
  "obtained hp as want p hp' as' \<longleftrightarrow>
     heap_inv hp' as' \<and>
     (if p = 0 then live (blocks hp') as' = live (blocks hp) as
      else (\<forall>k. (p - 12, k) \<notin> live (blocks hp) as) \<and>
           (\<exists>n \<ge> want. live (blocks hp') as' = insert (p - 12, n) (live (blocks hp) as)))"

lemma take_block_obtained:
  assumes inv: "heap_inv hp as" and ff: "find_fit (blocks hp) want (heap_head hp) = Some b" "b \<noteq> 0"
  shows "\<exists>as'. obtained hp as (unat want) (b + 12) (hp\<lparr>blocks := take_block (blocks hp) want b\<rparr>) as' \<and>
    Some (sizes (take_block (blocks hp) want b) as') = first_fit (unat want) (sizes (blocks hp) as)"
proof -
  let ?e = "0xD0000000 + unat (heap_mapped hp)"
  have i: "chain (blocks hp) (heap_head hp) as" "tiled (blocks hp) 0xD0000000 as ?e" "?e < 4294967296"
    using inv by (simp_all add: heap_inv_def)
  obtain xs ys where as: "as = xs @ b # ys" "fits (blocks hp) want b" "\<forall>x \<in> set xs. \<not> fits (blocks hp) want x"
    using find_fit_correct [OF i(1), of want] ff by auto
  obtain as' where t: "taken (blocks hp) (heap_head hp) 0xD0000000 as ?e want b
      (take_block (blocks hp) want b) as'"
    using take_block_correct [of "blocks hp" "heap_head hp" xs b ys "0xD0000000" ?e want] i as by auto
  let ?m = "take_block (blocks hp) want b"
  have "(b, k) \<notin> live (blocks hp) as" for k
    using as(2) by (simp add: live_def fits_def)
  have "unat b + 12 \<le> ?e"
    using tiled_bounds [OF i(2)] as(1) by auto
  then have "b + 12 \<noteq> 0"
    using i(3) unat_add32 [of b 12] by (auto simp: u32_eq_iff)
  with t \<open>\<And>k. (b, k) \<notin> live (blocks hp) as\<close> i(3) show ?thesis
    by (intro exI [of _ as']) (auto simp: obtained_def taken_def heap_inv_def)
qed

lemma kmalloc_try_correct:
  "heap_inv hp as \<Longrightarrow> 0xD0000000 + unat (heap_mapped hp) + n * growth want < 4294967296 \<Longrightarrow>
   \<exists>p hp' as'. kmalloc_try n want hp = Some (p, hp') \<and> obtained hp as (unat want) p hp' as'"
proof (induction n arbitrary: hp as)
  case 0
  then show ?case by (intro exI [of _ 0]) (auto simp: obtained_def)
next
  case (Suc n)
  have "chain (blocks hp) (heap_head hp) as"
    using Suc.prems(1) by (simp add: heap_inv_def)
  with find_fit_correct [OF this, of want]
  obtain b where b: "find_fit (blocks hp) want (heap_head hp) = Some b" by blast
  show ?case
  proof (cases "b = 0")
    case False
    with take_block_obtained [OF Suc.prems(1) b] b show ?thesis
      by (auto simp: sizeof_block_def)
  next
    case True
    obtain ok hp1 where e: "expand want hp = Some (ok, hp1)"
        "if ok then \<exists>g as'. 4096 \<le> g \<and> g \<le> growth want \<and> grown_to hp as g hp1 as'
         else \<exists>pg. hp1 = hp\<lparr>heap_pg := pg\<rparr>"
      using expand_correct [OF Suc.prems(1), of want] Suc.prems(2) by auto
    show ?thesis
    proof (cases ok)
      case False
      with e b True Suc.prems(1) show ?thesis
        by (intro exI [of _ 0] exI [of _ hp1] exI [of _ as]) (auto simp: obtained_def)
    next
      case ok: True
      then obtain g as1 where g: "g \<le> growth want" "grown_to hp as g hp1 as1"
        using e(2) by auto
      then have "heap_inv hp1 as1" "0xD0000000 + unat (heap_mapped hp1) + n * growth want < 4294967296"
        using Suc.prems(2) by (auto simp: grown_to_def)
      from Suc.IH [OF this] obtain p hp2 as2 where
        r: "kmalloc_try n want hp1 = Some (p, hp2)" "obtained hp1 as1 (unat want) p hp2 as2" by blast
      moreover have "obtained hp as (unat want) p hp2 as2"
        using r(2) g(2) by (auto simp: obtained_def grown_to_def)
      ultimately show ?thesis
        using e(1) ok b True by auto
    qed
  qed
qed

lemma kmalloc_returns:
  assumes "heap_inv hp as" "sz \<noteq> 0"
    and "0xD0000000 + unat (heap_mapped hp) + 2 * (unat sz + 16400) < 4294967296"
  shows "\<exists>p hp' as'. kmalloc sz hp = Some (p, hp') \<and> obtained hp as (unat (ALIGN8 sz)) p hp' as' \<and>
    unat sz \<le> unat (ALIGN8 sz)"
proof -
  have al: "unat (ALIGN8 sz) = (unat sz + 7) div 8 * 8"
    using assms(3) by (intro unat_ALIGN8) simp
  then have "unat (ALIGN8 sz) \<le> unat sz + 7" "unat sz \<le> unat (ALIGN8 sz)" by simp_all
  moreover from this have "unat (ALIGN8 sz) < 4294963189"
    using assms(3) by simp
  from growth_bound [OF this] \<open>unat (ALIGN8 sz) \<le> unat sz + 7\<close>
  have "growth (ALIGN8 sz) \<le> unat sz + 16400" by linarith
  ultimately have "0xD0000000 + unat (heap_mapped hp) + 2 * growth (ALIGN8 sz) < 4294967296"
    using assms(3) by simp
  from kmalloc_try_correct [OF assms(1) this] assms(2) \<open>unat sz \<le> unat (ALIGN8 sz)\<close>
  show ?thesis by (simp add: kmalloc_def)
qed

definition apart :: "u32 \<Rightarrow> nat \<Rightarrow> u32 \<times> nat \<Rightarrow> bool" where
  "apart a n r \<longleftrightarrow> unat a + 12 + n \<le> unat (fst r) \<or> unat (fst r) + 12 + snd r \<le> unat a"

lemma obtained_apart:
  assumes "obtained hp as want p hp' as'" "p \<noteq> 0"
    and "live (blocks hp') as' = insert (p - 12, n) (live (blocks hp) as)" "r \<in> live (blocks hp) as"
  shows "apart (p - 12) n r"
proof -
  have t: "tiled (blocks hp') 0xD0000000 as' (0xD0000000 + unat (heap_mapped hp'))"
    using assms(1) by (simp add: obtained_def heap_inv_def)
  moreover have "(p - 12, n) \<in> live (blocks hp') as'" "(fst r, snd r) \<in> live (blocks hp') as'"
    using assms(3,4) by simp_all
  moreover have "p - 12 \<noteq> fst r"
    using assms(1,2,4) by (metis obtained_def prod.collapse)
  ultimately show ?thesis
    using live_disjoint [OF t] by (auto simp: apart_def)
qed

lemma kmalloc_returns_apart:
  assumes "heap_inv hp as" "sz \<noteq> 0"
    and "0xD0000000 + unat (heap_mapped hp) + 2 * (unat sz + 16400) < 4294967296"
  shows "\<exists>p hp' as'. kmalloc sz hp = Some (p, hp') \<and> heap_inv hp' as' \<and>
    (p = 0 \<and> live (blocks hp') as' = live (blocks hp) as \<or>
     p \<noteq> 0 \<and> (\<exists>n \<ge> unat sz. live (blocks hp') as' = insert (p - 12, n) (live (blocks hp) as) \<and>
       (\<forall>r \<in> live (blocks hp) as. apart (p - 12) n r)))"
proof -
  obtain p hp' as' where r: "kmalloc sz hp = Some (p, hp')" "obtained hp as (unat (ALIGN8 sz)) p hp' as'"
      "unat sz \<le> unat (ALIGN8 sz)"
    using kmalloc_returns [OF assms] by blast
  show ?thesis
  proof (cases "p = 0")
    case True
    with r show ?thesis by (auto simp: obtained_def)
  next
    case False
    then obtain n where n: "unat (ALIGN8 sz) \<le> n"
        "live (blocks hp') as' = insert (p - 12, n) (live (blocks hp) as)"
      using r(2) by (auto simp: obtained_def)
    then have "\<forall>x \<in> live (blocks hp) as. apart (p - 12) n x"
      using obtained_apart [OF r(2) False n(2)] by blast
    with r n False show ?thesis
      by (intro exI [of _ p] exI [of _ hp'] exI [of _ as'])
        (auto simp: obtained_def intro!: exI [of _ n] intro: order_trans)
  qed
qed


subsection \<open>Success when memory suffices\<close>

lemma alloc_roomy:
  assumes "paging_inv pg" "roomy (Suc r) pg" "pmm_alloc_frame (pg_pmm pg) = (a, p')"
  shows "a \<noteq> 0 \<and> paging_inv (pg\<lparr>pg_pmm := p'\<rparr>) \<and> roomy r (pg\<lparr>pg_pmm := p'\<rparr>) \<and>
    translate (pg\<lparr>pg_pmm := p'\<rparr>) w = translate pg w"
proof -
  have inv: "pmm_inv (pg_pmm pg)" and tabs: "tables_ok pg"
    using assms(1) by (simp_all add: paging_inv_def)
  have ne: "avail_frames (pg_pmm pg) \<noteq> {}"
    using assms(2) by (auto simp: roomy_def)
  note some = pmm_source.alloc_some [OF inv ne assms(3)]
  obtain f where f: "f \<in> free_set (bitmap (pg_pmm pg))"
      "free_set (bitmap p') = free_set (bitmap (pg_pmm pg)) - {f}" "pmm_inv p'"
    using new_table_addr [OF inv ne assms(3)] by blast
  have "card (avail_frames p') = card (avail_frames (pg_pmm pg)) - 1"
    using some by (simp add: card_Diff_singleton)
  then have "roomy r (pg\<lparr>pg_pmm := p'\<rparr>)"
    using assms(2) by (simp add: roomy_def present_def)
  moreover have "tables_ok (pg\<lparr>pg_pmm := p'\<rparr>)"
    using tabs unfolding tables_ok_def present_def table_of_def by (simp add: f(2)) blast
  moreover have "a \<noteq> 0"
    using some pmm_source.avail_nonzero [OF inv] by metis
  ultimately show ?thesis
    using f(3) by (simp add: paging_inv_def translate_def Let_def)
qed

lemma page_of_base:
  assumes "x mod 4096 = 0"
  shows "y div 4096 = x div 4096 \<longleftrightarrow> x \<le> y \<and> y < x + (4096 :: nat)"
proof -
  from assms obtain k where "x = 4096 * k" by auto
  then show ?thesis by auto
qed

lemma map_frames_full:
  "paging_inv pg \<Longrightarrow> roomy n pg \<Longrightarrow> unat base mod 4096 = 0 \<Longrightarrow> unat g mod 4096 = 0 \<Longrightarrow>
   unat base + unat g + 4096 * n < 4294967296 \<Longrightarrow>
   \<exists>pg'. map_frames n base g pg = (g + of_nat (4096 * n), pg') \<and> paging_inv pg' \<and> roomy 0 pg' \<and>
     (\<forall>w. translate pg' w \<noteq> None \<longleftrightarrow>
        translate pg w \<noteq> None \<or>
        unat base + unat g \<le> unat w \<and> unat w < unat base + unat g + 4096 * n)"
proof (induction n arbitrary: g pg)
  case 0
  then show ?case by auto
next
  case (Suc n)
  obtain a p' where a: "pmm_alloc_frame (pg_pmm pg) = (a, p')" by fastforce
  let ?pg1 = "pg\<lparr>pg_pmm := p'\<rparr>"
  let ?pg2 = "paging_map (base + g) a ?pg1"
  note al = alloc_roomy [OF Suc.prems(1,2) a]
  have "paging_inv ?pg1" "roomy n ?pg1" using al by blast+
  note pm = paging_map_total [OF this, of "base + g" a]
  have ub: "unat (base + g) = unat base + unat g" and ug: "unat (g + FRAME_SIZE) = unat g + 4096"
    using Suc.prems(5) by (simp_all add: unat_add32 FRAME_SIZE_def)
  have al0: "(unat base + unat g) mod 4096 = 0"
    using Suc.prems(3,4) by (simp add: mod_0_imp_dvd)
  have pg: "unat w div 4096 = unat (base + g) div 4096 \<longleftrightarrow>
      unat base + unat g \<le> unat w \<and> unat w < unat base + unat g + 4096" for w :: u32
    unfolding ub by (rule page_of_base [OF al0])
  have "paging_inv ?pg2" "roomy n ?pg2" "unat (g + FRAME_SIZE) mod 4096 = 0"
      "unat base + unat (g + FRAME_SIZE) + 4096 * n < 4294967296"
    using pm Suc.prems(4,5) ug by simp_all
  from Suc.IH [OF this(1,2) Suc.prems(3) this(3,4)]
  obtain pg' where r: "map_frames n base (g + FRAME_SIZE) ?pg2 = (g + FRAME_SIZE + of_nat (4096 * n), pg')"
      "paging_inv pg'" "roomy 0 pg'"
      "\<And>w. translate pg' w \<noteq> None \<longleftrightarrow> translate ?pg2 w \<noteq> None \<or>
        unat base + unat (g + FRAME_SIZE) \<le> unat w \<and>
        unat w < unat base + unat (g + FRAME_SIZE) + 4096 * n" by blast
  have "map_frames (Suc n) base g pg = (g + of_nat (4096 * Suc n), pg')"
    using a al r(1) by (simp add: FRAME_SIZE_def algebra_simps)
  moreover have "translate pg' w \<noteq> None \<longleftrightarrow> translate pg w \<noteq> None \<or>
      unat base + unat g \<le> unat w \<and> unat w < unat base + unat g + 4096 * Suc n" for w
  proof -
    have "translate ?pg2 w \<noteq> None \<longleftrightarrow> translate pg w \<noteq> None \<or>
        unat base + unat g \<le> unat w \<and> unat w < unat base + unat g + 4096"
      using pm [of w] al [of w] pg [of w] by (cases "unat w div 4096 = unat (base + g) div 4096") auto
    then show ?thesis
      unfolding r(4) [of w] ug by auto
  qed
  ultimately show ?case using r(2,3) by blast
qed

definition heap_backed :: "heap \<Rightarrow> bool" where
  "heap_backed hp \<longleftrightarrow>
     paging_inv (heap_pg hp) \<and> unat (heap_mapped hp) mod 4096 = 0 \<and>
     (\<forall>w. 0xD0000000 \<le> unat w \<and> unat w < 0xD0000000 + unat (heap_mapped hp) \<longrightarrow>
        translate (heap_pg hp) w \<noteq> None)"

lemma expand_full:
  assumes inv: "heap_inv hp as" and backed: "heap_backed hp"
    and roomy: "roomy (unat (expand_pages want)) (heap_pg hp)"
    and room: "0xD0000000 + unat (heap_mapped hp) + growth want < 4294967296"
    and want: "unat want < 4294963189"
  shows "\<exists>hp' as'. expand want hp = Some (True, hp') \<and> grown_to hp as (growth want) hp' as' \<and> heap_backed hp'"
proof -
  let ?n = "unat (expand_pages want)" and ?b = "HEAP_BASE + heap_mapped hp"
  have ub: "unat ?b = 0xD0000000 + unat (heap_mapped hp)"
    using room by (simp add: HEAP_BASE_def unat_add32)
  have al: "unat ?b mod 4096 = 0"
    using backed unfolding ub heap_backed_def by (auto simp: mod_0_imp_dvd)
  have "unat ?b + unat (0 :: u32) + 4096 * ?n < 4294967296"
    using room unfolding ub growth_def by simp
  from map_frames_full [OF _ roomy al _ this] backed
  obtain pg' where mf: "map_frames ?n ?b 0 (heap_pg hp) = (of_nat (4096 * ?n), pg')" "paging_inv pg'"
      "\<And>w. translate pg' w \<noteq> None \<longleftrightarrow> translate (heap_pg hp) w \<noteq> None \<or>
        unat ?b \<le> unat w \<and> unat w < unat ?b + 4096 * ?n"
    by (auto simp: heap_backed_def)
  let ?g = "of_nat (4096 * ?n) :: u32"
  have ug: "unat ?g = growth want"
    unfolding growth_def using room by (intro unat_of_nat32) (simp add: growth_def)
  have c: "16384 \<le> growth want"
    using growth_bound [OF want] by simp
  then have "12 \<le> growth want" "?g \<noteq> 0"
    using ug by (auto simp: u32_eq_iff)
  from expand_block [OF inv ug this(1) room refl, of pg'] obtain hp1 hp2 as' where
    e: "append_block ?b
        (hp\<lparr>heap_pg := pg', heap_mapped := heap_mapped hp + ?g,
            blocks := (blocks hp)(?b := \<lparr>b_size = ?g - sizeof_block, b_free = True, b_next = 0\<rparr>)\<rparr>) = Some hp1"
        "coalesce hp1 = Some hp2" "heap_pg hp2 = pg'" "grown_to hp as (growth want) hp2 as'" by blast
  then have ex: "expand want hp = Some (True, hp2)"
    using mf(1) \<open>?g \<noteq> 0\<close> by (simp add: expand_def Let_def)
  have um: "unat (heap_mapped hp2) = unat (heap_mapped hp) + growth want"
    using e(4) by (simp add: grown_to_def)
  have "translate pg' w \<noteq> None"
    if "0xD0000000 \<le> unat w" "unat w < 0xD0000000 + unat (heap_mapped hp2)" for w
    using that backed unfolding mf(3) ub um heap_backed_def growth_def by auto
  moreover have "unat (heap_mapped hp2) mod 4096 = 0"
    using backed unfolding um heap_backed_def growth_def by (auto simp: mod_0_imp_dvd)
  ultimately have "heap_backed hp2"
    using mf(2) e(3) by (simp add: heap_backed_def)
  with ex e(4) show ?thesis by blast
qed

lemma merge_free_keeps:
  "(s, True) \<in> set l \<Longrightarrow> \<exists>s' \<ge> s. (s', True) \<in> set (merge_free l)"
proof (induction l arbitrary: s rule: merge_free.induct)
  case (1 t f u g r)
  show ?case
  proof (cases "f \<and> g")
    case True
    from "1.prems" consider "s = t \<or> s = u" | "(s, True) \<in> set r" by auto
    then show ?thesis
    proof cases
      case 1
      have "(t + 12 + u, True) \<in> set ((t + 12 + u, True) # r)" by simp
      from "1.IH"(1) [OF True this] obtain s' where
        "t + 12 + u \<le> s'" "(s', True) \<in> set (merge_free ((t + 12 + u, True) # r))" by blast
      with 1 True show ?thesis by (intro exI [of _ s']) auto
    next
      case 2
      with "1.IH"(1) [OF True] True show ?thesis by auto
    qed
  next
    case False
    show ?thesis
    proof (cases "(s, True) = (t, f)")
      case True
      with False show ?thesis by auto
    next
      case neq: False
      with "1.prems" have "(s, True) \<in> set ((u, g) # r)" by auto
      with "1.IH"(2) [OF False] False show ?thesis by auto
    qed
  qed
qed auto

lemma first_fit_some: "(s, True) \<in> set l \<Longrightarrow> want \<le> s \<Longrightarrow> first_fit want l \<noteq> None"
  by (induction want l rule: first_fit.induct) auto

lemma first_fit_found:
  assumes "heap_inv hp as" "first_fit (unat want) (sizes (blocks hp) as) \<noteq> None"
  shows "\<exists>b. find_fit (blocks hp) want (heap_head hp) = Some b \<and> b \<noteq> 0"
proof -
  have ch: "chain (blocks hp) (heap_head hp) as"
    using assms(1) by (simp add: heap_inv_def)
  have "\<exists>a \<in> set as. fits (blocks hp) want a"
    using assms(2) by (induction as) (auto simp: sizes_def fits_def word_le_nat_alt split: if_splits)
  with find_fit_correct [OF ch, of want] show ?thesis by auto
qed

lemma kmalloc_fits:
  assumes "heap_inv hp as" "sz \<noteq> 0" "first_fit (unat (ALIGN8 sz)) (sizes (blocks hp) as) = Some l"
  shows "\<exists>p hp' as'. kmalloc sz hp = Some (p, hp') \<and> p \<noteq> 0 \<and> heap_inv hp' as' \<and>
    sizes (blocks hp') as' = l \<and> heap_mapped hp' = heap_mapped hp \<and> heap_pg hp' = heap_pg hp"
proof -
  obtain b where b: "find_fit (blocks hp) (ALIGN8 sz) (heap_head hp) = Some b" "b \<noteq> 0"
    using first_fit_found [OF assms(1), of "ALIGN8 sz"] assms(3) by auto
  let ?hp = "hp\<lparr>blocks := take_block (blocks hp) (ALIGN8 sz) b\<rparr>"
  obtain as' where o: "obtained hp as (unat (ALIGN8 sz)) (b + 12) ?hp as'"
      "sizes (take_block (blocks hp) (ALIGN8 sz) b) as' = l"
    using take_block_obtained [OF assms(1) b] assms(3) by auto
  have "b \<in> set as"
    using find_fit_correct [of "blocks hp" "heap_head hp" as "ALIGN8 sz"] b assms(1)
    by (auto simp: heap_inv_def)
  then have "unat b + 12 < 4294967296" "0 < unat b + 12"
    using assms(1) tiled_bounds unfolding heap_inv_def by fastforce+
  then have "b + 12 \<noteq> 0"
    using unat_add32 [of b 12] by (auto simp: u32_eq_iff)
  with o b assms(2) show ?thesis
    by (intro exI [of _ "b + 12"] exI [of _ ?hp] exI [of _ as'])
      (simp add: kmalloc_def numeral_2_eq_2 sizeof_block_def obtained_def)
qed

text \<open>The allocator is first fit: when some free block is large enough, \<open>kmalloc\<close>
  transforms the list of block sizes exactly as \<open>first_fit\<close> does, splitting the block when
  a header and 8 bytes remain, and does not grow the heap.\<close>

theorem kmalloc_first_fit:
  assumes "heap_inv hp as" "sz \<noteq> 0" "first_fit (unat (ALIGN8 sz)) (sizes (blocks hp) as) = Some l"
  shows "\<exists>p hp' as'. kmalloc sz hp = Some (p, hp') \<and> p \<noteq> 0 \<and> heap_inv hp' as' \<and>
    sizes (blocks hp') as' = l \<and> heap_mapped hp' = heap_mapped hp \<and> heap_pg hp' = heap_pg hp"
  by (rule kmalloc_fits [OF assms])

text \<open>C29: with a frame for every page asked for and for every page table still absent, a
  request is granted, and every byte of the heap, the new payload included, is backed by a
  present page.\<close>

theorem kmalloc_succeeds:
  assumes "heap_inv hp as" "heap_backed hp" "sz \<noteq> 0"
    and "roomy (unat (expand_pages (ALIGN8 sz))) (heap_pg hp)"
    and "0xD0000000 + unat (heap_mapped hp) + 2 * (unat sz + 16400) < 4294967296"
  shows "\<exists>p hp' as' n. kmalloc sz hp = Some (p, hp') \<and> p \<noteq> 0 \<and> heap_inv hp' as' \<and> heap_backed hp' \<and>
    (p - 12, n) \<in> live (blocks hp') as' \<and> unat sz \<le> n"
proof -
  let ?want = "ALIGN8 sz"
  have al: "unat ?want = (unat sz + 7) div 8 * 8"
    using assms(5) by (intro unat_ALIGN8) simp
  have want: "unat ?want < 4294963189"
    using al assms(5) by simp
  note c = growth_bound [OF want]
  have room: "0xD0000000 + unat (heap_mapped hp) + growth ?want < 4294967296"
  proof -
    have "growth ?want \<le> unat sz + 16391" using c unfolding al by linarith
    with assms(5) show ?thesis by simp
  qed
  have one: "\<exists>p h' as' n. kmalloc_try (Suc k) ?want h = Some (p, h') \<and> p \<noteq> 0 \<and> heap_inv h' as' \<and>
      heap_backed h' \<and> (p - 12, n) \<in> live (blocks h') as' \<and> unat sz \<le> n"
    if h: "heap_inv h xs" "heap_backed h" "first_fit (unat ?want) (sizes (blocks h) xs) \<noteq> None" for k h xs
  proof -
    obtain b where b: "find_fit (blocks h) ?want (heap_head h) = Some b" "b \<noteq> 0"
      using first_fit_found [OF h(1,3)] by blast
    let ?h = "h\<lparr>blocks := take_block (blocks h) ?want b\<rparr>"
    obtain as' where o: "obtained h xs (unat ?want) (b + 12) ?h as'"
      using take_block_obtained [OF h(1) b] by blast
    have "b \<in> set xs"
      using find_fit_correct [of "blocks h" "heap_head h" xs ?want] b h(1) by (auto simp: heap_inv_def)
    then have "unat b + 12 < 4294967296" "0 < unat b + 12"
      using h(1) tiled_bounds unfolding heap_inv_def by fastforce+
    then have nz: "b + 12 \<noteq> 0"
      using unat_add32 [of b 12] by (auto simp: u32_eq_iff)
    then obtain n where "unat ?want \<le> n" "(b, n) \<in> live (blocks ?h) as'"
      using o by (auto simp: obtained_def)
    moreover have "heap_backed ?h"
      using h(2) by (simp add: heap_backed_def)
    ultimately show ?thesis
      using o b nz al
      by (intro exI [of _ "b + 12"] exI [of _ ?h] exI [of _ as'] exI [of _ n])
        (simp add: sizeof_block_def obtained_def)
  qed
  show ?thesis
  proof (cases "first_fit (unat ?want) (sizes (blocks hp) as) = None")
    case False
    with one [OF assms(1,2), of 1] assms(3) show ?thesis
      by (simp add: kmalloc_def numeral_2_eq_2)
  next
    case True
    have "chain (blocks hp) (heap_head hp) as"
      using assms(1) by (simp add: heap_inv_def)
    from find_fit_correct [OF this, of ?want] True
    have none: "find_fit (blocks hp) ?want (heap_head hp) = Some 0"
      using first_fit_append by fastforce
    obtain hp1 as1 where e: "expand ?want hp = Some (True, hp1)" "grown_to hp as (growth ?want) hp1 as1"
        "heap_backed hp1"
      using expand_full [OF assms(1,2,4) room want] by blast
    obtain s where "growth ?want - 12 \<le> s" "(s, True) \<in> set (sizes (blocks hp1) as1)"
      using merge_free_keeps [of "growth ?want - 12" "sizes (blocks hp) as @ [(growth ?want - 12, True)]"] e(2)
      by (auto simp: grown_to_def)
    then have "first_fit (unat ?want) (sizes (blocks hp1) as1) \<noteq> None"
      using c by (intro first_fit_some) auto
    with one [of hp1 as1 0] e none assms(3) show ?thesis
      by (simp add: kmalloc_def numeral_2_eq_2 grown_to_def)
  qed
qed

subsection \<open>\<open>kfree\<close>\<close>

lemma merge_free_separated: "successively (\<lambda>x y. \<not> (snd x \<and> snd y)) (merge_free l)"
proof (induction l rule: merge_free.induct)
  case (1 s f t g r)
  show ?case
  proof (cases "f \<and> g")
    case False
    with "1.IH"(2) have "successively (\<lambda>x y. \<not> (snd x \<and> snd y)) (merge_free ((t, g) # r))" by blast
    moreover have "\<exists>k r'. merge_free ((t, g) # r) = (k, g) # r'"
      by (induction "(t, g) # r" arbitrary: t r rule: merge_free.induct) auto
    ultimately show ?thesis
      using False by auto
  qed (use "1.IH"(1) in simp)
qed auto

lemma kfree_removes:
  assumes "heap_inv hp as" "(p - 12, n) \<in> live (blocks hp) as"
  shows "\<exists>hp' as'. kfree p hp = Some hp' \<and> heap_inv hp' as' \<and>
    live (blocks hp') as' = live (blocks hp) as - {(p - 12, n)} \<and>
    successively (\<lambda>x y. \<not> (snd x \<and> snd y)) (sizes (blocks hp') as')"
proof -
  let ?b = "p - 12" and ?e = "0xD0000000 + unat (heap_mapped hp)"
  define m where "m = (blocks hp)(?b := (blocks hp ?b)\<lparr>b_free := True\<rparr>)"
  have i: "chain (blocks hp) (heap_head hp) as" "tiled (blocks hp) 0xD0000000 as ?e" "?e < 4294967296"
    using assms(1) by (simp_all add: heap_inv_def)
  have b: "?b \<in> set as" "n = unat (b_size (blocks hp ?b))"
    using assms(2) by (auto simp: live_def)
  have "0xD0000000 \<le> unat ?b" "unat ?b + 12 \<le> ?e"
    using tiled_bounds [OF i(2)] b(1) by auto
  moreover have "unat (- 12 :: u32) = 4294967284" by simp
  ultimately have "p \<noteq> 0"
    using i(3) by auto
  have m: "b_size (m x) = b_size (blocks hp x)" "b_next (m x) = b_next (blocks hp x)"
      "b_free (m x) \<longleftrightarrow> x = ?b \<or> b_free (blocks hp x)" for x
    by (simp_all add: m_def)
  have "chain m (heap_head hp) as" "tiled m 0xD0000000 as ?e"
    using i m chain_cong [of as m "blocks hp"] tiled_cong [of as m "blocks hp"] by simp_all
  from coalesce_from_correct [OF this _ i(3)] obtain m' as' where
    c: "coalesce_from m (heap_head hp) = Some m'" "merged m (heap_head hp) 0xD0000000 as ?e m' as'"
    by auto
  have "live m as = live (blocks hp) as - {(?b, n)}"
    using b(2) m by (auto simp: live_def)
  moreover have "kfree p hp = Some (hp\<lparr>blocks := m'\<rparr>)"
    using c(1) \<open>p \<noteq> 0\<close> by (simp add: kfree_def coalesce_def sizeof_block_def Let_def m_def)
  ultimately show ?thesis
    using c(2) i(3) merge_free_separated [of "sizes m as"]
    by (intro exI [of _ "hp\<lparr>blocks := m'\<rparr>"] exI [of _ as']) (simp add: merged_def heap_inv_def)
qed

text \<open>C17: freeing a live allocation removes exactly it: \<open>kfree\<close> returns, the chain of
  blocks stays well formed, every other allocation keeps its place and size, and afterwards
  no two neighbouring blocks are free.\<close>

theorem kfree_correct:
  assumes "heap_inv hp as" "(p - 12, n) \<in> live (blocks hp) as"
  shows "\<exists>hp' as'. kfree p hp = Some hp' \<and> heap_inv hp' as' \<and>
    live (blocks hp') as' = live (blocks hp) as - {(p - 12, n)} \<and>
    successively (\<lambda>x y. \<not> (snd x \<and> snd y)) (sizes (blocks hp') as')"
  by (rule kfree_removes [OF assms])

subsection \<open>Accounting\<close>

lemma used_from_correct:
  "chain m p as \<Longrightarrow> tiled m s as e \<Longrightarrow> unat used + e \<le> 4294967295 + s \<Longrightarrow>
   \<exists>u. used_from m p used = Some u \<and> unat u = unat used + sum snd (live m as)"
proof (induction as arbitrary: p s used)
  case Nil
  then show ?case by (simp add: used_from.simps [of m 0] live_def)
next
  case (Cons a as)
  then have p: "p = a" "a \<noteq> 0" "chain m (b_next (m a)) as"
    and t: "tiled m (s + 12 + unat (b_size (m a))) as e" by auto
  let ?u = "if b_free (m a) then used else used + b_size (m a)"
  note le = conjunct1 [OF tiled_bounds [OF t]]
  have fin: "finite (live m as)"
    by (simp add: live_def)
  have "(a, k) \<notin> live m as" for k
    using tiled_head_notin [OF Cons.prems(2)] by (simp add: live_def)
  then have sum: "sum snd (live m (a # as)) =
      (if b_free (m a) then 0 else unat (b_size (m a))) + sum snd (live m as)"
    using fin by (simp add: live_Cons)
  have u: "unat ?u = unat used + (if b_free (m a) then 0 else unat (b_size (m a)))"
    using le Cons.prems(3) by (simp add: unat_add32)
  have "unat ?u + e \<le> 4294967295 + (s + 12 + unat (b_size (m a)))"
    using u Cons.prems(3) by auto
  from Cons.IH [OF p(3) t this] show ?case
    using p u sum by (cases "b_free (m a)") (simp_all add: used_from.simps [of m a] add.assoc)
qed

text \<open>\<open>heap_used_bytes\<close> returns the sum of the live payloads, exactly (no wrap-around).\<close>

theorem heap_used_bytes_correct:
  assumes "heap_inv hp as"
  shows "\<exists>u. heap_used_bytes hp = Some u \<and> unat u = sum snd (live (blocks hp) as)"
proof -
  have i: "chain (blocks hp) (heap_head hp) as"
      "tiled (blocks hp) 0xD0000000 as (0xD0000000 + unat (heap_mapped hp))"
      "0xD0000000 + unat (heap_mapped hp) < 4294967296"
    using assms by (simp_all add: heap_inv_def)
  with used_from_correct [OF i(1,2), of 0] show ?thesis
    by (simp add: heap_used_bytes_def)
qed

subsection \<open>The boot heap, and a heap in use\<close>

definition heap_bss :: "paging \<Rightarrow> heap" where
  "heap_bss pg = \<lparr>blocks = (\<lambda>_. \<lparr>b_size = 0, b_free = False, b_next = 0\<rparr>), heap_head = 0,
                 heap_mapped = 0, heap_pg = pg\<rparr>"

lemma heap_bss_inv: "heap_inv (heap_bss pg) []"
  by (simp add: heap_inv_def heap_bss_def)

lemma heap_init_correct:
  "\<exists>hp as. heap_init (heap_bss pg) = Some hp \<and> heap_inv hp as \<and> live (blocks hp) as = {}"
proof -
  have "growth 1 \<le> 16385"
    using growth_bound [of 1] by simp
  then have "0xD0000000 + unat (heap_mapped (heap_bss pg)) + growth 1 < 4294967296"
    by (simp add: heap_bss_def)
  from expand_correct [OF heap_bss_inv this] obtain ok hp where
    e: "expand 1 (heap_bss pg) = Some (ok, hp)"
      "if ok then \<exists>g as'. 4096 \<le> g \<and> g \<le> growth 1 \<and> grown_to (heap_bss pg) [] g hp as'
       else \<exists>pg'. hp = (heap_bss pg)\<lparr>heap_pg := pg'\<rparr>" by blast
  have "\<exists>as. heap_inv hp as \<and> live (blocks hp) as = {}"
  proof (cases ok)
    case True
    with e(2) show ?thesis by (auto simp: grown_to_def live_def)
  next
    case False
    with e(2) heap_bss_inv show ?thesis by (auto simp: live_def intro!: exI [of _ "[]"])
  qed
  with e(1) show ?thesis by (auto simp: heap_init_def)
qed

text \<open>One page: 104 bytes in use, the rest free.\<close>

definition used_heap :: heap where
  "used_heap = \<lparr>blocks = (\<lambda>a. if a = 0xD0000000 then \<lparr>b_size = 104, b_free = False, b_next = 0xD0000074\<rparr>
                             else \<lparr>b_size = 3968, b_free = True, b_next = 0\<rparr>),
               heap_head = 0xD0000000, heap_mapped = 4096,
               heap_pg = paging_bss (pmm_init boot_map pmm_bss)\<rparr>"

lemma used_heap_inv: "heap_inv used_heap [0xD0000000, 0xD0000074]"
  by (simp add: heap_inv_def used_heap_def)

lemma used_heap_live: "live (blocks used_heap) [0xD0000000, 0xD0000074] = {(0xD0000000, 104)}"
  by (auto simp: live_def used_heap_def)


theorem kmalloc_first_fit_witness:
  "\<exists>p hp' as'. kmalloc 100 used_heap = Some (p, hp') \<and> p \<noteq> 0 \<and> heap_inv hp' as' \<and>
    sizes (blocks hp') as' = [(104, False), (104, False), (3852, True)]"
proof -
  have al: "ALIGN8 100 = 104" by (simp add: ALIGN8_def)
  have "first_fit (unat (ALIGN8 100)) (sizes (blocks used_heap) [0xD0000000, 0xD0000074]) =
      Some [(104, False), (104, False), (3852, True)]"
    by (simp add: al sizes_def used_heap_def)
  from kmalloc_first_fit [OF used_heap_inv _ this] show ?thesis by auto
qed

theorem kfree_correct_witness:
  "\<exists>hp' as'. kfree 0xD000000C used_heap = Some hp' \<and> heap_inv hp' as' \<and> live (blocks hp') as' = {}"
  using kfree_correct [OF used_heap_inv, of "0xD000000C" 104] by (auto simp: used_heap_live)

theorem heap_used_bytes_correct_witness: "heap_used_bytes used_heap = Some 104"
  using heap_used_bytes_correct [OF used_heap_inv] by (auto simp: used_heap_live u32_eq_iff)

theorem kmalloc_succeeds_witness:
  "\<exists>p hp' as' n. kmalloc 100 (heap_bss (paging_bss (pmm_init boot_low pmm_bss))) = Some (p, hp') \<and>
    p \<noteq> 0 \<and> heap_inv hp' as' \<and> heap_backed hp' \<and> (p - 12, n) \<in> live (blocks hp') as' \<and> 100 \<le> n"
proof -
  let ?pg = "paging_bss (pmm_init boot_low pmm_bss)"
  have "heap_backed (heap_bss ?pg)"
    using paging_bss_inv [OF pmm_init_inv] by (auto simp: heap_backed_def heap_bss_def)
  moreover have "expand_pages (ALIGN8 100) = 4"
    by (simp add: ALIGN8_def expand_pages_def sizeof_block_def FRAME_SIZE_def MIN_EXPAND_PAGES_def)
  moreover have "roomy 4 ?pg"
    by (simp add: roomy_def paging_bss_empty card_avail_frames boot_low_free)
  ultimately show ?thesis
    using kmalloc_succeeds [OF heap_bss_inv, of ?pg 100] by (simp add: heap_bss_def)
qed

text \<open>Rounding up wraps: a request for 4 GB - 1 bytes is granted as a block of none.\<close>

lemma kmalloc_huge_request_wraps:
  "\<exists>p hp' as'. kmalloc 0xFFFFFFFF used_heap = Some (p, hp') \<and> p \<noteq> 0 \<and>
    sizes (blocks hp') as' = [(104, False), (0, False), (3956, True)]"
proof -
  have al: "ALIGN8 0xFFFFFFFF = 0" by (simp add: ALIGN8_def)
  have "first_fit (unat (ALIGN8 0xFFFFFFFF)) (sizes (blocks used_heap) [0xD0000000, 0xD0000074]) =
      Some [(104, False), (0, False), (3956, True)]"
    by (simp add: al sizes_def used_heap_def)
  from kmalloc_fits [OF used_heap_inv _ this] show ?thesis by auto
qed

end
