(* ===== verification/Port_IO.thy ===== *)
theory Port_IO
  imports Prelude "HOL-Library.State_Monad"
begin

text \<open>
  \<open>kernel/io.h\<close>: port input and output. The hardware behind the ports is not in the
  repository: it is a parameter, a \<open>bus\<close> of four functions on a device state \<open>'d\<close>. The
  drivers are \<open>state\<close> computations over it, one bind per port access, in the code's order.
\<close>

record 'd bus =
  bus_in8 :: "u16 \<Rightarrow> 'd \<Rightarrow> u8 \<times> 'd"
  bus_out8 :: "u16 \<Rightarrow> u8 \<Rightarrow> 'd \<Rightarrow> 'd"
  bus_in16 :: "u16 \<Rightarrow> 'd \<Rightarrow> u16 \<times> 'd"
  bus_out16 :: "u16 \<Rightarrow> u16 \<Rightarrow> 'd \<Rightarrow> 'd"

definition outb :: "'d bus \<Rightarrow> u16 \<Rightarrow> u8 \<Rightarrow> ('d, unit) state" where
  "outb bus p v = State (\<lambda>d. ((), bus_out8 bus p v d))"

definition inb :: "'d bus \<Rightarrow> u16 \<Rightarrow> ('d, u8) state" where
  "inb bus p = State (bus_in8 bus p)"

definition outw :: "'d bus \<Rightarrow> u16 \<Rightarrow> u16 \<Rightarrow> ('d, unit) state" where
  "outw bus p v = State (\<lambda>d. ((), bus_out16 bus p v d))"

definition inw :: "'d bus \<Rightarrow> u16 \<Rightarrow> ('d, u16) state" where
  "inw bus p = State (bus_in16 bus p)"

text \<open>\<open>rep insw\<close> and \<open>rep outsw\<close>: words in memory are little endian.\<close>

definition word_bytes :: "u16 \<Rightarrow> u8 list" where
  "word_bytes w = [ucast w, ucast (drop_bit 8 w)]"

definition bytes_word :: "u8 \<Rightarrow> u8 \<Rightarrow> u16" where
  "bytes_word lo hi = ucast lo OR push_bit 8 (ucast hi)"

fun insw :: "'d bus \<Rightarrow> u16 \<Rightarrow> nat \<Rightarrow> ('d, u8 list) state" where
  "insw bus p 0 = State_Monad.return []"
| "insw bus p (Suc n) = do { w \<leftarrow> inw bus p; r \<leftarrow> insw bus p n; State_Monad.return (word_bytes w @ r) }"

fun outsw :: "'d bus \<Rightarrow> u16 \<Rightarrow> u8 list \<Rightarrow> ('d, unit) state" where
  "outsw bus p (lo # hi # r) = do { _ \<leftarrow> outw bus p (bytes_word lo hi); outsw bus p r }"
| "outsw bus p r = State_Monad.return ()"

lemma run_state_bind [simp]: "run_state (State_Monad.bind x f) d = (let (a, d') = run_state x d in run_state (f a) d')"
  by (cases x) (simp add: State_Monad.bind_def case_prod_beta Let_def)

lemma run_port [simp]:
  "run_state (outb bus p v) d = ((), bus_out8 bus p v d)"
  "run_state (inb bus p) d = bus_in8 bus p d"
  "run_state (outw bus p w) d = ((), bus_out16 bus p w d)"
  "run_state (inw bus p) d = bus_in16 bus p d" for w :: u16
  by (simp_all add: outb_def inb_def outw_def inw_def)

lemma bytes_word_inverse [simp]: "bytes_word (ucast w) (ucast (drop_bit 8 w)) = w"
  by (rule bit_word_eqI) (auto simp: bytes_word_def bit_simps)

lemma no_high_bit [simp]: "\<not> bit (lo :: u8) (8 + n)"
  using bit_imp_le_length [of lo "8 + n"] by auto

lemma word_bytes_inverse [simp]: "word_bytes (bytes_word lo hi) = [lo, hi]"
  by (auto simp: word_bytes_def bytes_word_def bit_simps intro!: bit_word_eqI)

end
