(* ===== verification/Ata.thy ===== *)
theory Ata
  imports Port_IO Interfaces
begin

text \<open>
  \<open>kernel/ata.c\<close>: the polled ATA driver. Every register access of the code is one bind; the
  polling loops are recursions on the code's own bound of 1000000 reads. The drive is the
  parameter \<open>bus\<close>; what the driver relies on is stated as \<open>drives\<close>: the bus simulates the
  documented LBA28 protocol (status bits, task-file registers, one 512-byte data phase per
  command), with an arbitrary number of busy polls after each command.
\<close>

definition ATA_DATA :: u16 where "ATA_DATA = 0x1F0"
definition ATA_SECCOUNT :: u16 where "ATA_SECCOUNT = 0x1F2"
definition ATA_LBA_LO :: u16 where "ATA_LBA_LO = 0x1F3"
definition ATA_LBA_MID :: u16 where "ATA_LBA_MID = 0x1F4"
definition ATA_LBA_HI :: u16 where "ATA_LBA_HI = 0x1F5"
definition ATA_DRIVE :: u16 where "ATA_DRIVE = 0x1F6"
definition ATA_STATUS :: u16 where "ATA_STATUS = 0x1F7"
definition ATA_COMMAND :: u16 where "ATA_COMMAND = 0x1F7"
definition ATA_ALT_STATUS :: u16 where "ATA_ALT_STATUS = 0x3F6"

definition ST_ERR :: u8 where "ST_ERR = 0x01"
definition ST_DRQ :: u8 where "ST_DRQ = 0x08"
definition ST_BSY :: u8 where "ST_BSY = 0x80"

definition CMD_READ :: u8 where "CMD_READ = 0x20"
definition CMD_WRITE :: u8 where "CMD_WRITE = 0x30"
definition CMD_FLUSH :: u8 where "CMD_FLUSH = 0xE7"
definition CMD_IDENTIFY :: u8 where "CMD_IDENTIFY = 0xEC"

definition POLL_LIMIT :: nat where "POLL_LIMIT = 1000000"

fun io_delay_loop :: "'d bus \<Rightarrow> nat \<Rightarrow> ('d, unit) state" where
  "io_delay_loop bus 0 = State_Monad.return ()"
| "io_delay_loop bus (Suc i) = do { _ \<leftarrow> inb bus ATA_ALT_STATUS; io_delay_loop bus i }"

definition io_delay :: "'d bus \<Rightarrow> ('d, unit) state" where
  "io_delay bus = io_delay_loop bus 4"

fun poll_not_busy :: "'d bus \<Rightarrow> nat \<Rightarrow> ('d, int) state" where
  "poll_not_busy bus 0 = State_Monad.return (- 1)"
| "poll_not_busy bus (Suc i) =
     do { s \<leftarrow> inb bus ATA_STATUS;
          if s AND ST_BSY = 0 then State_Monad.return 0 else poll_not_busy bus i }"

definition wait_not_busy :: "'d bus \<Rightarrow> ('d, int) state" where
  "wait_not_busy bus = poll_not_busy bus POLL_LIMIT"

fun poll_drq :: "'d bus \<Rightarrow> nat \<Rightarrow> ('d, int) state" where
  "poll_drq bus 0 = State_Monad.return (- 1)"
| "poll_drq bus (Suc i) =
     do { s \<leftarrow> inb bus ATA_STATUS;
          if s AND ST_ERR \<noteq> 0 then State_Monad.return (- 1)
          else if s AND ST_BSY = 0 \<and> s AND ST_DRQ \<noteq> 0 then State_Monad.return 0
          else poll_drq bus i }"

definition wait_drq :: "'d bus \<Rightarrow> ('d, int) state" where
  "wait_drq bus = poll_drq bus POLL_LIMIT"

definition ata_setup :: "'d bus \<Rightarrow> u32 \<Rightarrow> ('d, int) state" where
  "ata_setup bus lba =
     do { r \<leftarrow> wait_not_busy bus;
          if r \<noteq> 0 then State_Monad.return (- 1)
          else do {
            _ \<leftarrow> outb bus ATA_DRIVE (0xE0 OR ucast (drop_bit 24 lba AND 0x0F));
            _ \<leftarrow> io_delay bus;
            _ \<leftarrow> outb bus ATA_SECCOUNT 1;
            _ \<leftarrow> outb bus ATA_LBA_LO (ucast lba);
            _ \<leftarrow> outb bus ATA_LBA_MID (ucast (drop_bit 8 lba));
            _ \<leftarrow> outb bus ATA_LBA_HI (ucast (drop_bit 16 lba));
            State_Monad.return 0 } }"

text \<open>\<open>ata_init\<close> returns its result and the new value of \<open>total_sectors\<close>.\<close>

definition id_word :: "u8 list \<Rightarrow> nat \<Rightarrow> u16" where
  "id_word bs i = bytes_word (bs ! (2 * i)) (bs ! (2 * i + 1))"

definition ata_init :: "'d bus \<Rightarrow> u32 \<Rightarrow> ('d, int \<times> u32) state" where
  "ata_init bus total_sectors =
     do { r \<leftarrow> wait_not_busy bus;
          if r \<noteq> 0 then State_Monad.return (- 1, total_sectors)
          else do {
            _ \<leftarrow> outb bus ATA_DRIVE 0xE0;
            _ \<leftarrow> io_delay bus;
            _ \<leftarrow> outb bus ATA_SECCOUNT 0;
            _ \<leftarrow> outb bus ATA_LBA_LO 0;
            _ \<leftarrow> outb bus ATA_LBA_MID 0;
            _ \<leftarrow> outb bus ATA_LBA_HI 0;
            _ \<leftarrow> outb bus ATA_COMMAND CMD_IDENTIFY;
            s \<leftarrow> inb bus ATA_STATUS;
            if s = 0 then State_Monad.return (- 1, total_sectors)
            else do {
              q \<leftarrow> wait_drq bus;
              if q \<noteq> 0 then State_Monad.return (- 1, total_sectors)
              else do {
                id \<leftarrow> insw bus ATA_DATA 256;
                let total = ucast (id_word id 60) OR push_bit 16 (ucast (id_word id 61));
                State_Monad.return (if total \<noteq> 0 then 0 else - 1, total) } } } }"

definition ata_sectors :: "u32 \<Rightarrow> u32" where
  "ata_sectors total_sectors = total_sectors"

text \<open>The buffer a sector is read into: its contents on entry and on return.\<close>

definition ata_read :: "'d bus \<Rightarrow> u32 \<Rightarrow> u8 list \<Rightarrow> ('d, int \<times> u8 list) state" where
  "ata_read bus lba buf =
     do { r \<leftarrow> ata_setup bus lba;
          if r \<noteq> 0 then State_Monad.return (- 1, buf)
          else do {
            _ \<leftarrow> outb bus ATA_COMMAND CMD_READ;
            q \<leftarrow> wait_drq bus;
            if q \<noteq> 0 then State_Monad.return (- 1, buf)
            else do {
              bs \<leftarrow> insw bus ATA_DATA 256;
              State_Monad.return (0, bs) } } }"

definition ata_write :: "'d bus \<Rightarrow> u32 \<Rightarrow> u8 list \<Rightarrow> ('d, int) state" where
  "ata_write bus lba buf =
     do { r \<leftarrow> ata_setup bus lba;
          if r \<noteq> 0 then State_Monad.return (- 1)
          else do {
            _ \<leftarrow> outb bus ATA_COMMAND CMD_WRITE;
            q \<leftarrow> wait_drq bus;
            if q \<noteq> 0 then State_Monad.return (- 1)
            else do {
              _ \<leftarrow> outsw bus ATA_DATA buf;
              _ \<leftarrow> outb bus ATA_COMMAND CMD_FLUSH;
              wait_not_busy bus } } }"

subsection \<open>The documented drive\<close>

datatype phase = Idle | Data_In "u16 list" | Data_Out nat "u16 list" | Failed

record drive =
  dr_head :: u8
  dr_lo :: u8
  dr_mid :: u8
  dr_hi :: u8
  dr_busy :: nat
  dr_phase :: phase
  dr_latency :: nat
  dr_capacity :: nat
  dr_sectors :: "nat \<Rightarrow> u16 list"

definition dr_lba :: "drive \<Rightarrow> nat" where
  "dr_lba d = unat (dr_lo d) + 256 * unat (dr_mid d) + 65536 * unat (dr_hi d) +
              16777216 * unat (dr_head d AND 0x0F)"

definition dr_status :: "drive \<Rightarrow> u8" where
  "dr_status d =
     (if 0 < dr_busy d then 0x80
      else case dr_phase d of Idle \<Rightarrow> 0x50 | Data_In _ \<Rightarrow> 0x58 | Data_Out _ _ \<Rightarrow> 0x58 | Failed \<Rightarrow> 0x51)"

definition identify_data :: "drive \<Rightarrow> u16 list" where
  "identify_data d =
     replicate 60 0 @ [of_nat (dr_capacity d mod 65536), of_nat (dr_capacity d div 65536)] @ replicate 194 0"

definition dr_command :: "u8 \<Rightarrow> drive \<Rightarrow> drive" where
  "dr_command c d =
     (d\<lparr>dr_busy := dr_latency d,
        dr_phase :=
          (if c = 0xEC then Data_In (identify_data d)
           else if c = 0x20 then (if dr_lba d < dr_capacity d then Data_In (dr_sectors d (dr_lba d)) else Failed)
           else if c = 0x30 then (if dr_lba d < dr_capacity d then Data_Out (dr_lba d) [] else Failed)
           else Idle)\<rparr>)"

definition dr_out8 :: "u16 \<Rightarrow> u8 \<Rightarrow> drive \<Rightarrow> drive" where
  "dr_out8 p v d =
     (if p = 0x1F3 then d\<lparr>dr_lo := v\<rparr>
      else if p = 0x1F4 then d\<lparr>dr_mid := v\<rparr>
      else if p = 0x1F5 then d\<lparr>dr_hi := v\<rparr>
      else if p = 0x1F6 then d\<lparr>dr_head := v\<rparr>
      else if p = 0x1F7 then dr_command v d
      else d)"

definition dr_in8 :: "u16 \<Rightarrow> drive \<Rightarrow> u8 \<times> drive" where
  "dr_in8 p d =
     (if p = 0x1F7 then (dr_status d, d\<lparr>dr_busy := dr_busy d - 1\<rparr>)
      else if p = 0x3F6 then (dr_status d, d)
      else (0, d))"

definition dr_in16 :: "u16 \<Rightarrow> drive \<Rightarrow> u16 \<times> drive" where
  "dr_in16 p d =
     (case dr_phase d of
        Data_In (w # ws) \<Rightarrow> (w, d\<lparr>dr_phase := (if ws = [] then Idle else Data_In ws)\<rparr>)
      | _ \<Rightarrow> (0, d))"

definition dr_out16 :: "u16 \<Rightarrow> u16 \<Rightarrow> drive \<Rightarrow> drive" where
  "dr_out16 p w d =
     (case dr_phase d of
        Data_Out l ws \<Rightarrow>
          (if length ws = 255
           then d\<lparr>dr_sectors := (dr_sectors d)(l := ws @ [w]), dr_phase := Idle, dr_busy := dr_latency d\<rparr>
           else d\<lparr>dr_phase := Data_Out l (ws @ [w])\<rparr>)
      | _ \<Rightarrow> d)"

text \<open>The hypothesis on the hardware: \<open>\<alpha>\<close> reads the state of a conforming drive off the
  device, and every access on the driver's ports acts on it as documented.\<close>

definition drives :: "'d bus \<Rightarrow> ('d \<Rightarrow> drive) \<Rightarrow> bool" where
  "drives bus \<alpha> \<longleftrightarrow>
     (\<forall>p d. p \<in> {0x1F2 .. 0x1F7} \<union> {0x3F6} \<longrightarrow>
        fst (bus_in8 bus p d) = fst (dr_in8 p (\<alpha> d)) \<and> \<alpha> (snd (bus_in8 bus p d)) = snd (dr_in8 p (\<alpha> d))) \<and>
     (\<forall>p v d. p \<in> {0x1F2 .. 0x1F7} \<longrightarrow> \<alpha> (bus_out8 bus p v d) = dr_out8 p v (\<alpha> d)) \<and>
     (\<forall>d. fst (bus_in16 bus 0x1F0 d) = fst (dr_in16 0x1F0 (\<alpha> d)) \<and>
          \<alpha> (snd (bus_in16 bus 0x1F0 d)) = snd (dr_in16 0x1F0 (\<alpha> d))) \<and>
     (\<forall>w d. \<alpha> (bus_out16 bus 0x1F0 w d) = dr_out16 0x1F0 w (\<alpha> d))"

definition drive_bus :: "drive bus" where
  "drive_bus = \<lparr>bus_in8 = dr_in8, bus_out8 = dr_out8, bus_in16 = dr_in16, bus_out16 = dr_out16\<rparr>"

lemma drive_bus_drives: "drives drive_bus id"
  by (simp add: drives_def drive_bus_def)

subsection \<open>Programs on a conforming bus run as on the drive\<close>

definition sim :: "('d \<Rightarrow> 'e) \<Rightarrow> ('d, 'a) state \<Rightarrow> ('e, 'a) state \<Rightarrow> bool" where
  "sim \<alpha> m n \<longleftrightarrow> (\<forall>d. run_state n (\<alpha> d) = (fst (run_state m d), \<alpha> (snd (run_state m d))))"

lemma sim_return [intro!, simp]: "sim \<alpha> (State_Monad.return a) (State_Monad.return a)"
  by (simp add: sim_def)

lemma sim_bind [intro!]:
  "sim \<alpha> m n \<Longrightarrow> (\<And>a. sim \<alpha> (f a) (g a)) \<Longrightarrow> sim \<alpha> (State_Monad.bind m f) (State_Monad.bind n g)"
  by (simp add: sim_def case_prod_beta Let_def)

lemma sim_if [intro!]: "(c \<Longrightarrow> sim \<alpha> m n) \<Longrightarrow> (\<not> c \<Longrightarrow> sim \<alpha> m' n') \<Longrightarrow> sim \<alpha> (if c then m else m') (if c then n else n')"
  by simp

lemmas port_defs = ATA_DATA_def ATA_SECCOUNT_def ATA_LBA_LO_def ATA_LBA_MID_def ATA_LBA_HI_def
  ATA_DRIVE_def ATA_STATUS_def ATA_COMMAND_def ATA_ALT_STATUS_def

lemma sim_inb: "drives bus \<alpha> \<Longrightarrow> p \<in> {0x1F2 .. 0x1F7} \<union> {0x3F6} \<Longrightarrow> sim \<alpha> (inb bus p) (inb drive_bus p)"
  unfolding sim_def drives_def by (auto simp: drive_bus_def prod_eq_iff)

lemma sim_outb: "drives bus \<alpha> \<Longrightarrow> p \<in> {0x1F2 .. 0x1F7} \<Longrightarrow> sim \<alpha> (outb bus p v) (outb drive_bus p v)"
  by (simp add: sim_def drives_def drive_bus_def)

lemma sim_data:
  "drives bus \<alpha> \<Longrightarrow> sim \<alpha> (inw bus ATA_DATA) (inw drive_bus ATA_DATA)"
  "drives bus \<alpha> \<Longrightarrow> sim \<alpha> (outw bus ATA_DATA w) (outw drive_bus ATA_DATA w)"
  by (simp_all add: sim_def drives_def drive_bus_def ATA_DATA_def)

lemma sim_registers:
  assumes "drives bus \<alpha>"
  shows "sim \<alpha> (inb bus ATA_STATUS) (inb drive_bus ATA_STATUS)"
    "sim \<alpha> (inb bus ATA_ALT_STATUS) (inb drive_bus ATA_ALT_STATUS)"
    "sim \<alpha> (outb bus ATA_COMMAND v) (outb drive_bus ATA_COMMAND v)"
    "sim \<alpha> (outb bus ATA_DRIVE v) (outb drive_bus ATA_DRIVE v)"
    "sim \<alpha> (outb bus ATA_SECCOUNT v) (outb drive_bus ATA_SECCOUNT v)"
    "sim \<alpha> (outb bus ATA_LBA_LO v) (outb drive_bus ATA_LBA_LO v)"
    "sim \<alpha> (outb bus ATA_LBA_MID v) (outb drive_bus ATA_LBA_MID v)"
    "sim \<alpha> (outb bus ATA_LBA_HI v) (outb drive_bus ATA_LBA_HI v)"
  by (auto intro!: sim_inb [OF assms] sim_outb [OF assms] simp: port_defs word_le_nat_alt)

lemma sim_poll_not_busy: "drives bus \<alpha> \<Longrightarrow> sim \<alpha> (poll_not_busy bus n) (poll_not_busy drive_bus n)"
  by (induction n) (auto intro: sim_registers)

lemma sim_poll_drq: "drives bus \<alpha> \<Longrightarrow> sim \<alpha> (poll_drq bus n) (poll_drq drive_bus n)"
  by (induction n) (auto intro: sim_registers)

lemma sim_io_delay: "drives bus \<alpha> \<Longrightarrow> sim \<alpha> (io_delay bus) (io_delay drive_bus)"
proof -
  assume d: "drives bus \<alpha>"
  have "sim \<alpha> (io_delay_loop bus n) (io_delay_loop drive_bus n)" for n
    by (induction n) (auto intro: sim_registers [OF d])
  then show ?thesis by (simp add: io_delay_def)
qed

lemma sim_insw: "drives bus \<alpha> \<Longrightarrow> sim \<alpha> (insw bus ATA_DATA n) (insw drive_bus ATA_DATA n)"
  by (induction n) (auto intro: sim_data)

lemma sim_outsw: "drives bus \<alpha> \<Longrightarrow> sim \<alpha> (outsw bus ATA_DATA bs) (outsw drive_bus ATA_DATA bs)"
  by (induction bs rule: induct_list012) (auto intro: sim_data)

lemmas sim_parts = sim_registers sim_poll_not_busy sim_poll_drq sim_io_delay sim_insw sim_outsw

lemma sim_setup: "drives bus \<alpha> \<Longrightarrow> sim \<alpha> (ata_setup bus lba) (ata_setup drive_bus lba)"
  by (auto simp: ata_setup_def wait_not_busy_def intro: sim_parts)

lemma sim_ata_read: "drives bus \<alpha> \<Longrightarrow> sim \<alpha> (ata_read bus lba buf) (ata_read drive_bus lba buf)"
  by (auto simp: ata_read_def wait_drq_def intro: sim_parts sim_setup)

lemma sim_ata_write: "drives bus \<alpha> \<Longrightarrow> sim \<alpha> (ata_write bus lba buf) (ata_write drive_bus lba buf)"
  by (auto simp: ata_write_def wait_drq_def wait_not_busy_def intro: sim_parts sim_setup)

lemma sim_ata_init: "drives bus \<alpha> \<Longrightarrow> sim \<alpha> (ata_init bus n) (ata_init drive_bus n)"
  by (auto simp: ata_init_def wait_drq_def wait_not_busy_def Let_def intro: sim_parts)

subsection \<open>The driver on the drive\<close>

lemma drive_bus_simps [simp]:
  "bus_in8 drive_bus = dr_in8" "bus_out8 drive_bus = dr_out8"
  "bus_in16 drive_bus = dr_in16" "bus_out16 drive_bus = dr_out16"
  by (simp_all add: drive_bus_def)

lemma status_bits:
  "dr_status d AND ST_BSY = 0 \<longleftrightarrow> dr_busy d = 0"
  "dr_status d AND ST_ERR \<noteq> 0 \<longleftrightarrow> dr_busy d = 0 \<and> dr_phase d = Failed"
  "dr_status d AND ST_DRQ \<noteq> 0 \<longleftrightarrow> dr_busy d = 0 \<and> dr_phase d \<noteq> Failed \<and> dr_phase d \<noteq> Idle"
  by (auto simp: dr_status_def ST_BSY_def ST_ERR_def ST_DRQ_def split: phase.splits)

lemma poll_not_busy_drive:
  "run_state (poll_not_busy drive_bus n) d =
     (if dr_busy d < n then (0, d\<lparr>dr_busy := 0\<rparr>) else (- 1, d\<lparr>dr_busy := dr_busy d - n\<rparr>))"
proof (induction n arbitrary: d)
  case (Suc n)
  show ?case
  proof (cases "dr_busy d = 0")
    case True
    then show ?thesis by (simp add: dr_in8_def ATA_STATUS_def status_bits)
  next
    case False
    then show ?thesis by (auto simp: dr_in8_def ATA_STATUS_def status_bits Suc)
  qed
qed simp

lemma wait_not_busy_drive:
  "dr_busy d < POLL_LIMIT \<Longrightarrow> run_state (wait_not_busy drive_bus) d = (0, d\<lparr>dr_busy := 0\<rparr>)"
  by (simp add: wait_not_busy_def poll_not_busy_drive)

lemma poll_drq_drive:
  "dr_busy d < n \<Longrightarrow> dr_phase d \<noteq> Idle \<Longrightarrow>
   run_state (poll_drq drive_bus n) d = ((if dr_phase d = Failed then - 1 else 0), d\<lparr>dr_busy := 0\<rparr>)"
proof (induction n arbitrary: d)
  case (Suc n)
  show ?case
  proof (cases "dr_busy d = 0")
    case True
    then show ?thesis using Suc.prems by (simp add: dr_in8_def ATA_STATUS_def status_bits)
  next
    case False
    then show ?thesis using Suc by (simp add: dr_in8_def ATA_STATUS_def status_bits)
  qed
qed simp

lemma io_delay_drive: "run_state (io_delay drive_bus) d = ((), d)"
proof -
  have "run_state (io_delay_loop drive_bus n) d = ((), d)" for n
    by (induction n) (simp_all add: dr_in8_def ATA_ALT_STATUS_def)
  then show ?thesis by (simp add: io_delay_def)
qed

lemma insw_drive:
  "dr_phase d = Data_In ws \<Longrightarrow> ws \<noteq> [] \<Longrightarrow>
   run_state (insw drive_bus ATA_DATA (length ws)) d = (concat (map word_bytes ws), d\<lparr>dr_phase := Idle\<rparr>)"
proof (induction ws arbitrary: d)
  case (Cons w ws)
  show ?case
  proof (cases "ws = []")
    case True
    then show ?thesis using Cons.prems by (simp add: dr_in16_def)
  next
    case False
    then show ?thesis using Cons.prems(1) Cons.IH [of "d\<lparr>dr_phase := Data_In ws\<rparr>"]
      by (simp add: dr_in16_def)
  qed
qed simp

fun words_of :: "u8 list \<Rightarrow> u16 list" where
  "words_of (lo # hi # r) = bytes_word lo hi # words_of r"
| "words_of r = []"

lemma length_words_of [simp]: "length (words_of bs) = length bs div 2"
  by (induction bs rule: words_of.induct) auto

lemma concat_words_of: "even (length bs) \<Longrightarrow> concat (map word_bytes (words_of bs)) = bs"
  by (induction bs rule: words_of.induct) auto

lemma outsw_drive:
  "dr_phase d = Data_Out l ws \<Longrightarrow> length ws + length bs div 2 = 256 \<Longrightarrow> length ws < 256 \<Longrightarrow>
   run_state (outsw drive_bus ATA_DATA bs) d =
     ((), d\<lparr>dr_sectors := (dr_sectors d)(l := ws @ words_of bs), dr_phase := Idle, dr_busy := dr_latency d\<rparr>)"
proof (induction bs arbitrary: d ws rule: words_of.induct)
  case (1 lo hi r)
  show ?case
  proof (cases "length ws = 255")
    case True
    then have "length r < 2" using "1.prems" by auto
    then have "words_of r = []" "outsw drive_bus ATA_DATA r = State_Monad.return ()"
      by (cases r rule: words_of.cases; simp)+
    then show ?thesis using True "1.prems" by (simp add: dr_out16_def fun_upd_def)
  next
    case False
    then show ?thesis
      using "1.prems" "1.IH" [of "dr_out16 ATA_DATA (bytes_word lo hi) d" "ws @ [bytes_word lo hi]"]
      by (simp add: dr_out16_def)
  qed
qed auto

definition task_file :: "u32 \<Rightarrow> drive \<Rightarrow> drive" where
  "task_file lba d =
     d\<lparr>dr_busy := 0, dr_head := 0xE0 OR ucast (drop_bit 24 lba AND 0x0F), dr_lo := ucast lba,
       dr_mid := ucast (drop_bit 8 lba), dr_hi := ucast (drop_bit 16 lba)\<rparr>"

lemma setup_drive:
  assumes "dr_busy d < POLL_LIMIT"
  shows "run_state (ata_setup drive_bus lba) d = (0, task_file lba d)"
  using assms
  by (simp add: ata_setup_def wait_not_busy_drive io_delay_drive dr_out8_def port_defs task_file_def)

lemma digits28:
  "x mod 256 + 256 * (x div 256 mod 256) + 65536 * (x div 65536 mod 256) +
     16777216 * (x div 16777216 mod 16) = (x :: nat) mod 268435456"
proof -
  have "x mod (256 * 1048576) = 256 * (x div 256 mod 1048576) + x mod 256"
    by (rule mod_mult2_eq)
  moreover have "x div 256 mod (256 * 4096) = 256 * (x div 256 div 256 mod 4096) + x div 256 mod 256"
    by (rule mod_mult2_eq)
  moreover have "x div 65536 mod (256 * 16) = 256 * (x div 65536 div 256 mod 16) + x div 65536 mod 256"
    by (rule mod_mult2_eq)
  ultimately show ?thesis
    by (simp add: div_mult2_eq [symmetric])
qed

lemma task_file_lba: "dr_lba (task_file lba d) = unat lba mod 268435456"
proof -
  let ?x = "unat lba"
  have b: "unat (ucast lba :: u8) = ?x mod 256" "unat (ucast (drop_bit 8 lba) :: u8) = ?x div 256 mod 256"
      "unat (ucast (drop_bit 16 lba) :: u8) = ?x div 65536 mod 256"
    by (simp_all add: unsigned_ucast_eq take_bit_eq_mod unsigned_drop_bit_eq drop_bit_eq_div unat_div_distrib)
  have "(0xE0 OR ucast (drop_bit 24 lba AND 0x0F)) AND (0x0F :: u8) = ucast (drop_bit 24 lba AND 0x0F)"
  proof -
    have "ucast (drop_bit 24 lba AND 0x0F) AND (0x0F :: u8) = ucast (drop_bit 24 lba AND 0x0F)"
      by (rule bit_word_eqI) (auto simp: bit_simps)
    then show ?thesis by (simp add: bit.conj_disj_distrib2)
  qed
  moreover have "unat (ucast (drop_bit 24 lba AND 0x0F) :: u8) = ?x div 16777216 mod 16"
  proof -
    have "(0x0F :: u32) = mask 4" by (simp add: mask_eq_exp_minus_1)
    then have "unat (drop_bit 24 lba AND 0x0F) = ?x div 16777216 mod 16"
      by (simp only: unat_and_mask) (simp add: drop_bit_eq_div unat_div_distrib)
    then show ?thesis by (simp add: unsigned_ucast_eq take_bit_eq_mod)
  qed
  ultimately show ?thesis
    unfolding dr_lba_def task_file_def by (simp add: b digits28)
qed

text \<open>The four task-file registers hold exactly the low 28 bits of the sector number, so
  two sector numbers reach the same sector iff they agree modulo 2 to the 28.\<close>

theorem setup_addresses_sector:
  assumes "dr_busy d < POLL_LIMIT"
  shows "\<exists>d'. run_state (ata_setup drive_bus lba) d = (0, d') \<and> dr_lba d' = unat lba mod 268435456"
  using setup_drive [OF assms] task_file_lba by blast

subsection \<open>Reading and writing sectors\<close>

definition dr_ready :: "drive \<Rightarrow> bool" where
  "dr_ready d \<longleftrightarrow> dr_busy d < POLL_LIMIT \<and> dr_latency d < POLL_LIMIT \<and> (\<forall>l. length (dr_sectors d l) = 256)"

text \<open>The sector a 32-bit sector number reaches, as the 512 bytes the driver transfers.\<close>

definition dr_index :: "u32 \<Rightarrow> nat" where
  "dr_index lba = unat lba mod 268435456"

definition dr_bytes :: "drive \<Rightarrow> u32 \<Rightarrow> u8 list" where
  "dr_bytes d lba = concat (map word_bytes (dr_sectors d (dr_index lba)))"

lemma task_file_index: "dr_lba (task_file lba d) = dr_index lba"
  by (simp add: task_file_lba dr_index_def)

lemma task_file_simps [simp]:
  "dr_latency (task_file lba d) = dr_latency d" "dr_capacity (task_file lba d) = dr_capacity d"
  "dr_sectors (task_file lba d) = dr_sectors d" "dr_busy (task_file lba d) = 0"
  by (simp_all add: task_file_def)

lemma dr_command_simps [simp]:
  "dr_latency (dr_command c d) = dr_latency d" "dr_capacity (dr_command c d) = dr_capacity d"
  "dr_sectors (dr_command c d) = dr_sectors d" "dr_busy (dr_command c d) = dr_latency d"
  "dr_lba (dr_command c d) = dr_lba d"
  by (simp_all add: dr_command_def dr_lba_def)

lemma length_dr_bytes: "dr_ready d \<Longrightarrow> length (dr_bytes d lba) = 512"
  by (simp add: dr_bytes_def dr_ready_def length_concat word_bytes_def comp_def sum_list_triv)

lemma ata_read_drive:
  assumes "dr_ready d"
  shows "\<exists>d'. run_state (ata_read drive_bus lba buf) d =
      ((if dr_index lba < dr_capacity d then (0, dr_bytes d lba) else (- 1, buf)), d') \<and>
    dr_ready d' \<and> dr_sectors d' = dr_sectors d \<and> dr_capacity d' = dr_capacity d"
proof -
  have busy: "dr_busy d < POLL_LIMIT" and lat: "dr_latency d < POLL_LIMIT"
    using assms by (simp_all add: dr_ready_def)
  let ?t = "task_file lba d" and ?ws = "dr_sectors d (dr_index lba)"
  let ?c = "dr_command 0x20 ?t"
  have out: "dr_out8 ATA_COMMAND CMD_READ ?t = ?c"
    by (simp add: dr_out8_def ATA_COMMAND_def CMD_READ_def)
  have len: "length ?ws = 256" using assms by (simp add: dr_ready_def)
  show ?thesis
  proof (cases "dr_index lba < dr_capacity d")
    case True
    then have ph: "dr_phase ?c = Data_In ?ws"
      by (simp add: dr_command_def task_file_index)
    then have q: "run_state (wait_drq drive_bus) ?c = (0, ?c\<lparr>dr_busy := 0\<rparr>)"
      using lat by (simp add: wait_drq_def poll_drq_drive)
    have "?ws \<noteq> []" using len by auto
    then have "run_state (insw drive_bus ATA_DATA 256) (?c\<lparr>dr_busy := 0\<rparr>) =
        (concat (map word_bytes ?ws), ?c\<lparr>dr_busy := 0, dr_phase := Idle\<rparr>)"
      using insw_drive [of "?c\<lparr>dr_busy := 0\<rparr>" ?ws] ph len by simp
    then show ?thesis
      using True assms
      by (intro exI [of _ "?c\<lparr>dr_busy := 0, dr_phase := Idle\<rparr>"])
        (simp add: ata_read_def setup_drive [OF busy] out q dr_bytes_def dr_ready_def POLL_LIMIT_def)
  next
    case False
    then have "dr_phase ?c = Failed"
      by (simp add: dr_command_def task_file_index)
    then have "run_state (wait_drq drive_bus) ?c = (- 1, ?c\<lparr>dr_busy := 0\<rparr>)"
      using lat by (simp add: wait_drq_def poll_drq_drive)
    then show ?thesis
      using False assms
      by (intro exI [of _ "?c\<lparr>dr_busy := 0\<rparr>"])
        (simp add: ata_read_def setup_drive [OF busy] out dr_ready_def POLL_LIMIT_def)
  qed
qed

lemma ata_write_drive:
  assumes "dr_ready d" "length buf = 512"
  shows "\<exists>d'. run_state (ata_write drive_bus lba buf) d =
      ((if dr_index lba < dr_capacity d then 0 else - 1), d') \<and> dr_ready d' \<and>
    dr_sectors d' = (if dr_index lba < dr_capacity d then (dr_sectors d)(dr_index lba := words_of buf)
                     else dr_sectors d) \<and> dr_capacity d' = dr_capacity d"
proof -
  have busy: "dr_busy d < POLL_LIMIT" and lat: "dr_latency d < POLL_LIMIT"
    using assms by (simp_all add: dr_ready_def)
  let ?t = "task_file lba d"
  let ?c = "dr_command 0x30 ?t"
  have out: "dr_out8 ATA_COMMAND CMD_WRITE ?t = ?c"
    by (simp add: dr_out8_def ATA_COMMAND_def CMD_WRITE_def)
  show ?thesis
  proof (cases "dr_index lba < dr_capacity d")
    case True
    then have ph: "dr_phase ?c = Data_Out (dr_index lba) []"
      by (simp add: dr_command_def task_file_index)
    then have q: "run_state (wait_drq drive_bus) ?c = (0, ?c\<lparr>dr_busy := 0\<rparr>)"
      using lat by (simp add: wait_drq_def poll_drq_drive)
    let ?o = "?c\<lparr>dr_busy := dr_latency d, dr_phase := Idle,
        dr_sectors := (dr_sectors d)(dr_index lba := words_of buf)\<rparr>"
    have o: "run_state (outsw drive_bus ATA_DATA buf) (?c\<lparr>dr_busy := 0\<rparr>) = ((), ?o)"
      using outsw_drive [of "?c\<lparr>dr_busy := 0\<rparr>" "dr_index lba" "[]" buf] ph assms(2)
      by (simp add: fun_upd_def)
    let ?f = "?o\<lparr>dr_busy := dr_latency d\<rparr>"
    have f: "dr_out8 ATA_COMMAND CMD_FLUSH ?o = ?f"
      by (simp add: dr_out8_def ATA_COMMAND_def CMD_FLUSH_def dr_command_def)
    have "run_state (wait_not_busy drive_bus) ?f = (0, ?f\<lparr>dr_busy := 0\<rparr>)"
      using lat by (simp add: wait_not_busy_drive)
    then show ?thesis
      using True assms
      by (intro exI [of _ "?f\<lparr>dr_busy := 0\<rparr>"])
        (simp add: ata_write_def setup_drive [OF busy] out q o f dr_ready_def POLL_LIMIT_def)
  next
    case False
    then have "dr_phase ?c = Failed"
      by (simp add: dr_command_def task_file_index)
    then have "run_state (wait_drq drive_bus) ?c = (- 1, ?c\<lparr>dr_busy := 0\<rparr>)"
      using lat by (simp add: wait_drq_def poll_drq_drive)
    then show ?thesis
      using False assms
      by (intro exI [of _ "?c\<lparr>dr_busy := 0\<rparr>"])
        (simp add: ata_write_def setup_drive [OF busy] out dr_ready_def POLL_LIMIT_def)
  qed
qed

text \<open>The addressable sectors of a drive, under 28-bit numbers.\<close>

definition dr_limit :: "drive \<Rightarrow> nat" where
  "dr_limit d = min (dr_capacity d) 268435456"

definition disk_rd :: "'d bus \<Rightarrow> u32 \<Rightarrow> u8 list \<Rightarrow> 'd \<Rightarrow> (int \<times> u8 list) \<times> 'd" where
  "disk_rd bus lba buf d = run_state (ata_read bus lba buf) d"

definition disk_wr :: "'d bus \<Rightarrow> u32 \<Rightarrow> u8 list \<Rightarrow> 'd \<Rightarrow> int \<times> 'd" where
  "disk_wr bus lba buf d = run_state (ata_write bus lba buf) d"

lemma ata_is_sector_disk:
  assumes "drives bus \<alpha>"
  shows "sector_disk (disk_rd bus) (disk_wr bus) (\<lambda>d. dr_ready (\<alpha> d)) (\<lambda>d. dr_limit (\<alpha> d)) (\<lambda>d. dr_bytes (\<alpha> d))"
proof
  have idx: "dr_index l = unat l" "dr_index l < dr_capacity d" if "unat l < dr_limit d" for l d
    using that by (simp_all add: dr_limit_def dr_index_def)
  show "length (dr_bytes (\<alpha> s) l) = 512" if "dr_ready (\<alpha> s)" for s l
    using that by (rule length_dr_bytes)
  show "\<exists>s'. disk_rd bus l buf s = ((0, dr_bytes (\<alpha> s) l), s') \<and> dr_ready (\<alpha> s') \<and>
      dr_limit (\<alpha> s') = dr_limit (\<alpha> s) \<and> dr_bytes (\<alpha> s') = dr_bytes (\<alpha> s)"
    if "dr_ready (\<alpha> s)" "unat l < dr_limit (\<alpha> s)" for s l buf
  proof -
    have "run_state (ata_read drive_bus l buf) (\<alpha> s) =
        (fst (disk_rd bus l buf s), \<alpha> (snd (disk_rd bus l buf s)))"
      using sim_ata_read [OF assms, of l buf] by (simp add: sim_def disk_rd_def)
    with ata_read_drive [OF that(1), of l buf] idx(2) [OF that(2)] show ?thesis
      by (intro exI [of _ "snd (disk_rd bus l buf s)"])
        (auto simp: prod_eq_iff dr_limit_def dr_bytes_def fun_eq_iff)
  qed
  show "\<exists>s'. disk_wr bus l buf s = (0, s') \<and> dr_ready (\<alpha> s') \<and> dr_limit (\<alpha> s') = dr_limit (\<alpha> s) \<and>
      (\<forall>k. unat k < dr_limit (\<alpha> s) \<longrightarrow> dr_bytes (\<alpha> s') k = (if k = l then buf else dr_bytes (\<alpha> s) k))"
    if "dr_ready (\<alpha> s)" "unat l < dr_limit (\<alpha> s)" "length buf = 512" for s l buf
  proof -
    have "run_state (ata_write drive_bus l buf) (\<alpha> s) =
        (fst (disk_wr bus l buf s), \<alpha> (snd (disk_wr bus l buf s)))"
      using sim_ata_write [OF assms, of l buf] by (simp add: sim_def disk_wr_def)
    with ata_write_drive [OF that(1,3), of l] idx(2) [OF that(2)] idx(1) [of l "\<alpha> s"] that(2,3) show ?thesis
      by (intro exI [of _ "snd (disk_wr bus l buf s)"])
        (auto simp: prod_eq_iff dr_limit_def dr_bytes_def u32_eq_iff concat_words_of dr_index_def)
  qed
qed


interpretation ideal_disk: sector_disk "disk_rd drive_bus" "disk_wr drive_bus" dr_ready dr_limit dr_bytes
  using ata_is_sector_disk [OF drive_bus_drives] by simp

subsection \<open>Witnesses: an ideal drive of 1000 sectors\<close>

definition blank_drive :: drive where
  "blank_drive = \<lparr>dr_head = 0, dr_lo = 0, dr_mid = 0, dr_hi = 0, dr_busy = 3, dr_phase = Idle,
                  dr_latency = 7, dr_capacity = 1000, dr_sectors = (\<lambda>_. replicate 256 0)\<rparr>"

lemma blank_drive_ready: "dr_ready blank_drive" "dr_limit blank_drive = 1000"
  by (simp_all add: dr_ready_def blank_drive_def POLL_LIMIT_def dr_limit_def)

theorem setup_addresses_sector_witness:
  "\<exists>d'. run_state (ata_setup drive_bus 0x12345678) blank_drive = (0, d') \<and> dr_lba d' = 0x2345678"
  using setup_addresses_sector [of blank_drive "0x12345678"] by (simp add: blank_drive_def POLL_LIMIT_def)


subsection \<open>A drive that does not answer\<close>



text \<open>\<open>ata_init\<close> reports the capacity of the drive.\<close>

lemma identify_words:
  "id_word (concat (map word_bytes ws)) i = ws ! i" if "i < length ws"
  using that
proof (induction ws arbitrary: i)
  case (Cons w ws)
  then show ?case
    by (cases i) (simp_all add: id_word_def word_bytes_def)
qed simp

lemma ata_init_drive:
  assumes "dr_ready d" "0 < dr_capacity d" "dr_capacity d < 4294967296"
  shows "\<exists>d'. run_state (ata_init drive_bus n) d = ((0, of_nat (dr_capacity d)), d') \<and> dr_ready d' \<and>
    dr_sectors d' = dr_sectors d \<and> dr_capacity d' = dr_capacity d"
proof -
  have busy: "dr_busy d < POLL_LIMIT" and lat: "dr_latency d < POLL_LIMIT"
    using assms by (simp_all add: dr_ready_def)
  let ?t = "d\<lparr>dr_busy := 0, dr_head := 0xE0, dr_lo := 0, dr_mid := 0, dr_hi := 0\<rparr>"
  let ?c = "dr_command 0xEC ?t"
  let ?ws = "identify_data ?t"
  have ph: "dr_phase ?c = Data_In ?ws" by (simp add: dr_command_def identify_data_def)
  let ?p = "?c\<lparr>dr_busy := dr_busy ?c - Suc 0\<rparr>"
  have st: "dr_status ?c \<noteq> 0" by (simp add: dr_status_def ph)
  have q: "run_state (wait_drq drive_bus) ?p = (0, ?c\<lparr>dr_busy := 0\<rparr>)"
    using lat ph by (simp add: wait_drq_def poll_drq_drive)
  have len: "length ?ws = 256" by (simp add: identify_data_def)
  then have "?ws \<noteq> []" by auto
  then have i: "run_state (insw drive_bus ATA_DATA 256) (?c\<lparr>dr_busy := 0\<rparr>) =
      (concat (map word_bytes ?ws), ?c\<lparr>dr_busy := 0, dr_phase := Idle\<rparr>)"
    using insw_drive [of "?c\<lparr>dr_busy := 0\<rparr>" ?ws] ph len by simp
  have w: "?ws ! 60 = of_nat (dr_capacity d mod 65536)" "?ws ! 61 = of_nat (dr_capacity d div 65536)"
    by (simp_all add: identify_data_def nth_append)
  have tot: "ucast (?ws ! 60) OR push_bit 16 (ucast (?ws ! 61)) = (of_nat (dr_capacity d) :: u32)"
  proof -
    have m: "n mod 65536 = take_bit 16 n" "n div 65536 = drop_bit 16 n" for n :: nat
      by (simp_all add: take_bit_eq_mod drop_bit_eq_div)
    show ?thesis
      unfolding w m by (rule bit_word_eqI) (auto simp: bit_simps)
  qed
  have nz: "(of_nat (dr_capacity d) :: u32) \<noteq> 0"
    using assms(2,3) by (simp add: u32_eq_iff unat_of_nat32)
  have regs: "dr_out8 ATA_LBA_HI 0 (dr_out8 ATA_LBA_MID 0 (dr_out8 ATA_LBA_LO 0
      (dr_out8 ATA_SECCOUNT 0 (dr_out8 ATA_DRIVE 0xE0 (d\<lparr>dr_busy := 0\<rparr>))))) = ?t"
    by (simp add: dr_out8_def port_defs)
  have cmd: "dr_out8 ATA_COMMAND CMD_IDENTIFY ?t = ?c"
    by (simp add: dr_out8_def ATA_COMMAND_def CMD_IDENTIFY_def)
  have inp: "dr_in8 ATA_STATUS ?c = (dr_status ?c, ?p)"
    by (simp add: dr_in8_def ATA_STATUS_def)
  have "run_state (ata_init drive_bus n) d = ((0, of_nat (dr_capacity d)), ?c\<lparr>dr_busy := 0, dr_phase := Idle\<rparr>)"
    using nz tot st
    by (simp add: ata_init_def wait_not_busy_drive [OF busy] io_delay_drive regs cmd inp q i
        identify_words len del: dr_command_simps)
  then show ?thesis
    using assms(1) by (simp add: dr_ready_def POLL_LIMIT_def)
qed

end
