(* ===== verification/Fs.thy ===== *)
theory Fs
  imports Kstring Heap Port_IO Interfaces
begin

text \<open>
  \<open>kernel/fs.c\<close>: RPFS, the file system. The state is the superblock, the cached FAT and
  directory, the sector buffer, the kernel heap the caches are allocated from and the disk.
  The sector operations \<open>rd\<close> and \<open>wr\<close> are arguments; the kernel passes \<open>ata_read\<close> and
  \<open>ata_write\<close>. The caches are the arrays the code indexes: the FAT a map from block numbers,
  the directory the list of its 64 slots, each with the on-disk bytes of its sectors.
  A name is the list of its bytes before the terminating NUL.
\<close>

definition FS_START_LBA :: u32 where "FS_START_LBA = 193"
definition FS_MAX_NAME :: nat where "FS_MAX_NAME = 21"
definition FS_DIR_ENTRIES :: nat where "FS_DIR_ENTRIES = 64"
definition FS_MAGIC :: u32 where "FS_MAGIC = 0x53465052"
definition FS_VERSION :: u32 where "FS_VERSION = 1"
definition BLOCK_SIZE :: u32 where "BLOCK_SIZE = 512"
definition FAT_FREE :: u16 where "FAT_FREE = 0x0000"
definition FAT_END :: u16 where "FAT_END = 0xFFFF"

record superblock =
  sb_magic :: u32
  sb_version :: u32
  sb_fs_sectors :: u32
  sb_fat_start :: u32
  sb_fat_sectors :: u32
  sb_dir_start :: u32
  sb_dir_sectors :: u32
  sb_data_start :: u32
  sb_data_blocks :: u32

record dirent =
  de_name :: "u8 list"
  de_used :: u8
  de_flags :: u8
  de_size :: u32
  de_first :: u16
  de_pad :: u16

record 's fsys =
  fs_sb :: superblock
  fs_fat :: "nat \<Rightarrow> u16"
  fs_dir :: "dirent list"
  fs_mounted :: bool
  fs_sect :: "u8 list"
  fs_total :: u32
  fs_heap :: heap
  fs_dev :: 's

text \<open>A zeroed slot, \<open>memset(e, 0, sizeof *e)\<close>.\<close>

definition zero_dirent :: dirent where
  "zero_dirent = \<lparr>de_name = replicate 22 0, de_used = 0, de_flags = 0, de_size = 0, de_first = 0, de_pad = 0\<rparr>"

subsection \<open>Bytes on disk\<close>

definition le4 :: "u32 \<Rightarrow> u8 list" where
  "le4 x = [ucast x, ucast (drop_bit 8 x), ucast (drop_bit 16 x), ucast (drop_bit 24 x)]"

definition un_le4 :: "u8 list \<Rightarrow> u32" where
  "un_le4 bs = ucast (bs ! 0) OR push_bit 8 (ucast (bs ! 1)) OR push_bit 16 (ucast (bs ! 2)) OR
               push_bit 24 (ucast (bs ! 3))"

definition superblock_bytes :: "superblock \<Rightarrow> u8 list" where
  "superblock_bytes s =
     le4 (sb_magic s) @ le4 (sb_version s) @ le4 (sb_fs_sectors s) @ le4 (sb_fat_start s) @
     le4 (sb_fat_sectors s) @ le4 (sb_dir_start s) @ le4 (sb_dir_sectors s) @ le4 (sb_data_start s) @
     le4 (sb_data_blocks s)"

definition superblock_of :: "u8 list \<Rightarrow> superblock" where
  "superblock_of bs =
     \<lparr>sb_magic = un_le4 bs, sb_version = un_le4 (drop 4 bs), sb_fs_sectors = un_le4 (drop 8 bs),
      sb_fat_start = un_le4 (drop 12 bs), sb_fat_sectors = un_le4 (drop 16 bs),
      sb_dir_start = un_le4 (drop 20 bs), sb_dir_sectors = un_le4 (drop 24 bs),
      sb_data_start = un_le4 (drop 28 bs), sb_data_blocks = un_le4 (drop 32 bs)\<rparr>"

definition dirent_bytes :: "dirent \<Rightarrow> u8 list" where
  "dirent_bytes e = de_name e @ [de_used e, de_flags e] @ le4 (de_size e) @ word_bytes (de_first e) @
                    word_bytes (de_pad e)"

definition dirent_of :: "u8 list \<Rightarrow> dirent" where
  "dirent_of bs =
     \<lparr>de_name = take 22 bs, de_used = bs ! 22, de_flags = bs ! 23, de_size = un_le4 (drop 24 bs),
      de_first = bytes_word (bs ! 28) (bs ! 29), de_pad = bytes_word (bs ! 30) (bs ! 31)\<rparr>"

text \<open>The bytes at \<open>fat + s * BLOCK_SIZE\<close> and \<open>dir + s * BLOCK_SIZE\<close>.\<close>

definition fat_sector :: "(nat \<Rightarrow> u16) \<Rightarrow> nat \<Rightarrow> u8 list" where
  "fat_sector fat s = concat (map (\<lambda>j. word_bytes (fat (256 * s + j))) [0..<256])"

definition dir_sector :: "dirent list \<Rightarrow> nat \<Rightarrow> u8 list" where
  "dir_sector dir s = take 512 (drop (512 * s) (concat (map dirent_bytes dir)))"

definition fat_of :: "u8 list list \<Rightarrow> nat \<Rightarrow> u16" where
  "fat_of cs b = bytes_word (cs ! (b div 256) ! (2 * (b mod 256))) (cs ! (b div 256) ! (2 * (b mod 256) + 1))"

definition dir_of :: "u8 list list \<Rightarrow> dirent list" where
  "dir_of cs = map (\<lambda>i. dirent_of (take 32 (drop (32 * i) (concat cs)))) [0..<FS_DIR_ENTRIES]"

subsection \<open>Write-through\<close>

type_synonym 's wr = "u32 \<Rightarrow> u8 list \<Rightarrow> 's \<Rightarrow> int \<times> 's"
type_synonym 's rd = "u32 \<Rightarrow> u8 list \<Rightarrow> 's \<Rightarrow> (int \<times> u8 list) \<times> 's"

definition flush_fat_range :: "'s wr \<Rightarrow> u32 \<Rightarrow> u32 \<Rightarrow> 's fsys \<Rightarrow> int \<times> 's fsys" where
  "flush_fat_range wr first_entry last_entry st =
     (let s0 = first_entry * 2 div BLOCK_SIZE; s1 = last_entry * 2 div BLOCK_SIZE;
          (r, d) = wr_run wr (sb_fat_start (fs_sb st) + s0)
                     (map (fat_sector (fs_fat st)) [unat s0 ..< unat s1 + 1]) (fs_dev st)
      in (r, st\<lparr>fs_dev := d\<rparr>))"

definition flush_dir :: "'s wr \<Rightarrow> 's fsys \<Rightarrow> int \<times> 's fsys" where
  "flush_dir wr st =
     (let (r, d) = wr_run wr (sb_dir_start (fs_sb st))
                     (map (dir_sector (fs_dir st)) [0 ..< unat (sb_dir_sectors (fs_sb st))]) (fs_dev st)
      in (r, st\<lparr>fs_dev := d\<rparr>))"

subsection \<open>Mount and format\<close>

definition FAT_SECTORS :: "u32 \<Rightarrow> u32" where
  "FAT_SECTORS fs_sectors = (fs_sectors * 2 + BLOCK_SIZE - 1) div BLOCK_SIZE"

definition DIR_SECTORS :: u32 where
  "DIR_SECTORS = (of_nat FS_DIR_ENTRIES * 32) div BLOCK_SIZE"

definition format_sb :: "u32 \<Rightarrow> superblock" where
  "format_sb tot =
     (let fs_sectors = tot - FS_START_LBA;
          fat_sectors = FAT_SECTORS fs_sectors;
          fat_start = FS_START_LBA + 1;
          dir_start = fat_start + fat_sectors
      in \<lparr>sb_magic = FS_MAGIC, sb_version = FS_VERSION, sb_fs_sectors = fs_sectors,
          sb_fat_start = fat_start, sb_fat_sectors = fat_sectors,
          sb_dir_start = dir_start, sb_dir_sectors = DIR_SECTORS,
          sb_data_start = dir_start + DIR_SECTORS,
          sb_data_blocks = fs_sectors - 1 - fat_sectors - DIR_SECTORS\<rparr>)"

definition fs_format :: "'s wr \<Rightarrow> 's fsys \<Rightarrow> int \<times> 's fsys" where
  "fs_format wr st =
     (let sb = format_sb (fs_total st); st1 = st\<lparr>fs_sb := sb\<rparr>
      in if sint (sb_data_blocks sb) < 1 then (- 1, st1)
         else let sb2 = (if sb_data_blocks sb > 0xFFFE then sb\<lparr>sb_data_blocks := 0xFFFE\<rparr> else sb);
                  st2 = st1\<lparr>fs_sb := sb2, fs_fat := (\<lambda>_. 0), fs_dir := replicate FS_DIR_ENTRIES zero_dirent\<rparr>;
                  (r, st3) = flush_fat_range wr 0 (sb_fs_sectors sb2 - 1) st2
              in if r \<noteq> 0 then (- 1, st3)
                 else let (r', st4) = flush_dir wr st3
                      in if r' \<noteq> 0 then (- 1, st4)
                         else let sect = superblock_bytes sb2 @ replicate 476 0;
                                  (r'', d) = wr FS_START_LBA sect (fs_dev st4)
                              in (r'', st4\<lparr>fs_sect := sect, fs_dev := d\<rparr>))"

text \<open>\<open>init\<close> is \<open>ata_init\<close> on the disk and the sector count. \<open>None\<close>: \<open>kmalloc\<close> did not return.\<close>

definition fs_load :: "'s rd \<Rightarrow> 's fsys \<Rightarrow> int \<times> 's fsys" where
  "fs_load rd st =
     (let sb = fs_sb st;
          ((r, fs), d) = rd_run rd (sb_fat_start sb) (replicate (unat (sb_fat_sectors sb)) []) (fs_dev st);
          st1 = st\<lparr>fs_fat := fat_of fs, fs_dev := d\<rparr>
      in if r \<noteq> 0 then (- 1, st1)
         else let ((r', ds), d') = rd_run rd (sb_dir_start sb) (replicate (unat (sb_dir_sectors sb)) []) d;
                  st2 = st1\<lparr>fs_dir := dir_of ds, fs_dev := d'\<rparr>
              in if r' \<noteq> 0 then (- 1, st2) else (0, st2))"

definition fs_mount :: "(u32 \<Rightarrow> 's \<Rightarrow> (int \<times> u32) \<times> 's) \<Rightarrow> 's rd \<Rightarrow> 's wr \<Rightarrow> 's fsys \<Rightarrow> (int \<times> 's fsys) option" where
  "fs_mount init rd wr st =
     (let ((r, tot), d) = init (fs_total st) (fs_dev st);
          st1 = st\<lparr>fs_total := tot, fs_dev := d\<rparr>
      in if r \<noteq> 0 then Some (- 1, st1)
         else if tot \<le> FS_START_LBA + 16 then Some (- 1, st1)
         else let ((q, bs), d') = rd FS_START_LBA (fs_sect st1) (fs_dev st1);
                  st2 = st1\<lparr>fs_sect := bs, fs_dev := d'\<rparr>
              in if q \<noteq> 0 then Some (- 1, st2)
                 else let sb = superblock_of bs;
                          fresh = (sb_magic sb \<noteq> FS_MAGIC \<or> sb_version sb \<noteq> FS_VERSION);
                          sb1 = (if fresh
                                 then sb\<lparr>sb_fat_sectors := FAT_SECTORS (tot - FS_START_LBA), sb_dir_sectors := DIR_SECTORS\<rparr>
                                 else sb)
                      in (case kmalloc (sb_fat_sectors sb1 * BLOCK_SIZE) (fs_heap st2) of None \<Rightarrow> None
                          | Some (fatp, h1) \<Rightarrow>
                              (case kmalloc (sb_dir_sectors sb1 * BLOCK_SIZE) h1 of None \<Rightarrow> None
                               | Some (dirp, h2) \<Rightarrow>
                                   let st3 = st2\<lparr>fs_sb := sb1, fs_heap := h2\<rparr>
                                   in if fatp = 0 \<or> dirp = 0 then Some (- 1, st3)
                                      else let (e, st4) = (if fresh then fs_format wr st3 else fs_load rd st3)
                                           in if e \<noteq> 0 then Some (- 1, st4)
                                              else Some (0, st4\<lparr>fs_mounted := True\<rparr>))))"

subsection \<open>Internals\<close>

definition block_lba :: "superblock \<Rightarrow> u16 \<Rightarrow> u32" where
  "block_lba sb block = sb_data_start sb + (ucast block - 1)"

text \<open>A name field as \<open>strcmp\<close> reads it, up to its first NUL.\<close>

definition cstr :: "u8 list \<Rightarrow> u8 list" where
  "cstr bs = takeWhile (\<lambda>c. c \<noteq> 0) bs"

fun find_from :: "dirent list \<Rightarrow> u8 list \<Rightarrow> nat \<Rightarrow> nat option" where
  "find_from [] name i = None"
| "find_from (e # es) name i =
     (if de_used e \<noteq> 0 \<and> strcmp_bytes (cstr (de_name e)) name = 0 then Some i
      else find_from es name (Suc i))"

definition find_entry :: "'s fsys \<Rightarrow> u8 list \<Rightarrow> nat option" where
  "find_entry st name = find_from (fs_dir st) name 0"

text \<open>Each step clears an entry that was not free, or reaches a free one and stops: the loop
  ends on every FAT, cyclic ones included.\<close>

function free_chain :: "(nat \<Rightarrow> u16) \<Rightarrow> u16 \<Rightarrow> nat \<Rightarrow> u16" where
  "free_chain fat b =
     (if b \<noteq> 0 \<and> b \<noteq> FAT_END then free_chain (fat(unat b := FAT_FREE)) (fat (unat b)) else fat)"
  by pat_completeness auto
termination
proof (relation "measure (\<lambda>(fat, b). 2 * card {i. i < 65536 \<and> fat i \<noteq> 0} + (if b = 0 then 0 else 1))")
  show "wf (measure (\<lambda>(fat :: nat \<Rightarrow> u16, b :: u16). 2 * card {i. i < 65536 \<and> fat i \<noteq> 0} + (if b = 0 then 0 else 1)))"
    by simp
next
  fix fat :: "nat \<Rightarrow> u16" and b :: u16
  assume b: "b \<noteq> 0 \<and> b \<noteq> FAT_END"
  let ?S = "{i. i < 65536 \<and> fat i \<noteq> 0}" and ?T = "{i. i < 65536 \<and> (fat(unat b := FAT_FREE)) i \<noteq> 0}"
  have T: "?T = ?S - {unat b}" by (auto simp: FAT_FREE_def)
  have "card ?T + (if fat (unat b) = 0 then 0 else 1) \<le> card ?S"
  proof (cases "fat (unat b) = 0")
    case True
    then show ?thesis unfolding T by (simp add: card_mono)
  next
    case False
    then have "unat b \<in> ?S" using unat_lt16 [of b] by simp
    then have "card ?S = Suc (card ?T)" unfolding T by (subst card.remove [of _ "unat b"]) auto
    then show ?thesis by simp
  qed
  then show "((fat(unat b := FAT_FREE), fat (unat b)), fat, b) \<in>
      measure (\<lambda>(fat, b). 2 * card {i. i < 65536 \<and> fat i \<noteq> 0} + (if b = 0 then 0 else 1))"
    using b by (auto split: if_splits)
qed

declare free_chain.simps [simp del]

fun alloc_from :: "(nat \<Rightarrow> u16) \<Rightarrow> nat \<Rightarrow> u32 \<Rightarrow> u16" where
  "alloc_from fat 0 b = 0"
| "alloc_from fat (Suc n) b = (if fat (unat b) = FAT_FREE then ucast b else alloc_from fat n (b + 1))"

definition alloc_block :: "'s fsys \<Rightarrow> u16" where
  "alloc_block st = alloc_from (fs_fat st) (unat (sb_data_blocks (fs_sb st))) 1"

subsection \<open>Public operations\<close>

text \<open>1 with the name field and the size, or 0.\<close>

definition fs_dir_get :: "int \<Rightarrow> 's fsys \<Rightarrow> (u8 list \<times> u32) option" where
  "fs_dir_get idx st =
     (if \<not> fs_mounted st \<or> idx < 0 \<or> idx \<ge> int FS_DIR_ENTRIES \<or> de_used (fs_dir st ! nat idx) = 0 then None
      else Some ((de_name (fs_dir st ! nat idx))[FS_MAX_NAME := 0], de_size (fs_dir st ! nat idx)))"

definition chunk_len :: "u32 \<Rightarrow> u32" where
  "chunk_len remaining = (if remaining < BLOCK_SIZE then remaining else BLOCK_SIZE)"

text \<open>The loop of \<open>fs_read\<close>: an error flag and the bytes copied to the caller's buffer.\<close>

function read_loop :: "'s rd \<Rightarrow> u16 \<Rightarrow> u32 \<Rightarrow> u8 list \<Rightarrow> 's fsys \<Rightarrow> (bool \<times> u8 list) \<times> 's fsys" where
  "read_loop rd b remaining out st =
     (if remaining \<noteq> 0 \<and> b \<noteq> 0 \<and> b \<noteq> FAT_END then
        let ((r, bs), d) = rd (block_lba (fs_sb st) b) (fs_sect st) (fs_dev st);
            st1 = st\<lparr>fs_sect := bs, fs_dev := d\<rparr>;
            n = chunk_len remaining
        in if r \<noteq> 0 then ((False, out), st1)
           else read_loop rd (fs_fat st (unat b)) (remaining - n) (out @ take (unat n) bs) st1
      else ((True, out), st))"
  by pat_completeness auto
termination
  by (relation "measure (\<lambda>(rd, b, remaining, out, st). unat remaining)")
    (auto simp: chunk_len_def BLOCK_SIZE_def unat_sub word_le_nat_alt word_less_nat_alt u32_eq_iff
      split: if_splits)

declare read_loop.simps [simp del]

definition fs_read :: "'s rd \<Rightarrow> u8 list \<Rightarrow> u32 \<Rightarrow> 's fsys \<Rightarrow> (int \<times> u8 list) \<times> 's fsys" where
  "fs_read rd name maxlen st =
     (if \<not> fs_mounted st then ((- 1, []), st)
      else case find_entry st name of None \<Rightarrow> ((- 1, []), st)
        | Some i \<Rightarrow>
            let e = fs_dir st ! i;
                remaining = (if de_size e < maxlen then de_size e else maxlen);
                ((ok, out), st1) = read_loop rd (de_first e) remaining [] st
            in if ok then ((sint (de_size e), out), st1) else ((- 1, out), st1))"

definition upd_entry :: "nat \<Rightarrow> (dirent \<Rightarrow> dirent) \<Rightarrow> 's fsys \<Rightarrow> 's fsys" where
  "upd_entry i f st = st\<lparr>fs_dir := (fs_dir st)[i := f (fs_dir st ! i)]\<rparr>"

definition set_fat :: "nat \<Rightarrow> u16 \<Rightarrow> 's fsys \<Rightarrow> 's fsys" where
  "set_fat b v st = st\<lparr>fs_fat := (fs_fat st)(b := v)\<rparr>"

text \<open>The first free slot, as \<open>fs_write\<close> looks for it.\<close>

fun free_slot_from :: "dirent list \<Rightarrow> nat \<Rightarrow> nat option" where
  "free_slot_from [] i = None"
| "free_slot_from (e # es) i = (if de_used e = 0 then Some i else free_slot_from es (Suc i))"

definition fresh_entry :: "u8 list \<Rightarrow> dirent" where
  "fresh_entry name = zero_dirent\<lparr>de_name := name @ [0] @ replicate (21 - length name) 0, de_used := 1\<rparr>"

definition claim_entry :: "u8 list \<Rightarrow> 's fsys \<Rightarrow> (nat \<times> 's fsys) option" where
  "claim_entry name st =
     (case find_entry st name of Some i \<Rightarrow> Some (i, st)
      | None \<Rightarrow>
          (case free_slot_from (fs_dir st) 0 of None \<Rightarrow> None
           | Some i \<Rightarrow> Some (i, upd_entry i (\<lambda>_. fresh_entry name) st)))"

text \<open>The contents of entry \<open>i\<close> dropped: its chain freed, \<open>first\<close> 0, \<open>size\<close> set.\<close>

definition drop_chain :: "nat \<Rightarrow> u32 \<Rightarrow> 's fsys \<Rightarrow> 's fsys" where
  "drop_chain i len st =
     upd_entry i (\<lambda>e. e\<lparr>de_first := 0, de_size := len\<rparr>)
       (st\<lparr>fs_fat := free_chain (fs_fat st) (de_first (fs_dir st ! i))\<rparr>)"

definition link_block :: "nat \<Rightarrow> u16 \<Rightarrow> u16 \<Rightarrow> 's fsys \<Rightarrow> 's fsys" where
  "link_block i prev b st =
     (let st1 = set_fat (unat b) FAT_END st
      in if prev \<noteq> 0 then set_fat (unat prev) b st1 else upd_entry i (\<lambda>e. e\<lparr>de_first := b\<rparr>) st1)"

definition roll_back :: "'s wr \<Rightarrow> nat \<Rightarrow> 's fsys \<Rightarrow> 's fsys" where
  "roll_back wr i st =
     (let st1 = drop_chain i 0 st;
          (_, st2) = flush_fat_range wr 0 (sb_data_blocks (fs_sb st)) st1;
          (_, st3) = flush_dir wr st2
      in st3)"

function write_loop :: "'s wr \<Rightarrow> nat \<Rightarrow> u16 \<Rightarrow> u8 list \<Rightarrow> u32 \<Rightarrow> 's fsys \<Rightarrow> int \<times> 's fsys" where
  "write_loop wr i prev inp remaining st =
     (if remaining \<noteq> 0 then
        let b = alloc_block st
        in if b = 0 then (- 1, roll_back wr i st)
           else let st1 = link_block i prev b st;
                    n = chunk_len remaining;
                    sect = take (unat n) inp @ replicate (512 - unat n) 0;
                    (r, d) = wr (block_lba (fs_sb st1) b) sect (fs_dev st1);
                    st2 = st1\<lparr>fs_sect := sect, fs_dev := d\<rparr>
                in if r \<noteq> 0 then (- 1, st2)
                   else write_loop wr i b (drop (unat n) inp) (remaining - n) st2
      else (0, st))"
  by pat_completeness auto
termination
  by (relation "measure (\<lambda>(wr, i, prev, inp, remaining, st). unat remaining)")
    (auto simp: chunk_len_def BLOCK_SIZE_def unat_sub word_le_nat_alt word_less_nat_alt u32_eq_iff
      split: if_splits)

declare write_loop.simps [simp del]

definition flush_all :: "'s wr \<Rightarrow> 's fsys \<Rightarrow> int \<times> 's fsys" where
  "flush_all wr st =
     (let (r, st1) = flush_fat_range wr 0 (sb_data_blocks (fs_sb st)) st
      in if r \<noteq> 0 then (- 1, st1) else flush_dir wr st1)"

definition fs_write :: "'s wr \<Rightarrow> u8 list \<Rightarrow> u8 list \<Rightarrow> u32 \<Rightarrow> 's fsys \<Rightarrow> int \<times> 's fsys" where
  "fs_write wr name data len st =
     (if \<not> fs_mounted st \<or> name = [] \<or> length name > FS_MAX_NAME then (- 1, st)
      else case claim_entry name st of None \<Rightarrow> (- 1, st)
        | Some (i, st1) \<Rightarrow>
            let (r, st2) = write_loop wr i 0 data len (drop_chain i len st1)
            in if r \<noteq> 0 then (- 1, st2) else flush_all wr st2)"

definition fs_delete :: "'s wr \<Rightarrow> u8 list \<Rightarrow> 's fsys \<Rightarrow> int \<times> 's fsys" where
  "fs_delete wr name st =
     (if \<not> fs_mounted st then (- 1, st)
      else case find_entry st name of None \<Rightarrow> (- 1, st)
        | Some i \<Rightarrow>
            flush_all wr
              (upd_entry i (\<lambda>_. zero_dirent)
                (st\<lparr>fs_fat := free_chain (fs_fat st) (de_first (fs_dir st ! i))\<rparr>)))"

definition fs_rename :: "'s wr \<Rightarrow> u8 list \<Rightarrow> u8 list \<Rightarrow> 's fsys \<Rightarrow> int \<times> 's fsys" where
  "fs_rename wr oldname newname st =
     (if \<not> fs_mounted st \<or> newname = [] \<or> length newname > FS_MAX_NAME then (- 1, st)
      else case find_entry st oldname of None \<Rightarrow> (- 1, st)
        | Some i \<Rightarrow>
            if find_entry st newname \<noteq> None then (- 1, st)
            else flush_dir wr
                   (upd_entry i (\<lambda>e. e\<lparr>de_name := newname @ [0] @ replicate (21 - length newname) 0\<rparr>) st))"

fun count_free :: "(nat \<Rightarrow> u16) \<Rightarrow> nat \<Rightarrow> u32 \<Rightarrow> u32 \<Rightarrow> u32" where
  "count_free fat 0 b free_blocks = free_blocks"
| "count_free fat (Suc n) b free_blocks =
     count_free fat n (b + 1) (if fat (unat b) = FAT_FREE then free_blocks + 1 else free_blocks)"

definition fs_free_bytes :: "'s fsys \<Rightarrow> u32" where
  "fs_free_bytes st =
     (if \<not> fs_mounted st then 0
      else count_free (fs_fat st) (unat (sb_data_blocks (fs_sb st))) 1 0 * BLOCK_SIZE)"

definition fs_total_bytes :: "'s fsys \<Rightarrow> u32" where
  "fs_total_bytes st = (if fs_mounted st then sb_data_blocks (fs_sb st) * BLOCK_SIZE else 0)"

definition fs_file_count :: "'s fsys \<Rightarrow> int" where
  "fs_file_count st =
     (if \<not> fs_mounted st then 0
      else foldl (\<lambda>n e. if de_used e \<noteq> 0 then n + 1 else n) 0 (fs_dir st))"

end
