(* ===== verification/Fs_Spec.thy ===== *)
theory Fs_Spec
  imports Fs
begin

text \<open>
  What the file system promises. The abstraction of a mounted volume is a map from names to
  byte strings, \<open>contents\<close>; \<open>fs_inv\<close> says that every file's FAT chain ends, stays inside the
  volume, has the length its size asks for and shares no block with another file. The
  lemmas on chains are about the FAT alone; those on the operations are proved once in the
  context of \<open>sector_disk\<close>, over every disk that keeps that contract.
\<close>

subsection \<open>Chains\<close>

fun fat_path :: "(nat \<Rightarrow> u16) \<Rightarrow> u16 \<Rightarrow> u16 list \<Rightarrow> bool" where
  "fat_path fat b [] \<longleftrightarrow> b = FAT_END"
| "fat_path fat b (x # xs) \<longleftrightarrow> b = x \<and> x \<noteq> 0 \<and> x \<noteq> FAT_END \<and> fat_path fat (fat (unat x)) xs"

definition fat_chain :: "(nat \<Rightarrow> u16) \<Rightarrow> u16 \<Rightarrow> u16 list \<Rightarrow> bool" where
  "fat_chain fat b bs \<longleftrightarrow> b = 0 \<and> bs = [] \<or> fat_path fat b bs"

fun walk :: "nat \<Rightarrow> (nat \<Rightarrow> u16) \<Rightarrow> u16 \<Rightarrow> u16 list" where
  "walk 0 fat b = []"
| "walk (Suc n) fat b = (if b = 0 \<or> b = FAT_END then [] else b # walk n fat (fat (unat b)))"

definition chain_of :: "(nat \<Rightarrow> u16) \<Rightarrow> u16 \<Rightarrow> u16 list" where
  "chain_of fat b = walk 65536 fat b"

lemma fat_path_unique: "fat_path fat b xs \<Longrightarrow> fat_path fat b ys \<Longrightarrow> xs = ys"
proof (induction xs arbitrary: b ys)
  case Nil
  then show ?case by (cases ys) auto
next
  case (Cons x xs)
  then show ?case by (cases ys) auto
qed

lemma fat_path_split: "fat_path fat b (xs @ y # ys) \<Longrightarrow> fat_path fat y (y # ys)"
  by (induction xs arbitrary: b) auto

lemma fat_path_distinct: "fat_path fat b bs \<Longrightarrow> distinct bs"
proof (induction bs arbitrary: b)
  case (Cons x xs)
  have "x \<notin> set xs"
  proof
    assume "x \<in> set xs"
    then obtain us vs where "xs = us @ x # vs" by (meson split_list)
    then have "fat_path fat x (x # vs)" "fat_path fat x (x # us @ x # vs)"
      using Cons.prems fat_path_split [of fat b "x # us" x vs] by auto
    then have "x # vs = x # us @ x # vs" by (rule fat_path_unique)
    then show False by (simp add: append_eq_conv_conj)
  qed
  with Cons show ?case by auto
qed simp

lemma fat_path_cong: "\<forall>x \<in> set bs. fat' (unat x) = fat (unat x) \<Longrightarrow> fat_path fat' b bs = fat_path fat b bs"
  by (induction bs arbitrary: b) auto

lemma fat_path_member: "fat_path fat b bs \<Longrightarrow> x \<in> set bs \<Longrightarrow> x \<noteq> 0 \<and> x \<noteq> FAT_END \<and> fat (unat x) \<noteq> 0"
proof (induction bs arbitrary: b)
  case (Cons y bs)
  show ?case
  proof (cases "x = y")
    case True
    with Cons.prems show ?thesis by (cases bs) (auto simp: FAT_END_def)
  next
    case False
    with Cons show ?thesis by auto
  qed
qed simp

lemma fat_chain_member: "fat_chain fat b bs \<Longrightarrow> x \<in> set bs \<Longrightarrow> x \<noteq> 0 \<and> x \<noteq> FAT_END \<and> fat (unat x) \<noteq> 0"
  unfolding fat_chain_def using fat_path_member by auto

lemma fat_chain_distinct: "fat_chain fat b bs \<Longrightarrow> distinct bs"
  unfolding fat_chain_def using fat_path_distinct by auto

lemma fat_chain_cong: "\<forall>x \<in> set bs. fat' (unat x) = fat (unat x) \<Longrightarrow> fat_chain fat' b bs = fat_chain fat b bs"
  unfolding fat_chain_def using fat_path_cong [of bs fat' fat b] by blast

lemma length_distinct_u16: "distinct (bs :: u16 list) \<Longrightarrow> length bs \<le> 65536"
proof -
  assume "distinct bs"
  then have "length bs = card (set bs)" by (simp add: distinct_card)
  also have "\<dots> \<le> card (UNIV :: u16 set)" by (intro card_mono) auto
  also have "\<dots> = 65536" by (simp add: card_word)
  finally show ?thesis .
qed

lemma walk_path: "fat_path fat b bs \<Longrightarrow> length bs \<le> n \<Longrightarrow> walk n fat b = bs"
proof (induction bs arbitrary: b n)
  case Nil
  then show ?case by (cases n) auto
next
  case (Cons x bs)
  then show ?case by (cases n) auto
qed

lemma chain_of_eq: "fat_chain fat b bs \<Longrightarrow> chain_of fat b = bs"
proof -
  assume c: "fat_chain fat b bs"
  have "walk n fat 0 = []" for n by (cases n) auto
  moreover have "length bs \<le> 65536"
    by (rule length_distinct_u16 [OF fat_chain_distinct [OF c]])
  ultimately show ?thesis
    using c by (auto simp: fat_chain_def chain_of_def walk_path)
qed

lemma free_chain_path:
  "fat_path fat b bs \<Longrightarrow> free_chain fat b = (\<lambda>i. if i \<in> unat ` set bs then 0 else fat i)"
proof (induction bs arbitrary: fat b)
  case Nil
  then show ?case by (simp add: free_chain.simps [of fat FAT_END])
next
  case (Cons x xs)
  then have x: "b = x" "x \<noteq> 0" "x \<noteq> FAT_END" "fat_path fat (fat (unat x)) xs" by auto
  have "x \<notin> set xs" using fat_path_distinct [OF Cons.prems] by simp
  then have "fat_path (fat(unat x := FAT_FREE)) (fat (unat x)) xs"
    using x(4) by (subst fat_path_cong [of xs _ fat]) (auto simp flip: word_unat_eq_iff)
  note IH = Cons.IH [OF this]
  have "free_chain fat b = free_chain (fat(unat x := FAT_FREE)) (fat (unat x))"
    using x by (subst free_chain.simps) simp
  then show ?case
    unfolding IH by (auto simp: FAT_FREE_def fun_eq_iff)
qed

lemma free_chain_chain:
  "fat_chain fat b bs \<Longrightarrow> free_chain fat b = (\<lambda>i. if i \<in> unat ` set bs then 0 else fat i)"
  by (auto simp: fat_chain_def free_chain_path free_chain.simps [of fat 0])

lemma fat_path_extend:
  "fat_path fat x (cs @ [p]) \<Longrightarrow> b \<noteq> 0 \<Longrightarrow> b \<noteq> FAT_END \<Longrightarrow> b \<notin> set (cs @ [p]) \<Longrightarrow>
   fat_path (fat(unat b := FAT_END, unat p := b)) x (cs @ [p, b])"
proof (induction cs arbitrary: x)
  case Nil
  then show ?case by (auto simp: word_unat_eq_iff)
next
  case (Cons c cs)
  have "c \<noteq> p" using fat_path_distinct [OF Cons.prems(1)] by auto
  with Cons show ?case by (auto simp: word_unat_eq_iff)
qed

subsection \<open>Free blocks\<close>

definition free_blocks :: "(nat \<Rightarrow> u16) \<Rightarrow> nat \<Rightarrow> nat set" where
  "free_blocks fat n = {b. 1 \<le> b \<and> b \<le> n \<and> fat b = 0}"

lemma finite_free_blocks [simp]: "finite (free_blocks fat n)"
  by (rule finite_subset [of _ "{..n}"]) (auto simp: free_blocks_def)

lemma alloc_from_spec:
  "unat b + n \<le> 65536 \<Longrightarrow> 1 \<le> unat b \<Longrightarrow>
   (alloc_from fat n b = 0 \<and> (\<forall>k. unat b \<le> k \<and> k < unat b + n \<longrightarrow> fat k \<noteq> 0)) \<or>
   (alloc_from fat n b \<noteq> 0 \<and> unat b \<le> unat (alloc_from fat n b) \<and>
      unat (alloc_from fat n b) < unat b + n \<and> fat (unat (alloc_from fat n b)) = 0)"
proof (induction n arbitrary: b)
  case 0
  then show ?case by auto
next
  case (Suc n)
  have ub: "unat (ucast b :: u16) = unat b"
    using Suc.prems by (simp add: unsigned_ucast_eq take_bit_eq_mod)
  have b1: "unat (b + 1) = unat b + 1"
    using Suc.prems unat_add32 [of b 1] by simp
  show ?case
  proof (cases "fat (unat b) = 0")
    case True
    then show ?thesis
      using ub Suc.prems by (auto simp: FAT_FREE_def u16_eq_iff)
  next
    case False
    have "unat (b + 1) + n \<le> 65536" "1 \<le> unat (b + 1)" using b1 Suc.prems by auto
    from Suc.IH [OF this] show ?thesis
    proof
      assume a: "alloc_from fat n (b + 1) = 0 \<and> (\<forall>k. unat (b + 1) \<le> k \<and> k < unat (b + 1) + n \<longrightarrow> fat k \<noteq> 0)"
      have "fat k \<noteq> 0" if "unat b \<le> k" "k < unat b + Suc n" for k
        using a that False b1 by (cases "k = unat b") auto
      with a False show ?thesis by (simp add: FAT_FREE_def)
    next
      assume "alloc_from fat n (b + 1) \<noteq> 0 \<and> unat (b + 1) \<le> unat (alloc_from fat n (b + 1)) \<and>
        unat (alloc_from fat n (b + 1)) < unat (b + 1) + n \<and> fat (unat (alloc_from fat n (b + 1))) = 0"
      with False b1 show ?thesis by (simp add: FAT_FREE_def)
    qed
  qed
qed

lemma alloc_block_spec:
  assumes "unat (sb_data_blocks (fs_sb st)) \<le> 65534"
  shows "(alloc_block st = 0 \<and> free_blocks (fs_fat st) (unat (sb_data_blocks (fs_sb st))) = {}) \<or>
    (alloc_block st \<noteq> 0 \<and> alloc_block st \<noteq> FAT_END \<and>
     unat (alloc_block st) \<in> free_blocks (fs_fat st) (unat (sb_data_blocks (fs_sb st))))"
proof -
  let ?n = "unat (sb_data_blocks (fs_sb st))"
  have "unat (1 :: u32) + ?n \<le> 65536" "1 \<le> unat (1 :: u32)" using assms by simp_all
  note s = alloc_from_spec [OF this, of "fs_fat st"]
  have "alloc_block st \<noteq> FAT_END" if "unat (alloc_block st) < 1 + ?n"
    using that assms by (auto simp: FAT_END_def)
  with s show ?thesis
    unfolding alloc_block_def [symmetric] free_blocks_def by auto
qed

subsection \<open>The invariant of a volume\<close>

definition used :: "'s fsys \<Rightarrow> nat \<Rightarrow> bool" where
  "used st i \<longleftrightarrow> i < length (fs_dir st) \<and> de_used (fs_dir st ! i) \<noteq> 0"

definition name_of :: "'s fsys \<Rightarrow> nat \<Rightarrow> u8 list" where
  "name_of st i = cstr (de_name (fs_dir st ! i))"

definition blocks_of :: "'s fsys \<Rightarrow> nat \<Rightarrow> u16 list" where
  "blocks_of st i = chain_of (fs_fat st) (de_first (fs_dir st ! i))"

definition nblocks :: "'s fsys \<Rightarrow> nat" where
  "nblocks st = unat (sb_data_blocks (fs_sb st))"

definition linked :: "'s fsys \<Rightarrow> bool" where
  "linked st \<longleftrightarrow>
     length (fs_dir st) = 64 \<and> (\<forall>i < 64. length (de_name (fs_dir st ! i)) = 22) \<and>
     (\<forall>i. used st i \<longrightarrow> fat_chain (fs_fat st) (de_first (fs_dir st ! i)) (blocks_of st i) \<and>
        (\<forall>b \<in> set (blocks_of st i). unat b \<le> nblocks st)) \<and>
     (\<forall>i j. used st i \<longrightarrow> used st j \<longrightarrow> i \<noteq> j \<longrightarrow> set (blocks_of st i) \<inter> set (blocks_of st j) = {}) \<and>
     (\<forall>i j. used st i \<longrightarrow> used st j \<longrightarrow> name_of st i = name_of st j \<longrightarrow> i = j)"

definition sized :: "'s fsys \<Rightarrow> nat \<Rightarrow> bool" where
  "sized st i \<longleftrightarrow> length (blocks_of st i) = (unat (de_size (fs_dir st ! i)) + 511) div 512"

definition fs_inv :: "'s fsys \<Rightarrow> bool" where
  "fs_inv st \<longleftrightarrow> fs_mounted st \<and> linked st \<and> (\<forall>i. used st i \<longrightarrow> sized st i)"

text \<open>The regions of the volume, in order, inside a disk of \<open>c\<close> sectors.\<close>

definition layout_ok :: "superblock \<Rightarrow> nat \<Rightarrow> bool" where
  "layout_ok sb c \<longleftrightarrow>
     193 < unat (sb_fat_start sb) \<and>
     unat (sb_fat_start sb) + unat (sb_fat_sectors sb) \<le> unat (sb_dir_start sb) \<and>
     unat (sb_dir_start sb) + unat (sb_dir_sectors sb) \<le> unat (sb_data_start sb) \<and>
     unat (sb_data_start sb) + unat (sb_data_blocks sb) \<le> c \<and> c \<le> 268435456 \<and>
     unat (sb_data_blocks sb) < 256 * unat (sb_fat_sectors sb) \<and>
     unat (sb_data_blocks sb) \<le> 65534 \<and> unat (sb_dir_sectors sb) = 4"

definition volume_ok :: "('s \<Rightarrow> bool) \<Rightarrow> ('s \<Rightarrow> nat) \<Rightarrow> 's fsys \<Rightarrow> bool" where
  "volume_ok ready cap st \<longleftrightarrow> ready (fs_dev st) \<and> layout_ok (fs_sb st) (cap (fs_dev st))"

definition valid_name :: "u8 list \<Rightarrow> bool" where
  "valid_name n \<longleftrightarrow> n \<noteq> [] \<and> length n \<le> 21 \<and> 0 \<notin> set n"

definition blk :: "('s \<Rightarrow> u32 \<Rightarrow> u8 list) \<Rightarrow> 's fsys \<Rightarrow> u16 \<Rightarrow> u8 list" where
  "blk sector st b = sector (fs_dev st) (block_lba (fs_sb st) b)"

definition file_bytes :: "('s \<Rightarrow> u32 \<Rightarrow> u8 list) \<Rightarrow> 's fsys \<Rightarrow> nat \<Rightarrow> u8 list" where
  "file_bytes sector st i = take (unat (de_size (fs_dir st ! i))) (concat (map (blk sector st) (blocks_of st i)))"

text \<open>The abstraction: the files of a volume, by name.\<close>

definition contents :: "('s \<Rightarrow> u32 \<Rightarrow> u8 list) \<Rightarrow> 's fsys \<Rightarrow> u8 list \<Rightarrow> u8 list option" where
  "contents sector st name = map_option (file_bytes sector st) (find_entry st name)"

subsection \<open>Looking up a name\<close>

lemma cstr_no_zero: "0 \<notin> set (cstr bs)"
  unfolding cstr_def using set_takeWhileD by fastforce

lemma find_from_some:
  "0 \<notin> set name \<Longrightarrow> find_from es name k = Some i \<Longrightarrow>
   k \<le> i \<and> i - k < length es \<and> de_used (es ! (i - k)) \<noteq> 0 \<and> cstr (de_name (es ! (i - k))) = name"
proof (induction es arbitrary: k)
  case (Cons e es)
  show ?case
  proof (cases "de_used e \<noteq> 0 \<and> strcmp_bytes (cstr (de_name e)) name = 0")
    case True
    with Cons.prems cstr_no_zero show ?thesis by auto
  next
    case False
    then have "find_from es name (Suc k) = Some i" using Cons.prems(2) by auto
    with Cons.IH [OF Cons.prems(1)] have "Suc k \<le> i" "i - Suc k < length es"
        "de_used (es ! (i - Suc k)) \<noteq> 0 \<and> cstr (de_name (es ! (i - Suc k))) = name" by blast+
    moreover have "i - k = Suc (i - Suc k)" using \<open>Suc k \<le> i\<close> by simp
    ultimately show ?thesis by simp
  qed
qed simp

lemma find_from_none:
  "0 \<notin> set name \<Longrightarrow> find_from es name k = None \<Longrightarrow> e \<in> set es \<Longrightarrow> de_used e \<noteq> 0 \<Longrightarrow> cstr (de_name e) \<noteq> name"
proof (induction es arbitrary: k)
  case (Cons x es)
  then show ?case using cstr_no_zero by (auto split: if_splits)
qed simp

lemma find_entry_some: "0 \<notin> set name \<Longrightarrow> find_entry st name = Some i \<Longrightarrow> used st i \<and> name_of st i = name"
  unfolding find_entry_def used_def name_of_def using find_from_some [of name "fs_dir st" 0 i] by simp

lemma find_entry_none: "0 \<notin> set name \<Longrightarrow> find_entry st name = None \<Longrightarrow> used st i \<Longrightarrow> name_of st i \<noteq> name"
  unfolding find_entry_def used_def name_of_def using find_from_none [of name "fs_dir st" 0] by simp

lemma find_entry_iff:
  "linked st \<Longrightarrow> 0 \<notin> set name \<Longrightarrow> find_entry st name = Some i \<longleftrightarrow> used st i \<and> name_of st i = name"
proof
  assume a: "linked st" "0 \<notin> set name" "used st i \<and> name_of st i = name"
  then obtain j where j: "find_entry st name = Some j" using find_entry_none by blast
  then have "used st j" "name_of st j = name" using find_entry_some a(2) by blast+
  with a have "i = j" unfolding linked_def by blast
  with j show "find_entry st name = Some i" by simp
qed (use find_entry_some in blast)

lemma contents_some_iff:
  "linked st \<Longrightarrow> 0 \<notin> set name \<Longrightarrow>
   contents sector st name = Some bs \<longleftrightarrow> (\<exists>i. used st i \<and> name_of st i = name \<and> file_bytes sector st i = bs)"
  using find_entry_iff [of st name] by (auto simp: contents_def)

subsection \<open>Changing one entry\<close>

lemma relink:
  assumes lk: "linked st" and i: "i < 64"
    and dir: "fs_dir st' = (fs_dir st)[i := e]" "fs_sb st' = fs_sb st" "length (de_name e) = 22"
    and fat: "\<And>j b. used st j \<Longrightarrow> j \<noteq> i \<Longrightarrow> b \<in> set (blocks_of st j) \<Longrightarrow> fs_fat st' (unat b) = fs_fat st (unat b)"
    and chain: "de_used e \<noteq> 0 \<Longrightarrow> fat_chain (fs_fat st') (de_first e) cs"
    and range: "\<And>b. b \<in> set cs \<Longrightarrow> unat b \<le> nblocks st"
    and apart: "\<And>j b. used st j \<Longrightarrow> j \<noteq> i \<Longrightarrow> b \<in> set cs \<Longrightarrow> b \<notin> set (blocks_of st j)"
    and name: "\<And>j. de_used e \<noteq> 0 \<Longrightarrow> used st j \<Longrightarrow> j \<noteq> i \<Longrightarrow> name_of st j \<noteq> cstr (de_name e)"
  shows "linked st' \<and> (de_used e \<noteq> 0 \<longrightarrow> blocks_of st' i = cs) \<and>
    (\<forall>j. j \<noteq> i \<longrightarrow> used st' j = used st j \<and> (used st j \<longrightarrow> blocks_of st' j = blocks_of st j))"
proof -
  have len: "length (fs_dir st) = 64" using lk by (simp add: linked_def)
  have at: "fs_dir st' ! j = (if j = i then e else fs_dir st ! j)" for j
    using len i dir(1) by (cases "j < 64") auto
  have us: "used st' j = (if j = i then de_used e \<noteq> 0 else used st j)" for j
    using len i dir(1) by (auto simp: used_def at)
  have ni: "name_of st' j = (if j = i then cstr (de_name e) else name_of st j)" for j
    by (simp add: name_of_def at)
  have nb: "nblocks st' = nblocks st" by (simp add: nblocks_def dir(2))
  have bi: "blocks_of st' i = cs" if "de_used e \<noteq> 0"
    using chain_of_eq [OF chain [OF that]] by (simp add: blocks_of_def at)
  have old: "fat_chain (fs_fat st) (de_first (fs_dir st ! j)) (blocks_of st j)"
      "\<forall>b \<in> set (blocks_of st j). unat b \<le> nblocks st" if "used st j" for j
    using lk that unfolding linked_def by blast+
  have new: "fat_chain (fs_fat st') (de_first (fs_dir st' ! j)) (blocks_of st j)" if "used st j" "j \<noteq> i" for j
    using old(1) [OF that(1)] fat_chain_cong [of "blocks_of st j" "fs_fat st'" "fs_fat st"] fat [OF that] that(2)
    by (simp add: at)
  then have bj: "blocks_of st' j = blocks_of st j" if "used st j" "j \<noteq> i" for j
    using chain_of_eq [OF new [OF that]] by (simp add: blocks_of_def)
  have "linked st'"
    unfolding linked_def
  proof (intro conjI allI impI)
    show "length (fs_dir st') = 64" by (simp add: dir(1) len)
    show "length (de_name (fs_dir st' ! j)) = 22" if "j < 64" for j
      using lk that dir(3) by (auto simp: at linked_def)
    show "fat_chain (fs_fat st') (de_first (fs_dir st' ! j)) (blocks_of st' j)" if "used st' j" for j
      using that chain bi bj new by (cases "j = i") (auto simp: us at)
    show "\<forall>b \<in> set (blocks_of st' j). unat b \<le> nblocks st'" if "used st' j" for j
      using that range bi bj old(2) by (cases "j = i") (auto simp: us nb)
    show "set (blocks_of st' j) \<inter> set (blocks_of st' k) = {}" if "used st' j" "used st' k" "j \<noteq> k" for j k
    proof -
      have "set (blocks_of st j) \<inter> set (blocks_of st k) = {}" if "used st j" "used st k"
        using lk that \<open>j \<noteq> k\<close> unfolding linked_def by blast
      with that apart bi bj show ?thesis by (auto simp: us split: if_splits)
    qed
    show "j = k" if "used st' j" "used st' k" "name_of st' j = name_of st' k" for j k
    proof -
      have "j = k" if "used st j" "used st k" "name_of st j = name_of st k"
        using lk that unfolding linked_def by blast
      with that name show ?thesis unfolding us ni by (auto split: if_splits)
    qed
  qed
  with bi bj us show ?thesis by auto
qed

lemma linked_used: "used st i \<Longrightarrow> linked st \<Longrightarrow> i < 64"
  by (simp add: used_def linked_def)

lemma linked_chain: "linked st \<Longrightarrow> used st i \<Longrightarrow> fat_chain (fs_fat st) (de_first (fs_dir st ! i)) (blocks_of st i)"
  and linked_range: "linked st \<Longrightarrow> used st i \<Longrightarrow> b \<in> set (blocks_of st i) \<Longrightarrow> unat b \<le> nblocks st"
  and linked_apart: "linked st \<Longrightarrow> used st i \<Longrightarrow> used st j \<Longrightarrow> i \<noteq> j \<Longrightarrow> b \<in> set (blocks_of st i) \<Longrightarrow> b \<notin> set (blocks_of st j)"
  and linked_names: "linked st \<Longrightarrow> used st i \<Longrightarrow> used st j \<Longrightarrow> i \<noteq> j \<Longrightarrow> name_of st i \<noteq> name_of st j"
  and linked_field: "linked st \<Longrightarrow> i < 64 \<Longrightarrow> length (de_name (fs_dir st ! i)) = 22"
  unfolding linked_def by blast+

lemma linked_member: "linked st \<Longrightarrow> used st i \<Longrightarrow> b \<in> set (blocks_of st i) \<Longrightarrow>
  b \<noteq> 0 \<and> b \<noteq> FAT_END \<and> fs_fat st (unat b) \<noteq> 0"
  using fat_chain_member [OF linked_chain] by blast

definition free_in :: "'s fsys \<Rightarrow> nat set" where
  "free_in st = free_blocks (fs_fat st) (nblocks st)"

text \<open>\<open>st'\<close> has the files of \<open>st\<close>, entry \<open>i\<close> apart.\<close>

definition keeps :: "('s \<Rightarrow> u32 \<Rightarrow> u8 list) \<Rightarrow> nat \<Rightarrow> 's fsys \<Rightarrow> 's fsys \<Rightarrow> bool" where
  "keeps sector i st st' \<longleftrightarrow>
     fs_sb st' = fs_sb st \<and> fs_mounted st' = fs_mounted st \<and> length (fs_dir st') = length (fs_dir st) \<and>
     (\<forall>j. j \<noteq> i \<longrightarrow> fs_dir st' ! j = fs_dir st ! j \<and>
        (used st j \<longrightarrow> blocks_of st' j = blocks_of st j \<and>
           (\<forall>b \<in> set (blocks_of st j). blk sector st' b = blk sector st b)))"

lemma keeps_used: "keeps sector i st st' \<Longrightarrow> j \<noteq> i \<Longrightarrow> used st' j = used st j"
  by (simp add: keeps_def used_def)

lemma keeps_refl [simp]: "keeps sector i st st"
  by (simp add: keeps_def)

lemma keeps_trans: "keeps sector i st st' \<Longrightarrow> keeps sector i st' st'' \<Longrightarrow> keeps sector i st st''"
  using keeps_used [of sector i st st'] unfolding keeps_def by auto

lemma keeps_file: "keeps sector i st st' \<Longrightarrow> j \<noteq> i \<Longrightarrow> used st j \<Longrightarrow> file_bytes sector st' j = file_bytes sector st j"
  unfolding keeps_def file_bytes_def by (auto intro!: arg_cong [where f = concat] arg_cong2 [where f = take])

lemma keeps_contents:
  assumes "linked st" "linked st'" "keeps sector i st st'" "0 \<notin> set name" "name_of st' i \<noteq> name" "name_of st i \<noteq> name"
  shows "contents sector st' name = contents sector st name"
proof -
  have "used st' j \<and> name_of st' j = name \<longleftrightarrow> used st j \<and> name_of st j = name" for j
    using assms(3,5,6) keeps_used [OF assms(3)] by (cases "j = i") (auto simp: keeps_def name_of_def)
  then have "find_entry st' name = Some j \<longleftrightarrow> find_entry st name = Some j" for j
    using find_entry_iff [OF assms(1,4)] find_entry_iff [OF assms(2,4)] by blast
  then have f: "find_entry st' name = find_entry st name"
    by (metis not_None_eq)
  show ?thesis
  proof (cases "find_entry st name")
    case None
    then show ?thesis by (simp add: contents_def f)
  next
    case (Some j)
    then have "used st j" "j \<noteq> i" using find_entry_iff [OF assms(1,4)] assms(6) by blast+
    with Some keeps_file [OF assms(3)] show ?thesis by (simp add: contents_def f)
  qed
qed

subsection \<open>Dropping a chain, linking a block\<close>

lemma drop_chain_correct:
  assumes lk: "linked st" and u: "used st i"
  shows "linked (drop_chain i len st) \<and> blocks_of (drop_chain i len st) i = [] \<and>
    keeps sector i st (drop_chain i len st) \<and> used (drop_chain i len st) i \<and>
    name_of (drop_chain i len st) i = name_of st i \<and> de_size (fs_dir (drop_chain i len st) ! i) = len \<and>
    free_in (drop_chain i len st) = free_in st \<union> unat ` set (blocks_of st i) \<and> fs_dev (drop_chain i len st) = fs_dev st"
proof -
  let ?st = "drop_chain i len st"
  let ?e = "(fs_dir st ! i)\<lparr>de_first := 0, de_size := len\<rparr>"
  have i: "i < 64" "length (fs_dir st) = 64" using lk u by (auto simp: used_def linked_def)
  have fat: "fs_fat ?st = (\<lambda>k. if k \<in> unat ` set (blocks_of st i) then 0 else fs_fat st k)"
    using free_chain_chain [OF linked_chain [OF lk u]] by (simp add: drop_chain_def upd_entry_def)
  have dir: "fs_dir ?st = (fs_dir st)[i := ?e]" "fs_sb ?st = fs_sb st" "fs_mounted ?st = fs_mounted st"
      "fs_dev ?st = fs_dev st"
    by (simp_all add: drop_chain_def upd_entry_def)
  have re: "linked ?st \<and> (de_used ?e \<noteq> 0 \<longrightarrow> blocks_of ?st i = []) \<and>
    (\<forall>j. j \<noteq> i \<longrightarrow> used ?st j = used st j \<and> (used st j \<longrightarrow> blocks_of ?st j = blocks_of st j))"
  proof (rule relink [OF lk i(1) dir(1,2)])
    show "length (de_name ?e) = 22" using linked_field [OF lk i(1)] by simp
    show "fs_fat ?st (unat b) = fs_fat st (unat b)"
      if "used st j" "j \<noteq> i" "b \<in> set (blocks_of st j)" for j b
      using linked_apart [OF lk that(1) u that(2,3)] by (auto simp: fat simp flip: word_unat_eq_iff)
    show "fat_chain (fs_fat ?st) (de_first ?e) []" by (simp add: fat_chain_def)
    show "name_of st j \<noteq> cstr (de_name ?e)" if "used st j" "j \<noteq> i" for j
      using linked_names [OF lk that(1) u that(2)] by (simp add: name_of_def)
  qed auto
  have "nblocks ?st = nblocks st" by (simp add: nblocks_def dir)
  then have "free_in ?st = free_in st \<union> unat ` set (blocks_of st i)"
    using linked_range [OF lk u] linked_member [OF lk u]
    by (auto simp: free_in_def free_blocks_def fat unsigned_eq_0_iff Suc_le_eq unat_gt_0)
  moreover have "keeps sector i st ?st"
    using re by (auto simp: keeps_def dir blk_def)
  ultimately show ?thesis
    using re u i by (auto simp: used_def name_of_def dir)
qed

lemma link_block_correct:
  assumes lk: "linked st" and u: "used st i" and b: "unat b \<in> free_in st" "b \<noteq> 0" "b \<noteq> FAT_END"
    and prev: "prev = (if blocks_of st i = [] then 0 else last (blocks_of st i))"
  shows "linked (link_block i prev b st) \<and> blocks_of (link_block i prev b st) i = blocks_of st i @ [b] \<and>
    keeps sector i st (link_block i prev b st) \<and> used (link_block i prev b st) i \<and>
    name_of (link_block i prev b st) i = name_of st i \<and>
    de_size (fs_dir (link_block i prev b st) ! i) = de_size (fs_dir st ! i) \<and>
    free_in (link_block i prev b st) = free_in st - {unat b} \<and> fs_dev (link_block i prev b st) = fs_dev st"
proof -
  let ?st = "link_block i prev b st" and ?cs = "blocks_of st i"
  have i: "i < 64" "length (fs_dir st) = 64" using lk u by (auto simp: used_def linked_def)
  note ch = linked_chain [OF lk u]
  have bfree: "fs_fat st (unat b) = 0" "1 \<le> unat b" "unat b \<le> nblocks st"
    using b(1) by (auto simp: free_in_def free_blocks_def)
  have bnew: "b \<notin> set (blocks_of st j)" if "used st j" for j
    using linked_member [OF lk that] bfree(1) by blast
  have dev: "fs_dev ?st = fs_dev st" "fs_sb ?st = fs_sb st" "fs_mounted ?st = fs_mounted st"
    by (simp_all add: link_block_def set_fat_def upd_entry_def Let_def)
  obtain e where e: "fs_dir ?st = (fs_dir st)[i := e]" "de_name e = de_name (fs_dir st ! i)"
      "de_used e = de_used (fs_dir st ! i)" "de_size e = de_size (fs_dir st ! i)"
      "fat_chain (fs_fat ?st) (de_first e) (?cs @ [b])"
      "\<And>k. fs_fat ?st k = (if k = unat b then FAT_END else if ?cs \<noteq> [] \<and> k = unat prev then b else fs_fat st k)"
  proof (cases "?cs = []")
    case True
    have "fat_path ((fs_fat st)(unat b := FAT_END)) b [b]" using b by simp
    then have "fat_chain (fs_fat ?st) b (?cs @ [b])"
      using True prev by (simp add: link_block_def set_fat_def upd_entry_def fat_chain_def)
    then show thesis
      using True prev by (intro that [of "(fs_dir st ! i)\<lparr>de_first := b\<rparr>"])
        (simp_all add: link_block_def set_fat_def upd_entry_def)
  next
    case False
    then obtain ds p where cs: "?cs = ds @ [p]" by (meson rev_exhaust)
    then have p: "p = prev" "p \<noteq> 0" "b \<noteq> p"
      using prev linked_member [OF lk u, of p] bnew [OF u] by auto
    have "fat_path (fs_fat st) (de_first (fs_dir st ! i)) (ds @ [p])"
      using ch cs by (simp add: fat_chain_def)
    from fat_path_extend [OF this b(2,3)] bnew [OF u] cs
    have "fat_path ((fs_fat st)(unat b := FAT_END, unat p := b)) (de_first (fs_dir st ! i)) (?cs @ [b])" by simp
    then have "fat_chain (fs_fat ?st) (de_first (fs_dir st ! i)) (?cs @ [b])"
      using p by (simp add: link_block_def set_fat_def fat_chain_def)
    then show thesis
      using p False i by (intro that [of "fs_dir st ! i"])
        (auto simp: link_block_def set_fat_def word_unat_eq_iff)
  qed
  have re: "linked ?st \<and> (de_used e \<noteq> 0 \<longrightarrow> blocks_of ?st i = ?cs @ [b]) \<and>
    (\<forall>j. j \<noteq> i \<longrightarrow> used ?st j = used st j \<and> (used st j \<longrightarrow> blocks_of ?st j = blocks_of st j))"
  proof (rule relink [OF lk i(1) e(1) dev(2)])
    show "length (de_name e) = 22" using linked_field [OF lk i(1)] e(2) by simp
    show "fs_fat ?st (unat c) = fs_fat st (unat c)"
      if "used st j" "j \<noteq> i" "c \<in> set (blocks_of st j)" for j c
    proof -
      have "c \<noteq> b" using bnew [OF that(1)] that(3) by blast
      moreover have "?cs \<noteq> [] \<Longrightarrow> c \<noteq> prev"
        using linked_apart [OF lk that(1) u that(2,3)] prev by auto
      ultimately show ?thesis by (auto simp: e(6) simp flip: word_unat_eq_iff)
    qed
    show "fat_chain (fs_fat ?st) (de_first e) (?cs @ [b])" by (rule e(5))
    show "unat c \<le> nblocks st" if "c \<in> set (?cs @ [b])" for c
      using that linked_range [OF lk u] bfree(3) by auto
    show "c \<notin> set (blocks_of st j)" if "used st j" "j \<noteq> i" "c \<in> set (?cs @ [b])" for j c
      using that bnew linked_apart [OF lk u that(1)] by auto
    show "name_of st j \<noteq> cstr (de_name e)" if "used st j" "j \<noteq> i" for j
      using linked_names [OF lk that(1) u that(2)] e(2) by (simp add: name_of_def)
  qed
  have "fs_fat st (unat prev) \<noteq> 0" if "?cs \<noteq> []"
    using linked_member [OF lk u] prev that by simp
  then have "free_in ?st = free_in st - {unat b}"
    using b(2) by (auto simp: free_in_def free_blocks_def e(6) nblocks_def dev FAT_END_def)
  moreover have "keeps sector i st ?st"
    using re i by (auto simp: keeps_def dev e(1) blk_def)
  ultimately show ?thesis
    using re u i e(2-4) dev by (auto simp: used_def name_of_def e(1))
qed

subsection \<open>Disk regions\<close>

lemma unat_block_lba:
  assumes "layout_ok sb c" "1 \<le> unat b" "unat b \<le> unat (sb_data_blocks sb)"
  shows "unat (block_lba sb b) = unat (sb_data_start sb) + unat b - 1"
proof -
  have "unat (ucast b :: u32) = unat b"
    using unat_lt16 [of b] by (simp add: unsigned_ucast_eq take_bit_eq_mod)
  then have "unat (ucast b - 1 :: u32) = unat b - 1"
    using assms(2) unat_sub32 [of 1 "ucast b"] by simp
  moreover have "unat (sb_data_start sb) + unat (sb_data_blocks sb) \<le> 268435456"
    using assms(1) by (auto simp: layout_ok_def)
  then have "unat (sb_data_start sb) + (unat b - 1) < 4294967296"
    using assms(2,3) by linarith
  ultimately show ?thesis
    using unat_add32 [of "sb_data_start sb" "ucast b - 1"] assms(2) by (simp add: block_lba_def)
qed

lemma length_fat_sector [simp]: "length (fat_sector fat s) = 512"
  by (simp add: fat_sector_def length_concat word_bytes_def comp_def sum_list_triv)

lemma length_dirent_bytes: "length (de_name e) = 22 \<Longrightarrow> length (dirent_bytes e) = 32"
  by (simp add: dirent_bytes_def le4_def word_bytes_def)

lemma length_dir_sector:
  assumes "length dir = 64" "\<forall>i < 64. length (de_name (dir ! i)) = 22" "s < 4"
  shows "length (dir_sector dir s) = 512"
proof -
  have "length (concat (map dirent_bytes es)) = 32 * length es" if "\<forall>e \<in> set es. length (de_name e) = 22" for es
    using that by (induction es) (auto simp: length_dirent_bytes)
  moreover have "\<forall>e \<in> set dir. length (de_name e) = 22"
    using assms(1,2) by (metis in_set_conv_nth)
  ultimately have "length (concat (map dirent_bytes dir)) = 2048" using assms(1) by simp
  then show ?thesis using assms(3) by (simp add: dir_sector_def)
qed

lemma last_fat_sector:
  assumes "layout_ok sb c"
  shows "unat (sb_data_blocks sb * 2 div BLOCK_SIZE) = unat (sb_data_blocks sb) div 256 \<and>
    unat (sb_data_blocks sb) div 256 < unat (sb_fat_sectors sb)"
proof -
  have "unat (sb_data_blocks sb * 2) = unat (sb_data_blocks sb) * 2"
    using assms by (intro trans [OF unat_mult32]) (auto simp: layout_ok_def)
  moreover have "unat (sb_data_blocks sb) div 256 < unat (sb_fat_sectors sb)"
    using assms by (intro less_mult_imp_div_less) (simp add: layout_ok_def mult.commute)
  ultimately show ?thesis
    by (simp add: BLOCK_SIZE_def unat_div_distrib)
qed

text \<open>A step that leaves the data region alone keeps every file.\<close>

definition same_data :: "('s \<Rightarrow> u32 \<Rightarrow> u8 list) \<Rightarrow> 's fsys \<Rightarrow> 's \<Rightarrow> bool" where
  "same_data sector st d \<longleftrightarrow>
     (\<forall>b. 1 \<le> unat b \<and> unat b \<le> nblocks st \<longrightarrow>
        sector d (block_lba (fs_sb st) b) = sector (fs_dev st) (block_lba (fs_sb st) b))"

lemma dev_update [simp]:
  "used (st\<lparr>fs_dev := d\<rparr>) = used st" "name_of (st\<lparr>fs_dev := d\<rparr>) = name_of st"
  "blocks_of (st\<lparr>fs_dev := d\<rparr>) = blocks_of st" "nblocks (st\<lparr>fs_dev := d\<rparr>) = nblocks st"
  "linked (st\<lparr>fs_dev := d\<rparr>) = linked st" "sized (st\<lparr>fs_dev := d\<rparr>) = sized st"
  "free_in (st\<lparr>fs_dev := d\<rparr>) = free_in st" "fs_inv (st\<lparr>fs_dev := d\<rparr>) = fs_inv st"
  "find_entry (st\<lparr>fs_dev := d\<rparr>) = find_entry st"
  by (auto simp: used_def name_of_def blocks_of_def nblocks_def linked_def sized_def free_in_def
      fs_inv_def find_entry_def fun_eq_iff)

lemma sect_update [simp]:
  "used (st\<lparr>fs_sect := s\<rparr>) = used st" "name_of (st\<lparr>fs_sect := s\<rparr>) = name_of st"
  "blocks_of (st\<lparr>fs_sect := s\<rparr>) = blocks_of st" "nblocks (st\<lparr>fs_sect := s\<rparr>) = nblocks st"
  "linked (st\<lparr>fs_sect := s\<rparr>) = linked st" "sized (st\<lparr>fs_sect := s\<rparr>) = sized st"
  "free_in (st\<lparr>fs_sect := s\<rparr>) = free_in st" "fs_inv (st\<lparr>fs_sect := s\<rparr>) = fs_inv st"
  "find_entry (st\<lparr>fs_sect := s\<rparr>) = find_entry st"
  "blk sector (st\<lparr>fs_sect := s\<rparr>) = blk sector st"
  "volume_ok ready cap (st\<lparr>fs_sect := s\<rparr>) = volume_ok ready cap st"
  by (auto simp: used_def name_of_def blocks_of_def nblocks_def linked_def sized_def free_in_def
      fs_inv_def find_entry_def blk_def volume_ok_def fun_eq_iff)

lemma linked_block_range: "linked st \<Longrightarrow> used st j \<Longrightarrow> b \<in> set (blocks_of st j) \<Longrightarrow> 1 \<le> unat b \<and> unat b \<le> nblocks st"
  using linked_member [of st j b] linked_range [of st j b] by (simp add: Suc_le_eq unat_gt_0)

lemma same_data_blk:
  "linked st \<Longrightarrow> same_data sector st d \<Longrightarrow> used st j \<Longrightarrow> b \<in> set (blocks_of st j) \<Longrightarrow>
   blk sector (st\<lparr>fs_dev := d\<rparr>) b = blk sector st b"
  using linked_block_range [of st j b] by (simp add: same_data_def blk_def)

lemma same_data_keeps:
  "linked st \<Longrightarrow> same_data sector st d \<Longrightarrow> keeps sector i st (st\<lparr>fs_dev := d\<rparr>)"
  by (auto simp: keeps_def intro: same_data_blk)

lemma same_data_file:
  "linked st \<Longrightarrow> same_data sector st d \<Longrightarrow> used st i \<Longrightarrow>
   file_bytes sector (st\<lparr>fs_dev := d\<rparr>) i = file_bytes sector st i"
  using same_data_blk unfolding file_bytes_def
  by (auto intro!: arg_cong [where f = concat] arg_cong2 [where f = take])

lemma same_data_contents:
  "linked st \<Longrightarrow> same_data sector st d \<Longrightarrow> 0 \<notin> set name \<Longrightarrow>
   contents sector (st\<lparr>fs_dev := d\<rparr>) name = contents sector st name"
  by (cases "find_entry st name") (auto simp: contents_def dest: find_entry_some intro: same_data_file)

text \<open>Entry \<open>i\<close> grew by the blocks \<open>cs\<close>, nothing else changed.\<close>

definition extended :: "('s \<Rightarrow> u32 \<Rightarrow> u8 list) \<Rightarrow> nat \<Rightarrow> 's fsys \<Rightarrow> u16 list \<Rightarrow> 's fsys \<Rightarrow> bool" where
  "extended sector i st cs st' \<longleftrightarrow>
     keeps sector i st st' \<and> linked st' \<and> used st' i \<and> name_of st' i = name_of st i \<and>
     de_size (fs_dir st' ! i) = de_size (fs_dir st ! i) \<and>
     blocks_of st' i = blocks_of st i @ cs \<and> free_in st' = free_in st - unat ` set cs \<and>
     (\<forall>c \<in> set (blocks_of st i). blk sector st' c = blk sector st c)"

lemma extended_refl: "linked st \<Longrightarrow> used st i \<Longrightarrow> extended sector i st [] st"
  by (simp add: extended_def)

lemma extended_trans:
  "extended sector i st cs st' \<Longrightarrow> extended sector i st' ds st'' \<Longrightarrow> extended sector i st (cs @ ds) st''"
  unfolding extended_def using keeps_trans by fastforce

definition blocks_for :: "nat \<Rightarrow> nat" where
  "blocks_for n = (n + 511) div 512"

lemma blocks_for_0 [simp]: "blocks_for 0 = 0"
  by (simp add: blocks_for_def)

lemma blocks_for_step: "0 < n \<Longrightarrow> blocks_for n = Suc (blocks_for (n - min n 512))"
  by (cases "n \<le> 512") (auto simp: blocks_for_def min_def)

lemma unat_chunk_len: "unat (chunk_len r) = min (unat r) 512"
  by (auto simp: chunk_len_def BLOCK_SIZE_def word_less_nat_alt)

lemma take_chunk:
  assumes "length inp = r" "n = min r 512" "length rest = 512 * blocks_for (r - n)" "take (r - n) rest = drop n inp"
  shows "take r ((take n inp @ replicate (512 - n) 0) @ rest) = inp"
proof (cases "r \<le> 512")
  case True
  with assms(1,2) show ?thesis by simp
next
  case False
  then have "n = 512" using assms(2) by simp
  with assms(1,4) False show ?thesis by simp
qed

subsection \<open>The operations on any sector disk\<close>

context sector_disk
begin

lemma flush_fat_ok:
  assumes "volume_ok ready cap st"
  shows "\<exists>d. flush_fat_range wr 0 (sb_data_blocks (fs_sb st)) st = (0, st\<lparr>fs_dev := d\<rparr>) \<and>
    volume_ok ready cap (st\<lparr>fs_dev := d\<rparr>) \<and> cap d = cap (fs_dev st) \<and> same_data sector st d"
proof -
  let ?sb = "fs_sb st" and ?k = "unat (sb_data_blocks (fs_sb st)) div 256"
  let ?cs = "map (fat_sector (fs_fat st)) [0 ..< ?k + 1]"
  have r: "ready (fs_dev st)" and lay: "layout_ok ?sb (cap (fs_dev st))"
    using assms by (simp_all add: volume_ok_def)
  note lf = last_fat_sector [OF lay]
  have "unat (sb_fat_start ?sb) + length ?cs \<le> cap (fs_dev st)"
      "cap (fs_dev st) \<le> 4294967296" "\<forall>c \<in> set ?cs. length c = 512"
    using lay lf by (auto simp: layout_ok_def)
  from wr_run_ok [OF r this] obtain d where
    d: "wr_run wr (sb_fat_start ?sb) ?cs (fs_dev st) = (0, d)" "ready d" "cap d = cap (fs_dev st)"
      "\<And>k. unat k < cap (fs_dev st) \<Longrightarrow>
         sector d k = (if unat (sb_fat_start ?sb) \<le> unat k \<and> unat k < unat (sb_fat_start ?sb) + length ?cs
                       then ?cs ! (unat k - unat (sb_fat_start ?sb)) else sector (fs_dev st) k)"
    by auto
  have "flush_fat_range wr 0 (sb_data_blocks ?sb) st = (0, st\<lparr>fs_dev := d\<rparr>)"
    using d(1) lf by (simp add: flush_fat_range_def)
  moreover have "same_data sector st d"
    unfolding same_data_def
  proof (intro allI impI)
    fix b :: u16 assume b: "1 \<le> unat b \<and> unat b \<le> nblocks st"
    have u: "unat (block_lba ?sb b) = unat (sb_data_start ?sb) + unat b - 1"
      using unat_block_lba [OF lay] b by (simp add: nblocks_def)
    show "sector d (block_lba ?sb b) = sector (fs_dev st) (block_lba ?sb b)"
      using d(4) [of "block_lba ?sb b"] u b lay lf by (auto simp: layout_ok_def nblocks_def)
  qed
  ultimately show ?thesis
    using d(2,3) lay by (auto simp: volume_ok_def)
qed

lemma flush_dir_ok:
  assumes "volume_ok ready cap st" "linked st"
  shows "\<exists>d. flush_dir wr st = (0, st\<lparr>fs_dev := d\<rparr>) \<and>
    volume_ok ready cap (st\<lparr>fs_dev := d\<rparr>) \<and> cap d = cap (fs_dev st) \<and> same_data sector st d"
proof -
  let ?sb = "fs_sb st"
  let ?cs = "map (dir_sector (fs_dir st)) [0 ..< unat (sb_dir_sectors ?sb)]"
  have r: "ready (fs_dev st)" and lay: "layout_ok ?sb (cap (fs_dev st))"
    using assms by (simp_all add: volume_ok_def)
  have "unat (sb_dir_start ?sb) + length ?cs \<le> cap (fs_dev st)"
      "cap (fs_dev st) \<le> 4294967296" "\<forall>c \<in> set ?cs. length c = 512"
    using lay assms(2) length_dir_sector [of "fs_dir st"] by (auto simp: layout_ok_def linked_def)
  from wr_run_ok [OF r this] obtain d where
    d: "wr_run wr (sb_dir_start ?sb) ?cs (fs_dev st) = (0, d)" "ready d" "cap d = cap (fs_dev st)"
      "\<And>k. unat k < cap (fs_dev st) \<Longrightarrow>
         sector d k = (if unat (sb_dir_start ?sb) \<le> unat k \<and> unat k < unat (sb_dir_start ?sb) + length ?cs
                       then ?cs ! (unat k - unat (sb_dir_start ?sb)) else sector (fs_dev st) k)"
    by auto
  have "flush_dir wr st = (0, st\<lparr>fs_dev := d\<rparr>)"
    using d(1) by (simp add: flush_dir_def)
  moreover have "same_data sector st d"
    unfolding same_data_def
  proof (intro allI impI)
    fix b :: u16 assume b: "1 \<le> unat b \<and> unat b \<le> nblocks st"
    have u: "unat (block_lba ?sb b) = unat (sb_data_start ?sb) + unat b - 1"
      using unat_block_lba [OF lay] b by (simp add: nblocks_def)
    show "sector d (block_lba ?sb b) = sector (fs_dev st) (block_lba ?sb b)"
      using d(4) [of "block_lba ?sb b"] u b lay by (auto simp: layout_ok_def nblocks_def)
  qed
  ultimately show ?thesis
    using d(2,3) lay by (auto simp: volume_ok_def)
qed

lemma same_data_trans: "same_data sector st d \<Longrightarrow> same_data sector (st\<lparr>fs_dev := d\<rparr>) d' \<Longrightarrow> same_data sector st d'"
  by (simp add: same_data_def)

lemma flush_all_ok:
  assumes "volume_ok ready cap st" "linked st"
  shows "\<exists>d. flush_all wr st = (0, st\<lparr>fs_dev := d\<rparr>) \<and>
    volume_ok ready cap (st\<lparr>fs_dev := d\<rparr>) \<and> same_data sector st d"
proof -
  obtain d where d: "flush_fat_range wr 0 (sb_data_blocks (fs_sb st)) st = (0, st\<lparr>fs_dev := d\<rparr>)"
      "volume_ok ready cap (st\<lparr>fs_dev := d\<rparr>)" "same_data sector st d"
    using flush_fat_ok [OF assms(1)] by blast
  obtain d' where "flush_dir wr (st\<lparr>fs_dev := d\<rparr>) = (0, st\<lparr>fs_dev := d'\<rparr>)"
      "volume_ok ready cap (st\<lparr>fs_dev := d'\<rparr>)" "same_data sector (st\<lparr>fs_dev := d\<rparr>) d'"
    using flush_dir_ok [OF d(2)] assms(2) by auto
  with d same_data_trans show ?thesis by (auto simp: flush_all_def)
qed

lemma roll_back_ok:
  assumes "volume_ok ready cap st" "linked st" "used st i"
  shows "\<exists>st'. roll_back wr i st = st' \<and> volume_ok ready cap st' \<and> linked st' \<and> keeps sector i st st' \<and>
    used st' i \<and> name_of st' i = name_of st i \<and> blocks_of st' i = [] \<and> de_size (fs_dir st' ! i) = 0"
proof -
  let ?st = "drop_chain i 0 st"
  note dc = drop_chain_correct [OF assms(2,3), where sector = sector and len = 0]
  have lk: "linked ?st" and kp: "keeps sector i st ?st" and dev: "fs_dev ?st = fs_dev st"
    using dc by blast+
  have sb: "fs_sb ?st = fs_sb st" by (simp add: drop_chain_def upd_entry_def)
  have vol: "volume_ok ready cap ?st" using assms(1) dev sb by (simp add: volume_ok_def)
  obtain d where d: "flush_fat_range wr 0 (sb_data_blocks (fs_sb st)) ?st = (0, ?st\<lparr>fs_dev := d\<rparr>)"
      "volume_ok ready cap (?st\<lparr>fs_dev := d\<rparr>)" "same_data sector ?st d"
    using flush_fat_ok [OF vol] sb by auto
  obtain d' where d': "flush_dir wr (?st\<lparr>fs_dev := d\<rparr>) = (0, ?st\<lparr>fs_dev := d'\<rparr>)"
      "volume_ok ready cap (?st\<lparr>fs_dev := d'\<rparr>)" "same_data sector (?st\<lparr>fs_dev := d\<rparr>) d'"
    using flush_dir_ok [OF d(2)] lk by auto
  have "keeps sector i st (?st\<lparr>fs_dev := d'\<rparr>)"
    using keeps_trans [OF kp same_data_keeps [OF lk same_data_trans [OF d(3) d'(3)]]] .
  moreover have "roll_back wr i st = ?st\<lparr>fs_dev := d'\<rparr>"
    using d(1) d'(1) by (simp add: roll_back_def)
  ultimately show ?thesis
    using dc d'(2) by (intro exI [of _ "?st\<lparr>fs_dev := d'\<rparr>"]) simp
qed

lemma write_step:
  assumes vol: "volume_ok ready cap st" and lk: "linked st" and u: "used st i"
    and prev: "prev = (if blocks_of st i = [] then 0 else last (blocks_of st i))"
    and b: "b = alloc_block st" "b \<noteq> 0" and sect: "length sect = 512"
  shows "\<exists>d. wr (block_lba (fs_sb (link_block i prev b st)) b) sect (fs_dev (link_block i prev b st)) = (0, d) \<and>
    volume_ok ready cap ((link_block i prev b st)\<lparr>fs_sect := sect, fs_dev := d\<rparr>) \<and>
    extended sector i st [b] ((link_block i prev b st)\<lparr>fs_sect := sect, fs_dev := d\<rparr>) \<and>
    blk sector ((link_block i prev b st)\<lparr>fs_sect := sect, fs_dev := d\<rparr>) b = sect \<and> unat b \<in> free_in st"
proof -
  let ?st = "link_block i prev b st"
  have r: "ready (fs_dev st)" and lay: "layout_ok (fs_sb st) (cap (fs_dev st))"
    using vol by (simp_all add: volume_ok_def)
  have "unat (sb_data_blocks (fs_sb st)) \<le> 65534" using lay by (simp add: layout_ok_def)
  from alloc_block_spec [OF this] b
  have free: "unat b \<in> free_in st" "b \<noteq> FAT_END" by (auto simp: free_in_def nblocks_def)
  then have rng: "1 \<le> unat b" "unat b \<le> nblocks st" by (auto simp: free_in_def free_blocks_def)
  note lb = link_block_correct [OF lk u free(1) b(2) free(2) prev, where sector = sector]
  have sb: "fs_sb ?st = fs_sb st" by (simp add: link_block_def set_fat_def upd_entry_def Let_def)
  have dev: "fs_dev ?st = fs_dev st" using lb by blast
  have lba: "unat (block_lba (fs_sb st) c) = unat (sb_data_start (fs_sb st)) + unat c - 1"
    if "1 \<le> unat c" "unat c \<le> nblocks st" for c
    using unat_block_lba [OF lay that(1)] that(2) by (simp add: nblocks_def)
  have inside: "unat (block_lba (fs_sb st) c) < cap (fs_dev st)" if "1 \<le> unat c" "unat c \<le> nblocks st" for c
    using lba [OF that] that lay by (auto simp: layout_ok_def nblocks_def)
  from wr_ok [OF r inside [OF rng] sect] obtain d where
    d: "wr (block_lba (fs_sb st) b) sect (fs_dev st) = (0, d)" "ready d" "cap d = cap (fs_dev st)"
      "\<And>k. unat k < cap (fs_dev st) \<Longrightarrow>
         sector d k = (if k = block_lba (fs_sb st) b then sect else sector (fs_dev st) k)" by blast
  let ?st2 = "?st\<lparr>fs_sect := sect, fs_dev := d\<rparr>"
  have new: "blk sector ?st2 b = sect"
    using d(4) [OF inside [OF rng]] by (simp add: blk_def sb)
  have old: "blk sector ?st2 c = blk sector st c" if "used st j" "c \<in> set (blocks_of st j)" for j c
  proof -
    note rc = linked_block_range [OF lk that]
    have "c \<noteq> b" using linked_member [OF lk that] free(1) by (auto simp: free_in_def free_blocks_def)
    then have "block_lba (fs_sb st) c \<noteq> block_lba (fs_sb st) b"
      using lba [of c] lba [OF rng] rc rng by (auto simp: word_unat_eq_iff)
    then show ?thesis
      using d(4) [OF inside [of c]] rc by (simp add: blk_def sb)
  qed
  have "keeps sector i st ?st2"
    using lb old by (auto simp: keeps_def sb)
  then have "extended sector i st [b] ?st2"
    using lb old u by (simp add: extended_def)
  moreover have "volume_ok ready cap ?st2"
    using d(2,3) lay by (simp add: volume_ok_def sb)
  ultimately show ?thesis
    using d(1) new free(1) dev sb by auto
qed

lemma write_loop_ok:
  "volume_ok ready cap st \<Longrightarrow> linked st \<Longrightarrow> used st i \<Longrightarrow>
   prev = (if blocks_of st i = [] then 0 else last (blocks_of st i)) \<Longrightarrow> length inp = unat remaining \<Longrightarrow>
   blocks_for (unat remaining) \<le> card (free_in st) \<Longrightarrow>
   \<exists>st' cs. write_loop wr i prev inp remaining st = (0, st') \<and> volume_ok ready cap st' \<and>
     extended sector i st cs st' \<and> length cs = blocks_for (unat remaining) \<and>
     take (unat remaining) (concat (map (blk sector st') cs)) = inp"
proof (induction "unat remaining" arbitrary: prev inp remaining st rule: less_induct)
  case less
  show ?case
  proof (cases "remaining = 0")
    case True
    then have "write_loop wr i prev inp remaining st = (0, st)"
      by (simp add: write_loop.simps [of wr i prev inp])
    with less.prems True show ?thesis
      by (intro exI [of _ st] exI [of _ "[]"]) (simp add: extended_refl)
  next
    case False
    then have pos: "0 < unat remaining" by (simp add: unat_gt_0)
    let ?b = "alloc_block st" and ?n = "chunk_len remaining"
    let ?sect = "take (unat ?n) inp @ replicate (512 - unat ?n) 0"
    note need = blocks_for_step [OF pos]
    have "unat (sb_data_blocks (fs_sb st)) \<le> 65534"
      using less.prems(1) by (simp add: volume_ok_def layout_ok_def)
    from alloc_block_spec [OF this] less.prems(6) need
    have b: "?b \<noteq> 0" by (auto simp: free_in_def nblocks_def)
    have len: "length ?sect = 512" using less.prems(5) by (simp add: unat_chunk_len)
    obtain d where d: "wr (block_lba (fs_sb (link_block i prev ?b st)) ?b) ?sect (fs_dev (link_block i prev ?b st)) = (0, d)"
        "volume_ok ready cap ((link_block i prev ?b st)\<lparr>fs_sect := ?sect, fs_dev := d\<rparr>)"
        "extended sector i st [?b] ((link_block i prev ?b st)\<lparr>fs_sect := ?sect, fs_dev := d\<rparr>)"
        "blk sector ((link_block i prev ?b st)\<lparr>fs_sect := ?sect, fs_dev := d\<rparr>) ?b = ?sect" "unat ?b \<in> free_in st"
      using write_step [OF less.prems(1-4) refl b len] by blast
    let ?st2 = "(link_block i prev ?b st)\<lparr>fs_sect := ?sect, fs_dev := d\<rparr>"
    have run: "write_loop wr i prev inp remaining st =
        write_loop wr i ?b (drop (unat ?n) inp) (remaining - ?n) ?st2"
      using False b d(1) by (subst write_loop.simps) (simp add: Let_def)
    have rem: "unat (remaining - ?n) = unat remaining - unat ?n"
      by (rule unat_sub32) (simp add: unat_chunk_len)
    have lk2: "linked ?st2" "used ?st2 i" "blocks_of ?st2 i = blocks_of st i @ [?b]"
        "free_in ?st2 = free_in st - {unat ?b}"
      using d(3) by (simp_all add: extended_def del: dev_update sect_update)
    have "unat (remaining - ?n) < unat remaining" using rem pos by (simp add: unat_chunk_len)
    moreover have "?b = (if blocks_of ?st2 i = [] then 0 else last (blocks_of ?st2 i))"
      unfolding lk2(3) by simp
    moreover have "length (drop (unat ?n) inp) = unat (remaining - ?n)" using less.prems(5) rem by simp
    moreover have "blocks_for (unat (remaining - ?n)) \<le> card (free_in ?st2)"
      using need less.prems(6) d(5) unfolding lk2(4) rem
      by (simp add: unat_chunk_len free_in_def card_Diff_singleton)
    ultimately obtain st' cs where r: "write_loop wr i ?b (drop (unat ?n) inp) (remaining - ?n) ?st2 = (0, st')"
        "volume_ok ready cap st'" "extended sector i ?st2 cs st'" "length cs = blocks_for (unat (remaining - ?n))"
        "take (unat (remaining - ?n)) (concat (map (blk sector st') cs)) = drop (unat ?n) inp"
      using less.hyps [OF _ d(2) lk2(1,2)] by blast
    have ext: "extended sector i st (?b # cs) st'"
      using extended_trans [OF d(3) r(3)] by simp
    have "blk sector st' ?b = ?sect"
      using r(3) lk2(3) d(4) by (simp add: extended_def del: dev_update sect_update)
    moreover have "length (blk sector st' c) = 512" for c
      using r(2) sector_512 by (simp add: volume_ok_def blk_def)
    then have "length (concat (map (blk sector st') cs)) = 512 * blocks_for (unat remaining - unat ?n)"
      using r(4) rem by (simp add: length_concat comp_def sum_list_triv)
    ultimately have "take (unat remaining) (concat (map (blk sector st') (?b # cs))) = inp"
      using take_chunk [OF less.prems(5) unat_chunk_len, of "concat (map (blk sector st') cs)"] r(5) rem by simp
    with run r(1,2,4) ext need rem show ?thesis
      by (intro exI [of _ st'] exI [of _ "?b # cs"]) (simp add: unat_chunk_len)
  qed
qed

end

end
