(* ===== verification/Fs_Ops.thy ===== *)
theory Fs_Ops
  imports Fs_Spec Ata
begin

text \<open>
  The file operations of \<open>fs.c\<close> against the abstraction \<open>contents\<close>: each is proved in the
  context of \<open>sector_disk\<close> and then stated for the kernel's stack, \<open>fs.c\<close> over \<open>ata.c\<close> over
  any bus whose drive keeps to the documented protocol.
\<close>

lemma free_slot_from_some:
  "free_slot_from es k = Some i \<Longrightarrow> k \<le> i \<and> i - k < length es \<and> de_used (es ! (i - k)) = 0"
proof (induction es arbitrary: k)
  case (Cons e es)
  show ?case
  proof (cases "de_used e = 0")
    case False
    with Cons have "Suc k \<le> i" "i - Suc k < length es" "de_used (es ! (i - Suc k)) = 0" by auto
    moreover have "i - k = Suc (i - Suc k)" using \<open>Suc k \<le> i\<close> by simp
    ultimately show ?thesis by simp
  qed (use Cons.prems in simp)
qed simp

lemma free_slot_from_none: "free_slot_from es k = None \<Longrightarrow> e \<in> set es \<Longrightarrow> de_used e \<noteq> 0"
  by (induction es arbitrary: k) (auto split: if_splits)

lemma cstr_field [simp]: "0 \<notin> set n \<Longrightarrow> cstr (n @ 0 # r) = n"
  by (induction n) (auto simp: cstr_def)

lemma fresh_entry_simps [simp]:
  "de_used (fresh_entry n) = 1" "de_first (fresh_entry n) = 0" "de_size (fresh_entry n) = 0"
  "length n \<le> 21 \<Longrightarrow> length (de_name (fresh_entry n)) = 22"
  "0 \<notin> set n \<Longrightarrow> cstr (de_name (fresh_entry n)) = n"
  by (simp_all add: fresh_entry_def zero_dirent_def)

text \<open>A slot can be found: the name exists or the directory has a free entry.\<close>

definition has_slot :: "'s fsys \<Rightarrow> u8 list \<Rightarrow> bool" where
  "has_slot st name \<longleftrightarrow> (\<exists>i. used st i \<and> name_of st i = name) \<or> (\<exists>i < 64. \<not> used st i)"

lemma claim_entry_correct:
  assumes lk: "linked st" and name: "valid_name name"
  shows "(claim_entry name st = None \<and> \<not> has_slot st name) \<or>
    (has_slot st name \<and> (\<exists>i st1. claim_entry name st = Some (i, st1) \<and> linked st1 \<and> used st1 i \<and> name_of st1 i = name \<and>
       keeps sector i st st1 \<and> fs_dev st1 = fs_dev st \<and>
       (used st i \<longrightarrow> st1 = st) \<and> (\<not> used st i \<longrightarrow> blocks_of st1 i = []) \<and> free_in st1 = free_in st))"
proof -
  have nz: "0 \<notin> set name" "name \<noteq> []" "length name \<le> 21" using name by (simp_all add: valid_name_def)
  show ?thesis
  proof (cases "find_entry st name")
    case (Some i)
    with find_entry_some [OF nz(1)] have "used st i" "name_of st i = name" by blast+
    with Some lk show ?thesis
      by (intro disjI2) (auto simp: claim_entry_def has_slot_def)
  next
    case None
    note no = find_entry_none [OF nz(1) None]
    show ?thesis
    proof (cases "free_slot_from (fs_dir st) 0")
      case N: None
      then have "used st i" if "i < 64" for i
        using that free_slot_from_none [OF N, of "fs_dir st ! i"] lk by (simp add: used_def linked_def)
      with None N no show ?thesis
        by (auto simp: claim_entry_def has_slot_def)
    next
      case (Some i)
      from free_slot_from_some [OF this] have i: "i < length (fs_dir st)" "de_used (fs_dir st ! i) = 0" by auto
      then have i64: "i < 64" and nu: "\<not> used st i" using lk by (auto simp: linked_def used_def)
      let ?st = "upd_entry i (\<lambda>_. fresh_entry name) st"
      have dir: "fs_dir ?st = (fs_dir st)[i := fresh_entry name]" "fs_sb ?st = fs_sb st"
          "fs_fat ?st = fs_fat st" "fs_dev ?st = fs_dev st" "fs_mounted ?st = fs_mounted st"
        by (simp_all add: upd_entry_def)
      have re: "linked ?st \<and> (de_used (fresh_entry name) \<noteq> 0 \<longrightarrow> blocks_of ?st i = []) \<and>
        (\<forall>j. j \<noteq> i \<longrightarrow> used ?st j = used st j \<and> (used st j \<longrightarrow> blocks_of ?st j = blocks_of st j))"
        by (rule relink [OF lk i64 dir(1,2)]) (use nz no in \<open>auto simp: dir fat_chain_def\<close>)
      then have "keeps sector i st ?st" using i(1) by (auto simp: keeps_def dir blk_def)
      moreover have "used ?st i" "name_of ?st i = name"
        using i nz by (simp_all add: used_def name_of_def dir)
      moreover have "free_in ?st = free_in st" by (simp add: free_in_def nblocks_def dir)
      ultimately show ?thesis
        using None Some re nu i64 dir(4) by (intro disjI2) (auto simp: claim_entry_def has_slot_def)
    qed
  qed
qed

text \<open>The blocks a write of \<open>name\<close> may use: the free ones and those of the old contents.\<close>

definition room_for :: "'s fsys \<Rightarrow> u8 list \<Rightarrow> nat" where
  "room_for st name =
     card (free_in st) + (case find_entry st name of None \<Rightarrow> 0 | Some i \<Rightarrow> length (blocks_of st i))"

lemma finite_free_in [simp]: "finite (free_in st)"
  by (simp add: free_in_def)

lemma card_free_after_drop:
  assumes "linked st" "used st i"
  shows "card (free_in st \<union> unat ` set (blocks_of st i)) = card (free_in st) + length (blocks_of st i)"
proof -
  have "inj_on unat (set (blocks_of st i))" by (auto intro: inj_onI simp flip: word_unat_eq_iff)
  moreover have "distinct (blocks_of st i)" using fat_chain_distinct [OF linked_chain [OF assms]] .
  ultimately have "card (unat ` set (blocks_of st i)) = length (blocks_of st i)"
    by (simp add: card_image distinct_card)
  moreover have "free_in st \<inter> unat ` set (blocks_of st i) = {}"
    using linked_member [OF assms] by (auto simp: free_in_def free_blocks_def)
  ultimately show ?thesis by (simp add: card_Un_disjoint)
qed

lemma sized_blocks_for: "sized st i \<longleftrightarrow> length (blocks_of st i) = blocks_for (unat (de_size (fs_dir st ! i)))"
  by (simp add: sized_def blocks_for_def)

text \<open>Entry claimed and old contents dropped: the state the write loop starts from.\<close>

lemma prepare_write:
  assumes lk: "linked st" and name: "valid_name name" and slot: "has_slot st name"
  shows "\<exists>i st1. claim_entry name st = Some (i, st1) \<and>
    (let st2 = drop_chain i len st1 in linked st2 \<and> used st2 i \<and> name_of st2 i = name \<and>
       keeps sector i st st2 \<and> fs_dev st2 = fs_dev st \<and> blocks_of st2 i = [] \<and> de_size (fs_dir st2 ! i) = len \<and>
       card (free_in st2) = room_for st name \<and> (used st i \<longrightarrow> name_of st i = name))"
proof -
  have nz: "0 \<notin> set name" using name by (simp add: valid_name_def)
  obtain i st1 where c: "claim_entry name st = Some (i, st1)" "linked st1" "used st1 i" "name_of st1 i = name"
      "keeps sector i st st1" "fs_dev st1 = fs_dev st" "used st i \<longrightarrow> st1 = st"
      "\<not> used st i \<longrightarrow> blocks_of st1 i = []" "free_in st1 = free_in st"
    using claim_entry_correct [OF lk name, of sector] slot by blast
  note dc = drop_chain_correct [OF c(2,3), where sector = sector and len = len]
  have "card (free_in (drop_chain i len st1)) = card (free_in st1) + length (blocks_of st1 i)"
    using dc card_free_after_drop [OF c(2,3)] by simp
  moreover have "room_for st name = card (free_in st1) + length (blocks_of st1 i)"
  proof (cases "used st i")
    case True
    then have "find_entry st name = Some i" using c(4,7) find_entry_iff [OF lk nz] by simp
    with True c(7) show ?thesis by (simp add: room_for_def)
  next
    case False
    have "find_entry st name = None"
    proof (rule ccontr)
      assume "find_entry st name \<noteq> None"
      then obtain j where "find_entry st name = Some j" by blast
      then have "claim_entry name st = Some (j, st)" "used st j"
        using find_entry_some [OF nz] by (auto simp: claim_entry_def)
      with c(1) False show False by simp
    qed
    with False c(8,9) show ?thesis by (simp add: room_for_def)
  qed
  moreover have "keeps sector i st (drop_chain i len st1)"
    using keeps_trans [OF c(5)] dc by blast
  ultimately show ?thesis
    using dc c(1,4,6,7) by (intro exI [of _ i] exI [of _ st1]) (auto simp: Let_def)
qed

context sector_disk
begin

lemma write_loop_full:
  "volume_ok ready cap st \<Longrightarrow> linked st \<Longrightarrow> used st i \<Longrightarrow>
   prev = (if blocks_of st i = [] then 0 else last (blocks_of st i)) \<Longrightarrow> length inp = unat remaining \<Longrightarrow>
   card (free_in st) < blocks_for (unat remaining) \<Longrightarrow>
   \<exists>st'. write_loop wr i prev inp remaining st = (- 1, st') \<and> volume_ok ready cap st' \<and> linked st' \<and>
     keeps sector i st st' \<and> used st' i \<and> name_of st' i = name_of st i \<and> blocks_of st' i = [] \<and>
     de_size (fs_dir st' ! i) = 0"
proof (induction "unat remaining" arbitrary: prev inp remaining st rule: less_induct)
  case less
  have "remaining \<noteq> 0" using less.prems(6) by auto
  then have pos: "0 < unat remaining" by (simp add: unat_gt_0)
  let ?b = "alloc_block st" and ?n = "chunk_len remaining"
  let ?sect = "take (unat ?n) inp @ replicate (512 - unat ?n) 0"
  show ?case
  proof (cases "?b = 0")
    case True
    then have "write_loop wr i prev inp remaining st = (- 1, roll_back wr i st)"
      using \<open>remaining \<noteq> 0\<close> by (subst write_loop.simps) simp
    with roll_back_ok [OF less.prems(1-3)] show ?thesis by simp
  next
    case False
    have len: "length ?sect = 512" using less.prems(5) by (simp add: unat_chunk_len)
    obtain d where d: "wr (block_lba (fs_sb (link_block i prev ?b st)) ?b) ?sect (fs_dev (link_block i prev ?b st)) = (0, d)"
        "volume_ok ready cap ((link_block i prev ?b st)\<lparr>fs_sect := ?sect, fs_dev := d\<rparr>)"
        "extended sector i st [?b] ((link_block i prev ?b st)\<lparr>fs_sect := ?sect, fs_dev := d\<rparr>)" "unat ?b \<in> free_in st"
      using write_step [OF less.prems(1-4) refl False len] by blast
    let ?st2 = "(link_block i prev ?b st)\<lparr>fs_sect := ?sect, fs_dev := d\<rparr>"
    have run: "write_loop wr i prev inp remaining st =
        write_loop wr i ?b (drop (unat ?n) inp) (remaining - ?n) ?st2"
      using \<open>remaining \<noteq> 0\<close> False d(1) by (subst write_loop.simps) (simp add: Let_def)
    have rem: "unat (remaining - ?n) = unat remaining - unat ?n"
      by (rule unat_sub32) (simp add: unat_chunk_len)
    have lk2: "linked ?st2" "used ?st2 i" "blocks_of ?st2 i = blocks_of st i @ [?b]"
        "free_in ?st2 = free_in st - {unat ?b}" "keeps sector i st ?st2" "name_of ?st2 i = name_of st i"
      using d(3) by (simp_all add: extended_def del: dev_update sect_update)
    have "unat (remaining - ?n) < unat remaining" using rem pos by (simp add: unat_chunk_len)
    moreover have "?b = (if blocks_of ?st2 i = [] then 0 else last (blocks_of ?st2 i))"
      unfolding lk2(3) by simp
    moreover have "length (drop (unat ?n) inp) = unat (remaining - ?n)" using less.prems(5) rem by simp
    moreover have "card (free_in ?st2) < blocks_for (unat (remaining - ?n))"
    proof -
      have "card (free_in st) = Suc (card (free_in st - {unat ?b}))"
        using d(4) by (intro card.remove) simp_all
      then show ?thesis
        using blocks_for_step [OF pos] less.prems(6) unfolding lk2(4) rem by (simp add: unat_chunk_len)
    qed
    ultimately obtain st' where r:
      "write_loop wr i ?b (drop (unat ?n) inp) (remaining - ?n) ?st2 = (- 1, st')" "volume_ok ready cap st'"
      "linked st'" "keeps sector i ?st2 st'" "used st' i" "name_of st' i = name_of ?st2 i"
      "blocks_of st' i = []" "de_size (fs_dir st' ! i) = 0"
      using less.hyps [OF _ d(2) lk2(1,2)] by blast
    show ?thesis
      unfolding run using r keeps_trans [OF lk2(5) r(4)] lk2(6) by (intro exI [of _ st']) simp
  qed
qed

lemma fs_write_ok:
  assumes vol: "volume_ok ready cap st" and inv: "fs_inv st" and name: "valid_name name" "has_slot st name"
    and len: "length data = unat len" and room: "blocks_for (unat len) \<le> room_for st name"
  shows "\<exists>st'. fs_write wr name data len st = (0, st') \<and> volume_ok ready cap st' \<and> fs_inv st' \<and>
    (\<forall>n. 0 \<notin> set n \<longrightarrow> contents sector st' n = (if n = name then Some data else contents sector st n))"
proof -
  have mounted: "fs_mounted st" and lk: "linked st" and sz: "\<And>i. used st i \<Longrightarrow> sized st i"
    using inv by (simp_all add: fs_inv_def)
  obtain i st1 where c: "claim_entry name st = Some (i, st1)"
      and p: "let st2 = drop_chain i len st1 in linked st2 \<and> used st2 i \<and> name_of st2 i = name \<and>
       keeps sector i st st2 \<and> fs_dev st2 = fs_dev st \<and> blocks_of st2 i = [] \<and> de_size (fs_dir st2 ! i) = len \<and>
       card (free_in st2) = room_for st name \<and> (used st i \<longrightarrow> name_of st i = name)"
    using prepare_write [OF lk name, of len sector] by blast
  define st2 where "st2 = drop_chain i len st1"
  have s2: "linked st2" "used st2 i" "name_of st2 i = name" "keeps sector i st st2" "fs_dev st2 = fs_dev st"
      "blocks_of st2 i = []" "de_size (fs_dir st2 ! i) = len" "card (free_in st2) = room_for st name"
      "used st i \<longrightarrow> name_of st i = name"
    using p by (simp_all add: Let_def st2_def)
  have v2: "volume_ok ready cap st2" using vol s2(4,5) by (simp add: volume_ok_def keeps_def)
  have "blocks_for (unat len) \<le> card (free_in st2)" using room s2(8) by simp
  from write_loop_ok [OF v2 s2(1,2) _ len this] s2(6)
  obtain st3 cs where r: "write_loop wr i 0 data len st2 = (0, st3)" "volume_ok ready cap st3"
      "extended sector i st2 cs st3" "length cs = blocks_for (unat len)"
      "take (unat len) (concat (map (blk sector st3) cs)) = data" by auto
  have e: "keeps sector i st2 st3" "linked st3" "used st3 i" "name_of st3 i = name"
      "de_size (fs_dir st3 ! i) = len" "blocks_of st3 i = cs"
    using r(3) s2 by (simp_all add: extended_def)
  obtain d where f: "flush_all wr st3 = (0, st3\<lparr>fs_dev := d\<rparr>)" "volume_ok ready cap (st3\<lparr>fs_dev := d\<rparr>)"
      "same_data sector st3 d"
    using flush_all_ok [OF r(2) e(2)] by blast
  have kp: "keeps sector i st st3" using keeps_trans [OF s2(4) e(1)] .
  have "sized st3 j" if "used st3 j" for j
  proof (cases "j = i")
    case True
    then show ?thesis using e r(4) by (simp add: sized_blocks_for)
  next
    case False
    then have "used st j" using that keeps_used [OF kp] by simp
    with sz [of j] kp False show ?thesis by (simp add: sized_def keeps_def)
  qed
  then have inv3: "fs_inv st3" using mounted kp e(2) by (simp add: fs_inv_def keeps_def)
  have "contents sector st3 n = (if n = name then Some data else contents sector st n)" if n: "0 \<notin> set n" for n
  proof (cases "n = name")
    case True
    then have "find_entry st3 n = Some i" using find_entry_iff [OF e(2) n] e by simp
    then show ?thesis using True e r(5) by (simp add: contents_def file_bytes_def)
  next
    case False
    have "contents sector st3 n = contents sector st n"
    proof (cases "used st i")
      case True
      then show ?thesis using keeps_contents [OF lk e(2) kp n] e(4) s2(9) False by simp
    next
      case nu: False
      have "find_entry st3 n = Some j \<longleftrightarrow> find_entry st n = Some j" for j
        using find_entry_iff [OF e(2) n] find_entry_iff [OF lk n] keeps_used [OF kp] kp e(4) False nu
        by (cases "j = i") (auto simp: keeps_def name_of_def)
      then have fe: "find_entry st3 n = find_entry st n" by (metis not_None_eq)
      show ?thesis
      proof (cases "find_entry st n")
        case None
        then show ?thesis by (simp add: contents_def fe)
      next
        case (Some j)
        then have "used st j" "j \<noteq> i" using find_entry_iff [OF lk n] nu by blast+
        with Some keeps_file [OF kp] show ?thesis by (simp add: contents_def fe)
      qed
    qed
    with False show ?thesis by simp
  qed
  then have "\<forall>n. 0 \<notin> set n \<longrightarrow>
      contents sector (st3\<lparr>fs_dev := d\<rparr>) n = (if n = name then Some data else contents sector st n)"
    using same_data_contents [OF e(2) f(3)] by simp
  moreover have "fs_write wr name data len st = (0, st3\<lparr>fs_dev := d\<rparr>)"
    using mounted name(1) c r(1) f(1) by (simp add: fs_write_def valid_name_def FS_MAX_NAME_def st2_def)
  ultimately show ?thesis using inv3 f(2) by auto
qed

lemma fs_write_full:
  assumes vol: "volume_ok ready cap st" and inv: "fs_inv st" and name: "valid_name name" "has_slot st name"
    and len: "length data = unat len" and room: "room_for st name < blocks_for (unat len)"
  shows "\<exists>st'. fs_write wr name data len st = (- 1, st') \<and> volume_ok ready cap st' \<and> fs_inv st' \<and>
    contents sector st' name = Some []"
proof -
  have mounted: "fs_mounted st" and lk: "linked st" and sz: "\<And>i. used st i \<Longrightarrow> sized st i"
    using inv by (simp_all add: fs_inv_def)
  obtain i st1 where c: "claim_entry name st = Some (i, st1)"
      and p: "let st2 = drop_chain i len st1 in linked st2 \<and> used st2 i \<and> name_of st2 i = name \<and>
       keeps sector i st st2 \<and> fs_dev st2 = fs_dev st \<and> blocks_of st2 i = [] \<and> de_size (fs_dir st2 ! i) = len \<and>
       card (free_in st2) = room_for st name \<and> (used st i \<longrightarrow> name_of st i = name)"
    using prepare_write [OF lk name, of len sector] by blast
  define st2 where "st2 = drop_chain i len st1"
  have s2: "linked st2" "used st2 i" "name_of st2 i = name" "keeps sector i st st2" "fs_dev st2 = fs_dev st"
      "blocks_of st2 i = []" "card (free_in st2) = room_for st name"
    using p by (simp_all add: Let_def st2_def)
  have v2: "volume_ok ready cap st2" using vol s2(4,5) by (simp add: volume_ok_def keeps_def)
  have "card (free_in st2) < blocks_for (unat len)" using room s2(7) by simp
  from write_loop_full [OF v2 s2(1,2) _ len this] s2(6)
  obtain st3 where r: "write_loop wr i 0 data len st2 = (- 1, st3)" "volume_ok ready cap st3" "linked st3"
      "keeps sector i st2 st3" "used st3 i" "name_of st3 i = name" "blocks_of st3 i = []"
      "de_size (fs_dir st3 ! i) = 0" using s2(3) by auto
  have kp: "keeps sector i st st3" using keeps_trans [OF s2(4) r(4)] .
  have "sized st3 j" if "used st3 j" for j
  proof (cases "j = i")
    case True
    then show ?thesis using r by (simp add: sized_def)
  next
    case False
    then have "used st j" using that keeps_used [OF kp] by simp
    with sz [of j] kp False show ?thesis by (simp add: sized_def keeps_def)
  qed
  then have "fs_inv st3" using mounted kp r(3) by (simp add: fs_inv_def keeps_def)
  moreover have "find_entry st3 name = Some i"
    using find_entry_iff [OF r(3)] r(5,6) name(1) by (simp add: valid_name_def)
  then have "contents sector st3 name = Some []"
    using r(7) by (simp add: contents_def file_bytes_def)
  moreover have "fs_write wr name data len st = (- 1, st3)"
    using mounted name(1) c r(1) by (simp add: fs_write_def valid_name_def FS_MAX_NAME_def st2_def)
  ultimately show ?thesis using r(2) by auto
qed

lemma read_loop_ok:
  "ready (fs_dev st) \<Longrightarrow> layout_ok (fs_sb st) (cap (fs_dev st)) \<Longrightarrow> fat_chain (fs_fat st) b bs \<Longrightarrow>
   \<forall>x \<in> set bs. unat x \<le> nblocks st \<Longrightarrow> blocks_for (unat remaining) \<le> length bs \<Longrightarrow>
   \<exists>s d. read_loop rd b remaining out st =
       ((True, out @ take (unat remaining) (concat (map (blk sector st) bs))), st\<lparr>fs_sect := s, fs_dev := d\<rparr>) \<and>
     ready d \<and> cap d = cap (fs_dev st) \<and> sector d = sector (fs_dev st)"
proof (induction bs arbitrary: b remaining out st)
  case Nil
  then have "remaining = 0" by (auto simp: blocks_for_def u32_eq_iff)
  then have "read_loop rd b remaining out st = ((True, out), st)"
    by (simp add: read_loop.simps [of rd b])
  with Nil.prems(1) \<open>remaining = 0\<close> show ?case
    by (intro exI [of _ "fs_sect st"] exI [of _ "fs_dev st"]) simp
next
  case (Cons x bs)
  show ?case
  proof (cases "remaining = 0")
    case True
    then have "read_loop rd b remaining out st = ((True, out), st)"
      by (simp add: read_loop.simps [of rd b])
    with Cons.prems(1) True show ?thesis
      by (intro exI [of _ "fs_sect st"] exI [of _ "fs_dev st"]) simp
  next
    case False
    then have pos: "0 < unat remaining" by (simp add: unat_gt_0)
    have x: "b = x" "x \<noteq> 0" "x \<noteq> FAT_END" "fat_path (fs_fat st) (fs_fat st (unat x)) bs"
      using Cons.prems(3) by (auto simp: fat_chain_def)
    have rng: "1 \<le> unat x" "unat x \<le> unat (sb_data_blocks (fs_sb st))"
      using x(2) Cons.prems(4) by (simp_all add: Suc_le_eq unat_gt_0 nblocks_def)
    have "unat (block_lba (fs_sb st) x) < cap (fs_dev st)"
      using unat_block_lba [OF Cons.prems(2) rng] rng Cons.prems(2) by (auto simp: layout_ok_def)
    from rd_ok [OF Cons.prems(1) this] obtain d where
      d: "rd (block_lba (fs_sb st) x) (fs_sect st) (fs_dev st) = ((0, blk sector st x), d)" "ready d"
        "cap d = cap (fs_dev st)" "sector d = sector (fs_dev st)"
      unfolding blk_def by blast
    let ?st1 = "st\<lparr>fs_sect := blk sector st x, fs_dev := d\<rparr>" and ?n = "chunk_len remaining"
    let ?out1 = "out @ take (unat ?n) (blk sector st x)"
    have run: "read_loop rd b remaining out st = read_loop rd (fs_fat st (unat x)) (remaining - ?n) ?out1 ?st1"
      using False x d(1) by (subst read_loop.simps) (simp add: Let_def)
    have rem: "unat (remaining - ?n) = unat remaining - unat ?n"
      by (rule unat_sub32) (simp add: unat_chunk_len)
    have blk1: "blk sector ?st1 = blk sector st" by (simp add: blk_def d(4) fun_eq_iff)
    have "fat_chain (fs_fat ?st1) (fs_fat st (unat x)) bs" using x(4) by (simp add: fat_chain_def)
    moreover have "blocks_for (unat (remaining - ?n)) \<le> length bs"
      using Cons.prems(5) blocks_for_step [OF pos] by (simp add: rem unat_chunk_len)
    ultimately obtain s d' where r: "read_loop rd (fs_fat st (unat x)) (remaining - ?n) ?out1 ?st1 =
        ((True, ?out1 @ take (unat (remaining - ?n)) (concat (map (blk sector st) bs))), ?st1\<lparr>fs_sect := s, fs_dev := d'\<rparr>)"
        "ready d'" "cap d' = cap d" "sector d' = sector d"
      using Cons.IH [of ?st1 "fs_fat st (unat x)" "remaining - ?n" ?out1] Cons.prems(2,4) d(2,3) unfolding blk1
      by (auto simp: nblocks_def)
    have "length (blk sector st x) = 512" using sector_512 [OF Cons.prems(1)] by (simp add: blk_def)
    then have "take (unat ?n) (blk sector st x) @ take (unat remaining - unat ?n) (concat (map (blk sector st) bs)) =
        take (unat remaining) (concat (map (blk sector st) (x # bs)))"
      by (simp add: unat_chunk_len min_def)
    then show ?thesis
      using run r d(3,4) rem by (intro exI [of _ s] exI [of _ d']) simp
  qed
qed

lemma fs_read_ok:
  assumes vol: "volume_ok ready cap st" and inv: "fs_inv st" and nz: "0 \<notin> set name"
    and c: "contents sector st name = Some bs"
  shows "\<exists>st'. fs_read rd name maxlen st = ((sint (of_nat (length bs) :: u32), take (unat maxlen) bs), st') \<and>
    volume_ok ready cap st' \<and> fs_inv st' \<and> contents sector st' = contents sector st \<and> length bs < 4294967296"
proof -
  have mounted: "fs_mounted st" and lk: "linked st" and sz: "\<And>i. used st i \<Longrightarrow> sized st i"
    using inv by (simp_all add: fs_inv_def)
  obtain i where f: "find_entry st name = Some i" and bs: "bs = file_bytes sector st i"
    using c by (auto simp: contents_def)
  have u: "used st i" using find_entry_some [OF nz f] by blast
  let ?e = "fs_dir st ! i" and ?cs = "blocks_of st i"
  let ?rem = "if de_size ?e < maxlen then de_size ?e else maxlen"
  have r: "ready (fs_dev st)" and lay: "layout_ok (fs_sb st) (cap (fs_dev st))"
    using vol by (simp_all add: volume_ok_def)
  have need: "length ?cs = blocks_for (unat (de_size ?e))" using sz [OF u] by (simp add: sized_blocks_for)
  have urem: "unat ?rem = min (unat (de_size ?e)) (unat maxlen)" by (auto simp: word_less_nat_alt)
  then have "blocks_for (unat ?rem) \<le> length ?cs" unfolding need by (auto simp: blocks_for_def div_le_mono)
  moreover have "\<forall>x \<in> set ?cs. unat x \<le> nblocks st" using linked_range [OF lk u] by blast
  ultimately obtain s d where rl: "read_loop rd (de_first ?e) ?rem [] st =
      ((True, take (unat ?rem) (concat (map (blk sector st) ?cs))), st\<lparr>fs_sect := s, fs_dev := d\<rparr>)"
      "ready d" "cap d = cap (fs_dev st)" "sector d = sector (fs_dev st)"
    using read_loop_ok [OF r lay linked_chain [OF lk u], of ?rem "[]"] by auto
  have "length (concat (map (blk sector st) ?cs)) = 512 * blocks_for (unat (de_size ?e))"
    using need sector_512 [OF r] by (simp add: length_concat comp_def blk_def sum_list_triv)
  then have len: "length bs = unat (de_size ?e)"
    by (auto simp: bs file_bytes_def blocks_for_def min_def)
  have "take (unat maxlen) bs = take (unat ?rem) (concat (map (blk sector st) ?cs))"
    unfolding urem by (simp add: bs file_bytes_def min.commute)
  then have "fs_read rd name maxlen st =
      ((sint (of_nat (length bs) :: u32), take (unat maxlen) bs), st\<lparr>fs_sect := s, fs_dev := d\<rparr>)"
    using mounted f rl(1) len by (simp add: fs_read_def Let_def)
  moreover have "blk sector (st\<lparr>fs_sect := s, fs_dev := d\<rparr>) = blk sector st"
    by (rule ext) (simp add: blk_def rl(4))
  then have "contents sector (st\<lparr>fs_sect := s, fs_dev := d\<rparr>) = contents sector st"
    by (intro ext) (simp add: contents_def file_bytes_def [abs_def])
  moreover have "volume_ok ready cap (st\<lparr>fs_sect := s, fs_dev := d\<rparr>)"
    using lay rl(2,3) by (simp add: volume_ok_def)
  ultimately show ?thesis
    using inv len unat_lt32 [of "de_size ?e"] by (intro exI [of _ "st\<lparr>fs_sect := s, fs_dev := d\<rparr>"]) simp
qed

lemma fs_delete_ok:
  assumes vol: "volume_ok ready cap st" and inv: "fs_inv st" and nz: "0 \<notin> set name"
    and f: "find_entry st name = Some i"
  shows "\<exists>st'. fs_delete wr name st = (0, st') \<and> volume_ok ready cap st' \<and> fs_inv st' \<and>
    (\<forall>n. 0 \<notin> set n \<longrightarrow> contents sector st' n = (if n = name then None else contents sector st n)) \<and>
    free_in st' = free_in st \<union> unat ` set (blocks_of st i)"
proof -
  have mounted: "fs_mounted st" and lk: "linked st" and sz: "\<And>i. used st i \<Longrightarrow> sized st i"
    using inv by (simp_all add: fs_inv_def)
  have u: "used st i" "name_of st i = name" using find_entry_some [OF nz f] by blast+
  have i: "i < 64" "i < length (fs_dir st)" using u(1) linked_used [OF u(1) lk] by (auto simp: used_def)
  define st1 where "st1 = upd_entry i (\<lambda>_. zero_dirent)
      (st\<lparr>fs_fat := free_chain (fs_fat st) (de_first (fs_dir st ! i))\<rparr>)"
  have fat: "fs_fat st1 = (\<lambda>k. if k \<in> unat ` set (blocks_of st i) then 0 else fs_fat st k)"
    using free_chain_chain [OF linked_chain [OF lk u(1)]] by (simp add: st1_def upd_entry_def)
  have dir: "fs_dir st1 = (fs_dir st)[i := zero_dirent]" "fs_sb st1 = fs_sb st" "fs_mounted st1 = fs_mounted st"
      "fs_dev st1 = fs_dev st"
    by (simp_all add: st1_def upd_entry_def)
  have re: "linked st1 \<and> (de_used zero_dirent \<noteq> 0 \<longrightarrow> blocks_of st1 i = []) \<and>
    (\<forall>j. j \<noteq> i \<longrightarrow> used st1 j = used st j \<and> (used st j \<longrightarrow> blocks_of st1 j = blocks_of st j))"
  proof (rule relink [OF lk i(1) dir(1,2)])
    show "fs_fat st1 (unat b) = fs_fat st (unat b)"
      if "used st j" "j \<noteq> i" "b \<in> set (blocks_of st j)" for j b
      using linked_apart [OF lk that(1) u(1) that(2,3)] by (auto simp: fat simp flip: word_unat_eq_iff)
  qed (auto simp: zero_dirent_def)
  then have lk1: "linked st1" and kp: "keeps sector i st st1"
    using i by (auto simp: keeps_def dir blk_def)
  have gone: "\<not> used st1 i" by (simp add: used_def dir i zero_dirent_def)
  have vol1: "volume_ok ready cap st1" using vol by (simp add: volume_ok_def dir)
  obtain d where fl: "flush_all wr st1 = (0, st1\<lparr>fs_dev := d\<rparr>)" "volume_ok ready cap (st1\<lparr>fs_dev := d\<rparr>)"
      "same_data sector st1 d"
    using flush_all_ok [OF vol1 lk1] by blast
  have "sized st1 j" if "used st1 j" for j
  proof -
    have "j \<noteq> i" using that gone by auto
    with that sz [of j] kp keeps_used [OF kp] show ?thesis by (simp add: sized_def keeps_def)
  qed
  then have "fs_inv st1" using mounted lk1 by (simp add: fs_inv_def dir)
  moreover have "contents sector st1 n = (if n = name then None else contents sector st n)" if n: "0 \<notin> set n" for n
  proof (cases "n = name")
    case True
    have "find_entry st1 n = None"
    proof (rule ccontr)
      assume "find_entry st1 n \<noteq> None"
      then obtain j where j: "used st1 j" "name_of st1 j = n" using find_entry_some [OF n] by blast
      then have "j \<noteq> i" using gone by auto
      with j have "used st j" "name_of st j = name_of st i"
        using keeps_used [OF kp] kp True u(2) by (auto simp: keeps_def name_of_def)
      with linked_names [OF lk _ u(1) \<open>j \<noteq> i\<close>] show False by blast
    qed
    then show ?thesis using True by (simp add: contents_def)
  next
    case False
    have "find_entry st1 n = Some j \<longleftrightarrow> find_entry st n = Some j" for j
      using find_entry_iff [OF lk1 n] find_entry_iff [OF lk n] keeps_used [OF kp] kp u(2) False gone
      by (cases "j = i") (auto simp: keeps_def name_of_def)
    then have fe: "find_entry st1 n = find_entry st n" by (metis not_None_eq)
    show ?thesis
    proof (cases "find_entry st n")
      case None
      then show ?thesis using False by (simp add: contents_def fe)
    next
      case (Some j)
      then have "used st j" "name_of st j = n" using find_entry_some [OF n] by blast+
      then have "j \<noteq> i" using u(2) False by auto
      with \<open>used st j\<close> Some keeps_file [OF kp] False show ?thesis by (simp add: contents_def fe)
    qed
  qed
  then have "\<forall>n. 0 \<notin> set n \<longrightarrow>
      contents sector (st1\<lparr>fs_dev := d\<rparr>) n = (if n = name then None else contents sector st n)"
    using same_data_contents [OF lk1 fl(3)] by simp
  moreover have "free_in st1 = free_in st \<union> unat ` set (blocks_of st i)"
  proof -
    have "nblocks st1 = nblocks st" by (simp add: nblocks_def dir)
    then show ?thesis
      using linked_block_range [OF lk u(1)] by (auto simp: free_in_def free_blocks_def fat)
  qed
  moreover have "fs_delete wr name st = (0, st1\<lparr>fs_dev := d\<rparr>)"
    using mounted f fl(1) by (simp add: fs_delete_def st1_def)
  ultimately show ?thesis using fl(2) by auto
qed

lemma fs_rename_ok:
  assumes vol: "volume_ok ready cap st" and inv: "fs_inv st" and nz: "0 \<notin> set old" and new: "valid_name new"
    and f: "find_entry st old = Some i" and free: "find_entry st new = None"
  shows "\<exists>st'. fs_rename wr old new st = (0, st') \<and> volume_ok ready cap st' \<and> fs_inv st' \<and>
    (\<forall>n. 0 \<notin> set n \<longrightarrow> contents sector st' n =
       (if n = new then contents sector st old else if n = old then None else contents sector st n))"
proof -
  have mounted: "fs_mounted st" and lk: "linked st" and sz: "\<And>i. used st i \<Longrightarrow> sized st i"
    using inv by (simp_all add: fs_inv_def)
  have nw: "0 \<notin> set new" "new \<noteq> []" "length new \<le> 21" using new by (simp_all add: valid_name_def)
  have u: "used st i" "name_of st i = old" using find_entry_some [OF nz f] by blast+
  have i: "i < 64" "i < length (fs_dir st)" using u(1) linked_used [OF u(1) lk] by (auto simp: used_def)
  let ?e = "(fs_dir st ! i)\<lparr>de_name := new @ [0] @ replicate (21 - length new) 0\<rparr>"
  define st1 where "st1 = upd_entry i (\<lambda>e. e\<lparr>de_name := new @ [0] @ replicate (21 - length new) 0\<rparr>) st"
  have dir: "fs_dir st1 = (fs_dir st)[i := ?e]" "fs_sb st1 = fs_sb st" "fs_mounted st1 = fs_mounted st"
      "fs_dev st1 = fs_dev st" "fs_fat st1 = fs_fat st"
    by (simp_all add: st1_def upd_entry_def)
  have used_e: "de_used ?e \<noteq> 0" using u(1) by (simp add: used_def)
  have re: "linked st1 \<and> (de_used ?e \<noteq> 0 \<longrightarrow> blocks_of st1 i = blocks_of st i) \<and>
    (\<forall>j. j \<noteq> i \<longrightarrow> used st1 j = used st j \<and> (used st j \<longrightarrow> blocks_of st1 j = blocks_of st j))"
  proof (rule relink [OF lk i(1) dir(1,2)])
    show "length (de_name ?e) = 22" using nw(3) by simp
    show "fat_chain (fs_fat st1) (de_first ?e) (blocks_of st i)"
      using linked_chain [OF lk u(1)] by (simp add: dir)
    show "unat b \<le> nblocks st" if "b \<in> set (blocks_of st i)" for b
      using linked_range [OF lk u(1) that] .
    show "b \<notin> set (blocks_of st j)" if "used st j" "j \<noteq> i" "b \<in> set (blocks_of st i)" for j b
      using linked_apart [OF lk u(1) that(1) _ that(3)] that(2) by auto
    show "name_of st j \<noteq> cstr (de_name ?e)" if "used st j" "j \<noteq> i" for j
      using find_entry_none [OF nw(1) free that(1)] nw(1) by simp
  qed (simp add: dir)
  then have lk1: "linked st1" and kp: "keeps sector i st st1" and bi: "blocks_of st1 i = blocks_of st i"
    using i used_e by (auto simp: keeps_def dir blk_def)
  have u1: "used st1 i" "name_of st1 i = new" using i used_e nw(1) by (simp_all add: used_def name_of_def dir)
  have size: "de_size (fs_dir st1 ! i) = de_size (fs_dir st ! i)" using i by (simp add: dir)
  have "blk sector st1 = blk sector st" by (rule ext) (simp add: blk_def dir)
  then have bytes_i: "file_bytes sector st1 i = file_bytes sector st i"
    unfolding file_bytes_def size bi by simp
  obtain d where fl: "flush_dir wr st1 = (0, st1\<lparr>fs_dev := d\<rparr>)" "volume_ok ready cap (st1\<lparr>fs_dev := d\<rparr>)"
      "same_data sector st1 d"
    using flush_dir_ok [of st1] vol lk1 by (auto simp: volume_ok_def dir)
  have "sized st1 j" if "used st1 j" for j
    using that sz [of j] sz [OF u(1)] kp keeps_used [OF kp] bi size by (cases "j = i") (auto simp: sized_def keeps_def)
  then have "fs_inv st1" using mounted lk1 by (simp add: fs_inv_def dir)
  moreover have "contents sector st1 n =
      (if n = new then contents sector st old else if n = old then None else contents sector st n)"
    if n: "0 \<notin> set n" for n
  proof (cases "n = new")
    case True
    then have "find_entry st1 n = Some i" using find_entry_iff [OF lk1 n] u1 by simp
    then show ?thesis using True f bytes_i by (simp add: contents_def)
  next
    case nn: False
    have fe: "find_entry st1 n = Some j \<longleftrightarrow> j \<noteq> i \<and> find_entry st n = Some j" for j
      using find_entry_iff [OF lk1 n] find_entry_iff [OF lk n] keeps_used [OF kp] kp u1(2) nn
      by (cases "j = i") (auto simp: keeps_def name_of_def)
    show ?thesis
    proof (cases "n = old")
      case True
      then have "find_entry st1 n = None" using fe f by (cases "find_entry st1 n") auto
      then show ?thesis using nn True by (simp add: contents_def)
    next
      case False
      then have "find_entry st n \<noteq> Some i" using find_entry_iff [OF lk n] u(2) by auto
      then have "find_entry st1 n = find_entry st n" using fe by (metis not_None_eq)
      moreover have "file_bytes sector st1 j = file_bytes sector st j" if "find_entry st n = Some j" for j
        using that \<open>find_entry st n \<noteq> Some i\<close> find_entry_some [OF n that] keeps_file [OF kp] by (cases "j = i") auto
      ultimately show ?thesis using nn False by (cases "find_entry st n") (simp_all add: contents_def)
    qed
  qed
  then have "\<forall>n. 0 \<notin> set n \<longrightarrow> contents sector (st1\<lparr>fs_dev := d\<rparr>) n =
      (if n = new then contents sector st old else if n = old then None else contents sector st n)"
    using same_data_contents [OF lk1 fl(3)] by simp
  moreover have "fs_rename wr old new st = (0, st1\<lparr>fs_dev := d\<rparr>)"
    using mounted f free nw fl(1) by (simp add: fs_rename_def st1_def FS_MAX_NAME_def)
  ultimately show ?thesis using fl(2) by auto
qed

end

subsection \<open>The kernel's stack: \<open>fs.c\<close> over \<open>ata.c\<close>\<close>

definition on_drive :: "('d \<Rightarrow> drive) \<Rightarrow> 'd fsys \<Rightarrow> bool" where
  "on_drive \<alpha> st \<longleftrightarrow> volume_ok (\<lambda>d. dr_ready (\<alpha> d)) (\<lambda>d. dr_limit (\<alpha> d)) st"

definition files :: "('d \<Rightarrow> drive) \<Rightarrow> 'd fsys \<Rightarrow> u8 list \<Rightarrow> u8 list option" where
  "files \<alpha> st = contents (\<lambda>d. dr_bytes (\<alpha> d)) st"

lemmas stack_defs = on_drive_def files_def

text \<open>C5: writing a file whose blocks fit returns 0, and on the volume exactly that file
  changed: its contents are the bytes written, every other file is untouched, and the
  FAT and directory are consistent again.\<close>

theorem fs_write_stores:
  assumes "drives bus \<alpha>" "on_drive \<alpha> st" "fs_inv st" "valid_name name" "has_slot st name"
    and "length data = unat len" "blocks_for (unat len) \<le> room_for st name"
  shows "\<exists>st'. fs_write (disk_wr bus) name data len st = (0, st') \<and> on_drive \<alpha> st' \<and> fs_inv st' \<and>
    (\<forall>n. 0 \<notin> set n \<longrightarrow> files \<alpha> st' n = (if n = name then Some data else files \<alpha> st n))"
  unfolding stack_defs
  by (rule sector_disk.fs_write_ok [OF ata_is_sector_disk [OF assms(1)] assms(2) [unfolded stack_defs] assms(3-7)])

text \<open>C23: a write that does not fit returns -1 and leaves an empty file of that name on a
  consistent volume.\<close>

theorem fs_write_disk_full:
  assumes "drives bus \<alpha>" "on_drive \<alpha> st" "fs_inv st" "valid_name name" "has_slot st name"
    and "length data = unat len" "room_for st name < blocks_for (unat len)"
  shows "\<exists>st'. fs_write (disk_wr bus) name data len st = (- 1, st') \<and> on_drive \<alpha> st' \<and> fs_inv st' \<and>
    files \<alpha> st' name = Some []"
  unfolding stack_defs
  by (rule sector_disk.fs_write_full [OF ata_is_sector_disk [OF assms(1)] assms(2) [unfolded stack_defs] assms(3-7)])

text \<open>Reading an existing file returns its size and its first \<open>maxlen\<close> bytes, and changes
  no file.\<close>

theorem fs_read_returns_contents:
  assumes "drives bus \<alpha>" "on_drive \<alpha> st" "fs_inv st" "0 \<notin> set name" "files \<alpha> st name = Some bs"
  shows "\<exists>st'. fs_read (disk_rd bus) name maxlen st =
      ((sint (of_nat (length bs) :: u32), take (unat maxlen) bs), st') \<and>
    on_drive \<alpha> st' \<and> fs_inv st' \<and> files \<alpha> st' = files \<alpha> st \<and> length bs < 4294967296"
  unfolding stack_defs
  by (rule sector_disk.fs_read_ok [OF ata_is_sector_disk [OF assms(1)] assms(2) [unfolded stack_defs]
      assms(3,4) assms(5) [unfolded stack_defs]])

text \<open>What was written is read back: a write followed by a read of the same name gives
  the written bytes, whatever drive, latency or earlier files.\<close>

theorem fs_write_read_roundtrip:
  assumes "drives bus \<alpha>" "on_drive \<alpha> st" "fs_inv st" "valid_name name" "has_slot st name"
    and "length data = unat len" "blocks_for (unat len) \<le> room_for st name" "len \<le> maxlen"
  shows "\<exists>st1 st2. fs_write (disk_wr bus) name data len st = (0, st1) \<and>
    fs_read (disk_rd bus) name maxlen st1 = ((sint len, data), st2)"
proof -
  note sd = ata_is_sector_disk [OF assms(1)]
  obtain st1 where w: "fs_write (disk_wr bus) name data len st = (0, st1)"
      "volume_ok (\<lambda>d. dr_ready (\<alpha> d)) (\<lambda>d. dr_limit (\<alpha> d)) st1" "fs_inv st1"
      "\<forall>n. 0 \<notin> set n \<longrightarrow> contents (\<lambda>d. dr_bytes (\<alpha> d)) st1 n =
         (if n = name then Some data else contents (\<lambda>d. dr_bytes (\<alpha> d)) st n)"
    using sector_disk.fs_write_ok [OF sd assms(2) [unfolded stack_defs] assms(3-7)] by blast
  have "0 \<notin> set name" using assms(4) by (simp add: valid_name_def)
  with w(4) have "contents (\<lambda>d. dr_bytes (\<alpha> d)) st1 name = Some data" by simp
  from sector_disk.fs_read_ok [OF sd w(2,3) \<open>0 \<notin> set name\<close> this, of maxlen] w(1)
  show ?thesis using assms(6,8) by (auto simp: word_le_nat_alt)
qed

text \<open>Deleting a file removes exactly it and gives its blocks back.\<close>

theorem fs_delete_removes:
  assumes "drives bus \<alpha>" "on_drive \<alpha> st" "fs_inv st" "0 \<notin> set name" "find_entry st name = Some i"
  shows "\<exists>st'. fs_delete (disk_wr bus) name st = (0, st') \<and> on_drive \<alpha> st' \<and> fs_inv st' \<and>
    (\<forall>n. 0 \<notin> set n \<longrightarrow> files \<alpha> st' n = (if n = name then None else files \<alpha> st n)) \<and>
    free_in st' = free_in st \<union> unat ` set (blocks_of st i)"
  unfolding stack_defs
  by (rule sector_disk.fs_delete_ok [OF ata_is_sector_disk [OF assms(1)] assms(2) [unfolded stack_defs] assms(3-5)])

text \<open>Renaming to a new name moves the contents to that name and touches no other file.\<close>

theorem fs_rename_moves:
  assumes "drives bus \<alpha>" "on_drive \<alpha> st" "fs_inv st" "0 \<notin> set old" "valid_name new"
    and "find_entry st old = Some i" "find_entry st new = None"
  shows "\<exists>st'. fs_rename (disk_wr bus) old new st = (0, st') \<and> on_drive \<alpha> st' \<and> fs_inv st' \<and>
    (\<forall>n. 0 \<notin> set n \<longrightarrow> files \<alpha> st' n =
       (if n = new then files \<alpha> st old else if n = old then None else files \<alpha> st n))"
  unfolding stack_defs
  by (rule sector_disk.fs_rename_ok [OF ata_is_sector_disk [OF assms(1)] assms(2) [unfolded stack_defs] assms(3-7)])

subsection \<open>A small volume\<close>

text \<open>One file \<open>a\<close> of three bytes in block 1, on the ideal drive.\<close>

definition small_fs :: "drive fsys" where
  "small_fs =
     \<lparr>fs_sb = \<lparr>sb_magic = FS_MAGIC, sb_version = FS_VERSION, sb_fs_sectors = 807, sb_fat_start = 194,
               sb_fat_sectors = 4, sb_dir_start = 198, sb_dir_sectors = 4, sb_data_start = 202,
               sb_data_blocks = 798\<rparr>,
      fs_fat = (\<lambda>_. 0)(1 := 0xFFFF),
      fs_dir = (fresh_entry [97])\<lparr>de_size := 3, de_first := 1\<rparr> # replicate 63 zero_dirent,
      fs_mounted = True, fs_sect = [], fs_total = 1000, fs_heap = heap_bss (paging_bss pmm_bss),
      fs_dev = blank_drive\<rparr>"

lemma small_fs_entries: "used small_fs i \<longleftrightarrow> i = 0"
  by (cases i) (auto simp: used_def small_fs_def zero_dirent_def)

lemma small_fs_chain: "blocks_of small_fs 0 = [1]"
  unfolding blocks_of_def by (rule chain_of_eq) (simp add: small_fs_def fat_chain_def FAT_END_def)

lemma small_fs_inv: "fs_inv small_fs"
proof -
  have "length (de_name (fs_dir small_fs ! j)) = 22" if "j < 64" for j
    using that by (cases j) (auto simp: small_fs_def zero_dirent_def)
  then have "linked small_fs"
    by (simp add: linked_def small_fs_entries small_fs_chain)
      (simp add: small_fs_def fat_chain_def FAT_END_def nblocks_def)
  then show ?thesis
    by (simp add: fs_inv_def small_fs_entries sized_def small_fs_chain) (simp add: small_fs_def)
qed

lemma small_fs_drive: "on_drive id small_fs"
  using blank_drive_ready by (simp add: on_drive_def volume_ok_def layout_ok_def small_fs_def)

lemma small_fs_name: "name_of small_fs 0 = [97]"
  by (simp add: name_of_def small_fs_def)

lemma small_fs_find: "find_entry small_fs [97] = Some 0" "find_entry small_fs [98] = None"
proof -
  have lk: "linked small_fs" using small_fs_inv by (simp add: fs_inv_def)
  show "find_entry small_fs [97] = Some 0"
    unfolding find_entry_iff [OF lk, of "[97]", simplified] by (simp add: small_fs_entries small_fs_name)
  show "find_entry small_fs [98] = None"
  proof (rule ccontr)
    assume "find_entry small_fs [98] \<noteq> None"
    then obtain i where "find_entry small_fs [98] = Some i" by blast
    with find_entry_some [of "[98]" small_fs i] have "used small_fs i" "name_of small_fs i = [98]" by simp_all
    then show False by (simp add: small_fs_entries small_fs_name)
  qed
qed

lemma small_fs_file: "files id small_fs [97] = Some [0, 0, 0]"
proof -
  have "length (blk (\<lambda>d. dr_bytes d) small_fs 1) = 512"
    using small_fs_drive length_dr_bytes by (simp add: on_drive_def volume_ok_def blk_def)
  moreover have "set (blk (\<lambda>d. dr_bytes d) small_fs 1) \<subseteq> {0}"
    by (auto simp: blk_def dr_bytes_def small_fs_def blank_drive_def word_bytes_def)
  ultimately have t: "take 3 (blk (\<lambda>d. dr_bytes d) small_fs 1) = replicate 3 0"
    by (intro replicate_eqI) (auto dest: in_set_takeD)
  have "replicate 3 (0 :: u8) = [0, 0, 0]" by (simp add: numeral_3_eq_3)
  moreover have "de_size (fs_dir small_fs ! 0) = 3" by (simp add: small_fs_def)
  ultimately show ?thesis
    using t by (simp add: files_def contents_def small_fs_find file_bytes_def small_fs_chain)
qed

lemma small_fs_room: "has_slot small_fs [98]" "1 \<le> room_for small_fs [98]"
proof -
  show "has_slot small_fs [98]" unfolding has_slot_def small_fs_entries by (intro disjI2 exI [of _ 1]) simp
  have "{2, 3} \<subseteq> free_in small_fs" by (simp add: free_in_def free_blocks_def small_fs_def nblocks_def)
  then have "card {2, 3 :: nat} \<le> card (free_in small_fs)" by (intro card_mono) simp_all
  then show "1 \<le> room_for small_fs [98]" by (simp add: room_for_def)
qed

theorem fs_write_stores_witness:
  "\<exists>st'. fs_write (disk_wr drive_bus) [98] [7, 8, 9] 3 small_fs = (0, st') \<and>
     files id st' [98] = Some [7, 8, 9] \<and> files id st' [97] = Some [0, 0, 0]"
  using fs_write_stores [OF drive_bus_drives small_fs_drive small_fs_inv _ small_fs_room(1), of "[7, 8, 9]" 3]
    small_fs_room(2) small_fs_file
  by (auto simp: valid_name_def blocks_for_def)

theorem fs_write_disk_full_witness:
  "\<exists>st'. fs_write (disk_wr drive_bus) [98] (replicate 600000 1) 600000 small_fs = (- 1, st') \<and>
     files id st' [98] = Some []"
proof -
  have "card (free_in small_fs) \<le> card {..798 :: nat}"
    by (intro card_mono) (auto simp: free_in_def free_blocks_def nblocks_def small_fs_def)
  then have "room_for small_fs [98] < blocks_for (unat (600000 :: u32))"
    by (simp add: room_for_def small_fs_find blocks_for_def)
  from fs_write_disk_full [OF drive_bus_drives small_fs_drive small_fs_inv _ small_fs_room(1) _ this,
      of "replicate 600000 1"]
  show ?thesis by (auto simp: valid_name_def)
qed

theorem fs_read_returns_contents_witness:
  "\<exists>st'. fs_read (disk_rd drive_bus) [97] 2 small_fs = ((3, [0, 0]), st')"
proof -
  have "take 2 [0, 0, 0 :: u8] = [0, 0]" by (simp add: numeral_2_eq_2)
  then show ?thesis
    using fs_read_returns_contents [OF drive_bus_drives small_fs_drive small_fs_inv _ small_fs_file, of 2] by auto
qed

theorem fs_write_read_roundtrip_witness:
  "\<exists>st1 st2. fs_write (disk_wr drive_bus) [98] [7, 8, 9] 3 small_fs = (0, st1) \<and>
     fs_read (disk_rd drive_bus) [98] 100 st1 = ((3, [7, 8, 9]), st2)"
  using fs_write_read_roundtrip [OF drive_bus_drives small_fs_drive small_fs_inv _ small_fs_room(1), of "[7, 8, 9]" 3 100]
    small_fs_room(2)
  by (auto simp: valid_name_def blocks_for_def)

theorem fs_delete_removes_witness:
  "\<exists>st'. fs_delete (disk_wr drive_bus) [97] small_fs = (0, st') \<and> files id st' [97] = None"
  using fs_delete_removes [OF drive_bus_drives small_fs_drive small_fs_inv _ small_fs_find(1)] by auto

theorem fs_rename_moves_witness:
  "\<exists>st'. fs_rename (disk_wr drive_bus) [97] [98] small_fs = (0, st') \<and>
     files id st' [98] = Some [0, 0, 0] \<and> files id st' [97] = None"
  using fs_rename_moves [OF drive_bus_drives small_fs_drive small_fs_inv _ _ small_fs_find(1) small_fs_find(2)] small_fs_file
  by (auto simp: valid_name_def)

end
