(* ===== verification/Input.thy ===== *)
theory Input
  imports Interfaces
begin

text \<open>
  \<open>kernel/input.c\<close>: the event queue, a ring of 128 slots with one slot kept empty. The same
  ring code is in \<open>keyboard.c\<close> for characters, so the ring is polymorphic in what it holds.
  \<open>input_wait\<close> sleeps until an interrupt; as a function of the interrupts still to come it
  returns the first event any of them delivers. Interrupt masking (\<open>cli\<close>, \<open>sti\<close>) makes each
  operation atomic, so the interleavings of producers and consumer are sequences of them.
\<close>

definition QUEUE_SIZE :: u32 where "QUEUE_SIZE = 128"

datatype event_type = EV_KEY | EV_MOUSE_MOVE | EV_MOUSE_BUTTON | EV_TICK

record event =
  ev_type :: event_type
  ev_ch :: u8
  ev_button :: u8
  ev_pressed :: u8
  ev_x :: u16
  ev_y :: u16

definition no_event :: event where
  "no_event = \<lparr>ev_type = EV_KEY, ev_ch = 0, ev_button = 0, ev_pressed = 0, ev_x = 0, ev_y = 0\<rparr>"

definition KEY_DEV_CONSOLE :: u8 where "KEY_DEV_CONSOLE = 0x05"
definition KEY_LEFT :: u8 where "KEY_LEFT = 0x80"
definition KEY_RIGHT :: u8 where "KEY_RIGHT = 0x81"
definition KEY_UP :: u8 where "KEY_UP = 0x82"
definition KEY_DOWN :: u8 where "KEY_DOWN = 0x83"
definition KEY_HOME :: u8 where "KEY_HOME = 0x84"
definition KEY_END :: u8 where "KEY_END = 0x85"
definition KEY_DEL :: u8 where "KEY_DEL = 0x86"
definition KEY_CTRL :: "u8 \<Rightarrow> u8" where "KEY_CTRL c = c - 97 + 1"

record 'a ring =
  slots :: "nat \<Rightarrow> 'a"
  r_head :: u32
  r_tail :: u32

definition ring_push :: "'a \<Rightarrow> 'a ring \<Rightarrow> 'a ring" where
  "ring_push ev q =
     (let nxt = (r_head q + 1) AND (QUEUE_SIZE - 1)
      in if nxt = r_tail q then q
         else q\<lparr>slots := (slots q)(unat (r_head q) := ev), r_head := nxt\<rparr>)"

definition ring_poll :: "'a ring \<Rightarrow> 'a option \<times> 'a ring" where
  "ring_poll q =
     (if r_head q \<noteq> r_tail q
      then (Some (slots q (unat (r_tail q))), q\<lparr>r_tail := (r_tail q + 1) AND (QUEUE_SIZE - 1)\<rparr>)
      else (None, q))"

definition input_push :: "event \<Rightarrow> event ring \<Rightarrow> event ring" where
  "input_push ev q = ring_push ev q"

definition input_poll :: "event ring \<Rightarrow> event option \<times> event ring" where
  "input_poll q = ring_poll q"

text \<open>\<open>irqs\<close> are the events pushed by the interrupts the processor sleeps through; with no
  interrupt left it sleeps for ever.\<close>

fun input_wait :: "event list list \<Rightarrow> event ring \<Rightarrow> (event \<times> event ring) option" where
  "input_wait irqs q =
     (case input_poll q of
        (Some ev, q') \<Rightarrow> Some (ev, q')
      | (None, q') \<Rightarrow>
          (case irqs of [] \<Rightarrow> None | evs # rest \<Rightarrow> input_wait rest (fold input_push evs q')))"

definition input_flush :: "'a ring \<Rightarrow> 'a ring" where
  "input_flush q = q\<lparr>r_tail := r_head q\<rparr>"

definition ring_empty :: "'a \<Rightarrow> 'a ring" where
  "ring_empty x = \<lparr>slots = (\<lambda>_. x), r_head = 0, r_tail = 0\<rparr>"

subsection \<open>The ring is a bounded queue of 127\<close>

definition ring_ok :: "'a ring \<Rightarrow> bool" where
  "ring_ok q \<longleftrightarrow> r_head q < 128 \<and> r_tail q < 128"

definition ring_count :: "'a ring \<Rightarrow> nat" where
  "ring_count q =
     (if r_tail q \<le> r_head q then unat (r_head q) - unat (r_tail q)
      else unat (r_head q) + 128 - unat (r_tail q))"

definition ring_items :: "'a ring \<Rightarrow> 'a list" where
  "ring_items q = map (\<lambda>i. slots q ((unat (r_tail q) + i) mod 128)) [0..<ring_count q]"

lemma length_ring_items [simp]: "length (ring_items q) = ring_count q"
  by (simp add: ring_items_def)

lemma mod_128: "x < 256 \<Longrightarrow> x mod 128 = (if x < 128 then x else x - (128 :: nat))"
  by (simp add: mod_if)

lemma next_index:
  assumes "h < 128"
  shows "unat ((h + 1) AND (QUEUE_SIZE - 1)) = (unat h + 1) mod 128"
proof -
  have "QUEUE_SIZE - 1 = mask 7" by (simp add: QUEUE_SIZE_def mask_eq_exp_minus_1)
  then have "unat ((h + 1) AND (QUEUE_SIZE - 1)) = unat (h + 1) mod 2 ^ 7"
    by (simp only: unat_and_mask)
  moreover have "unat (h + 1) = unat h + 1"
    using assms unat_add32 [of h 1] by (simp add: word_less_nat_alt)
  ultimately show ?thesis by simp
qed

lemma ring_bounds:
  "ring_ok q \<Longrightarrow> unat (r_head q) < 128" "ring_ok q \<Longrightarrow> unat (r_tail q) < 128"
  by (simp_all add: ring_ok_def word_less_nat_alt)

lemma ring_count_alt:
  "ring_count q = (if unat (r_tail q) \<le> unat (r_head q) then unat (r_head q) - unat (r_tail q)
                   else unat (r_head q) + 128 - unat (r_tail q))"
  by (simp add: ring_count_def word_le_nat_alt)

lemma ring_full_iff:
  assumes "ring_ok q"
  shows "(r_head q + 1) AND (QUEUE_SIZE - 1) = r_tail q \<longleftrightarrow> ring_count q = 127"
  using ring_bounds [OF assms] next_index [of "r_head q"] assms
  by (auto simp: u32_eq_iff ring_count_alt ring_ok_def mod_128 split: if_splits)

lemma ring_push_ok: "ring_ok q \<Longrightarrow> ring_ok (ring_push x q)"
  using next_index [of "r_head q"] by (auto simp: ring_push_def ring_ok_def Let_def word_less_nat_alt)

lemma ring_push_items:
  assumes "ring_ok q"
  shows "ring_items (ring_push x q) = (if length (ring_items q) < 127 then ring_items q @ [x] else ring_items q)"
proof (cases "ring_count q = 127")
  case True
  then show ?thesis using ring_full_iff [OF assms] by (simp add: ring_push_def)
next
  case False
  note b = ring_bounds [OF assms]
  let ?q = "ring_push x q"
  have q: "slots ?q = (slots q)(unat (r_head q) := x)" "unat (r_head ?q) = (unat (r_head q) + 1) mod 128"
      "r_tail ?q = r_tail q"
    using ring_full_iff [OF assms] False next_index [of "r_head q"] assms
    by (simp_all add: ring_push_def ring_ok_def Let_def)
  have n: "ring_count ?q = ring_count q + 1" "ring_count q < 127"
    using b False by (auto simp: ring_count_alt q mod_128 split: if_splits)
  have h: "(unat (r_tail q) + ring_count q) mod 128 = unat (r_head q)"
    using b by (auto simp: ring_count_alt mod_128)
  have "(unat (r_tail q) + i) mod 128 \<noteq> unat (r_head q)" if "i < ring_count q" for i
    using b that by (auto simp: ring_count_alt mod_128 split: if_splits)
  then show ?thesis
    using n h by (simp add: ring_items_def q)
qed

lemma ring_poll_empty: "ring_ok q \<Longrightarrow> ring_items q = [] \<Longrightarrow> ring_poll q = (None, q)"
proof -
  assume a: "ring_ok q" "ring_items q = []"
  have "ring_count q = 0" using a(2) length_ring_items [of q] by simp
  then have "unat (r_head q) = unat (r_tail q)"
    using ring_bounds [OF a(1)] by (auto simp: ring_count_alt split: if_splits)
  then show ?thesis by (simp add: ring_poll_def u32_eq_iff)
qed

lemma ring_poll_first:
  assumes "ring_ok q" "ring_items q = x # xs"
  shows "\<exists>q'. ring_poll q = (Some x, q') \<and> ring_ok q' \<and> ring_items q' = xs"
proof -
  note b = ring_bounds [OF assms(1)]
  let ?q = "q\<lparr>r_tail := (r_tail q + 1) AND (QUEUE_SIZE - 1)\<rparr>"
  have t: "unat (r_tail ?q) = (unat (r_tail q) + 1) mod 128"
    using next_index [of "r_tail q"] assms(1) by (simp add: ring_ok_def)
  have c: "0 < ring_count q" using assms(2) length_ring_items [of q] by simp
  then have ne: "unat (r_head q) \<noteq> unat (r_tail q)" by (auto simp: ring_count_alt)
  have n: "ring_count q = Suc (ring_count ?q)"
    using b c ne t by (auto simp: ring_count_alt mod_128 split: if_splits)
  have "(unat (r_tail q) + Suc i) mod 128 = ((unat (r_tail q) + 1) mod 128 + i) mod 128" for i
    by (simp add: mod_add_left_eq)
  then have "ring_items q = slots q (unat (r_tail q)) # ring_items ?q"
    using b unfolding ring_items_def n t
    by (simp add: upt_conv_Cons map_Suc_upt [symmetric] del: upt_Suc)
  moreover have "ring_ok ?q" using assms(1) t by (simp add: ring_ok_def word_less_nat_alt)
  ultimately show ?thesis
    using assms(2) ne by (simp add: ring_poll_def u32_eq_iff)
qed

interpretation event_queue: bounded_fifo input_push input_poll ring_items ring_ok 127
  by unfold_locales (simp_all add: input_push_def input_poll_def ring_push_ok ring_push_items
      ring_poll_empty ring_poll_first)

lemma ring_empty_ok [simp]: "ring_ok (ring_empty x)" "ring_items (ring_empty x) = []"
  by (simp_all add: ring_ok_def ring_empty_def ring_items_def ring_count_def)



end
