(* ===== verification/Irq.thy ===== *)
theory Irq
  imports Port_IO
begin

text \<open>
  The handler table of \<open>kernel/isr.c\<close> and the interrupt controller of \<open>kernel/pic.c\<close>. The
  code's function pointers are the three handlers the kernel registers.
\<close>

datatype irq_handler = Timer_Irq | Keyboard_Irq | Mouse_Irq

type_synonym irq_table = "nat \<Rightarrow> irq_handler option"

definition irq_register :: "nat \<Rightarrow> irq_handler \<Rightarrow> irq_table \<Rightarrow> irq_table" where
  "irq_register irq h tab = tab(irq := Some h)"

definition PIC1_CMD :: u16 where "PIC1_CMD = 0x20"
definition PIC1_DATA :: u16 where "PIC1_DATA = 0x21"
definition PIC2_CMD :: u16 where "PIC2_CMD = 0xA0"
definition PIC2_DATA :: u16 where "PIC2_DATA = 0xA1"
definition PIC_EOI :: u8 where "PIC_EOI = 0x20"

definition pic_init :: "'d bus \<Rightarrow> ('d, unit) state" where
  "pic_init bus =
     do { _ \<leftarrow> outb bus PIC1_CMD 0x11;
          _ \<leftarrow> outb bus PIC2_CMD 0x11;
          _ \<leftarrow> outb bus PIC1_DATA 0x20;
          _ \<leftarrow> outb bus PIC2_DATA 0x28;
          _ \<leftarrow> outb bus PIC1_DATA 0x04;
          _ \<leftarrow> outb bus PIC2_DATA 0x02;
          _ \<leftarrow> outb bus PIC1_DATA 0x01;
          _ \<leftarrow> outb bus PIC2_DATA 0x01;
          _ \<leftarrow> outb bus PIC1_DATA 0xF8;
          outb bus PIC2_DATA 0xEF }"

definition pic_send_eoi :: "'d bus \<Rightarrow> u8 \<Rightarrow> ('d, unit) state" where
  "pic_send_eoi bus irq =
     do { _ \<leftarrow> (if irq \<ge> 8 then outb bus PIC2_CMD PIC_EOI else State_Monad.return ());
          outb bus PIC1_CMD PIC_EOI }"

subsection \<open>The controllers\<close>

text \<open>One 8259 as documented: ICW1 (a command with bit 4) starts the initialisation sequence,
  the next three data writes are ICW2 to ICW4, later data writes are the mask; a command with
  bits 5 set and 3, 4 clear ends the interrupt in service.\<close>

record pic =
  pic_icw :: nat
  pic_vector :: u8
  pic_cascade :: u8
  pic_mode :: u8
  pic_mask :: u8
  pic_eois :: nat

definition pic_command :: "u8 \<Rightarrow> pic \<Rightarrow> pic" where
  "pic_command v p =
     (if v AND 0x10 \<noteq> 0 then p\<lparr>pic_icw := 1\<rparr>
      else if v AND 0x38 = 0x20 then p\<lparr>pic_eois := pic_eois p + 1\<rparr> else p)"

definition pic_data :: "u8 \<Rightarrow> pic \<Rightarrow> pic" where
  "pic_data v p =
     (if pic_icw p = 1 then p\<lparr>pic_vector := v, pic_icw := 2\<rparr>
      else if pic_icw p = 2 then p\<lparr>pic_cascade := v, pic_icw := 3\<rparr>
      else if pic_icw p = 3 then p\<lparr>pic_mode := v, pic_icw := 0\<rparr>
      else p\<lparr>pic_mask := v\<rparr>)"

definition pics_out :: "u16 \<Rightarrow> u8 \<Rightarrow> pic \<times> pic \<Rightarrow> pic \<times> pic" where
  "pics_out port v ps =
     (if port = 0x20 then (pic_command v (fst ps), snd ps)
      else if port = 0x21 then (pic_data v (fst ps), snd ps)
      else if port = 0xA0 then (fst ps, pic_command v (snd ps))
      else if port = 0xA1 then (fst ps, pic_data v (snd ps))
      else ps)"

text \<open>The hypothesis on the hardware: the bus carries two such controllers.\<close>

definition has_pics :: "'d bus \<Rightarrow> ('d \<Rightarrow> pic \<times> pic) \<Rightarrow> bool" where
  "has_pics bus \<beta> \<longleftrightarrow> (\<forall>p v d. p \<in> {0x20, 0x21, 0xA0, 0xA1} \<longrightarrow> \<beta> (bus_out8 bus p v d) = pics_out p v (\<beta> d))"

lemma has_pics_simps:
  assumes "has_pics bus \<beta>"
  shows "\<beta> (bus_out8 bus 0x20 v d) = (pic_command v (fst (\<beta> d)), snd (\<beta> d))"
    "\<beta> (bus_out8 bus 0x21 v d) = (pic_data v (fst (\<beta> d)), snd (\<beta> d))"
    "\<beta> (bus_out8 bus 0xA0 v d) = (fst (\<beta> d), pic_command v (snd (\<beta> d)))"
    "\<beta> (bus_out8 bus 0xA1 v d) = (fst (\<beta> d), pic_data v (snd (\<beta> d)))"
  using assms by (simp_all add: has_pics_def pics_out_def)

lemma init_sequence:
  "pic_data m (pic_data 1 (pic_data c (pic_data v (pic_command 0x11 p)))) =
     p\<lparr>pic_icw := 0, pic_vector := v, pic_cascade := c, pic_mode := 1, pic_mask := m\<rparr>"
  by (simp add: pic_command_def pic_data_def)

lemmas pic_ports = PIC1_CMD_def PIC1_DATA_def PIC2_CMD_def PIC2_DATA_def PIC_EOI_def

text \<open>The vector IRQ \<open>n\<close> raises, and whether it is let through.\<close>

definition irq_vector :: "pic \<times> pic \<Rightarrow> nat \<Rightarrow> nat" where
  "irq_vector ps n = (if n < 8 then unat (pic_vector (fst ps)) + n else unat (pic_vector (snd ps)) + n - 8)"

definition irq_enabled :: "pic \<times> pic \<Rightarrow> nat \<Rightarrow> bool" where
  "irq_enabled ps n =
     (if n < 8 then \<not> bit (pic_mask (fst ps)) n
      else \<not> bit (pic_mask (fst ps)) 2 \<and> \<not> bit (pic_mask (snd ps)) (n - 8))"

text \<open>Whatever state the controllers were in, after \<open>pic_init\<close> IRQ 0 to 15 raise vectors
  32 to 47 and exactly the timer, the keyboard, the cascade and the mouse are enabled.\<close>

theorem pic_init_remaps:
  assumes "has_pics bus \<beta>" "n < 16"
  shows "irq_vector (\<beta> (snd (run_state (pic_init bus) d))) n = 32 + n \<and>
    (irq_enabled (\<beta> (snd (run_state (pic_init bus) d))) n \<longleftrightarrow> n \<in> {0, 1, 2, 12})"
proof -
  have s: "\<beta> (snd (run_state (pic_init bus) d)) =
      ((fst (\<beta> d))\<lparr>pic_icw := 0, pic_vector := 0x20, pic_cascade := 4, pic_mode := 1, pic_mask := 0xF8\<rparr>,
       (snd (\<beta> d))\<lparr>pic_icw := 0, pic_vector := 0x28, pic_cascade := 2, pic_mode := 1, pic_mask := 0xEF\<rparr>)"
    by (simp add: pic_init_def pic_ports has_pics_simps [OF assms(1)] init_sequence)
  have "\<forall>n < 16. (if n < 8 then \<not> bit (0xF8 :: u8) n else \<not> bit (0xF8 :: u8) 2 \<and> \<not> bit (0xEF :: u8) (n - 8)) \<longleftrightarrow>
      n \<in> {0, 1, 2, 12}"
    by code_simp
  then have "(if n < 8 then \<not> bit (0xF8 :: u8) n else \<not> bit (0xF8 :: u8) 2 \<and> \<not> bit (0xEF :: u8) (n - 8)) \<longleftrightarrow>
      n \<in> {0, 1, 2, 12}"
    using assms(2) by blast
  then show ?thesis
    unfolding s irq_enabled_def irq_vector_def fst_conv snd_conv pic.simps by auto
qed

definition pics_bus :: "(pic \<times> pic) bus" where
  "pics_bus = \<lparr>bus_in8 = (\<lambda>_ d. (0, d)), bus_out8 = pics_out, bus_in16 = (\<lambda>_ d. (0, d)), bus_out16 = (\<lambda>_ _ d. d)\<rparr>"

definition raw_pic :: pic where
  "raw_pic = \<lparr>pic_icw = 0, pic_vector = 8, pic_cascade = 0, pic_mode = 0, pic_mask = 0xFF, pic_eois = 0\<rparr>"

lemma pics_bus_ok: "has_pics pics_bus id"
  by (simp add: has_pics_def pics_bus_def)

theorem pic_init_remaps_witness:
  "irq_vector (snd (run_state (pic_init pics_bus) (raw_pic, raw_pic))) 12 = 44 \<and>
   irq_enabled (snd (run_state (pic_init pics_bus) (raw_pic, raw_pic))) 12"
  using pic_init_remaps [OF pics_bus_ok, of 12 "(raw_pic, raw_pic)"] by simp

text \<open>The end of interrupt goes to the master, and to the slave exactly for IRQ 8 to 15.\<close>

lemma pic_send_eoi_correct:
  assumes "has_pics bus \<beta>"
  shows "\<beta> (snd (run_state (pic_send_eoi bus irq) d)) =
    ((fst (\<beta> d))\<lparr>pic_eois := pic_eois (fst (\<beta> d)) + 1\<rparr>,
     if irq \<ge> 8 then (snd (\<beta> d))\<lparr>pic_eois := pic_eois (snd (\<beta> d)) + 1\<rparr> else snd (\<beta> d))"
  by (auto simp: pic_send_eoi_def pic_ports has_pics_simps [OF assms] pic_command_def)

end
