(* ===== verification/Keyboard.thy ===== *)
theory Keyboard
  imports Input Irq
begin

text \<open>
  \<open>kernel/keyboard.c\<close>: the PS/2 keyboard. \<open>keyboard_byte\<close> is the interrupt handler on the
  scancode it read; the two consumers of a key are the character ring of the shell and the
  event queue. The abstraction decodes the byte stream into key presses and releases; the
  handler's modifier flags are shown to follow it.
\<close>

definition KBD_DATA :: u16 where "KBD_DATA = 0x60"
definition KBD_STATUS :: u16 where "KBD_STATUS = 0x64"
definition SC_LSHIFT :: u8 where "SC_LSHIFT = 0x2A"
definition SC_RSHIFT :: u8 where "SC_RSHIFT = 0x36"
definition SC_CAPS :: u8 where "SC_CAPS = 0x3A"
definition SC_EXTENDED :: u8 where "SC_EXTENDED = 0xE0"
definition SC_RELEASE :: u8 where "SC_RELEASE = 0x80"

definition str :: "string \<Rightarrow> u8 list" where
  "str s = map of_char s"

definition keymap_chars :: "u8 list" where
  "keymap_chars =
     [0, 27] @ str ''1234567890-='' @ [8] @
     [9] @ str ''qwertyuiop[]'' @ [10] @
     [0] @ str ''asdfghjkl;'' @ [39, 96] @
     [0, 92] @ str ''zxcvbnm,./'' @ [0] @
     [42, 0, 32]"

definition keymap_shift_chars :: "u8 list" where
  "keymap_shift_chars =
     [0, 27] @ str ''!@#$%^&*()_+'' @ [8] @
     [9] @ str ''QWERTYUIOP{}'' @ [10] @
     [0] @ str ''ASDFGHJKL:'' @ [34, 126] @
     [0, 124] @ str ''ZXCVBNM<>?'' @ [0] @
     [42, 0, 32]"

text \<open>The arrays have 128 entries, the unlisted ones 0.\<close>

definition keymap :: "u8 \<Rightarrow> u8" where
  "keymap sc = (if unat sc < length keymap_chars then keymap_chars ! unat sc else 0)"

definition keymap_shift :: "u8 \<Rightarrow> u8" where
  "keymap_shift sc = (if unat sc < length keymap_shift_chars then keymap_shift_chars ! unat sc else 0)"

record keyboard =
  kb_buf :: "u8 ring"
  shift_down :: bool
  ctrl_down :: bool
  caps_on :: bool
  extended :: bool

definition key_event :: "u8 \<Rightarrow> event" where
  "key_event c = no_event\<lparr>ev_type := EV_KEY, ev_ch := c\<rparr>"

definition push_special :: "u8 \<Rightarrow> event ring \<Rightarrow> event ring" where
  "push_special code q = input_push (key_event code) q"

definition extended_key :: "u8 \<Rightarrow> keyboard \<times> event ring \<Rightarrow> keyboard \<times> event ring" where
  "extended_key sc s =
     (let (k, q) = s
      in if sc = 0x1D then (k\<lparr>ctrl_down := True\<rparr>, q)
         else if sc = 0x9D then (k\<lparr>ctrl_down := False\<rparr>, q)
         else if sc = 0x48 then (k, push_special KEY_UP q)
         else if sc = 0x50 then (k, push_special KEY_DOWN q)
         else if sc = 0x4B then (k, push_special KEY_LEFT q)
         else if sc = 0x4D then (k, push_special KEY_RIGHT q)
         else if sc = 0x47 then (k, push_special KEY_HOME q)
         else if sc = 0x4F then (k, push_special KEY_END q)
         else if sc = 0x53 then (k, push_special KEY_DEL q)
         else (k, q))"

definition key_char :: "keyboard \<Rightarrow> u8 \<Rightarrow> u8" where
  "key_char k sc = (if shift_down k then keymap_shift sc else keymap sc)"

definition caps_flip :: "bool \<Rightarrow> u8 \<Rightarrow> u8" where
  "caps_flip caps c =
     (if caps \<and> (97 \<le> c \<and> c \<le> 122 \<or> 65 \<le> c \<and> c \<le> 90) then c XOR 0x20 else c)"

definition plain_key :: "u8 \<Rightarrow> keyboard \<times> event ring \<Rightarrow> keyboard \<times> event ring" where
  "plain_key sc s =
     (let (k, q) = s; c = key_char k sc
      in if c = 0 then (k, q)
         else if ctrl_down k then
           let lo = c OR 0x20
           in if lo = 115 \<or> lo = 122 \<or> lo = 121 then (k, push_special (KEY_CTRL lo) q) else (k, q)
         else let c' = caps_flip (caps_on k) c
              in (k\<lparr>kb_buf := ring_push c' (kb_buf k)\<rparr>, input_push (key_event c') q))"

definition keyboard_byte :: "u8 \<Rightarrow> keyboard \<times> event ring \<Rightarrow> keyboard \<times> event ring" where
  "keyboard_byte sc s =
     (let (k, q) = s
      in if sc = SC_EXTENDED then (k\<lparr>extended := True\<rparr>, q)
         else if extended k then extended_key sc (k\<lparr>extended := False\<rparr>, q)
         else if sc AND SC_RELEASE \<noteq> 0 then
           let key = sc AND 0x7F;
               k1 = (if key = SC_LSHIFT \<or> key = SC_RSHIFT then k\<lparr>shift_down := False\<rparr> else k);
               k2 = (if key = 0x1D then k1\<lparr>ctrl_down := False\<rparr> else k1)
           in (k2, q)
         else if sc = SC_LSHIFT \<or> sc = SC_RSHIFT then (k\<lparr>shift_down := True\<rparr>, q)
         else if sc = 0x1D then (k\<lparr>ctrl_down := True\<rparr>, q)
         else if sc = SC_CAPS then (k\<lparr>caps_on := \<not> caps_on k\<rparr>, q)
         else if sc = 0x58 then (k, input_push (key_event KEY_DEV_CONSOLE) q)
         else plain_key sc (k, q))"

definition keyboard_irq :: "'d bus \<Rightarrow> (keyboard \<times> event ring) \<Rightarrow> ('d, keyboard \<times> event ring) state" where
  "keyboard_irq bus s =
     do { sc \<leftarrow> inb bus KBD_DATA; State_Monad.return (keyboard_byte sc s) }"

partial_function (option) kbd_drain :: "'d bus \<Rightarrow> 'd \<Rightarrow> 'd option" where
  "kbd_drain bus d =
     (let (s, d1) = bus_in8 bus KBD_STATUS d
      in if s AND 1 \<noteq> 0 then kbd_drain bus (snd (bus_in8 bus KBD_DATA d1)) else Some d1)"

definition keyboard_init :: "'d bus \<Rightarrow> irq_table \<Rightarrow> 'd \<Rightarrow> (irq_table \<times> 'd) option" where
  "keyboard_init bus tab d =
     (case kbd_drain bus d of None \<Rightarrow> None | Some d' \<Rightarrow> Some (irq_register 1 Keyboard_Irq tab, d'))"

text \<open>As \<open>input_wait\<close>: \<open>bytes\<close> are the scancodes of the interrupts still to come.\<close>

fun keyboard_getchar :: "u8 list \<Rightarrow> keyboard \<times> event ring \<Rightarrow> (u8 \<times> keyboard \<times> event ring) option" where
  "keyboard_getchar bytes (k, q) =
     (case ring_poll (kb_buf k) of
        (Some c, r) \<Rightarrow> Some (c, k\<lparr>kb_buf := r\<rparr>, q)
      | (None, _) \<Rightarrow>
          (case bytes of [] \<Rightarrow> None | sc # rest \<Rightarrow> keyboard_getchar rest (keyboard_byte sc (k, q))))"

interpretation char_queue: bounded_fifo "ring_push :: u8 \<Rightarrow> _" ring_poll ring_items ring_ok 127
  by unfold_locales (simp_all add: ring_push_ok ring_push_items ring_poll_empty ring_poll_first)

subsection \<open>The decoded stream\<close>

text \<open>A press or release of a key, extended or not.\<close>

datatype key = Key bool bool u8

fun decode :: "bool \<Rightarrow> u8 list \<Rightarrow> key list" where
  "decode e [] = []"
| "decode e (b # bs) =
     (if b = 0xE0 then decode True bs else Key e (b < 0x80) (b AND 0x7F) # decode False bs)"

record modifiers =
  m_shift :: bool
  m_ctrl :: bool
  m_caps :: bool

text \<open>Either shift key, either control key, and caps lock on every press.\<close>

fun mod_step :: "key \<Rightarrow> modifiers \<Rightarrow> modifiers" where
  "mod_step (Key ext press code) m =
     (if code = 0x1D then m\<lparr>m_ctrl := press\<rparr>
      else if \<not> ext \<and> (code = 0x2A \<or> code = 0x36) then m\<lparr>m_shift := press\<rparr>
      else if \<not> ext \<and> code = 0x3A \<and> press then m\<lparr>m_caps := \<not> m_caps m\<rparr>
      else m)"

definition mods_of :: "keyboard \<Rightarrow> modifiers" where
  "mods_of k = \<lparr>m_shift = shift_down k, m_ctrl = ctrl_down k, m_caps = caps_on k\<rparr>"

lemma release_bit: "(b :: u8) AND SC_RELEASE \<noteq> 0 \<longleftrightarrow> \<not> b < 0x80"
proof -
  have "bit b 7 \<longleftrightarrow> odd (unat b div 128)"
  proof -
    have "bit (unat b) 7 = bit b 7" by (simp add: bit_unsigned_iff)
    then show ?thesis by (simp add: bit_iff_odd)
  qed
  also have "\<dots> \<longleftrightarrow> 128 \<le> unat b"
  proof -
    have "unat b div 128 = (if 128 \<le> unat b then 1 else 0)"
      using unat_lt8 [of b] by (auto intro!: div_nat_eqI)
    then show ?thesis by simp
  qed
  also have "\<dots> \<longleftrightarrow> \<not> b < 0x80"
    by (simp add: word_less_nat_alt not_less)
  finally show ?thesis
    using and_exp_eq_0_iff_not_bit [of b 7] by (simp add: SC_RELEASE_def)
qed

lemma key_code: "(b :: u8) AND 0x7F = (if b < 0x80 then b else b - 0x80)"
proof -
  have "unat (b AND 0x7F) = take_bit 7 (unat b)"
    by (simp add: unsigned_and_eq take_bit_eq_mask mask_eq_exp_minus_1)
  then have "unat (b AND 0x7F) = unat b mod 128"
    by (simp add: take_bit_eq_mod)
  then show ?thesis
    using unat_lt8 [of b]
    by (auto simp: word_unat_eq_iff word_less_nat_alt unat_sub word_le_nat_alt mod_if)
qed

lemma key_code_cases:
  assumes "(b :: u8) AND 0x7F = c"
  shows "b < 0x80 \<and> b = c \<or> \<not> b < 0x80 \<and> b = c + 0x80"
  using assms by (auto simp: key_code split: if_splits)

lemma extended_key_step:
  assumes "\<not> extended k"
  shows "mods_of (fst (extended_key b (k, q))) = mod_step (Key True (b < 0x80) (b AND 0x7F)) (mods_of k) \<and>
    \<not> extended (fst (extended_key b (k, q)))"
proof (cases "b AND 0x7F = 0x1D")
  case True
  then have "b = 0x1D \<or> b = 0x9D" using key_code_cases [OF True] by auto
  then show ?thesis
    using assms True by (elim disjE) (simp_all add: extended_key_def mods_of_def)
next
  case False
  then have "b \<noteq> 0x1D" "b \<noteq> 0x9D" by auto
  then have "fst (extended_key b (k, q)) = k" by (simp add: extended_key_def)
  with False assms show ?thesis by simp
qed

lemma plain_key_step:
  "mods_of (fst (plain_key b (k, q))) = mods_of k \<and> extended (fst (plain_key b (k, q))) = extended k"
  by (simp add: plain_key_def mods_of_def Let_def)

lemma keyboard_byte_step:
  "mods_of (fst (keyboard_byte b (k, q))) =
     (if b = 0xE0 then mods_of k else mod_step (Key (extended k) (b < 0x80) (b AND 0x7F)) (mods_of k)) \<and>
   extended (fst (keyboard_byte b (k, q))) = (b = 0xE0)"
proof -
  consider (prefix) "b = 0xE0" | (ext) "b \<noteq> 0xE0" "extended k" | (low) "b \<noteq> 0xE0" "\<not> extended k" "b < 0x80"
    | (high) "b \<noteq> 0xE0" "\<not> extended k" "\<not> b < 0x80" by blast
  then show ?thesis
  proof cases
    case prefix
    then show ?thesis by (simp add: keyboard_byte_def SC_EXTENDED_def mods_of_def)
  next
    case ext
    then have "keyboard_byte b (k, q) = extended_key b (k\<lparr>extended := False\<rparr>, q)"
      by (simp add: keyboard_byte_def SC_EXTENDED_def)
    moreover have "mods_of (k\<lparr>extended := False\<rparr>) = mods_of k" by (simp add: mods_of_def)
    ultimately show ?thesis
      using ext extended_key_step [of "k\<lparr>extended := False\<rparr>" b q] by simp
  next
    case low
    then have c: "b AND 0x7F = b" "b AND SC_RELEASE = 0" using release_bit [of b] by (simp_all add: key_code)
    consider "b = SC_LSHIFT" | "b = SC_RSHIFT" | "b = 0x1D" | "b = SC_CAPS" | "b = 0x58"
      | "b \<notin> {SC_LSHIFT, SC_RSHIFT, 0x1D, SC_CAPS, 0x58}" by blast
    then show ?thesis
    proof cases
      case 6
      then have "keyboard_byte b (k, q) = plain_key b (k, q)"
        using low c by (simp add: keyboard_byte_def SC_EXTENDED_def)
      then show ?thesis
        using 6 low c plain_key_step [of b k q] by (simp add: SC_LSHIFT_def SC_RSHIFT_def SC_CAPS_def)
    qed (use low c in \<open>simp_all add: keyboard_byte_def SC_EXTENDED_def SC_LSHIFT_def SC_RSHIFT_def
        SC_CAPS_def SC_RELEASE_def mods_of_def\<close>)
  next
    case high
    then have r: "b AND SC_RELEASE \<noteq> 0" using release_bit [of b] by simp
    consider "b AND 0x7F = SC_LSHIFT" | "b AND 0x7F = SC_RSHIFT" | "b AND 0x7F = 0x1D"
      | "b AND 0x7F \<notin> {SC_LSHIFT, SC_RSHIFT, 0x1D}" by blast
    then show ?thesis
      by cases (use high r in \<open>simp_all add: keyboard_byte_def SC_EXTENDED_def SC_LSHIFT_def SC_RSHIFT_def
        Let_def mods_of_def\<close>)
  qed
qed

lemma keyboard_stream:
  "mods_of (fst (fold keyboard_byte bs (k, q))) = fold mod_step (decode (extended k) bs) (mods_of k)"
proof (induction bs arbitrary: k q)
  case (Cons b bs)
  obtain k1 q1 where s: "keyboard_byte b (k, q) = (k1, q1)" by fastforce
  then show ?case
    using keyboard_byte_step [of b k q] Cons.IH [of k1 q1] by simp
qed simp

text \<open>The keyboard at boot: all flags clear, both queues empty.\<close>

definition keyboard_bss :: "keyboard \<times> event ring" where
  "keyboard_bss = (\<lparr>kb_buf = ring_empty 0, shift_down = False, ctrl_down = False, caps_on = False,
                    extended = False\<rparr>, ring_empty no_event)"

text \<open>After any stream of scancodes the handler's flags are exactly what the pressed and
  released keys in it amount to: either control key, either shift key but no extended fake
  shift, caps lock on each press.\<close>

theorem keyboard_modifiers:
  "mods_of (fst (fold keyboard_byte bs keyboard_bss)) =
     fold mod_step (decode False bs) \<lparr>m_shift = False, m_ctrl = False, m_caps = False\<rparr>"
  using keyboard_stream [of bs "fst keyboard_bss" "snd keyboard_bss"]
  by (simp add: keyboard_bss_def mods_of_def)

subsection \<open>What a key press delivers\<close>

text \<open>The keymaps agree: a letter's shifted form is its capital.\<close>

definition case_pair :: "u8 \<times> u8 \<Rightarrow> bool" where
  "case_pair = (\<lambda>(c, s). (97 \<le> c \<and> c \<le> 122 \<longrightarrow> s = c - 32) \<and> \<not> (65 \<le> c \<and> c \<le> 90) \<and>
     (65 \<le> s \<and> s \<le> 90 \<longrightarrow> 97 \<le> c \<and> c \<le> 122) \<and> \<not> (97 \<le> s \<and> s \<le> 122) \<and> c < 128 \<and> s < 128 \<and>
     (c = 0 \<longleftrightarrow> s = 0))"

lemma keymap_length: "length keymap_chars = 58" "length keymap_shift_chars = 58"
  by (simp_all add: keymap_chars_def keymap_shift_chars_def str_def)

lemma keymap_letters: "list_all case_pair (zip keymap_chars keymap_shift_chars)"
  by (simp add: keymap_chars_def keymap_shift_chars_def str_def case_pair_def)

lemma keymap_spec: "case_pair (keymap sc, keymap_shift sc)"
proof -
  note len = keymap_length
  show ?thesis
  proof (cases "unat sc < 58")
    case True
    then have z: "zip keymap_chars keymap_shift_chars ! unat sc = (keymap sc, keymap_shift sc)"
      by (simp add: len keymap_def keymap_shift_def)
    have "unat sc < length (zip keymap_chars keymap_shift_chars)" using True by (simp add: len)
    then have "case_pair (zip keymap_chars keymap_shift_chars ! unat sc)"
      by (rule list_all_length [THEN iffD1, OF keymap_letters, rule_format])
    then show ?thesis unfolding z .
  next
    case False
    then have "keymap sc = 0" "keymap_shift sc = 0" by (simp_all add: len keymap_def keymap_shift_def)
    then show ?thesis by (simp add: case_pair_def)
  qed
qed

lemma keymap_zero_iff: "keymap sc = 0 \<longleftrightarrow> keymap_shift sc = 0"
  and keymap_ascii: "keymap sc < 128" "keymap_shift sc < 128"
  using keymap_spec [of sc] unfolding case_pair_def prod.case by blast+

text \<open>The character a key press means: a letter is a capital iff exactly one of shift and caps
  lock holds; any other key follows shift alone.\<close>

definition meant_char :: "modifiers \<Rightarrow> u8 \<Rightarrow> u8" where
  "meant_char m sc =
     (if 97 \<le> keymap sc \<and> keymap sc \<le> 122
      then (if m_shift m \<noteq> m_caps m then keymap sc - 32 else keymap sc)
      else if m_shift m then keymap_shift sc else keymap sc)"

lemma flip_small: "\<forall>n \<in> set [97..<123]. (of_nat n :: u8) XOR 0x20 = of_nat n - 32 \<and> (of_nat n :: u8) - 32 \<noteq> 0 \<and> (of_nat n :: u8) - 32 < 128 \<and>
    (65 :: u8) \<le> of_nat n - 32 \<and> (of_nat n :: u8) - 32 \<le> 90"
  and flip_capital: "\<forall>n \<in> set [65..<91]. (of_nat n :: u8) XOR 0x20 = of_nat n + 32"
  by (simp_all add: upt_rec_numeral)

lemma flip_case:
  "97 \<le> c \<Longrightarrow> c \<le> 122 \<Longrightarrow> c XOR 0x20 = c - (32 :: u8) \<and> c - 32 \<noteq> 0 \<and> c - 32 < 128 \<and>
    65 \<le> c - 32 \<and> c - 32 \<le> 90"
  "65 \<le> c \<Longrightarrow> c \<le> 90 \<Longrightarrow> c XOR 0x20 = c + (32 :: u8)"
proof -
  have c: "of_nat (unat c) = c" by simp
  assume "97 \<le> c" "c \<le> 122"
  then have "unat c \<in> set [97..<123]" by (simp only: set_upt) (simp add: word_le_nat_alt)
  with flip_small c show "c XOR 0x20 = c - 32 \<and> c - 32 \<noteq> 0 \<and> c - 32 < 128 \<and> 65 \<le> c - 32 \<and> c - 32 \<le> 90" by metis
next
  have c: "of_nat (unat c) = c" by simp
  assume "65 \<le> c" "c \<le> 90"
  then have "unat c \<in> set [65..<91]" by (simp only: set_upt) (simp add: word_le_nat_alt)
  with flip_capital c show "c XOR 0x20 = c + 32" by metis
qed

lemma caps_letter:
  assumes "97 \<le> keymap sc" "keymap sc \<le> 122"
  shows "keymap_shift sc = keymap sc - 32" "caps_flip True (keymap sc) = keymap sc - 32"
    "caps_flip True (keymap sc - 32) = keymap sc"
proof -
  show "keymap_shift sc = keymap sc - 32" using assms keymap_spec [of sc] by (simp add: case_pair_def)
  note f = flip_case(1) [OF assms]
  show "caps_flip True (keymap sc) = keymap sc - 32" using assms f by (simp add: caps_flip_def)
  have "(keymap sc - 32) XOR 0x20 = keymap sc - 32 + 32" using f flip_case(2) by blast
  then show "caps_flip True (keymap sc - 32) = keymap sc" using f by (simp add: caps_flip_def)
qed

lemma caps_other:
  assumes "\<not> (97 \<le> keymap sc \<and> keymap sc \<le> 122)"
  shows "caps_flip b (keymap sc) = keymap sc" "caps_flip b (keymap_shift sc) = keymap_shift sc"
proof -
  have "\<not> (97 \<le> keymap_shift sc \<and> keymap_shift sc \<le> 122)" "\<not> (65 \<le> keymap_shift sc \<and> keymap_shift sc \<le> 90)"
      "\<not> (65 \<le> keymap sc \<and> keymap sc \<le> 90)"
    using assms keymap_spec [of sc] unfolding case_pair_def prod.case by blast+
  with assms show "caps_flip b (keymap sc) = keymap sc" "caps_flip b (keymap_shift sc) = keymap_shift sc"
    unfolding caps_flip_def by meson+
qed

lemma caps_off: "caps_flip False c = c" by (simp add: caps_flip_def)

lemma caps_flip_meant: "caps_flip (caps_on k) (key_char k sc) = meant_char (mods_of k) sc"
proof (cases "97 \<le> keymap sc \<and> keymap sc \<le> 122")
  case True
  then show ?thesis using caps_letter [of sc]
    by (cases "caps_on k"; cases "shift_down k") (simp_all add: caps_off key_char_def meant_char_def mods_of_def)
next
  case False
  then show ?thesis unfolding meant_char_def if_not_P [OF False]
    by (cases "shift_down k") (simp_all only: caps_other [OF False] key_char_def mods_of_def modifiers.simps if_True if_False simp_thms)
qed

lemma meant_char_nonzero: "keymap sc \<noteq> 0 \<Longrightarrow> meant_char m sc \<noteq> 0"
  using flip_case(1) [of "keymap sc"] keymap_zero_iff [of sc] by (simp add: meant_char_def)

lemma meant_char_ascii: "meant_char m sc < 128"
  using flip_case(1) [of "keymap sc"] keymap_ascii [of sc] by (simp add: meant_char_def)

lemma key_char_nonzero: "key_char k sc \<noteq> 0 \<longleftrightarrow> keymap sc \<noteq> 0"
  using keymap_zero_iff [of sc] by (simp add: key_char_def)

text \<open>C20: pressing a character key (no control held) appends one character to the shell's
  ring and the same character, as a key event, to the event queue; letters are capital iff
  exactly one of shift and caps lock is on, and the character is never 0.\<close>

theorem keyboard_types_character:
  assumes "\<not> extended k" "\<not> ctrl_down k" "sc < 0x80" "sc \<notin> {0x2A, 0x36, 0x1D, 0x3A, 0x58}" "keymap sc \<noteq> 0"
  shows "keyboard_byte sc (k, q) =
    (k\<lparr>kb_buf := ring_push (meant_char (mods_of k) sc) (kb_buf k)\<rparr>,
     input_push (key_event (meant_char (mods_of k) sc)) q) \<and> meant_char (mods_of k) sc \<noteq> 0"
proof -
  have "sc AND SC_RELEASE = 0" using assms(3) release_bit [of sc] by simp
  moreover have "sc \<noteq> 0xE0" using assms(3) by auto
  ultimately have "keyboard_byte sc (k, q) = plain_key sc (k, q)"
    using assms(1,4) by (simp add: keyboard_byte_def SC_EXTENDED_def SC_LSHIFT_def SC_RSHIFT_def SC_CAPS_def)
  then show ?thesis
    using assms(2,5) key_char_nonzero [of k sc] meant_char_nonzero [of sc] caps_flip_meant [of k sc] by (simp add: plain_key_def Let_def)
qed

theorem keyboard_types_character_witness:
  "keyboard_byte 0x1E (fst keyboard_bss\<lparr>caps_on := True\<rparr>, snd keyboard_bss) =
     (fst keyboard_bss\<lparr>caps_on := True, kb_buf := ring_push 65 (ring_empty 0)\<rparr>,
      input_push (key_event 65) (ring_empty no_event))"
proof -
  have "keymap 0x1E = 97" by code_simp
  then show ?thesis
    using keyboard_types_character [of "fst keyboard_bss\<lparr>caps_on := True\<rparr>" "0x1E" "snd keyboard_bss"]
    by (simp add: keyboard_bss_def meant_char_def mods_of_def)
qed

text \<open>The codes above 127 (arrows, delete) and the control codes stay out of the character ring.\<close>

lemma plain_key_ring:
  "kb_buf (fst (plain_key sc (k, q))) = kb_buf k \<or>
   (\<exists>c. c \<noteq> 0 \<and> c < 128 \<and> kb_buf (fst (plain_key sc (k, q))) = ring_push c (kb_buf k))"
proof (cases "key_char k sc = 0 \<or> ctrl_down k")
  case True
  then show ?thesis by (auto simp: plain_key_def Let_def)
next
  case False
  then have "meant_char (mods_of k) sc \<noteq> 0"
    using key_char_nonzero [of k sc] meant_char_nonzero by blast
  with False show ?thesis
    using caps_flip_meant [of k sc] meant_char_ascii [of "mods_of k" sc]
    by (intro disjI2 exI [of _ "meant_char (mods_of k) sc"]) (simp add: plain_key_def Let_def)
qed

lemma keyboard_byte_ring:
  "kb_buf (fst (keyboard_byte sc (k, q))) = kb_buf k \<or>
   (\<exists>c. c \<noteq> 0 \<and> c < 128 \<and> kb_buf (fst (keyboard_byte sc (k, q))) = ring_push c (kb_buf k))"
proof -
  have e: "kb_buf (fst (extended_key sc (k', q))) = kb_buf k'" for k'
    by (simp add: extended_key_def)
  have "kb_buf (fst (keyboard_byte sc (k, q))) \<in> {kb_buf k, kb_buf (fst (plain_key sc (k, q)))}"
    by (simp add: keyboard_byte_def e Let_def)
  with plain_key_ring [of sc k q] show ?thesis by auto
qed

text \<open>Whatever scancodes arrive, the character ring stays a well-formed queue that holds
  only ASCII characters, never 0: the special keys (arrows, delete, control combinations,
  the console key) reach the event queue alone.\<close>

theorem keyboard_ring_ascii:
  assumes "ring_ok (kb_buf k)" "\<forall>c \<in> set (ring_items (kb_buf k)). c \<noteq> 0 \<and> c < 128"
  shows "ring_ok (kb_buf (fst (fold keyboard_byte bs (k, q)))) \<and>
    (\<forall>c \<in> set (ring_items (kb_buf (fst (fold keyboard_byte bs (k, q))))). c \<noteq> 0 \<and> c < 128)"
  using assms
proof (induction bs arbitrary: k q)
  case (Cons b bs)
  obtain k1 q1 where s: "keyboard_byte b (k, q) = (k1, q1)" by fastforce
  have "ring_ok (kb_buf k1) \<and> (\<forall>c \<in> set (ring_items (kb_buf k1)). c \<noteq> 0 \<and> c < 128)"
    using keyboard_byte_ring [of b k q] s Cons.prems by (auto simp: ring_push_ok ring_push_items split: if_splits)
  with Cons.IH [of k1 q1] s show ?case by simp
qed simp

theorem keyboard_ring_ascii_witness:
  "ring_ok (kb_buf (fst (fold keyboard_byte [0x2A, 0x1E, 0xE0, 0x48] keyboard_bss)))"
  using keyboard_ring_ascii [of "fst keyboard_bss" "[0x2A, 0x1E, 0xE0, 0x48]" "snd keyboard_bss"]
  by (simp add: keyboard_bss_def)

subsection \<open>Draining the controller\<close>

text \<open>\<open>keyboard_init\<close> returns when the controller has finitely many bytes to give: \<open>pending\<close>
  counts them, status bit 0 shows them, and reading the data port takes one.\<close>

lemma kbd_drain_returns:
  assumes status: "\<And>d. fst (bus_in8 bus KBD_STATUS d) AND 1 \<noteq> 0 \<longleftrightarrow> 0 < pending d"
    and keep: "\<And>d. pending (snd (bus_in8 bus KBD_STATUS d)) = pending d"
    and take: "\<And>d. pending (snd (bus_in8 bus KBD_DATA d)) = pending d - 1"
  shows "\<exists>d'. kbd_drain bus d = Some d' \<and> pending d' = (0 :: nat)"
proof (induction "pending d" arbitrary: d)
  case 0
  obtain s d1 where s: "bus_in8 bus KBD_STATUS d = (s, d1)" by fastforce
  with 0 status [of d] keep [of d] show ?case by (simp add: kbd_drain.simps [of bus d])
next
  case (Suc n)
  obtain s d1 where s: "bus_in8 bus KBD_STATUS d = (s, d1)" by fastforce
  have "n = pending (snd (bus_in8 bus KBD_DATA d1))"
    using Suc(2) s keep [of d] take [of d1] by simp
  from Suc(1) [OF this] show ?case
    using Suc(2) s status [of d] by (simp add: kbd_drain.simps [of bus d])
qed

end
