(* ===== verification/Timer.thy ===== *)
theory Timer
  imports Input Irq
begin

text \<open>
  \<open>kernel/timer.c\<close>: the interval timer. Every interrupt counts one tick; every \<open>hz\<close> ticks an
  event tells the event loops that a second has passed.
\<close>

definition PIT_BASE_HZ :: u32 where "PIT_BASE_HZ = 1193182"
definition PIT_CHANNEL0 :: u16 where "PIT_CHANNEL0 = 0x40"
definition PIT_COMMAND :: u16 where "PIT_COMMAND = 0x43"

record timer =
  ticks :: u32
  hz :: u32

definition timer_irq :: "timer \<times> event ring \<Rightarrow> timer \<times> event ring" where
  "timer_irq = (\<lambda>(t, q).
     (let t' = t\<lparr>ticks := ticks t + 1\<rparr>
      in (t', if hz t' \<noteq> 0 \<and> ticks t' mod hz t' = 0 then input_push (no_event\<lparr>ev_type := EV_TICK\<rparr>) q else q)))"

text \<open>A frequency of 0 is a division by zero: the processor faults, \<open>None\<close>.\<close>

definition timer_init :: "'d bus \<Rightarrow> u32 \<Rightarrow> timer \<Rightarrow> irq_table \<Rightarrow> 'd \<Rightarrow> (timer \<times> irq_table \<times> 'd) option" where
  "timer_init bus freq t tab d =
     (if freq = 0 then None
      else let divisor = PIT_BASE_HZ div freq;
               d' = snd (run_state (do { _ \<leftarrow> outb bus PIT_COMMAND 0x36;
                                         _ \<leftarrow> outb bus PIT_CHANNEL0 (ucast divisor);
                                         outb bus PIT_CHANNEL0 (ucast (drop_bit 8 divisor)) }) d)
           in Some (t\<lparr>hz := freq\<rparr>, irq_register 0 Timer_Irq tab, d'))"

definition timer_ticks :: "timer \<Rightarrow> u32" where "timer_ticks t = ticks t"
definition timer_hz :: "timer \<Rightarrow> u32" where "timer_hz t = hz t"

subsection \<open>One event a second\<close>

lemma timer_run:
  assumes "hz t \<noteq> 0" "ticks t = 0" "n < 4294967296"
  shows "(timer_irq ^^ n) (t, q) =
    (t\<lparr>ticks := of_nat n\<rparr>, (input_push (no_event\<lparr>ev_type := EV_TICK\<rparr>) ^^ (n div unat (hz t))) q)"
  using assms(3)
proof (induction n)
  case 0
  then show ?case using assms(2) by simp
next
  case (Suc n)
  have u: "unat (of_nat (Suc n) :: u32) = Suc n" using Suc.prems by (intro unat_of_nat32)
  have z: "(of_nat (Suc n) :: u32) mod hz t = 0 \<longleftrightarrow> Suc n mod unat (hz t) = 0"
    by (simp only: u32_eq_iff unat_mod_distrib u) simp
  have d: "Suc n div unat (hz t) = (if Suc n mod unat (hz t) = 0 then Suc (n div unat (hz t)) else n div unat (hz t))"
    by (rule div_Suc)
  have "(timer_irq ^^ Suc n) (t, q) = timer_irq ((timer_irq ^^ n) (t, q))" by simp
  also have "\<dots> = timer_irq (t\<lparr>ticks := of_nat n\<rparr>, (input_push (no_event\<lparr>ev_type := EV_TICK\<rparr>) ^^ (n div unat (hz t))) q)"
    using Suc by simp
  also have "\<dots> = (t\<lparr>ticks := of_nat (Suc n)\<rparr>,
      if Suc n mod unat (hz t) = 0
      then input_push (no_event\<lparr>ev_type := EV_TICK\<rparr>) ((input_push (no_event\<lparr>ev_type := EV_TICK\<rparr>) ^^ (n div unat (hz t))) q)
      else (input_push (no_event\<lparr>ev_type := EV_TICK\<rparr>) ^^ (n div unat (hz t))) q)"
    using assms(1) z by (simp add: timer_irq_def Let_def add.commute)
  finally show ?case by (simp only: d) simp
qed

text \<open>From a freshly started timer, \<open>n\<close> interrupts (as long as the 32-bit counter does not
  wrap) leave the counter at \<open>n\<close> and have pushed exactly one tick event per \<open>hz\<close> of them.\<close>

theorem timer_seconds:
  assumes "timer_init bus freq t tab d = Some (t', tab', d')" "ticks t = 0" "n < 4294967296"
  shows "timer_ticks (fst ((timer_irq ^^ n) (t', q))) = of_nat n \<and>
    snd ((timer_irq ^^ n) (t', q)) = (input_push (no_event\<lparr>ev_type := EV_TICK\<rparr>) ^^ (n div unat freq)) q \<and>
    tab' 0 = Some Timer_Irq"
proof -
  have t: "t' = t\<lparr>hz := freq\<rparr>" "freq \<noteq> 0" "tab' = irq_register 0 Timer_Irq tab"
    using assms(1) by (auto simp: timer_init_def Let_def split: if_splits)
  then show ?thesis
    using timer_run [of t' n q] assms(2, 3) by (simp add: timer_ticks_def irq_register_def)
qed

theorem timer_seconds_witness:
  "\<exists>t' tab' d'. timer_init pics_bus 100 \<lparr>ticks = 0, hz = 0\<rparr> (\<lambda>_. None) (raw_pic, raw_pic) = Some (t', tab', d') \<and>
     snd ((timer_irq ^^ 250) (t', ring_empty no_event)) =
       input_push (no_event\<lparr>ev_type := EV_TICK\<rparr>) (input_push (no_event\<lparr>ev_type := EV_TICK\<rparr>) (ring_empty no_event))"
proof -
  have "\<exists>t' tab' d'. timer_init pics_bus 100 \<lparr>ticks = 0, hz = 0\<rparr> (\<lambda>_. None) (raw_pic, raw_pic) = Some (t', tab', d')"
    by (simp add: timer_init_def Let_def)
  then obtain t' tab' d' where i: "timer_init pics_bus 100 \<lparr>ticks = 0, hz = 0\<rparr> (\<lambda>_. None) (raw_pic, raw_pic) = Some (t', tab', d')"
    by blast
  have "snd ((timer_irq ^^ 250) (t', ring_empty no_event)) = (input_push (no_event\<lparr>ev_type := EV_TICK\<rparr>) ^^ 2) (ring_empty no_event)"
    using timer_seconds [OF i, of 250 "ring_empty no_event"] by simp
  then show ?thesis using i by (simp add: numeral_2_eq_2)
qed

text \<open>The divisor register has 16 bits: every frequency of at least 19 Hz is programmed as
  computed, a lower one is not.\<close>

lemma divisor_fits:
  assumes "19 \<le> freq"
  shows "unat (PIT_BASE_HZ div freq) < 65536"
proof -
  have "unat (PIT_BASE_HZ div freq) \<le> 1193182 div 19"
    using assms div_le_mono2 [of 19 "unat freq" 1193182]
    by (simp add: PIT_BASE_HZ_def unat_div_distrib word_le_nat_alt)
  then show ?thesis by simp
qed

lemma slow_divisor_truncated: "\<not> unat (PIT_BASE_HZ div 18) < 65536"
  by (simp add: PIT_BASE_HZ_def unat_div_distrib)

end
