(* ===== verification/Rtc.thy ===== *)
theory Rtc
  imports Port_IO
begin

text \<open>
  \<open>kernel/rtc.c\<close>: the CMOS clock. The chip keeps the time in BCD or binary and in 12 or 24
  hour form, as its status register says; \<open>rtc_time\<close> is shown to invert all four encodings.
\<close>

definition CMOS_INDEX :: u16 where "CMOS_INDEX = 0x70"
definition CMOS_DATA :: u16 where "CMOS_DATA = 0x71"

definition cmos_read :: "'d bus \<Rightarrow> u8 \<Rightarrow> ('d, u8) state" where
  "cmos_read bus reg = do { _ \<leftarrow> outb bus CMOS_INDEX reg; inb bus CMOS_DATA }"

definition from_bcd :: "u8 \<Rightarrow> int" where
  "from_bcd v = uint (v AND 0x0F) + uint (drop_bit 4 v) * 10"

fun wait_update :: "'d bus \<Rightarrow> nat \<Rightarrow> ('d, unit) state" where
  "wait_update bus 0 = State_Monad.return ()"
| "wait_update bus (Suc n) =
     do { a \<leftarrow> cmos_read bus 0x0A;
          if a AND 0x80 = 0 then State_Monad.return () else wait_update bus n }"

definition decode_time :: "u8 \<Rightarrow> u8 \<Rightarrow> u8 \<Rightarrow> u8 \<Rightarrow> int \<times> int \<times> int" where
  "decode_time ss mm hh0 status_b =
     (let pm = hh0 AND 0x80;
          hh = hh0 AND 0x7F;
          (h, m, s) = (if status_b AND 0x04 = 0 then (from_bcd hh, from_bcd mm, from_bcd ss)
                       else (uint hh, uint mm, uint ss));
          h' = (if status_b AND 0x02 = 0
                then (if pm \<noteq> 0 then h mod 12 + 12 else h mod 12) else h)
      in (h', m, s))"

definition rtc_time :: "'d bus \<Rightarrow> ('d, int \<times> int \<times> int) state" where
  "rtc_time bus =
     do { _ \<leftarrow> wait_update bus 100000;
          ss \<leftarrow> cmos_read bus 0x00;
          mm \<leftarrow> cmos_read bus 0x02;
          hh \<leftarrow> cmos_read bus 0x04;
          status_b \<leftarrow> cmos_read bus 0x0B;
          State_Monad.return (decode_time ss mm hh status_b) }"

subsection \<open>The chip's encodings\<close>

text \<open>As the data sheet has them: 12-hour form counts 12, 1, ..., 11 with the top bit for PM.\<close>

definition to_bcd :: "nat \<Rightarrow> u8" where "to_bcd n = of_nat (n div 10 * 16 + n mod 10)"

definition encode_byte :: "bool \<Rightarrow> nat \<Rightarrow> u8" where
  "encode_byte binary n = (if binary then of_nat n else to_bcd n)"

definition encode_hour :: "bool \<Rightarrow> bool \<Rightarrow> nat \<Rightarrow> u8" where
  "encode_hour binary h24 h =
     (if h24 then encode_byte binary h
      else (let t = (if h mod 12 = 0 then 12 else h mod 12)
            in encode_byte binary t OR (if 12 \<le> h then 0x80 else 0)))"

definition status_of :: "bool \<Rightarrow> bool \<Rightarrow> u8" where
  "status_of binary h24 = (if binary then 4 else 0) OR (if h24 then 2 else 0)"

lemma byte_decodes:
  "\<forall>n \<in> set [0..<60]. from_bcd (to_bcd n) = int n \<and> uint (of_nat n :: u8) = int n"
  by code_simp

lemma hour_decodes:
  "\<forall>h \<in> set [0..<24]. fst (decode_time 0 0 (encode_hour True True h) (status_of True True)) = int h \<and>
     fst (decode_time 0 0 (encode_hour True False h) (status_of True False)) = int h \<and>
     fst (decode_time 0 0 (encode_hour False True h) (status_of False True)) = int h \<and>
     fst (decode_time 0 0 (encode_hour False False h) (status_of False False)) = int h"
  by code_simp

lemma decode_hour_only: "fst (decode_time ss mm hh st) = fst (decode_time 0 0 hh st)"
  by (simp add: decode_time_def Let_def case_prod_beta)

lemma status_binary: "status_of binary h24 AND 0x04 = 0 \<longleftrightarrow> \<not> binary"
  by (cases binary; cases h24) (simp_all add: status_of_def)

lemma decode_encoded:
  assumes "h < 24" "m < 60" "s < 60"
  shows "decode_time (encode_byte binary s) (encode_byte binary m) (encode_hour binary h24 h) (status_of binary h24) =
    (int h, int m, int s)"
proof -
  have hour: "fst (decode_time 0 0 (encode_hour binary h24 h) (status_of binary h24)) = int h"
    using hour_decodes assms(1) by (cases binary; cases h24) simp_all
  have byte: "from_bcd (to_bcd n) = int n \<and> uint (of_nat n :: u8) = int n" if "n < 60" for n
    using byte_decodes that by simp
  have "snd (decode_time (encode_byte binary s) (encode_byte binary m) (encode_hour binary h24 h) (status_of binary h24)) = (int m, int s)"
    using byte [OF assms(2)] byte [OF assms(3)]
    by (cases binary) (simp_all add: decode_time_def Let_def case_prod_beta status_binary encode_byte_def)
  with hour show ?thesis
    using decode_hour_only [of "encode_byte binary s" "encode_byte binary m"] by (simp add: prod_eq_iff)
qed

text \<open>The chip: an index register and 128 bytes of which the first hold the time; nothing here
  changes them while they are being read.\<close>

definition has_cmos :: "'d bus \<Rightarrow> ('d \<Rightarrow> u8) \<Rightarrow> ('d \<Rightarrow> u8 \<Rightarrow> u8) \<Rightarrow> bool" where
  "has_cmos bus index regs \<longleftrightarrow>
     (\<forall>d v. index (bus_out8 bus CMOS_INDEX v d) = v \<and> regs (bus_out8 bus CMOS_INDEX v d) = regs d) \<and>
     (\<forall>d. fst (bus_in8 bus CMOS_DATA d) = regs d (index d) \<and>
          index (snd (bus_in8 bus CMOS_DATA d)) = index d \<and> regs (snd (bus_in8 bus CMOS_DATA d)) = regs d)"

lemma cmos_read_value:
  assumes "has_cmos bus index regs" "run_state (cmos_read bus r) d = (v, d')"
  shows "v = regs d r" "regs d' = regs d"
  using assms(1) arg_cong [OF assms(2), of fst] arg_cong [OF assms(2), of snd]
  by (auto simp: cmos_read_def has_cmos_def)

lemma wait_update_keeps:
  assumes "has_cmos bus index regs"
  shows "regs (snd (run_state (wait_update bus n) d)) = regs d"
proof (induction n arbitrary: d)
  case (Suc n)
  obtain v d' where r: "run_state (cmos_read bus 0x0A) d = (v, d')" by fastforce
  then show ?case using Suc cmos_read_value(2) [OF assms r] by simp
qed simp

text \<open>In all four encodings of the chip (BCD or binary, 12 or 24 hours) \<open>rtc_time\<close> gives
  back the time of day the chip holds, midnight and noon included.\<close>

theorem rtc_time_roundtrip:
  assumes "has_cmos bus index regs" "h < 24" "m < 60" "s < 60"
    and "regs d 0x00 = encode_byte binary s" "regs d 0x02 = encode_byte binary m"
    and "regs d 0x04 = encode_hour binary h24 h" "regs d 0x0B = status_of binary h24"
  shows "fst (run_state (rtc_time bus) d) = (int h, int m, int s)"
proof -
  let ?d0 = "snd (run_state (wait_update bus 100000) d)"
  obtain v0 d1 where 0: "run_state (cmos_read bus 0x00) ?d0 = (v0, d1)" by fastforce
  obtain v2 d2 where 2: "run_state (cmos_read bus 0x02) d1 = (v2, d2)" by fastforce
  obtain v4 d3 where 4: "run_state (cmos_read bus 0x04) d2 = (v4, d3)" by fastforce
  obtain vb d4 where b: "run_state (cmos_read bus 0x0B) d3 = (vb, d4)" by fastforce
  note rd = cmos_read_value [OF assms(1)]
  have "fst (run_state (rtc_time bus) d) = decode_time v0 v2 v4 vb"
    using 0 2 4 b by (simp add: rtc_time_def case_prod_beta Let_def del: wait_update.simps)
  moreover have "regs ?d0 = regs d" by (rule wait_update_keeps [OF assms(1)])
  ultimately show ?thesis
    using rd [OF 0] rd [OF 2] rd [OF 4] rd [OF b] assms(5-8) decode_encoded [OF assms(2-4)] by simp
qed

definition cmos_bus :: "(u8 \<times> (u8 \<Rightarrow> u8)) bus" where
  "cmos_bus = \<lparr>bus_in8 = (\<lambda>_ d. (snd d (fst d), d)), bus_out8 = (\<lambda>_ v d. (v, snd d)),
     bus_in16 = (\<lambda>_ d. (0, d)), bus_out16 = (\<lambda>_ _ d. d)\<rparr>"

theorem rtc_time_roundtrip_witness:
  "fst (run_state (rtc_time cmos_bus) (0, (\<lambda>_. 0)(0 := 0x59, 2 := 0x07, 4 := 0x92))) = (12, 7, 59)"
proof -
  have "has_cmos cmos_bus fst snd" by (simp add: has_cmos_def cmos_bus_def)
  from rtc_time_roundtrip [OF this, of 12 7 59 "(0, (\<lambda>_. 0)(0 := 0x59, 2 := 0x07, 4 := 0x92))" False False]
  show ?thesis by (simp add: encode_byte_def encode_hour_def to_bcd_def status_of_def)
qed

end
