(* ===== verification/Idt.thy ===== *)
theory Idt
  imports Prelude
begin

text \<open>
  \<open>kernel/idt.c\<close>: the interrupt descriptor table. The stub addresses come from assembly and
  are a parameter; the processor's reading of a gate is the specification.
\<close>

record idt_entry =
  base_low :: u16
  selector :: u16
  zero :: u8
  gate_flags :: u8
  base_high :: u16

definition no_gate :: idt_entry where
  "no_gate = \<lparr>base_low = 0, selector = 0, zero = 0, gate_flags = 0, base_high = 0\<rparr>"

definition set_gate :: "nat \<Rightarrow> u32 \<Rightarrow> (nat \<Rightarrow> idt_entry) \<Rightarrow> nat \<Rightarrow> idt_entry" where
  "set_gate n handler idt =
     idt(n := \<lparr>base_low = ucast (handler AND 0xFFFF), selector = 0x08, zero = 0, gate_flags = 0x8E,
               base_high = ucast (drop_bit 16 handler)\<rparr>)"

text \<open>The second component is the operand of \<open>lidt\<close>: limit and base; \<open>idt_addr\<close> is where the
  linker put the table.\<close>

definition idt_init :: "(nat \<Rightarrow> u32) \<Rightarrow> u32 \<Rightarrow> (nat \<Rightarrow> idt_entry) \<Rightarrow> (nat \<Rightarrow> idt_entry) \<times> u16 \<times> u32" where
  "idt_init isr_stub_table idt_addr idt =
     (fold (\<lambda>i. set_gate i (isr_stub_table i)) [0..<48] idt, 256 * 8 - 1, idt_addr)"

subsection \<open>What the processor reads\<close>

text \<open>A present 32-bit interrupt gate of ring 0, and the address it jumps to.\<close>

definition gate_target :: "idt_entry \<Rightarrow> (u16 \<times> u32) option" where
  "gate_target g =
     (if gate_flags g = 0x8E then Some (selector g, ucast (base_low g) OR push_bit 16 (ucast (base_high g))) else None)"

lemma gate_target_set: "gate_target (set_gate n h idt n) = Some (0x08, h)"
proof -
  have m: "(0xFFFF :: u32) = mask 16" by (simp add: mask_eq_exp_minus_1)
  have "ucast (ucast (h AND 0xFFFF) :: u16) OR push_bit 16 (ucast (ucast (drop_bit 16 h) :: u16)) = h"
    unfolding m by (rule bit_word_eqI) (auto simp: bit_simps)
  then show ?thesis by (simp add: gate_target_def set_gate_def)
qed

lemma set_gates: "fold (\<lambda>i. set_gate i (tab i)) [0..<k] idt n = (if n < k then set_gate n (tab n) idt n else idt n)"
  by (induction k) (auto simp: set_gate_def less_Suc_eq)

lemma idt_vectors:
  "gate_target (fst (idt_init tab a (\<lambda>_. no_gate)) n) = (if n < 48 then Some (0x08, tab n) else None)"
proof (cases "n < 48")
  case True
  have "fst (idt_init tab a (\<lambda>_. no_gate)) n = set_gate n (tab n) (\<lambda>_. no_gate) n"
    using True unfolding idt_init_def fst_conv set_gates by simp
  then show ?thesis using True gate_target_set by simp
next
  case False
  then have "fst (idt_init tab a (\<lambda>_. no_gate)) n = no_gate"
    unfolding idt_init_def fst_conv set_gates by simp
  then show ?thesis using False by (simp add: gate_target_def no_gate_def)
qed

end
