(* ===== verification/Fb.thy ===== *)
theory Fb
  imports Kstring Videoinfo Heap
begin

text \<open>
  \<open>kernel/fb.c\<close>, \<open>kernel/fb.h\<close>, \<open>kernel/font.h\<close>: pixel drawing on the linear framebuffer.
  The module's static variables are the record \<open>framebuffer\<close>; the pixels are bytes of the
  flat memory, at the addresses the code computes in 32-bit arithmetic. Coordinates are C
  \<open>int\<close>s, whose overflow is undefined, and are modelled as mathematical integers. A string
  argument is the list of its bytes before the terminating zero.
\<close>

text \<open>\<open>for (int i = a; i < b; i++)\<close> with a body that changes neither bound.\<close>

definition for_int :: "int \<Rightarrow> int \<Rightarrow> (int \<Rightarrow> 's \<Rightarrow> 's) \<Rightarrow> 's \<Rightarrow> 's" where
  "for_int a b body s = fold body [a..b - 1] s"

record framebuffer =
  lfb :: u32
  target :: u32
  backbuf :: u32
  pitch :: u32
  bypp :: u32
  scr_w :: int
  scr_h :: int
  cur_sprite :: u32
  cur_w :: int
  cur_h :: int
  cur_hx :: int
  cur_hy :: int
  cur_x :: int
  cur_y :: int
  cur_visible :: bool

definition pixel_offset :: "framebuffer \<Rightarrow> int \<Rightarrow> int \<Rightarrow> u32" where
  "pixel_offset f x y = of_int y * pitch f + of_int x * bypp f"

subsection \<open>Set-up\<close>

definition fb_init :: "mem \<Rightarrow> framebuffer \<Rightarrow> framebuffer" where
  "fb_init m f =
     (let vi = video_info_at m
      in f\<lparr>lfb := vi_lfb vi, target := vi_lfb vi, pitch := vi_pitch vi,
           bypp := ucast (vi_bpp vi div 8), scr_w := uint (vi_width vi), scr_h := uint (vi_height vi)\<rparr>)"

definition fb_buffer_size :: "framebuffer \<Rightarrow> u32" where
  "fb_buffer_size f = pitch f * of_int (scr_h f)"

definition fb_enable_backbuffer :: "framebuffer \<Rightarrow> heap \<Rightarrow> mem \<Rightarrow> (framebuffer \<times> heap \<times> mem) option" where
  "fb_enable_backbuffer f hp m =
     (case kmalloc (pitch f * of_int (scr_h f)) hp of None \<Rightarrow> None
      | Some (p, hp') \<Rightarrow>
          (if p = 0 then Some (f\<lparr>backbuf := p\<rparr>, hp', m)
           else Some (f\<lparr>backbuf := p, target := p\<rparr>, hp',
                      memcpy m p (lfb f) (pitch f * of_int (scr_h f)))))"

definition fb_width :: "framebuffer \<Rightarrow> u32" where "fb_width f = of_int (scr_w f)"
definition fb_height :: "framebuffer \<Rightarrow> u32" where "fb_height f = of_int (scr_h f)"

subsection \<open>Pixels and rectangles\<close>

definition put_bgr :: "u32 \<Rightarrow> u32 \<Rightarrow> mem \<Rightarrow> mem" where
  "put_bgr p rgb m = m(p := ucast rgb, p + 1 := ucast (drop_bit 8 rgb), p + 2 := ucast (drop_bit 16 rgb))"

definition fb_putpixel :: "framebuffer \<Rightarrow> int \<Rightarrow> int \<Rightarrow> u32 \<Rightarrow> mem \<Rightarrow> mem" where
  "fb_putpixel f x y rgb m =
     (if x < 0 \<or> y < 0 \<or> scr_w f \<le> x \<or> scr_h f \<le> y then m
      else let p = target f + pixel_offset f x y; m1 = put_bgr p rgb m
           in if bypp f = 4 then m1(p + 3 := 0) else m1)"

text \<open>The clipping that \<open>fb_fill_rect\<close> and \<open>fb_flip_rect\<close> share.\<close>

definition clip :: "framebuffer \<Rightarrow> int \<Rightarrow> int \<Rightarrow> int \<Rightarrow> int \<Rightarrow> int \<times> int \<times> int \<times> int" where
  "clip f x y w h =
     (let (w1, x1) = (if x < 0 then (w + x, 0) else (w, x));
          (h1, y1) = (if y < 0 then (h + y, 0) else (h, y));
          w2 = (if x1 + w1 > scr_w f then scr_w f - x1 else w1);
          h2 = (if y1 + h1 > scr_h f then scr_h f - y1 else h1)
      in (x1, y1, w2, h2))"

definition fill_row :: "framebuffer \<Rightarrow> u32 \<Rightarrow> int \<Rightarrow> u32 \<Rightarrow> mem \<Rightarrow> mem" where
  "fill_row f p w rgb m =
     (if bypp f = 4 then for_int 0 w (\<lambda>i m. store32 m (p + 4 * of_int i) rgb) m
      else snd (for_int 0 w (\<lambda>i (p, m). (p + 3, put_bgr p rgb m)) (p, m)))"

definition fb_fill_rect :: "framebuffer \<Rightarrow> int \<Rightarrow> int \<Rightarrow> int \<Rightarrow> int \<Rightarrow> u32 \<Rightarrow> mem \<Rightarrow> mem" where
  "fb_fill_rect f x y w h rgb m =
     (let (x1, y1, w1, h1) = clip f x y w h
      in if w1 \<le> 0 \<or> h1 \<le> 0 then m
         else for_int y1 (y1 + h1) (\<lambda>row. fill_row f (target f + pixel_offset f x1 row) w1 rgb) m)"

definition fb_draw_rect :: "framebuffer \<Rightarrow> int \<Rightarrow> int \<Rightarrow> int \<Rightarrow> int \<Rightarrow> u32 \<Rightarrow> mem \<Rightarrow> mem" where
  "fb_draw_rect f x y w h rgb m =
     (let m1 = fb_fill_rect f x y w 1 rgb m;
          m2 = fb_fill_rect f x (y + h - 1) w 1 rgb m1;
          m3 = fb_fill_rect f x y 1 h rgb m2
      in fb_fill_rect f (x + w - 1) y 1 h rgb m3)"

subsection \<open>Lines, text, shapes\<close>

text \<open>The loop of \<open>fb_line\<close> ends at a break only; that it returns is proved below.\<close>

partial_function (option) line_loop ::
  "framebuffer \<Rightarrow> u32 \<Rightarrow> int \<Rightarrow> int \<Rightarrow> int \<Rightarrow> int \<Rightarrow> int \<Rightarrow> int \<Rightarrow> int \<Rightarrow> int \<Rightarrow> int \<Rightarrow> mem \<Rightarrow> mem option" where
  "line_loop f rgb dx dy sx sy x1 y1 x0 y0 err m =
     (let m' = fb_putpixel f x0 y0 rgb m
      in if x0 = x1 \<and> y0 = y1 then Some m'
         else let e2 = err * 2;
                  (err1, xn) = (if e2 > - dy then (err - dy, x0 + sx) else (err, x0));
                  (err2, yn) = (if e2 < dx then (err1 + dx, y0 + sy) else (err1, y0))
              in line_loop f rgb dx dy sx sy x1 y1 xn yn err2 m')"

definition fb_line :: "framebuffer \<Rightarrow> int \<Rightarrow> int \<Rightarrow> int \<Rightarrow> int \<Rightarrow> u32 \<Rightarrow> mem \<Rightarrow> mem option" where
  "fb_line f x0 y0 x1 y1 rgb m =
     (let dx = (if x1 > x0 then x1 - x0 else x0 - x1);
          dy = (if y1 > y0 then y1 - y0 else y0 - y1);
          sx = (if x0 < x1 then 1 else - 1);
          sy = (if y0 < y1 then 1 else - 1)
      in line_loop f rgb dx dy sx sy x1 y1 x0 y0 (dx - dy) m)"

definition FONT_W :: int where "FONT_W = 8"
definition FONT_H :: int where "FONT_H = 16"
definition FONT_ADDR :: u32 where "FONT_ADDR = 0x6800"

definition font_glyph :: "u8 \<Rightarrow> u32" where
  "font_glyph c = FONT_ADDR + ucast c * of_int FONT_H"

definition glyph_bit :: "u8 \<Rightarrow> int \<Rightarrow> bool" where
  "glyph_bit bits gx \<longleftrightarrow> bits AND drop_bit (nat gx) 0x80 \<noteq> 0"

definition text_glyph :: "framebuffer \<Rightarrow> u32 \<Rightarrow> u8 \<Rightarrow> int \<Rightarrow> int \<Rightarrow> mem \<Rightarrow> mem" where
  "text_glyph f rgb c x y =
     for_int 0 FONT_H (\<lambda>gy m.
       (let bits = m (font_glyph c + of_int gy)
        in for_int 0 FONT_W (\<lambda>gx m. if glyph_bit bits gx then fb_putpixel f (x + gx) (y + gy) rgb m else m) m))"

fun fb_text :: "framebuffer \<Rightarrow> int \<Rightarrow> int \<Rightarrow> u8 list \<Rightarrow> u32 \<Rightarrow> mem \<Rightarrow> mem" where
  "fb_text f x y [] rgb m = m"
| "fb_text f x y (c # s) rgb m = fb_text f (x + FONT_W) y s rgb (text_glyph f rgb c x y m)"

definition scaled_glyph :: "framebuffer \<Rightarrow> u32 \<Rightarrow> int \<Rightarrow> u8 \<Rightarrow> int \<Rightarrow> int \<Rightarrow> mem \<Rightarrow> mem" where
  "scaled_glyph f rgb scale c x y =
     for_int 0 FONT_H (\<lambda>gy m.
       (let bits = m (font_glyph c + of_int gy)
        in for_int 0 FONT_W (\<lambda>gx m.
             if glyph_bit bits gx then fb_fill_rect f (x + gx * scale) (y + gy * scale) scale scale rgb m else m) m))"

fun fb_text_scaled :: "framebuffer \<Rightarrow> int \<Rightarrow> int \<Rightarrow> u8 list \<Rightarrow> u32 \<Rightarrow> int \<Rightarrow> mem \<Rightarrow> mem" where
  "fb_text_scaled f x y [] rgb scale m = m"
| "fb_text_scaled f x y (c # s) rgb scale m =
     fb_text_scaled f (x + FONT_W * scale) y s rgb scale (scaled_glyph f rgb scale c x y m)"

definition blend_channel :: "u32 \<Rightarrow> u32 \<Rightarrow> u8 \<Rightarrow> u8" where
  "blend_channel s a old = ucast ((s * a + ucast old * (255 - a)) div 255)"

definition fb_blend_pixel :: "framebuffer \<Rightarrow> int \<Rightarrow> int \<Rightarrow> u32 \<Rightarrow> u8 \<Rightarrow> mem \<Rightarrow> mem" where
  "fb_blend_pixel f x y rgb alpha m =
     (if x < 0 \<or> y < 0 \<or> scr_w f \<le> x \<or> scr_h f \<le> y \<or> alpha = 0 then m
      else let p = target f + pixel_offset f x y;
               a = ucast alpha;
               m1 = m(p := blend_channel (rgb AND 0xFF) a (m p));
               m2 = m1(p + 1 := blend_channel (drop_bit 8 rgb AND 0xFF) a (m1 (p + 1)))
           in m2(p + 2 := blend_channel (drop_bit 16 rgb AND 0xFF) a (m2 (p + 2))))"

definition fb_blend_rect :: "framebuffer \<Rightarrow> int \<Rightarrow> int \<Rightarrow> int \<Rightarrow> int \<Rightarrow> u32 \<Rightarrow> u8 \<Rightarrow> mem \<Rightarrow> mem" where
  "fb_blend_rect f x y w h rgb alpha =
     for_int y (y + h) (\<lambda>py. for_int x (x + w) (\<lambda>px. fb_blend_pixel f px py rgb alpha))"

function isqrt_loop :: "int \<Rightarrow> int \<Rightarrow> int" where
  "isqrt_loop v r = (if (r + 1) * (r + 1) \<le> v then isqrt_loop v (r + 1) else r)"
  by pat_completeness auto
termination
proof (relation "measure (\<lambda>(v, r). nat (v + 1 - r))")
  fix v r :: int
  assume "(r + 1) * (r + 1) \<le> v"
  moreover have "r + 1 \<le> (r + 1) * (r + 1)"
    using self_le_power [of "r + 1" 2] by (cases "1 \<le> r + 1") (auto simp: power2_eq_square intro: order_trans [of _ 0])
  ultimately show "((v, r + 1), v, r) \<in> measure (\<lambda>(v, r). nat (v + 1 - r))" by simp
qed simp

declare isqrt_loop.simps [simp del]

definition isqrt :: "int \<Rightarrow> int" where "isqrt v = isqrt_loop v 0"

definition fb_fill_circle :: "framebuffer \<Rightarrow> int \<Rightarrow> int \<Rightarrow> int \<Rightarrow> u32 \<Rightarrow> mem \<Rightarrow> mem" where
  "fb_fill_circle f cx cy r rgb =
     for_int (- r) (r + 1) (\<lambda>dy.
       (let half = isqrt (r * r - dy * dy)
        in fb_fill_rect f (cx - half) (cy + dy) (half * 2 + 1) 1 rgb))"

definition ROUND_TOP :: u32 where "ROUND_TOP = 1"
definition ROUND_BOTTOM :: u32 where "ROUND_BOTTOM = 2"

definition fb_round_inset :: "int \<Rightarrow> int \<Rightarrow> int" where
  "fb_round_inset d r =
     (if d \<ge> r then 0 else let dy = r - d in r - isqrt (r * r - dy * dy))"

definition row_inset :: "int \<Rightarrow> int \<Rightarrow> u32 \<Rightarrow> int \<Rightarrow> int" where
  "row_inset h r round_flags row =
     (if round_flags AND ROUND_TOP \<noteq> 0 \<and> row < r then fb_round_inset row r
      else if round_flags AND ROUND_BOTTOM \<noteq> 0 \<and> row \<ge> h - r then fb_round_inset (h - 1 - row) r
      else 0)"

definition fb_fill_rounded_rect ::
  "framebuffer \<Rightarrow> int \<Rightarrow> int \<Rightarrow> int \<Rightarrow> int \<Rightarrow> int \<Rightarrow> u32 \<Rightarrow> u32 \<Rightarrow> mem \<Rightarrow> mem" where
  "fb_fill_rounded_rect f x y w h r rgb round_flags =
     for_int 0 h (\<lambda>row m.
       (let inset = row_inset h r round_flags row;
            m1 = fb_fill_rect f (x + inset) (y + row) (w - 2 * inset) 1 rgb m
        in if inset > 0
           then fb_blend_pixel f (x + w - inset) (y + row) rgb 110
                  (fb_blend_pixel f (x + inset - 1) (y + row) rgb 110 m1)
           else m1))"

subsection \<open>The two buffers and the pointer sprite\<close>

definition sprite_pixel :: "framebuffer \<Rightarrow> mem \<Rightarrow> int \<Rightarrow> int \<Rightarrow> u32" where
  "sprite_pixel f m i j = load32 m (cur_sprite f + 4 * of_int (j * cur_w f + i))"

definition composite_pixel :: "framebuffer \<Rightarrow> int \<Rightarrow> int \<Rightarrow> mem \<Rightarrow> mem" where
  "composite_pixel f x y m =
     (let s = sprite_pixel f m (x - (cur_x f - cur_hx f)) (y - (cur_y f - cur_hy f));
          a = drop_bit 24 s
      in if a = 0 then m
         else let off = pixel_offset f x y;
                  dst = lfb f + off;
                  sr = drop_bit 16 s AND 0xFF; sg = drop_bit 8 s AND 0xFF; sb = s AND 0xFF;
                  m' = (if a = 255
                        then m(dst := ucast sb, dst + 1 := ucast sg, dst + 2 := ucast sr)
                        else let bg = backbuf f + off;
                                 m1 = m(dst := blend_channel sb a (m bg));
                                 m2 = m1(dst + 1 := blend_channel sg a (m1 (bg + 1)))
                             in m2(dst + 2 := blend_channel sr a (m2 (bg + 2))))
              in if bypp f = 4 then m'(dst + 3 := 0) else m')"

definition composite_cursor :: "framebuffer \<Rightarrow> int \<Rightarrow> int \<Rightarrow> int \<Rightarrow> int \<Rightarrow> mem \<Rightarrow> mem" where
  "composite_cursor f rx ry rw rh m =
     (if \<not> cur_visible f \<or> cur_sprite f = 0 \<or> backbuf f = 0 then m
      else let sx = cur_x f - cur_hx f; sy = cur_y f - cur_hy f;
               x0 = (if rx > sx then rx else sx);
               y0 = (if ry > sy then ry else sy);
               x1 = (if rx + rw < sx + cur_w f then rx + rw else sx + cur_w f);
               y1 = (if ry + rh < sy + cur_h f then ry + rh else sy + cur_h f);
               x0 = (if x0 < 0 then 0 else x0);
               y0 = (if y0 < 0 then 0 else y0);
               x1 = (if x1 > scr_w f then scr_w f else x1);
               y1 = (if y1 > scr_h f then scr_h f else y1)
           in for_int y0 y1 (\<lambda>y. for_int x0 x1 (\<lambda>x. composite_pixel f x y)) m)"

definition fb_snapshot :: "framebuffer \<Rightarrow> u32 \<Rightarrow> mem \<Rightarrow> mem" where
  "fb_snapshot f dst m = memcpy m dst (if backbuf f \<noteq> 0 then backbuf f else lfb f) (pitch f * of_int (scr_h f))"

definition fb_restore :: "framebuffer \<Rightarrow> u32 \<Rightarrow> mem \<Rightarrow> mem" where
  "fb_restore f src m = (if backbuf f \<noteq> 0 then memcpy m (backbuf f) src (pitch f * of_int (scr_h f)) else m)"

definition fb_flip :: "framebuffer \<Rightarrow> mem \<Rightarrow> mem" where
  "fb_flip f m =
     (if backbuf f = 0 then m
      else composite_cursor f 0 0 (scr_w f) (scr_h f)
             (memcpy m (lfb f) (backbuf f) (pitch f * of_int (scr_h f))))"

definition flip_row :: "framebuffer \<Rightarrow> int \<Rightarrow> int \<Rightarrow> int \<Rightarrow> mem \<Rightarrow> mem" where
  "flip_row f x w row m =
     (let off = pixel_offset f x row
      in memcpy m (lfb f + off) (backbuf f + off) (of_int w * bypp f))"

definition fb_flip_rect :: "framebuffer \<Rightarrow> int \<Rightarrow> int \<Rightarrow> int \<Rightarrow> int \<Rightarrow> mem \<Rightarrow> mem" where
  "fb_flip_rect f x y w h m =
     (if backbuf f = 0 then m
      else let (x1, y1, w1, h1) = clip f x y w h
           in if w1 \<le> 0 \<or> h1 \<le> 0 then m
              else composite_cursor f x1 y1 w1 h1 (for_int y1 (y1 + h1) (flip_row f x1 w1) m))"

definition fb_set_cursor_sprite :: "u32 \<Rightarrow> int \<Rightarrow> int \<Rightarrow> int \<Rightarrow> int \<Rightarrow> framebuffer \<Rightarrow> framebuffer" where
  "fb_set_cursor_sprite argb w h hot_x hot_y f =
     f\<lparr>cur_sprite := argb, cur_w := w, cur_h := h, cur_hx := hot_x, cur_hy := hot_y\<rparr>"

definition fb_cursor_show :: "bool \<Rightarrow> framebuffer \<times> mem \<Rightarrow> framebuffer \<times> mem" where
  "fb_cursor_show visible = (\<lambda>(f, m).
     (let f' = f\<lparr>cur_visible := visible\<rparr>
      in (f', fb_flip_rect f' (cur_x f' - cur_hx f') (cur_y f' - cur_hy f') (cur_w f') (cur_h f') m)))"

definition fb_cursor_move :: "int \<Rightarrow> int \<Rightarrow> framebuffer \<times> mem \<Rightarrow> framebuffer \<times> mem" where
  "fb_cursor_move x y = (\<lambda>(f, m).
     (let ox = cur_x f - cur_hx f; oy = cur_y f - cur_hy f;
          f' = f\<lparr>cur_x := x, cur_y := y\<rparr>;
          m1 = fb_flip_rect f' ox oy (cur_w f') (cur_h f') m
      in (f', fb_flip_rect f' (x - cur_hx f') (y - cur_hy f') (cur_w f') (cur_h f') m1)))"

definition scroll_row :: "framebuffer \<Rightarrow> int \<Rightarrow> int \<Rightarrow> mem \<Rightarrow> mem" where
  "scroll_row f pixels y m =
     memcpy m (target f + of_int y * pitch f) (target f + of_int (y + pixels) * pitch f)
       (of_int (scr_w f) * bypp f)"

definition fb_scroll_up :: "framebuffer \<Rightarrow> int \<Rightarrow> u32 \<Rightarrow> mem \<Rightarrow> mem" where
  "fb_scroll_up f pixels fill_rgb m =
     (let m1 = for_int 0 (scr_h f - pixels) (scroll_row f pixels) m;
          m2 = fb_fill_rect f 0 (scr_h f - pixels) (scr_w f) pixels fill_rgb m1
      in fb_flip f m2)"

end
