(* ===== verification/Fb_Draw.thy ===== *)
theory Fb_Draw
  imports Fb
begin

text \<open>
  What drawing does, as a picture: \<open>draws f A c m m'\<close> says that going from \<open>m\<close> to \<open>m'\<close> gives
  the pixels of \<open>A\<close> that are on the screen the colour \<open>c\<close> and leaves every other byte of
  memory as it was. Each operation of the framebuffer is shown to draw its shape, composed
  from the shapes of the operations it calls.
\<close>

subsection \<open>Counted loops\<close>

lemma for_int_empty [simp]: "b \<le> a \<Longrightarrow> for_int a b body s = s"
  by (simp add: for_int_def)

lemma for_int_step: "a \<le> b \<Longrightarrow> for_int a (b + 1) body s = body b (for_int a b body s)"
  using upto_rec2 [of a b] by (simp add: for_int_def)

lemma for_int_first: "a < b \<Longrightarrow> for_int a b body s = for_int (a + 1) b body (body a s)"
  using upto_rec1 [of a "b - 1"] by (simp add: for_int_def)

lemma for_int_induct:
  assumes "a \<le> b" "P a s" "\<And>i s. a \<le> i \<Longrightarrow> i < b \<Longrightarrow> P i s \<Longrightarrow> P (i + 1) (body i s)"
  shows "P b (for_int a b body s)"
  using assms
proof (induction b rule: int_ge_induct)
  case (step i)
  then show ?case by (simp add: for_int_step)
qed simp

lemma for_int_inv:
  assumes "P s" "\<And>i s. a \<le> i \<Longrightarrow> i < b \<Longrightarrow> P s \<Longrightarrow> P (body i s)"
  shows "P (for_int a b body s)"
proof (cases "a \<le> b")
  case True
  show ?thesis by (rule for_int_induct [OF True, where P = "\<lambda>_. P"]) (simp_all add: assms)
qed (simp add: assms)

text \<open>
  The interface of every loop that treats each element of a region once: an effect on a region
  does nothing on the empty region, and effects on disjoint regions join.
\<close>

locale region_effect =
  fixes effect :: "'p set \<Rightarrow> 's \<Rightarrow> 's \<Rightarrow> bool"
  assumes effect_none: "effect {} s s"
    and effect_join: "effect A s s1 \<Longrightarrow> effect B s1 s2 \<Longrightarrow> A \<inter> B = {} \<Longrightarrow> effect (A \<union> B) s s2"
begin

lemma effect_for:
  assumes "\<And>i s'. a \<le> i \<Longrightarrow> i < b \<Longrightarrow> effect (\<Union>j \<in> {a..<i}. A j) s s' \<Longrightarrow> effect (A i) s' (body i s')"
    and "\<And>i j. i < j \<Longrightarrow> A i \<inter> A j = {}"
  shows "effect (\<Union>i \<in> {a..<b}. A i) s (for_int a b body s)"
proof (cases "a \<le> b")
  case True
  show ?thesis
  proof (rule for_int_induct [OF True, where P = "\<lambda>j. effect (\<Union>i \<in> {a..<j}. A i) s"])
    fix i s' assume i: "a \<le> i" "i < b" and IH: "effect (\<Union>i \<in> {a..<i}. A i) s s'"
    have "(\<Union>j \<in> {a..<i}. A j) \<inter> A i = {}" using assms(2) by fastforce
    moreover have "{a..<i + 1} = insert i {a..<i}" using i by auto
    ultimately show "effect (\<Union>j \<in> {a..<i + 1}. A j) s (body i s')"
      using effect_join [OF IH assms(1) [OF i IH]] by (simp add: Un_commute)
  qed (simp add: effect_none)
qed (simp add: effect_none)

end

text \<open>The two nested loops over a rectangle of points.\<close>

definition rect :: "int \<Rightarrow> int \<Rightarrow> int \<Rightarrow> int \<Rightarrow> (int \<times> int) set" where
  "rect x y w h = {p. x \<le> fst p \<and> fst p < x + w \<and> y \<le> snd p \<and> snd p < y + h}"

lemma rect_rows: "(\<Union>j \<in> {y..<y + h}. rect x j w 1) = rect x y w h"
  by (auto simp: rect_def)

lemma rect_points: "(\<Union>i \<in> {x..<x + w}. {(i, j)}) = rect x j w 1"
proof (rule set_eqI)
  fix p :: "int \<times> int"
  show "p \<in> (\<Union>i \<in> {x..<x + w}. {(i, j)}) \<longleftrightarrow> p \<in> rect x j w 1"
    by (cases p) (auto simp: rect_def)
qed

locale point_effect = region_effect effect for effect :: "(int \<times> int) set \<Rightarrow> 's \<Rightarrow> 's \<Rightarrow> bool"
begin

lemma effect_rows:
  assumes "\<And>p A s'. p \<in> rect x y w h \<Longrightarrow> effect A s s' \<Longrightarrow> effect {p} s' (body (snd p) (fst p) s')"
  shows "effect (rect x y w h) s (for_int y (y + h) (\<lambda>j. for_int x (x + w) (body j)) s)"
  unfolding rect_rows [symmetric, where y = y and h = h]
proof (rule effect_for)
  fix j s1 assume j: "y \<le> j" "j < y + h" and e1: "effect (\<Union>j \<in> {y..<j}. rect x j w 1) s s1"
  show "effect (rect x j w 1) s1 (for_int x (x + w) (body j) s1)"
    unfolding rect_points [symmetric]
  proof (rule effect_for)
    fix i s2 assume i: "x \<le> i" "i < x + w" and e2: "effect (\<Union>i \<in> {x..<i}. {(i, j)}) s1 s2"
    have "(\<Union>j \<in> {y..<j}. rect x j w 1) \<inter> (\<Union>i \<in> {x..<i}. {(i, j)}) = {}" by (auto simp: rect_def)
    from assms [OF _ effect_join [OF e1 e2 this], of "(i, j)"] i j
    show "effect {(i, j)} s2 (body j i s2)" by (simp add: rect_def)
  qed auto
qed (auto simp: rect_def)

end

subsection \<open>Where the pixels are\<close>

definition on_screen :: "framebuffer \<Rightarrow> int \<times> int \<Rightarrow> bool" where
  "on_screen f p \<longleftrightarrow> 0 \<le> fst p \<and> fst p < scr_w f \<and> 0 \<le> snd p \<and> snd p < scr_h f"

text \<open>A surface: 24 or 32 bits a pixel, rows no longer than the pitch, within the address space.\<close>

definition surface :: "framebuffer \<Rightarrow> u32 \<Rightarrow> bool" where
  "surface f base \<longleftrightarrow>
     (bypp f = 3 \<or> bypp f = 4) \<and> 0 < scr_w f \<and> 0 < scr_h f \<and>
     nat (scr_w f) * unat (bypp f) \<le> unat (pitch f) \<and>
     unat base + unat (pitch f) * nat (scr_h f) \<le> 4294967296"

definition pix :: "framebuffer \<Rightarrow> u32 \<Rightarrow> int \<times> int \<Rightarrow> nat \<Rightarrow> u32" where
  "pix f base p k = base + pixel_offset f (fst p) (snd p) + of_nat k"

definition pixel :: "framebuffer \<Rightarrow> u32 \<Rightarrow> mem \<Rightarrow> int \<times> int \<Rightarrow> u8 \<times> u8 \<times> u8" where
  "pixel f base m p = (m (pix f base p 0), m (pix f base p 1), m (pix f base p 2))"

definition rgb_of :: "u32 \<Rightarrow> u8 \<times> u8 \<times> u8" where
  "rgb_of c = (ucast c, ucast (drop_bit 8 c), ucast (drop_bit 16 c))"

definition pixel_index :: "framebuffer \<Rightarrow> int \<times> int \<Rightarrow> nat \<Rightarrow> nat" where
  "pixel_index f p k = nat (snd p) * unat (pitch f) + (nat (fst p) * unat (bypp f) + k)"

lemma bypp_values: "surface f base \<Longrightarrow> unat (bypp f) = 3 \<or> unat (bypp f) = 4"
  by (auto simp: surface_def)

lemma pixel_in_row:
  assumes "surface f base" "on_screen f p" "k < unat (bypp f)"
  shows "nat (fst p) * unat (bypp f) + k < unat (pitch f)"
proof -
  have "nat (fst p) * unat (bypp f) + k < Suc (nat (fst p)) * unat (bypp f)" using assms(3) by simp
  also have "\<dots> \<le> nat (scr_w f) * unat (bypp f)"
    using assms(2) by (intro mult_le_mono1) (auto simp: on_screen_def)
  also have "\<dots> \<le> unat (pitch f)" using assms(1) by (simp add: surface_def)
  finally show ?thesis .
qed

lemma pixel_index_bound:
  assumes "surface f base" "on_screen f p" "k < unat (bypp f)"
  shows "pixel_index f p k < unat (pitch f) * nat (scr_h f)"
proof -
  have "pixel_index f p k < Suc (nat (snd p)) * unat (pitch f)"
    using pixel_in_row [OF assms] by (simp add: pixel_index_def)
  also have "\<dots> \<le> nat (scr_h f) * unat (pitch f)"
    using assms(2) by (intro mult_le_mono1) (auto simp: on_screen_def)
  finally show ?thesis by (simp add: mult.commute)
qed

lemma unat_pix:
  assumes "surface f base" "on_screen f p" "k < unat (bypp f)"
  shows "unat (pix f base p k) = unat base + pixel_index f p k"
proof -
  have "pix f base p k = of_nat (unat base + pixel_index f p k)"
    using assms(2) by (simp add: pix_def pixel_offset_def pixel_index_def on_screen_def)
  moreover have "unat base + pixel_index f p k < 4294967296"
    using pixel_index_bound [OF assms] assms(1) by (simp add: surface_def)
  ultimately show ?thesis by (simp only: unat_of_nat32)
qed

lemma div_mod_unique:
  assumes "a * n + r = b * n + s" "r < n" "s < (n :: nat)"
  shows "a = b \<and> r = s"
proof -
  have "(a * n + r) div n = a" "(b * n + s) div n = b" using assms(2, 3) by simp_all
  with assms(1) have "a = b" by metis
  with assms(1) show ?thesis by simp
qed

lemma pix_inject:
  assumes "surface f base" "on_screen f p" "on_screen f q" "j < unat (bypp f)" "k < unat (bypp f)"
  shows "pix f base p j = pix f base q k \<longleftrightarrow> p = q \<and> j = k"
proof
  assume "pix f base p j = pix f base q k"
  then have "pixel_index f p j = pixel_index f q k"
    using unat_pix [OF assms(1, 2, 4)] unat_pix [OF assms(1, 3, 5)] by simp
  then have y: "nat (snd p) = nat (snd q)"
    and r: "nat (fst p) * unat (bypp f) + j = nat (fst q) * unat (bypp f) + k"
    using div_mod_unique [OF _ pixel_in_row [OF assms(1, 2, 4)] pixel_in_row [OF assms(1, 3, 5)]]
    by (simp_all add: pixel_index_def)
  have "nat (fst p) = nat (fst q) \<and> j = k"
    using div_mod_unique [OF r assms(4, 5)] .
  with y assms(2, 3) show "p = q \<and> j = k"
    by (simp add: on_screen_def prod_eq_iff eq_nat_nat_iff)
qed simp

subsection \<open>Shapes\<close>

definition cells :: "framebuffer \<Rightarrow> u32 \<Rightarrow> (int \<times> int) set \<Rightarrow> u32 set" where
  "cells f base A = {a. \<exists>p \<in> A. on_screen f p \<and> (\<exists>k < unat (bypp f). a = pix f base p k)}"

definition touches :: "framebuffer \<Rightarrow> u32 \<Rightarrow> (int \<times> int) set \<Rightarrow> mem \<Rightarrow> mem \<Rightarrow> bool" where
  "touches f base A m m' \<longleftrightarrow> (\<forall>a. a \<notin> cells f base A \<longrightarrow> m' a = m a)"

definition draws :: "framebuffer \<Rightarrow> (int \<times> int) set \<Rightarrow> u32 \<Rightarrow> mem \<Rightarrow> mem \<Rightarrow> bool" where
  "draws f A c m m' \<longleftrightarrow>
     (\<forall>p \<in> A. on_screen f p \<longrightarrow> pixel f (target f) m' p = rgb_of c) \<and> touches f (target f) A m m'"

lemma cells_Un: "cells f base (A \<union> B) = cells f base A \<union> cells f base B"
  by (auto simp: cells_def)

lemma cells_mono: "A \<subseteq> B \<Longrightarrow> cells f base A \<subseteq> cells f base B"
  by (auto simp: cells_def)

lemma pix_in_cells:
  assumes "surface f base" "on_screen f p" "k < unat (bypp f)"
  shows "pix f base p k \<in> cells f base A \<longleftrightarrow> p \<in> A"
  using assms pix_inject [OF assms(1, 2)] unfolding cells_def by blast

lemma touches_refl [simp]: "touches f base A m m"
  by (simp add: touches_def)

lemma touches_trans: "touches f base A m m1 \<Longrightarrow> touches f base B m1 m2 \<Longrightarrow> touches f base (A \<union> B) m m2"
  by (simp add: touches_def cells_Un)

lemma touches_mono: "touches f base A m m' \<Longrightarrow> A \<subseteq> B \<Longrightarrow> touches f base B m m'"
  using cells_mono [of A B f base] by (auto simp: touches_def)

lemma touches_for:
  assumes "\<And>i m. a \<le> i \<Longrightarrow> i < b \<Longrightarrow> touches f base A m (body i m)"
  shows "touches f base A m (for_int a b body m)"
  using touches_trans [where A = A and B = A, unfolded Un_absorb]
  by (intro for_int_inv [where P = "touches f base A m"]) (simp, metis assms)

lemma touches_pixel:
  assumes "touches f base A m m'" "surface f base" "on_screen f p" "p \<notin> A"
  shows "pixel f base m' p = pixel f base m p"
proof -
  have "3 \<le> unat (bypp f)" using bypp_values [OF assms(2)] by auto
  then show ?thesis
    using assms by (simp add: touches_def pixel_def pix_in_cells)
qed

lemma draws_touches: "draws f A c m m' \<Longrightarrow> touches f (target f) A m m'"
  by (simp add: draws_def)

lemma draws_pixel:
  assumes "draws f A c m m'" "surface f (target f)" "on_screen f p"
  shows "pixel f (target f) m' p = (if p \<in> A then rgb_of c else pixel f (target f) m p)"
  using assms touches_pixel [OF draws_touches] by (auto simp: draws_def)

lemma draws_nothing: "(\<And>p. p \<in> A \<Longrightarrow> \<not> on_screen f p) \<Longrightarrow> draws f A c m m"
  by (auto simp: draws_def)

lemma draws_empty [simp]: "draws f {} c m m"
  by (rule draws_nothing) simp

lemma draws_Un:
  assumes "surface f (target f)" "draws f A c m m1" "draws f B c m1 m2"
  shows "draws f (A \<union> B) c m m2"
proof -
  have "pixel f (target f) m2 p = rgb_of c" if "p \<in> A \<union> B" "on_screen f p" for p
    using draws_pixel [OF assms(3, 1) that(2)] draws_pixel [OF assms(2, 1) that(2)] that(1) by auto
  then show ?thesis
    using touches_trans [OF draws_touches [OF assms(2)] draws_touches [OF assms(3)]]
    by (simp add: draws_def)
qed

lemma draws_cong:
  assumes "draws f A c m m'" "\<And>p. on_screen f p \<Longrightarrow> p \<in> A \<longleftrightarrow> p \<in> B"
  shows "draws f B c m m'"
proof -
  have "cells f (target f) A = cells f (target f) B" using assms(2) unfolding cells_def by blast
  then show ?thesis using assms unfolding draws_def touches_def by simp
qed

lemma draws_for:
  assumes "surface f (target f)"
    and "\<And>i m'. a \<le> i \<Longrightarrow> i < b \<Longrightarrow> touches f (target f) U m m' \<Longrightarrow> draws f (A i) c m' (body i m')"
    and "\<And>i. a \<le> i \<Longrightarrow> i < b \<Longrightarrow> A i \<subseteq> U"
  shows "draws f (\<Union>i \<in> {a..<b}. A i) c m (for_int a b body m)"
proof (cases "a \<le> b")
  case True
  show ?thesis
  proof (rule for_int_induct [OF True, where P = "\<lambda>j. draws f (\<Union>i \<in> {a..<j}. A i) c m"])
    show "draws f (\<Union>i \<in> {a..<a}. A i) c m m" by simp
    fix i m' assume i: "a \<le> i" "i < b" and IH: "draws f (\<Union>i \<in> {a..<i}. A i) c m m'"
    have "(\<Union>j \<in> {a..<i}. A j) \<subseteq> U" using i assms(3) by fastforce
    then have "touches f (target f) U m m'" by (rule touches_mono [OF draws_touches [OF IH]])
    then have "draws f (A i) c m' (body i m')" using assms(2) i by blast
    from draws_Un [OF assms(1) IH this]
    have "draws f ((\<Union>j \<in> {a..<i}. A j) \<union> A i) c m (body i m')" .
    moreover have "(\<Union>j \<in> {a..<i + 1}. A j) = (\<Union>j \<in> {a..<i}. A j) \<union> A i"
    proof -
      have "{a..<i + 1} = insert i {a..<i}" using i by auto
      then show ?thesis by auto
    qed
    ultimately show "draws f (\<Union>j \<in> {a..<i + 1}. A j) c m (body i m')" by simp
  qed
qed simp

subsection \<open>Pixels and rectangles\<close>

lemma put_bgr_pixel:
  assumes "surface f base" "on_screen f p"
  shows "pixel f base (put_bgr (pix f base p 0) c m) p = rgb_of c"
    and "pixel f base ((put_bgr (pix f base p 0) c m)(pix f base p 0 + 3 := 0)) p = rgb_of c"
  by (simp_all add: pixel_def put_bgr_def rgb_of_def pix_def add.assoc)

lemma put_bgr_other:
  assumes "a \<noteq> pix f base p 0" "a \<noteq> pix f base p 1" "a \<noteq> pix f base p 2"
  shows "put_bgr (pix f base p 0) c m a = m a"
  using assms by (simp add: put_bgr_def pix_def)

lemma not_in_cell:
  assumes "surface f base" "on_screen f p" "a \<notin> cells f base {p}"
  shows "a \<noteq> pix f base p 0" "a \<noteq> pix f base p 1" "a \<noteq> pix f base p 2" "bypp f = 4 \<Longrightarrow> a \<noteq> pix f base p 3"
proof -
  have not: "a \<noteq> pix f base p k" if "k < unat (bypp f)" for k
    using assms(2, 3) that unfolding cells_def by blast
  have "2 < unat (bypp f)" using bypp_values [OF assms(1)] by auto
  then show "a \<noteq> pix f base p 0" "a \<noteq> pix f base p 1" "a \<noteq> pix f base p 2"
    by (simp_all add: not)
  show "a \<noteq> pix f base p 3" if "bypp f = 4" using not [of 3] that by simp
qed

lemma draws_putpixel:
  assumes "surface f (target f)"
  shows "draws f {(x, y)} c m (fb_putpixel f x y c m)"
proof (cases "on_screen f (x, y)")
  case False
  then have "fb_putpixel f x y c m = m" by (auto simp: fb_putpixel_def on_screen_def)
  with False show ?thesis by (auto simp: draws_def)
next
  case True
  let ?p = "pix f (target f) (x, y) 0"
  have e: "fb_putpixel f x y c m =
      (let m1 = put_bgr ?p c m in if bypp f = 4 then m1(?p + 3 := 0) else m1)"
    using True by (simp add: fb_putpixel_def on_screen_def pix_def Let_def)
  have "fb_putpixel f x y c m a = m a" if a: "a \<notin> cells f (target f) {(x, y)}" for a
    using not_in_cell [OF assms True a] put_bgr_other [of a f "target f" "(x, y)" c m]
    by (auto simp: e Let_def pix_def)
  then show ?thesis
    using put_bgr_pixel [OF assms True] by (auto simp: draws_def touches_def e Let_def)
qed

lemma offset_next: "pixel_offset f (x + i) y = pixel_offset f x y + of_int i * bypp f"
  by (simp add: pixel_offset_def algebra_simps)

lemma draws_store32:
  assumes "surface f (target f)" "bypp f = 4" "on_screen f p"
  shows "draws f {p} c m (store32 m (pix f (target f) p 0) c)"
proof -
  let ?m = "(put_bgr (pix f (target f) p 0) c m)(pix f (target f) p 0 + 3 := ucast (drop_bit 24 c))"
  have e: "store32 m (pix f (target f) p 0) c = ?m"
    by (simp add: store32_def put_bgr_def byte_of_def)
  have "?m a = m a" if a: "a \<notin> cells f (target f) {p}" for a
    using not_in_cell [OF assms(1, 3) a] put_bgr_other [of a f "target f" p c m] assms(2)
    by (auto simp: pix_def)
  moreover have "pixel f (target f) ?m p = rgb_of c"
    by (simp add: pixel_def put_bgr_def rgb_of_def pix_def add.assoc)
  ultimately show ?thesis by (auto simp: draws_def touches_def e)
qed

lemma draws_bgr:
  assumes "surface f (target f)" "bypp f = 3" "on_screen f p"
  shows "draws f {p} c m (put_bgr (pix f (target f) p 0) c m)"
  using put_bgr_pixel [OF assms(1, 3)] not_in_cell [OF assms(1, 3)] put_bgr_other [of _ f "target f" p c m]
  by (auto simp: draws_def touches_def)

lemma row_pointer:
  assumes "0 \<le> w"
  shows "for_int 0 w (\<lambda>i (p, m). (p + 3, put_bgr p rgb m)) (p, m) =
    (p + 3 * of_int w, for_int 0 w (\<lambda>i. put_bgr (p + 3 * of_int i) rgb) m)"
  using assms
proof (induction w rule: int_ge_induct)
  case (step i)
  then show ?case by (simp add: for_int_step distrib_left add.assoc)
qed simp

lemma draws_fill_row:
  assumes s: "surface f (target f)" and w: "0 < w" and on: "on_screen f (x, y)" "on_screen f (x + w - 1, y)"
  shows "draws f (rect x y w 1) c m (fill_row f (target f + pixel_offset f x y) w c m)"
proof -
  let ?step = "\<lambda>i m. if bypp f = 4 then store32 m (pix f (target f) (x + i, y) 0) c
                     else put_bgr (pix f (target f) (x + i, y) 0) c m"
  have e: "fill_row f (target f + pixel_offset f x y) w c m = for_int 0 w ?step m"
  proof (cases "bypp f = 4")
    case True
    then show ?thesis by (simp add: fill_row_def offset_next pix_def mult.commute add.assoc)
  next
    case False
    then have "bypp f = 3" using s by (simp add: surface_def)
    then show ?thesis
      using w row_pointer [of w c "target f + pixel_offset f x y" m]
      by (simp add: fill_row_def offset_next pix_def mult.commute add.assoc)
  qed
  have "draws f (\<Union>i \<in> {0..<w}. {(x + i, y)}) c m (for_int 0 w ?step m)"
  proof (rule draws_for [OF s, where U = UNIV])
    fix i m' assume "0 \<le> i" "i < w"
    then have p: "on_screen f (x + i, y)" using on by (simp add: on_screen_def)
    show "draws f {(x + i, y)} c m' (?step i m')"
      using draws_store32 [OF s _ p] draws_bgr [OF s _ p] s by (auto simp: surface_def)
  qed simp
  moreover have "(\<Union>i \<in> {0..<w}. {(x + i, y)}) = rect x y w 1"
  proof (rule set_eqI)
    fix p :: "int \<times> int"
    show "p \<in> (\<Union>i \<in> {0..<w}. {(x + i, y)}) \<longleftrightarrow> p \<in> rect x y w 1"
      by (cases p) (auto simp: rect_def intro!: bexI [of _ "fst p - x"])
  qed
  ultimately show ?thesis by (simp add: e)
qed

lemma clip_spec:
  assumes "clip f x y w h = (x1, y1, w1, h1)" "0 < scr_w f" "0 < scr_h f"
  shows "0 \<le> x1" "0 \<le> y1" "x1 + w1 \<le> scr_w f" "y1 + h1 \<le> scr_h f"
    and "on_screen f p \<Longrightarrow> p \<in> rect x y w h \<longleftrightarrow> p \<in> rect x1 y1 w1 h1"
  using assms by (auto simp: clip_def Let_def rect_def on_screen_def split: if_splits)

lemma draws_fill_rect:
  assumes s: "surface f (target f)"
  shows "draws f (rect x y w h) c m (fb_fill_rect f x y w h c m)"
proof -
  obtain x1 y1 w1 h1 where cl: "clip f x y w h = (x1, y1, w1, h1)" by (metis prod.exhaust)
  have pos: "0 < scr_w f" "0 < scr_h f" using s by (simp_all add: surface_def)
  note sp = clip_spec [OF cl pos]
  have "draws f (rect x1 y1 w1 h1) c m (fb_fill_rect f x y w h c m)"
  proof (cases "w1 \<le> 0 \<or> h1 \<le> 0")
    case True
    then have "rect x1 y1 w1 h1 = {}" by (auto simp: rect_def)
    with True show ?thesis by (auto simp: fb_fill_rect_def cl)
  next
    case False
    have "draws f (\<Union>row \<in> {y1..<y1 + h1}. rect x1 row w1 1) c m
        (for_int y1 (y1 + h1) (\<lambda>row. fill_row f (target f + pixel_offset f x1 row) w1 c) m)"
    proof (rule draws_for [OF s, where U = UNIV])
      fix row m' assume "y1 \<le> row" "row < y1 + h1"
      then show "draws f (rect x1 row w1 1) c m' (fill_row f (target f + pixel_offset f x1 row) w1 c m')"
        using False sp(1-4) by (intro draws_fill_row [OF s]) (simp_all add: on_screen_def)
    qed simp
    moreover have "(\<Union>row \<in> {y1..<y1 + h1}. rect x1 row w1 1) = rect x1 y1 w1 h1"
      by (auto simp: rect_def)
    ultimately show ?thesis using False by (simp add: fb_fill_rect_def cl)
  qed
  then show ?thesis by (rule draws_cong) (simp add: sp(5))
qed

lemma draws_draw_rect:
  assumes "surface f (target f)"
  shows "draws f (rect x y w 1 \<union> rect x (y + h - 1) w 1 \<union> rect x y 1 h \<union> rect (x + w - 1) y 1 h) c m
    (fb_draw_rect f x y w h c m)"
  unfolding fb_draw_rect_def Let_def
  by (rule draws_Un [OF assms])+ (rule draws_fill_rect [OF assms])+


definition small_screen :: framebuffer where
  "small_screen =
     \<lparr>lfb = 0xE0000000, target = 0xE0000000, backbuf = 0, pitch = 16, bypp = 3, scr_w = 4, scr_h = 3,
      cur_sprite = 0, cur_w = 0, cur_h = 0, cur_hx = 0, cur_hy = 0, cur_x = 0, cur_y = 0, cur_visible = False\<rparr>"

lemma small_screen_ok: "surface small_screen (target small_screen)"
  by (simp add: surface_def small_screen_def)


end
