(* ===== verification/Fb_Shapes.thy ===== *)
theory Fb_Shapes
  imports Fb_Draw
begin

text \<open>
  The shapes built from pixels and rectangles: discs, lines, text and rounded rectangles, with
  the arithmetic they rest on (the integer square root, the error term of the line algorithm,
  alpha blending).
\<close>

subsection \<open>Integer square root and discs\<close>

lemma isqrt_loop_spec:
  "0 \<le> r \<Longrightarrow> r * r \<le> v \<Longrightarrow>
    r \<le> isqrt_loop v r \<and> isqrt_loop v r * isqrt_loop v r \<le> v \<and> v < (isqrt_loop v r + 1) * (isqrt_loop v r + 1)"
proof (induction v r rule: isqrt_loop.induct)
  case (1 v r)
  show ?case
  proof (cases "(r + 1) * (r + 1) \<le> v")
    case True
    then have "isqrt_loop v r = isqrt_loop v (r + 1)" by (simp add: isqrt_loop.simps [of v r])
    with 1 True show ?thesis by simp
  next
    case False
    then have "isqrt_loop v r = r" by (simp add: isqrt_loop.simps [of v r])
    with 1 False show ?thesis by simp
  qed
qed

lemma isqrt_spec:
  assumes "0 \<le> v"
  shows "0 \<le> isqrt v" "isqrt v * isqrt v \<le> v" "v < (isqrt v + 1) * (isqrt v + 1)"
  using isqrt_loop_spec [of 0 v] assms by (simp_all add: isqrt_def)

lemma isqrt_iff:
  assumes "0 \<le> v"
  shows "\<bar>d\<bar> \<le> isqrt v \<longleftrightarrow> d * d \<le> v"
proof
  assume "\<bar>d\<bar> \<le> isqrt v"
  then have "\<bar>d\<bar> * \<bar>d\<bar> \<le> isqrt v * isqrt v" by (intro mult_mono) simp_all
  then show "d * d \<le> v" using isqrt_spec(2) [OF assms] by simp
next
  assume d: "d * d \<le> v"
  show "\<bar>d\<bar> \<le> isqrt v"
  proof (rule ccontr)
    assume "\<not> \<bar>d\<bar> \<le> isqrt v"
    then have "(isqrt v + 1) * (isqrt v + 1) \<le> \<bar>d\<bar> * \<bar>d\<bar>"
      using isqrt_spec(1) [OF assms] by (intro mult_mono) simp_all
    then show False using d isqrt_spec(3) [OF assms] by simp
  qed
qed

definition disc :: "int \<Rightarrow> int \<Rightarrow> int \<Rightarrow> (int \<times> int) set" where
  "disc cx cy r = {p. (fst p - cx) * (fst p - cx) + (snd p - cy) * (snd p - cy) \<le> r * r}"

lemma disc_rows:
  assumes "0 \<le> r"
  shows "(\<Union>dy \<in> {- r..<r + 1}. rect (cx - isqrt (r * r - dy * dy)) (cy + dy) (isqrt (r * r - dy * dy) * 2 + 1) 1) = disc cx cy r"
proof (rule set_eqI)
  fix p :: "int \<times> int"
  let ?d = "snd p - cy"
  have in_row: "p \<in> rect (cx - isqrt (r * r - dy * dy)) (cy + dy) (isqrt (r * r - dy * dy) * 2 + 1) 1 \<longleftrightarrow>
      dy = ?d \<and> \<bar>fst p - cx\<bar> \<le> isqrt (r * r - dy * dy)" for dy
    by (auto simp: rect_def)
  have sq: "?d * ?d \<le> r * r \<longleftrightarrow> \<bar>?d\<bar> \<le> r"
    using assms abs_le_square_iff [of ?d r] by (simp add: power2_eq_square)
  have "p \<in> disc cx cy r \<longleftrightarrow> \<bar>?d\<bar> \<le> r \<and> \<bar>fst p - cx\<bar> \<le> isqrt (r * r - ?d * ?d)"
  proof (cases "?d * ?d \<le> r * r")
    case True
    then show ?thesis
      using sq isqrt_iff [of "r * r - ?d * ?d" "fst p - cx"] by (simp add: disc_def algebra_simps)
  next
    case False
    moreover have "0 \<le> (fst p - cx) * (fst p - cx)" by simp
    ultimately have "p \<notin> disc cx cy r" by (simp add: disc_def del: zero_le_square)
    with False sq show ?thesis by simp
  qed
  also have "\<dots> \<longleftrightarrow> (\<exists>dy \<in> {- r..<r + 1}. dy = ?d \<and> \<bar>fst p - cx\<bar> \<le> isqrt (r * r - dy * dy))"
    by (auto simp: abs_le_iff)
  finally show "p \<in> (\<Union>dy \<in> {- r..<r + 1}. rect (cx - isqrt (r * r - dy * dy)) (cy + dy) (isqrt (r * r - dy * dy) * 2 + 1) 1)
      \<longleftrightarrow> p \<in> disc cx cy r"
    by (simp add: in_row)
qed

text \<open>\<open>fb_fill_circle\<close> paints exactly the on-screen points at distance at most \<open>r\<close> from
  the centre: the row spans computed with the integer square root leave no gap and no excess.\<close>

theorem fb_fill_circle_exact:
  assumes "surface f (target f)" "0 \<le> r"
  shows "draws f (disc cx cy r) c m (fb_fill_circle f cx cy r c m)"
proof -
  have "draws f (\<Union>dy \<in> {- r..<r + 1}. rect (cx - isqrt (r * r - dy * dy)) (cy + dy) (isqrt (r * r - dy * dy) * 2 + 1) 1) c m
      (fb_fill_circle f cx cy r c m)"
    unfolding fb_fill_circle_def
    by (rule draws_for [OF assms(1), where U = UNIV]) (simp_all add: Let_def draws_fill_rect [OF assms(1)])
  then show ?thesis by (simp only: disc_rows [OF assms(2)])
qed

theorem fb_fill_circle_exact_witness:
  "(2, 1) \<in> disc 1 1 1 \<and> (2, 2) \<notin> disc 1 1 1 \<and>
   draws small_screen (disc 1 1 1) 0xFF0000 (\<lambda>a. 7) (fb_fill_circle small_screen 1 1 1 0xFF0000 (\<lambda>a. 7))"
  using fb_fill_circle_exact [OF small_screen_ok, of 1 1 1 "0xFF0000" "\<lambda>a. 7"] by (simp add: disc_def)

subsection \<open>Lines\<close>

text \<open>
  \<open>major\<close> is the invariant of the loop when \<open>a\<close> is the longer side: after \<open>i\<close> steps along it
  and \<open>j\<close> across, the point is within half a pixel of the ideal line and the error term says so.
\<close>

definition major :: "int \<Rightarrow> int \<Rightarrow> int \<Rightarrow> int \<Rightarrow> int \<Rightarrow> bool" where
  "major a b i j e \<longleftrightarrow>
     0 \<le> b \<and> b \<le> a \<and> 0 < a \<and> 0 \<le> i \<and> i \<le> a \<and> 0 \<le> j \<and> (a = b \<longrightarrow> i = j) \<and>
     e = (j + 1) * a - (i + 1) * b \<and> - a \<le> 2 * (j * a - i * b) \<and> 2 * (j * a - i * b) < a"

lemma major_end:
  assumes "major a b i j e"
  shows "j \<le> b" "i = a \<Longrightarrow> j = b"
proof -
  have m: "0 \<le> b" "0 < a" "i \<le> a" "- a \<le> 2 * (j * a - i * b)" "2 * (j * a - i * b) < a"
    using assms by (simp_all add: major_def)
  have "i * b \<le> a * b" using m by (intro mult_right_mono) simp_all
  with m(5) have "2 * (j * a) < a * (2 * b + 1)" by (simp add: algebra_simps)
  then have "a * (2 * j) < a * (2 * b + 1)" by (simp add: algebra_simps)
  then show j: "j \<le> b" using m(2) by (simp add: mult_less_cancel_left)
  assume "i = a"
  with m(4) have "a * (2 * b - 1) \<le> a * (2 * j)" by (simp add: algebra_simps)
  then have "2 * b - 1 \<le> 2 * j" using m(2) by (simp add: mult_le_cancel_left)
  with j show "j = b" by simp
qed

lemma major_step:
  assumes "major a b i j e" "i < a"
  shows "e * 2 > - b" "\<not> e * 2 < a \<Longrightarrow> major a b (i + 1) j (e - b)" "e * 2 < a \<Longrightarrow> major a b (i + 1) (j + 1) (e - b + a)"
proof -
  define D where "D = j * a - i * b"
  have m: "0 \<le> b" "b \<le> a" "0 < a" "0 \<le> i" "0 \<le> j" "a = b \<longrightarrow> i = j" "- a \<le> 2 * D" "2 * D < a"
    using assms by (simp_all add: major_def D_def)
  have e: "e = D + a - b" and e': "e = (j + 1) * a - (i + 1) * b"
    using assms by (simp_all add: major_def D_def algebra_simps)
  have D0: "a = b \<Longrightarrow> D = 0" using m(6) by (simp add: D_def)
  show "e * 2 > - b"
  proof (cases "a = b")
    case False
    then show ?thesis using m(2, 7) by (simp add: e)
  qed (use D0 m(3) in \<open>simp add: e\<close>)
  have D1: "j * a - (i + 1) * b = D - b" "(j + 1) * a - (i + 1) * b = D - b + a"
    by (simp_all add: D_def algebra_simps)
  show "major a b (i + 1) j (e - b)" if "\<not> e * 2 < a"
  proof -
    have "a \<noteq> b" using that D0 m(3) e by auto
    moreover have "e - b = (j + 1) * a - (i + 1 + 1) * b" by (simp add: e' algebra_simps)
    ultimately show ?thesis using that m assms(2) D1 by (simp add: major_def e)
  qed
  show "major a b (i + 1) (j + 1) (e - b + a)" if "e * 2 < a"
  proof -
    have "e - b + a = (j + 1 + 1) * a - (i + 1 + 1) * b" by (simp add: e' algebra_simps)
    then show ?thesis using that m assms(2) D1 by (simp add: major_def e)
  qed
qed

text \<open>The loop's invariant in either octant; \<open>left_over\<close> counts the steps to the end point.\<close>

definition line_inv :: "int \<Rightarrow> int \<Rightarrow> int \<Rightarrow> int \<Rightarrow> int \<Rightarrow> bool" where
  "line_inv dx dy i j e \<longleftrightarrow> (if dy \<le> dx then major dx dy i j e else major dy dx j i (- e))"

definition left_over :: "int \<Rightarrow> int \<Rightarrow> int \<Rightarrow> int \<Rightarrow> nat" where
  "left_over dx dy i j = nat (if dy \<le> dx then dx - i else dy - j)"

lemma line_inv_step:
  assumes "line_inv dx dy i j e" "\<not> (i = dx \<and> j = dy)"
  defines "i' \<equiv> if e * 2 > - dy then i + 1 else i" and "j' \<equiv> if e * 2 < dx then j + 1 else j"
  shows "line_inv dx dy i' j' ((if e * 2 > - dy then e - dy else e) + (if e * 2 < dx then dx else 0)) \<and>
    left_over dx dy i j = Suc (left_over dx dy i' j')"
proof (cases "dy \<le> dx")
  case True
  then have m: "major dx dy i j e" using assms(1) by (simp add: line_inv_def)
  then have "i < dx" using assms(2) major_end(2) [OF m] by (auto simp: major_def)
  then show ?thesis
    using major_step [OF m] True by (auto simp: line_inv_def left_over_def i'_def j'_def)
next
  case False
  then have m: "major dy dx j i (- e)" using assms(1) by (simp add: line_inv_def)
  then have "j \<noteq> dy" using assms(2) major_end(2) [OF m] by blast
  then have j: "j < dy" using m by (simp add: major_def)
  then have "e * 2 < dx" using major_step(1) [OF m] by simp
  moreover have "major dy dx (j + 1) i' (- ((if e * 2 > - dy then e - dy else e) + dx))"
  proof -
    have "- ((if e * 2 > - dy then e - dy else e) + dx) = (if - e * 2 < dy then - e - dx + dy else - e - dx)"
      by simp
    then show ?thesis using major_step(2,3) [OF m j] by (simp only: i'_def) auto
  qed
  ultimately show ?thesis using False j by (simp add: line_inv_def left_over_def j'_def)
qed

definition near_line :: "int \<Rightarrow> int \<Rightarrow> int \<Rightarrow> int \<Rightarrow> int \<times> int \<Rightarrow> bool" where
  "near_line x0 y0 x1 y1 p \<longleftrightarrow>
     min x0 x1 \<le> fst p \<and> fst p \<le> max x0 x1 \<and> min y0 y1 \<le> snd p \<and> snd p \<le> max y0 y1 \<and>
     2 * \<bar>(snd p - y0) * (x1 - x0) - (fst p - x0) * (y1 - y0)\<bar> \<le> max \<bar>x1 - x0\<bar> \<bar>y1 - y0\<bar>"

lemma line_inv_near:
  assumes "line_inv dx dy i j e"
  shows "0 \<le> i \<and> i \<le> dx \<and> 0 \<le> j \<and> j \<le> dy \<and> 2 * \<bar>j * dx - i * dy\<bar> \<le> max dx dy"
proof (cases "dy \<le> dx")
  case True
  then have m: "major dx dy i j e" using assms by (simp add: line_inv_def)
  then have "- dx \<le> 2 * (j * dx - i * dy)" "2 * (j * dx - i * dy) < dx" "0 \<le> i" "i \<le> dx" "0 \<le> j"
    by (simp_all add: major_def)
  with True major_end(1) [OF m] show ?thesis by (simp add: abs_if)
next
  case False
  then have m: "major dy dx j i (- e)" using assms by (simp add: line_inv_def)
  then have "- dy \<le> 2 * (i * dy - j * dx)" "2 * (i * dy - j * dx) < dy" "0 \<le> i" "j \<le> dy" "0 \<le> j"
    by (simp_all add: major_def)
  with False major_end(1) [OF m] show ?thesis by (simp add: abs_if)
qed

lemma line_loop_draws:
  assumes s: "surface f (target f)" and inv: "line_inv dx dy i j e"
    and sgn: "sx = 1 \<or> sx = - 1" "sy = 1 \<or> sy = - 1"
  shows "\<exists>ps m'. line_loop f c dx dy sx sy (x0 + sx * dx) (y0 + sy * dy) (x0 + sx * i) (y0 + sy * j) e m = Some m' \<and>
    draws f (set ps) c m m' \<and> length ps = Suc (left_over dx dy i j) \<and>
    hd ps = (x0 + sx * i, y0 + sy * j) \<and> last ps = (x0 + sx * dx, y0 + sy * dy) \<and>
    (\<forall>p \<in> set ps. \<exists>i j e. line_inv dx dy i j e \<and> p = (x0 + sx * i, y0 + sy * j))"
  using inv
proof (induction "left_over dx dy i j" arbitrary: i j e m rule: less_induct)
  case less
  let ?here = "(x0 + sx * i, y0 + sy * j)"
  let ?m = "fb_putpixel f (x0 + sx * i) (y0 + sy * j) c m"
  have at: "x0 + sx * i = x0 + sx * dx \<and> y0 + sy * j = y0 + sy * dy \<longleftrightarrow> i = dx \<and> j = dy"
    using sgn by auto
  have put: "draws f {?here} c m ?m" by (rule draws_putpixel [OF s])
  have here: "\<exists>i' j' e. line_inv dx dy i' j' e \<and> ?here = (x0 + sx * i', y0 + sy * j')"
    using less.prems by blast
  show ?case
  proof (cases "i = dx \<and> j = dy")
    case True
    then have "left_over dx dy i j = 0" by (simp add: left_over_def)
    then show ?thesis
      using True at put here by (intro exI [of _ "[?here]"] exI [of _ ?m]) (simp add: line_loop.simps)
  next
    case False
    define i' where "i' = (if e * 2 > - dy then i + 1 else i)"
    define j' where "j' = (if e * 2 < dx then j + 1 else j)"
    define e' where "e' = (if e * 2 > - dy then e - dy else e) + (if e * 2 < dx then dx else 0)"
    have st: "line_inv dx dy i' j' e'" "left_over dx dy i j = Suc (left_over dx dy i' j')"
      using line_inv_step [OF less.prems False] by (simp_all add: i'_def j'_def e'_def)
    have next_call: "line_loop f c dx dy sx sy (x0 + sx * dx) (y0 + sy * dy) (x0 + sx * i) (y0 + sy * j) e m =
        line_loop f c dx dy sx sy (x0 + sx * dx) (y0 + sy * dy) (x0 + sx * i') (y0 + sy * j') e' ?m"
      by (subst line_loop.simps, simp only: at False if_False Let_def)
        (simp add: i'_def j'_def e'_def distrib_left add.assoc)
    have "left_over dx dy i' j' < left_over dx dy i j" using st(2) by simp
    then obtain ps m' where "line_loop f c dx dy sx sy (x0 + sx * dx) (y0 + sy * dy) (x0 + sx * i') (y0 + sy * j') e' ?m = Some m'"
      and d: "draws f (set ps) c ?m m'" and l: "length ps = Suc (left_over dx dy i' j')"
      and e: "last ps = (x0 + sx * dx, y0 + sy * dy)"
      and n: "\<forall>p \<in> set ps. \<exists>i j e. line_inv dx dy i j e \<and> p = (x0 + sx * i, y0 + sy * j)"
      using less.hyps st(1) by blast
    moreover have "draws f (set (?here # ps)) c m m'" using draws_Un [OF s put d] by simp
    moreover have "ps \<noteq> []" using l by auto
    ultimately show ?thesis
      using next_call st(2) here by (intro exI [of _ "?here # ps"] exI [of _ m']) auto
  qed
qed

lemma abs_side:
  "(if (x1 :: int) > x0 then x1 - x0 else x0 - x1) = \<bar>x1 - x0\<bar>"
  "x0 + (if x0 < x1 then 1 else - 1) * \<bar>x1 - x0\<bar> = x1"
  by auto

lemma near_line_steps:
  fixes x0 :: int
  assumes "line_inv \<bar>x1 - x0\<bar> \<bar>y1 - y0\<bar> i j e" "sx = (if x0 < x1 then 1 else - 1)" "sy = (if y0 < y1 then 1 else - 1)"
  shows "near_line x0 y0 x1 y1 (x0 + sx * i, y0 + sy * j)"
proof -
  note n = line_inv_near [OF assms(1)]
  have "x1 - x0 = sx * \<bar>x1 - x0\<bar>" "y1 - y0 = sy * \<bar>y1 - y0\<bar>" using assms(2, 3) by auto
  then have "sy * j * (x1 - x0) - sx * i * (y1 - y0) = sy * j * (sx * \<bar>x1 - x0\<bar>) - sx * i * (sy * \<bar>y1 - y0\<bar>)"
    by simp
  also have "\<dots> = sx * sy * (j * \<bar>x1 - x0\<bar> - i * \<bar>y1 - y0\<bar>)" by (simp add: algebra_simps)
  finally have "sy * j * (x1 - x0) - sx * i * (y1 - y0) = sx * sy * (j * \<bar>x1 - x0\<bar> - i * \<bar>y1 - y0\<bar>)" .
  moreover have "\<bar>sx * sy\<bar> = 1" using assms(2, 3) by auto
  ultimately have "\<bar>sy * j * (x1 - x0) - sx * i * (y1 - y0)\<bar> = \<bar>j * \<bar>x1 - x0\<bar> - i * \<bar>y1 - y0\<bar>\<bar>"
    by (simp add: abs_mult)
  moreover have "min x0 x1 \<le> x0 + sx * i" "x0 + sx * i \<le> max x0 x1" "min y0 y1 \<le> y0 + sy * j" "y0 + sy * j \<le> max y0 y1"
    using n assms(2, 3) by (auto split: if_splits)
  ultimately show ?thesis using n by (simp add: near_line_def)
qed

lemma fb_line_draws:
  assumes "surface f (target f)"
  shows "\<exists>ps m'. fb_line f x0 y0 x1 y1 c m = Some m' \<and> draws f (set ps) c m m' \<and>
    hd ps = (x0, y0) \<and> last ps = (x1, y1) \<and> length ps = Suc (nat (max \<bar>x1 - x0\<bar> \<bar>y1 - y0\<bar>)) \<and>
    (\<forall>p \<in> set ps. near_line x0 y0 x1 y1 p)"
proof (cases "x0 = x1 \<and> y0 = y1")
  case True
  then have "fb_line f x0 y0 x1 y1 c m = Some (fb_putpixel f x0 y0 c m)"
    by (simp add: fb_line_def line_loop.simps)
  then show ?thesis
    using True draws_putpixel [OF assms]
    by (intro exI [of _ "[(x0, y0)]"] exI [of _ "fb_putpixel f x0 y0 c m"]) (simp add: near_line_def)
next
  case False
  let ?sx = "if x0 < x1 then 1 else - 1 :: int" and ?sy = "if y0 < y1 then 1 else - 1 :: int"
  have inv: "line_inv \<bar>x1 - x0\<bar> \<bar>y1 - y0\<bar> 0 0 (\<bar>x1 - x0\<bar> - \<bar>y1 - y0\<bar>)"
    using False by (auto simp: line_inv_def major_def)
  have sgn: "?sx = 1 \<or> ?sx = - 1" "?sy = 1 \<or> ?sy = - 1" by simp_all
  have call: "fb_line f x0 y0 x1 y1 c m =
      line_loop f c \<bar>x1 - x0\<bar> \<bar>y1 - y0\<bar> ?sx ?sy x1 y1 x0 y0 (\<bar>x1 - x0\<bar> - \<bar>y1 - y0\<bar>) m"
    by (simp only: fb_line_def abs_side Let_def)
  obtain ps m' where "fb_line f x0 y0 x1 y1 c m = Some m'" "draws f (set ps) c m m'"
    "length ps = Suc (left_over \<bar>x1 - x0\<bar> \<bar>y1 - y0\<bar> 0 0)" "hd ps = (x0, y0)" "last ps = (x1, y1)"
    and n: "\<forall>p \<in> set ps. \<exists>i j e. line_inv \<bar>x1 - x0\<bar> \<bar>y1 - y0\<bar> i j e \<and> p = (x0 + ?sx * i, y0 + ?sy * j)"
    using line_loop_draws [OF assms inv sgn, of c x0 y0 m, unfolded abs_side mult_zero_right add_0_right, folded call]
    by blast
  moreover have "\<forall>p \<in> set ps. near_line x0 y0 x1 y1 p"
  proof
    fix p assume "p \<in> set ps"
    then obtain i j e where "line_inv \<bar>x1 - x0\<bar> \<bar>y1 - y0\<bar> i j e" "p = (x0 + ?sx * i, y0 + ?sy * j)"
      using n by blast
    then show "near_line x0 y0 x1 y1 p" using near_line_steps [OF _ refl refl] by simp
  qed
  ultimately show ?thesis by (intro exI [of _ ps] exI [of _ m']) (simp add: left_over_def max_def)
qed



subsection \<open>Text\<close>

definition glyph_set :: "mem \<Rightarrow> u8 \<Rightarrow> int \<Rightarrow> int \<Rightarrow> (int \<times> int) set" where
  "glyph_set m c x y =
     {p. p \<in> rect x y FONT_W FONT_H \<and> glyph_bit (m (font_glyph c + of_int (snd p - y))) (fst p - x)}"

fun text_set :: "mem \<Rightarrow> int \<Rightarrow> int \<Rightarrow> u8 list \<Rightarrow> (int \<times> int) set" where
  "text_set m x y [] = {}"
| "text_set m x y (c # s) = glyph_set m c x y \<union> text_set m (x + FONT_W) y s"

text \<open>The font table, \<open>0x6800\<close> to \<open>0x77FF\<close>, lies below the surface.\<close>

definition above_font :: "u32 \<Rightarrow> bool" where "above_font base \<longleftrightarrow> 0x7800 \<le> base"

lemma touches_below:
  assumes "surface f base" "touches f base A m m'" "unat a < unat base"
  shows "m' a = m a"
proof -
  have "a \<notin> cells f base A"
  proof
    assume "a \<in> cells f base A"
    then obtain p k where "on_screen f p" "k < unat (bypp f)" "a = pix f base p k"
      unfolding cells_def by blast
    then show False using unat_pix [OF assms(1)] assms(3) by simp
  qed
  then show ?thesis using assms(2) by (simp add: touches_def)
qed

lemma glyph_address:
  assumes "0 \<le> gy" "gy < FONT_H" "above_font base"
  shows "unat (font_glyph c + of_int gy) < unat base"
proof -
  have "unat c < 256" by (rule unat_lt8)
  then have "font_glyph c + of_int gy = of_nat (0x6800 + unat c * 16 + nat gy)"
    using assms(1) by (simp add: font_glyph_def FONT_ADDR_def FONT_H_def unsigned_ucast_eq)
  moreover have "0x6800 + unat c * 16 + nat gy < 0x7800"
    using \<open>unat c < 256\<close> assms(1, 2) by (simp add: FONT_H_def nat_less_iff)
  ultimately have "unat (font_glyph c + of_int gy) < 0x7800" by (simp only: unat_of_nat32)
  then show ?thesis using assms(3) by (simp add: above_font_def word_le_nat_alt)
qed

lemma draws_text_glyph:
  assumes s: "surface f (target f)" "above_font (target f)"
  shows "draws f (glyph_set m c x y) rgb m (text_glyph f rgb c x y m)"
proof -
  let ?row = "\<lambda>gy. \<Union>gx \<in> {0..<FONT_W}. if glyph_bit (m (font_glyph c + of_int gy)) gx then {(x + gx, y + gy)} else {}"
  have "draws f (\<Union>gy \<in> {0..<FONT_H}. ?row gy) rgb m (text_glyph f rgb c x y m)"
    unfolding text_glyph_def
  proof (rule draws_for [OF s(1), where U = UNIV])
    fix gy m' assume gy: "0 \<le> gy" "gy < FONT_H" and t: "touches f (target f) UNIV m m'"
    have same: "m' (font_glyph c + of_int gy) = m (font_glyph c + of_int gy)"
      by (rule touches_below [OF s(1) t glyph_address [OF gy s(2)]])
    show "draws f (?row gy) rgb m' (let bits = m' (font_glyph c + of_int gy)
        in for_int 0 FONT_W (\<lambda>gx m. if glyph_bit bits gx then fb_putpixel f (x + gx) (y + gy) rgb m else m) m')"
      unfolding Let_def same
      by (rule draws_for [OF s(1), where U = UNIV]) (simp_all add: draws_putpixel [OF s(1)])
  qed simp
  moreover have "(\<Union>gy \<in> {0..<FONT_H}. ?row gy) = glyph_set m c x y"
  proof (rule set_eqI)
    fix p :: "int \<times> int"
    have one: "p \<in> (if b then {q} else {}) \<longleftrightarrow> b \<and> fst p = fst q \<and> snd p = snd q" for b q
      by (simp add: prod_eq_iff)
    have "p \<in> (\<Union>gy \<in> {0..<FONT_H}. ?row gy) \<longleftrightarrow>
        (\<exists>gy \<in> {0..<FONT_H}. \<exists>gx \<in> {0..<FONT_W}. glyph_bit (m (font_glyph c + of_int gy)) gx \<and> fst p = x + gx \<and> snd p = y + gy)"
      by (simp only: UN_iff one fst_conv snd_conv)
    also have "\<dots> \<longleftrightarrow> p \<in> glyph_set m c x y"
    proof
      assume "p \<in> glyph_set m c x y"
      then show "\<exists>gy \<in> {0..<FONT_H}. \<exists>gx \<in> {0..<FONT_W}. glyph_bit (m (font_glyph c + of_int gy)) gx \<and> fst p = x + gx \<and> snd p = y + gy"
        by (intro bexI [of _ "snd p - y"] bexI [of _ "fst p - x"]) (auto simp: glyph_set_def rect_def simp del: of_int_diff)
    qed (auto simp: glyph_set_def rect_def)
    finally show "p \<in> (\<Union>gy \<in> {0..<FONT_H}. ?row gy) \<longleftrightarrow> p \<in> glyph_set m c x y" .
  qed
  ultimately show ?thesis by simp
qed

lemma glyph_set_cong:
  assumes "surface f base" "above_font base" "touches f base A m m'"
  shows "glyph_set m' c x y = glyph_set m c x y"
  using touches_below [OF assms(1, 3) glyph_address [OF _ _ assms(2)]]
  by (auto simp: glyph_set_def rect_def simp del: of_int_diff)

lemma text_set_cong:
  assumes "surface f base" "above_font base" "touches f base A m m'"
  shows "text_set m' x y s = text_set m x y s"
  by (induction s arbitrary: x) (simp_all add: glyph_set_cong [OF assms])

lemma draws_text:
  assumes s: "surface f (target f)" "above_font (target f)"
  shows "draws f (text_set m x y s) rgb m (fb_text f x y s rgb m)"
proof (induction s arbitrary: x m)
  case (Cons c s)
  note g = draws_text_glyph [OF s, of m c x y rgb]
  from draws_Un [OF s(1) g Cons.IH] show ?case
    by (simp add: text_set_cong [OF s draws_touches [OF g]])
qed simp

subsection \<open>Blending and rounded corners\<close>

text \<open>Blending is a weighted mean: it stays between the two colours, and full alpha replaces.\<close>

lemma blend_channel_unat:
  assumes "unat s < 256" "unat a < 256"
  shows "unat (blend_channel s a old) = (unat s * unat a + unat old * (255 - unat a)) div 255"
proof -
  have o: "unat old < 256" by (rule unat_lt8)
  have 1: "unat s * unat a \<le> 255 * unat a" using assms by (intro mult_le_mono1) simp
  have 2: "unat old * (255 - unat a) \<le> 255 * (255 - unat a)" using o by (intro mult_le_mono1) simp
  have na: "unat (255 - a) = 255 - unat a" using assms(2) unat_sub32 [of a 255] by simp
  have m1: "unat (s * a) = unat s * unat a" using 1 assms(2) by (intro unat_mult32) linarith
  have u: "unat (ucast old :: u32) = unat old"
    using o by (simp add: unsigned_ucast_eq take_bit_nat_eq_self)
  have "unat old * (255 - unat a) < 4294967296" using 2 by linarith
  then have m2: "unat (ucast old * (255 - a)) = unat old * (255 - unat a)"
    using na u unat_mult32 [of "ucast old" "255 - a"] by simp
  have b: "unat s * unat a + unat old * (255 - unat a) \<le> 65025"
    using 1 2 assms(2) by linarith
  then have "unat s * unat a + unat old * (255 - unat a) < 4294967296" by linarith
  then have "unat (s * a + ucast old * (255 - a)) = unat s * unat a + unat old * (255 - unat a)"
    using m1 m2 unat_add32 [of "s * a" "ucast old * (255 - a)"] by simp
  moreover have "(unat s * unat a + unat old * (255 - unat a)) div 255 < 256"
    using div_le_mono [OF b, of 255] by simp
  ultimately show ?thesis
    by (simp add: blend_channel_def unsigned_ucast_eq unat_div_distrib take_bit_nat_eq_self)
qed

lemma blend_channel_between:
  assumes "unat s < 256" "unat a < 256"
  shows "min (unat s) (unat old) \<le> unat (blend_channel s a old)" "unat (blend_channel s a old) \<le> max (unat s) (unat old)"
    and "unat a = 255 \<Longrightarrow> unat (blend_channel s a old) = unat s"
proof -
  have w: "255 * n = n * unat a + n * (255 - unat a)" for n
    using assms(2) by (simp flip: add_mult_distrib2)
  have "255 * min (unat s) (unat old) \<le> unat s * unat a + unat old * (255 - unat a)"
    unfolding w by (intro add_mono mult_le_mono1) simp_all
  moreover have "unat s * unat a + unat old * (255 - unat a) \<le> 255 * max (unat s) (unat old)"
    unfolding w by (intro add_mono mult_le_mono1) simp_all
  ultimately show "min (unat s) (unat old) \<le> unat (blend_channel s a old)"
    "unat (blend_channel s a old) \<le> max (unat s) (unat old)"
    using assms by (simp_all only: blend_channel_unat)
  show "unat (blend_channel s a old) = unat s" if "unat a = 255"
    using assms that by (simp add: blend_channel_unat)
qed

lemma touches_blend_pixel:
  assumes "surface f (target f)"
  shows "touches f (target f) {(x, y)} m (fb_blend_pixel f x y rgb alpha m)"
proof (cases "on_screen f (x, y) \<and> alpha \<noteq> 0")
  case False
  then have "fb_blend_pixel f x y rgb alpha m = m" by (auto simp: fb_blend_pixel_def on_screen_def)
  then show ?thesis by simp
next
  case True
  then show ?thesis
    using not_in_cell [OF assms, of "(x, y)"]
    by (auto simp: touches_def fb_blend_pixel_def on_screen_def pix_def Let_def)
qed

lemma fb_round_inset_bounds:
  assumes "0 \<le> d" "d < r"
  shows "0 \<le> fb_round_inset d r" "fb_round_inset d r \<le> r"
proof -
  have sq: "(r - d) * (r - d) \<le> r * r" using assms by (intro mult_mono) simp_all
  then have v: "0 \<le> r * r - (r - d) * (r - d)" by simp
  have "isqrt (r * r - (r - d) * (r - d)) \<le> r"
  proof (rule ccontr)
    assume "\<not> ?thesis"
    then have "r * r < isqrt (r * r - (r - d) * (r - d)) * isqrt (r * r - (r - d) * (r - d))"
      using assms by (intro mult_strict_mono) simp_all
    then show False using isqrt_spec(2) [OF v] zero_le_square [of "r - d"] by linarith
  qed
  then show "0 \<le> fb_round_inset d r" "fb_round_inset d r \<le> r"
    using assms isqrt_spec(1) [OF v] by (simp_all add: fb_round_inset_def Let_def)
qed

lemma row_inset_bounds:
  assumes "0 \<le> row" "row < h" "0 \<le> r"
  shows "0 \<le> row_inset h r flags row" "row_inset h r flags row \<le> r"
  using assms fb_round_inset_bounds [of row r] fb_round_inset_bounds [of "h - 1 - row" r]
  by (auto simp: row_inset_def)

lemma touches_rounded_rect:
  assumes s: "surface f (target f)" and r: "0 \<le> r" "r \<le> w"
  shows "touches f (target f) (rect x y w h) m (fb_fill_rounded_rect f x y w h r rgb flags m)"
  unfolding fb_fill_rounded_rect_def
proof (rule touches_for)
  fix row m assume row: "0 \<le> row" "row < h"
  define inset where "inset = row_inset h r flags row"
  have b: "0 \<le> inset" "inset \<le> r" using row_inset_bounds [OF row r(1)] by (simp_all add: inset_def)
  define m1 where "m1 = fb_fill_rect f (x + inset) (y + row) (w - 2 * inset) 1 rgb m"
  have t1: "touches f (target f) (rect x y w h) m m1"
    unfolding m1_def using b row
    by (intro touches_mono [OF draws_touches [OF draws_fill_rect [OF s]]]) (auto simp: rect_def)
  have t2: "touches f (target f) (rect x y w h) m' (fb_blend_pixel f px (y + row) rgb 110 m')"
    if "x \<le> px" "px < x + w" for px m'
    using that row by (intro touches_mono [OF touches_blend_pixel [OF s]]) (auto simp: rect_def)
  have "touches f (target f) (rect x y w h) m
      (if inset > 0 then fb_blend_pixel f (x + w - inset) (y + row) rgb 110
         (fb_blend_pixel f (x + inset - 1) (y + row) rgb 110 m1) else m1)"
    using b r t1 touches_trans [OF touches_trans [OF t1 t2] t2, unfolded Un_absorb] by simp
  then show "touches f (target f) (rect x y w h) m
      (let inset = row_inset h r flags row; m1 = fb_fill_rect f (x + inset) (y + row) (w - 2 * inset) 1 rgb m
       in if inset > 0 then fb_blend_pixel f (x + w - inset) (y + row) rgb 110
            (fb_blend_pixel f (x + inset - 1) (y + row) rgb 110 m1) else m1)"
    by (simp only: Let_def inset_def [symmetric] m1_def [symmetric])
qed

end
