(* ===== verification/Fb_Screen.thy ===== *)
theory Fb_Screen
  imports Fb_Shapes
begin

text \<open>
  The two buffers: what reaches the screen. The picture that belongs on the screen is the
  backbuffer with the pointer sprite blended over it, \<open>composed\<close>; flipping any region makes
  the screen show it there, and the pointer can move without ever leaving a trace.
\<close>

subsection \<open>Updates of one surface, pixel by pixel\<close>

definition paints :: "framebuffer \<Rightarrow> u32 \<Rightarrow> (int \<times> int \<Rightarrow> u8 \<times> u8 \<times> u8 \<Rightarrow> u8 \<times> u8 \<times> u8) \<Rightarrow> (int \<times> int) set \<Rightarrow> mem \<Rightarrow> mem \<Rightarrow> bool" where
  "paints f base V A m m' \<longleftrightarrow>
     (\<forall>p \<in> A. on_screen f p \<longrightarrow> pixel f base m' p = V p (pixel f base m p)) \<and> touches f base A m m'"

lemma paints_empty [simp]: "paints f base V {} m m"
  by (simp add: paints_def)

lemma paints_touches: "paints f base V A m m' \<Longrightarrow> touches f base A m m'"
  by (simp add: paints_def)

lemma paints_pixel:
  assumes "paints f base V A m m'" "surface f base" "on_screen f p"
  shows "pixel f base m' p = (if p \<in> A then V p (pixel f base m p) else pixel f base m p)"
  using assms touches_pixel [OF paints_touches] by (auto simp: paints_def)

lemma paints_Un:
  assumes "surface f base" "paints f base V A m m1" "paints f base V B m1 m2" "A \<inter> B = {}"
  shows "paints f base V (A \<union> B) m m2"
proof -
  have "pixel f base m2 p = V p (pixel f base m p)" if "p \<in> A \<union> B" "on_screen f p" for p
    using paints_pixel [OF assms(2, 1) that(2)] paints_pixel [OF assms(3, 1) that(2)] that(1) assms(4) by auto
  then show ?thesis
    using touches_trans [OF paints_touches [OF assms(2)] paints_touches [OF assms(3)]]
    by (simp add: paints_def)
qed

interpretation painted: point_effect "\<lambda>A m m'. surface f base \<longrightarrow> paints f base V A m m'" for f base V
  by unfold_locales (auto intro: paints_Un)

lemma paints_for:
  assumes "surface f base"
    and "\<And>i m'. a \<le> i \<Longrightarrow> i < b \<Longrightarrow> touches f base UNIV m m' \<Longrightarrow> paints f base V (A i) m' (body i m')"
    and "\<And>i j. i < j \<Longrightarrow> A i \<inter> A j = {}"
  shows "paints f base V (\<Union>i \<in> {a..<b}. A i) m (for_int a b body m)"
  using painted.effect_for [where f = f and base = base and V = V and A = A and body = body and a = a and b = b and s = m]
    assms touches_mono [OF paints_touches, OF _ subset_UNIV] by blast

subsection \<open>Two disjoint surfaces\<close>

definition buffer_bytes :: "framebuffer \<Rightarrow> nat" where
  "buffer_bytes f = unat (pitch f) * nat (scr_h f)"

definition buffered :: "framebuffer \<Rightarrow> bool" where
  "buffered f \<longleftrightarrow>
     surface f (lfb f) \<and> surface f (backbuf f) \<and> backbuf f \<noteq> 0 \<and>
     (unat (lfb f) + buffer_bytes f \<le> unat (backbuf f) \<or> unat (backbuf f) + buffer_bytes f \<le> unat (lfb f))"

text \<open>The sprite, \<open>cur_w * cur_h\<close> words, lies outside the real screen.\<close>

definition sprite_ok :: "framebuffer \<Rightarrow> bool" where
  "sprite_ok f \<longleftrightarrow>
     unat (cur_sprite f) + 4 * nat (cur_w f * cur_h f) \<le> 4294967296 \<and>
     (unat (cur_sprite f) + 4 * nat (cur_w f * cur_h f) \<le> unat (lfb f) \<or> unat (lfb f) + buffer_bytes f \<le> unat (cur_sprite f))"

text \<open>The same for any surface, the backbuffer included.\<close>

definition sprite_clear :: "framebuffer \<Rightarrow> u32 \<Rightarrow> bool" where
  "sprite_clear f base \<longleftrightarrow>
     unat (cur_sprite f) + 4 * nat (cur_w f * cur_h f) \<le> 4294967296 \<and>
     (unat (cur_sprite f) + 4 * nat (cur_w f * cur_h f) \<le> unat base \<or> unat base + buffer_bytes f \<le> unat (cur_sprite f))"

lemma sprite_ok_clear: "sprite_ok f \<longleftrightarrow> sprite_clear f (lfb f)"
  by (simp add: sprite_ok_def sprite_clear_def)

lemma cells_range:
  assumes "surface f base" "a \<in> cells f base A"
  shows "unat base \<le> unat a" "unat a < unat base + buffer_bytes f"
proof -
  obtain p k where "on_screen f p" "k < unat (bypp f)" "a = pix f base p k"
    using assms(2) unfolding cells_def by blast
  then show "unat base \<le> unat a" "unat a < unat base + buffer_bytes f"
    using unat_pix [OF assms(1)] pixel_index_bound [OF assms(1)] by (simp_all add: buffer_bytes_def)
qed

lemma touches_outside:
  assumes "surface f base" "touches f base A m m'" "unat a < unat base \<or> unat base + buffer_bytes f \<le> unat a"
  shows "m' a = m a"
proof -
  have "a \<notin> cells f base A"
    using assms(3) cells_range [OF assms(1), of a A] by linarith
  then show ?thesis using assms(2) by (simp add: touches_def)
qed

lemma back_cell:
  assumes "buffered f" "on_screen f p" "k < unat (bypp f)"
  shows "unat (pix f (backbuf f) p k) < unat (lfb f) \<or> unat (lfb f) + buffer_bytes f \<le> unat (pix f (backbuf f) p k)"
proof -
  have s: "surface f (backbuf f)" using assms(1) by (simp add: buffered_def)
  show ?thesis
    using assms unat_pix [OF s assms(2, 3)] pixel_index_bound [OF s assms(2, 3)]
    by (auto simp: buffered_def buffer_bytes_def)
qed

lemma back_pixel_same:
  assumes "buffered f" "touches f (lfb f) A m m'" "on_screen f p"
  shows "pixel f (backbuf f) m' p = pixel f (backbuf f) m p"
proof -
  have s: "surface f (lfb f)" using assms(1) by (simp add: buffered_def)
  have "m' (pix f (backbuf f) p k) = m (pix f (backbuf f) p k)" if "k < unat (bypp f)" for k
    by (rule touches_outside [OF s assms(2) back_cell [OF assms(1, 3) that]])
  moreover have "2 < unat (bypp f)" using bypp_values [OF s] by auto
  ultimately show ?thesis by (simp add: pixel_def)
qed

lemma screen_back_distinct:
  assumes "buffered f" "on_screen f p" "on_screen f q" "j < unat (bypp f)" "k < unat (bypp f)"
  shows "pix f (backbuf f) p j \<noteq> pix f (lfb f) q k"
proof -
  have s: "surface f (lfb f)" using assms(1) by (simp add: buffered_def)
  then show ?thesis
    using back_cell [OF assms(1, 2, 4)] unat_pix [OF s assms(3, 5)] pixel_index_bound [OF s assms(3, 5)]
    by (auto simp: buffer_bytes_def)
qed

subsection \<open>Copying rows\<close>

lemma buffers_fwd_ok:
  assumes "buffered f" "n \<le> buffer_bytes f"
  shows "fwd_ok (lfb f + z) (backbuf f + z) n"
proof -
  have "n \<le> unat (lfb f - backbuf f)"
    using assms unat_lt32 [of "lfb f"] unat_lt32 [of "backbuf f"]
    by (auto simp: buffered_def surface_def buffer_bytes_def unat_sub_if')
  then show ?thesis by (simp add: fwd_ok_def)
qed

lemma row_count:
  assumes "surface f base" "0 \<le> w" "w \<le> scr_w f"
  shows "unat (of_int w * bypp f) = nat w * unat (bypp f)" "nat w * unat (bypp f) \<le> unat (pitch f)"
proof -
  have "nat w * unat (bypp f) \<le> nat (scr_w f) * unat (bypp f)" using assms by (intro mult_le_mono1) simp
  also have "\<dots> \<le> unat (pitch f)" using assms by (simp add: surface_def)
  finally show le: "nat w * unat (bypp f) \<le> unat (pitch f)" .
  have "of_int w * bypp f = of_nat (nat w * unat (bypp f))" using assms(2) by simp
  moreover have "nat w * unat (bypp f) < 4294967296" using le unat_lt32 [of "pitch f"] by linarith
  ultimately show "unat (of_int w * bypp f) = nat w * unat (bypp f)" by (simp only: unat_of_nat32)
qed

text \<open>A run of whole pixels in one row, addressed by its byte distance from the start.\<close>

lemma run_cell:
  assumes "surface f base" "0 \<le> x" "0 \<le> i" "k < unat (bypp f)"
  shows "pix f b (x + i, y) k = b + pixel_offset f x y + of_nat (nat i * unat (bypp f) + k)"
  using assms(2, 3) by (simp add: pix_def pixel_offset_def algebra_simps)

lemma copy_row:
  assumes "buffered f" "0 \<le> x" "0 < w" "x + w \<le> scr_w f" "0 \<le> row" "row < scr_h f"
  shows "paints f (lfb f) (\<lambda>p _. pixel f (backbuf f) m p) (rect x row w 1) m (flip_row f x w row m)"
proof -
  let ?d = "lfb f + pixel_offset f x row" and ?s = "backbuf f + pixel_offset f x row"
  let ?b = "unat (bypp f)" and ?n = "nat w * unat (bypp f)"
  have s: "surface f (lfb f)" using assms(1) by (simp add: buffered_def)
  have n: "unat (of_int w * bypp f) = ?n" "?n \<le> unat (pitch f)"
    using row_count [OF s, of w] assms by simp_all
  have "?n \<le> buffer_bytes f"
  proof -
    have "unat (pitch f) * 1 \<le> unat (pitch f) * nat (scr_h f)"
      using assms(5, 6) by (intro mult_le_mono2) simp
    then show ?thesis using n(2) unfolding buffer_bytes_def by linarith
  qed
  then have e: "flip_row f x w row m = copy_bytes m ?d ?s ?n"
    using memcpy_copies [OF buffers_fwd_ok [OF assms(1)]] n(1) by (simp add: flip_row_def Let_def)
  have hit: "flip_row f x w row m (pix f (lfb f) p k) = m (pix f (backbuf f) p k)"
    if p: "p \<in> rect x row w 1" and k: "k < ?b" for p k
  proof -
    obtain i where i: "p = (x + i, row)" "0 \<le> i" "i < w"
      using p by (intro that [of "fst p - x"]) (auto simp: rect_def)
    have "nat i * ?b + k < Suc (nat i) * ?b" using k by simp
    also have "\<dots> \<le> ?n" using i by (intro mult_le_mono1) simp
    finally have lt: "nat i * ?b + k < ?n" .
    moreover have "?n < 4294967296" using n(2) unat_lt32 [of "pitch f"] by linarith
    ultimately have "unat (of_nat (nat i * ?b + k) :: u32) = nat i * ?b + k" by (intro unat_of_nat32) linarith
    with lt show ?thesis
      unfolding e i(1) run_cell [OF s assms(2) i(2) k] copy_bytes_def by simp
  qed
  have miss: "flip_row f x w row m a = m a" if "a \<notin> cells f (lfb f) (rect x row w 1)" for a
  proof -
    have "\<not> unat (a - ?d) < ?n"
    proof
      assume lt: "unat (a - ?d) < ?n"
      define i where "i = int (unat (a - ?d) div ?b)"
      define k where "k = unat (a - ?d) mod ?b"
      have b: "0 < ?b" using bypp_values [OF s] by auto
      then have k: "k < ?b" by (simp add: k_def)
      have "unat (a - ?d) div ?b < nat w" using lt by (rule less_mult_imp_div_less)
      then have i: "0 \<le> i" "i < w" using assms(3) by (simp_all add: i_def zless_nat_eq_int_zless)
      have "nat i * ?b + k = unat (a - ?d)" by (simp add: i_def k_def)
      then have "a = pix f (lfb f) (x + i, row) k" unfolding run_cell [OF s assms(2) i(1) k] by simp
      moreover have "on_screen f (x + i, row)" "(x + i, row) \<in> rect x row w 1"
        using i assms by (simp_all add: on_screen_def rect_def)
      ultimately have "a \<in> cells f (lfb f) (rect x row w 1)" using pix_in_cells [OF s _ k] by simp
      with that show False ..
    qed
    then show ?thesis by (simp add: e copy_bytes_def)
  qed
  have "2 < ?b" using bypp_values [OF s] by auto
  then show ?thesis using hit miss by (simp add: paints_def touches_def pixel_def)
qed

subsection \<open>The pointer sprite\<close>

definition sprite_rect :: "framebuffer \<Rightarrow> (int \<times> int) set" where
  "sprite_rect f = rect (cur_x f - cur_hx f) (cur_y f - cur_hy f) (cur_w f) (cur_h f)"

definition sprite_at :: "framebuffer \<Rightarrow> mem \<Rightarrow> int \<times> int \<Rightarrow> u32" where
  "sprite_at f m p = sprite_pixel f m (fst p - (cur_x f - cur_hx f)) (snd p - (cur_y f - cur_hy f))"

definition over :: "u32 \<Rightarrow> u8 \<times> u8 \<times> u8 \<Rightarrow> u8 \<times> u8 \<times> u8" where
  "over s bg =
     (let a = drop_bit 24 s
      in (blend_channel (s AND 0xFF) a (fst bg), blend_channel (drop_bit 8 s AND 0xFF) a (fst (snd bg)),
          blend_channel (drop_bit 16 s AND 0xFF) a (snd (snd bg))))"

definition cursor_on :: "framebuffer \<Rightarrow> bool" where
  "cursor_on f \<longleftrightarrow> cur_visible f \<and> cur_sprite f \<noteq> 0"

text \<open>The picture that belongs on the screen: the backbuffer under the sprite.\<close>

definition composed :: "framebuffer \<Rightarrow> mem \<Rightarrow> int \<times> int \<Rightarrow> u8 \<times> u8 \<times> u8" where
  "composed f m p =
     (if cursor_on f \<and> p \<in> sprite_rect f \<and> drop_bit 24 (sprite_at f m p) \<noteq> 0
      then over (sprite_at f m p) (pixel f (backbuf f) m p)
      else pixel f (backbuf f) m p)"

lemma sprite_index:
  assumes "0 \<le> i" "i < w" "0 \<le> j" "j < h"
  shows "0 \<le> j * w + i" "j * w + i < w * (h :: int)"
proof -
  show "0 \<le> j * w + i" using assms by simp
  have "j * w + i < (j + 1) * w" using assms by (simp add: algebra_simps)
  also have "\<dots> \<le> h * w" using assms by (intro mult_right_mono) simp_all
  finally show "j * w + i < w * h" by (simp add: mult.commute)
qed

lemma sprite_cong:
  assumes "sprite_clear f base" "p \<in> sprite_rect f"
    and "\<And>a. unat a < unat base \<or> unat base + buffer_bytes f \<le> unat a \<Longrightarrow> m' a = m a"
  shows "sprite_at f m' p = sprite_at f m p"
proof -
  define i where "i = fst p - (cur_x f - cur_hx f)"
  define j where "j = snd p - (cur_y f - cur_hy f)"
  define n where "n = nat (j * cur_w f + i)"
  have ij: "0 \<le> i" "i < cur_w f" "0 \<le> j" "j < cur_h f"
    using assms(2) by (simp_all add: sprite_rect_def rect_def i_def j_def)
  note ix = sprite_index [OF ij]
  have n: "n < nat (cur_w f * cur_h f)" using ix by (simp add: n_def)
  have "m' (cur_sprite f + 4 * of_int (j * cur_w f + i) + of_nat k) = m (cur_sprite f + 4 * of_int (j * cur_w f + i) + of_nat k)"
    if "k < 4" for k
  proof -
    have e: "cur_sprite f + 4 * of_int (j * cur_w f + i) + of_nat k = of_nat (unat (cur_sprite f) + 4 * n + k)"
      using ix(1) by (simp add: n_def)
    have lt: "unat (cur_sprite f) + 4 * n + k < unat (cur_sprite f) + 4 * nat (cur_w f * cur_h f)"
      using n that by simp
    then have "unat (cur_sprite f) + 4 * n + k < 4294967296" using assms(1) unfolding sprite_clear_def by linarith
    then have "unat (cur_sprite f + 4 * of_int (j * cur_w f + i) + of_nat k) = unat (cur_sprite f) + 4 * n + k"
      unfolding e by (rule unat_of_nat32)
    then show ?thesis
      using lt assms(1) unfolding sprite_clear_def by (intro assms(3)) linarith
  qed
  from this [of 0] this [of 1] this [of 2] this [of 3] show ?thesis
    by (simp add: sprite_at_def sprite_pixel_def load32_def i_def [symmetric] j_def [symmetric])
qed

lemma sprite_same:
  assumes "buffered f" "sprite_ok f" "touches f (lfb f) A m m'" "p \<in> sprite_rect f"
  shows "sprite_at f m' p = sprite_at f m p"
  using assms(1) by (intro sprite_cong [OF assms(2) [unfolded sprite_ok_clear] assms(4)] touches_outside [OF _ assms(3)]) (simp_all add: buffered_def)

lemma blend_opaque: "blend_channel (c AND 0xFF) 255 old = ucast (c AND 0xFF)"
proof -
  have "unat (c AND 0xFF) < 256"
    using unat_and_mask [of c 8] by (simp add: mask_eq_exp_minus_1)
  then have "unat (blend_channel (c AND 0xFF) 255 old) = unat (ucast (c AND 0xFF) :: u8)"
    using blend_channel_between(3) [of "c AND 0xFF" 255 old]
    by (simp add: unsigned_ucast_eq take_bit_nat_eq_self)
  then show ?thesis by (simp only: word_unat_eq_iff)
qed

definition cursor_value :: "framebuffer \<Rightarrow> mem \<Rightarrow> int \<times> int \<Rightarrow> u8 \<times> u8 \<times> u8 \<Rightarrow> u8 \<times> u8 \<times> u8" where
  "cursor_value f m p old =
     (if drop_bit 24 (sprite_at f m p) = 0 then old else over (sprite_at f m p) (pixel f (backbuf f) m p))"

lemma composite_pixel_paints:
  assumes "buffered f" "on_screen f (x, y)"
  shows "paints f (lfb f) (cursor_value f m) {(x, y)} m (composite_pixel f x y m)"
proof (cases "drop_bit 24 (sprite_at f m (x, y)) = 0")
  case True
  then show ?thesis
    by (simp add: paints_def composite_pixel_def cursor_value_def sprite_at_def)
next
  case False
  have s: "surface f (lfb f)" using assms(1) by (simp add: buffered_def)
  let ?d = "pix f (lfb f) (x, y) 0" and ?g = "pix f (backbuf f) (x, y) 0"
  define c where "c = over (sprite_at f m (x, y)) (pixel f (backbuf f) m (x, y))"
  define m3 where "m3 = m(?d := fst c, ?d + 1 := fst (snd c), ?d + 2 := snd (snd c))"
  have b: "0 < unat (bypp f)" "1 < unat (bypp f)" "2 < unat (bypp f)" using bypp_values [OF s] by auto
  have ne: "?g + 1 \<noteq> ?d" "?g + 2 \<noteq> ?d" "?g + 2 \<noteq> ?d + 1"
    using screen_back_distinct [OF assms(1) assms(2) assms(2) b(2) b(1)]
      screen_back_distinct [OF assms(1) assms(2) assms(2) b(3) b(1)]
      screen_back_distinct [OF assms(1) assms(2) assms(2) b(3) b(2)] by (simp_all add: pix_def)
  have e: "composite_pixel f x y m = (if bypp f = 4 then m3(?d + 3 := 0) else m3)"
    using False ne
    by (auto simp: composite_pixel_def Let_def sprite_at_def m3_def c_def blend_opaque over_def pixel_def pix_def add.assoc)
  have "m3 a = m a" if "a \<notin> cells f (lfb f) {(x, y)}" for a
    using not_in_cell [OF s assms(2) that] by (simp add: m3_def pix_def)
  moreover have "a \<noteq> ?d + 3" if "a \<notin> cells f (lfb f) {(x, y)}" "bypp f = 4" for a
    using not_in_cell(4) [OF s assms(2) that] by (simp add: pix_def)
  moreover have "pixel f (lfb f) m3 (x, y) = c" "pixel f (lfb f) (m3(?d + 3 := 0)) (x, y) = c"
    by (simp_all add: pixel_def m3_def pix_def add.assoc)
  moreover have "cursor_value f m (x, y) old = c" for old using False by (simp add: cursor_value_def c_def)
  ultimately show ?thesis by (auto simp: paints_def touches_def e)
qed

lemma paints_rows:
  assumes "surface f base"
    and "\<And>p m'. p \<in> rect x y w h \<Longrightarrow> touches f base UNIV m m' \<Longrightarrow> paints f base V {p} m' (body (snd p) (fst p) m')"
  shows "paints f base V (rect x y w h) m (for_int y (y + h) (\<lambda>j. for_int x (x + w) (body j)) m)"
  using painted.effect_rows [where f = f and base = base and V = V and body = body and x = x and y = y and w = w and h = h and s = m]
    assms touches_mono [OF paints_touches, OF _ subset_UNIV] by blast

lemma paints_cong:
  assumes "paints f base V A m m'" "\<And>p old. p \<in> A \<Longrightarrow> on_screen f p \<Longrightarrow> V p old = V' p old"
    and "\<And>p. on_screen f p \<Longrightarrow> p \<in> A \<longleftrightarrow> p \<in> B"
  shows "paints f base V' B m m'"
proof -
  have "cells f base A = cells f base B" using assms(3) unfolding cells_def by blast
  then show ?thesis using assms unfolding paints_def touches_def by metis
qed

lemma composite_cursor_paints:
  assumes "buffered f" "sprite_ok f"
  shows "paints f (lfb f) (\<lambda>p old. if cursor_on f then cursor_value f m p old else old)
    (rect x y w h \<inter> sprite_rect f) m (composite_cursor f x y w h m)"
proof (cases "cursor_on f")
  case False
  then show ?thesis using assms(1) by (auto simp: composite_cursor_def cursor_on_def paints_def buffered_def)
next
  case True
  have s: "surface f (lfb f)" and b: "backbuf f \<noteq> 0" using assms(1) by (simp_all add: buffered_def)
  define sx where "sx = cur_x f - cur_hx f"
  define sy where "sy = cur_y f - cur_hy f"
  define x0 where "x0 = max (max x sx) 0"
  define y0 where "y0 = max (max y sy) 0"
  define x1 where "x1 = min (min (x + w) (sx + cur_w f)) (scr_w f)"
  define y1 where "y1 = min (min (y + h) (sy + cur_h f)) (scr_h f)"
  have e: "composite_cursor f x y w h m =
      for_int y0 (y0 + (y1 - y0)) (\<lambda>y. for_int x0 (x0 + (x1 - x0)) (\<lambda>x. composite_pixel f x y)) m"
    using True b unfolding composite_cursor_def cursor_on_def Let_def sx_def [symmetric] sy_def [symmetric]
    by (simp add: x0_def y0_def x1_def y1_def max_def min_def)
  have within: "p \<in> rect x y w h \<inter> sprite_rect f \<and> on_screen f p" if "p \<in> rect x0 y0 (x1 - x0) (y1 - y0)" for p
    using that by (auto simp: rect_def sprite_rect_def on_screen_def x0_def y0_def x1_def y1_def sx_def sy_def)
  have "paints f (lfb f) (cursor_value f m) (rect x0 y0 (x1 - x0) (y1 - y0)) m (composite_cursor f x y w h m)"
    unfolding e
  proof (rule paints_rows [OF s])
    fix p m' assume p: "p \<in> rect x0 y0 (x1 - x0) (y1 - y0)" and t: "touches f (lfb f) UNIV m m'"
    have on: "on_screen f p" "p \<in> sprite_rect f" using within [OF p] by simp_all
    have "cursor_value f m' p old = cursor_value f m p old" for old
      by (simp add: cursor_value_def sprite_same [OF assms t on(2)] back_pixel_same [OF assms(1) t on(1)])
    then show "paints f (lfb f) (cursor_value f m) {p} m' (composite_pixel f (fst p) (snd p) m')"
      using composite_pixel_paints [OF assms(1), of "fst p" "snd p" m'] on(1) by (simp add: paints_def)
  qed
  then show ?thesis
    using True within
    by (rule_tac paints_cong) (auto simp: rect_def sprite_rect_def on_screen_def x0_def y0_def x1_def y1_def sx_def sy_def)
qed

lemma flip_rows:
  assumes b: "buffered f" and r: "0 \<le> x" "0 < w" "x + w \<le> scr_w f" "0 \<le> y" "y + h \<le> scr_h f"
  shows "paints f (lfb f) (\<lambda>p _. pixel f (backbuf f) m p) (rect x y w h) m (for_int y (y + h) (flip_row f x w) m)"
proof -
  have s: "surface f (lfb f)" using b by (simp add: buffered_def)
  have "paints f (lfb f) (\<lambda>p _. pixel f (backbuf f) m p) (\<Union>row \<in> {y..<y + h}. rect x row w 1) m
      (for_int y (y + h) (flip_row f x w) m)"
  proof (rule paints_for [OF s])
    fix row m' assume row: "y \<le> row" "row < y + h" and t: "touches f (lfb f) UNIV m m'"
    show "paints f (lfb f) (\<lambda>p _. pixel f (backbuf f) m p) (rect x row w 1) m' (flip_row f x w row m')"
      using copy_row [OF b r(1-3), of row m'] row r back_pixel_same [OF b t]
      by (auto intro: paints_cong)
  qed (auto simp: rect_def)
  moreover have "(\<Union>row \<in> {y..<y + h}. rect x row w 1) = rect x y w h" by (auto simp: rect_def)
  ultimately show ?thesis by simp
qed

lemma composed_same:
  assumes "buffered f" "sprite_ok f" "touches f (lfb f) A m m'" "on_screen f p"
  shows "composed f m' p = composed f m p"
  using sprite_same [OF assms(1-3)] back_pixel_same [OF assms(1, 3, 4)]
  by (cases "p \<in> sprite_rect f") (simp_all add: composed_def)

lemma flip_rect_shows:
  assumes "buffered f" "sprite_ok f"
  shows "touches f (lfb f) (rect x y w h) m (fb_flip_rect f x y w h m) \<and>
    (\<forall>p \<in> rect x y w h. on_screen f p \<longrightarrow> pixel f (lfb f) (fb_flip_rect f x y w h m) p = composed f m p)"
proof -
  have s: "surface f (lfb f)" and b: "backbuf f \<noteq> 0" using assms(1) by (simp_all add: buffered_def)
  obtain x1 y1 w1 h1 where cl: "clip f x y w h = (x1, y1, w1, h1)" by (metis prod.exhaust)
  have pos: "0 < scr_w f" "0 < scr_h f" using s by (simp_all add: surface_def)
  note sp = clip_spec [OF cl pos]
  let ?R = "rect x1 y1 w1 h1" and ?m' = "fb_flip_rect f x y w h m"
  have "paints f (lfb f) (\<lambda>p _. composed f m p) ?R m ?m'"
  proof (cases "w1 \<le> 0 \<or> h1 \<le> 0")
    case True
    then have "?R = {}" by (auto simp: rect_def)
    with True show ?thesis using b by (auto simp: fb_flip_rect_def cl)
  next
    case False
    define m1 where "m1 = for_int y1 (y1 + h1) (flip_row f x1 w1) m"
    have e: "?m' = composite_cursor f x1 y1 w1 h1 m1" using False b by (simp add: fb_flip_rect_def cl m1_def)
    have p1: "paints f (lfb f) (\<lambda>p _. pixel f (backbuf f) m p) ?R m m1"
      unfolding m1_def using False sp(1-4) by (intro flip_rows [OF assms(1)]) simp_all
    note t1 = paints_touches [OF p1]
    note p2 = composite_cursor_paints [OF assms, of m1 x1 y1 w1 h1, folded e]
    have "pixel f (lfb f) ?m' p = composed f m p" if "p \<in> ?R" and on: "on_screen f p" for p
      using that paints_pixel [OF p1 s on] paints_pixel [OF p2 s on]
        composed_same [OF assms t1 on, symmetric] back_pixel_same [OF assms(1) t1 on]
      by (simp add: composed_def cursor_value_def)
    moreover have "touches f (lfb f) ?R m ?m'"
      using touches_trans [OF t1 touches_mono [OF paints_touches [OF p2], of ?R]] by simp
    ultimately show ?thesis by (simp add: paints_def)
  qed
  then have "paints f (lfb f) (\<lambda>p _. composed f m p) (rect x y w h) m ?m'"
    by (rule paints_cong) (simp_all add: sp(5))
  then show ?thesis by (simp add: paints_def)
qed

definition screen_only :: "framebuffer \<Rightarrow> mem \<Rightarrow> mem \<Rightarrow> bool" where
  "screen_only f m m' \<longleftrightarrow>
     (\<forall>a. unat a < unat (lfb f) \<or> unat (lfb f) + buffer_bytes f \<le> unat a \<longrightarrow> m' a = m a)"

lemma back_pixel_only:
  assumes "buffered f" "screen_only f m m'" "on_screen f p"
  shows "pixel f (backbuf f) m' p = pixel f (backbuf f) m p"
proof -
  have s: "surface f (lfb f)" using assms(1) by (simp add: buffered_def)
  have "m' (pix f (backbuf f) p k) = m (pix f (backbuf f) p k)" if "k < unat (bypp f)" for k
    using back_cell [OF assms(1, 3) that] assms(2) unfolding screen_only_def by blast
  moreover have "2 < unat (bypp f)" using bypp_values [OF s] by auto
  ultimately show ?thesis by (simp add: pixel_def)
qed

lemma touches_screen_only: "buffered f \<Longrightarrow> touches f (lfb f) A m m' \<Longrightarrow> screen_only f m m'"
  using touches_outside [of f "lfb f"] by (simp add: screen_only_def buffered_def)

lemma screen_only_trans: "screen_only f m m1 \<Longrightarrow> screen_only f m1 m2 \<Longrightarrow> screen_only f m m2"
  by (simp add: screen_only_def)

lemma flip_copy:
  fixes m :: mem
  assumes "buffered f"
  defines "m1 \<equiv> memcpy m (lfb f) (backbuf f) (pitch f * of_int (scr_h f))"
  shows "screen_only f m m1" "on_screen f p \<Longrightarrow> pixel f (lfb f) m1 p = pixel f (backbuf f) m p"
proof -
  have s: "surface f (lfb f)" using assms(1) by (simp add: buffered_def)
  have "buffer_bytes f < 4294967296"
    using assms(1) unat_gt_0 [of "backbuf f"] by (simp add: buffered_def surface_def buffer_bytes_def)
  moreover have "pitch f * of_int (scr_h f) = of_nat (buffer_bytes f)"
    using s by (simp add: buffer_bytes_def surface_def)
  ultimately have "unat (pitch f * of_int (scr_h f)) = buffer_bytes f" by (simp only: unat_of_nat32)
  then have e: "m1 = copy_bytes m (lfb f) (backbuf f) (buffer_bytes f)"
    using memcpy_copies [of "lfb f" "backbuf f" "pitch f * of_int (scr_h f)" m] buffers_fwd_ok [OF assms(1), of _ 0]
    by (simp add: m1_def)
  have "\<not> unat (a - lfb f) < buffer_bytes f"
    if "unat a < unat (lfb f) \<or> unat (lfb f) + buffer_bytes f \<le> unat a" for a
    using that s unat_lt32 [of a] by (auto simp: unat_sub_if' surface_def buffer_bytes_def)
  then show "screen_only f m m1" by (simp add: screen_only_def e copy_bytes_def)
  show "pixel f (lfb f) m1 p = pixel f (backbuf f) m p" if p: "on_screen f p"
  proof -
    have "m1 (pix f (lfb f) p k) = m (pix f (backbuf f) p k)" if k: "k < unat (bypp f)" for k
    proof -
      have "unat (pix f (lfb f) p k - lfb f) = pixel_index f p k"
        using unat_pix [OF s p k] unat_sub32 [of "lfb f" "pix f (lfb f) p k"] by simp
      moreover have "backbuf f + (pix f (lfb f) p k - lfb f) = pix f (backbuf f) p k" by (simp add: pix_def)
      ultimately show ?thesis
        using pixel_index_bound [OF s p k] unfolding e copy_bytes_def buffer_bytes_def by simp
    qed
    moreover have "2 < unat (bypp f)" using bypp_values [OF s] by auto
    ultimately show ?thesis by (simp add: pixel_def)
  qed
qed

lemma fb_flip_shows:
  assumes "buffered f" "sprite_ok f"
  shows "screen_only f m (fb_flip f m)" "on_screen f p \<Longrightarrow> pixel f (lfb f) (fb_flip f m) p = composed f m p"
proof -
  have s: "surface f (lfb f)" and b: "backbuf f \<noteq> 0" using assms(1) by (simp_all add: buffered_def)
  define m1 where "m1 = memcpy m (lfb f) (backbuf f) (pitch f * of_int (scr_h f))"
  note cp = flip_copy [OF assms(1), where m = m, folded m1_def]
  have e: "fb_flip f m = composite_cursor f 0 0 (scr_w f) (scr_h f) m1" using b by (simp add: fb_flip_def m1_def)
  note cc = composite_cursor_paints [OF assms(1, 2), of m1 0 0 "scr_w f" "scr_h f", folded e]
  show "screen_only f m (fb_flip f m)"
    by (rule screen_only_trans [OF cp(1) touches_screen_only [OF assms(1) paints_touches [OF cc]]])
  assume p: "on_screen f p"
  note bk = back_pixel_only [OF assms(1) cp(1) p]
  have spr: "sprite_at f m1 p = sprite_at f m p" if "p \<in> sprite_rect f"
    using sprite_cong [OF assms(2) [unfolded sprite_ok_clear] that] cp(1) unfolding screen_only_def by blast
  show "pixel f (lfb f) (fb_flip f m) p = composed f m p"
    using paints_pixel [OF cc s p] p spr bk cp(2) [OF p]
    by (auto simp: composed_def cursor_value_def rect_def on_screen_def)
qed

lemma composed_only:
  assumes "buffered f" "sprite_ok f" "screen_only f m m'" "on_screen f p"
  shows "composed f m' p = composed f m p"
proof -
  have "pixel f (backbuf f) m' p = pixel f (backbuf f) m p"
    by (rule back_pixel_only [OF assms(1, 3, 4)])
  moreover have "sprite_at f m' p = sprite_at f m p" if "p \<in> sprite_rect f"
    using sprite_cong [OF assms(2) [unfolded sprite_ok_clear] that] assms(3) unfolding screen_only_def by blast
  ultimately show ?thesis by (cases "p \<in> sprite_rect f") (simp_all add: composed_def)
qed

definition screen_shows :: "framebuffer \<Rightarrow> mem \<Rightarrow> bool" where
  "screen_shows f m \<longleftrightarrow> (\<forall>p. on_screen f p \<longrightarrow> pixel f (lfb f) m p = composed f m p)"

lemma screen_showsD: "screen_shows f m \<Longrightarrow> on_screen f p \<Longrightarrow> pixel f (lfb f) m p = composed f m p"
  unfolding screen_shows_def by blast

lemma flip_screen_shows: "buffered f \<Longrightarrow> sprite_ok f \<Longrightarrow> screen_shows f (fb_flip f m)"
  using fb_flip_shows [where f = f and m = m] composed_only [of f m "fb_flip f m"] unfolding screen_shows_def by simp

lemma composed_off_sprite: "p \<notin> sprite_rect f \<Longrightarrow> composed f m p = pixel f (backbuf f) m p"
  by (simp add: composed_def)

lemma flip_rect_keeps:
  assumes "buffered f" "sprite_ok f"
    and "\<And>p. on_screen f p \<Longrightarrow> p \<notin> rect x y w h \<Longrightarrow> pixel f (lfb f) m p = composed f m p"
  shows "screen_shows f (fb_flip_rect f x y w h m)"
proof -
  have s: "surface f (lfb f)" using assms(1) by (simp add: buffered_def)
  note fl = flip_rect_shows [OF assms(1, 2), of x y w h m]
  have "pixel f (lfb f) (fb_flip_rect f x y w h m) p = composed f m p" if "on_screen f p" for p
    using fl assms(3) [OF that] touches_pixel [OF _ s that] that by (cases "p \<in> rect x y w h") auto
  then show ?thesis
    using composed_same [OF assms(1, 2) conjunct1 [OF fl]] by (simp add: screen_shows_def)
qed

lemma cursor_move_shows:
  assumes "buffered f" "sprite_ok f" "screen_shows f m"
  shows "screen_shows (fst (fb_cursor_move x y (f, m))) (snd (fb_cursor_move x y (f, m)))"
proof -
  define f' where "f' = f\<lparr>cur_x := x, cur_y := y\<rparr>"
  define ox where "ox = cur_x f - cur_hx f"
  define oy where "oy = cur_y f - cur_hy f"
  define m1 where "m1 = fb_flip_rect f' ox oy (cur_w f) (cur_h f) m"
  have b: "buffered f'" "sprite_ok f'"
    using assms(1, 2) by (simp_all add: f'_def buffered_def sprite_ok_def surface_def buffer_bytes_def)
  have s: "surface f' (lfb f')" using b(1) by (simp add: buffered_def)
  have same: "on_screen f' = on_screen f" "pixel f' = pixel f" "lfb f' = lfb f" "backbuf f' = backbuf f"
    by (simp_all add: f'_def on_screen_def pixel_def pix_def pixel_offset_def fun_eq_iff)
  have old: "rect ox oy (cur_w f) (cur_h f) = sprite_rect f" by (simp add: sprite_rect_def ox_def oy_def)
  note fl = flip_rect_shows [OF b, of ox oy "cur_w f" "cur_h f" m, folded m1_def, unfolded old]
  have "pixel f' (lfb f') m1 p = composed f' m1 p"
    if on: "on_screen f' p" and out: "p \<notin> rect (x - cur_hx f') (y - cur_hy f') (cur_w f') (cur_h f')" for p
  proof -
    have "p \<notin> sprite_rect f'" using out by (simp add: sprite_rect_def f'_def)
    then have c: "composed f' m1 p = pixel f (backbuf f) m p"
      using back_pixel_same [OF b(1) conjunct1 [OF fl] on] by (simp add: composed_off_sprite same)
    show ?thesis
    proof (cases "p \<in> sprite_rect f")
      case True
      then show ?thesis using fl on composed_same [OF b conjunct1 [OF fl] on] by simp
    next
      case False
      then have "pixel f' (lfb f') m1 p = pixel f (lfb f) m p"
        using touches_pixel [OF conjunct1 [OF fl] s on] by (simp add: same)
      also have "\<dots> = pixel f (backbuf f) m p"
        using screen_showsD [OF assms(3)] on False by (simp add: same composed_off_sprite)
      finally show ?thesis by (simp only: c)
    qed
  qed
  then have "screen_shows f' (fb_flip_rect f' (x - cur_hx f') (y - cur_hy f') (cur_w f') (cur_h f') m1)"
    by (rule flip_rect_keeps [OF b])
  then show ?thesis by (simp add: fb_cursor_move_def f'_def m1_def ox_def oy_def Let_def)
qed

lemma cursor_show_shows:
  assumes "buffered f" "sprite_ok f" "screen_shows f m"
  shows "screen_shows (fst (fb_cursor_show v (f, m))) (snd (fb_cursor_show v (f, m)))"
proof -
  define f' where "f' = f\<lparr>cur_visible := v\<rparr>"
  have b: "buffered f'" "sprite_ok f'"
    using assms(1, 2) by (simp_all add: f'_def buffered_def sprite_ok_def surface_def buffer_bytes_def)
  have same: "on_screen f' = on_screen f" "pixel f' = pixel f" "lfb f' = lfb f" "backbuf f' = backbuf f"
    and spr: "sprite_rect f' = sprite_rect f"
    by (simp_all add: f'_def on_screen_def pixel_def pix_def pixel_offset_def sprite_rect_def fun_eq_iff)
  have "screen_shows f' (fb_flip_rect f' (cur_x f' - cur_hx f') (cur_y f' - cur_hy f') (cur_w f') (cur_h f') m)"
  proof (rule flip_rect_keeps [OF b])
    fix p assume "on_screen f' p" "p \<notin> rect (cur_x f' - cur_hx f') (cur_y f' - cur_hy f') (cur_w f') (cur_h f')"
    then have "on_screen f' p" "p \<notin> sprite_rect f'" by (simp_all add: sprite_rect_def)
    then show "pixel f' (lfb f') m p = composed f' m p"
      using screen_showsD [OF assms(3)] by (simp add: same spr composed_off_sprite)
  qed
  then show ?thesis by (simp add: fb_cursor_show_def f'_def Let_def)
qed

subsection \<open>Drawing, then flipping what was drawn\<close>

text \<open>The discipline of every client that draws while the desktop is not running: draw in the
  backbuffer, flip a rectangle that covers the drawing.\<close>

definition drawable :: "framebuffer \<Rightarrow> bool" where
  "drawable f \<longleftrightarrow> buffered f \<and> sprite_ok f \<and> sprite_clear f (backbuf f) \<and> target f = backbuf f"

lemma drawableD:
  assumes "drawable f"
  shows "buffered f" "sprite_ok f" "surface f (target f)" "surface f (backbuf f)" "surface f (lfb f)" "target f = backbuf f"
  using assms by (simp_all add: drawable_def buffered_def)

lemma screen_cell:
  assumes "buffered f" "on_screen f p" "k < unat (bypp f)"
  shows "unat (pix f (lfb f) p k) < unat (backbuf f) \<or> unat (backbuf f) + buffer_bytes f \<le> unat (pix f (lfb f) p k)"
proof -
  have s: "surface f (lfb f)" using assms(1) by (simp add: buffered_def)
  show ?thesis
    using assms unat_pix [OF s assms(2, 3)] pixel_index_bound [OF s assms(2, 3)]
    by (auto simp: buffered_def buffer_bytes_def)
qed

lemma back_drawing:
  assumes "drawable f" "touches f (backbuf f) A m m'" "on_screen f p"
  shows "pixel f (lfb f) m' p = pixel f (lfb f) m p" "p \<notin> A \<Longrightarrow> composed f m' p = composed f m p"
proof -
  note d = drawableD [OF assms(1)]
  have "m' (pix f (lfb f) p k) = m (pix f (lfb f) p k)" if "k < unat (bypp f)" for k
    by (rule touches_outside [OF d(4) assms(2) screen_cell [OF d(1) assms(3) that]])
  moreover have "2 < unat (bypp f)" using bypp_values [OF d(4)] by auto
  ultimately show "pixel f (lfb f) m' p = pixel f (lfb f) m p" by (simp add: pixel_def)
  show "composed f m' p = composed f m p" if "p \<notin> A"
  proof -
    have "sprite_at f m' p = sprite_at f m p" if "p \<in> sprite_rect f"
      using assms(1) that touches_outside [OF d(4) assms(2)]
      by (intro sprite_cong [of f "backbuf f"]) (simp_all add: drawable_def)
    then show ?thesis
      using touches_pixel [OF assms(2) d(4) assms(3) that] by (cases "p \<in> sprite_rect f") (simp_all add: composed_def)
  qed
qed

lemma draw_then_flip:
  assumes "drawable f" "touches f (backbuf f) (rect x y w h) m m'" "screen_shows f m"
  shows "screen_shows f (fb_flip_rect f x y w h m')"
  using back_drawing [OF assms(1, 2)] screen_showsD [OF assms(3)]
  by (intro flip_rect_keeps [OF drawableD(1, 2) [OF assms(1)]]) simp

subsection \<open>Pointer movement\<close>

datatype pointer_op = Move int int | Show bool | Flip | Flip_Rect int int int int

fun pointer_step :: "pointer_op \<Rightarrow> framebuffer \<times> mem \<Rightarrow> framebuffer \<times> mem" where
  "pointer_step (Move x y) s = fb_cursor_move x y s"
| "pointer_step (Show v) s = fb_cursor_show v s"
| "pointer_step Flip (f, m) = (f, fb_flip f m)"
| "pointer_step (Flip_Rect x y w h) (f, m) = (f, fb_flip_rect f x y w h m)"

lemma flip_rect_only:
  "buffered f \<Longrightarrow> sprite_ok f \<Longrightarrow> screen_only f m (fb_flip_rect f x y w h m)"
  using flip_rect_shows touches_screen_only by blast

definition same_buffers :: "framebuffer \<Rightarrow> framebuffer \<Rightarrow> bool" where
  "same_buffers f f' \<longleftrightarrow>
     lfb f' = lfb f \<and> backbuf f' = backbuf f \<and> target f' = target f \<and> buffer_bytes f' = buffer_bytes f \<and>
     (buffered f \<longrightarrow> buffered f') \<and> (sprite_ok f \<longrightarrow> sprite_ok f')"

lemma same_buffers_pointer:
  "same_buffers f (f\<lparr>cur_x := x, cur_y := y\<rparr>)" "same_buffers f (f\<lparr>cur_visible := v\<rparr>)" "same_buffers f f"
  by (simp_all add: same_buffers_def buffered_def sprite_ok_def surface_def buffer_bytes_def)

lemma pointer_step_shows:
  assumes "buffered f" "sprite_ok f" "screen_shows f m" "pointer_step opn (f, m) = (f', m')"
  shows "same_buffers f f' \<and> screen_shows f' m' \<and> screen_only f m m'"
proof (cases opn)
  case (Move x y)
  let ?f = "f\<lparr>cur_x := x, cur_y := y\<rparr>"
  have b: "buffered ?f" "sprite_ok ?f"
    using assms(1, 2) same_buffers_pointer(1) [where f = f and x = x and y = y] by (simp_all add: same_buffers_def)
  have only: "screen_only f m1 m2 = screen_only ?f m1 m2" for m1 m2
    by (simp add: screen_only_def buffer_bytes_def)
  have "f' = ?f" "screen_only f m m'"
    using assms(4) Move screen_only_trans [OF flip_rect_only [OF b] flip_rect_only [OF b]]
    by (auto simp: fb_cursor_move_def Let_def only)
  then show ?thesis
    using cursor_move_shows [OF assms(1-3), of x y] assms(4) Move same_buffers_pointer(1) by simp
next
  case (Show v)
  let ?f = "f\<lparr>cur_visible := v\<rparr>"
  have b: "buffered ?f" "sprite_ok ?f"
    using assms(1, 2) same_buffers_pointer(2) [where f = f and v = v] by (simp_all add: same_buffers_def)
  have only: "screen_only f m1 m2 = screen_only ?f m1 m2" for m1 m2
    by (simp add: screen_only_def buffer_bytes_def)
  have "f' = ?f" "screen_only f m m'"
    using assms(4) Show flip_rect_only [OF b]
    by (auto simp: fb_cursor_show_def Let_def only)
  then show ?thesis
    using cursor_show_shows [OF assms(1-3), of v] assms(4) Show same_buffers_pointer(2) by simp
next
  case Flip
  then show ?thesis
    using assms flip_screen_shows fb_flip_shows(1) same_buffers_pointer(3) by auto
next
  case (Flip_Rect x y w h)
  then show ?thesis
    using assms flip_rect_keeps [OF assms(1, 2)] screen_showsD [OF assms(3)] flip_rect_only [OF assms(1, 2)]
      same_buffers_pointer(3) by auto
qed

lemma pointer_run_shows:
  "buffered f \<Longrightarrow> sprite_ok f \<Longrightarrow> screen_shows f m \<Longrightarrow> fold pointer_step ops (f, m) = (f', m') \<Longrightarrow>
    same_buffers f f' \<and> screen_shows f' m' \<and> screen_only f m m'"
proof (induction ops arbitrary: f m)
  case Nil
  then show ?case using same_buffers_pointer(3) by (simp add: screen_only_def)
next
  case (Cons a ops)
  obtain f1 m1 where st: "pointer_step a (f, m) = (f1, m1)" by (cases "pointer_step a (f, m)")
  note one = pointer_step_shows [OF Cons.prems(1-3) st]
  then have b: "buffered f1" "sprite_ok f1" using Cons.prems(1, 2) by (simp_all add: same_buffers_def)
  have "same_buffers f1 f' \<and> screen_shows f' m' \<and> screen_only f1 m1 m'"
    using Cons.IH [OF b] one Cons.prems(4) st by (metis fold_simps(2))
  then show ?case using one by (auto simp: same_buffers_def screen_only_def)
qed

text \<open>C21: once the screen has been flipped, however the pointer then moves, hides and shows
  and whatever regions are flipped again, the screen shows exactly the backbuffer with the
  sprite blended over it at its present place, and no byte outside the real screen has changed.\<close>

theorem fb_pointer_leaves_no_trace:
  assumes "buffered f" "sprite_ok f" "fold pointer_step ops (f, fb_flip f m) = (f', m')"
  shows "screen_shows f' m' \<and> screen_only f m m'"
  using pointer_run_shows [OF assms(1, 2) flip_screen_shows [OF assms(1, 2)] assms(3)]
    screen_only_trans [OF fb_flip_shows(1) [OF assms(1, 2)]] by blast

definition two_buffers :: framebuffer where
  "two_buffers = small_screen\<lparr>backbuf := 0xD0000000, target := 0xD0000000, cur_sprite := 0x10000,
     cur_w := 2, cur_h := 2, cur_visible := True\<rparr>"

theorem fb_pointer_leaves_no_trace_witness:
  "\<exists>f' m'. fold pointer_step [Move 1 1, Show False, Move (- 3) 9, Show True] (two_buffers, fb_flip two_buffers (\<lambda>a. 9)) = (f', m') \<and>
     screen_shows f' m' \<and> screen_only two_buffers (\<lambda>a. 9) m'"
proof -
  obtain f' m' where r: "fold pointer_step [Move 1 1, Show False, Move (- 3) 9, Show True]
      (two_buffers, fb_flip two_buffers (\<lambda>a. 9)) = (f', m')"
    by fastforce
  have "buffered two_buffers" "sprite_ok two_buffers"
    by (simp_all add: two_buffers_def small_screen_def buffered_def sprite_ok_def surface_def buffer_bytes_def)
  from fb_pointer_leaves_no_trace [OF this r] r show ?thesis by blast
qed

end
