(* ===== verification/Mouse.thy ===== *)
theory Mouse
  imports Fb_Screen Keyboard
begin

text \<open>
  \<open>kernel/mouse.c\<close>: the PS/2 mouse. \<open>mouse_byte\<close> is the interrupt handler on the byte it
  read; it assembles packets, moves the pointer through the framebuffer module and pushes
  events. The state is the driver's own, the framebuffer with its memory, and the event queue.
\<close>

definition PS2_DATA :: u16 where "PS2_DATA = 0x60"
definition PS2_STATUS :: u16 where "PS2_STATUS = 0x64"
definition PS2_CMD :: u16 where "PS2_CMD = 0x64"

subsection \<open>Controller access\<close>

fun wait_write_loop :: "'d bus \<Rightarrow> nat \<Rightarrow> ('d, unit) state" where
  "wait_write_loop bus 0 = State_Monad.return ()"
| "wait_write_loop bus (Suc n) =
     do { s \<leftarrow> inb bus PS2_STATUS;
          if s AND 2 = 0 then State_Monad.return () else wait_write_loop bus n }"

definition ps2_wait_write :: "'d bus \<Rightarrow> ('d, unit) state" where
  "ps2_wait_write bus = wait_write_loop bus 100000"

fun wait_read_loop :: "'d bus \<Rightarrow> nat \<Rightarrow> ('d, unit) state" where
  "wait_read_loop bus 0 = State_Monad.return ()"
| "wait_read_loop bus (Suc n) =
     do { s \<leftarrow> inb bus PS2_STATUS;
          if s AND 1 \<noteq> 0 then State_Monad.return () else wait_read_loop bus n }"

definition ps2_wait_read :: "'d bus \<Rightarrow> ('d, unit) state" where
  "ps2_wait_read bus = wait_read_loop bus 100000"

definition mouse_write :: "'d bus \<Rightarrow> u8 \<Rightarrow> ('d, unit) state" where
  "mouse_write bus b =
     do { _ \<leftarrow> ps2_wait_write bus;
          _ \<leftarrow> outb bus PS2_CMD 0xD4;
          _ \<leftarrow> ps2_wait_write bus;
          _ \<leftarrow> outb bus PS2_DATA b;
          _ \<leftarrow> ps2_wait_read bus;
          _ \<leftarrow> inb bus PS2_DATA;
          State_Monad.return () }"

subsection \<open>Packets\<close>

record mouse =
  packet :: "u8 list"
  cycle :: nat
  mx :: int
  my :: int
  buttons :: u8

text \<open>The driver's state, the framebuffer and its memory, the event queue.\<close>

type_synonym mouse_world = "mouse \<times> (framebuffer \<times> mem) \<times> event ring"

definition accel :: "int \<Rightarrow> int" where
  "accel d =
     (let ad = (if d < 0 then - d else d)
      in if ad > 10 then d * 3 else if ad > 5 then d * 2 else d)"

definition mouse_move :: "int \<Rightarrow> int \<Rightarrow> mouse_world \<Rightarrow> mouse_world" where
  "mouse_move dx dy = (\<lambda>(s, (f, m), q).
     (if dx \<noteq> 0 \<or> dy \<noteq> 0 then
        let x0 = mx s + accel dx;
            y0 = my s - accel dy;
            x1 = (if x0 < 0 then 0 else x0);
            y1 = (if y0 < 0 then 0 else y0);
            x2 = (if x1 > sint (fb_width f) - 1 then sint (fb_width f) - 1 else x1);
            y2 = (if y1 > sint (fb_height f) - 1 then sint (fb_height f) - 1 else y1)
        in (s\<lparr>mx := x2, my := y2\<rparr>, fb_cursor_move x2 y2 (f, m),
            input_push (no_event\<lparr>ev_type := EV_MOUSE_MOVE, ev_x := of_int x2, ev_y := of_int y2\<rparr>) q)
      else (s, (f, m), q)))"

definition button_event :: "u8 \<Rightarrow> nat \<Rightarrow> mouse \<Rightarrow> event" where
  "button_event nw b s =
     no_event\<lparr>ev_type := EV_MOUSE_BUTTON, ev_button := of_nat b, ev_pressed := drop_bit b nw AND 1,
              ev_x := of_int (mx s), ev_y := of_int (my s)\<rparr>"

definition mouse_buttons :: "u8 \<Rightarrow> mouse \<Rightarrow> event ring \<Rightarrow> mouse \<times> event ring" where
  "mouse_buttons nw s q =
     (let changed = nw XOR buttons s;
          s' = s\<lparr>buttons := nw\<rparr>
      in (s', fold (\<lambda>b q. if changed AND push_bit b 1 \<noteq> 0 then input_push (button_event nw b s') q else q) [0, 1, 2] q))"

definition process_packet :: "mouse_world \<Rightarrow> mouse_world" where
  "process_packet w =
     (let flags = packet (fst w) ! 0
      in if flags AND 0xC0 \<noteq> 0 then w
         else let dx = uint (packet (fst w) ! 1) - (if flags AND 0x10 \<noteq> 0 then 256 else 0);
                  dy = uint (packet (fst w) ! 2) - (if flags AND 0x20 \<noteq> 0 then 256 else 0);
                  (s, fm, q) = mouse_move dx dy w;
                  (s', q') = mouse_buttons (flags AND 7) s q
              in (s', fm, q'))"

definition mouse_byte :: "u8 \<Rightarrow> mouse_world \<Rightarrow> mouse_world" where
  "mouse_byte b = (\<lambda>(s, fm, q).
     (if cycle s = 0 \<and> b AND 0x08 = 0 then (s, fm, q)
      else let s1 = s\<lparr>packet := (packet s)[cycle s := b], cycle := cycle s + 1\<rparr>
           in if cycle s1 = 3 then process_packet (s1\<lparr>cycle := 0\<rparr>, fm, q)
              else (s1, fm, q)))"

definition mouse_irq :: "'d bus \<Rightarrow> mouse_world \<Rightarrow> ('d, mouse_world) state" where
  "mouse_irq bus w = do { b \<leftarrow> inb bus PS2_DATA; State_Monad.return (mouse_byte b w) }"

definition mouse_setup :: "'d bus \<Rightarrow> ('d, unit) state" where
  "mouse_setup bus =
     do { _ \<leftarrow> ps2_wait_write bus;
          _ \<leftarrow> outb bus PS2_CMD 0xA8;
          _ \<leftarrow> ps2_wait_write bus;
          _ \<leftarrow> outb bus PS2_CMD 0x20;
          _ \<leftarrow> ps2_wait_read bus;
          cfg \<leftarrow> inb bus PS2_DATA;
          _ \<leftarrow> ps2_wait_write bus;
          _ \<leftarrow> outb bus PS2_CMD 0x60;
          _ \<leftarrow> ps2_wait_write bus;
          _ \<leftarrow> outb bus PS2_DATA ((cfg OR 0x02) AND NOT 0x20);
          _ \<leftarrow> mouse_write bus 0xF6;
          _ \<leftarrow> mouse_write bus 0xF3;
          _ \<leftarrow> mouse_write bus 200;
          mouse_write bus 0xF4 }"

text \<open>The final drain is the loop of the keyboard driver on the same two ports; it is bounded
  by the bytes the controller holds, not by the code.\<close>

definition mouse_init :: "'d bus \<Rightarrow> framebuffer \<Rightarrow> mouse \<Rightarrow> irq_table \<Rightarrow> 'd \<Rightarrow> (mouse \<times> irq_table \<times> 'd) option" where
  "mouse_init bus f s tab d =
     (let s' = s\<lparr>mx := sint (fb_width f) div 2, my := sint (fb_height f) div 2\<rparr>;
          d' = snd (run_state (mouse_setup bus) d)
      in case kbd_drain bus d' of None \<Rightarrow> None
         | Some d'' \<Rightarrow> Some (s', irq_register 12 Mouse_Irq tab, d''))"

subsection \<open>The pointer stays on the screen\<close>

text \<open>A screen whose extents fit the event's 16-bit fields, as the mode description's do.\<close>

definition pointer_ok :: "mouse_world \<Rightarrow> bool" where
  "pointer_ok = (\<lambda>(s, (f, m), q).
     length (packet s) = 3 \<and> cycle s < 3 \<and> buttons s < 8 \<and>
     on_screen f (mx s, my s) \<and> cur_x f = mx s \<and> cur_y f = my s \<and> scr_w f \<le> 32767 \<and> scr_h f \<le> 32767 \<and>
     buffered f \<and> sprite_ok f \<and> screen_shows f m)"

lemma extents:
  assumes "0 < scr_w f" "scr_w f \<le> 32767" "0 < scr_h f" "scr_h f \<le> 32767"
  shows "sint (fb_width f) = scr_w f" "sint (fb_height f) = scr_h f"
  using assms by (simp_all add: fb_width_def fb_height_def signed_of_int signed_take_bit_int_eq_self)

lemma cursor_move_keeps:
  assumes "buffered f" "sprite_ok f" "screen_shows f m" "fb_cursor_move x y (f, m) = (f', m')"
  shows "buffered f' \<and> sprite_ok f' \<and> screen_shows f' m'" "scr_w f' = scr_w f" "scr_h f' = scr_h f"
    "cur_x f' = x" "cur_y f' = y"
  using pointer_step_shows [OF assms(1-3), of "Move x y" f' m'] assms(1, 2, 4)
  by (auto simp: same_buffers_def fb_cursor_move_def Let_def)

lemma mouse_move_ok:
  assumes "pointer_ok w"
  shows "pointer_ok (mouse_move dx dy w)"
proof -
  obtain s f m q where w: "w = (s, (f, m), q)" by (metis prod_cases3 prod.exhaust)
  have ok: "length (packet s) = 3" "cycle s < 3" "buttons s < 8" "on_screen f (mx s, my s)"
    "scr_w f \<le> 32767" "scr_h f \<le> 32767" "buffered f" "sprite_ok f" "screen_shows f m"
    using assms by (simp_all add: w pointer_ok_def)
  then have pos: "0 < scr_w f" "0 < scr_h f" by (simp_all add: on_screen_def)
  note ext = extents [OF pos(1) ok(5) pos(2) ok(6)]
  show ?thesis
  proof (cases "dx \<noteq> 0 \<or> dy \<noteq> 0")
    case False
    then show ?thesis using assms by (simp add: w mouse_move_def)
  next
    case True
    define x2 where "x2 = min (max (mx s + accel dx) 0) (scr_w f - 1)"
    define y2 where "y2 = min (max (my s - accel dy) 0) (scr_h f - 1)"
    obtain f' m' where mv: "fb_cursor_move x2 y2 (f, m) = (f', m')" by fastforce
    have e: "mouse_move dx dy w = (s\<lparr>mx := x2, my := y2\<rparr>, (f', m'),
        input_push (no_event\<lparr>ev_type := EV_MOUSE_MOVE, ev_x := of_int x2, ev_y := of_int y2\<rparr>) q)"
    proof -
      have "x2 = (if (if mx s + accel dx < 0 then 0 else mx s + accel dx) > scr_w f - 1 then scr_w f - 1
            else if mx s + accel dx < 0 then 0 else mx s + accel dx)"
        "y2 = (if (if my s - accel dy < 0 then 0 else my s - accel dy) > scr_h f - 1 then scr_h f - 1
            else if my s - accel dy < 0 then 0 else my s - accel dy)"
        by (simp_all add: x2_def y2_def)
      then show ?thesis using True mv by (simp only: w mouse_move_def ext Let_def prod.case if_True)
    qed
    have "0 \<le> x2" "x2 < scr_w f" "0 \<le> y2" "y2 < scr_h f" using pos by (simp_all add: x2_def y2_def)
    then show ?thesis
      using cursor_move_keeps [OF ok(7-9) mv] ok by (simp add: e pointer_ok_def on_screen_def)
  qed
qed

lemma flag_buttons: "(b :: u8) AND 7 < 8"
proof -
  have "unat (b AND 7) = take_bit 3 (unat b)"
    by (simp add: unsigned_and_eq take_bit_eq_mask mask_eq_exp_minus_1)
  then show ?thesis by (simp add: word_less_nat_alt take_bit_eq_mod)
qed

lemma process_packet_ok:
  assumes "pointer_ok w"
  shows "pointer_ok (process_packet w)"
proof (cases "packet (fst w) ! 0 AND 0xC0 \<noteq> 0")
  case True
  then show ?thesis using assms by (simp add: process_packet_def)
next
  case False
  define dx where "dx = uint (packet (fst w) ! 1) - (if packet (fst w) ! 0 AND 0x10 \<noteq> 0 then 256 else 0)"
  define dy where "dy = uint (packet (fst w) ! 2) - (if packet (fst w) ! 0 AND 0x20 \<noteq> 0 then 256 else 0)"
  obtain s f m q where mv: "mouse_move dx dy w = (s, (f, m), q)" by (metis prod_cases3 prod.exhaust)
  have "pointer_ok (s, (f, m), q)" using mouse_move_ok [OF assms, of dx dy] mv by simp
  then show ?thesis
    using False mv flag_buttons
    by (simp add: process_packet_def Let_def dx_def dy_def mouse_buttons_def pointer_ok_def)
qed

lemma mouse_byte_ok:
  assumes "pointer_ok w"
  shows "pointer_ok (mouse_byte b w)"
proof -
  obtain s f m q where w: "w = (s, (f, m), q)" by (metis prod_cases3 prod.exhaust)
  let ?s = "s\<lparr>packet := (packet s)[cycle s := b], cycle := 0\<rparr>"
  have "pointer_ok (?s, (f, m), q)" using assms by (simp add: w pointer_ok_def)
  then have "pointer_ok (process_packet (?s, (f, m), q))" by (rule process_packet_ok)
  then show ?thesis using assms by (auto simp: w mouse_byte_def Let_def pointer_ok_def)
qed

text \<open>C33: whatever bytes the mouse sends, complete or not, the packet index stays in the
  packet array, the pointer stays on the screen, and the screen shows the backbuffer with the
  sprite at exactly the position the driver reports.\<close>

theorem mouse_pointer_safe:
  assumes "pointer_ok w"
  shows "pointer_ok (fold mouse_byte bs w)"
  using assms by (induction bs arbitrary: w) (simp_all add: mouse_byte_ok)

definition start_world :: mouse_world where
  "start_world = (\<lparr>packet = [0, 0, 0], cycle = 0, mx = 0, my = 0, buttons = 0\<rparr>,
     (two_buffers, fb_flip two_buffers (\<lambda>a. 9)), ring_empty no_event)"

lemma start_world_ok: "pointer_ok start_world"
proof -
  have b: "buffered two_buffers" "sprite_ok two_buffers"
    by (simp_all add: two_buffers_def small_screen_def buffered_def sprite_ok_def surface_def buffer_bytes_def)
  show ?thesis
    using flip_screen_shows [OF b] b
    by (simp add: start_world_def pointer_ok_def on_screen_def two_buffers_def small_screen_def)
qed

theorem mouse_pointer_safe_witness:
  "pointer_ok (fold mouse_byte [0xFF, 0x09, 0x7F, 0x01, 0x08, 0x00, 0x80] start_world)"
  by (rule mouse_pointer_safe [OF start_world_ok])

subsection \<open>What a consumer of the events knows\<close>

text \<open>The consumer's picture of the mouse: the position of the last event, and the buttons.\<close>

definition see_event :: "event \<Rightarrow> u16 \<times> u16 \<times> u8 \<Rightarrow> u16 \<times> u16 \<times> u8" where
  "see_event ev = (\<lambda>(x, y, btn).
     (ev_x ev, ev_y ev,
      if ev_type ev = EV_MOUSE_BUTTON
      then (if ev_pressed ev = 1 then btn OR push_bit (unat (ev_button ev)) 1
            else btn AND NOT (push_bit (unat (ev_button ev)) 1))
      else btn))"

definition seen :: "mouse \<Rightarrow> u16 \<times> u16 \<times> u8" where
  "seen s = (of_int (mx s), of_int (my s), buttons s)"

definition button_events :: "u8 \<Rightarrow> mouse \<Rightarrow> event list" where
  "button_events nw s =
     map (\<lambda>b. button_event nw b (s\<lparr>buttons := nw\<rparr>)) (filter (\<lambda>b. (nw XOR buttons s) AND push_bit b 1 \<noteq> 0) [0, 1, 2])"

lemma mouse_buttons_events: "mouse_buttons nw s q = (s\<lparr>buttons := nw\<rparr>, fold input_push (button_events nw s) q)"
  by (simp add: mouse_buttons_def button_events_def Let_def)

definition button_view :: "u8 \<Rightarrow> u8 \<Rightarrow> nat \<Rightarrow> u8 \<Rightarrow> u8" where
  "button_view nw old b btn =
     (if (nw XOR old) AND push_bit b 1 \<noteq> 0
      then (if drop_bit b nw AND 1 = 1 then btn OR push_bit b 1 else btn AND NOT (push_bit b 1))
      else btn)"

lemma button_views:
  "\<forall>n \<in> set [0..<8]. \<forall>k \<in> set [0..<8].
     button_view (of_nat n) (of_nat k) 2 (button_view (of_nat n) (of_nat k) 1 (button_view (of_nat n) (of_nat k) 0 (of_nat k))) = of_nat n"
  by code_simp

lemma button_view_all:
  assumes "nw < 8" "old < (8 :: u8)"
  shows "button_view nw old 2 (button_view nw old 1 (button_view nw old 0 old)) = nw"
proof -
  have "unat nw \<in> set [0..<8]" "unat old \<in> set [0..<8]" using assms by (simp_all add: word_less_nat_alt)
  then show ?thesis using button_views by fastforce
qed

lemma see_button_event:
  assumes "b < 3" "x = of_int (mx s)" "y = of_int (my s)"
  shows "see_event (button_event nw b s) (x, y, btn) =
    (x, y, if drop_bit b nw AND 1 = 1 then btn OR push_bit b 1 else btn AND NOT (push_bit b 1))"
proof -
  have "unat (of_nat b :: u8) = b" using assms(1) by (simp add: unat_of_nat)
  then show ?thesis using assms by (simp add: see_event_def button_event_def)
qed

lemma see_buttons:
  assumes "nw < 8" "buttons s < 8"
  shows "fold see_event (button_events nw s) (seen s) = seen (s\<lparr>buttons := nw\<rparr>)"
proof -
  let ?s = "s\<lparr>buttons := nw\<rparr>"
  have one: "fold see_event (if (nw XOR buttons s) AND push_bit b 1 \<noteq> 0 then [button_event nw b ?s] else [])
      (of_int (mx s), of_int (my s), btn) = (of_int (mx s), of_int (my s), button_view nw (buttons s) b btn)"
    if "b < 3" for b btn
    using see_button_event [OF that, of "of_int (mx s)" ?s "of_int (my s)"] by (simp add: button_view_def)
  have "button_events nw s =
      (if (nw XOR buttons s) AND push_bit 0 1 \<noteq> 0 then [button_event nw 0 ?s] else []) @
      (if (nw XOR buttons s) AND push_bit 1 1 \<noteq> 0 then [button_event nw 1 ?s] else []) @
      (if (nw XOR buttons s) AND push_bit 2 1 \<noteq> 0 then [button_event nw 2 ?s] else [])"
    by (simp add: button_events_def)
  then show ?thesis
    using one [of 0] one [of 1] one [of 2] button_view_all [OF assms]
    by (simp only: fold_append comp_apply seen_def mouse.simps) simp
qed

definition tells :: "mouse_world \<Rightarrow> mouse_world \<Rightarrow> bool" where
  "tells w w' \<longleftrightarrow> (\<exists>evs. snd (snd w') = fold input_push evs (snd (snd w)) \<and>
     fold see_event evs (seen (fst w)) = seen (fst w'))"

lemma tells_refl: "seen (fst w) = seen (fst w') \<Longrightarrow> snd (snd w) = snd (snd w') \<Longrightarrow> tells w w'"
  unfolding tells_def by (intro exI [of _ "[]"]) simp

lemma tells_trans: "tells w w1 \<Longrightarrow> tells w1 w2 \<Longrightarrow> tells w w2"
  unfolding tells_def by (metis comp_apply fold_append)

lemma mouse_move_tells: "tells w (mouse_move dx dy w)"
proof -
  obtain s f m q where w: "w = (s, (f, m), q)" by (metis prod_cases3 prod.exhaust)
  have "tells (s, (f, m), q) (s\<lparr>mx := x, my := y\<rparr>, fm,
      input_push (no_event\<lparr>ev_type := EV_MOUSE_MOVE, ev_x := of_int x, ev_y := of_int y\<rparr>) q)" for x y fm
    unfolding tells_def
    by (intro exI [of _ "[no_event\<lparr>ev_type := EV_MOUSE_MOVE, ev_x := of_int x, ev_y := of_int y\<rparr>]"])
      (simp add: see_event_def seen_def)
  then show ?thesis
    using tells_refl [of w w] by (simp add: w mouse_move_def Let_def)
qed

lemma mouse_buttons_tells:
  assumes "nw < 8" "buttons s < 8" "mouse_buttons nw s q = (s', q')"
  shows "tells (s, fm, q) (s', fm', q')"
  unfolding tells_def using assms see_buttons [OF assms(1, 2)]
  by (intro exI [of _ "button_events nw s"]) (auto simp: mouse_buttons_events)

lemma process_packet_tells:
  assumes "buttons (fst w) < 8"
  shows "tells w (process_packet w)"
proof (cases "packet (fst w) ! 0 AND 0xC0 \<noteq> 0")
  case True
  then show ?thesis by (simp add: process_packet_def tells_refl)
next
  case False
  define dx where "dx = uint (packet (fst w) ! 1) - (if packet (fst w) ! 0 AND 0x10 \<noteq> 0 then 256 else 0)"
  define dy where "dy = uint (packet (fst w) ! 2) - (if packet (fst w) ! 0 AND 0x20 \<noteq> 0 then 256 else 0)"
  obtain s fm q where mv: "mouse_move dx dy w = (s, fm, q)" by (metis prod_cases3)
  obtain s' q' where bt: "mouse_buttons (packet (fst w) ! 0 AND 7) s q = (s', q')" by fastforce
  have e: "process_packet w = (s', fm, q')" using False mv bt by (simp add: process_packet_def Let_def dx_def dy_def)
  have "buttons (fst (mouse_move dx dy w)) = buttons (fst w)"
    by (simp add: mouse_move_def Let_def case_prod_beta)
  then have "buttons s < 8" using assms mv by simp
  then show ?thesis
    using tells_trans [OF mouse_move_tells [of w dx dy, unfolded mv] mouse_buttons_tells [OF flag_buttons _ bt]]
    by (simp add: e)
qed

lemma mouse_byte_tells:
  assumes "buttons (fst w) < 8"
  shows "tells w (mouse_byte b w)"
proof -
  obtain s fm q where w: "w = (s, fm, q)" by (metis prod_cases3)
  let ?s = "s\<lparr>packet := (packet s)[cycle s := b], cycle := 0\<rparr>"
  have "tells w (?s, fm, q)" by (rule tells_refl) (simp_all add: w seen_def)
  moreover have "tells (?s, fm, q) (process_packet (?s, fm, q))"
    using assms by (intro process_packet_tells) (simp add: w)
  ultimately have "tells w (process_packet (?s, fm, q))" by (rule tells_trans)
  moreover have "tells w (s\<lparr>packet := (packet s)[cycle s := b], cycle := cycle s + 1\<rparr>, fm, q)"
    by (rule tells_refl) (simp_all add: w seen_def)
  ultimately show ?thesis
    using tells_refl [of w w] by (cases "cycle s = 2") (simp_all add: w mouse_byte_def Let_def)
qed

lemma mouse_bytes_tell: "pointer_ok w \<Longrightarrow> tells w (fold mouse_byte bs w)"
proof (induction bs arbitrary: w)
  case (Cons b bs)
  have "buttons (fst w) < 8" using Cons.prems by (simp add: pointer_ok_def case_prod_beta)
  from tells_trans [OF mouse_byte_tells [OF this] Cons.IH [OF mouse_byte_ok [OF Cons.prems]]]
  show ?case by simp
qed (simp add: tells_refl)



lemma accel_odd: "accel (- d) = - accel d"
  by (simp add: accel_def Let_def)

end
