(* ===== verification/Cursor.thy ===== *)
theory Cursor
  imports Mouse
begin

text \<open>
  \<open>kernel/cursor.c\<close>: the pointer sprite, drawn from the character art into a static array of
  \<open>SPR_W * SPR_H\<close> words at \<open>sprite\<close> (an address the linker chose).
\<close>

definition arrow :: "string list" where
  "arrow =
    [''X...........'',
     ''XX..........'',
     ''XWX.........'',
     ''XWWX........'',
     ''XWWWX.......'',
     ''XWWWWX......'',
     ''XWWWWWX.....'',
     ''XWWWWWWX....'',
     ''XWWWWWWWX...'',
     ''XWWWWWWWWX..'',
     ''XWWWWWXXXXX.'',
     ''XWWXWWX.....'',
     ''XWX.XWWX....'',
     ''XX..XWWX....'',
     ''X....XWWX...'',
     ''.....XWWX...'',
     ''......XWWX..'',
     ''......XWWX..'',
     ''.......XX...'']"

definition ART_W :: int where "ART_W = 12"
definition ART_H :: int where "ART_H = 19"
definition PAD :: int where "PAD = 2"
definition SPR_W :: int where "SPR_W = ART_W + PAD"
definition SPR_H :: int where "SPR_H = ART_H + PAD"

definition art_at :: "int \<Rightarrow> int \<Rightarrow> u32" where
  "art_at x y =
     (if x < 0 \<or> y < 0 \<or> x \<ge> ART_W \<or> y \<ge> ART_H then 0
      else let c = arrow ! nat y ! nat x
           in if c = CHR ''X'' then 0xFF000000 else if c = CHR ''W'' then 0xFFFFFFFF else 0)"

definition sprite_cell :: "u32 \<Rightarrow> int \<times> int \<Rightarrow> u32" where
  "sprite_cell sprite p = sprite + 4 * of_int (snd p * SPR_W + fst p)"

definition sprite_art :: "u32 \<Rightarrow> mem \<Rightarrow> mem" where
  "sprite_art sprite =
     for_int 0 SPR_H (\<lambda>y. for_int 0 SPR_W (\<lambda>x m. store32 m (sprite_cell sprite (x, y)) (art_at x y)))"

definition shadow_step :: "u32 \<Rightarrow> int \<Rightarrow> int \<Rightarrow> mem \<Rightarrow> mem" where
  "shadow_step sprite x y m =
     (if load32 m (sprite_cell sprite (x, y)) \<noteq> 0 then m
      else if art_at (x - 1) (y - 1) \<noteq> 0 \<or> art_at (x - 1) y \<noteq> 0 \<or> art_at x (y - 1) \<noteq> 0
      then store32 m (sprite_cell sprite (x, y)) 0x58000000
      else if art_at (x - 2) (y - 2) \<noteq> 0 \<or> art_at (x - 2) (y - 1) \<noteq> 0 \<or> art_at (x - 1) (y - 2) \<noteq> 0
      then store32 m (sprite_cell sprite (x, y)) 0x28000000
      else m)"

definition sprite_shadow :: "u32 \<Rightarrow> mem \<Rightarrow> mem" where
  "sprite_shadow sprite = for_int 0 SPR_H (\<lambda>y. for_int 0 SPR_W (\<lambda>x. shadow_step sprite x y))"

definition cursor_init :: "u32 \<Rightarrow> framebuffer \<times> mem \<Rightarrow> framebuffer \<times> mem" where
  "cursor_init sprite = (\<lambda>(f, m).
     (let m1 = sprite_shadow sprite (sprite_art sprite m);
          f1 = fb_set_cursor_sprite sprite SPR_W SPR_H 0 0 f
      in fb_cursor_show True (fb_cursor_move (sint (fb_width f1) div 2) (sint (fb_height f1) div 2) (f1, m1))))"

subsection \<open>The sprite\<close>

text \<open>Each cell of the array updated once, from its own old value; nothing else written.\<close>

definition cell_bytes :: "u32 \<Rightarrow> (int \<times> int) set \<Rightarrow> u32 set" where
  "cell_bytes sprite A = {a. \<exists>p \<in> A. unat (a - sprite_cell sprite p) < 4}"

definition sprite_area :: "(int \<times> int) set" where "sprite_area = rect 0 0 SPR_W SPR_H"

definition updates :: "u32 \<Rightarrow> (int \<times> int \<Rightarrow> u32 \<Rightarrow> u32) \<Rightarrow> (int \<times> int) set \<Rightarrow> mem \<Rightarrow> mem \<Rightarrow> bool" where
  "updates sprite h A m m' \<longleftrightarrow>
     A \<subseteq> sprite_area \<and>
     (\<forall>p \<in> A. load32 m' (sprite_cell sprite p) = h p (load32 m (sprite_cell sprite p))) \<and>
     (\<forall>a. a \<notin> cell_bytes sprite A \<longrightarrow> m' a = m a)"

lemma cell_offset:
  assumes "p \<in> sprite_area"
  shows "sprite_cell sprite p - sprite = of_nat (4 * nat (snd p * SPR_W + fst p))" "nat (snd p * SPR_W + fst p) < 294"
proof -
  have p: "0 \<le> fst p" "fst p < 14" "0 \<le> snd p" "snd p < 21"
    using assms by (simp_all add: sprite_area_def rect_def SPR_W_def SPR_H_def ART_W_def ART_H_def PAD_def)
  then show "sprite_cell sprite p - sprite = of_nat (4 * nat (snd p * SPR_W + fst p))"
    by (simp add: sprite_cell_def SPR_W_def ART_W_def PAD_def)
  have "snd p * 14 + fst p < 294" using p by simp
  then show "nat (snd p * SPR_W + fst p) < 294" using p by (simp add: SPR_W_def ART_W_def PAD_def)
qed

lemma cell_apart:
  assumes "p \<in> sprite_area" "q \<in> sprite_area" "p \<noteq> q" "j < 4" "k < 4"
  shows "sprite_cell sprite p + of_nat j \<noteq> sprite_cell sprite q + of_nat k"
proof
  let ?i = "\<lambda>p. nat (snd p * SPR_W + fst p)"
  assume "sprite_cell sprite p + of_nat j = sprite_cell sprite q + of_nat k"
  then have "(sprite_cell sprite p - sprite) + of_nat j = (sprite_cell sprite q - sprite) + of_nat k" by simp
  then have "of_nat (4 * ?i p + j) = (of_nat (4 * ?i q + k) :: u32)"
    unfolding cell_offset(1) [OF assms(1)] cell_offset(1) [OF assms(2)] by simp
  then have "unat (of_nat (4 * ?i p + j) :: u32) = unat (of_nat (4 * ?i q + k) :: u32)" by (rule arg_cong)
  then have "4 * ?i p + j = 4 * ?i q + k"
    using cell_offset(2) [OF assms(1)] cell_offset(2) [OF assms(2)] assms(4, 5) by (simp only: unat_of_nat32)
  then have "?i p = ?i q" using assms(4, 5) by linarith
  then have "snd p * 14 + fst p = snd q * 14 + fst q"
    using assms(1, 2) by (simp add: sprite_area_def rect_def SPR_W_def SPR_H_def ART_W_def ART_H_def PAD_def eq_nat_nat_iff)
  moreover have "0 \<le> fst p" "fst p < 14" "0 \<le> fst q" "fst q < 14"
    using assms(1, 2) by (simp_all add: sprite_area_def rect_def SPR_W_def ART_W_def PAD_def)
  ultimately have "snd p = snd q \<and> fst p = fst q" by presburger
  then show False using assms(3) by (simp add: prod_eq_iff)
qed

lemma in_cell_bytes: "a \<in> cell_bytes sprite A \<longleftrightarrow> (\<exists>p \<in> A. \<exists>k < 4. a = sprite_cell sprite p + of_nat k)"
proof -
  have "unat (a - c) < 4 \<longleftrightarrow> (\<exists>k < 4. a = c + of_nat k)" for c :: u32
  proof
    assume "unat (a - c) < 4"
    then show "\<exists>k < 4. a = c + of_nat k" by (intro exI [of _ "unat (a - c)"]) simp
  next
    assume "\<exists>k < 4. a = c + of_nat k"
    then show "unat (a - c) < 4" by (auto simp: unat_of_nat32)
  qed
  then show ?thesis by (simp add: cell_bytes_def)
qed

lemma updates_Un:
  assumes "updates sprite h A m m1" "updates sprite h B m1 m2" "A \<inter> B = {}"
  shows "updates sprite h (A \<union> B) m m2"
proof -
  have sub: "A \<subseteq> sprite_area" "B \<subseteq> sprite_area" using assms by (simp_all add: updates_def)
  have apart: "sprite_cell sprite p + of_nat k \<notin> cell_bytes sprite C"
    if "p \<in> D" "k < 4" "C \<inter> D = {}" "C \<subseteq> sprite_area" "D \<subseteq> sprite_area" for p k C D
    using that cell_apart [of p _ k] unfolding in_cell_bytes by blast
  have A: "load32 m2 (sprite_cell sprite p) = load32 m1 (sprite_cell sprite p)" if "p \<in> A" for p
    using assms(2, 3) apart [OF that _ _ sub(2, 1)] by (intro load32_cong) (auto simp: updates_def Int_commute)
  have B: "load32 m1 (sprite_cell sprite p) = load32 m (sprite_cell sprite p)" if "p \<in> B" for p
    using assms(1, 3) apart [OF that _ _ sub(1, 2)] by (intro load32_cong) (auto simp: updates_def)
  have out: "cell_bytes sprite (A \<union> B) = cell_bytes sprite A \<union> cell_bytes sprite B"
    by (auto simp: cell_bytes_def)
  show ?thesis
    using assms A B sub by (auto simp: updates_def out)
qed

interpretation words: point_effect "updates sprite h" for sprite h
proof unfold_locales
  show "updates sprite h {} s s" for s by (simp add: updates_def)
  show "updates sprite h (A \<union> B) s s2"
    if "updates sprite h A s s1" "updates sprite h B s1 s2" "A \<inter> B = {}" for A s s1 B s2
    using that by (rule updates_Un)
qed

lemma updates_store:
  assumes "p \<in> sprite_area" "h p (load32 m (sprite_cell sprite p)) = v"
  shows "updates sprite h {p} m (store32 m (sprite_cell sprite p) v)"
proof -
  have "a \<noteq> sprite_cell sprite p + of_nat k" if "a \<notin> cell_bytes sprite {p}" "k < 4" for a k
    using that unfolding in_cell_bytes by blast
  note ne = this [of _ 0] this [of _ 1] this [of _ 2] this [of _ 3]
  then have "store32 m (sprite_cell sprite p) v a = m a" if "a \<notin> cell_bytes sprite {p}" for a
    using that by (simp add: store32_def)
  then show ?thesis using assms by (simp add: updates_def)
qed

lemma updates_same:
  assumes "p \<in> sprite_area" "h p (load32 m (sprite_cell sprite p)) = load32 m (sprite_cell sprite p)"
  shows "updates sprite h {p} m m"
  using assms by (simp add: updates_def)

text \<open>The finished sprite: the arrow, then two strengths of shadow where it leaves room.\<close>

definition shadow :: "int \<times> int \<Rightarrow> u32 \<Rightarrow> u32" where
  "shadow p old =
     (let x = fst p; y = snd p
      in if old \<noteq> 0 then old
         else if art_at (x - 1) (y - 1) \<noteq> 0 \<or> art_at (x - 1) y \<noteq> 0 \<or> art_at x (y - 1) \<noteq> 0 then 0x58000000
         else if art_at (x - 2) (y - 2) \<noteq> 0 \<or> art_at (x - 2) (y - 1) \<noteq> 0 \<or> art_at (x - 1) (y - 2) \<noteq> 0 then 0x28000000
         else 0)"

definition sprite_word :: "int \<times> int \<Rightarrow> u32" where
  "sprite_word p = shadow p (art_at (fst p) (snd p))"

lemma sprite_loops:
  assumes "\<And>p m. p \<in> sprite_area \<Longrightarrow> updates sprite h {p} m (body (snd p) (fst p) m)"
  shows "updates sprite h sprite_area m (for_int 0 SPR_H (\<lambda>y. for_int 0 SPR_W (body y)) m)"
  using words.effect_rows [of 0 0 SPR_W SPR_H sprite h m body] assms by (simp add: sprite_area_def)

lemma sprite_drawn:
  defines "m' m sprite \<equiv> sprite_shadow sprite (sprite_art sprite m)"
  shows "p \<in> sprite_area \<Longrightarrow> load32 (m' m sprite) (sprite_cell sprite p) = sprite_word p"
    and "a \<notin> cell_bytes sprite sprite_area \<Longrightarrow> m' m sprite a = m a"
proof -
  let ?m1 = "sprite_art sprite m"
  have 1: "updates sprite (\<lambda>p _. art_at (fst p) (snd p)) sprite_area m ?m1"
    unfolding sprite_art_def by (rule sprite_loops) (simp add: updates_store)
  have 2: "updates sprite shadow sprite_area ?m1 (sprite_shadow sprite ?m1)"
    unfolding sprite_shadow_def
  proof (rule sprite_loops)
    fix p m assume p: "p \<in> sprite_area"
    show "updates sprite shadow {p} m (shadow_step sprite (fst p) (snd p) m)"
      using updates_store [OF p, of shadow m sprite] updates_same [OF p, of shadow m sprite]
      by (auto simp: shadow_step_def shadow_def Let_def)
  qed
  show "load32 (m' m sprite) (sprite_cell sprite p) = sprite_word p" if "p \<in> sprite_area"
    using 1 2 that by (simp add: m'_def updates_def sprite_word_def)
  show "m' m sprite a = m a" if "a \<notin> cell_bytes sprite sprite_area"
    using 1 2 that by (simp add: m'_def updates_def)
qed

subsection \<open>From boot to a live pointer\<close>

text \<open>The array lies in memory, outside both buffers.\<close>

definition sprite_placed :: "u32 \<Rightarrow> framebuffer \<Rightarrow> bool" where
  "sprite_placed sprite f \<longleftrightarrow>
     unat sprite + 1176 \<le> 4294967296 \<and>
     (\<forall>base \<in> {lfb f, backbuf f}. unat sprite + 1176 \<le> unat base \<or> unat base + buffer_bytes f \<le> unat sprite)"

lemma cell_bytes_range:
  assumes "unat sprite + 1176 \<le> 4294967296" "a \<in> cell_bytes sprite sprite_area"
  shows "unat sprite \<le> unat a" "unat a < unat sprite + 1176"
proof -
  obtain p k where p: "p \<in> sprite_area" "k < 4" and a: "a = sprite_cell sprite p + of_nat k"
    using assms(2) unfolding in_cell_bytes by blast
  let ?n = "unat sprite + (4 * nat (snd p * SPR_W + fst p) + k)"
  have "a = of_nat ?n" using cell_offset(1) [OF p(1), of sprite] by (simp add: a algebra_simps)
  moreover have n: "?n < unat sprite + 1176" using cell_offset(2) [OF p(1)] p(2) by linarith
  ultimately have "unat a = ?n" using assms(1) by (simp only: unat_of_nat32)
  with n show "unat sprite \<le> unat a" "unat a < unat sprite + 1176" by simp_all
qed

lemma pixel_unwritten:
  assumes "surface f base" "on_screen f p"
    and "\<And>a. unat base \<le> unat a \<Longrightarrow> unat a < unat base + buffer_bytes f \<Longrightarrow> m' a = m a"
  shows "pixel f base m' p = pixel f base m p"
proof -
  have "m' (pix f base p k) = m (pix f base p k)" if "k < unat (bypp f)" for k
    using unat_pix [OF assms(1, 2) that] pixel_index_bound [OF assms(1, 2) that]
    by (intro assms(3)) (simp_all add: buffer_bytes_def)
  moreover have "2 < unat (bypp f)" using bypp_values [OF assms(1)] by auto
  ultimately show ?thesis by (simp add: pixel_def)
qed

lemma cursor_init_ready:
  assumes b: "buffered f" and hid: "\<not> cur_visible f" and sh: "screen_shows f m"
    and pl: "sprite_placed sprite f" and ext: "scr_w f \<le> 32767" "scr_h f \<le> 32767"
    and run: "cursor_init sprite (f, m) = (f', m')"
  shows "buffered f' \<and> sprite_ok f' \<and> screen_shows f' m' \<and> cur_visible f' \<and>
    scr_w f' = scr_w f \<and> scr_h f' = scr_h f \<and> cur_x f' = scr_w f div 2 \<and> cur_y f' = scr_h f div 2 \<and>
    (\<forall>p \<in> sprite_area. sprite_pixel f' m' (fst p) (snd p) = sprite_word p)"
proof -
  define f1 where "f1 = fb_set_cursor_sprite sprite SPR_W SPR_H 0 0 f"
  define m1 where "m1 = sprite_shadow sprite (sprite_art sprite m)"
  note dr = sprite_drawn [of _ sprite m, folded m1_def]
  have b1: "buffered f1" "sprite_ok f1"
    using b pl by (simp_all add: f1_def fb_set_cursor_sprite_def buffered_def sprite_ok_def surface_def buffer_bytes_def
      sprite_placed_def SPR_W_def SPR_H_def ART_W_def ART_H_def PAD_def)
  have f1: "scr_w f1 = scr_w f" "scr_h f1 = scr_h f" "\<not> cur_visible f1" "cur_sprite f1 = sprite" "cur_w f1 = SPR_W"
    "lfb f1 = lfb f" "buffer_bytes f1 = buffer_bytes f" "on_screen f1 = on_screen f" "backbuf f1 = backbuf f" "pixel f1 = pixel f"
    using hid by (simp_all add: f1_def fb_set_cursor_sprite_def on_screen_def buffer_bytes_def pixel_def pix_def pixel_offset_def fun_eq_iff)
  have pos: "0 < scr_w f" "0 < scr_h f" using b by (simp_all add: buffered_def surface_def)
  have kept: "pixel f base m1 p = pixel f base m p" if "base \<in> {lfb f, backbuf f}" "on_screen f p" for base p
  proof (rule pixel_unwritten [OF _ that(2)])
    show "surface f base" using that(1) b by (auto simp: buffered_def)
    fix a :: u32 assume a: "unat base \<le> unat a" "unat a < unat base + buffer_bytes f"
    have "a \<notin> cell_bytes sprite sprite_area"
      using cell_bytes_range [of sprite a] pl that(1) a unfolding sprite_placed_def by fastforce
    then show "m1 a = m a" by (rule dr(2))
  qed
  have sh1: "screen_shows f1 m1"
    unfolding screen_shows_def
  proof (intro allI impI)
    fix p assume "on_screen f1 p"
    then show "pixel f1 (lfb f1) m1 p = composed f1 m1 p"
      using screen_showsD [OF sh, of p] kept [of _ p] hid f1 by (simp add: composed_def cursor_on_def)
  qed
  have "fold pointer_step [Move (scr_w f div 2) (scr_h f div 2), Show True] (f1, m1) = (f', m')"
    using run extents [OF pos(1) ext(1) pos(2) ext(2)] extents [of f1] pos ext f1
    by (simp add: cursor_init_def Let_def f1_def [symmetric] m1_def [symmetric])
  note r = this pointer_run_shows [OF b1 sh1 this]
  have f': "f' = f1\<lparr>cur_x := scr_w f div 2, cur_y := scr_h f div 2, cur_visible := True\<rparr>"
    using r(1) by (auto simp: fb_cursor_move_def fb_cursor_show_def Let_def)
  have "sprite_pixel f' m' (fst p) (snd p) = sprite_word p" if p: "p \<in> sprite_area" for p
  proof -
    have "m' (sprite_cell sprite p + of_nat k) = m1 (sprite_cell sprite p + of_nat k)" if "k < 4" for k
    proof -
      have "sprite_cell sprite p + of_nat k \<in> cell_bytes sprite sprite_area"
        using p that unfolding in_cell_bytes by blast
      then show ?thesis
        using cell_bytes_range [of sprite "sprite_cell sprite p + of_nat k"] pl r(2) f1
        unfolding sprite_placed_def screen_only_def by fastforce
    qed
    then have "load32 m' (sprite_cell sprite p) = load32 m1 (sprite_cell sprite p)" by (intro load32_cong)
    then show ?thesis using dr(1) [OF p] by (simp add: sprite_pixel_def f' f1 sprite_cell_def)
  qed
  then show ?thesis
    using r(2) b1 by (simp add: same_buffers_def f' f1)
qed

text \<open>\<open>cursor_init\<close> followed by \<open>mouse_init\<close>, on a screen that shows the backbuffer,
  establishes everything the mouse driver maintains: the sprite (arrow and shadow) is in its
  array and shown in the middle of the screen, where the driver believes it to be.\<close>

theorem pointer_boot:
  assumes "buffered f" "\<not> cur_visible f" "screen_shows f m" "sprite_placed sprite f"
    and "scr_w f \<le> 32767" "scr_h f \<le> 32767"
    and "cursor_init sprite (f, m) = (f', m')" "mouse_init bus f' s tab d = Some (s', tab', d')"
    and "length (packet s) = 3" "cycle s = 0" "buttons s = 0"
  shows "pointer_ok (s', (f', m'), q) \<and> cur_visible f' \<and> tab' 12 = Some Mouse_Irq \<and>
    (\<forall>p \<in> sprite_area. sprite_pixel f' m' (fst p) (snd p) = sprite_word p)"
proof -
  note c = cursor_init_ready [OF assms(1-7)]
  have pos: "0 < scr_w f" "0 < scr_h f" using assms(1) by (simp_all add: buffered_def surface_def)
  have "s' = s\<lparr>mx := scr_w f div 2, my := scr_h f div 2\<rparr>" "tab' = irq_register 12 Mouse_Irq tab"
    using assms(8) extents [of f'] c pos assms(5, 6) by (auto simp: mouse_init_def Let_def split: option.splits)
  moreover have "scr_w f div 2 < scr_w f" "scr_h f div 2 < scr_h f" using pos by linarith+
  ultimately show ?thesis
    using c pos assms(5, 6, 9-11) by (simp add: pointer_ok_def on_screen_def irq_register_def)
qed

text \<open>A controller that always answers "ready to write, nothing to read".\<close>

definition idle_bus :: "unit bus" where
  "idle_bus = \<lparr>bus_in8 = (\<lambda>_ d. (0, d)), bus_out8 = (\<lambda>_ _ d. d), bus_in16 = (\<lambda>_ d. (0, d)), bus_out16 = (\<lambda>_ _ d. d)\<rparr>"

theorem pointer_boot_witness:
  "\<exists>f' m' s' tab'. cursor_init 0x10000 (two_buffers\<lparr>cur_visible := False\<rparr>, \<lambda>a. 9) = (f', m') \<and>
     mouse_init idle_bus f' (fst start_world) (\<lambda>_. None) () = Some (s', tab', ()) \<and> pointer_ok (s', (f', m'), ring_empty no_event)"
proof -
  let ?f = "two_buffers\<lparr>cur_visible := False\<rparr>"
  obtain f' m' where c: "cursor_init 0x10000 (?f, \<lambda>a. 9) = (f', m')" by fastforce
  have "kbd_drain idle_bus () = Some ()" by (subst kbd_drain.simps) (simp add: idle_bus_def)
  then obtain s' tab' where i: "mouse_init idle_bus f' (fst start_world) (\<lambda>_. None) () = Some (s', tab', ())"
    by (simp add: mouse_init_def Let_def)
  have b: "buffered ?f" "sprite_placed 0x10000 ?f" "scr_w ?f \<le> 32767" "scr_h ?f \<le> 32767" "\<not> cur_visible ?f"
    by (simp_all add: two_buffers_def small_screen_def buffered_def surface_def buffer_bytes_def sprite_placed_def)
  have "screen_shows ?f (\<lambda>a. 9)"
    by (simp add: screen_shows_def composed_def cursor_on_def pixel_def)
  from pointer_boot [OF b(1, 5) this b(2-4) c i] c i show ?thesis by (auto simp: start_world_def)
qed

end
