(* ===== verification/Console.thy ===== *)
theory Console
  imports Fb_Screen
begin

text \<open>
  \<open>kernel/console.c\<close>, \<open>kernel/console.h\<close>: the text console, a grid of 8 by 16 pixel cells
  on the framebuffer. The grid and the cursor are the record \<open>console\<close>; the framebuffer
  module's state is not changed by it and is an argument.
\<close>

definition TAB_WIDTH :: int where "TAB_WIDTH = 4"

definition palette :: "u32 list" where
  "palette =
     [0x000000, 0x0000AA, 0x00AA00, 0x00AAAA,
      0xAA0000, 0xAA00AA, 0xAA5500, 0xAAAAAA,
      0x555555, 0x5555FF, 0x55FF55, 0x55FFFF,
      0xFF5555, 0xFF55FF, 0xFFFF55, 0xFFFFFF]"

definition COLOR_BLACK :: u32 where "COLOR_BLACK = 0"
definition COLOR_RED :: u32 where "COLOR_RED = 4"
definition COLOR_LIGHT_GREY :: u32 where "COLOR_LIGHT_GREY = 7"
definition COLOR_WHITE :: u32 where "COLOR_WHITE = 15"

record console =
  cols :: int
  rows :: int
  col :: int
  row :: int
  fg :: u32
  bg :: u32

type_synonym console_world = "console \<times> mem"

definition draw_glyph :: "framebuffer \<Rightarrow> int \<Rightarrow> int \<Rightarrow> u8 \<Rightarrow> console_world \<Rightarrow> console_world" where
  "draw_glyph f r c ch = (\<lambda>(t, m).
     (let px = c * FONT_W; py = r * FONT_H;
          m1 = for_int 0 FONT_H (\<lambda>gy m.
                 (let bits = m (font_glyph ch + of_int gy)
                  in for_int 0 FONT_W (\<lambda>gx. fb_putpixel f (px + gx) (py + gy) (if glyph_bit bits gx then fg t else bg t)) m)) m
      in (t, fb_flip_rect f px py FONT_W FONT_H m1)))"

definition fill_cell :: "framebuffer \<Rightarrow> int \<Rightarrow> int \<Rightarrow> console_world \<Rightarrow> console_world" where
  "fill_cell f r c = (\<lambda>(t, m).
     (let m1 = fb_fill_rect f (c * FONT_W) (r * FONT_H) FONT_W FONT_H (bg t) m
      in (t, fb_flip_rect f (c * FONT_W) (r * FONT_H) FONT_W FONT_H m1)))"

definition cursor_draw :: "framebuffer \<Rightarrow> console_world \<Rightarrow> console_world" where
  "cursor_draw f = (\<lambda>(t, m).
     (let m1 = fb_fill_rect f (col t * FONT_W) (row t * FONT_H + FONT_H - 2) FONT_W 2 (fg t) m
      in (t, fb_flip_rect f (col t * FONT_W) (row t * FONT_H) FONT_W FONT_H m1)))"

definition cursor_erase :: "framebuffer \<Rightarrow> console_world \<Rightarrow> console_world" where
  "cursor_erase f w = fill_cell f (row (fst w)) (col (fst w)) w"

definition console_set_color :: "u32 \<Rightarrow> u32 \<Rightarrow> console_world \<Rightarrow> console_world" where
  "console_set_color f b = (\<lambda>(t, m). (t\<lparr>fg := palette ! unat (f AND 15), bg := palette ! unat (b AND 15)\<rparr>, m))"

definition console_clear :: "framebuffer \<Rightarrow> console_world \<Rightarrow> console_world" where
  "console_clear f = (\<lambda>(t, m).
     (let m1 = fb_fill_rect f 0 0 (sint (fb_width f)) (sint (fb_height f)) (bg t) m;
          t1 = t\<lparr>col := 0, row := 0\<rparr>
      in cursor_draw f (t1, fb_flip f m1)))"

definition console_init :: "framebuffer \<Rightarrow> console_world \<Rightarrow> console_world" where
  "console_init f = (\<lambda>(t, m).
     console_clear f (console_set_color COLOR_LIGHT_GREY COLOR_BLACK
       (t\<lparr>cols := sint (fb_width f) div FONT_W, rows := sint (fb_height f) div FONT_H\<rparr>, m)))"

definition putc_body :: "framebuffer \<Rightarrow> u8 \<Rightarrow> console_world \<Rightarrow> console_world" where
  "putc_body f c = (\<lambda>(t, m).
     (if c = 10 then (t\<lparr>col := 0, row := row t + 1\<rparr>, m)
      else if c = 13 then (t\<lparr>col := 0\<rparr>, m)
      else if c = 8 then
        (if col t > 0 then fill_cell f (row t) (col t - 1) (t\<lparr>col := col t - 1\<rparr>, m) else (t, m))
      else if c = 9 then (t\<lparr>col := (col t + TAB_WIDTH) AND NOT (TAB_WIDTH - 1)\<rparr>, m)
      else (let (t1, m1) = draw_glyph f (row t) (col t) c (t, m) in (t1\<lparr>col := col t1 + 1\<rparr>, m1))))"

definition console_wrap :: "console \<Rightarrow> console" where
  "console_wrap t = (if col t \<ge> cols t then t\<lparr>col := 0, row := row t + 1\<rparr> else t)"

definition console_scroll :: "framebuffer \<Rightarrow> console_world \<Rightarrow> console_world" where
  "console_scroll f = (\<lambda>(t, m).
     (if row t \<ge> rows t then (t\<lparr>row := rows t - 1\<rparr>, fb_scroll_up f FONT_H (bg t) m) else (t, m)))"

definition console_putc :: "framebuffer \<Rightarrow> u8 \<Rightarrow> console_world \<Rightarrow> console_world" where
  "console_putc f c w =
     (let (t, m) = putc_body f c (cursor_erase f w)
      in cursor_draw f (console_scroll f (console_wrap t, m)))"

definition console_print :: "framebuffer \<Rightarrow> u8 list \<Rightarrow> console_world \<Rightarrow> console_world" where
  "console_print f s = fold (console_putc f) s"

subsection \<open>The cursor stays on the grid, the screen shows what was drawn\<close>

definition on_grid :: "console \<Rightarrow> bool" where
  "on_grid t \<longleftrightarrow> 0 \<le> col t \<and> col t < cols t \<and> 0 \<le> row t \<and> row t < rows t"

definition console_ok :: "framebuffer \<Rightarrow> console_world \<Rightarrow> bool" where
  "console_ok f = (\<lambda>(t, m). on_grid t \<and> screen_shows f m)"

lemma tab_stop: "(x + TAB_WIDTH) AND NOT (TAB_WIDTH - 1) = (x + 4) div 4 * 4"
proof -
  have "y AND NOT (mask 2) = push_bit 2 (drop_bit 2 y)" for y :: int
  proof (rule bit_eqI)
    fix n
    show "bit (y AND NOT (mask 2)) n = bit (push_bit 2 (drop_bit 2 y)) n"
      by (cases "2 \<le> n") (auto simp: bit_simps dest: le_Suc_ex)
  qed
  from this [of "x + 4"] show ?thesis
    by (simp add: TAB_WIDTH_def push_bit_eq_mult drop_bit_eq_div mask_eq_exp_minus_1)
qed

lemma glyph_touches:
  assumes "surface f (target f)"
  shows "touches f (target f) (rect x y FONT_W FONT_H) m
    (for_int 0 FONT_H (\<lambda>gy m. (let bits = m (font_glyph ch + of_int gy)
       in for_int 0 FONT_W (\<lambda>gx. fb_putpixel f (x + gx) (y + gy) (if glyph_bit bits gx then a else b)) m)) m)"
  unfolding Let_def
proof (intro touches_for)
  fix gy gx m bits assume "0 \<le> gy" "gy < FONT_H" "0 \<le> gx" "gx < FONT_W"
  then show "touches f (target f) (rect x y FONT_W FONT_H) m (fb_putpixel f (x + gx) (y + gy) (if glyph_bit bits gx then a else b) m)"
    by (intro touches_mono [OF draws_touches [OF draws_putpixel [OF assms]]]) (simp add: rect_def)
qed

lemma draw_glyph_shows:
  assumes "drawable f" "screen_shows f m"
  shows "screen_shows f (snd (draw_glyph f r c ch (t, m)))" "fst (draw_glyph f r c ch (t, m)) = t"
  using draw_then_flip [OF assms(1) glyph_touches [OF drawableD(3) [OF assms(1)], unfolded drawableD(6) [OF assms(1)]] assms(2)]
  by (simp_all add: draw_glyph_def Let_def)

lemma fill_rect_touches:
  assumes "drawable f" "rect x y w h \<subseteq> A"
  shows "touches f (backbuf f) A m (fb_fill_rect f x y w h c m)"
  using touches_mono [OF draws_touches [OF draws_fill_rect [OF drawableD(3) [OF assms(1)]]] assms(2)]
  by (simp add: drawableD(6) [OF assms(1)])

lemma fill_cell_shows:
  assumes "drawable f" "screen_shows f m"
  shows "screen_shows f (snd (fill_cell f r c (t, m)))" "fst (fill_cell f r c (t, m)) = t"
  using draw_then_flip [OF assms(1) fill_rect_touches [OF assms(1) subset_refl] assms(2)]
  by (simp_all add: fill_cell_def Let_def)

lemma cursor_draw_shows:
  assumes "drawable f" "screen_shows f m"
  shows "screen_shows f (snd (cursor_draw f (t, m)))" "fst (cursor_draw f (t, m)) = t"
proof -
  have "rect (col t * FONT_W) (row t * FONT_H + FONT_H - 2) FONT_W 2 \<subseteq> rect (col t * FONT_W) (row t * FONT_H) FONT_W FONT_H"
    by (auto simp: rect_def FONT_H_def)
  from draw_then_flip [OF assms(1) fill_rect_touches [OF assms(1) this] assms(2)]
  show "screen_shows f (snd (cursor_draw f (t, m)))" "fst (cursor_draw f (t, m)) = t"
    by (simp_all add: cursor_draw_def Let_def)
qed

lemma scroll_shows:
  assumes "drawable f"
  shows "screen_shows f (fb_scroll_up f n c m)"
  using flip_screen_shows drawableD [OF assms] by (simp add: fb_scroll_up_def Let_def)

lemma putc_body_ok:
  assumes "drawable f" "console_ok f (t, m)" "putc_body f c (t, m) = (t', m')"
  shows "screen_shows f m' \<and> cols t' = cols t \<and> rows t' = rows t \<and> 0 \<le> col t' \<and> 0 \<le> row t' \<and> row t' \<le> rows t \<and>
    (col t' \<ge> cols t \<longrightarrow> row t' < rows t)"
proof -
  have ok: "on_grid t" "screen_shows f m" using assms(2) by (simp_all add: console_ok_def)
  have g: "fst (draw_glyph f (row t) (col t) c (t, m)) = t" "screen_shows f (snd (draw_glyph f (row t) (col t) c (t, m)))"
    using draw_glyph_shows [OF assms(1) ok(2)] by simp_all
  have b: "fst (fill_cell f (row t) (col t - 1) (t\<lparr>col := col t - 1\<rparr>, m)) = t\<lparr>col := col t - 1\<rparr>"
    "screen_shows f (snd (fill_cell f (row t) (col t - 1) (t\<lparr>col := col t - 1\<rparr>, m)))"
    using fill_cell_shows [OF assms(1) ok(2)] by simp_all
  have "0 \<le> (col t + 4) div 4" using ok(1) by (intro pos_imp_zdiv_nonneg_iff [THEN iffD2]) (simp_all add: on_grid_def)
  then show ?thesis
    using assms(3) ok g b
    by (auto simp: putc_body_def on_grid_def tab_stop case_prod_beta Let_def prod_eq_iff split: if_splits)
qed

lemma console_putc_ok:
  assumes "drawable f" "console_ok f w"
  shows "console_ok f (console_putc f c w) \<and> cols (fst (console_putc f c w)) = cols (fst w) \<and> rows (fst (console_putc f c w)) = rows (fst w)"
proof -
  obtain t m where w: "w = (t, m)" by fastforce
  have ok: "on_grid t" "screen_shows f m" using assms(2) by (simp_all add: w console_ok_def)
  obtain m1 where e: "cursor_erase f (t, m) = (t, m1)" "screen_shows f m1"
    using fill_cell_shows [OF assms(1) ok(2), of "row t" "col t" t] by (metis cursor_erase_def fst_conv prod.collapse snd_conv)
  obtain t2 m2 where b: "putc_body f c (t, m1) = (t2, m2)" by fastforce
  have ok1: "console_ok f (t, m1)" using ok e by (simp add: console_ok_def)
  note p = putc_body_ok [OF assms(1) ok1 b]
  define t3 where "t3 = console_wrap t2"
  have t3: "0 \<le> col t3" "col t3 < cols t" "0 \<le> row t3" "row t3 \<le> rows t" "cols t3 = cols t" "rows t3 = rows t"
    using p ok(1) by (auto simp: t3_def console_wrap_def on_grid_def)
  define t4 where "t4 = fst (console_scroll f (t3, m2))"
  define m4 where "m4 = snd (console_scroll f (t3, m2))"
  have t4: "on_grid t4" "screen_shows f m4" "cols t4 = cols t" "rows t4 = rows t"
    using t3 p ok(1) scroll_shows [OF assms(1)] by (auto simp: t4_def m4_def console_scroll_def on_grid_def)
  have "console_putc f c w = cursor_draw f (t4, m4)"
    by (simp add: w console_putc_def e(1) b t3_def [symmetric] t4_def m4_def)
  then show ?thesis
    using cursor_draw_shows [OF assms(1) t4(2), of t4] t4 w by (simp add: console_ok_def case_prod_beta)
qed

lemma console_print_ok:
  "drawable f \<Longrightarrow> console_ok f w \<Longrightarrow> console_ok f (console_print f s w) \<and> cols (fst (console_print f s w)) = cols (fst w) \<and>
    rows (fst (console_print f s w)) = rows (fst w)"
  unfolding console_print_def
proof (induction s arbitrary: w)
  case (Cons c s)
  have "console_ok f (console_putc f c w)" using console_putc_ok [OF Cons.prems] by simp
  from Cons.IH [OF Cons.prems(1) this] console_putc_ok [OF Cons.prems, of c] show ?case by simp
qed simp

text \<open>C34: for any text, control characters included, the console's cursor stays on the grid of
  cells, and after the last character the real screen shows exactly the backbuffer with the
  pointer on top: every character is flipped where it was drawn, every scroll as a whole.\<close>

theorem console_print_safe:
  assumes "drawable f" "8 \<le> scr_w f" "scr_w f \<le> 32767" "16 \<le> scr_h f" "scr_h f \<le> 32767"
    and "console_print f s (console_init f w) = (t', m')"
  shows "on_grid t' \<and> cols t' = scr_w f div 8 \<and> rows t' = scr_h f div 16 \<and> screen_shows f m'"
proof -
  obtain t m where w: "w = (t, m)" by fastforce
  have e: "sint (fb_width f) = scr_w f" "sint (fb_height f) = scr_h f"
    using assms(2-5) by (simp_all add: fb_width_def fb_height_def signed_of_int signed_take_bit_int_eq_self)
  note d = drawableD [OF assms(1)]
  define t1 where "t1 = t\<lparr>cols := scr_w f div FONT_W, rows := scr_h f div FONT_H, fg := palette ! 7, bg := palette ! 0, col := 0, row := 0\<rparr>"
  define m1 where "m1 = fb_flip f (fb_fill_rect f 0 0 (scr_w f) (scr_h f) (palette ! 0) m)"
  have i: "console_init f w = cursor_draw f (t1, m1)"
    by (simp add: w console_init_def console_clear_def console_set_color_def COLOR_LIGHT_GREY_def COLOR_BLACK_def e t1_def m1_def)
  have g: "on_grid t1" "cols t1 = scr_w f div 8" "rows t1 = scr_h f div 16"
    using assms(2, 4) by (simp_all add: t1_def on_grid_def FONT_W_def FONT_H_def pos_imp_zdiv_pos_iff)
  have "screen_shows f m1" unfolding m1_def by (rule flip_screen_shows [OF d(1, 2)])
  note c = cursor_draw_shows [OF assms(1) this, of t1, folded i]
  have ok: "console_ok f (console_init f w)" using c g by (simp add: console_ok_def case_prod_beta)
  from console_print_ok [OF assms(1) this, of s] c(2) g assms(6) show ?thesis by (simp add: console_ok_def)
qed

definition blank_console :: console where
  "blank_console = \<lparr>cols = 0, rows = 0, col = 0, row = 0, fg = 0, bg = 0\<rparr>"

definition console_screen :: framebuffer where
  "console_screen = two_buffers\<lparr>scr_w := 20, scr_h := 40, pitch := 60\<rparr>"

theorem console_print_safe_witness:
  "\<exists>t' m'. console_print console_screen [65, 10, 9, 8, 13, 66] (console_init console_screen (blank_console, \<lambda>_. 0)) = (t', m') \<and>
     cols t' = 2 \<and> rows t' = 2 \<and> on_grid t' \<and> screen_shows console_screen m'"
proof -
  obtain t' m' where r: "console_print console_screen [65, 10, 9, 8, 13, 66] (console_init console_screen (blank_console, \<lambda>_. 0)) = (t', m')"
    by fastforce
  have "drawable console_screen" "8 \<le> scr_w console_screen" "scr_w console_screen \<le> 32767" "16 \<le> scr_h console_screen" "scr_h console_screen \<le> 32767"
    by (simp_all add: console_screen_def two_buffers_def small_screen_def drawable_def buffered_def sprite_ok_def sprite_clear_def
      surface_def buffer_bytes_def)
  from console_print_safe [OF this r] r show ?thesis
    by (simp add: console_screen_def two_buffers_def small_screen_def)
qed

text \<open>What is under the cursor is lost at the next character, whatever that is: a carriage return
  puts the cursor on the first character of the line, and the line feed after it blanks it.\<close>

lemma cursor_erase_blanks:
  assumes "drawable f" "on_screen f p" "p \<in> rect (col t * FONT_W) (row t * FONT_H) FONT_W FONT_H"
  shows "pixel f (target f) (snd (cursor_erase f (t, m))) p = rgb_of (bg t)"
proof -
  note d = drawableD [OF assms(1)]
  let ?m1 = "fb_fill_rect f (col t * FONT_W) (row t * FONT_H) FONT_W FONT_H (bg t) m"
  have "pixel f (target f) ?m1 p = rgb_of (bg t)"
    using draws_pixel [OF draws_fill_rect [OF d(3)] d(3) assms(2)] assms(3) by simp
  moreover have "pixel f (backbuf f) (fb_flip_rect f (col t * FONT_W) (row t * FONT_H) FONT_W FONT_H ?m1) p = pixel f (backbuf f) ?m1 p"
    by (rule back_pixel_only [OF d(1) flip_rect_only [OF d(1, 2)] assms(2)])
  ultimately show ?thesis by (simp add: cursor_erase_def fill_cell_def Let_def d(6))
qed

end
