(* ===== verification/Kprintf.thy ===== *)
theory Kprintf
  imports Console "HOL-Library.Monad_Syntax"
begin

text \<open>
  \<open>kernel/kprintf.c\<close>: formatted printing. \<open>kvprintf\<close> yields the characters passed to
  \<open>console_putc\<close>, in order, or \<open>None\<close> where the C code is undefined: an argument that is
  missing or of the wrong kind, or a format read beyond its terminating zero. A format is the
  list of its bytes before the zero.
\<close>

definition digits :: "u8 list" where
  "digits = map of_char ''0123456789abcdef''"

text \<open>\<open>buf\<close> is filled from the least significant digit; \<open>fill_digits\<close> gives what is appended.\<close>

partial_function (option) fill_digits :: "u32 \<Rightarrow> u32 \<Rightarrow> u8 list option" where
  "fill_digits base v =
     (if v = 0 then Some []
      else do { ds \<leftarrow> fill_digits base (v div base); Some (digits ! unat (v mod base) # ds) })"

definition print_num :: "u32 \<Rightarrow> u32 \<Rightarrow> int \<Rightarrow> u8 \<Rightarrow> u8 list option" where
  "print_num v base width pad =
     (let width = (if width > 11 then 11 else width)
      in case (if v = 0 then Some [48] else fill_digits base v) of None \<Rightarrow> None
         | Some buf \<Rightarrow> Some (rev (buf @ replicate (nat (width - int (length buf))) pad)))"

text \<open>A 32-bit argument, or a string argument (\<open>None\<close> is the null pointer).\<close>

datatype arg = Num u32 | Str "u8 list option"

fun parse_width :: "int \<Rightarrow> u8 list \<Rightarrow> int \<times> u8 list" where
  "parse_width w [] = (w, [])"
| "parse_width w (c # s) =
     (if 48 \<le> c \<and> c \<le> 57 then parse_width (w * 10 + (uint c - 48)) s else (w, c # s))"

definition null_text :: "u8 list" where "null_text = map of_char ''(null)''"

fun next_num :: "arg list \<Rightarrow> (u32 \<times> arg list) option" where
  "next_num (Num v # r) = Some (v, r)"
| "next_num r = None"

fun next_str :: "arg list \<Rightarrow> (u8 list option \<times> arg list) option" where
  "next_str (Str s # r) = Some (s, r)"
| "next_str r = None"

definition conversion :: "u8 \<Rightarrow> int \<Rightarrow> u8 \<Rightarrow> arg list \<Rightarrow> (u8 list \<times> arg list) option" where
  "conversion c width pad args =
     (if c = 99 then do { (v, r) \<leftarrow> next_num args; Some ([ucast v], r) }
      else if c = 115 then do { (s, r) \<leftarrow> next_str args; Some (case s of None \<Rightarrow> null_text | Some s \<Rightarrow> s, r) }
      else if c = 100 \<or> c = 105 then
        do { (v, r) \<leftarrow> next_num args;
             out \<leftarrow> print_num (if v <s 0 then 0 - v else v) 10 width pad;
             Some ((if v <s 0 then [45] else []) @ out, r) }
      else if c = 117 then do { (v, r) \<leftarrow> next_num args; out \<leftarrow> print_num v 10 width pad; Some (out, r) }
      else if c = 120 then do { (v, r) \<leftarrow> next_num args; out \<leftarrow> print_num v 16 width pad; Some (out, r) }
      else if c = 112 then do { (v, r) \<leftarrow> next_num args; out \<leftarrow> print_num v 16 8 48; Some ([48, 120] @ out, r) }
      else if c = 37 then Some ([37], args)
      else Some ([37, c], args))"

lemma parse_width_length: "length (snd (parse_width w s)) \<le> length s"
  by (induction w s rule: parse_width.induct) auto

function kvprintf :: "u8 list \<Rightarrow> arg list \<Rightarrow> u8 list option" where
  "kvprintf [] args = Some []"
| "kvprintf (c # s) args =
     (if c \<noteq> 37 then map_option ((#) c) (kvprintf s args)
      else if s = [] then Some []
      else let (pad, s2) = (if hd s = 48 then (48, tl s) else (32, s));
               (width, s3) = parse_width 0 s2
           in case s3 of [] \<Rightarrow> None
              | d # s4 \<Rightarrow>
                  (case conversion d width pad args of None \<Rightarrow> None
                   | Some (out, args') \<Rightarrow> map_option ((@) out) (kvprintf s4 args')))"
  by pat_completeness auto
termination
proof (relation "measure (length \<circ> fst)")
  fix c s args x pad s2 y width s3 d s4 z out and args' :: "arg list"
  assume a: "\<not> c \<noteq> (37 :: u8)" "s \<noteq> []" "x = (if hd s = 48 then (48, tl s) else (32 :: u8, s))" "(pad, s2) = x"
    "y = parse_width 0 s2" "(width, s3) = y" "s3 = d # s4"
  have "length s2 \<le> length s" using a(3, 4) by (auto split: if_splits)
  moreover have "length s3 \<le> length s2" using parse_width_length [of 0 s2] a(5, 6) by (metis snd_conv)
  ultimately show "((s4, args'), c # s, args) \<in> measure (length \<circ> fst)" using a(7) by simp
qed auto

definition kprintf :: "framebuffer \<Rightarrow> u8 list \<Rightarrow> arg list \<Rightarrow> console_world \<Rightarrow> console_world option" where
  "kprintf f fmt args w = map_option (\<lambda>out. console_print f out w) (kvprintf fmt args)"

subsection \<open>Numbers\<close>

definition digit_value :: "u8 \<Rightarrow> nat" where
  "digit_value c = (if 48 \<le> c \<and> c \<le> 57 then unat c - 48 else unat c - 87)"

definition number_of :: "nat \<Rightarrow> u8 list \<Rightarrow> nat" where
  "number_of base s = foldl (\<lambda>n c. n * base + digit_value c) 0 s"

lemma digit_values: "\<forall>k \<in> set [0..<16]. digit_value (digits ! k) = k \<and> digits ! k \<noteq> 32"
  by code_simp

lemma digit_value: "k < 16 \<Longrightarrow> digit_value (digits ! k) = k"
  using digit_values by simp

lemma foldl_number: "foldl (\<lambda>n c. n * base + digit_value c) a s = a * base ^ length s + number_of base s"
proof (induction s arbitrary: a)
  case (Cons c s)
  show ?case
    using Cons.IH [of "a * base + digit_value c"] Cons.IH [of "digit_value c"]
    by (simp add: number_of_def algebra_simps)
qed (simp add: number_of_def)

lemma number_of_simps [simp]:
  "number_of base [] = 0" "number_of base (s @ [c]) = number_of base s * base + digit_value c"
  "number_of base (c # s) = digit_value c * base ^ length s + number_of base s"
  using foldl_number [of base "digit_value c" s] by (simp_all add: number_of_def)

lemma number_of_zeros: "number_of base (replicate n 48 @ s) = number_of base s"
  by (induction n) (simp_all add: digit_value_def)

text \<open>The digit loop returns, and its buffer has the digits of the value, none superfluous.\<close>

lemma fill_digits_correct:
  assumes "2 \<le> unat base" "unat base \<le> 16"
  shows "\<exists>ds. fill_digits base v = Some ds \<and> number_of (unat base) (rev ds) = unat v \<and>
    unat v < unat base ^ length ds \<and> (v \<noteq> 0 \<longrightarrow> unat base ^ (length ds - 1) \<le> unat v \<and> ds \<noteq> [])"
proof (induction "unat v" arbitrary: v rule: less_induct)
  case less
  show ?case
  proof (cases "v = 0")
    case True
    then show ?thesis by (simp add: fill_digits.simps)
  next
    case False
    then have pos: "0 < unat v" by (simp add: unat_gt_0)
    let ?b = "unat base" and ?q = "v div base"
    have q: "unat ?q = unat v div ?b" and r: "unat (v mod base) = unat v mod ?b"
      by (simp_all add: unat_div_distrib unat_mod_distrib)
    have "unat ?q < unat v" unfolding q using pos assms(1) by (intro div_less_dividend) simp_all
    from less [OF this] obtain ds where ds: "fill_digits base ?q = Some ds" "number_of ?b (rev ds) = unat ?q"
      "unat ?q < ?b ^ length ds" "?q \<noteq> 0 \<longrightarrow> ?b ^ (length ds - 1) \<le> unat ?q \<and> ds \<noteq> []"
      by blast
    let ?ds = "digits ! (unat v mod ?b) # ds"
    have f: "fill_digits base v = Some ?ds" using False ds(1) r by (simp add: fill_digits.simps [of base v])
    have "unat v mod ?b < ?b" using assms(1) by simp
    then have "digit_value (digits ! (unat v mod ?b)) = unat v mod ?b" using assms(2) by (intro digit_value) linarith
    then have n: "number_of ?b (rev ?ds) = unat v" using ds(2) q by simp
    have "unat v = unat ?q * ?b + unat v mod ?b" by (simp add: q)
    also have "\<dots> < (unat ?q + 1) * ?b" using \<open>unat v mod ?b < ?b\<close> by simp
    also have "\<dots> \<le> ?b ^ length ds * ?b" using ds(3) by (intro mult_le_mono1) simp
    finally have up: "unat v < ?b ^ length ?ds" by (simp add: mult.commute)
    have low: "?b ^ (length ?ds - 1) \<le> unat v"
    proof (cases "?q = 0")
      case True
      then have "ds = []" using ds(1) by (simp add: fill_digits.simps)
      then show ?thesis using pos by simp
    next
      case q0: False
      then have "?b ^ (length ds - 1) * ?b \<le> unat ?q * ?b" using ds(4) by (intro mult_le_mono1) simp
      also have "\<dots> \<le> unat v" by (simp add: q)
      finally show ?thesis using ds(4) q0 by (cases ds) (simp_all add: mult.commute)
    qed
    then show ?thesis using f n up by (intro exI [of _ ?ds]) simp
  qed
qed

lemma digits_bound:
  assumes "10 \<le> (b :: nat)" "b ^ (k - 1) < 4294967296"
  shows "k \<le> 10"
proof (rule ccontr)
  assume "\<not> k \<le> 10"
  then have "10 ^ 10 \<le> (10 :: nat) ^ (k - 1)" by (intro power_increasing) simp_all
  also have "\<dots> \<le> b ^ (k - 1)" using assms(1) by (intro power_mono) simp_all
  finally show False using assms(2) by simp
qed

lemma print_num_digits:
  assumes "base = 10 \<or> base = 16"
  shows "\<exists>ds. print_num v base width pad = Some (replicate (nat (min width 11) - length ds) pad @ ds) \<and>
    number_of (unat base) ds = unat v \<and> ds \<noteq> [] \<and> length ds \<le> 10 \<and> (length ds = 1 \<or> unat base ^ (length ds - 1) \<le> unat v)"
proof -
  have b: "2 \<le> unat base" "unat base \<le> 16" "10 \<le> unat base" using assms by auto
  obtain ds where ds: "(if v = 0 then Some [48] else fill_digits base v) = Some ds" "number_of (unat base) (rev ds) = unat v"
    "ds \<noteq> []" "length ds = 1 \<or> unat base ^ (length ds - 1) \<le> unat v"
  proof (cases "v = 0")
    case True
    then show ?thesis by (intro that [of "[48]"]) (simp_all add: digit_value_def)
  next
    case False
    obtain ds where "fill_digits base v = Some ds" "number_of (unat base) (rev ds) = unat v"
      "unat base ^ (length ds - 1) \<le> unat v \<and> ds \<noteq> []"
      using fill_digits_correct [OF b(1, 2), of v] False by blast
    then show ?thesis using False by (intro that [of ds]) simp_all
  qed
  have "length ds \<le> 10"
  proof (cases "length ds = 1")
    case False
    then have "unat base ^ (length ds - 1) < 4294967296" using ds(4) unat_lt32 [of v] by linarith
    then show ?thesis by (rule digits_bound [OF b(3)])
  qed simp
  moreover have "print_num v base width pad = Some (replicate (nat (min width 11) - length (rev ds)) pad @ rev ds)"
  proof -
    have "nat (a - int n) = nat a - n" for a n by arith
    then have "nat ((if width > 11 then 11 else width) - int (length ds)) = nat (min width 11) - length ds"
      by (simp add: min_def)
    then show ?thesis using ds(1) by (simp add: print_num_def Let_def)
  qed
  ultimately show ?thesis using ds by (intro exI [of _ "rev ds"]) simp
qed

text \<open>For both bases in use \<open>print_num\<close> returns; its output is the padding followed by
  digits without superfluous zeros whose value is the argument, and the 12-byte buffer it
  builds them in is never overrun.\<close>

theorem print_num_correct:
  assumes "base = 10 \<or> base = 16"
  shows "\<exists>ds out. print_num v base width pad = Some out \<and> out = replicate (nat (min width 11) - length ds) pad @ ds \<and>
    number_of (unat base) ds = unat v \<and> ds \<noteq> [] \<and> length out \<le> 11 \<and>
    (length ds = 1 \<or> unat base ^ (length ds - 1) \<le> unat v)"
proof -
  obtain ds where ds: "print_num v base width pad = Some (replicate (nat (min width 11) - length ds) pad @ ds)"
    "number_of (unat base) ds = unat v" "ds \<noteq> []" "length ds \<le> 10" "length ds = 1 \<or> unat base ^ (length ds - 1) \<le> unat v"
    using print_num_digits [OF assms, of v width pad] by blast
  have "nat (min width 11) \<le> 11" by simp
  then have "length (replicate (nat (min width 11) - length ds) pad @ ds) \<le> 11" using ds(4) by simp
  then show ?thesis using ds by blast
qed

theorem print_num_correct_witness:
  "\<exists>ds out. print_num 0xCAFE 16 8 48 = Some out \<and> out = replicate (8 - length ds) 48 @ ds \<and> number_of 16 ds = 0xCAFE"
  using print_num_correct [of 16 "0xCAFE" 8 48] by auto

subsection \<open>Formats\<close>

datatype item = Lit u8 | Conv bool nat u8

fun decimal :: "nat \<Rightarrow> u8 list" where
  "decimal n = (if n < 10 then [48 + of_nat n] else decimal (n div 10) @ [48 + of_nat (n mod 10)])"

declare decimal.simps [simp del]

definition is_digit :: "u8 \<Rightarrow> bool" where "is_digit c \<longleftrightarrow> 48 \<le> c \<and> c \<le> 57"

fun item_ok :: "item \<Rightarrow> bool" where
  "item_ok (Lit c) \<longleftrightarrow> c \<noteq> 37"
| "item_ok (Conv zero w c) \<longleftrightarrow> \<not> is_digit c"

fun format_of :: "item \<Rightarrow> u8 list" where
  "format_of (Lit c) = [c]"
| "format_of (Conv zero w c) = 37 # (if zero then [48] else []) @ (if w = 0 then [] else decimal w) @ [c]"

fun render :: "item list \<Rightarrow> arg list \<Rightarrow> u8 list option" where
  "render [] args = Some []"
| "render (Lit c # r) args = map_option ((#) c) (render r args)"
| "render (Conv zero w c # r) args =
     (case conversion c (int w) (if zero then 48 else 32) args of None \<Rightarrow> None
      | Some (out, args') \<Rightarrow> map_option ((@) out) (render r args'))"

lemma digit_byte:
  assumes "k < 10"
  shows "is_digit (48 + of_nat k)" "uint (48 + of_nat k :: u8) - 48 = int k" "0 < k \<Longrightarrow> 48 + of_nat k \<noteq> (48 :: u8)"
proof -
  have u: "unat (48 + of_nat k :: u8) = 48 + k"
    using assms by (simp add: unat_word_ariths unat_of_nat)
  then show "is_digit (48 + of_nat k)" using assms by (simp add: is_digit_def word_le_nat_alt)
  show "uint (48 + of_nat k :: u8) - 48 = int k" using u by (simp add: uint_nat)
  show "48 + of_nat k \<noteq> (48 :: u8)" if "0 < k"
  proof
    assume "48 + of_nat k = (48 :: u8)"
    then have "unat (48 + of_nat k :: u8) = unat (48 :: u8)" by (rule arg_cong)
    then show False using u that by simp
  qed
qed

lemma parse_decimal:
  "parse_width a (decimal n @ s) = parse_width (a * 10 ^ length (decimal n) + int n) s"
proof (induction n arbitrary: s rule: decimal.induct)
  case (1 n)
  have step: "parse_width w ((48 + of_nat k) # s) = parse_width (w * 10 + int k) s" if "k < 10" for w k s
    using digit_byte(1, 2) [OF that] by (simp only: parse_width.simps is_digit_def if_True simp_thms)
  show ?case
  proof (cases "n < 10")
    case True
    then show ?thesis using step [of n a s] by (simp add: decimal.simps [of n] del: parse_width.simps)
  next
    case False
    let ?l = "length (decimal (n div 10))"
    have "int (n div 10) * 10 + int (n mod 10) = int n"
      unfolding of_nat_div of_nat_mod by simp
    then have e: "(a * 10 ^ ?l + int (n div 10)) * 10 + int (n mod 10) = a * 10 ^ Suc ?l + int n"
      by (simp add: algebra_simps)
    have "parse_width a (decimal n @ s) = parse_width ((a * 10 ^ ?l + int (n div 10)) * 10 + int (n mod 10)) s"
      using 1 [OF False, of "(48 + of_nat (n mod 10)) # s"] False step [of "n mod 10"]
      by (simp add: decimal.simps [of n] del: parse_width.simps)
    then show ?thesis using False unfolding e by (simp add: decimal.simps [of n])
  qed
qed

lemma decimal_first: "0 < n \<Longrightarrow> \<exists>c r. decimal n = c # r \<and> c \<noteq> 48"
proof (induction n rule: decimal.induct)
  case (1 n)
  show ?case
  proof (cases "n < 10")
    case True
    then show ?thesis using digit_byte(3) [of n] 1(2) by (simp add: decimal.simps [of n])
  next
    case False
    then have "0 < n div 10" by simp
    then obtain c r where "decimal (n div 10) = c # r" "c \<noteq> 48" using 1(1) [OF False] by blast
    then show ?thesis using False by (simp add: decimal.simps [of n])
  qed
qed

lemma kvprintf_conv:
  assumes "\<not> is_digit c"
  shows "kvprintf (format_of (Conv zero w c) @ s) args =
    (case conversion c (int w) (if zero then 48 else 32) args of None \<Rightarrow> None
     | Some (out, args') \<Rightarrow> map_option ((@) out) (kvprintf s args'))"
proof -
  let ?t = "(if w = 0 then [] else decimal w) @ c # s"
  have stop: "parse_width n (c # s) = (n, c # s)" for n
    using assms by (simp only: parse_width.simps is_digit_def if_False)
  have pw: "parse_width 0 ?t = (int w, c # s)"
    by (cases "w = 0") (simp_all add: parse_decimal stop del: parse_width.simps)
  have hd: "?t \<noteq> []" "hd ?t \<noteq> 48"
    using decimal_first [of w] assms by (auto simp: is_digit_def)
  show ?thesis
  proof (cases zero)
    case True
    then show ?thesis using pw by (simp add: Let_def)
  next
    case False
    then have "kvprintf (format_of (Conv zero w c) @ s) args = kvprintf (37 # ?t) args" by simp
    also have "\<dots> = (case conversion c (int w) 32 args of None \<Rightarrow> None
        | Some (out, args') \<Rightarrow> map_option ((@) out) (kvprintf s args'))"
      using hd pw by (subst kvprintf.simps) (simp only: if_False if_True Let_def prod.case list.case simp_thms)
    finally show ?thesis using False by simp
  qed
qed

lemma kvprintf_items: "list_all item_ok items \<Longrightarrow> kvprintf (concat (map format_of items)) args = render items args"
proof (induction items args rule: render.induct)
  case (3 zero w c r args)
  then show ?case
    using kvprintf_conv [of c zero w "concat (map format_of r)" args]
    by (simp del: kvprintf.simps format_of.simps split: option.splits)
qed simp_all



text \<open>A format that ends inside a conversion, after its flag or width, is read past its end.\<close>

lemma kvprintf_overread: "kvprintf (s @ [37, 53]) args = None \<or> 37 \<in> set s"
  by (induction s) (simp_all add: Let_def)

subsection \<open>Whether a call is defined depends on the kinds of its arguments only\<close>

fun shape :: "arg \<Rightarrow> arg" where
  "shape (Num v) = Num 0"
| "shape (Str s) = Str None"

lemma next_shape:
  "next_num (map shape args) = map_option (\<lambda>(v, r). (0, map shape r)) (next_num args)"
  "next_str (map shape args) = map_option (\<lambda>(s, r). (None, map shape r)) (next_str args)"
  by (cases args rule: next_num.cases; simp)+

lemma print_num_some: "base = 10 \<or> base = 16 \<Longrightarrow> \<exists>out. print_num v base width pad = Some out"
  using print_num_digits [of base v width pad] by blast

lemma conversion_shape:
  "map_option snd (conversion c width pad (map shape args)) = map_option (map shape \<circ> snd) (conversion c width pad args)"
proof -
  have d: "\<exists>g. \<forall>v. print_num v 10 w pd = Some (g v)" and x: "\<exists>g. \<forall>v. print_num v 16 w pd = Some (g v)" for w pd
    by (intro choice allI print_num_some; simp)+
  obtain g where g: "\<And>v. print_num v 10 width pad = Some (g v)" using d by blast
  obtain h where h: "\<And>v. print_num v 16 width pad = Some (h v)" using x by blast
  obtain k where k: "\<And>v. print_num v 16 8 48 = Some (k v)" using x by blast
  show ?thesis
    unfolding conversion_def g h k next_shape
    by (cases "next_num args"; cases "next_str args") auto
qed

lemma kvprintf_shape: "(kvprintf s (map shape args) = None) = (kvprintf s args = None)"
proof (induction s args rule: kvprintf.induct)
  case (2 c s args)
  show ?case
  proof (cases "c = 37 \<and> s \<noteq> []")
    case True
    obtain pad s2 where 1: "(if hd s = 48 then (48, tl s) else (32 :: u8, s)) = (pad, s2)" by fastforce
    obtain width s3 where 2: "parse_width 0 s2 = (width, s3)" by fastforce
    show ?thesis
    proof (cases s3)
      case Nil
      have "kvprintf (c # s) as = None" for as using True by (simp add: Let_def 1 2 Nil)
      then show ?thesis by simp
    next
      case (Cons d s4)
      have e: "kvprintf (c # s) as = (case conversion d width pad as of None \<Rightarrow> None
           | Some (out, as') \<Rightarrow> map_option ((@) out) (kvprintf s4 as'))" for as
        using True by (simp add: 1 2 Cons)
      show ?thesis
      proof (cases "conversion d width pad args")
        case None
        then show ?thesis using conversion_shape [of d width pad args] unfolding e by (simp split: option.splits)
      next
        case (Some r)
        obtain out args' where r: "r = (out, args')" by fastforce
        from conversion_shape [of d width pad args] Some r obtain out' where
          "conversion d width pad (map shape args) = Some (out', map shape args')" by auto
        then show ?thesis using "2.IH"(2) [OF _ _ refl 1 [symmetric] refl 2 [symmetric] Cons Some r [symmetric]] Some r True unfolding e by simp
      qed
    qed
  qed (use "2.IH"(1) in auto)
qed simp

end
