(* ===== verification/Wm.thy ===== *)
theory Wm
  imports Fb Kstring
begin

text \<open>
  \<open>kernel/gui.c\<close>, window management: the table of windows, their stacking order and the
  keyboard focus. A window's function pointers are the constructors of \<open>app\<close>, the routines
  the file assigns to them; strings are lists of bytes.
\<close>

definition TASKBAR_H :: int where "TASKBAR_H = 36"
definition TITLE_H :: int where "TITLE_H = 30"
definition MAX_WINDOWS :: nat where "MAX_WINDOWS = 8"
definition TITLE_MAX :: nat where "TITLE_MAX = 23"

datatype app = Welcome | Sysinfo | About | Editor | Trash_Win

record window =
  win_x :: int
  win_y :: int
  win_w :: int
  win_h :: int
  title :: "u8 list"
  draw :: "app option"
  click :: "app option"
  key :: "app option"
  on_close :: "app option"
  user :: u32
  visible :: bool
  used :: bool

definition zero_window :: window where
  "zero_window = \<lparr>win_x = 0, win_y = 0, win_w = 0, win_h = 0, title = [], draw = None, click = None,
     key = None, on_close = None, user = 0, visible = False, used = False\<rparr>"

text \<open>\<open>zorder\<close> is the used part of the array, \<open>zcount\<close> its length; a focus of \<open>-1\<close> is \<open>None\<close>.
  The slots beyond \<open>MAX_WINDOWS\<close> do not exist.\<close>

record wm =
  wins :: "nat \<Rightarrow> window"
  zorder :: "nat list"
  focused :: "nat option"

text \<open>The index search and the shift of the array tail, as one recursion.\<close>

fun shift_out :: "nat \<Rightarrow> nat list \<Rightarrow> nat list" where
  "shift_out idx [] = []"
| "shift_out idx (z # zs) = (if z = idx then zs else z # shift_out idx zs)"

definition raise_window :: "nat \<Rightarrow> wm \<Rightarrow> wm" where
  "raise_window idx s =
     (if idx \<notin> set (zorder s) then s
      else s\<lparr>zorder := shift_out idx (zorder s) @ [idx], focused := Some idx\<rparr>)"

fun topmost :: "(nat \<Rightarrow> window) \<Rightarrow> nat list \<Rightarrow> nat option" where
  "topmost w [] = None"
| "topmost w (z # zs) = (if visible (w z) then Some z else topmost w zs)"

definition focus_topmost_visible :: "wm \<Rightarrow> wm" where
  "focus_topmost_visible s = s\<lparr>focused := topmost (wins s) (rev (zorder s))\<rparr>"

text \<open>\<open>closed\<close> is the effect of \<open>on_close\<close> on the window (the editor clears \<open>user\<close>).\<close>

definition close_window :: "(window \<Rightarrow> window) \<Rightarrow> nat \<Rightarrow> wm \<Rightarrow> wm" where
  "close_window closed idx s =
     (let w0 = wins s idx;
          w1 = (if on_close w0 \<noteq> None then closed w0 else w0);
          s1 = s\<lparr>wins := (wins s)(idx := w1\<lparr>used := False, visible := False\<rparr>),
                 zorder := shift_out idx (zorder s)\<rparr>
      in if focused s1 = Some idx then focus_topmost_visible s1 else s1)"

fun free_slot :: "(nat \<Rightarrow> window) \<Rightarrow> nat list \<Rightarrow> nat option" where
  "free_slot w [] = None"
| "free_slot w (i # r) = (if used (w i) then free_slot w r else Some i)"

definition add_window :: "int \<Rightarrow> int \<Rightarrow> int \<Rightarrow> int \<Rightarrow> u8 list \<Rightarrow> app option \<Rightarrow> wm \<Rightarrow> nat option \<times> wm" where
  "add_window x y w h ttl drw s =
     (case free_slot (wins s) [0..<MAX_WINDOWS] of None \<Rightarrow> (None, s)
      | Some i \<Rightarrow>
          (Some i, s\<lparr>wins := (wins s)(i := zero_window\<lparr>win_x := x, win_y := y, win_w := w, win_h := h,
                                title := take TITLE_MAX ttl, draw := drw, visible := True, used := True\<rparr>),
                     zorder := zorder s @ [i], focused := Some i\<rparr>))"

fun find_window_from :: "u8 list \<Rightarrow> (nat \<Rightarrow> window) \<Rightarrow> nat list \<Rightarrow> nat option" where
  "find_window_from ttl w [] = None"
| "find_window_from ttl w (i # r) = (if used (w i) \<and> title (w i) = ttl then Some i else find_window_from ttl w r)"

definition find_window :: "u8 list \<Rightarrow> wm \<Rightarrow> nat option" where
  "find_window ttl s = find_window_from ttl (wins s) [0..<MAX_WINDOWS]"

definition show_and_raise :: "nat \<Rightarrow> wm \<Rightarrow> wm" where
  "show_and_raise i s = raise_window i (s\<lparr>wins := (wins s)(i := (wins s i)\<lparr>visible := True\<rparr>)\<rparr>)"

definition minimize_window :: "nat \<Rightarrow> wm \<Rightarrow> wm" where
  "minimize_window i s =
     (let s1 = s\<lparr>wins := (wins s)(i := (wins s i)\<lparr>visible := False\<rparr>)\<rparr>
      in if focused s1 = Some i then focus_topmost_visible s1 else s1)"

definition open_app :: "u8 list \<Rightarrow> app \<Rightarrow> int \<Rightarrow> int \<Rightarrow> int \<Rightarrow> int \<Rightarrow> wm \<Rightarrow> wm" where
  "open_app ttl drw x y w h s =
     (case find_window ttl s of Some i \<Rightarrow> show_and_raise i s
      | None \<Rightarrow> (case add_window x y w h ttl (Some drw) s of
                   (None, s1) \<Rightarrow> s1
                 | (Some i, s1) \<Rightarrow> show_and_raise i s1))"

text \<open>Which window a press at \<open>(mx, my)\<close> goes to: the topmost visible one that contains it.\<close>

definition contains :: "window \<Rightarrow> int \<Rightarrow> int \<Rightarrow> bool" where
  "contains w mx my \<longleftrightarrow> \<not> (mx < win_x w \<or> mx \<ge> win_x w + win_w w \<or> my < win_y w \<or> my \<ge> win_y w + win_h w)"

fun hit_window :: "(nat \<Rightarrow> window) \<Rightarrow> int \<Rightarrow> int \<Rightarrow> nat list \<Rightarrow> nat option" where
  "hit_window w mx my [] = None"
| "hit_window w mx my (z # zs) =
     (if \<not> visible (w z) then hit_window w mx my zs
      else if contains (w z) mx my then Some z else hit_window w mx my zs)"

subsection \<open>Where a press on a window goes\<close>

datatype press = Close nat | Minimize nat | Grab nat int int | Body nat

text \<open>The title bar with its two lights, else the body. \<open>None\<close>: no window is hit.\<close>

definition window_press :: "int \<Rightarrow> int \<Rightarrow> wm \<Rightarrow> press option" where
  "window_press mx my s =
     (case hit_window (wins s) mx my (rev (zorder s)) of None \<Rightarrow> None
      | Some i \<Rightarrow>
          (let w = wins s i
           in if my < win_y w + TITLE_H then
                (let cy = win_y w + TITLE_H div 2; dyc = my - cy; d1 = mx - (win_x w + 20); d2 = mx - (win_x w + 40)
                 in if d1 * d1 + dyc * dyc \<le> 49 then Some (Close i)
                    else if d2 * d2 + dyc * dyc \<le> 49 then Some (Minimize i)
                    else Some (Grab i (mx - win_x w) (my - win_y w)))
              else Some (Body i)))"

fun apply_press :: "(window \<Rightarrow> window) \<Rightarrow> press \<Rightarrow> wm \<Rightarrow> wm" where
  "apply_press closed (Close i) s = close_window closed i s"
| "apply_press closed (Minimize i) s = minimize_window i s"
| "apply_press closed (Grab i dx dy) s = raise_window i s"
| "apply_press closed (Body i) s = raise_window i s"

text \<open>Dragging keeps the title bar reachable.\<close>

definition drag_window :: "int \<Rightarrow> int \<Rightarrow> int \<Rightarrow> int \<Rightarrow> window \<Rightarrow> window" where
  "drag_window sw sh nx ny w =
     (let x1 = (if nx < - win_w w + 60 then - win_w w + 60 else nx);
          x2 = (if x1 > sw - 60 then sw - 60 else x1);
          y1 = (if ny < 0 then 0 else ny);
          y2 = (if y1 > sh - TASKBAR_H - 20 then sh - TASKBAR_H - 20 else y1)
      in w\<lparr>win_x := x2, win_y := y2\<rparr>)"

text \<open>A taskbar button.\<close>

definition taskbar_button_rect :: "int \<Rightarrow> nat \<Rightarrow> int \<times> int \<times> int \<times> int" where
  "taskbar_button_rect sh slot = (48 + int slot * 148, sh - TASKBAR_H + 5, 140, 26)"

fun button_at :: "int \<Rightarrow> (nat \<Rightarrow> window) \<Rightarrow> int \<Rightarrow> int \<Rightarrow> nat \<Rightarrow> nat list \<Rightarrow> nat option" where
  "button_at sh w mx my slot [] = None"
| "button_at sh w mx my slot (i # r) =
     (if \<not> used (w i) then button_at sh w mx my slot r
      else let (bx, by, bw, bh) = taskbar_button_rect sh slot
           in if mx \<ge> bx \<and> mx < bx + bw \<and> my \<ge> by \<and> my < by + bh then Some i
              else button_at sh w mx my (slot + 1) r)"

definition taskbar_press :: "int \<Rightarrow> int \<Rightarrow> int \<Rightarrow> wm \<Rightarrow> nat option" where
  "taskbar_press sh mx my s = button_at sh (wins s) mx my 0 [0..<MAX_WINDOWS]"

subsection \<open>The stack and the focus\<close>

text \<open>The stack lists exactly the used windows, each once; only used windows are visible; and
  the focus is on the topmost visible window, if there is one.\<close>

definition wm_ok :: "wm \<Rightarrow> bool" where
  "wm_ok s \<longleftrightarrow>
     distinct (zorder s) \<and> set (zorder s) = {i. i < MAX_WINDOWS \<and> used (wins s i)} \<and>
     (\<forall>i < MAX_WINDOWS. visible (wins s i) \<longrightarrow> used (wins s i)) \<and>
     focused s = topmost (wins s) (rev (zorder s))"

lemma shift_out_set: "distinct zs \<Longrightarrow> set (shift_out idx zs) = set zs - {idx} \<and> distinct (shift_out idx zs)"
  by (induction zs) auto

lemma shift_out_filter: "distinct zs \<Longrightarrow> shift_out idx zs = filter (\<lambda>z. z \<noteq> idx) zs"
  by (induction zs) (auto intro!: filter_True [symmetric])

lemma topmost_cong: "(\<And>z. z \<in> set zs \<Longrightarrow> visible (w z) = visible (w' z)) \<Longrightarrow> topmost w zs = topmost w' zs"
  by (induction zs) auto

lemma topmost_app: "topmost w (xs @ ys) = (case topmost w xs of Some z \<Rightarrow> Some z | None \<Rightarrow> topmost w ys)"
  by (induction xs) auto

lemma topmost_filter:
  "(\<And>z. z \<in> set zs \<Longrightarrow> \<not> P z \<Longrightarrow> \<not> visible (w z)) \<Longrightarrow> topmost w (filter P zs) = topmost w zs"
  by (induction zs) auto

lemma topmost_other:
  "topmost w zs \<noteq> Some idx \<Longrightarrow> topmost w (filter (\<lambda>z. z \<noteq> idx) zs) = topmost w zs"
  by (induction zs) (auto split: if_splits)

lemma topmost_SomeD: "topmost w zs = Some i \<Longrightarrow> i \<in> set zs \<and> visible (w i)"
  by (induction zs) (auto split: if_splits)

lemma topmost_None: "topmost w zs = None \<longleftrightarrow> (\<forall>z \<in> set zs. \<not> visible (w z))"
  by (induction zs) auto

lemma raise_window_ok:
  assumes "wm_ok s" "visible (wins s idx)"
  shows "wm_ok (raise_window idx s)"
proof (cases "idx \<in> set (zorder s)")
  case True
  then show ?thesis
    using assms shift_out_set [of "zorder s" idx] by (auto simp: wm_ok_def raise_window_def)
qed (use assms in \<open>simp add: raise_window_def\<close>)

lemma focus_ok:
  assumes "distinct (zorder s)" "set (zorder s) = {i. i < MAX_WINDOWS \<and> used (wins s i)}"
    "\<forall>i < MAX_WINDOWS. visible (wins s i) \<longrightarrow> used (wins s i)"
  shows "wm_ok (focus_topmost_visible s)"
  using assms by (simp add: wm_ok_def focus_topmost_visible_def)

lemma close_window_ok:
  assumes "wm_ok s"
  shows "wm_ok (close_window closed idx s)"
proof -
  let ?w = "(wins s)(idx := (if on_close (wins s idx) \<noteq> None then closed (wins s idx) else wins s idx)\<lparr>used := False, visible := False\<rparr>)"
  let ?s = "s\<lparr>wins := ?w, zorder := shift_out idx (zorder s)\<rparr>"
  have d: "distinct (zorder s)" using assms by (simp add: wm_ok_def)
  have ok: "distinct (zorder ?s)" "set (zorder ?s) = {i. i < MAX_WINDOWS \<and> used (wins ?s i)}"
    "\<forall>i < MAX_WINDOWS. visible (wins ?s i) \<longrightarrow> used (wins ?s i)"
    using assms shift_out_set [OF d, of idx] by (auto simp: wm_ok_def)
  show ?thesis
  proof (cases "focused s = Some idx")
    case True
    then show ?thesis using focus_ok [OF ok] by (simp add: close_window_def Let_def)
  next
    case False
    have "topmost ?w (rev (shift_out idx (zorder s))) = topmost (wins s) (rev (shift_out idx (zorder s)))"
      using shift_out_set [OF d, of idx] by (intro topmost_cong) auto
    also have "\<dots> = topmost (wins s) (filter (\<lambda>z. z \<noteq> idx) (rev (zorder s)))"
      by (simp add: shift_out_filter [OF d] rev_filter)
    also have "\<dots> = topmost (wins s) (rev (zorder s))"
      using False assms by (intro topmost_other) (simp add: wm_ok_def)
    finally show ?thesis using ok False assms by (simp add: wm_ok_def close_window_def Let_def)
  qed
qed

lemma minimize_window_ok:
  assumes "wm_ok s"
  shows "wm_ok (minimize_window i s)"
proof -
  let ?w = "(wins s)(i := (wins s i)\<lparr>visible := False\<rparr>)"
  have ok: "distinct (zorder s)" "set (zorder s) = {i. i < MAX_WINDOWS \<and> used (?w i)}"
    "\<forall>i < MAX_WINDOWS. visible (?w i) \<longrightarrow> used (?w i)"
    using assms by (auto simp: wm_ok_def)
  show ?thesis
  proof (cases "focused s = Some i")
    case True
    then show ?thesis using focus_ok [of "s\<lparr>wins := ?w\<rparr>"] ok by (simp add: minimize_window_def Let_def)
  next
    case False
    have "topmost ?w (rev (zorder s)) = topmost ?w (filter (\<lambda>z. z \<noteq> i) (rev (zorder s)))"
      by (rule topmost_filter [symmetric]) simp
    also have "\<dots> = topmost (wins s) (filter (\<lambda>z. z \<noteq> i) (rev (zorder s)))"
      by (rule topmost_cong) simp
    also have "\<dots> = topmost (wins s) (rev (zorder s))"
      using False assms by (intro topmost_other) (simp add: wm_ok_def)
    finally show ?thesis using ok False assms by (simp add: wm_ok_def minimize_window_def Let_def)
  qed
qed

lemma free_slot_SomeD: "free_slot w is = Some i \<Longrightarrow> i \<in> set is \<and> \<not> used (w i)"
  by (induction "is") (auto split: if_splits)

lemma free_slot_None: "free_slot w is = None \<longleftrightarrow> (\<forall>i \<in> set is. used (w i))"
  by (induction "is") auto

lemma add_window_ok:
  assumes "wm_ok s"
  shows "wm_ok (snd (add_window x y w h ttl drw s))"
proof (cases "free_slot (wins s) [0..<MAX_WINDOWS]")
  case (Some i)
  then have i: "i < MAX_WINDOWS" "\<not> used (wins s i)" using free_slot_SomeD by fastforce+
  then show ?thesis using assms Some by (auto simp: wm_ok_def add_window_def)
qed (use assms in \<open>simp add: add_window_def\<close>)

lemma show_and_raise_ok:
  assumes "wm_ok s" "used (wins s i)" "i < MAX_WINDOWS"
  shows "wm_ok (show_and_raise i s)"
proof -
  let ?w = "(wins s)(i := (wins s i)\<lparr>visible := True\<rparr>)"
  have d: "distinct (zorder s)" and m: "i \<in> set (zorder s)" using assms by (auto simp: wm_ok_def)
  then show ?thesis
    using assms shift_out_set [OF d, of i] by (auto simp: wm_ok_def show_and_raise_def raise_window_def)
qed

lemma find_window_SomeD:
  "find_window ttl s = Some i \<Longrightarrow> i < MAX_WINDOWS \<and> used (wins s i) \<and> title (wins s i) = ttl"
proof -
  have "find_window_from ttl w js = Some i \<Longrightarrow> i \<in> set js \<and> used (w i) \<and> title (w i) = ttl" for w js
    by (induction js) (auto split: if_splits)
  then show "find_window ttl s = Some i \<Longrightarrow> ?thesis" by (fastforce simp: find_window_def)
qed

lemma add_window_SomeD:
  "add_window x y w h ttl drw s = (Some i, s1) \<Longrightarrow> i < MAX_WINDOWS \<and> used (wins s1 i) \<and> \<not> used (wins s i)"
  using free_slot_SomeD [of "wins s" "[0..<MAX_WINDOWS]"]
  by (auto simp: add_window_def split: option.splits)

lemma open_app_ok:
  assumes "wm_ok s"
  shows "wm_ok (open_app ttl drw x y w h s)"
proof (cases "find_window ttl s")
  case (Some i)
  then show ?thesis
    using find_window_SomeD [OF Some] by (simp add: open_app_def show_and_raise_ok [OF assms])
next
  case None
  obtain r s1 where a: "add_window x y w h ttl (Some drw) s = (r, s1)" by (cases "add_window x y w h ttl (Some drw) s")
  then have s1: "wm_ok s1" using add_window_ok [OF assms, of x y w h ttl "Some drw"] by simp
  show ?thesis
  proof (cases r)
    case (Some i)
    then show ?thesis
      using None a add_window_SomeD [of x y w h ttl "Some drw" s i s1]
      by (simp add: open_app_def show_and_raise_ok [OF s1])
  qed (use None a s1 in \<open>simp add: open_app_def\<close>)
qed

lemma wm_ok_move:
  assumes "wm_ok s"
  shows "wm_ok (s\<lparr>wins := (wins s)(i := drag_window sw sh nx ny (wins s i))\<rparr>)"
proof -
  have "topmost ((wins s)(i := drag_window sw sh nx ny (wins s i))) zs = topmost (wins s) zs" for zs
    by (rule topmost_cong) (simp add: drag_window_def Let_def)
  then show ?thesis using assms by (auto simp: wm_ok_def drag_window_def Let_def)
qed

subsection \<open>Which window a press reaches\<close>

lemma hit_window_SomeD:
  "hit_window w mx my zs = Some i \<Longrightarrow>
     \<exists>xs ys. zs = xs @ i # ys \<and> visible (w i) \<and> contains (w i) mx my \<and>
       (\<forall>j \<in> set xs. \<not> (visible (w j) \<and> contains (w j) mx my))"
proof (induction zs)
  case (Cons z zs)
  show ?case
  proof (cases "visible (w z) \<and> contains (w z) mx my")
    case True
    then have "z = i" using Cons.prems by (simp split: if_splits)
    then show ?thesis using True by (intro exI [of _ "[]"] exI [of _ zs]) simp
  next
    case False
    then have "hit_window w mx my zs = Some i" using Cons.prems by (auto split: if_splits)
    from Cons.IH [OF this] obtain xs ys where
      "zs = xs @ i # ys" "visible (w i)" "contains (w i) mx my"
      "\<forall>j \<in> set xs. \<not> (visible (w j) \<and> contains (w j) mx my)" by blast
    then show ?thesis using False by (intro exI [of _ "z # xs"] exI [of _ ys]) auto
  qed
qed simp

lemma hit_window_None:
  "hit_window w mx my zs = None \<longleftrightarrow> (\<forall>j \<in> set zs. \<not> (visible (w j) \<and> contains (w j) mx my))"
  by (induction zs) auto

lemma window_press_hits:
  "window_press mx my s = Some p \<Longrightarrow>
     \<exists>i. hit_window (wins s) mx my (rev (zorder s)) = Some i \<and>
       (p = Close i \<or> p = Minimize i \<or> p = Grab i (mx - win_x (wins s i)) (my - win_y (wins s i)) \<or> p = Body i)"
  by (auto simp: window_press_def Let_def split: option.splits if_splits)

lemma apply_press_ok:
  assumes "wm_ok s" "window_press mx my s = Some p"
  shows "wm_ok (apply_press closed p s)"
proof -
  obtain i where h: "hit_window (wins s) mx my (rev (zorder s)) = Some i"
    and p: "p = Close i \<or> p = Minimize i \<or> p = Grab i (mx - win_x (wins s i)) (my - win_y (wins s i)) \<or> p = Body i"
    using window_press_hits [OF assms(2)] by blast
  have "visible (wins s i)" using hit_window_SomeD [OF h] by blast
  then show ?thesis
    using p raise_window_ok [OF assms(1)] close_window_ok [OF assms(1)] minimize_window_ok [OF assms(1)] by auto
qed

lemma button_at_SomeD: "button_at sh w mx my slot is = Some i \<Longrightarrow> i \<in> set is \<and> used (w i)"
  by (induction "is" arbitrary: slot) (auto simp: Let_def taskbar_button_rect_def split: if_splits)

subsection \<open>Every history of the desktop\<close>

text \<open>What the desktop does to its windows, as a step relation: an application is opened or
  raised, an editor window is added, a press lands on a window, a taskbar button is pressed, a
  window is dragged.\<close>

inductive wm_step :: "wm \<Rightarrow> wm \<Rightarrow> bool" where
  opened: "wm_step s (open_app ttl drw x y w h s)"
| added: "wm_step s (snd (add_window x y w h ttl drw s))"
| pressed: "window_press mx my s = Some p \<Longrightarrow> wm_step s (apply_press closed p s)"
| button: "taskbar_press sh mx my s = Some i \<Longrightarrow> wm_step s (show_and_raise i s)"
| dragged: "wm_step s (s\<lparr>wins := (wins s)(i := drag_window sw sh nx ny (wins s i))\<rparr>)"

inductive_cases wm_stepE: "wm_step s s'"

definition no_windows :: wm where
  "no_windows = \<lparr>wins = (\<lambda>_. zero_window), zorder = [], focused = None\<rparr>"

lemma no_windows_ok: "wm_ok no_windows"
  by (simp add: wm_ok_def no_windows_def zero_window_def)

lemma taskbar_press_SomeD: "taskbar_press sh mx my s = Some i \<Longrightarrow> i < MAX_WINDOWS \<and> used (wins s i)"
  using button_at_SomeD by (fastforce simp: taskbar_press_def)

lemma wm_step_ok:
  assumes "wm_step s s'" "wm_ok s"
  shows "wm_ok s'"
  using assms
  by (auto elim!: wm_stepE intro: open_app_ok add_window_ok apply_press_ok show_and_raise_ok wm_ok_move
      dest: taskbar_press_SomeD)

lemma wm_ok_card:
  assumes "wm_ok s"
  shows "length (zorder s) \<le> MAX_WINDOWS"
proof -
  have "set (zorder s) \<subseteq> {..<MAX_WINDOWS}" using assms by (auto simp: wm_ok_def)
  then have "card (set (zorder s)) \<le> MAX_WINDOWS"
    using card_mono [of "{..<MAX_WINDOWS}" "set (zorder s)"] by simp
  moreover have "length (zorder s) = card (set (zorder s))"
    using assms distinct_card [of "zorder s"] by (simp add: wm_ok_def)
  ultimately show ?thesis by simp
qed

lemma wm_reachable_ok:
  assumes "wm_step\<^sup>*\<^sup>* no_windows s"
  shows "wm_ok s"
  using assms by (induction rule: rtranclp_induct) (auto intro: no_windows_ok wm_step_ok)

text \<open>C13: in every history of the desktop that starts with no window, the stacking order lists
  exactly the used windows, each once and never more than the eight there are; only used windows
  are visible; and the keyboard focus is on the topmost visible window, or nowhere when none is
  visible.\<close>
theorem wm_focus_is_topmost:
  assumes "wm_step\<^sup>*\<^sup>* no_windows s"
  shows "wm_ok s \<and> length (zorder s) \<le> MAX_WINDOWS"
  using wm_ok_card [OF wm_reachable_ok] wm_reachable_ok assms by blast

text \<open>The windows above the one pressed, in the reading order of the stack.\<close>

lemma rev_split: "rev zs = xs @ i # ys \<Longrightarrow> zs = rev ys @ i # rev xs"
  by (metis append.assoc append_Cons append_Nil rev.simps(2) rev_append rev_rev_ident)

text \<open>C35: a press that reaches a window reaches the topmost visible window under the pointer. The
  close light removes exactly that window and keeps the order of the others; the minimise light
  hides exactly it; anything else brings exactly it to the front with the keyboard focus.\<close>
theorem wm_press_reaches_topmost:
  assumes "wm_ok s" "window_press mx my s = Some p"
  shows "\<exists>i above below. zorder s = below @ i # above \<and> visible (wins s i) \<and> contains (wins s i) mx my \<and>
     (\<forall>j \<in> set above. \<not> (visible (wins s j) \<and> contains (wins s j) mx my)) \<and>
     (let s' = apply_press closed p s
      in (p = Close i \<and> zorder s' = below @ above \<and> \<not> used (wins s' i)
            \<and> (\<forall>j. j \<noteq> i \<longrightarrow> wins s' j = wins s j)) \<or>
         (p = Minimize i \<and> zorder s' = zorder s \<and> wins s' = (wins s)(i := (wins s i)\<lparr>visible := False\<rparr>)) \<or>
         ((p = Body i \<or> p = Grab i (mx - win_x (wins s i)) (my - win_y (wins s i))) \<and>
          s' = s\<lparr>zorder := below @ above @ [i], focused := Some i\<rparr>))"
proof -
  obtain i where h: "hit_window (wins s) mx my (rev (zorder s)) = Some i"
    and p: "p = Close i \<or> p = Minimize i \<or> p = Grab i (mx - win_x (wins s i)) (my - win_y (wins s i)) \<or> p = Body i"
    using window_press_hits [OF assms(2)] by blast
  obtain xs ys where r: "rev (zorder s) = xs @ i # ys" and v: "visible (wins s i)" "contains (wins s i) mx my"
    and n: "\<forall>j \<in> set xs. \<not> (visible (wins s j) \<and> contains (wins s j) mx my)"
    using hit_window_SomeD [OF h] by blast
  have z: "zorder s = rev ys @ i # rev xs" by (rule rev_split [OF r])
  have d: "distinct (zorder s)" using assms(1) by (simp add: wm_ok_def)
  have so: "shift_out i (zorder s) = rev ys @ rev xs"
    unfolding shift_out_filter [OF d] using d by (auto simp: z intro!: arg_cong2 [where f = "(@)"] filter_True)
  have m: "i \<in> set (zorder s)" by (simp add: z)
  have a: "let s' = apply_press closed p s
      in (p = Close i \<and> zorder s' = rev ys @ rev xs \<and> \<not> used (wins s' i)
            \<and> (\<forall>j. j \<noteq> i \<longrightarrow> wins s' j = wins s j)) \<or>
         (p = Minimize i \<and> zorder s' = zorder s \<and> wins s' = (wins s)(i := (wins s i)\<lparr>visible := False\<rparr>)) \<or>
         ((p = Body i \<or> p = Grab i (mx - win_x (wins s i)) (my - win_y (wins s i))) \<and>
          s' = s\<lparr>zorder := rev ys @ rev xs @ [i], focused := Some i\<rparr>)"
    using p so m
    by (elim disjE) (simp_all add: close_window_def minimize_window_def raise_window_def
        focus_topmost_visible_def Let_def)
  have n': "\<forall>j \<in> set (rev xs). \<not> (visible (wins s j) \<and> contains (wins s j) mx my)" using n by simp
  show ?thesis
    by (rule exI [of _ i], rule exI [of _ "rev xs"], rule exI [of _ "rev ys"]) (intro conjI z v n' a)
qed

text \<open>A desktop with two windows: the second is in front of the first.\<close>

definition two_windows :: wm where
  "two_windows = open_app [83] Sysinfo 60 40 330 250 (open_app [87] Welcome 110 100 420 300 no_windows)"

lemma two_windows_reachable: "wm_step\<^sup>*\<^sup>* no_windows two_windows"
  unfolding two_windows_def
  by (meson wm_step.opened r_into_rtranclp rtranclp.rtrancl_into_rtrancl)

lemma wm_focus_is_topmost_witness: "wm_ok two_windows \<and> length (zorder two_windows) \<le> MAX_WINDOWS"
  using wm_focus_is_topmost [OF two_windows_reachable] .

lemma two_windows_press:
  "window_press 200 200 two_windows = Some (Body 1) \<and> window_press 300 320 two_windows = Some (Body 0)"
  by code_simp

lemma wm_press_reaches_topmost_witness:
  "\<exists>i above below. zorder two_windows = below @ i # above \<and> contains (wins two_windows i) 300 320 \<and>
     zorder (apply_press id (Body 0) two_windows) = below @ above @ [i]"
proof -
  have p: "window_press 300 320 two_windows = Some (Body 0)" using two_windows_press by blast
  obtain i above below where
    "zorder two_windows = below @ i # above" "contains (wins two_windows i) 300 320"
    "apply_press id (Body 0) two_windows = two_windows\<lparr>zorder := below @ above @ [i], focused := Some i\<rparr>"
    using wm_press_reaches_topmost [OF wm_reachable_ok [OF two_windows_reachable] p, of id]
    by (auto simp: Let_def)
  then show ?thesis by fastforce
qed

text \<open>Windows are told apart by their titles only, and an editor's title is its file name: with an
  editor open on a file called like an application, opening that application raises the editor.\<close>

lemma open_app_title_clash:
  "let s1 = snd (add_window 170 80 560 420 [83] (Some Editor) no_windows);
       s2 = open_app [83] Sysinfo 600 240 330 250 s1
   in zorder s2 = [0] \<and> draw (wins s2 0) = Some Editor"
  by code_simp

text \<open>Dragging keeps the title bar reachable: at least sixty pixels of it stay on the screen, above
  the taskbar.\<close>

lemma drag_window_reachable:
  assumes "win_w w > 0" "sw \<ge> 120"
  shows "let w' = drag_window sw sh nx ny w
    in win_x w' + win_w w' \<ge> 60 \<and> win_x w' \<le> sw - 60 \<and> (sh \<ge> TASKBAR_H + 20 \<longrightarrow> 0 \<le> win_y w' \<and> win_y w' \<le> sh - TASKBAR_H - 20)
       \<and> win_w w' = win_w w \<and> win_h w' = win_h w"
  using assms by (auto simp: drag_window_def Let_def)

text \<open>The taskbar has one button per used window, left to right in the order of the table; the
  button pressed is the one of the window found.\<close>

lemma button_at_rank:
  "button_at sh w mx my slot is = Some i \<Longrightarrow>
     \<exists>xs ys. is = xs @ i # ys \<and>
       (let k = int (slot + length (filter (\<lambda>j. used (w j)) xs))
        in 48 + k * 148 \<le> mx \<and> mx < 48 + k * 148 + 140 \<and> sh - TASKBAR_H + 5 \<le> my \<and> my < sh - TASKBAR_H + 31)"
proof (induction "is" arbitrary: slot)
  case (Cons j r)
  show ?case
  proof (cases "used (w j)")
    case False
    then have "button_at sh w mx my slot r = Some i" using Cons.prems by simp
    from Cons.IH [OF this] obtain xs ys where "r = xs @ i # ys"
      "let k = int (slot + length (filter (\<lambda>j. used (w j)) xs))
        in 48 + k * 148 \<le> mx \<and> mx < 48 + k * 148 + 140 \<and> sh - TASKBAR_H + 5 \<le> my \<and> my < sh - TASKBAR_H + 31" by blast
    then show ?thesis using False by (intro exI [of _ "j # xs"] exI [of _ ys]) simp
  next
    case True
    show ?thesis
    proof (cases "48 + int slot * 148 \<le> mx \<and> mx < 48 + int slot * 148 + 140 \<and> sh - TASKBAR_H + 5 \<le> my \<and> my < sh - TASKBAR_H + 31")
      case in_rect: True
      then have "j = i" using Cons.prems True by (simp add: taskbar_button_rect_def)
      then show ?thesis using in_rect by (intro exI [of _ "[]"] exI [of _ r]) simp
    next
      case False
      then have "button_at sh w mx my (slot + 1) r = Some i"
        using Cons.prems True by (auto simp: taskbar_button_rect_def split: if_splits)
      from Cons.IH [OF this] obtain xs ys where "r = xs @ i # ys"
        "let k = int (slot + 1 + length (filter (\<lambda>j. used (w j)) xs))
          in 48 + k * 148 \<le> mx \<and> mx < 48 + k * 148 + 140 \<and> sh - TASKBAR_H + 5 \<le> my \<and> my < sh - TASKBAR_H + 31" by blast
      then show ?thesis using True by (intro exI [of _ "j # xs"] exI [of _ ys]) (simp add: add.assoc)
    qed
  qed
qed simp

end
