(* ===== verification/Desktop.thy ===== *)
theory Desktop
  imports Wm Fs_Ops
begin

text \<open>
  \<open>kernel/gui.c\<close>, the desktop: the icons of the files, where they are placed, the saved layout, the
  trash. The icon list is rebuilt from the directory of the file system; what a file's name begins
  with says where it is: in the trash, hidden, or on the desktop.
\<close>

definition ICON_CELL_W :: int where "ICON_CELL_W = 96"
definition ICON_CELL_H :: int where "ICON_CELL_H = 92"
definition ICON_MARGIN :: int where "ICON_MARGIN = 16"
definition TRASH_CH :: u8 where "TRASH_CH = 0x01"
definition HIDDEN_CH :: u8 where "HIDDEN_CH = 0x02"

text \<open>The bytes of \<open>"\x02layout"\<close> and \<open>"\x02trash"\<close>.\<close>

definition LAYOUT_FILE :: "u8 list" where "LAYOUT_FILE = [2, 108, 97, 121, 111, 117, 116]"
definition TRASH_REC :: "u8 list" where "TRASH_REC = [2, 116, 114, 97, 115, 104]"

text \<open>A name is the 22-byte field of the structure.\<close>

record icon =
  ic_name :: "u8 list"
  ic_size :: u32
  ic_x :: int
  ic_y :: int
  selected :: bool

text \<open>\<open>layout\<close> is the array as the bytes the file is read into; \<open>beyond\<close> is what the memory holds
  behind it, since the code trusts the record count it computes from the file size.\<close>

record desk =
  icons :: "icon list"
  trash_x :: int
  trash_y :: int
  layout :: "u8 list"
  layout_n :: int
  beyond :: "nat \<Rightarrow> u8"
  scr_w :: int
  scr_h :: int
  trash_dragging :: bool

subsection \<open>The saved layout\<close>

definition REC_SIZE :: nat where "REC_SIZE = 26"
definition LAYOUT_SIZE :: nat where "LAYOUT_SIZE = (FS_DIR_ENTRIES + 1) * REC_SIZE"

definition load_layout :: "'s rd \<Rightarrow> desk \<Rightarrow> 's fsys \<Rightarrow> desk \<times> 's fsys" where
  "load_layout rd d st =
     (let ((sz, out), st1) = fs_read rd LAYOUT_FILE (of_nat LAYOUT_SIZE) st
      in (d\<lparr>layout := out @ drop (length out) (layout d),
            layout_n := (if sz > 0 then sz div int REC_SIZE else 0)\<rparr>, st1))"

definition layout_byte :: "desk \<Rightarrow> nat \<Rightarrow> u8" where
  "layout_byte d i = (if i < length (layout d) then layout d ! i else beyond d i)"

text \<open>\<open>strcmp\<close> with \<open>name\<close> is zero iff the name and its end are there.\<close>

definition rec_named :: "desk \<Rightarrow> u8 list \<Rightarrow> nat \<Rightarrow> bool" where
  "rec_named d name i \<longleftrightarrow> map (\<lambda>k. layout_byte d (REC_SIZE * i + k)) [0..<length name + 1] = name @ [0]"

definition rec_coord :: "desk \<Rightarrow> nat \<Rightarrow> int" where
  "rec_coord d a = sint (ucast (layout_byte d a) OR push_bit 8 (ucast (layout_byte d (a + 1))) :: u16)"

definition layout_find :: "u8 list \<Rightarrow> desk \<Rightarrow> (int \<times> int) option" where
  "layout_find name d =
     (case List.find (rec_named d name) [0..<nat (layout_n d)] of None \<Rightarrow> None
      | Some i \<Rightarrow> Some (rec_coord d (REC_SIZE * i + 22), rec_coord d (REC_SIZE * i + 24)))"

definition int16_bytes :: "int \<Rightarrow> u8 list" where
  "int16_bytes x = [ucast (of_int x :: u16), ucast (drop_bit 8 (of_int x :: u16))]"

definition layout_rec :: "u8 list \<Rightarrow> int \<Rightarrow> int \<Rightarrow> u8 list" where
  "layout_rec name x y = name @ int16_bytes x @ int16_bytes y"

definition saved_layout :: "desk \<Rightarrow> u8 list" where
  "saved_layout d = concat (map (\<lambda>ic. layout_rec (ic_name ic) (ic_x ic) (ic_y ic)) (icons d)) @
     layout_rec (TRASH_REC @ replicate 16 0) (trash_x d) (trash_y d)"

definition save_layout :: "'s wr \<Rightarrow> desk \<Rightarrow> 's fsys \<Rightarrow> desk \<times> 's fsys" where
  "save_layout wr d st =
     (let b = saved_layout d; n = length (icons d) + 1;
          (r, st1) = fs_write wr LAYOUT_FILE b (of_nat n * of_nat REC_SIZE) st
      in (d\<lparr>layout := b @ drop (length b) (layout d), layout_n := int n\<rparr>, st1))"

subsection \<open>Icons\<close>

definition dir_name :: "int \<Rightarrow> 's fsys \<Rightarrow> u8 list option" where
  "dir_name i st = map_option fst (fs_dir_get i st)"

definition trash_file_count :: "'s fsys \<Rightarrow> int" where
  "trash_file_count st =
     fold (\<lambda>i n. case fs_dir_get (int i) st of None \<Rightarrow> n
                 | Some (name, sz) \<Rightarrow> if name ! 0 = TRASH_CH then n + 1 else n) [0..<FS_DIR_ENTRIES] 0"

definition clamp_cell :: "desk \<Rightarrow> int \<times> int \<Rightarrow> int \<times> int" where
  "clamp_cell d p =
     (let x = (if fst p < 0 then 0 else fst p);
          x1 = (if x > scr_w d - ICON_CELL_W then scr_w d - ICON_CELL_W else x);
          y = (if snd p < 0 then 0 else snd p);
          y1 = (if y > scr_h d - TASKBAR_H - 72 then scr_h d - TASKBAR_H - 72 else y)
      in (x1, y1))"

definition cells_meet :: "int \<Rightarrow> int \<Rightarrow> int \<Rightarrow> int \<Rightarrow> bool" where
  "cells_meet cx cy x y \<longleftrightarrow>
     cx < x + ICON_CELL_W \<and> cx + ICON_CELL_W > x \<and> cy < y + ICON_CELL_H \<and> cy + ICON_CELL_H > y"

definition cell_is_free :: "desk \<Rightarrow> int \<Rightarrow> int \<Rightarrow> bool" where
  "cell_is_free d cx cy \<longleftrightarrow>
     \<not> cells_meet cx cy (trash_x d) (trash_y d) \<and>
     list_all (\<lambda>ic. ic_x ic < 0 \<or> \<not> cells_meet cx cy (ic_x ic) (ic_y ic)) (icons d)"

definition grid_rows :: "desk \<Rightarrow> nat" where
  "grid_rows d = (let r = (scr_h d - TASKBAR_H - 2 * ICON_MARGIN) div ICON_CELL_H in nat (if r < 1 then 1 else r))"

definition grid_cols :: "desk \<Rightarrow> nat" where
  "grid_cols d = (let c = (scr_w d - 2 * ICON_MARGIN) div ICON_CELL_W in nat (if c < 1 then 1 else c))"

text \<open>The grid cells in the order of the two loops.\<close>

definition grid_cells :: "desk \<Rightarrow> (int \<times> int) list" where
  "grid_cells d = concat (map (\<lambda>c. map (\<lambda>r. (ICON_MARGIN + int c * ICON_CELL_W, ICON_MARGIN + int r * ICON_CELL_H))
     [0..<grid_rows d]) [0..<grid_cols d])"

definition place_icon :: "nat \<Rightarrow> desk \<Rightarrow> desk" where
  "place_icon i d =
     (let ic = icons d ! i
      in if ic_x ic \<ge> 0 then d
         else let (x, y) = (case List.find (\<lambda>(cx, cy). cell_is_free d cx cy) (grid_cells d) of
                              None \<Rightarrow> (ICON_MARGIN, ICON_MARGIN) | Some p \<Rightarrow> p)
              in d\<lparr>icons := (icons d)[i := ic\<lparr>ic_x := x, ic_y := y\<rparr>]\<rparr>)"

definition place_new_icons :: "desk \<Rightarrow> desk" where
  "place_new_icons d = fold place_icon [0..<length (icons d)] d"

text \<open>One file of the directory: nothing, or its icon, at the place it has, had or should have.\<close>

definition fresh_icon :: "desk \<Rightarrow> 's fsys \<Rightarrow> nat \<Rightarrow> icon list" where
  "fresh_icon d st i =
     (case fs_dir_get (int i) st of None \<Rightarrow> []
      | Some (name, sz) \<Rightarrow>
          if name ! 0 = TRASH_CH \<or> name ! 0 = HIDDEN_CH then []
          else let ic = \<lparr>ic_name = name, ic_size = sz, ic_x = - 1, ic_y = - 1, selected = False\<rparr>;
                   ic1 = (case List.find (\<lambda>ol. cstr (ic_name ol) = cstr name) (icons d) of None \<Rightarrow> ic
                          | Some ol \<Rightarrow> ic\<lparr>selected := selected ol, ic_x := ic_x ol, ic_y := ic_y ol\<rparr>)
               in if ic_x ic1 < 0
                  then (case layout_find (cstr name) d of None \<Rightarrow> [ic1]
                        | Some p \<Rightarrow> (let (x, y) = clamp_cell d p in [ic1\<lparr>ic_x := x, ic_y := y\<rparr>]))
                  else [ic1])"

definition refresh_icons :: "'s rd \<Rightarrow> desk \<Rightarrow> 's fsys \<Rightarrow> desk \<times> 's fsys" where
  "refresh_icons rd d st =
     (let (d1, st1) = load_layout rd d st;
          fresh = concat (map (fresh_icon d1 st1) [0..<FS_DIR_ENTRIES]);
          d2 = d1\<lparr>icons := fresh\<rparr>;
          d3 = (if \<not> trash_dragging d2
                then (case layout_find TRASH_REC d2 of None \<Rightarrow> d2
                      | Some p \<Rightarrow> (let (x, y) = clamp_cell d2 p in d2\<lparr>trash_x := x, trash_y := y\<rparr>))
                else d2)
      in (place_new_icons d3, st1))"

subsection \<open>The trash\<close>

definition trash_name :: "u8 list \<Rightarrow> u8 list" where
  "trash_name name = TRASH_CH # take (FS_MAX_NAME - 1) name"

definition trash_file :: "'s wr \<Rightarrow> u8 list \<Rightarrow> 's fsys \<Rightarrow> 's fsys" where
  "trash_file wr name st = snd (fs_rename wr name (trash_name name) st)"

definition restore_file :: "'s wr \<Rightarrow> u8 list \<Rightarrow> 's fsys \<Rightarrow> 's fsys" where
  "restore_file wr trashed st = snd (fs_rename wr trashed (tl trashed) st)"

definition clear_selection :: "desk \<Rightarrow> desk" where
  "clear_selection d = d\<lparr>icons := map (selected_update (\<lambda>_. False)) (icons d)\<rparr>"

definition icon_hit :: "icon \<Rightarrow> int \<Rightarrow> int \<Rightarrow> bool" where
  "icon_hit ic mx my \<longleftrightarrow>
     mx \<ge> ic_x ic + 10 \<and> mx < ic_x ic + ICON_CELL_W - 10 \<and> my \<ge> ic_y ic \<and> my < ic_y ic + ICON_CELL_H - 16"

definition icon_at :: "int \<Rightarrow> int \<Rightarrow> desk \<Rightarrow> nat option" where
  "icon_at mx my d = List.find (\<lambda>i. icon_hit (icons d ! i) mx my) (rev [0..<length (icons d)])"

definition over_trash :: "int \<Rightarrow> int \<Rightarrow> desk \<Rightarrow> bool" where
  "over_trash mx my d \<longleftrightarrow> mx \<ge> trash_x d \<and> mx < trash_x d + ICON_CELL_W \<and> my \<ge> trash_y d \<and> my < trash_y d + ICON_CELL_H"

text \<open>The rubber band between the anchor \<open>(ax, ay)\<close> and the pointer \<open>(px, py)\<close>.\<close>

definition in_band :: "int \<Rightarrow> int \<Rightarrow> int \<Rightarrow> int \<Rightarrow> icon \<Rightarrow> bool" where
  "in_band ax ay px py ic \<longleftrightarrow>
     (let x0 = (if ax < px then ax else px); y0 = (if ay < py then ay else py);
          x1 = (if ax > px then ax else px); y1 = (if ay > py then ay else py);
          ix0 = ic_x ic + 20; iy0 = ic_y ic + 2; ix1 = ix0 + 56; iy1 = iy0 + 66
      in x0 \<le> ix1 \<and> x1 \<ge> ix0 \<and> y0 \<le> iy1 \<and> y1 \<ge> iy0)"

definition update_band_selection :: "int \<Rightarrow> int \<Rightarrow> int \<Rightarrow> int \<Rightarrow> desk \<Rightarrow> desk" where
  "update_band_selection ax ay px py d =
     d\<lparr>icons := map (\<lambda>ic. ic\<lparr>selected := in_band ax ay px py ic\<rparr>) (icons d)\<rparr>"

subsection \<open>New icons get a cell of their own\<close>

lemma cells_meet_sym: "cells_meet a b x y = cells_meet x y a b"
  by (auto simp: cells_meet_def)

lemma find_SomeD: "List.find P xs = Some x \<Longrightarrow> x \<in> set xs \<and> P x"
  by (auto simp: find_Some_iff)

definition pos_of :: "icon \<Rightarrow> int \<times> int" where
  "pos_of ic = (ic_x ic, ic_y ic)"

definition on_grid :: "int \<times> int \<Rightarrow> bool" where
  "on_grid p \<longleftrightarrow> (\<exists>c r :: nat. p = (ICON_MARGIN + int c * ICON_CELL_W, ICON_MARGIN + int r * ICON_CELL_H))"

lemma grid_cells_on_grid: "p \<in> set (grid_cells d) \<Longrightarrow> on_grid p"
  by (auto simp: grid_cells_def on_grid_def)

text \<open>Two different cells of the grid do not meet.\<close>

lemma grid_apart:
  assumes "on_grid p" "on_grid q" "p \<noteq> q"
  shows "\<not> cells_meet (fst p) (snd p) (fst q) (snd q)"
proof -
  obtain a b where p: "p = (16 + int a * 96, 16 + int b * 92)"
    using assms(1) by (auto simp: on_grid_def ICON_MARGIN_def ICON_CELL_W_def ICON_CELL_H_def)
  obtain c e where q: "q = (16 + int c * 96, 16 + int e * 92)"
    using assms(2) by (auto simp: on_grid_def ICON_MARGIN_def ICON_CELL_W_def ICON_CELL_H_def)
  have "int a \<noteq> int c \<or> int b \<noteq> int e" using assms(3) p q by auto
  then show ?thesis
    unfolding cells_meet_def p q ICON_CELL_W_def ICON_CELL_H_def by simp linarith
qed

text \<open>One icon: placed already, on a free cell, or on the packed desktop's first cell.\<close>

definition corner :: "int \<times> int" where "corner = (ICON_MARGIN, ICON_MARGIN)"

definition apart_from :: "int \<times> int \<Rightarrow> icon \<Rightarrow> bool" where
  "apart_from p ic \<longleftrightarrow> \<not> cells_meet (fst p) (snd p) (ic_x ic) (ic_y ic)"

lemma place_icon_cases:
  assumes "i < length (icons d)" "ic_x (icons d ! i) < 0"
  shows "\<exists>p. place_icon i d = d\<lparr>icons := (icons d)[i := (icons d ! i)\<lparr>ic_x := fst p, ic_y := snd p\<rparr>]\<rparr> \<and> on_grid p \<and>
    (p = corner \<or> p \<in> set (grid_cells d) \<and> cell_is_free d (fst p) (snd p))"
proof (cases "List.find (\<lambda>(cx, cy). cell_is_free d cx cy) (grid_cells d)")
  case None
  then show ?thesis using assms
    by (intro exI [of _ corner]) (auto simp: place_icon_def corner_def on_grid_def intro: exI [of _ 0])
next
  case (Some p)
  then have "p \<in> set (grid_cells d)" "cell_is_free d (fst p) (snd p)" by (auto dest: find_SomeD)
  then show ?thesis using assms Some grid_cells_on_grid
    by (intro exI [of _ p]) (auto simp: place_icon_def split: prod.splits)
qed

lemma place_icon_placed: "0 \<le> ic_x (icons d ! i) \<Longrightarrow> place_icon i d = d"
  by (simp add: place_icon_def)

text \<open>The state of the loop: \<open>d0\<close> at its start, \<open>d\<close> after the icons below \<open>k\<close>.\<close>

definition placed_upto :: "nat \<Rightarrow> desk \<Rightarrow> desk \<Rightarrow> bool" where
  "placed_upto k d0 d \<longleftrightarrow>
     (\<exists>is. d = d0\<lparr>icons := is\<rparr>) \<and> length (icons d) = length (icons d0) \<and>
     (\<forall>j < length (icons d0). 0 \<le> ic_x (icons d0 ! j) \<or> k \<le> j \<longrightarrow> icons d ! j = icons d0 ! j) \<and>
     (\<forall>i < k. i < length (icons d0) \<and> ic_x (icons d0 ! i) < 0 \<longrightarrow>
        ic_name (icons d ! i) = ic_name (icons d0 ! i) \<and> on_grid (pos_of (icons d ! i)) \<and>
        (pos_of (icons d ! i) = corner \<or>
         pos_of (icons d ! i) \<in> set (grid_cells d0) \<and> apart_from (trash_x d0, trash_y d0) (icons d ! i) \<and>
         (\<forall>j < length (icons d0). j \<noteq> i \<and> (j < k \<or> 0 \<le> ic_x (icons d0 ! j)) \<longrightarrow>
            apart_from (pos_of (icons d ! i)) (icons d ! j))))"

lemma placed_upto_0: "placed_upto 0 d d"
  unfolding placed_upto_def by (intro conjI exI [of _ "icons d"]) simp_all

lemma on_grid_nonneg: "on_grid p \<Longrightarrow> 0 \<le> fst p \<and> 0 \<le> snd p"
  by (auto simp: on_grid_def ICON_MARGIN_def ICON_CELL_W_def ICON_CELL_H_def)

lemma on_grid_corner: "on_grid corner"
  by (auto simp: on_grid_def corner_def intro: exI [of _ 0])

lemma placed_step:
  assumes "placed_upto k d0 d" "k < length (icons d0)"
  shows "placed_upto (Suc k) d0 (place_icon k d)"
proof (cases "0 \<le> ic_x (icons d0 ! k)")
  case True
  then have "icons d ! k = icons d0 ! k" using assms by (simp add: placed_upto_def)
  then have "place_icon k d = d" using True by (simp add: place_icon_placed)
  moreover have "placed_upto (Suc k) d0 d"
    using assms True unfolding placed_upto_def by (auto simp: less_Suc_eq)
  ultimately show ?thesis by simp
next
  case False
  obtain "is" where d: "d = d0\<lparr>icons := is\<rparr>" and len: "length (icons d) = length (icons d0)"
    and same: "\<And>j. j < length (icons d0) \<Longrightarrow> 0 \<le> ic_x (icons d0 ! j) \<or> k \<le> j \<Longrightarrow> icons d ! j = icons d0 ! j"
    and dn: "\<And>i. i < k \<Longrightarrow> i < length (icons d0) \<Longrightarrow> ic_x (icons d0 ! i) < 0 \<Longrightarrow>
        ic_name (icons d ! i) = ic_name (icons d0 ! i) \<and> on_grid (pos_of (icons d ! i)) \<and>
        (pos_of (icons d ! i) = corner \<or>
         pos_of (icons d ! i) \<in> set (grid_cells d0) \<and> apart_from (trash_x d0, trash_y d0) (icons d ! i) \<and>
         (\<forall>j < length (icons d0). j \<noteq> i \<and> (j < k \<or> 0 \<le> ic_x (icons d0 ! j)) \<longrightarrow>
            apart_from (pos_of (icons d ! i)) (icons d ! j)))"
    using assms(1) unfolding placed_upto_def by blast
  have k: "icons d ! k = icons d0 ! k" "ic_x (icons d ! k) < 0" "k < length (icons d)"
    using same [of k] assms(2) False len by auto
  obtain p where pl: "place_icon k d = d\<lparr>icons := (icons d)[k := (icons d ! k)\<lparr>ic_x := fst p, ic_y := snd p\<rparr>]\<rparr>"
    and g: "on_grid p" and free: "p = corner \<or> p \<in> set (grid_cells d) \<and> cell_is_free d (fst p) (snd p)"
    using place_icon_cases [OF k(3,2)] by blast
  let ?d = "place_icon k d"
  have pk: "icons ?d ! k = (icons d ! k)\<lparr>ic_x := fst p, ic_y := snd p\<rparr>" "pos_of (icons ?d ! k) = p"
    using pl k(3) by (simp_all add: pos_of_def)
  have other: "j \<noteq> k \<Longrightarrow> icons ?d ! j = icons d ! j" for j using pl by simp
  have gc: "grid_cells d = grid_cells d0" using d by (simp add: grid_cells_def grid_cols_def grid_rows_def)
  have tr: "trash_x d = trash_x d0" "trash_y d = trash_y d0" using d by simp_all
  have nonneg: "0 \<le> ic_x (icons d ! j)" if "j < length (icons d0)" "j < k \<or> 0 \<le> ic_x (icons d0 ! j)" for j
  proof (cases "0 \<le> ic_x (icons d0 ! j)")
    case True
    then show ?thesis using same [OF that(1)] by simp
  next
    case False
    then have "on_grid (pos_of (icons d ! j))" using dn [of j] that by auto
    then show ?thesis using on_grid_nonneg by (fastforce simp: pos_of_def)
  qed
  have free_j: "apart_from p (icons d ! j)"
    if "p \<noteq> corner" "j < length (icons d0)" "j < k \<or> 0 \<le> ic_x (icons d0 ! j)" for j
    using free that(1) nonneg [OF that(2,3)] that(2) len
    by (auto simp: cell_is_free_def apart_from_def list_all_length)
  have new: "p = corner \<or> p \<in> set (grid_cells d0) \<and> apart_from (trash_x d0, trash_y d0) (icons ?d ! k)"
    using free gc tr by (auto simp: cell_is_free_def apart_from_def pk(1) cells_meet_sym [of "trash_x d0"])
  have step: "ic_name (icons ?d ! i) = ic_name (icons d0 ! i) \<and> on_grid (pos_of (icons ?d ! i)) \<and>
        (pos_of (icons ?d ! i) = corner \<or>
         pos_of (icons ?d ! i) \<in> set (grid_cells d0) \<and> apart_from (trash_x d0, trash_y d0) (icons ?d ! i) \<and>
         (\<forall>j < length (icons d0). j \<noteq> i \<and> (j < Suc k \<or> 0 \<le> ic_x (icons d0 ! j)) \<longrightarrow>
            apart_from (pos_of (icons ?d ! i)) (icons ?d ! j)))"
    if i: "i < Suc k" "i < length (icons d0)" "ic_x (icons d0 ! i) < 0" for i
  proof (cases "i = k")
    case True
    have "\<forall>j < length (icons d0). j \<noteq> k \<and> (j < Suc k \<or> 0 \<le> ic_x (icons d0 ! j)) \<longrightarrow> apart_from p (icons ?d ! j)" if "p \<noteq> corner"
      using free_j [OF that] other by (auto simp: less_Suc_eq)
    then show ?thesis using True pk k(1) g new by auto
  next
    case False
    then have ik: "i < k" using i(1) by simp
    note di = dn [OF ik i(2,3)]
    have ak: "apart_from (pos_of (icons d ! i)) (icons ?d ! k)" if nc: "pos_of (icons d ! i) \<noteq> corner"
    proof (cases "p = corner")
      case True
      then have "pos_of (icons d ! i) \<noteq> p" using nc by simp
      with grid_apart [OF _ g this] di show ?thesis by (simp add: apart_from_def pk(1))
    next
      case False
      then show ?thesis using free_j [OF False i(2)] ik by (simp add: apart_from_def pk(1) pos_of_def cells_meet_sym)
    qed
    have "apart_from (pos_of (icons d ! i)) (icons ?d ! j)"
      if "pos_of (icons d ! i) \<noteq> corner" "j < length (icons d0)" "j \<noteq> i" "j < Suc k \<or> 0 \<le> ic_x (icons d0 ! j)" for j
      using ak that di other [of j] by (cases "j = k") auto
    then show ?thesis using di other [OF False] by auto
  qed
  have "icons ?d ! j = icons d0 ! j" if "j < length (icons d0)" "0 \<le> ic_x (icons d0 ! j) \<or> Suc k \<le> j" for j
    using same [OF that(1)] that(2) False other [of j] by (cases "j = k") auto
  moreover have "\<exists>is. ?d = d0\<lparr>icons := is\<rparr>"
    using pl d by (intro exI [of _ "icons ?d"]) simp
  moreover have "length (icons ?d) = length (icons d0)" using pl len by simp
  ultimately show ?thesis using step unfolding placed_upto_def by blast
qed

lemma place_new_icons_upto: "placed_upto (length (icons d)) d (place_new_icons d)"
proof -
  have "k \<le> length (icons d) \<Longrightarrow> placed_upto k d (fold place_icon [0..<k] d)" for k
  proof (induction k)
    case (Suc k)
    then show ?case using placed_step [of k d "fold place_icon [0..<k] d"] by simp
  qed (simp add: placed_upto_0)
  then show ?thesis by (simp add: place_new_icons_def)
qed

subsection \<open>Everything stays on the desktop\<close>

definition large_screen :: "desk \<Rightarrow> bool" where
  "large_screen d \<longleftrightarrow> 112 \<le> scr_w d \<and> 124 \<le> scr_h d"

definition in_desk :: "desk \<Rightarrow> int \<times> int \<Rightarrow> bool" where
  "in_desk d p \<longleftrightarrow> 0 \<le> fst p \<and> fst p \<le> scr_w d - ICON_CELL_W \<and> 0 \<le> snd p \<and> snd p \<le> scr_h d - TASKBAR_H - 72"

lemma clamp_in_desk: "large_screen d \<Longrightarrow> in_desk d (clamp_cell d p)"
  by (auto simp: large_screen_def in_desk_def clamp_cell_def ICON_CELL_W_def TASKBAR_H_def Let_def)

lemma clamp_inside: "in_desk d p \<Longrightarrow> clamp_cell d p = p"
  by (auto simp: in_desk_def clamp_cell_def Let_def prod_eq_iff)

lemma corner_in_desk: "large_screen d \<Longrightarrow> in_desk d corner"
  by (simp add: large_screen_def in_desk_def corner_def ICON_MARGIN_def ICON_CELL_W_def TASKBAR_H_def)

lemma grid_span:
  assumes "int i < (if n div s < 1 then 1 else n div s)" "0 < s" "s \<le> n"
  shows "int i * s \<le> n - s"
proof -
  have "1 \<le> n div s" using assms(2,3) by (simp add: pos_imp_zdiv_pos_iff zdiv_mono1 int_one_le_iff_zero_less)
  then have "int i + 1 \<le> n div s" using assms(1) by auto
  then have "(int i + 1) * s \<le> n div s * s" using assms(2) by (intro mult_right_mono) auto
  also have "\<dots> \<le> n" using assms(2) by (simp add: algebra_simps minus_mod_eq_mult_div [symmetric])
  finally show ?thesis by (simp add: algebra_simps)
qed

lemma grid_cells_in_desk:
  assumes "large_screen d" "p \<in> set (grid_cells d)"
  shows "in_desk d p"
proof -
  obtain c r where p: "p = (16 + int c * 96, 16 + int r * 92)" "c < grid_cols d" "r < grid_rows d"
    using assms(2) by (auto simp: grid_cells_def ICON_MARGIN_def ICON_CELL_W_def ICON_CELL_H_def)
  have "int c * 96 \<le> scr_w d - 112"
  proof (cases "96 \<le> scr_w d - 32")
    case True
    have "int c < (if (scr_w d - 32) div 96 < 1 then 1 else (scr_w d - 32) div 96)"
      using p(2) by (auto simp: grid_cols_def ICON_MARGIN_def ICON_CELL_W_def Let_def split: if_splits)
    from grid_span [OF this _ True] show ?thesis by simp
  next
    case False
    then have "(scr_w d - 32) div 96 < 1" by simp
    then have "c = 0" using p(2) by (auto simp: grid_cols_def ICON_MARGIN_def ICON_CELL_W_def Let_def)
    then show ?thesis using assms(1) by (simp add: large_screen_def)
  qed
  moreover have "int r * 92 \<le> scr_h d - 124"
  proof (cases "92 \<le> scr_h d - 68")
    case True
    have "int r < (if (scr_h d - 68) div 92 < 1 then 1 else (scr_h d - 68) div 92)"
      using p(3) by (auto simp: grid_rows_def ICON_MARGIN_def ICON_CELL_H_def TASKBAR_H_def Let_def split: if_splits)
    from grid_span [OF this _ True] show ?thesis by simp
  next
    case False
    then have "(scr_h d - 68) div 92 < 1" by simp
    then have "r = 0" using p(3) by (auto simp: grid_rows_def ICON_MARGIN_def ICON_CELL_H_def TASKBAR_H_def Let_def)
    then show ?thesis using assms(1) by (simp add: large_screen_def)
  qed
  ultimately show ?thesis by (simp add: p(1) in_desk_def ICON_CELL_W_def TASKBAR_H_def)
qed

text \<open>What the desktop shows: the files of the directory that are neither in the trash nor hidden.\<close>

definition desktop_file :: "'s fsys \<Rightarrow> nat \<Rightarrow> u8 list option" where
  "desktop_file st i =
     (case fs_dir_get (int i) st of None \<Rightarrow> None
      | Some (name, sz) \<Rightarrow> if name ! 0 = TRASH_CH \<or> name ! 0 = HIDDEN_CH then None else Some name)"

definition on_desktop :: "desk \<Rightarrow> bool" where
  "on_desktop d \<longleftrightarrow> large_screen d \<and> (\<forall>ic \<in> set (icons d). in_desk d (pos_of ic))"

text \<open>A fresh icon of a file is unplaced or in the desktop.\<close>

lemma fresh_icon_name: "map ic_name (fresh_icon d st i) = (case desktop_file st i of None \<Rightarrow> [] | Some name \<Rightarrow> [name])"
  by (auto simp: fresh_icon_def desktop_file_def Let_def split: option.splits prod.splits)

lemma fresh_icon_placed:
  assumes "on_desktop d" "ic \<in> set (fresh_icon d st i)" "0 \<le> ic_x ic"
  shows "in_desk d (pos_of ic)"
proof -
  obtain name sz where f: "fs_dir_get (int i) st = Some (name, sz)" "\<not> (name ! 0 = TRASH_CH \<or> name ! 0 = HIDDEN_CH)"
    using assms(2) by (cases "fs_dir_get (int i) st") (auto simp: fresh_icon_def split: if_splits)
  define ic0 where "ic0 = \<lparr>ic_name = name, ic_size = sz, ic_x = - 1, ic_y = - 1, selected = False\<rparr>"
  define ic1 where "ic1 = (case List.find (\<lambda>ol. cstr (ic_name ol) = cstr name) (icons d) of None \<Rightarrow> ic0
     | Some ol \<Rightarrow> ic0\<lparr>selected := selected ol, ic_x := ic_x ol, ic_y := ic_y ol\<rparr>)"
  have e: "fresh_icon d st i = (if ic_x ic1 < 0
      then (case layout_find (cstr name) d of None \<Rightarrow> [ic1]
            | Some p \<Rightarrow> (let (x, y) = clamp_cell d p in [ic1\<lparr>ic_x := x, ic_y := y\<rparr>])) else [ic1])"
    unfolding fresh_icon_def f(1) option.case case_prod_conv if_not_P [OF f(2)] Let_def ic1_def ic0_def ..
  have "in_desk d (pos_of ic1)" if "0 \<le> ic_x ic1"
  proof (cases "List.find (\<lambda>ol. cstr (ic_name ol) = cstr name) (icons d)")
    case None
    then show ?thesis using that by (simp add: ic1_def ic0_def)
  next
    case (Some ol)
    then have "ol \<in> set (icons d)" by (auto dest: find_SomeD)
    then show ?thesis using Some assms(1) by (simp add: ic1_def on_desktop_def pos_of_def)
  qed
  moreover have "in_desk d (clamp_cell d q)" for q using assms(1) by (simp add: on_desktop_def clamp_in_desk)
  ultimately show ?thesis
    using assms(2,3) by (auto simp: e pos_of_def Let_def split: if_splits option.splits prod.splits)
qed

lemma refresh_icons_shows:
  assumes "on_desktop d" "refresh_icons rd d st = (d', st')"
  shows "map ic_name (icons d') = List.map_filter (desktop_file st') [0..<FS_DIR_ENTRIES] \<and> on_desktop d'"
proof -
  obtain d1 st1 where l: "load_layout rd d st = (d1, st1)" by (rule prod.exhaust)
  define fresh where "fresh = concat (map (fresh_icon d1 st1) [0..<FS_DIR_ENTRIES])"
  define d2 where "d2 = d1\<lparr>icons := fresh\<rparr>"
  define d3 where "d3 = (if \<not> trash_dragging d2
                then (case layout_find TRASH_REC d2 of None \<Rightarrow> d2
                      | Some p \<Rightarrow> (let (x, y) = clamp_cell d2 p in d2\<lparr>trash_x := x, trash_y := y\<rparr>))
                else d2)"
  have "refresh_icons rd d st = (place_new_icons d3, st1)"
    unfolding refresh_icons_def l Let_def case_prod_conv fresh_def d2_def d3_def ..
  then have r: "d' = place_new_icons d3" "st' = st1" using assms(2) by simp_all
  have d1: "icons d1 = icons d" "scr_w d1 = scr_w d" "scr_h d1 = scr_h d"
    using l by (auto simp: load_layout_def split: prod.splits)
  have d3: "icons d3 = fresh" "scr_w d3 = scr_w d" "scr_h d3 = scr_h d"
    using d1 by (auto simp: d3_def d2_def split: option.splits prod.splits)
  have od1: "on_desktop d1" using assms(1) d1 by (simp add: on_desktop_def large_screen_def in_desk_def)
  have ls: "large_screen d3" using assms(1) d3 by (simp add: on_desktop_def large_screen_def)
  have pf: "0 \<le> ic_x ic \<Longrightarrow> in_desk d3 (pos_of ic)" if "ic \<in> set fresh" for ic
    using that fresh_icon_placed [OF od1] d1 d3 by (auto simp: fresh_def in_desk_def)
  have up: "placed_upto (length fresh) d3 d'" using place_new_icons_upto [of d3] r d3 by simp
  have ic: "ic_name (icons d' ! i) = ic_name (fresh ! i) \<and> in_desk d' (pos_of (icons d' ! i))" if i: "i < length fresh" for i
  proof -
    have s: "scr_w d' = scr_w d3" "scr_h d' = scr_h d3" using up by (auto simp: placed_upto_def)
    have "in_desk d3 (pos_of (icons d' ! i)) \<and> ic_name (icons d' ! i) = ic_name (fresh ! i)"
    proof (cases "0 \<le> ic_x (fresh ! i)")
      case True
      then have "icons d' ! i = fresh ! i" using up i d3 by (auto simp: placed_upto_def)
      then show ?thesis using pf [of "fresh ! i"] True i by simp
    next
      case False
      then have "ic_name (icons d' ! i) = ic_name (fresh ! i)"
        "pos_of (icons d' ! i) = corner \<or> pos_of (icons d' ! i) \<in> set (grid_cells d3)"
        using up i d3 unfolding placed_upto_def by auto
      then show ?thesis using corner_in_desk [OF ls] grid_cells_in_desk [OF ls] by metis
    qed
    then show ?thesis using s by (simp add: in_desk_def)
  qed
  have len: "length (icons d') = length fresh" using up d3 by (simp add: placed_upto_def)
  have "map ic_name (icons d') = map ic_name fresh" using ic len by (intro nth_equalityI) simp_all
  also have "\<dots> = concat (map (\<lambda>i. case desktop_file st' i of None \<Rightarrow> [] | Some name \<Rightarrow> [name]) [0..<FS_DIR_ENTRIES])"
    by (simp add: fresh_def map_concat comp_def fresh_icon_name r)
  also have "\<dots> = List.map_filter (desktop_file st') [0..<FS_DIR_ENTRIES]"
  proof -
    have "concat (map (\<lambda>i. case desktop_file st' i of None \<Rightarrow> [] | Some name \<Rightarrow> [name]) js) = List.map_filter (desktop_file st') js" for js
      by (induction js) (auto simp: map_filter_simps split: option.splits)
    then show ?thesis .
  qed
  finally have n: "map ic_name (icons d') = List.map_filter (desktop_file st') [0..<FS_DIR_ENTRIES]" .
  have "large_screen d'" using ls up by (auto simp: large_screen_def placed_upto_def)
  moreover have "in_desk d' (pos_of c)" if "c \<in> set (icons d')" for c
    using that ic len by (auto simp: in_set_conv_nth)
  ultimately show ?thesis using n by (simp add: on_desktop_def)
qed

text \<open>C37: after a refresh the desktop shows exactly the files of the directory that are neither in the
  trash nor hidden, in directory order, and every icon lies on the desktop: on the screen and clear of
  the taskbar.\<close>
theorem desktop_refresh_shows_files:
  assumes "on_desktop d" "refresh_icons rd d st = (d', st')"
  shows "map ic_name (icons d') = List.map_filter (desktop_file st') [0..<FS_DIR_ENTRIES] \<and> on_desktop d'"
  by (rule refresh_icons_shows [OF assms])


subsection \<open>The layout survives a restart\<close>

lemma int16_bytes_back:
  assumes "- 32768 \<le> x" "x < 32768"
  shows "sint (ucast (ucast (of_int x :: u16) :: u8) OR push_bit 8 (ucast (ucast (drop_bit 8 (of_int x :: u16)) :: u8)) :: u16) = x"
proof -
  have "ucast (ucast w :: u8) OR push_bit 8 (ucast (ucast (drop_bit 8 w) :: u8)) = w" for w :: u16
    by (rule bit_word_eqI) (auto simp: bit_simps)
  then have "sint (ucast (ucast (of_int x :: u16) :: u8) OR push_bit 8 (ucast (ucast (drop_bit 8 (of_int x :: u16)) :: u8)) :: u16) =
      sint (of_int x :: u16)" by simp
  then show ?thesis using assms by (simp add: sint_sbintrunc' signed_take_bit_int_eq_self)
qed

lemma length_layout_rec: "length name = 22 \<Longrightarrow> length (layout_rec name x y) = 26"
  by (simp add: layout_rec_def int16_bytes_def)

lemma nth_concat_width:
  "\<forall>x \<in> set xs. length x = w \<Longrightarrow> i < length xs \<Longrightarrow> k < w \<Longrightarrow> concat xs ! (w * i + k) = xs ! i ! k"
proof (induction xs arbitrary: i)
  case (Cons x xs)
  then show ?case by (cases i) (auto simp: nth_append add.assoc)
qed simp

lemma length_concat_width: "\<forall>x \<in> set xs. length x = w \<Longrightarrow> length (concat xs) = w * length xs"
  by (induction xs) auto

text \<open>A name field: 22 bytes with an end, and the string in it.\<close>

definition name_field :: "u8 list \<Rightarrow> bool" where
  "name_field f \<longleftrightarrow> length f = 22 \<and> f ! 21 = 0"

lemma field_cstr:
  assumes "name_field f"
  shows "\<exists>r. f = cstr f @ 0 # r"
proof -
  have "f ! 21 \<in> set f" using assms by (intro nth_mem) (simp add: name_field_def)
  then have "0 \<in> set f" using assms by (simp add: name_field_def)
  then have "takeWhile (\<lambda>b. b \<noteq> 0) f \<noteq> f" using set_takeWhileD by fastforce
  then obtain b r where r: "dropWhile (\<lambda>b. b \<noteq> 0) f = b # r"
    by (cases "dropWhile (\<lambda>b. b \<noteq> 0) f") auto
  then have "b = 0" using hd_dropWhile [of "\<lambda>b. b \<noteq> 0" f] by simp
  then have "f = cstr f @ 0 # r" using takeWhile_dropWhile_id [of "\<lambda>b. b \<noteq> 0" f] r by (simp add: cstr_def)
  then show ?thesis ..
qed

lemma length_cstr_field: "name_field f \<Longrightarrow> length (cstr f) \<le> 21"
proof -
  assume f: "name_field f"
  then obtain r where "f = cstr f @ 0 # r" using field_cstr by blast
  then have "length f = length (cstr f) + 1 + length r" by (metis add.assoc length_Cons length_append plus_1_eq_Suc)
  then show ?thesis using f by (simp add: name_field_def)
qed

lemma cstr_prefix_iff:
  assumes "name_field f" "0 \<notin> set nm"
  shows "take (length nm + 1) f = nm @ [0] \<longleftrightarrow> cstr f = nm"
proof
  assume t: "take (length nm + 1) f = nm @ [0]"
  then have "f = nm @ 0 # drop (length nm + 1) f" using append_take_drop_id [of "length nm + 1" f] by simp
  then show "cstr f = nm" using assms(2) cstr_field by metis
next
  assume "cstr f = nm"
  then obtain r where "f = nm @ 0 # r" using field_cstr [OF assms(1)] by auto
  then show "take (length nm + 1) f = nm @ [0]" by simp
qed

definition saved_recs :: "desk \<Rightarrow> (u8 list \<times> int \<times> int) list" where
  "saved_recs d = map (\<lambda>ic. (ic_name ic, ic_x ic, ic_y ic)) (icons d) @ [(TRASH_REC @ replicate 16 0, trash_x d, trash_y d)]"

lemma saved_layout_recs: "saved_layout d = concat (map (\<lambda>(n, x, y). layout_rec n x y) (saved_recs d))"
  by (simp add: saved_layout_def saved_recs_def comp_def)

definition int16 :: "int \<Rightarrow> bool" where
  "int16 x \<longleftrightarrow> - 32768 \<le> x \<and> x < 32768"

lemma layout_find_rec:
  assumes "\<forall>(n, x, y) \<in> set rs. name_field n \<and> int16 x \<and> int16 y" "distinct (map (cstr \<circ> fst) rs)"
    and "layout d = concat (map (\<lambda>(n, x, y). layout_rec n x y) rs) @ rest" "layout_n d = int (length rs)"
    and i: "i < length rs" "rs ! i = (n, x, y)"
  shows "layout_find (cstr n) d = Some (x, y)"
proof -
  have w: "\<forall>r \<in> set (map (\<lambda>(n, x, y). layout_rec n x y) rs). length r = 26"
    using assms(1) by (auto simp: length_layout_rec name_field_def)
  have b: "layout_byte d (26 * j + k) = (case rs ! j of (n, x, y) \<Rightarrow> layout_rec n x y) ! k" if "j < length rs" "k < 26" for j k
  proof -
    have "26 * j + k < 26 * length rs" using that by linarith
    then have "26 * j + k < length (concat (map (\<lambda>(n, x, y). layout_rec n x y) rs))"
      using length_concat_width [OF w] by simp
    then show ?thesis
      using nth_concat_width [OF w, of j k] that by (simp add: layout_byte_def assms(3) nth_append)
  qed
  have nf: "name_field (fst (rs ! j))" if "j < length rs" for j
    using assms(1) that nth_mem [OF that] by (cases "rs ! j") fastforce
  have named: "rec_named d nm j \<longleftrightarrow> cstr (fst (rs ! j)) = nm" if "j < length rs" "0 \<notin> set nm" "length nm \<le> 21" for nm j
  proof -
    obtain n' x' y' where r: "rs ! j = (n', x', y')" by (cases "rs ! j") auto
    have l: "length n' = 22" using nf [OF that(1)] r by (simp add: name_field_def)
    have "map (\<lambda>k. layout_byte d (26 * j + k)) [0..<length nm + 1] = take (length nm + 1) n'"
    proof (rule nth_equalityI)
      fix k assume "k < length (map (\<lambda>k. layout_byte d (26 * j + k)) [0..<length nm + 1])"
      then have k: "k < length nm + 1" by simp
      then have "k < 22" "k < 26" using that(3) by simp_all
      then show "map (\<lambda>k. layout_byte d (26 * j + k)) [0..<length nm + 1] ! k = take (length nm + 1) n' ! k"
        using b [OF that(1) \<open>k < 26\<close>] k r l by (simp add: layout_rec_def nth_append del: upt_Suc)
    qed (use that(3) l in simp)
    then show ?thesis
      using cstr_prefix_iff [OF nf [OF that(1)] that(2)] r by (simp add: rec_named_def REC_SIZE_def)
  qed
  have cn: "0 \<notin> set (cstr n)" "length (cstr n) \<le> 21"
    using length_cstr_field nf [OF i(1)] i(2) cstr_no_zero by simp_all
  have uniq: "j = i" if "j < length rs" "cstr (fst (rs ! j)) = cstr n" for j
    using assms(2) i that nth_eq_iff_index_eq [of "map (cstr \<circ> fst) rs" j i] by simp
  have "List.find (rec_named d (cstr n)) [0..<length rs] = Some i"
    unfolding find_Some_iff
  proof (intro exI [of _ i] conjI allI impI)
    show "rec_named d (cstr n) ([0..<length rs] ! i)" using named [OF i(1) cn] i by simp
  next
    fix j assume j: "j < i"
    then have "j < length rs" using i(1) by simp
    then show "\<not> rec_named d (cstr n) ([0..<length rs] ! j)" using named [OF _ cn, of j] uniq [of j] j by auto
  qed (use i in simp_all)
  moreover have "rec_coord d (26 * i + 22) = x \<and> rec_coord d (26 * i + 24) = y"
  proof -
    have l: "length n = 22" "int16 x" "int16 y"
      using nf [OF i(1)] i assms(1) nth_mem [OF i(1)] by (auto simp: name_field_def)
    have k: "layout_byte d (26 * i + 22) = layout_rec n x y ! 22" "layout_byte d (26 * i + 23) = layout_rec n x y ! 23"
      "layout_byte d (26 * i + 24) = layout_rec n x y ! 24" "layout_byte d (26 * i + 25) = layout_rec n x y ! 25"
      using b [OF i(1), of 22] b [OF i(1), of 23] b [OF i(1), of 24] b [OF i(1), of 25] i(2) by simp_all
    have e: "26 * i + 22 + 1 = 26 * i + 23" "26 * i + 24 + 1 = 26 * i + 25" by simp_all
    show ?thesis
      unfolding rec_coord_def e k using l
      by (simp add: layout_rec_def nth_append int16_bytes_def int16_bytes_back int16_def)
  qed
  ultimately show ?thesis by (simp add: layout_find_def assms(4) REC_SIZE_def)
qed

text \<open>The file system underneath, over any conforming drive.\<close>

lemma drive_write:
  assumes "drives bus \<alpha>" "on_drive \<alpha> st" "fs_inv st" "valid_name name" "has_slot st name"
    and "length data = unat len" "blocks_for (unat len) \<le> room_for st name"
  shows "\<exists>st'. fs_write (disk_wr bus) name data len st = (0, st') \<and> on_drive \<alpha> st' \<and> fs_inv st' \<and>
    (\<forall>n. 0 \<notin> set n \<longrightarrow> files \<alpha> st' n = (if n = name then Some data else files \<alpha> st n))"
  unfolding stack_defs
  by (rule sector_disk.fs_write_ok [OF ata_is_sector_disk [OF assms(1)] assms(2) [unfolded stack_defs] assms(3-7)])

lemma drive_read:
  assumes "drives bus \<alpha>" "on_drive \<alpha> st" "fs_inv st" "0 \<notin> set name" "files \<alpha> st name = Some bs"
  shows "\<exists>st'. fs_read (disk_rd bus) name maxlen st =
      ((sint (of_nat (length bs) :: u32), take (unat maxlen) bs), st') \<and>
    on_drive \<alpha> st' \<and> fs_inv st' \<and> files \<alpha> st' = files \<alpha> st \<and> length bs < 4294967296"
  unfolding stack_defs
  by (rule sector_disk.fs_read_ok [OF ata_is_sector_disk [OF assms(1)] assms(2) [unfolded stack_defs]
      assms(3,4) assms(5) [unfolded stack_defs]])

lemma drive_rename:
  assumes "drives bus \<alpha>" "on_drive \<alpha> st" "fs_inv st" "0 \<notin> set old" "valid_name new"
    and "find_entry st old = Some i" "find_entry st new = None"
  shows "\<exists>st'. fs_rename (disk_wr bus) old new st = (0, st') \<and> on_drive \<alpha> st' \<and> fs_inv st' \<and>
    (\<forall>n. 0 \<notin> set n \<longrightarrow> files \<alpha> st' n =
       (if n = new then files \<alpha> st old else if n = old then None else files \<alpha> st n))"
  unfolding stack_defs
  by (rule sector_disk.fs_rename_ok [OF ata_is_sector_disk [OF assms(1)] assms(2) [unfolded stack_defs] assms(3-7)])

lemma sint_of_nat_small:
  assumes "n < 2147483648"
  shows "sint (of_nat n :: u32) = int n"
proof -
  have "sint (word_of_int (int n) :: u32) = signed_take_bit 31 (int n)" by (simp only: sint_sbintrunc') simp
  also have "\<dots> = int n" using assms by (intro signed_take_bit_int_eq_self) simp_all
  finally show ?thesis by simp
qed

lemma layout_file_name: "valid_name LAYOUT_FILE" "0 \<notin> set LAYOUT_FILE"
  by (simp_all add: valid_name_def LAYOUT_FILE_def FS_MAX_NAME_def)

lemma trash_rec_field: "name_field (TRASH_REC @ replicate 16 0)" "cstr (TRASH_REC @ replicate 16 0) = TRASH_REC"
  by (simp_all add: name_field_def TRASH_REC_def cstr_def nth_append)

definition saveable :: "desk \<Rightarrow> bool" where
  "saveable d \<longleftrightarrow> length (icons d) \<le> FS_DIR_ENTRIES \<and> int16 (trash_x d) \<and> int16 (trash_y d) \<and>
     (\<forall>ic \<in> set (icons d). name_field (ic_name ic) \<and> cstr (ic_name ic) \<noteq> TRASH_REC \<and> int16 (ic_x ic) \<and> int16 (ic_y ic)) \<and>
     distinct (map (cstr \<circ> ic_name) (icons d))"

lemma saveable_recs:
  assumes "saveable d"
  shows "\<forall>(n, x, y) \<in> set (saved_recs d). name_field n \<and> int16 x \<and> int16 y"
    "distinct (map (cstr \<circ> fst) (saved_recs d))" "length (saved_layout d) = 26 * (length (icons d) + 1)"
proof -
  show r: "\<forall>(n, x, y) \<in> set (saved_recs d). name_field n \<and> int16 x \<and> int16 y"
    using assms trash_rec_field by (auto simp: saveable_def saved_recs_def)
  have "map (cstr \<circ> fst) (saved_recs d) = map (cstr \<circ> ic_name) (icons d) @ [TRASH_REC]"
    using trash_rec_field by (simp add: saved_recs_def)
  then show "distinct (map (cstr \<circ> fst) (saved_recs d))" using assms by (auto simp: saveable_def)
  have "\<forall>r \<in> set (map (\<lambda>(n, x, y). layout_rec n x y) (saved_recs d)). length r = 26"
    using r by (auto simp: length_layout_rec name_field_def)
  from length_concat_width [OF this] show "length (saved_layout d) = 26 * (length (icons d) + 1)"
    by (simp add: saved_layout_recs saved_recs_def)
qed

text \<open>C39: an arrangement of the desktop survives a restart. After a save that fits on the volume,
  loading the layout with nothing but the volume finds every icon and the trash at exactly the place
  they had.\<close>
theorem desktop_layout_survives:
  assumes "drives bus \<alpha>" "on_drive \<alpha> st" "fs_inv st" "has_slot st LAYOUT_FILE"
    and "saveable d" "blocks_for (26 * (length (icons d) + 1)) \<le> room_for st LAYOUT_FILE"
    and "save_layout (disk_wr bus) d st = (d1, st1)" "load_layout (disk_rd bus) d0 st1 = (d2, st2)"
  shows "(\<forall>ic \<in> set (icons d). layout_find (cstr (ic_name ic)) d2 = Some (pos_of ic)) \<and>
    layout_find TRASH_REC d2 = Some (trash_x d, trash_y d)"
proof -
  let ?n = "length (icons d) + 1" and ?b = "saved_layout d"
  note r = saveable_recs [OF assms(5)]
  have n: "?n \<le> 65" using assms(5) by (simp add: saveable_def FS_DIR_ENTRIES_def)
  have "(of_nat ?n * of_nat REC_SIZE :: u32) = of_nat (26 * ?n)" by (simp add: REC_SIZE_def)
  moreover have u: "unat (of_nat (26 * ?n) :: u32) = 26 * ?n" using n by (intro unat_of_nat32) simp
  ultimately have len: "length ?b = unat (of_nat ?n * of_nat REC_SIZE :: u32)" "unat (of_nat ?n * of_nat REC_SIZE :: u32) = 26 * ?n"
    using r(3) by simp_all
  obtain st1' where w: "fs_write (disk_wr bus) LAYOUT_FILE ?b (of_nat ?n * of_nat REC_SIZE) st = (0, st1')"
    "on_drive \<alpha> st1'" "fs_inv st1'" "\<forall>m. 0 \<notin> set m \<longrightarrow> files \<alpha> st1' m = (if m = LAYOUT_FILE then Some ?b else files \<alpha> st m)"
    using drive_write [OF assms(1-3) layout_file_name(1) assms(4) len(1)] assms(6) len(2) by auto
  have s1: "st1 = st1'" using assms(7) w(1) by (simp add: save_layout_def Let_def)
  have f: "files \<alpha> st1 LAYOUT_FILE = Some ?b" using w(4) layout_file_name(2) s1 by simp
  have m: "unat (of_nat LAYOUT_SIZE :: u32) = 1690" by (simp add: LAYOUT_SIZE_def FS_DIR_ENTRIES_def REC_SIZE_def)
  obtain st3 where rd: "fs_read (disk_rd bus) LAYOUT_FILE (of_nat LAYOUT_SIZE) st1 =
      ((sint (of_nat (length ?b) :: u32), take 1690 ?b), st3)"
    using drive_read [OF assms(1) w(2,3) [folded s1] layout_file_name(2) f, of "of_nat LAYOUT_SIZE"] m by auto
  have "length ?b \<le> 1690" using r(3) n by simp
  then have tk: "take 1690 ?b = ?b" "sint (of_nat (length ?b) :: u32) = int (length ?b)"
    using sint_of_nat_small [of "length ?b"] by simp_all
  have d2: "layout d2 = ?b @ drop (length ?b) (layout d0)" "layout_n d2 = int (length (saved_recs d))"
  proof -
    have "load_layout (disk_rd bus) d0 st1 = (d0\<lparr>layout := ?b @ drop (length ?b) (layout d0),
        layout_n := (if int (length ?b) > 0 then int (length ?b) div int REC_SIZE else 0)\<rparr>, st3)"
      unfolding load_layout_def rd tk Let_def case_prod_conv ..
    then have "d2 = d0\<lparr>layout := ?b @ drop (length ?b) (layout d0),
        layout_n := (if int (length ?b) > 0 then int (length ?b) div int REC_SIZE else 0)\<rparr>"
      using assms(8) by (simp only: prod.inject)
    moreover have "int (length ?b) div int REC_SIZE = int (length (saved_recs d))"
      unfolding r(3) by (simp add: REC_SIZE_def saved_recs_def)
    moreover have "int (length ?b) > 0" unfolding r(3) by simp
    ultimately show "layout d2 = ?b @ drop (length ?b) (layout d0)" "layout_n d2 = int (length (saved_recs d))"
      by simp_all
  qed
  have find: "layout_find (cstr nm) d2 = Some (x, y)" if "i < length (saved_recs d)" "saved_recs d ! i = (nm, x, y)" for i nm x y
    using layout_find_rec [OF r(1,2) d2(1) [unfolded saved_layout_recs] d2(2) that] .
  have "layout_find (cstr (ic_name ic)) d2 = Some (pos_of ic)" if ic: "ic \<in> set (icons d)" for ic
  proof -
    obtain i where i: "i < length (icons d)" "icons d ! i = ic" using ic by (auto simp: in_set_conv_nth)
    then show ?thesis using find [of i] by (simp add: saved_recs_def nth_append pos_of_def)
  qed
  moreover have "layout_find TRASH_REC d2 = Some (trash_x d, trash_y d)"
    using find [of "length (icons d)"] trash_rec_field by (simp add: saved_recs_def nth_append)
  ultimately show ?thesis by blast
qed

subsection \<open>The trash gives back what it got\<close>

lemma files_none_iff: "files \<alpha> st n = None \<longleftrightarrow> find_entry st n = None"
  by (simp add: files_def contents_def)

text \<open>C40: putting a file into the trash takes it off its name without losing a byte, and restoring it
  makes the volume hold exactly the files it held before, for every name that leaves room for the
  prefix.\<close>
theorem desktop_trash_restores:
  assumes "drives bus \<alpha>" "on_drive \<alpha> st" "fs_inv st"
    and "0 \<notin> set name" "name \<noteq> []" "length name \<le> 20" "find_entry st name = Some i"
    and "find_entry st (trash_name name) = None"
  shows "let st1 = trash_file (disk_wr bus) name st; st2 = restore_file (disk_wr bus) (trash_name name) st1
    in files \<alpha> st1 name = None \<and> files \<alpha> st1 (trash_name name) = files \<alpha> st name \<and>
       fs_inv st2 \<and> on_drive \<alpha> st2 \<and> (\<forall>n. 0 \<notin> set n \<longrightarrow> files \<alpha> st2 n = files \<alpha> st n)"
proof -
  let ?t = "trash_name name"
  have t: "?t = 1 # name" using assms(6) by (simp add: trash_name_def TRASH_CH_def FS_MAX_NAME_def)
  then have v: "valid_name ?t" "0 \<notin> set ?t" "valid_name name" "name \<noteq> ?t" "tl ?t = name"
    using assms(4-6) by (auto simp: valid_name_def FS_MAX_NAME_def)
  obtain st1 where s1: "fs_rename (disk_wr bus) name ?t st = (0, st1)" "on_drive \<alpha> st1" "fs_inv st1"
    and f1: "\<forall>n. 0 \<notin> set n \<longrightarrow> files \<alpha> st1 n = (if n = ?t then files \<alpha> st name else if n = name then None else files \<alpha> st n)"
    using drive_rename [OF assms(1-4) v(1) assms(7,8)] by blast
  have e: "files \<alpha> st1 name = None" "files \<alpha> st1 ?t = files \<alpha> st name"
    using f1 assms(4) v(2,4) by auto
  moreover have "files \<alpha> st name \<noteq> None" using assms(7) by (simp add: files_none_iff)
  ultimately have "find_entry st1 name = None" "find_entry st1 ?t \<noteq> None"
    by (simp_all only: files_none_iff [of \<alpha> st1, symmetric] e not_False_eq_True)
  then obtain j where "find_entry st1 ?t = Some j" "find_entry st1 name = None" by blast
  from drive_rename [OF assms(1) s1(2,3) v(2,3) this] obtain st2 where
    s2: "fs_rename (disk_wr bus) ?t name st1 = (0, st2)" "on_drive \<alpha> st2" "fs_inv st2"
    and f2: "\<forall>n. 0 \<notin> set n \<longrightarrow> files \<alpha> st2 n = (if n = name then files \<alpha> st1 ?t else if n = ?t then None else files \<alpha> st1 n)"
    by blast
  have tn: "files \<alpha> st ?t = None" using assms(8) by (simp add: files_none_iff)
  have "files \<alpha> st2 n = files \<alpha> st n" if n: "0 \<notin> set n" for n
  proof -
    consider "n = name" | "n = ?t" "n \<noteq> name" | "n \<noteq> name" "n \<noteq> ?t" by blast
    then show ?thesis
    proof cases
      case 1
      then show ?thesis using f2 e n by simp
    next
      case 2
      then show ?thesis using f2 tn n by simp
    next
      case 3
      then show ?thesis using f1 f2 n by simp
    qed
  qed
  then show ?thesis
    using s1 s2 e v(5) by (simp add: trash_file_def restore_file_def)
qed

text \<open>A name of 21 characters does not leave that room: it comes back without its last one.\<close>

lemma trash_truncates: "length name = 21 \<Longrightarrow> tl (trash_name name) = butlast name"
  by (simp add: trash_name_def FS_MAX_NAME_def butlast_conv_take)

subsection \<open>Examples\<close>

definition icon_named :: "u8 \<Rightarrow> int \<Rightarrow> int \<Rightarrow> icon" where
  "icon_named c x y = \<lparr>ic_name = c # replicate 21 0, ic_size = 0, ic_x = x, ic_y = y, selected = False\<rparr>"

definition small_desk :: desk where
  "small_desk = \<lparr>icons = [icon_named 97 40 50, icon_named 98 (- 1) (- 1)], trash_x = 912, trash_y = 600,
     layout = replicate 1690 0, layout_n = 0, beyond = (\<lambda>_. 0), scr_w = 1024, scr_h = 768, trash_dragging = False\<rparr>"

definition one_desk :: desk where
  "one_desk = small_desk\<lparr>icons := [icon_named 97 40 50]\<rparr>"

lemma desktop_refresh_shows_files_witness:
  "\<exists>d' st'. refresh_icons (disk_rd drive_bus) one_desk small_fs = (d', st') \<and> on_desktop d' \<and>
     map ic_name (icons d') = List.map_filter (desktop_file st') [0..<FS_DIR_ENTRIES]"
proof -
  obtain d' st' where r: "refresh_icons (disk_rd drive_bus) one_desk small_fs = (d', st')" by (rule prod.exhaust)
  have "on_desktop one_desk"
    by (simp add: on_desktop_def one_desk_def small_desk_def icon_named_def large_screen_def in_desk_def pos_of_def
        ICON_CELL_W_def TASKBAR_H_def)
  from desktop_refresh_shows_files [OF this r] r show ?thesis by blast
qed


lemma layout_slot: "has_slot small_fs LAYOUT_FILE" "1 \<le> room_for small_fs LAYOUT_FILE"
proof -
  show "has_slot small_fs LAYOUT_FILE" unfolding has_slot_def small_fs_entries by (intro disjI2 exI [of _ 1]) simp
  have "{2, 3} \<subseteq> free_in small_fs" by (simp add: free_in_def free_blocks_def small_fs_def nblocks_def)
  then have "card {2, 3 :: nat} \<le> card (free_in small_fs)" by (intro card_mono) simp_all
  then show "1 \<le> room_for small_fs LAYOUT_FILE" by (simp add: room_for_def)
qed

lemma desktop_layout_survives_witness:
  "\<exists>d1 st1 d2 st2. save_layout (disk_wr drive_bus) one_desk small_fs = (d1, st1) \<and>
     load_layout (disk_rd drive_bus) (small_desk\<lparr>icons := []\<rparr>) st1 = (d2, st2) \<and>
     layout_find [97] d2 = Some (40, 50) \<and> layout_find TRASH_REC d2 = Some (912, 600)"
proof -
  obtain d1 st1 where s: "save_layout (disk_wr drive_bus) one_desk small_fs = (d1, st1)" by (rule prod.exhaust)
  obtain d2 st2 where l: "load_layout (disk_rd drive_bus) (small_desk\<lparr>icons := []\<rparr>) st1 = (d2, st2)" by (rule prod.exhaust)
  have one: "icons one_desk = [icon_named 97 40 50]" "trash_x one_desk = 912" "trash_y one_desk = 600"
    by (simp_all add: one_desk_def small_desk_def)
  have "name_field (97 # replicate 21 0)" "cstr (97 # replicate 21 0) = [97]" by (simp_all add: name_field_def cstr_def)
  moreover from this have "saveable one_desk"
    by (simp add: saveable_def one icon_named_def int16_def TRASH_REC_def FS_DIR_ENTRIES_def)
  moreover have "blocks_for (26 * (length (icons one_desk) + 1)) \<le> room_for small_fs LAYOUT_FILE"
    using layout_slot(2) by (simp add: one blocks_for_def)
  ultimately show ?thesis
    using desktop_layout_survives [OF drive_bus_drives small_fs_drive small_fs_inv layout_slot(1) _ _ s l] s l
    by (auto simp: one icon_named_def pos_of_def)
qed

lemma desktop_trash_restores_witness:
  "let st2 = restore_file (disk_wr drive_bus) [1, 97] (trash_file (disk_wr drive_bus) [97] small_fs)
   in files id st2 [97] = Some [0, 0, 0]"
proof -
  have t: "trash_name [97] = [1, 97]" by (simp add: trash_name_def TRASH_CH_def FS_MAX_NAME_def)
  have "find_entry small_fs [1, 97] = None"
  proof (rule ccontr)
    assume "find_entry small_fs [1, 97] \<noteq> None"
    then obtain i where "find_entry small_fs [1, 97] = Some i" by blast
    with find_entry_some [of "[1, 97]" small_fs i] have "used small_fs i" "name_of small_fs i = [1, 97]" by simp_all
    then show False by (simp add: small_fs_entries small_fs_name)
  qed
  then have "find_entry small_fs (trash_name [97]) = None" by (simp add: t)
  from desktop_trash_restores [OF drive_bus_drives small_fs_drive small_fs_inv _ _ _ small_fs_find(1) this]
  show ?thesis using small_fs_file by (simp add: t Let_def)
qed

text \<open>The record count comes from the size of the file, not from what fits into the array: with a
  layout file longer than the array the search reads on behind it.\<close>

lemma layout_overread:
  "let d = small_desk\<lparr>layout_n := 100, beyond := (\<lambda>i. if i = 1690 then 98 else 0)\<rparr>
   in length (layout d) = LAYOUT_SIZE \<and> List.find (rec_named d [98]) [0..<nat (layout_n d)] = Some 65"
proof -
  define d where "d = small_desk\<lparr>layout_n := 100, beyond := (\<lambda>i. if i = 1690 then 98 else 0)\<rparr>"
  have b: "layout_byte d i = (if i = 1690 then 98 else 0)" for i
    by (simp add: layout_byte_def d_def small_desk_def)
  have n: "rec_named d [98] j \<longleftrightarrow> j = 65" for j
    by (auto simp: rec_named_def b REC_SIZE_def)
  have "List.find (rec_named d [98]) [0..<100] = Some 65"
    unfolding find_Some_iff by (intro exI [of _ 65]) (simp add: n)
  then have "length (layout d) = LAYOUT_SIZE \<and> List.find (rec_named d [98]) [0..<nat (layout_n d)] = Some 65"
    by (simp add: d_def small_desk_def LAYOUT_SIZE_def FS_DIR_ENTRIES_def REC_SIZE_def)
  then show ?thesis unfolding d_def Let_def .
qed

end
