(* ===== verification/Editor.thy ===== *)
theory Editor
  imports Wm Fs Input "HOL-Library.Signed_Division" "HOL-Library.Multiset"
begin

text \<open>
  \<open>kernel/gui.c\<close>, the text editor: the buffer with its cursor, the two bounded stacks of
  snapshots, and the keys and clicks that reach them. A block of the heap is its pointer together
  with the bytes it holds; the services of the kernel the editor calls are the argument
  \<open>services\<close>: \<open>kmalloc\<close> and \<open>kfree\<close> on the state \<open>'h\<close> of the rest of the kernel, \<open>fs_write\<close> and
  \<open>refresh_icons\<close>. \<open>k_stale\<close> is what the memory holds when a block is handed out.
\<close>

definition ED_LINE_H :: int where "ED_LINE_H = 18"
definition ED_PAD :: int where "ED_PAD = 14"
definition ED_STATUS_H :: int where "ED_STATUS_H = 28"
definition ED_MAX_UNDO :: nat where "ED_MAX_UNDO = 24"
definition ED_MAX_LEN :: int where "ED_MAX_LEN = 32 * 1024"

record 'h services =
  k_malloc :: "u32 \<Rightarrow> 'h \<Rightarrow> u32 \<times> 'h"
  k_free :: "u32 \<Rightarrow> 'h \<Rightarrow> 'h"
  k_stale :: "u32 \<Rightarrow> u8"
  k_write :: "u8 list \<Rightarrow> u8 list \<Rightarrow> 'h \<Rightarrow> int \<times> 'h"
  k_refresh :: "'h \<Rightarrow> 'h"

record ed_snap =
  sn_ptr :: u32
  sn_buf :: "u8 list"
  sn_len :: int
  sn_cursor :: int

record editor =
  ed_ptr :: u32
  ed_bufp :: u32
  ed_buf :: "u8 list"
  ed_len :: int
  ed_cap :: int
  ed_cursor :: int
  scroll_line :: int
  scroll_col :: int
  prefcol :: int
  modified :: bool
  filename :: "u8 list"
  undo_st :: "ed_snap list"
  redo_st :: "ed_snap list"
  last_edit_tick :: u32
  last_edit_kind :: int

text \<open>Copies inside and between blocks, as \<open>memcpy\<close> and \<open>memmove\<close> do them.\<close>

definition stale_block :: "'h services \<Rightarrow> u32 \<Rightarrow> int \<Rightarrow> u8 list" where
  "stale_block k p n = map (\<lambda>i. k_stale k (p + of_nat i)) [0..<nat n]"

definition copy_into :: "u8 list \<Rightarrow> u8 list \<Rightarrow> int \<Rightarrow> u8 list" where
  "copy_into dst src n = take (nat n) src @ drop (nat n) dst"

definition move_in :: "int \<Rightarrow> int \<Rightarrow> int \<Rightarrow> u8 list \<Rightarrow> u8 list" where
  "move_in d s n xs = take (nat d) xs @ take (nat n) (drop (nat s) xs) @ drop (nat d + nat n) xs"

subsection \<open>Buffer geometry\<close>

fun linecol_step :: "u8 \<Rightarrow> int \<times> int \<Rightarrow> int \<times> int" where
  "linecol_step b (l, c) = (if b = 10 then (l + 1, 0) else (l, c + 1))"

definition ed_linecol :: "editor \<Rightarrow> int \<Rightarrow> int \<times> int" where
  "ed_linecol e pos = fold linecol_step (take (nat pos) (ed_buf e)) (0, 0)"

text \<open>The loops below run over the \<open>len\<close> bytes in use.\<close>

definition ed_bytes :: "editor \<Rightarrow> u8 list" where
  "ed_bytes e = take (nat (ed_len e)) (ed_buf e)"

fun line_start_loop :: "u8 list \<Rightarrow> int \<Rightarrow> int \<Rightarrow> int" where
  "line_start_loop [] line i = i"
| "line_start_loop (b # bs) line i =
     (if line > 0 then line_start_loop bs (if b = 10 then line - 1 else line) (i + 1) else i)"

definition ed_line_start :: "editor \<Rightarrow> int \<Rightarrow> int" where
  "ed_line_start e line = line_start_loop (ed_bytes e) line 0"

fun line_len_loop :: "u8 list \<Rightarrow> int \<Rightarrow> int" where
  "line_len_loop [] n = n"
| "line_len_loop (b # bs) n = (if b \<noteq> 10 then line_len_loop bs (n + 1) else n)"

definition ed_line_len :: "editor \<Rightarrow> int \<Rightarrow> int" where
  "ed_line_len e start = line_len_loop (drop (nat start) (ed_bytes e)) 0"

definition ed_line_count :: "editor \<Rightarrow> int" where
  "ed_line_count e = fold (\<lambda>b n. if b = 10 then n + 1 else n) (ed_bytes e) 1"

definition ed_sync_prefcol :: "editor \<Rightarrow> editor" where
  "ed_sync_prefcol e = e\<lparr>prefcol := snd (ed_linecol e (ed_cursor e))\<rparr>"

subsection \<open>Undo and redo\<close>

definition ed_clear_stack :: "'h services \<Rightarrow> ed_snap list \<Rightarrow> 'h \<Rightarrow> 'h" where
  "ed_clear_stack k st h = fold (\<lambda>s. k_free k (sn_ptr s)) st h"

definition ed_snap_size :: "editor \<Rightarrow> int" where
  "ed_snap_size e = (if ed_len e \<noteq> 0 then ed_len e else 1)"

definition ed_push_state :: "'h services \<Rightarrow> ed_snap list \<Rightarrow> editor \<Rightarrow> 'h \<Rightarrow> ed_snap list \<times> 'h" where
  "ed_push_state k st e h =
     (let n = ed_snap_size e; (copy, h1) = k_malloc k (of_int n) h
      in if copy = 0 then (st, h1)
         else let (st1, h2) = (if length st = ED_MAX_UNDO then (tl st, k_free k (sn_ptr (hd st)) h1) else (st, h1))
              in (st1 @ [\<lparr>sn_ptr = copy, sn_buf = copy_into (stale_block k copy n) (ed_buf e) (ed_len e),
                          sn_len = ed_len e, sn_cursor = ed_cursor e\<rparr>], h2))"

definition ed_restore :: "'h services \<Rightarrow> editor \<Rightarrow> ed_snap \<Rightarrow> 'h \<Rightarrow> editor \<times> 'h" where
  "ed_restore k e s h =
     (ed_sync_prefcol (e\<lparr>ed_bufp := sn_ptr s, ed_buf := sn_buf s, ed_len := sn_len s,
        ed_cap := (if sn_len s \<noteq> 0 then sn_len s else 1), ed_cursor := sn_cursor s,
        modified := True, last_edit_kind := 0\<rparr>), k_free k (ed_bufp e) h)"

definition ed_before_edit :: "'h services \<Rightarrow> u32 \<Rightarrow> int \<Rightarrow> editor \<Rightarrow> 'h \<Rightarrow> editor \<times> 'h" where
  "ed_before_edit k now kind e h =
     (let coalesce = (kind = last_edit_kind e \<and> undo_st e \<noteq> [] \<and> now - last_edit_tick e < 150);
          (u, h1) = (if \<not> coalesce then ed_push_state k (undo_st e) e h else (undo_st e, h))
      in (e\<lparr>undo_st := u, last_edit_tick := now, last_edit_kind := kind, redo_st := [], modified := True\<rparr>,
          ed_clear_stack k (redo_st e) h1))"

definition ed_undo :: "'h services \<Rightarrow> editor \<Rightarrow> 'h \<Rightarrow> editor \<times> 'h" where
  "ed_undo k e h =
     (if undo_st e = [] then (e, h)
      else let (r, h1) = ed_push_state k (redo_st e) e h
           in ed_restore k (e\<lparr>redo_st := r, undo_st := butlast (undo_st e)\<rparr>) (last (undo_st e)) h1)"

definition ed_redo :: "'h services \<Rightarrow> editor \<Rightarrow> 'h \<Rightarrow> editor \<times> 'h" where
  "ed_redo k e h =
     (if redo_st e = [] then (e, h)
      else let (u, h1) = ed_push_state k (undo_st e) e h
           in ed_restore k (e\<lparr>undo_st := u, redo_st := butlast (redo_st e)\<rparr>) (last (redo_st e)) h1)"

subsection \<open>Editing\<close>

text \<open>Making room for one more byte; the flag tells whether there is any.\<close>

definition ed_newcap :: "editor \<Rightarrow> int" where
  "ed_newcap e = (if ed_cap e < 256 then 256 else ed_cap e * 2)"

definition ed_grow :: "'h services \<Rightarrow> editor \<Rightarrow> 'h \<Rightarrow> bool \<times> editor \<times> 'h" where
  "ed_grow k e h =
     (if ed_len e + 1 > ed_cap e
      then let newcap = ed_newcap e; (nb, h1) = k_malloc k (of_int newcap) h
           in if nb = 0 then (False, e, h1)
              else (True, e\<lparr>ed_bufp := nb, ed_buf := copy_into (stale_block k nb newcap) (ed_buf e) (ed_len e),
                            ed_cap := newcap\<rparr>, k_free k (ed_bufp e) h1)
      else (True, e, h))"

definition ed_insert :: "'h services \<Rightarrow> u32 \<Rightarrow> u8 \<Rightarrow> editor \<Rightarrow> 'h \<Rightarrow> editor \<times> 'h" where
  "ed_insert k now c e h =
     (if ed_len e \<ge> ED_MAX_LEN then (e, h)
      else let (e1, h1) = ed_before_edit k now 1 e h; (ok, e2, h2) = ed_grow k e1 h1
           in if \<not> ok then (e2, h2)
              else let cur = ed_cursor e2;
                       b = move_in (cur + 1) cur (ed_len e2 - cur) (ed_buf e2)
                   in (ed_sync_prefcol (e2\<lparr>ed_buf := b[nat cur := c], ed_len := ed_len e2 + 1,
                         ed_cursor := cur + 1\<rparr>), h2))"

definition ed_delete_at :: "'h services \<Rightarrow> u32 \<Rightarrow> int \<Rightarrow> editor \<Rightarrow> 'h \<Rightarrow> editor \<times> 'h" where
  "ed_delete_at k now pos e h =
     (if pos < 0 \<or> pos \<ge> ed_len e then (e, h)
      else let (e1, h1) = ed_before_edit k now 2 e h
           in (ed_sync_prefcol (e1\<lparr>ed_buf := move_in pos (pos + 1) (ed_len e1 - pos - 1) (ed_buf e1),
                 ed_len := ed_len e1 - 1, ed_cursor := pos\<rparr>), h1))"

definition ed_vertical :: "editor \<Rightarrow> int \<Rightarrow> editor" where
  "ed_vertical e dir =
     (let (line, col) = ed_linecol e (ed_cursor e); target = line + dir
      in if target < 0 \<or> target \<ge> ed_line_count e then e
         else let start = ed_line_start e target; ll = ed_line_len e start
              in e\<lparr>ed_cursor := start + (if prefcol e < ll then prefcol e else ll)\<rparr>)"

subsection \<open>The editor window\<close>

definition ed_metrics :: "window \<Rightarrow> int \<times> int \<times> int \<times> int" where
  "ed_metrics w = (win_x w + ED_PAD, win_y w + TITLE_H + 10,
     (win_h w - TITLE_H - 10 - ED_STATUS_H) sdiv ED_LINE_H, (win_w w - 2 * ED_PAD) sdiv FONT_W)"

definition ed_scroll_into_view :: "int \<Rightarrow> int \<Rightarrow> editor \<Rightarrow> editor" where
  "ed_scroll_into_view rows cols e =
     (let (line, col) = ed_linecol e (ed_cursor e);
          e1 = (if line < scroll_line e then e\<lparr>scroll_line := line\<rparr> else e);
          e2 = (if line \<ge> scroll_line e1 + rows then e1\<lparr>scroll_line := line - rows + 1\<rparr> else e1);
          e3 = (if col < scroll_col e2 then e2\<lparr>scroll_col := col\<rparr> else e2)
      in if col \<ge> scroll_col e3 + cols then e3\<lparr>scroll_col := col - cols + 1\<rparr> else e3)"

definition editor_save :: "'h services \<Rightarrow> editor \<Rightarrow> 'h \<Rightarrow> editor \<times> 'h" where
  "editor_save k e h =
     (let (r, h1) = k_write k (filename e) (ed_bytes e) h
      in if r = 0 then (e\<lparr>modified := False\<rparr>, k_refresh k h1) else (e, h1))"

definition ed_home :: "editor \<Rightarrow> editor" where
  "ed_home e = (let (line, col) = ed_linecol e (ed_cursor e)
     in ed_sync_prefcol (e\<lparr>ed_cursor := ed_line_start e line\<rparr>))"

definition ed_end :: "editor \<Rightarrow> editor" where
  "ed_end e = (let (line, col) = ed_linecol e (ed_cursor e); start = ed_line_start e line
     in ed_sync_prefcol (e\<lparr>ed_cursor := start + ed_line_len e start\<rparr>))"

text \<open>The tab key reads the clock before each of its four insertions: \<open>now\<close> is a sequence.\<close>

definition ed_tab :: "'h services \<Rightarrow> (nat \<Rightarrow> u32) \<Rightarrow> editor \<Rightarrow> 'h \<Rightarrow> editor \<times> 'h" where
  "ed_tab k now e h = fold (\<lambda>i (e, h). ed_insert k (now i) 32 e h) [0..<4] (e, h)"

definition ed_key :: "'h services \<Rightarrow> (nat \<Rightarrow> u32) \<Rightarrow> u8 \<Rightarrow> editor \<Rightarrow> 'h \<Rightarrow> editor \<times> 'h" where
  "ed_key k now ch e h =
     (if ch = KEY_LEFT then (ed_sync_prefcol (if ed_cursor e > 0 then e\<lparr>ed_cursor := ed_cursor e - 1\<rparr> else e), h)
      else if ch = KEY_RIGHT then
        (ed_sync_prefcol (if ed_cursor e < ed_len e then e\<lparr>ed_cursor := ed_cursor e + 1\<rparr> else e), h)
      else if ch = KEY_UP then (ed_vertical e (- 1), h)
      else if ch = KEY_DOWN then (ed_vertical e 1, h)
      else if ch = KEY_HOME then (ed_home e, h)
      else if ch = KEY_END then (ed_end e, h)
      else if ch = KEY_DEL then ed_delete_at k (now 0) (ed_cursor e) e h
      else if ch = 8 then (if ed_cursor e > 0 then ed_delete_at k (now 0) (ed_cursor e - 1) e h else (e, h))
      else if ch = 10 then ed_insert k (now 0) 10 e h
      else if ch = 9 then ed_tab k now e h
      else if ch = 0x13 then editor_save k e h
      else if ch = 0x1A then ed_undo k e h
      else if ch = 0x19 then ed_redo k e h
      else if 32 \<le> ch \<and> ch < 127 then ed_insert k (now 0) ch e h
      else (e, h))"

definition editor_key :: "'h services \<Rightarrow> (nat \<Rightarrow> u32) \<Rightarrow> window \<Rightarrow> u8 \<Rightarrow> editor \<Rightarrow> 'h \<Rightarrow> editor \<times> 'h" where
  "editor_key k now w ch e h =
     (let (tx, ty, rows, cols) = ed_metrics w; (e1, h1) = ed_key k now ch e h
      in (ed_scroll_into_view rows cols e1, h1))"

definition editor_click :: "window \<Rightarrow> int \<Rightarrow> int \<Rightarrow> editor \<Rightarrow> editor" where
  "editor_click w mx my e =
     (let (tx, ty, rows, cols) = ed_metrics w
      in if my \<ge> win_y w + win_h w - ED_STATUS_H then e
         else let r = (my - ty) sdiv ED_LINE_H;
                  r1 = (if r < 0 then 0 else r);
                  total = ed_line_count e;
                  target = (if scroll_line e + r1 \<ge> total then total - 1 else scroll_line e + r1);
                  start = ed_line_start e target;
                  ll = ed_line_len e start;
                  c = (mx - tx + FONT_W div 2) sdiv FONT_W + scroll_col e;
                  c1 = (if c < 0 then 0 else c);
                  c2 = (if c1 > ll then ll else c1)
              in e\<lparr>ed_cursor := start + c2, prefcol := c2\<rparr>)"

definition editor_close :: "'h services \<Rightarrow> editor \<Rightarrow> 'h \<Rightarrow> 'h" where
  "editor_close k e h =
     k_free k (ed_ptr e) (k_free k (ed_bufp e)
       (ed_clear_stack k (redo_st e) (ed_clear_stack k (undo_st e) h)))"

subsection \<open>Lines and columns\<close>

text \<open>The geometry of a text as recursive functions: where a line starts, how long the first line
  is, how many newlines there are, and the line and column of a position.\<close>

fun lstart :: "u8 list \<Rightarrow> nat \<Rightarrow> nat" where
  "lstart bs 0 = 0"
| "lstart [] (Suc l) = 0"
| "lstart (b # bs) (Suc l) = Suc (lstart bs (if b = 10 then l else Suc l))"

fun llen :: "u8 list \<Rightarrow> nat" where
  "llen [] = 0"
| "llen (b # bs) = (if b = 10 then 0 else Suc (llen bs))"

fun newlines :: "u8 list \<Rightarrow> nat" where
  "newlines [] = 0"
| "newlines (b # bs) = (if b = 10 then Suc (newlines bs) else newlines bs)"

fun lc :: "u8 list \<Rightarrow> nat \<Rightarrow> nat \<times> nat" where
  "lc bs 0 = (0, 0)"
| "lc [] (Suc p) = (0, 0)"
| "lc (b # bs) (Suc p) =
     (let (l, c) = lc bs p in if b = 10 then (Suc l, c) else if l = 0 then (0, Suc c) else (l, c))"

lemma lstart_le: "lstart bs l \<le> length bs"
  by (induction bs l rule: lstart.induct) auto

lemma lc_pos:
  "p \<le> length bs \<Longrightarrow> lc bs p = (l, c) \<Longrightarrow>
     lstart bs l + c = p \<and> c \<le> llen (drop (lstart bs l) bs) \<and> l \<le> newlines bs"
proof (induction bs p arbitrary: l c rule: lc.induct)
  case (3 b bs p)
  obtain l' c' where q: "lc bs p = (l', c')" by fastforce
  have "p \<le> length bs" using "3.prems" by simp
  note ih = "3.IH" [OF this q]
  then show ?case using "3.prems"(2) q by (cases l') (auto split: if_splits)
qed auto

lemma pos_lc:
  "l \<le> newlines bs \<Longrightarrow> c \<le> llen (drop (lstart bs l) bs) \<Longrightarrow>
     lc bs (lstart bs l + c) = (l, c) \<and> lstart bs l + c \<le> length bs"
proof (induction bs arbitrary: l c)
  case (Cons b bs)
  show ?case
  proof (cases l)
    case 0
    show ?thesis
    proof (cases c)
      case (Suc c')
      then have "c' \<le> llen (drop (lstart bs 0) bs)" "b \<noteq> 10" using Cons.prems(2) 0 by (auto split: if_splits)
      then show ?thesis using Cons.IH [of 0 c'] 0 Suc by simp
    qed (use 0 in simp)
  next
    case (Suc m)
    show ?thesis
    proof (cases "b = 10")
      case True
      then show ?thesis using Cons.IH [of m c] Cons.prems Suc by simp
    next
      case False
      then show ?thesis using Cons.IH [of "Suc m" c] Cons.prems Suc by simp
    qed
  qed
qed simp

lemma llen_le: "llen bs \<le> length bs"
  by (induction bs) auto

text \<open>The loops of the code compute exactly these.\<close>

lemma line_start_loop_eq: "line_start_loop bs line i = i + int (lstart bs (nat line))"
proof (induction bs arbitrary: line i)
  case Nil
  then show ?case by (cases "nat line") auto
next
  case (Cons b bs)
  show ?case
  proof (cases "line > 0")
    case True
    then obtain m where m: "nat line = Suc m" by (cases "nat line") auto
    then have "nat (line - 1) = m" by simp
    with Cons.IH True m show ?thesis by simp
  qed simp
qed

lemma line_len_loop_eq: "line_len_loop bs n = n + int (llen bs)"
  by (induction bs arbitrary: n) auto

lemma fold_linecol:
  "fold linecol_step (take p bs) (l0, c0) =
     (case lc bs p of (l, c) \<Rightarrow> (l0 + int l, if l = 0 then c0 + int c else int c))"
proof (induction bs p arbitrary: l0 c0 rule: lc.induct)
  case (3 b bs p)
  then show ?case by (auto split: prod.splits)
qed auto

lemma fold_newlines: "fold (\<lambda>b n. if b = 10 then n + 1 else n) bs (n0 :: int) = n0 + int (newlines bs)"
proof (induction bs arbitrary: n0)
  case (Cons b bs)
  show ?case by (cases "b = 10") (simp_all add: Cons.IH)
qed simp

definition pos_ok :: "editor \<Rightarrow> bool" where
  "pos_ok e \<longleftrightarrow> 0 \<le> ed_cursor e \<and> ed_cursor e \<le> ed_len e \<and> ed_len e \<le> ed_cap e \<and> length (ed_buf e) = nat (ed_cap e) \<and>
     0 \<le> prefcol e"

lemma length_ed_bytes: "pos_ok e \<Longrightarrow> length (ed_bytes e) = nat (ed_len e)"
  by (simp add: pos_ok_def ed_bytes_def min_absorb2 nat_mono)

lemma ed_linecol_eq:
  assumes "0 \<le> pos" "pos \<le> ed_len e"
  shows "ed_linecol e pos = (let (l, c) = lc (ed_bytes e) (nat pos) in (int l, int c))"
proof -
  have "take (nat pos) (ed_buf e) = take (nat pos) (ed_bytes e)" using assms by (simp add: ed_bytes_def min_def)
  then show ?thesis by (auto simp: ed_linecol_def fold_linecol split: prod.splits)
qed

lemma ed_line_start_eq: "ed_line_start e l = int (lstart (ed_bytes e) (nat l))"
  by (simp add: ed_line_start_def line_start_loop_eq)

lemma ed_line_len_eq: "ed_line_len e s = int (llen (drop (nat s) (ed_bytes e)))"
  by (simp add: ed_line_len_def line_len_loop_eq)

lemma ed_line_count_eq: "ed_line_count e = 1 + int (newlines (ed_bytes e))"
  by (simp add: ed_line_count_def fold_newlines)

lemma ed_pos_to_linecol:
  assumes "pos_ok e" "0 \<le> pos" "pos \<le> ed_len e" "ed_linecol e pos = (l, c)"
  shows "0 \<le> l \<and> l < ed_line_count e \<and> 0 \<le> c \<and> c \<le> ed_line_len e (ed_line_start e l) \<and> ed_line_start e l + c = pos"
proof -
  obtain l' c' where q: "lc (ed_bytes e) (nat pos) = (l', c')" by fastforce
  then have lc: "l = int l'" "c = int c'" using assms ed_linecol_eq [of pos e] by auto
  have "nat pos \<le> length (ed_bytes e)" using assms by (simp add: length_ed_bytes)
  from lc_pos [OF this q] show ?thesis
    using assms(2) by (simp add: lc ed_line_start_eq ed_line_len_eq ed_line_count_eq) linarith
qed

lemma ed_linecol_to_pos:
  assumes "pos_ok e" "0 \<le> l" "l < ed_line_count e" "0 \<le> c" "c \<le> ed_line_len e (ed_line_start e l)"
  shows "0 \<le> ed_line_start e l + c \<and> ed_line_start e l + c \<le> ed_len e \<and> ed_linecol e (ed_line_start e l + c) = (l, c)"
proof -
  have "nat l \<le> newlines (ed_bytes e)" "nat c \<le> llen (drop (lstart (ed_bytes e) (nat l)) (ed_bytes e))"
    using assms by (simp_all add: ed_line_start_eq ed_line_len_eq ed_line_count_eq)
  note pl = pos_lc [OF this]
  then have b: "ed_line_start e l + c = int (lstart (ed_bytes e) (nat l) + nat c)"
    "int (lstart (ed_bytes e) (nat l) + nat c) \<le> ed_len e"
    using assms by (auto simp: ed_line_start_eq length_ed_bytes pos_ok_def)
  then show ?thesis
    using pl assms(2,4) ed_linecol_eq [of "ed_line_start e l + c" e] by (simp add: nat_add_distrib)
qed

text \<open>Line and column of a position, and where a line starts, are inverse to each other: every
  position of the text has a line below the line count and a column within that line, and every such
  line and column is the one of exactly the position the code computes from them.\<close>
theorem editor_linecol_inverse:
  assumes "pos_ok e"
  shows "(\<forall>pos. 0 \<le> pos \<and> pos \<le> ed_len e \<longrightarrow>
           (let (l, c) = ed_linecol e pos
            in 0 \<le> l \<and> l < ed_line_count e \<and> 0 \<le> c \<and> c \<le> ed_line_len e (ed_line_start e l) \<and>
               ed_line_start e l + c = pos)) \<and>
         (\<forall>l c. 0 \<le> l \<and> l < ed_line_count e \<and> 0 \<le> c \<and> c \<le> ed_line_len e (ed_line_start e l) \<longrightarrow>
           0 \<le> ed_line_start e l + c \<and> ed_line_start e l + c \<le> ed_len e \<and>
           ed_linecol e (ed_line_start e l + c) = (l, c))"
proof (rule conjI; intro allI impI)
  fix pos assume p: "0 \<le> pos \<and> pos \<le> ed_len e"
  obtain l c where lc: "ed_linecol e pos = (l, c)" by fastforce
  with p ed_pos_to_linecol [OF assms _ _ lc] show "let (l, c) = ed_linecol e pos
     in 0 \<le> l \<and> l < ed_line_count e \<and> 0 \<le> c \<and> c \<le> ed_line_len e (ed_line_start e l) \<and>
        ed_line_start e l + c = pos"
    by simp
next
  fix l c assume "0 \<le> l \<and> l < ed_line_count e \<and> 0 \<le> c \<and> c \<le> ed_line_len e (ed_line_start e l)"
  then have "0 \<le> l" "l < ed_line_count e" "0 \<le> c" "c \<le> ed_line_len e (ed_line_start e l)" by blast+
  then show "0 \<le> ed_line_start e l + c \<and> ed_line_start e l + c \<le> ed_len e \<and>
     ed_linecol e (ed_line_start e l + c) = (l, c)"
    by (rule ed_linecol_to_pos [OF assms])
qed

subsection \<open>Edits as operations on the text\<close>

lemma move_up_bytes:
  assumes "c \<le> n" "n < length b"
  shows "take (Suc n) ((take (Suc c) b @ take (n - c) (drop c b) @ drop (Suc n) b)[c := x]) =
    take c (take n b) @ x # drop c (take n b)"
proof -
  have "take (Suc c) b = take c b @ [b ! c]" using assms by (simp add: take_Suc_conv_app_nth)
  then have "(take (Suc c) b @ take (n - c) (drop c b) @ drop (Suc n) b)[c := x] =
      take c b @ x # take (n - c) (drop c b) @ drop (Suc n) b"
    using assms by (simp add: list_update_append)
  then show ?thesis using assms by (simp add: take_Cons' drop_take)
qed

lemma move_down_bytes:
  assumes "p < n" "n \<le> length b"
  shows "take (n - 1) (take p b @ take (n - p - 1) (drop (Suc p) b) @ drop (p + (n - p - 1)) b) =
    take p (take n b) @ drop (Suc p) (take n b)"
  using assms by (simp add: drop_take)

lemma ed_sync_prefcol_nonneg [simp]: "0 \<le> prefcol (ed_sync_prefcol e)"
  by (simp add: ed_sync_prefcol_def ed_linecol_def fold_linecol split: prod.splits)

lemma ed_sync_prefcol_fields [simp]:
  "ed_bytes (ed_sync_prefcol e) = ed_bytes e" "ed_cursor (ed_sync_prefcol e) = ed_cursor e"
  "ed_len (ed_sync_prefcol e) = ed_len e" "ed_cap (ed_sync_prefcol e) = ed_cap e"
  "ed_buf (ed_sync_prefcol e) = ed_buf e" "undo_st (ed_sync_prefcol e) = undo_st e"
  "redo_st (ed_sync_prefcol e) = redo_st e" "ed_ptr (ed_sync_prefcol e) = ed_ptr e"
  "ed_bufp (ed_sync_prefcol e) = ed_bufp e" "last_edit_tick (ed_sync_prefcol e) = last_edit_tick e"
  "last_edit_kind (ed_sync_prefcol e) = last_edit_kind e" "filename (ed_sync_prefcol e) = filename e"
  by (simp_all add: ed_sync_prefcol_def ed_bytes_def)

text \<open>What an edit leaves alone before it changes the text.\<close>

lemma ed_before_edit_fields:
  assumes "ed_before_edit k now kind e h = (e1, h1)"
  shows "ed_bytes e1 = ed_bytes e" "ed_cursor e1 = ed_cursor e" "ed_len e1 = ed_len e" "ed_cap e1 = ed_cap e"
    "ed_buf e1 = ed_buf e" "last_edit_tick e1 = now" "last_edit_kind e1 = kind" "redo_st e1 = []"
    "ed_ptr e1 = ed_ptr e" "ed_bufp e1 = ed_bufp e" "filename e1 = filename e" "prefcol e1 = prefcol e"
  using assms by (auto simp: ed_before_edit_def ed_bytes_def Let_def split: prod.splits)

definition grown_buf :: "'h services \<Rightarrow> u32 \<Rightarrow> editor \<Rightarrow> editor" where
  "grown_buf k nb e = e\<lparr>ed_bufp := nb, ed_cap := ed_newcap e,
     ed_buf := copy_into (stale_block k nb (ed_newcap e)) (ed_buf e) (ed_len e)\<rparr>"

lemma ed_grow_cases:
  assumes "ed_grow k e h = (ok, e1, h1)"
  shows "(e1 = e \<and> (ok \<longrightarrow> ed_len e < ed_cap e \<and> h1 = h) \<and>
      (\<not> ok \<longrightarrow> k_malloc k (of_int (ed_newcap e)) h = (0, h1))) \<or>
    (\<exists>nb h0. ok \<and> ed_cap e \<le> ed_len e \<and> k_malloc k (of_int (ed_newcap e)) h = (nb, h0) \<and> nb \<noteq> 0 \<and>
      e1 = grown_buf k nb e \<and> h1 = k_free k (ed_bufp e) h0)"
proof (cases "ed_len e + 1 > ed_cap e")
  case True
  obtain nb h0 where a: "k_malloc k (of_int (ed_newcap e)) h = (nb, h0)" by fastforce
  show ?thesis
    using assms True a by (cases "nb = 0") (auto simp: ed_grow_def Let_def grown_buf_def)
qed (use assms in \<open>simp add: ed_grow_def\<close>)

lemma grown_buf_fields:
  assumes "pos_ok e" "ed_cap e \<le> ed_len e"
  shows "ed_bytes (grown_buf k nb e) = ed_bytes e" "pos_ok (grown_buf k nb e)"
    "ed_len (grown_buf k nb e) < ed_cap (grown_buf k nb e)"
proof -
  have nc: "ed_cap e < ed_newcap e" "0 \<le> ed_len e" using assms by (auto simp: ed_newcap_def pos_ok_def)
  then show "ed_bytes (grown_buf k nb e) = ed_bytes e" "pos_ok (grown_buf k nb e)"
    "ed_len (grown_buf k nb e) < ed_cap (grown_buf k nb e)"
    using assms by (simp_all add: grown_buf_def ed_bytes_def copy_into_def stale_block_def pos_ok_def min_absorb2 nat_mono)
qed

lemma grown_buf_same [simp]:
  "ed_cursor (grown_buf k nb e) = ed_cursor e" "ed_len (grown_buf k nb e) = ed_len e"
  "undo_st (grown_buf k nb e) = undo_st e" "last_edit_tick (grown_buf k nb e) = last_edit_tick e"
  "last_edit_kind (grown_buf k nb e) = last_edit_kind e" "redo_st (grown_buf k nb e) = redo_st e"
  "ed_ptr (grown_buf k nb e) = ed_ptr e" "ed_bufp (grown_buf k nb e) = nb"
  "ed_cap (grown_buf k nb e) = ed_newcap e" "prefcol (grown_buf k nb e) = prefcol e"
  by (simp_all add: grown_buf_def)

lemma ed_grow_fields:
  assumes "ed_grow k e h = (ok, e1, h1)" "pos_ok e"
  shows "ed_bytes e1 = ed_bytes e \<and> ed_cursor e1 = ed_cursor e \<and> ed_len e1 = ed_len e \<and> pos_ok e1 \<and>
    (ok \<longrightarrow> ed_len e1 < ed_cap e1) \<and> undo_st e1 = undo_st e \<and> last_edit_tick e1 = last_edit_tick e \<and>
    last_edit_kind e1 = last_edit_kind e \<and> redo_st e1 = redo_st e \<and> ed_ptr e1 = ed_ptr e"
  using ed_grow_cases [OF assms(1)]
proof (elim disjE exE conjE)
  assume "e1 = e" "ok \<longrightarrow> ed_len e < ed_cap e \<and> h1 = h"
  then show ?thesis using assms(2) by simp
next
  fix nb assume "ed_cap e \<le> ed_len e" "e1 = grown_buf k nb e"
  then show ?thesis using grown_buf_fields [OF assms(2), of k nb] by simp
qed

text \<open>One insertion: nothing, or the byte at the cursor and the cursor behind it.\<close>

definition inserted :: "u8 \<Rightarrow> editor \<Rightarrow> editor \<Rightarrow> bool" where
  "inserted c e e' \<longleftrightarrow>
     ed_bytes e' = take (nat (ed_cursor e)) (ed_bytes e) @ c # drop (nat (ed_cursor e)) (ed_bytes e) \<and>
     ed_cursor e' = ed_cursor e + 1 \<and> ed_len e' = ed_len e + 1"

definition deleted :: "int \<Rightarrow> editor \<Rightarrow> editor \<Rightarrow> bool" where
  "deleted pos e e' \<longleftrightarrow>
     ed_bytes e' = take (nat pos) (ed_bytes e) @ drop (nat pos + 1) (ed_bytes e) \<and>
     ed_cursor e' = pos \<and> ed_len e' = ed_len e - 1"

definition same_text :: "editor \<Rightarrow> editor \<Rightarrow> bool" where
  "same_text e e' \<longleftrightarrow> ed_bytes e' = ed_bytes e \<and> ed_cursor e' = ed_cursor e \<and> ed_len e' = ed_len e"

lemma insert_step:
  assumes "pos_ok e" "ed_len e < ed_cap e"
    and "e' = e\<lparr>ed_buf := (move_in (ed_cursor e + 1) (ed_cursor e) (ed_len e - ed_cursor e) (ed_buf e))[nat (ed_cursor e) := c],
                ed_len := ed_len e + 1, ed_cursor := ed_cursor e + 1\<rparr>"
  shows "pos_ok e' \<and> inserted c e e'"
proof -
  have s: "nat (ed_cursor e + 1) = Suc (nat (ed_cursor e))" "nat (ed_len e + 1) = Suc (nat (ed_len e))"
    "nat (ed_len e - ed_cursor e) = nat (ed_len e) - nat (ed_cursor e)"
    "Suc (nat (ed_cursor e) + (nat (ed_len e) - nat (ed_cursor e))) = Suc (nat (ed_len e))"
    using assms(1) by (auto simp: pos_ok_def)
  have n: "nat (ed_cursor e) \<le> nat (ed_len e)" "nat (ed_len e) < length (ed_buf e)"
    using assms(1,2) by (auto simp: pos_ok_def)
  have "ed_bytes e' = take (nat (ed_cursor e)) (ed_bytes e) @ c # drop (nat (ed_cursor e)) (ed_bytes e)"
    using move_up_bytes [OF n, of c] by (simp add: assms(3) ed_bytes_def move_in_def s)
  moreover have "pos_ok e'"
    using assms(1,2) n by (auto simp: assms(3) pos_ok_def move_in_def s)
  ultimately show ?thesis by (simp add: inserted_def assms(3))
qed

lemma delete_step:
  assumes "pos_ok e" "0 \<le> pos" "pos < ed_len e"
    and "e' = e\<lparr>ed_buf := move_in pos (pos + 1) (ed_len e - pos - 1) (ed_buf e), ed_len := ed_len e - 1, ed_cursor := pos\<rparr>"
  shows "pos_ok e' \<and> deleted pos e e'"
proof -
  have s: "nat (pos + 1) = Suc (nat pos)" "nat (ed_len e - 1) = nat (ed_len e) - 1"
    "nat (ed_len e - pos - 1) = nat (ed_len e) - nat pos - 1"
    using assms(2,3) by auto
  have n: "nat pos < nat (ed_len e)" "nat (ed_len e) \<le> length (ed_buf e)"
    using assms(1-3) by (auto simp: pos_ok_def)
  have "ed_bytes e' = take (nat pos) (ed_bytes e) @ drop (nat pos + 1) (ed_bytes e)"
    using move_down_bytes [OF n] by (simp add: assms(4) ed_bytes_def move_in_def s)
  moreover have "pos_ok e'"
    using assms(1-3) n by (auto simp: assms(4) pos_ok_def move_in_def s)
  ultimately show ?thesis by (simp add: deleted_def assms(4))
qed

lemma ed_insert_text:
  assumes "ed_insert k now c e h = (e', h')" "pos_ok e"
  shows "pos_ok e' \<and> (same_text e e' \<or> inserted c e e')"
proof (cases "ed_len e \<ge> ED_MAX_LEN")
  case True
  then show ?thesis using assms by (simp add: ed_insert_def same_text_def)
next
  case False
  obtain e1 h1 where b: "ed_before_edit k now 1 e h = (e1, h1)" by fastforce
  obtain ok e2 h2 where g: "ed_grow k e1 h1 = (ok, e2, h2)" by (cases "ed_grow k e1 h1") auto
  note f = ed_before_edit_fields [OF b]
  have "pos_ok e1" using assms(2) f by (simp add: pos_ok_def)
  note r = ed_grow_fields [OF g this]
  show ?thesis
  proof (cases ok)
    case False
    then have "e' = e2" using assms(1) b g \<open>\<not> ED_MAX_LEN \<le> ed_len e\<close> by (simp add: ed_insert_def Let_def)
    then show ?thesis using r f by (simp add: same_text_def)
  next
    case True
    define e3 where "e3 = e2\<lparr>ed_buf := (move_in (ed_cursor e2 + 1) (ed_cursor e2) (ed_len e2 - ed_cursor e2) (ed_buf e2))[nat (ed_cursor e2) := c],
                ed_len := ed_len e2 + 1, ed_cursor := ed_cursor e2 + 1\<rparr>"
    have "e' = ed_sync_prefcol e3"
      using assms(1) b g True \<open>\<not> ED_MAX_LEN \<le> ed_len e\<close> by (simp add: ed_insert_def Let_def e3_def)
    moreover have "pos_ok e3 \<and> inserted c e2 e3" using insert_step [OF _ _ e3_def] r True by blast
    ultimately show ?thesis using r f by (simp add: pos_ok_def inserted_def)
  qed
qed

lemma ed_delete_text:
  assumes "ed_delete_at k now pos e h = (e', h')" "pos_ok e"
  shows "pos_ok e' \<and> (if 0 \<le> pos \<and> pos < ed_len e then deleted pos e e' else same_text e e')"
proof (cases "0 \<le> pos \<and> pos < ed_len e")
  case False
  then show ?thesis using assms by (auto simp: ed_delete_at_def same_text_def)
next
  case True
  obtain e1 h1 where b: "ed_before_edit k now 2 e h = (e1, h1)" by fastforce
  note f = ed_before_edit_fields [OF b]
  define e2 where "e2 = e1\<lparr>ed_buf := move_in pos (pos + 1) (ed_len e1 - pos - 1) (ed_buf e1), ed_len := ed_len e1 - 1, ed_cursor := pos\<rparr>"
  have "e' = ed_sync_prefcol e2" using assms(1) b True by (simp add: ed_delete_at_def e2_def)
  moreover have "pos_ok e1" "pos < ed_len e1" using assms(2) f True by (auto simp: pos_ok_def)
  then have "pos_ok e2 \<and> deleted pos e1 e2" using delete_step [OF _ _ _ e2_def] True by blast
  ultimately show ?thesis using f True by (simp add: pos_ok_def deleted_def)
qed

subsection \<open>Undo takes back what was done\<close>

definition snap_of :: "editor \<Rightarrow> ed_snap \<Rightarrow> bool" where
  "snap_of e s \<longleftrightarrow> sn_len s = ed_len e \<and> sn_cursor s = ed_cursor e \<and> take (nat (sn_len s)) (sn_buf s) = ed_bytes e"

definition granted :: "'h services \<Rightarrow> editor \<Rightarrow> 'h \<Rightarrow> bool" where
  "granted k e h \<longleftrightarrow> fst (k_malloc k (of_int (ed_snap_size e)) h) \<noteq> 0"

definition coalesces :: "u32 \<Rightarrow> int \<Rightarrow> editor \<Rightarrow> bool" where
  "coalesces now kind e \<longleftrightarrow> kind = last_edit_kind e \<and> undo_st e \<noteq> [] \<and> now - last_edit_tick e < 150"

lemma ed_push_state_top:
  assumes "ed_push_state k st e h = (st', h')" "pos_ok e" "granted k e h"
  shows "st' \<noteq> [] \<and> snap_of e (last st')"
proof -
  have "take (nat (ed_len e)) (copy_into d (ed_buf e) (ed_len e)) = ed_bytes e" for d
    using assms(2) by (simp add: copy_into_def ed_bytes_def pos_ok_def min_absorb2 nat_mono)
  then show ?thesis
    using assms(1,3) by (auto simp: ed_push_state_def granted_def snap_of_def Let_def split: prod.splits if_splits)
qed

lemma ed_push_state_cong:
  assumes "ed_len e' = ed_len e" "ed_buf e' = ed_buf e" "ed_cursor e' = ed_cursor e"
  shows "ed_push_state k st e' h = ed_push_state k st e h"
  unfolding ed_push_state_def ed_snap_size_def assms ..

lemma ed_before_edit_undo:
  assumes "ed_before_edit k now kind e h = (e1, h1)"
  shows "undo_st e1 = (if coalesces now kind e then undo_st e else fst (ed_push_state k (undo_st e) e h))"
  using assms by (auto simp: ed_before_edit_def coalesces_def Let_def split: prod.splits if_splits)

text \<open>Restoring a snapshot of \<open>e\<close> brings back its text and cursor.\<close>

lemma ed_restore_snap: "snap_of e s \<Longrightarrow> same_text e (fst (ed_restore k e' s h))"
  by (auto simp: ed_restore_def snap_of_def same_text_def ed_bytes_def)

lemma ed_undo_restores:
  assumes "undo_st e' \<noteq> []" "snap_of e (last (undo_st e'))"
  shows "same_text e (fst (ed_undo k e' h))"
  using assms ed_restore_snap by (auto simp: ed_undo_def split: prod.splits)

text \<open>Inside a burst the snapshot from before the burst stays on top of the stack.\<close>

definition burst :: "editor \<Rightarrow> u32 \<Rightarrow> editor \<Rightarrow> bool" where
  "burst e0 t e \<longleftrightarrow> pos_ok e \<and> undo_st e \<noteq> [] \<and> snap_of e0 (last (undo_st e)) \<and>
     (ed_len e \<ge> ED_MAX_LEN \<or> last_edit_kind e = 1 \<and> last_edit_tick e = t)"

lemma ed_insert_undo:
  assumes "ed_insert k now c e h = (e', h')" "pos_ok e" "ed_len e < ED_MAX_LEN"
  shows "undo_st e' = (if coalesces now 1 e then undo_st e else fst (ed_push_state k (undo_st e) e h)) \<and>
    last_edit_kind e' = 1 \<and> last_edit_tick e' = now"
proof -
  obtain e1 h1 where b: "ed_before_edit k now 1 e h = (e1, h1)" by fastforce
  obtain ok e2 h2 where g: "ed_grow k e1 h1 = (ok, e2, h2)" by (cases "ed_grow k e1 h1") auto
  note f = ed_before_edit_fields [OF b] and u = ed_before_edit_undo [OF b]
  have "pos_ok e1" using assms(2) f by (simp add: pos_ok_def)
  note r = ed_grow_fields [OF g this]
  show ?thesis
    using assms(1,3) b g r f u by (cases ok) (auto simp: ed_insert_def Let_def)
qed

lemma burst_first:
  assumes "ed_insert k now c e h = (e', h')" "pos_ok e" "ed_len e < ED_MAX_LEN" "\<not> coalesces now 1 e" "granted k e h"
  shows "burst e now e'"
proof -
  have "pos_ok e'" using ed_insert_text [OF assms(1,2)] by blast
  moreover have "undo_st e' = fst (ed_push_state k (undo_st e) e h) \<and> last_edit_kind e' = 1 \<and> last_edit_tick e' = now"
    using ed_insert_undo [OF assms(1-3)] assms(4) by simp
  ultimately show ?thesis
    using ed_push_state_top [OF _ assms(2,5)] by (metis burst_def prod.collapse)
qed

lemma burst_next:
  assumes "burst e0 t e" "now - t < 150" "ed_insert k now c e h = (e', h')"
  shows "burst e0 now e'"
proof (cases "ed_len e \<ge> ED_MAX_LEN")
  case True
  then show ?thesis using assms by (simp add: burst_def ed_insert_def)
next
  case False
  have p: "pos_ok e" using assms(1) by (simp add: burst_def)
  then have "pos_ok e'" using ed_insert_text [OF assms(3)] by blast
  then show ?thesis
    using assms ed_insert_undo [OF assms(3) p] False by (simp add: burst_def coalesces_def)
qed

text \<open>Typing a word: the characters with the ticks at which they arrive.\<close>

fun ed_type :: "'h services \<Rightarrow> (u32 \<times> u8) list \<Rightarrow> editor \<times> 'h \<Rightarrow> editor \<times> 'h" where
  "ed_type k [] eh = eh"
| "ed_type k ((t, c) # r) eh = ed_type k r (ed_insert k t c (fst eh) (snd eh))"

lemma burst_type:
  "burst e0 t e \<Longrightarrow> successively (\<lambda>x y. y - x < 150) (t # map fst tcs) \<Longrightarrow>
   \<exists>t'. burst e0 t' (fst (ed_type k tcs (e, h)))"
proof (induction tcs arbitrary: t e h)
  case (Cons tc tcs)
  obtain t1 c where tc: "tc = (t1, c)" by fastforce
  obtain e1 h1 where i: "ed_insert k t1 c e h = (e1, h1)" by fastforce
  have "t1 - t < 150" "successively (\<lambda>x y. y - x < 150) (t1 # map fst tcs)" using Cons.prems(2) tc by auto
  with Cons.IH [OF burst_next [OF Cons.prems(1) this(1) i]] show ?case by (simp add: tc i)
qed auto

text \<open>C22: a word typed in one go is one undo step. When the first character starts a new burst and
  its snapshot is granted, then whatever further characters follow within a second and a half of each
  other, however many there are and whether or not memory lasts, Ctrl+Z restores exactly the text and
  the cursor from before the first.\<close>
theorem editor_undo_takes_back_burst:
  assumes "pos_ok e" "ed_len e < ED_MAX_LEN" "\<not> coalesces t 1 e" "granted k e h"
    and "successively (\<lambda>x y. y - x < 150) (t # map fst tcs)"
  shows "let (e', h') = ed_type k ((t, c) # tcs) (e, h)
    in same_text e (fst (ed_undo k e' h'))"
proof -
  obtain e1 h1 where i: "ed_insert k t c e h = (e1, h1)" by (rule prod.exhaust)
  obtain t' where "burst e t' (fst (ed_type k tcs (e1, h1)))"
    using burst_type [OF burst_first [OF i assms(1-4)] assms(5), of k h1] by (rule exE)
  moreover obtain e' h' where r: "ed_type k ((t, c) # tcs) (e, h) = (e', h')" by (rule prod.exhaust)
  ultimately have "burst e t' e'" using i by simp
  then have "same_text e (fst (ed_undo k e' h'))" by (intro ed_undo_restores) (simp_all add: burst_def)
  then show ?thesis by (simp only: r Let_def case_prod_conv)
qed

text \<open>C36: Ctrl+Y undoes Ctrl+Z: when there is a step to undo and the snapshot of the present text is
  granted, redoing after undoing restores exactly the present text and cursor.\<close>
theorem editor_redo_after_undo:
  assumes "pos_ok e" "undo_st e \<noteq> []" "granted k e h"
  shows "let (e', h') = ed_undo k e h in same_text e (fst (ed_redo k e' h'))"
proof -
  obtain r h1 where p: "ed_push_state k (redo_st e) e h = (r, h1)" by (rule prod.exhaust)
  have t: "r \<noteq> []" "snap_of e (last r)" using ed_push_state_top [OF p assms(1,3)] by simp_all
  have u: "ed_undo k e h = ed_restore k (e\<lparr>redo_st := r, undo_st := butlast (undo_st e)\<rparr>) (last (undo_st e)) h1"
    using p assms(2) by (simp add: ed_undo_def)
  obtain e' h' where e': "ed_undo k e h = (e', h')" by (rule prod.exhaust)
  then have "e' = fst (ed_restore k (e\<lparr>redo_st := r, undo_st := butlast (undo_st e)\<rparr>) (last (undo_st e)) h1)"
    using u by simp
  then have "redo_st e' = r" by (simp add: ed_restore_def)
  moreover obtain u' h2 where "ed_push_state k (undo_st e') e' h' = (u', h2)" by (rule prod.exhaust)
  ultimately have "fst (ed_redo k e' h') = fst (ed_restore k (e'\<lparr>undo_st := u', redo_st := butlast r\<rparr>) (last r) h2)"
    using t(1) by (simp add: ed_redo_def)
  then have "same_text e (fst (ed_redo k e' h'))" using ed_restore_snap [OF t(2)] by simp
  then show ?thesis by (simp only: e' Let_def case_prod_conv)
qed

subsection \<open>Moving the cursor\<close>

text \<open>A move changes the cursor, the preferred column and the scroll position only.\<close>

definition unplaced :: "editor \<Rightarrow> editor" where
  "unplaced e = e\<lparr>ed_cursor := 0, prefcol := 0, scroll_line := 0, scroll_col := 0\<rparr>"

definition moved :: "editor \<Rightarrow> editor \<Rightarrow> bool" where
  "moved e e' \<longleftrightarrow> unplaced e' = unplaced e \<and> (pos_ok e \<longrightarrow> pos_ok e')"

lemma moved_refl: "moved e e"
  by (simp add: moved_def)

lemma moved_cursor: "(pos_ok e \<Longrightarrow> 0 \<le> c \<and> c \<le> ed_len e) \<Longrightarrow> moved e (e\<lparr>ed_cursor := c\<rparr>)"
  by (simp add: moved_def unplaced_def pos_ok_def)

lemma moved_sync: "moved e e' \<Longrightarrow> moved e (ed_sync_prefcol e')"
proof -
  have "unplaced (ed_sync_prefcol e') = unplaced e'" by (simp add: ed_sync_prefcol_def unplaced_def)
  then show "moved e e' \<Longrightarrow> moved e (ed_sync_prefcol e')" by (simp add: moved_def pos_ok_def)
qed

lemma line_end_bounds:
  assumes "pos_ok e" "0 \<le> c" "c \<le> ed_line_len e (ed_line_start e l)"
  shows "0 \<le> ed_line_start e l + c \<and> ed_line_start e l + c \<le> ed_len e"
proof -
  let ?n = "lstart (ed_bytes e) (nat l)"
  have "llen (drop ?n (ed_bytes e)) + ?n \<le> length (ed_bytes e)"
    using llen_le [of "drop ?n (ed_bytes e)"] lstart_le [of "ed_bytes e" "nat l"] by simp
  then have "int (llen (drop ?n (ed_bytes e))) + int ?n \<le> ed_len e"
    using assms(1) by (simp add: length_ed_bytes) (simp add: pos_ok_def le_nat_iff)
  then show ?thesis using assms by (simp add: ed_line_start_eq ed_line_len_eq)
qed

lemma line_len_nonneg: "0 \<le> ed_line_len e s"
  by (simp add: ed_line_len_eq)

lemma moved_vertical: "moved e (ed_vertical e dir)"
proof -
  obtain line col where lc: "ed_linecol e (ed_cursor e) = (line, col)" by (rule prod.exhaust)
  let ?s = "ed_line_start e (line + dir)"
  let ?c = "if prefcol e < ed_line_len e ?s then prefcol e else ed_line_len e ?s"
  have "pos_ok e \<Longrightarrow> 0 \<le> ?s + ?c \<and> ?s + ?c \<le> ed_len e"
    using line_len_nonneg by (intro line_end_bounds) (auto simp: pos_ok_def)
  then have "moved e (e\<lparr>ed_cursor := ?s + ?c\<rparr>)" by (rule moved_cursor)
  then show ?thesis using lc moved_refl by (simp add: ed_vertical_def Let_def)
qed

lemma moved_home: "moved e (ed_home e)"
proof -
  obtain line col where lc: "ed_linecol e (ed_cursor e) = (line, col)" by (rule prod.exhaust)
  have "pos_ok e \<Longrightarrow> 0 \<le> ed_line_start e line + 0 \<and> ed_line_start e line + 0 \<le> ed_len e"
    using line_len_nonneg by (intro line_end_bounds) auto
  then have "moved e (e\<lparr>ed_cursor := ed_line_start e line\<rparr>)" by (intro moved_cursor) auto
  then show ?thesis using lc moved_sync by (simp add: ed_home_def)
qed

lemma moved_end: "moved e (ed_end e)"
proof -
  obtain line col where lc: "ed_linecol e (ed_cursor e) = (line, col)" by (rule prod.exhaust)
  let ?s = "ed_line_start e line"
  have "pos_ok e \<Longrightarrow> 0 \<le> ?s + ed_line_len e ?s \<and> ?s + ed_line_len e ?s \<le> ed_len e"
    using line_len_nonneg by (intro line_end_bounds) auto
  then have "moved e (e\<lparr>ed_cursor := ?s + ed_line_len e ?s\<rparr>)" by (intro moved_cursor) auto
  then show ?thesis using lc moved_sync by (simp add: ed_end_def Let_def)
qed

lemma moved_scroll: "moved e (e\<lparr>scroll_line := sl, scroll_col := sc\<rparr>)"
  by (simp add: moved_def unplaced_def pos_ok_def)

lemma scroll_into_view_eq:
  "\<exists>sl sc. ed_scroll_into_view rows cols e = e\<lparr>scroll_line := sl, scroll_col := sc\<rparr>"
proof -
  obtain line col where lc: "ed_linecol e (ed_cursor e) = (line, col)" by (rule prod.exhaust)
  show ?thesis
    unfolding ed_scroll_into_view_def lc Let_def case_prod_conv
    by (cases e; simp split: if_splits; blast)
qed

lemma moved_scroll_into_view: "moved e (ed_scroll_into_view rows cols e)"
  using scroll_into_view_eq [of rows cols e] moved_scroll by metis

lemma moved_click: "moved e (editor_click w mx my e)"
proof -
  obtain tx ty rows cols where m: "ed_metrics w = (tx, ty, rows, cols)" by (cases "ed_metrics w") auto
  have *: "moved e (e\<lparr>ed_cursor := ed_line_start e l + (if c > ed_line_len e (ed_line_start e l) then ed_line_len e (ed_line_start e l) else c),
      prefcol := (if c > ed_line_len e (ed_line_start e l) then ed_line_len e (ed_line_start e l) else c)\<rparr>)"
    if "0 \<le> c" for l c
  proof -
    let ?c = "if c > ed_line_len e (ed_line_start e l) then ed_line_len e (ed_line_start e l) else c"
    have c: "0 \<le> ?c" "?c \<le> ed_line_len e (ed_line_start e l)" using that line_len_nonneg by auto
    have "pos_ok e \<Longrightarrow> 0 \<le> ed_line_start e l + ?c \<and> ed_line_start e l + ?c \<le> ed_len e"
      using line_end_bounds c by blast
    then show ?thesis using c(1) by (simp add: moved_def unplaced_def pos_ok_def)
  qed
  show ?thesis
  proof (cases "my \<ge> win_y w + win_h w - ED_STATUS_H")
    case True
    then show ?thesis using m by (simp add: editor_click_def moved_refl)
  next
    case False
    show ?thesis
      by (simp only: editor_click_def m case_prod_conv Let_def False if_False) (rule *, simp)
  qed
qed

subsection \<open>The blocks of an editor\<close>

text \<open>Besides the structure itself and the buffer, every snapshot is a block of the heap.\<close>

definition ed_ptrs :: "editor \<Rightarrow> u32 list" where
  "ed_ptrs e = ed_ptr e # ed_bufp e # map sn_ptr (undo_st e) @ map sn_ptr (redo_st e)"

definition snap_ok :: "nat \<Rightarrow> ed_snap \<Rightarrow> bool" where
  "snap_ok L s \<longleftrightarrow> 0 \<le> sn_cursor s \<and> sn_cursor s \<le> sn_len s \<and> sn_len s \<le> int L \<and>
     length (sn_buf s) = nat (if sn_len s \<noteq> 0 then sn_len s else 1)"

definition ed_ok :: "nat \<Rightarrow> editor \<Rightarrow> bool" where
  "ed_ok L e \<longleftrightarrow> pos_ok e \<and> ed_cap e \<le> int L \<and> length (undo_st e) \<le> ED_MAX_UNDO \<and> length (redo_st e) \<le> ED_MAX_UNDO \<and>
     (\<forall>s \<in> set (undo_st e) \<union> set (redo_st e). snap_ok L s)"

text \<open>A client owns the blocks \<open>ps\<close>, each once, next to the blocks \<open>R\<close> of everybody else.\<close>

definition owns :: "('h \<Rightarrow> u32 set) \<Rightarrow> ('h \<Rightarrow> bool) \<Rightarrow> u32 set \<Rightarrow> u32 list \<Rightarrow> 'h \<Rightarrow> bool" where
  "owns owned sane R ps h \<longleftrightarrow> sane h \<and> distinct ps \<and> set ps \<inter> R = {} \<and> owned h = R \<union> set ps"

definition ed_holds :: "('h \<Rightarrow> u32 set) \<Rightarrow> ('h \<Rightarrow> bool) \<Rightarrow> nat \<Rightarrow> u32 set \<Rightarrow> editor \<Rightarrow> 'h \<Rightarrow> bool" where
  "ed_holds owned sane L R e h \<longleftrightarrow> ed_ok L e \<and> owns owned sane R (ed_ptrs e) h"

lemma moved_holds:
  assumes "ed_holds owned sane limit R e h" "moved e e'"
  shows "ed_holds owned sane limit R e' h"
proof -
  have u: "unplaced e' = unplaced e" using assms(2) by (simp add: moved_def)
  have "f (unplaced e') = f (unplaced e)" for f :: "editor \<Rightarrow> 'z" by (simp add: u)
  from this [of ed_ptr] this [of ed_bufp] this [of undo_st] this [of redo_st] this [of ed_cap]
  have "ed_ptr e' = ed_ptr e" "ed_bufp e' = ed_bufp e" "undo_st e' = undo_st e" "redo_st e' = redo_st e" "ed_cap e' = ed_cap e"
    using u by (simp_all add: unplaced_def)
  then show ?thesis using assms by (simp add: ed_holds_def ed_ptrs_def ed_ok_def moved_def)
qed

lemma owns_perm: "mset ps = mset qs \<Longrightarrow> owns owned sane R ps h = owns owned sane R qs h"
  using mset_eq_imp_distinct_iff [of ps qs] mset_eq_setD [of ps qs] by (auto simp: owns_def)

lemma unat_of_int_le: "0 \<le> n \<Longrightarrow> n \<le> int L \<Longrightarrow> unat (of_int n :: u32) \<le> L"
proof -
  assume n: "0 \<le> n" "n \<le> int L"
  then have "(of_int n :: u32) = of_nat (nat n)" by simp
  moreover have "unat (of_nat (nat n) :: u32) \<le> nat n" unfolding unat_of_nat by (rule mod_less_eq_dividend)
  ultimately show ?thesis using n by simp
qed

locale editor_heap = allocator "k_malloc k" "k_free k" owned sane limit
  for k :: "'h services" and owned :: "'h \<Rightarrow> u32 set" and sane :: "'h \<Rightarrow> bool" and limit :: nat +
  assumes limit_large: "65536 \<le> limit"
    and write_ok: "sane h \<Longrightarrow> length b \<le> limit \<Longrightarrow> k_write k f b h = (r, h') \<Longrightarrow> sane h' \<and> owned h' = owned h"
    and refresh_ok: "sane h \<Longrightarrow> sane (k_refresh k h) \<and> owned (k_refresh k h) = owned h"
begin

lemma owns_alloc:
  assumes "owns owned sane R ps h" "k_malloc k n h = (p, h')" "unat n \<le> limit"
  shows "if p = 0 then owns owned sane R ps h' else owns owned sane R (p # ps) h'"
  using assms(1) alloc_ok [OF _ assms(3,2)] by (auto simp: owns_def)

lemma owns_release: "owns owned sane R (p # ps) h \<Longrightarrow> owns owned sane R ps (k_free k p h)"
  using release_ok [of h p] by (auto simp: owns_def)

lemma clear_stack_owns:
  "owns owned sane R (map sn_ptr st @ ps) h \<Longrightarrow> owns owned sane R ps (ed_clear_stack k st h)"
proof (induction st arbitrary: h)
  case (Cons s st)
  then have "owns owned sane R (map sn_ptr st @ ps) (k_free k (sn_ptr s) h)"
    using owns_release [of R "sn_ptr s"] by simp
  then show ?case using Cons.IH by (simp add: ed_clear_stack_def)
qed (simp add: ed_clear_stack_def)

lemma push_state_owns:
  assumes "owns owned sane R (map sn_ptr st @ ps) h" "ed_push_state k st e h = (st', h')"
    and "pos_ok e" "ed_cap e \<le> int limit" "length st \<le> ED_MAX_UNDO" "\<forall>s \<in> set st. snap_ok limit s"
  shows "owns owned sane R (map sn_ptr st' @ ps) h' \<and> length st' \<le> ED_MAX_UNDO \<and> (\<forall>s \<in> set st'. snap_ok limit s)"
proof -
  obtain p h1 where a: "k_malloc k (of_int (ed_snap_size e)) h = (p, h1)" by fastforce
  have sz: "0 \<le> ed_snap_size e" "ed_snap_size e \<le> int limit" "ed_len e \<le> ed_snap_size e"
    using assms(3,4) limit_large by (auto simp: ed_snap_size_def pos_ok_def)
  note o1 = owns_alloc [OF assms(1) a unat_of_int_le [OF sz(1,2)]]
  show ?thesis
  proof (cases "p = 0")
    case True
    then show ?thesis using a assms(2,5,6) o1 by (simp add: ed_push_state_def)
  next
    case False
    define sn where "sn = \<lparr>sn_ptr = p, sn_buf = copy_into (stale_block k p (ed_snap_size e)) (ed_buf e) (ed_len e),
      sn_len = ed_len e, sn_cursor = ed_cursor e\<rparr>"
    have sn: "snap_ok limit sn" "sn_ptr sn = p"
      using assms(3,4) sz by (simp_all add: sn_def snap_ok_def pos_ok_def copy_into_def stale_block_def
          min_absorb2 nat_mono ed_snap_size_def)
    have o2: "owns owned sane R (p # map sn_ptr st @ ps) h1" using o1 False by simp
    show ?thesis
    proof (cases "length st = ED_MAX_UNDO")
      case True
      then obtain s0 r where st: "st = s0 # r" by (cases st) (auto simp: ED_MAX_UNDO_def)
      have e: "st' = r @ [sn]" "h' = k_free k (sn_ptr s0) h1"
        using a assms(2) False True st by (auto simp: ed_push_state_def sn_def)
      have "owns owned sane R (sn_ptr s0 # p # map sn_ptr r @ ps) h1"
        using o2 owns_perm [of "sn_ptr s0 # p # map sn_ptr r @ ps" "p # map sn_ptr st @ ps" owned sane R h1] by (simp add: st)
      note owns_release [OF this]
      then have "owns owned sane R (map sn_ptr st' @ ps) h'"
        using owns_perm [of "p # map sn_ptr r @ ps" "map sn_ptr st' @ ps" owned sane R h'] by (simp add: e sn)
      then show ?thesis using e sn(1) st True assms(6) by auto
    next
      case False
      have e: "st' = st @ [sn]" "h' = h1"
        using a assms(2) False \<open>p \<noteq> 0\<close> by (auto simp: ed_push_state_def sn_def)
      have "owns owned sane R (map sn_ptr st' @ ps) h'"
        using o2 owns_perm [of "p # map sn_ptr st @ ps" "map sn_ptr st' @ ps" owned sane R h'] by (simp add: e sn)
      then show ?thesis using e sn(1) False assms(5,6) by auto
    qed
  qed
qed

lemma holds_owns:
  "ed_holds owned sane limit R e h \<longleftrightarrow> ed_ok limit e \<and>
     owns owned sane R (map sn_ptr (undo_st e) @ ed_ptr e # ed_bufp e # map sn_ptr (redo_st e)) h"
  "ed_holds owned sane limit R e h \<longleftrightarrow> ed_ok limit e \<and>
     owns owned sane R (map sn_ptr (redo_st e) @ ed_ptr e # ed_bufp e # map sn_ptr (undo_st e)) h"
  "ed_holds owned sane limit R e h \<longleftrightarrow> ed_ok limit e \<and>
     owns owned sane R (ed_bufp e # ed_ptr e # map sn_ptr (undo_st e) @ map sn_ptr (redo_st e)) h"
  unfolding ed_holds_def ed_ptrs_def
  by (intro arg_cong2 [where f = "(\<and>)"] refl owns_perm; simp)+

lemma before_edit_holds:
  assumes "ed_holds owned sane limit R e h" "ed_before_edit k now kind e h = (e1, h1)"
  shows "ed_holds owned sane limit R e1 h1"
proof -
  obtain u h0 where u: "(if coalesces now kind e then (undo_st e, h) else ed_push_state k (undo_st e) e h) = (u, h0)"
    by (rule prod.exhaust)
  let ?ps = "ed_ptr e # ed_bufp e # map sn_ptr (redo_st e)"
  have e: "ed_ok limit e" "pos_ok e" "ed_cap e \<le> int limit" "length (undo_st e) \<le> ED_MAX_UNDO" "\<forall>s \<in> set (undo_st e). snap_ok limit s"
    using assms(1) by (simp_all add: holds_owns ed_ok_def)
  have ow: "owns owned sane R (map sn_ptr (undo_st e) @ ?ps) h" using assms(1) by (simp add: holds_owns(1))
  have r: "owns owned sane R (map sn_ptr u @ ?ps) h0 \<and> length u \<le> ED_MAX_UNDO \<and> (\<forall>s \<in> set u. snap_ok limit s)"
  proof (cases "coalesces now kind e")
    case False
    then have "ed_push_state k (undo_st e) e h = (u, h0)" using u by simp
    from push_state_owns [OF ow this e(2-5)] show ?thesis .
  qed (use u ow e in simp)
  then have "owns owned sane R (map sn_ptr (redo_st e) @ ed_ptr e # ed_bufp e # map sn_ptr u) h0"
    using owns_perm [of "map sn_ptr u @ ?ps" "map sn_ptr (redo_st e) @ ed_ptr e # ed_bufp e # map sn_ptr u" owned sane R h0]
    by simp
  note c = clear_stack_owns [OF this]
  have e1: "e1 = e\<lparr>undo_st := u, last_edit_tick := now, last_edit_kind := kind, redo_st := [], modified := True\<rparr>"
    "h1 = ed_clear_stack k (redo_st e) h0"
    using assms(2) u
    by (cases e; auto simp: ed_before_edit_def coalesces_def Let_def split: if_splits prod.splits)+
  show ?thesis
    using c r e(1) by (simp add: ed_holds_def e1 ed_ptrs_def ed_ok_def pos_ok_def)
qed

lemma grow_holds:
  assumes "ed_holds owned sane limit R e h" "ed_grow k e h = (ok, e1, h1)" "ed_len e < ED_MAX_LEN"
  shows "ed_holds owned sane limit R e1 h1"
proof -
  have e: "ed_ok limit e" "pos_ok e" using assms(1) by (simp_all add: ed_holds_def ed_ok_def)
  let ?ps = "ed_ptr e # map sn_ptr (undo_st e) @ map sn_ptr (redo_st e)"
  have ow: "owns owned sane R (ed_bufp e # ?ps) h" using assms(1) by (simp add: holds_owns(3))
  have al: "k_malloc k (of_int (ed_newcap e)) h = (p, h') \<Longrightarrow> ed_cap e \<le> ed_len e \<Longrightarrow>
      if p = 0 then owns owned sane R (ed_bufp e # ?ps) h' else owns owned sane R (p # ed_bufp e # ?ps) h'" for p h'
  proof (rule owns_alloc [OF ow])
    assume "ed_cap e \<le> ed_len e"
    then have "0 \<le> ed_newcap e" "ed_newcap e \<le> int 65536"
      using assms(3) e(2) by (auto simp: ed_newcap_def ED_MAX_LEN_def pos_ok_def)
    then have "unat (of_int (ed_newcap e) :: u32) \<le> 65536" by (rule unat_of_int_le)
    then show "unat (of_int (ed_newcap e) :: u32) \<le> limit" using limit_large by simp
  qed
  show ?thesis
  proof (cases "ed_len e + 1 > ed_cap e")
    case False
    then show ?thesis using assms(1,2) by (simp add: ed_grow_def)
  next
    case True
    then have cap: "ed_cap e \<le> ed_len e" by simp
    from ed_grow_cases [OF assms(2)] show ?thesis
    proof (elim disjE exE conjE)
      assume "e1 = e" "ok \<longrightarrow> ed_len e < ed_cap e \<and> h1 = h" "\<not> ok \<longrightarrow> k_malloc k (of_int (ed_newcap e)) h = (0, h1)"
      then show ?thesis using al [of 0 h1] cap e by (auto simp: holds_owns(3))
    next
      fix nb h0 assume n: "k_malloc k (of_int (ed_newcap e)) h = (nb, h0)" "nb \<noteq> 0"
        "e1 = grown_buf k nb e" "h1 = k_free k (ed_bufp e) h0"
      then have "owns owned sane R (ed_bufp e # nb # ?ps) h0"
        using al [OF n(1) cap] owns_perm [of "ed_bufp e # nb # ?ps" "nb # ed_bufp e # ?ps" owned sane R h0] by simp
      note owns_release [OF this]
      moreover have "ed_newcap e \<le> int limit"
        using assms(3) cap limit_large by (simp add: ed_newcap_def ED_MAX_LEN_def)
      ultimately show ?thesis
        using e(1) grown_buf_fields [OF e(2) cap, of k nb] n by (simp add: holds_owns(3) ed_ok_def)
    qed
  qed
qed

lemma insert_holds:
  assumes "ed_holds owned sane limit R e h" "ed_insert k now c e h = (e', h')"
  shows "ed_holds owned sane limit R e' h'"
proof (cases "ed_len e \<ge> ED_MAX_LEN")
  case True
  then show ?thesis using assms by (simp add: ed_insert_def)
next
  case False
  obtain e1 h1 where b: "ed_before_edit k now 1 e h = (e1, h1)" by (rule prod.exhaust)
  obtain ok e2 h2 where g: "ed_grow k e1 h1 = (ok, e2, h2)" by (cases "ed_grow k e1 h1") auto
  have l1: "ed_len e1 < ED_MAX_LEN" using ed_before_edit_fields [OF b] False by simp
  note h1 = before_edit_holds [OF assms(1) b]
  then have p1: "pos_ok e1" by (simp add: ed_holds_def ed_ok_def)
  note h2 = grow_holds [OF h1 g l1] and r = ed_grow_fields [OF g p1]
  show ?thesis
  proof (cases ok)
    case False
    then show ?thesis using assms(2) b g \<open>\<not> ED_MAX_LEN \<le> ed_len e\<close> h2 by (simp add: ed_insert_def Let_def)
  next
    case True
    define e3 where "e3 = e2\<lparr>ed_buf := (move_in (ed_cursor e2 + 1) (ed_cursor e2) (ed_len e2 - ed_cursor e2) (ed_buf e2))[nat (ed_cursor e2) := c],
                ed_len := ed_len e2 + 1, ed_cursor := ed_cursor e2 + 1\<rparr>"
    have "e' = ed_sync_prefcol e3" "h' = h2"
      using assms(2) b g True \<open>\<not> ED_MAX_LEN \<le> ed_len e\<close> by (simp_all add: ed_insert_def Let_def e3_def)
    moreover have "pos_ok e3 \<and> inserted c e2 e3" using insert_step [OF _ _ e3_def] r True by blast
    ultimately show ?thesis
      using h2 by (simp add: ed_holds_def ed_ptrs_def ed_ok_def pos_ok_def e3_def)
  qed
qed

lemma delete_holds:
  assumes "ed_holds owned sane limit R e h" "ed_delete_at k now pos e h = (e', h')"
  shows "ed_holds owned sane limit R e' h'"
proof (cases "0 \<le> pos \<and> pos < ed_len e")
  case False
  then show ?thesis using assms by (auto simp: ed_delete_at_def)
next
  case True
  obtain e1 h1 where b: "ed_before_edit k now 2 e h = (e1, h1)" by (rule prod.exhaust)
  note h1 = before_edit_holds [OF assms(1) b]
  then have p1: "pos_ok e1" by (simp add: ed_holds_def ed_ok_def)
  define e2 where "e2 = e1\<lparr>ed_buf := move_in pos (pos + 1) (ed_len e1 - pos - 1) (ed_buf e1), ed_len := ed_len e1 - 1, ed_cursor := pos\<rparr>"
  have "e' = ed_sync_prefcol e2" "h' = h1" using assms(2) b True by (simp_all add: ed_delete_at_def e2_def)
  moreover have "pos_ok e2 \<and> deleted pos e1 e2"
    using delete_step [OF p1 _ _ e2_def] True ed_before_edit_fields [OF b] by simp
  ultimately show ?thesis
    using h1 by (simp add: ed_holds_def ed_ptrs_def ed_ok_def pos_ok_def e2_def)
qed

text \<open>Undo and redo move a snapshot out of one stack into the editor and the old buffer is freed.\<close>

lemma restore_holds:
  assumes "ed_ok limit e" "snap_ok limit s"
    and "owns owned sane R (ed_bufp e # sn_ptr s # ed_ptr e # map sn_ptr (undo_st e) @ map sn_ptr (redo_st e)) h"
    and "ed_restore k e s h = (e', h')"
  shows "ed_holds owned sane limit R e' h'"
proof -
  have "ed_bufp e' = sn_ptr s" "ed_ptr e' = ed_ptr e" "undo_st e' = undo_st e" "redo_st e' = redo_st e"
    "h' = k_free k (ed_bufp e) h"
    using assms(4) by (auto simp: ed_restore_def)
  moreover have "0 \<le> sn_cursor s" "sn_cursor s \<le> sn_len s" "sn_len s \<le> int limit"
    "length (sn_buf s) = nat (if sn_len s \<noteq> 0 then sn_len s else 1)"
    using assms(2) by (simp_all add: snap_ok_def)
  then have "ed_ok limit e'"
    using assms(1,4) limit_large by (auto simp: ed_restore_def ed_ok_def pos_ok_def)
  ultimately show ?thesis
    using owns_release [OF assms(3)] by (simp add: holds_owns(3))
qed

lemma undo_holds:
  assumes "ed_holds owned sane limit R e h" "ed_undo k e h = (e', h')"
  shows "ed_holds owned sane limit R e' h'"
proof (cases "undo_st e = []")
  case True
  then show ?thesis using assms by (simp add: ed_undo_def)
next
  case False
  then obtain us s where us: "undo_st e = us @ [s]" by (cases "undo_st e" rule: rev_cases) auto
  obtain r h1 where p: "ed_push_state k (redo_st e) e h = (r, h1)" by (rule prod.exhaust)
  let ?ps = "ed_ptr e # ed_bufp e # map sn_ptr (undo_st e)"
  have e: "ed_ok limit e" "pos_ok e" "ed_cap e \<le> int limit" "length (redo_st e) \<le> ED_MAX_UNDO" "\<forall>s \<in> set (redo_st e). snap_ok limit s"
    and ow: "owns owned sane R (map sn_ptr (redo_st e) @ ?ps) h"
    using assms(1) by (simp_all add: holds_owns(2) ed_ok_def)
  note r = push_state_owns [OF ow p e(2-5)]
  let ?e = "e\<lparr>redo_st := r, undo_st := us\<rparr>"
  have "owns owned sane R (ed_bufp ?e # sn_ptr s # ed_ptr ?e # map sn_ptr (undo_st ?e) @ map sn_ptr (redo_st ?e)) h1"
    using r owns_perm [of "map sn_ptr r @ ?ps" "ed_bufp e # sn_ptr s # ed_ptr e # map sn_ptr us @ map sn_ptr r" owned sane R h1]
    by (simp add: us)
  moreover have "ed_ok limit ?e" "snap_ok limit s" using e r by (auto simp: us ed_ok_def pos_ok_def)
  moreover have "ed_restore k ?e s h1 = (e', h')" using assms(2) p us by (simp add: ed_undo_def)
  ultimately show ?thesis by (intro restore_holds)
qed

lemma redo_holds:
  assumes "ed_holds owned sane limit R e h" "ed_redo k e h = (e', h')"
  shows "ed_holds owned sane limit R e' h'"
proof (cases "redo_st e = []")
  case True
  then show ?thesis using assms by (simp add: ed_redo_def)
next
  case False
  then obtain us s where us: "redo_st e = us @ [s]" by (cases "redo_st e" rule: rev_cases) auto
  obtain r h1 where p: "ed_push_state k (undo_st e) e h = (r, h1)" by (rule prod.exhaust)
  let ?ps = "ed_ptr e # ed_bufp e # map sn_ptr (redo_st e)"
  have e: "ed_ok limit e" "pos_ok e" "ed_cap e \<le> int limit" "length (undo_st e) \<le> ED_MAX_UNDO" "\<forall>s \<in> set (undo_st e). snap_ok limit s"
    and ow: "owns owned sane R (map sn_ptr (undo_st e) @ ?ps) h"
    using assms(1) by (simp_all add: holds_owns(1) ed_ok_def)
  note r = push_state_owns [OF ow p e(2-5)]
  let ?e = "e\<lparr>undo_st := r, redo_st := us\<rparr>"
  have "owns owned sane R (ed_bufp ?e # sn_ptr s # ed_ptr ?e # map sn_ptr (undo_st ?e) @ map sn_ptr (redo_st ?e)) h1"
    using r owns_perm [of "map sn_ptr r @ ?ps" "ed_bufp e # sn_ptr s # ed_ptr e # map sn_ptr r @ map sn_ptr us" owned sane R h1]
    by (simp add: us)
  moreover have "ed_ok limit ?e" "snap_ok limit s" using e r by (auto simp: us ed_ok_def pos_ok_def)
  moreover have "ed_restore k ?e s h1 = (e', h')" using assms(2) p us by (simp add: ed_redo_def)
  ultimately show ?thesis by (intro restore_holds)
qed

lemma tab_holds:
  assumes "ed_holds owned sane limit R e h" "ed_tab k now e h = (e', h')"
  shows "ed_holds owned sane limit R e' h'"
proof -
  have "ed_holds owned sane limit R (fst eh) (snd eh) \<Longrightarrow>
      fold (\<lambda>i (e, h). ed_insert k (now i) 32 e h) is eh = (e', h') \<Longrightarrow> ed_holds owned sane limit R e' h'" for "is" eh
  proof (induction "is" arbitrary: eh)
    case (Cons i r)
    obtain e1 h1 where i: "ed_insert k (now i) 32 (fst eh) (snd eh) = (e1, h1)" by (rule prod.exhaust)
    have "fold (\<lambda>i (e, h). ed_insert k (now i) 32 e h) r (e1, h1) = (e', h')"
      using Cons.prems(2) i by (cases eh) simp
    with Cons.IH [of "(e1, h1)"] insert_holds [OF Cons.prems(1) i] show ?case by simp
  qed simp
  from this [of "(e, h)" "[0..<4]"] assms show ?thesis by (simp add: ed_tab_def)
qed

lemma save_holds:
  assumes "ed_holds owned sane limit R e h" "editor_save k e h = (e', h')"
  shows "ed_holds owned sane limit R e' h'"
proof -
  obtain r h1 where w: "k_write k (filename e) (ed_bytes e) h = (r, h1)" by (rule prod.exhaust)
  have "sane h" "owned h = R \<union> set (ed_ptrs e)" using assms(1) by (simp_all add: ed_holds_def owns_def)
  have "length (ed_bytes e) \<le> limit"
    using assms(1) length_ed_bytes [of e] by (auto simp: ed_holds_def ed_ok_def pos_ok_def nat_le_iff)
  with \<open>sane h\<close> have "sane h1 \<and> owned h1 = owned h" "sane (k_refresh k h1) \<and> owned (k_refresh k h1) = owned h"
    using write_ok [OF \<open>sane h\<close> _ w] refresh_ok [of h1] by auto
  then have "owns owned sane R (ed_ptrs e) h1" "owns owned sane R (ed_ptrs e) (k_refresh k h1)"
    using assms(1) by (simp_all add: ed_holds_def owns_def)
  moreover have "ed_ok limit e" "ed_ok limit (e\<lparr>modified := False\<rparr>)" "ed_ptrs (e\<lparr>modified := False\<rparr>) = ed_ptrs e"
    using assms(1) by (simp_all add: ed_holds_def ed_ok_def pos_ok_def ed_ptrs_def)
  moreover have "(e', h') = (if r = 0 then (e\<lparr>modified := False\<rparr>, k_refresh k h1) else (e, h1))"
    using assms(2) w by (simp add: editor_save_def)
  ultimately show ?thesis by (cases "r = 0") (simp_all add: ed_holds_def)
qed

lemma ed_key_holds:
  assumes "ed_holds owned sane limit R e h" "ed_key k now ch e h = (e', h')"
  shows "ed_holds owned sane limit R e' h'"
proof -
  have m: "moved e e1 \<Longrightarrow> ed_holds owned sane limit R e1 h" for e1 using moved_holds [OF assms(1)] .
  have l: "moved e (ed_sync_prefcol (if ed_cursor e > 0 then e\<lparr>ed_cursor := ed_cursor e - 1\<rparr> else e))"
    by (rule moved_sync) (auto intro: moved_refl moved_cursor simp: pos_ok_def)
  have r: "moved e (ed_sync_prefcol (if ed_cursor e < ed_len e then e\<lparr>ed_cursor := ed_cursor e + 1\<rparr> else e))"
    by (rule moved_sync) (auto intro: moved_refl moved_cursor simp: pos_ok_def)
  show ?thesis
    using assms(2) assms(1) m [OF l] m [OF r] m [OF moved_vertical] m [OF moved_home] m [OF moved_end]
      delete_holds [OF assms(1)] insert_holds [OF assms(1)] tab_holds [OF assms(1)] save_holds [OF assms(1)]
      undo_holds [OF assms(1)] redo_holds [OF assms(1)]
    unfolding ed_key_def by (simp only: prod.inject split: if_splits) blast+
qed

lemma editor_key_holds:
  assumes "ed_holds owned sane limit R e h" "editor_key k now w ch e h = (e', h')"
  shows "ed_holds owned sane limit R e' h'"
proof -
  obtain tx ty rows cols where "ed_metrics w = (tx, ty, rows, cols)" by (cases "ed_metrics w") auto
  moreover obtain e1 h1 where e1: "ed_key k now ch e h = (e1, h1)" by (rule prod.exhaust)
  ultimately have "e' = ed_scroll_into_view rows cols e1" "h' = h1" using assms(2) by (simp_all add: editor_key_def)
  then show ?thesis using moved_holds [OF ed_key_holds [OF assms(1) e1] moved_scroll_into_view] by simp
qed

lemma click_holds: "ed_holds owned sane limit R e h \<Longrightarrow> ed_holds owned sane limit R (editor_click w mx my e) h"
  by (rule moved_holds [OF _ moved_click])

lemma close_owns:
  assumes "ed_holds owned sane limit R e h"
  shows "owns owned sane R [] (editor_close k e h)"
proof -
  let ?u = "map sn_ptr (undo_st e)" and ?r = "map sn_ptr (redo_st e)"
  have "owns owned sane R (?u @ ?r @ [ed_bufp e, ed_ptr e]) h"
    using assms owns_perm [of "?u @ ?r @ [ed_bufp e, ed_ptr e]" "ed_ptrs e" owned sane R h]
    by (simp add: ed_holds_def ed_ptrs_def)
  from owns_release [OF owns_release [OF clear_stack_owns [OF clear_stack_owns [OF this]]]]
  show ?thesis by (simp add: editor_close_def)
qed

end

subsection \<open>Examples\<close>

text \<open>Services whose memory never ends: the state is the last pointer handed out.\<close>

definition plenty :: "u32 services" where
  "plenty = \<lparr>k_malloc = (\<lambda>n h. (h + 8, h + 8)), k_free = (\<lambda>p h. h), k_stale = (\<lambda>_. 0),
     k_write = (\<lambda>f b h. (0, h)), k_refresh = id\<rparr>"

text \<open>An editor on the text \<open>"a\nb"\<close>, the cursor behind the \<open>a\<close>.\<close>

definition small_editor :: editor where
  "small_editor = \<lparr>ed_ptr = 8, ed_bufp = 16, ed_buf = [97, 10, 98, 0], ed_len = 3, ed_cap = 4, ed_cursor = 1,
     scroll_line = 0, scroll_col = 0, prefcol = 1, modified = False, filename = [97], undo_st = [], redo_st = [],
     last_edit_tick = 0, last_edit_kind = 0\<rparr>"

lemma small_editor_ok: "pos_ok small_editor"
  by (simp add: pos_ok_def small_editor_def)

lemma plenty_grants: "granted plenty small_editor 16"
  by (simp add: granted_def plenty_def)

lemma editor_linecol_inverse_witness:
  "ed_linecol small_editor 2 = (1, 0) \<and> ed_line_start small_editor 1 + 0 = 2"
proof -
  have l: "ed_linecol small_editor 2 = (1, 0)" by code_simp
  have "0 \<le> (2 :: int) \<and> (2 :: int) \<le> ed_len small_editor" by (simp add: small_editor_def)
  from editor_linecol_inverse [OF small_editor_ok, THEN conjunct1, rule_format, OF this] l show ?thesis by simp
qed

lemma editor_undo_takes_back_burst_witness:
  "let (e', h') = ed_type plenty [(5, 120), (9, 121)] (small_editor, 16)
   in same_text small_editor (fst (ed_undo plenty e' h'))"
proof (rule editor_undo_takes_back_burst)
  show "pos_ok small_editor" by (rule small_editor_ok)
  show "granted plenty small_editor 16" by (rule plenty_grants)
qed (simp_all add: small_editor_def ED_MAX_LEN_def coalesces_def)

lemma editor_redo_after_undo_witness:
  "let (e1, h1) = ed_insert plenty 5 120 small_editor 16; (e', h') = ed_undo plenty e1 h1
   in same_text e1 (fst (ed_redo plenty e' h'))"
proof -
  obtain e1 h1 where i: "ed_insert plenty 5 120 small_editor 16 = (e1, h1)" by (rule prod.exhaust)
  have "pos_ok e1" using ed_insert_text [OF i small_editor_ok] by blast
  moreover have "undo_st (fst (ed_insert plenty 5 120 small_editor 16)) \<noteq> []" by code_simp
  then have "undo_st e1 \<noteq> []" using i by simp
  moreover have "fst (ed_insert plenty 5 120 small_editor 16) = e1" using i by simp
  have "fst (k_malloc plenty (of_int (ed_snap_size (fst (ed_insert plenty 5 120 small_editor 16)))) (snd (ed_insert plenty 5 120 small_editor 16))) \<noteq> 0"
    by code_simp
  then have "granted plenty e1 h1" using i by (simp add: granted_def)
  ultimately show ?thesis using editor_redo_after_undo [of e1 plenty h1] i by simp
qed

end
