(* ===== verification/Heap_Use.thy ===== *)
theory Heap_Use
  imports Heap
begin

text \<open>
  The kernel heap as its clients see it: \<open>kmalloc\<close> and \<open>kfree\<close> satisfy the contract \<open>allocator\<close>.
  The heap grows one frame at a time out of the frames that are free, so the mapped bytes and the
  free frames together never increase; that keeps the heap inside its address range for good.
\<close>

subsection \<open>Growth is paid for with frames\<close>

definition spent :: "heap \<Rightarrow> nat" where
  "spent hp = unat (heap_mapped hp) + 4096 * card (avail_frames (pg_pmm (heap_pg hp)))"

definition frames_used :: "pmm \<Rightarrow> nat \<Rightarrow> pmm \<Rightarrow> bool" where
  "frames_used p k p' \<longleftrightarrow> pmm_inv p' \<and> k + card (avail_frames p') \<le> card (avail_frames p)"

lemma frames_used_refl: "pmm_inv p \<Longrightarrow> frames_used p 0 p"
  by (simp add: frames_used_def)

lemma frames_used_trans: "frames_used p j q \<Longrightarrow> frames_used q k r \<Longrightarrow> frames_used p (j + k) r"
  by (simp add: frames_used_def)

lemma frames_used_alloc:
  assumes "pmm_inv p" "pmm_alloc_frame p = (a, p')"
  shows "frames_used p (if a = 0 then 0 else 1) p'"
proof -
  have i: "pmm_inv p'" using pmm_source.alloc_inv [OF assms(1)] assms(2) by simp
  have av: "avail_frames p' = avail_frames p - {a}"
    using pmm_source.alloc_avail [OF assms(1)] assms(2) by simp
  have "a \<noteq> 0 \<Longrightarrow> a \<in> avail_frames p"
    using pmm_source.alloc_some [OF assms(1) _ assms(2)] pmm_source.alloc_none [OF assms(1)] assms(2) by fastforce
  then have "a \<noteq> 0 \<Longrightarrow> card (avail_frames p) = Suc (card (avail_frames p'))"
    using av by (metis card.remove pmm_source.finite_avail)
  moreover have "card (avail_frames p') \<le> card (avail_frames p)"
    using av by (simp add: card_Diff1_le pmm_source.finite_avail)
  ultimately show ?thesis using i by (simp add: frames_used_def)
qed

lemma frames_used_weaken: "frames_used p k p' \<Longrightarrow> j \<le> k \<Longrightarrow> frames_used p j p'"
  by (simp add: frames_used_def)

lemma paging_map_frames:
  assumes "pmm_inv (pg_pmm pg)"
  shows "frames_used (pg_pmm pg) 0 (pg_pmm (paging_map v f pg))"
proof (cases "page_dir pg (pd_idx v) AND PTE_PRESENT \<noteq> 0")
  case True
  then show ?thesis using assms by (simp add: paging_map_def frames_used_refl)
next
  case False
  obtain a p' where a: "pmm_alloc_frame (pg_pmm pg) = (a, p')" by fastforce
  then have "pg_pmm (paging_map v f pg) = p'" using False by (simp add: paging_map_def)
  then show ?thesis using frames_used_weaken [OF frames_used_alloc [OF assms a]] by simp
qed

lemma map_frames_used:
  "pmm_inv (pg_pmm pg) \<Longrightarrow> map_frames n base g pg = (g', pg') \<Longrightarrow>
   \<exists>k. g' = g + of_nat (4096 * k) \<and> frames_used (pg_pmm pg) k (pg_pmm pg')"
proof (induction n arbitrary: g pg)
  case 0
  then show ?case by (intro exI [of _ 0]) (simp add: frames_used_refl)
next
  case (Suc n)
  obtain a p' where a: "pmm_alloc_frame (pg_pmm pg) = (a, p')" by fastforce
  note u = frames_used_alloc [OF Suc.prems(1) a]
  show ?case
  proof (cases "a = 0")
    case True
    with Suc.prems a u show ?thesis by (intro exI [of _ 0]) auto
  next
    case False
    let ?pg = "paging_map (base + g) a (pg\<lparr>pg_pmm := p'\<rparr>)"
    have m: "map_frames n base (g + FRAME_SIZE) ?pg = (g', pg')" using Suc.prems(2) a False by simp
    have "pmm_inv p'" using u by (simp add: frames_used_def)
    then have v: "frames_used p' 0 (pg_pmm ?pg)" using paging_map_frames [of "pg\<lparr>pg_pmm := p'\<rparr>"] by simp
    then have "pmm_inv (pg_pmm ?pg)" by (simp add: frames_used_def)
    from Suc.IH [OF this m] obtain k where
      k: "g' = g + FRAME_SIZE + of_nat (4096 * k)" "frames_used (pg_pmm ?pg) k (pg_pmm pg')" by blast
    have "frames_used (pg_pmm pg) (Suc k) (pg_pmm pg')"
      using frames_used_trans [OF frames_used_trans [OF u v] k(2)] False by simp
    then show ?thesis using k(1) by (intro exI [of _ "Suc k"]) (simp add: FRAME_SIZE_def algebra_simps)
  qed
qed

definition within :: "heap \<Rightarrow> heap \<Rightarrow> bool" where
  "within hp hp' \<longleftrightarrow> pmm_inv (pg_pmm (heap_pg hp')) \<and> spent hp' \<le> spent hp"

lemma within_grown:
  assumes "frames_used (pg_pmm (heap_pg hp)) k (pg_pmm (heap_pg hp'))" "heap_mapped hp' = heap_mapped hp + of_nat (4096 * k)"
  shows "within hp hp'"
proof -
  have "unat (of_nat (4096 * k) :: u32) \<le> 4096 * k"
    unfolding unat_of_nat by (rule order_trans [OF mod_less_eq_dividend]) simp
  moreover have "unat (heap_mapped hp') \<le> unat (heap_mapped hp) + unat (of_nat (4096 * k) :: u32)"
    unfolding assms(2) unat_word_ariths by (rule mod_less_eq_dividend)
  ultimately show ?thesis using assms(1) by (simp add: within_def spent_def frames_used_def)
qed

lemma append_block_keeps:
  "append_block b hp = Some hp' \<Longrightarrow> heap_pg hp' = heap_pg hp \<and> heap_mapped hp' = heap_mapped hp"
  by (auto simp: append_block_def split: if_splits option.splits)

lemma coalesce_keeps:
  "coalesce hp = Some hp' \<Longrightarrow> heap_pg hp' = heap_pg hp \<and> heap_mapped hp' = heap_mapped hp"
  by (auto simp: coalesce_def split: option.splits)

lemma expand_within:
  assumes "pmm_inv (pg_pmm (heap_pg hp))" "expand want hp = Some (ok, hp')"
  shows "within hp hp'"
proof -
  obtain g pg where m: "map_frames (unat (expand_pages want)) (HEAP_BASE + heap_mapped hp) 0 (heap_pg hp) = (g, pg)"
    by fastforce
  from map_frames_used [OF assms(1) m] obtain k where
    k: "g = of_nat (4096 * k)" "frames_used (pg_pmm (heap_pg hp)) k (pg_pmm pg)" by auto
  show ?thesis
  proof (cases "g = 0")
    case True
    then have "hp' = hp\<lparr>heap_pg := pg\<rparr>" using assms(2) m by (simp add: expand_def)
    then show ?thesis using within_grown [of hp 0 hp'] frames_used_weaken [OF k(2)] by simp
  next
    case False
    then have "heap_pg hp' = pg \<and> heap_mapped hp' = heap_mapped hp + g"
      using assms(2) m by (auto simp: expand_def Let_def split: option.splits dest!: append_block_keeps coalesce_keeps)
    then show ?thesis using within_grown [of hp k hp'] k by simp
  qed
qed

lemma kmalloc_try_within:
  "pmm_inv (pg_pmm (heap_pg hp)) \<Longrightarrow> kmalloc_try n want hp = Some (p, hp') \<Longrightarrow> within hp hp'"
proof (induction n arbitrary: hp)
  case (Suc n)
  then obtain b where b: "find_fit (blocks hp) want (heap_head hp) = Some b" by (auto split: option.splits)
  show ?case
  proof (cases "b = 0")
    case False
    then show ?thesis using Suc.prems b by (auto simp: within_def spent_def)
  next
    case True
    then obtain ok hp1 where e: "expand want hp = Some (ok, hp1)" using Suc.prems b by (auto split: option.splits)
    note w = expand_within [OF Suc.prems(1) e]
    show ?thesis
    proof (cases ok)
      case True
      have i: "pmm_inv (pg_pmm (heap_pg hp1))" using w by (simp add: within_def)
      have t: "kmalloc_try n want hp1 = Some (p, hp')" using Suc.prems(2) b \<open>b = 0\<close> e True by simp
      show ?thesis using Suc.IH [OF i t] w by (auto simp: within_def)
    next
      case False
      then show ?thesis using Suc.prems(2) b \<open>b = 0\<close> e w by simp
    qed
  qed
qed (simp add: within_def)

subsection \<open>The contract\<close>

lemma chain_unique: "chain m p as \<Longrightarrow> chain m p bs \<Longrightarrow> as = bs"
proof (induction as arbitrary: p bs)
  case Nil
  then show ?case by (cases bs) auto
next
  case (Cons a as)
  then show ?case by (cases bs) auto
qed

text \<open>The largest request a client makes, and the pointers handed out and not given back. The
  allocator as a total function: a call that does not return never happens (\<open>heap_alloc_returns\<close>).\<close>

definition max_request :: nat where "max_request = 0x2100000"

definition heap_owned :: "heap \<Rightarrow> u32 set" where
  "heap_owned hp = {p. \<exists>as n. heap_inv hp as \<and> (p - 12, n) \<in> live (blocks hp) as}"

definition heap_sane :: "heap \<Rightarrow> bool" where
  "heap_sane hp \<longleftrightarrow> (\<exists>as. heap_inv hp as) \<and> pmm_inv (pg_pmm (heap_pg hp)) \<and>
     0xD0000000 + spent hp + 2 * (max_request + 16400) < 4294967296"

definition heap_alloc :: "u32 \<Rightarrow> heap \<Rightarrow> u32 \<times> heap" where
  "heap_alloc n hp = (case kmalloc n hp of None \<Rightarrow> (0, hp) | Some r \<Rightarrow> r)"

definition heap_release :: "u32 \<Rightarrow> heap \<Rightarrow> heap" where
  "heap_release p hp = (case kfree p hp of None \<Rightarrow> hp | Some hp' \<Rightarrow> hp')"

lemma heap_owned_eq: "heap_inv hp as \<Longrightarrow> heap_owned hp = {p. \<exists>n. (p - 12, n) \<in> live (blocks hp) as}"
  unfolding heap_owned_def heap_inv_def using chain_unique by blast

lemma heap_alloc_returns:
  assumes "heap_sane hp" "n \<noteq> 0" "unat n \<le> max_request" "heap_inv hp as"
  shows "\<exists>p hp' as'. kmalloc n hp = Some (p, hp') \<and> heap_inv hp' as' \<and>
    (p = 0 \<and> live (blocks hp') as' = live (blocks hp) as \<or>
     p \<noteq> 0 \<and> (\<exists>k \<ge> unat n. live (blocks hp') as' = insert (p - 12, k) (live (blocks hp) as) \<and>
       (\<forall>r \<in> live (blocks hp) as. apart (p - 12) k r)))"
proof -
  have "unat (heap_mapped hp) \<le> spent hp" by (simp add: spent_def)
  then have "0xD0000000 + unat (heap_mapped hp) + 2 * (unat n + 16400) < 4294967296"
    using assms by (simp add: heap_sane_def)
  from kmalloc_returns_apart [OF assms(4,2) this] show ?thesis .
qed

lemma kmalloc_within: "pmm_inv (pg_pmm (heap_pg hp)) \<Longrightarrow> kmalloc n hp = Some (p, hp') \<Longrightarrow> within hp hp'"
  using kmalloc_try_within by (auto simp: kmalloc_def within_def split: if_splits)

lemma heap_alloc_contract:
  assumes s: "heap_sane hp" and n: "unat n \<le> max_request" and a: "heap_alloc n hp = (p, hp')"
  shows "heap_sane hp' \<and> (if p = 0 then heap_owned hp' = heap_owned hp
    else p \<notin> heap_owned hp \<and> heap_owned hp' = insert p (heap_owned hp))"
proof (cases "n = 0")
  case True
  then show ?thesis using s a by (simp add: heap_alloc_def kmalloc_def)
next
  case False
  obtain as where i: "heap_inv hp as" using s by (auto simp: heap_sane_def)
  from heap_alloc_returns [OF s False n i] obtain q hq as' where
    k: "kmalloc n hp = Some (q, hq)" "heap_inv hq as'"
    "q = 0 \<and> live (blocks hq) as' = live (blocks hp) as \<or>
     q \<noteq> 0 \<and> (\<exists>k \<ge> unat n. live (blocks hq) as' = insert (q - 12, k) (live (blocks hp) as) \<and>
       (\<forall>r \<in> live (blocks hp) as. apart (q - 12) k r))" by blast
  then have e: "q = p" "hq = hp'" using a by (simp_all add: heap_alloc_def)
  have "pmm_inv (pg_pmm (heap_pg hp))" using s by (simp add: heap_sane_def)
  then have "within hp hp'" using kmalloc_within k(1) e by blast
  then have s': "heap_sane hp'" using s k(2) e by (auto simp: heap_sane_def within_def)
  show ?thesis
  proof (cases "p = 0")
    case True
    then show ?thesis using s' k e by (simp add: heap_owned_eq [OF i] heap_owned_eq [of hp' as'])
  next
    case False
    then obtain k where l: "live (blocks hp') as' = insert (p - 12, k) (live (blocks hp) as)"
      "\<forall>r \<in> live (blocks hp) as. apart (p - 12) k r" using k e by blast
    have "heap_owned hp' = insert p (heap_owned hp)"
      using k(2) e l(1) by (auto simp: heap_owned_eq [OF i] heap_owned_eq [of hp' as'])
    moreover have "p \<notin> heap_owned hp"
      using l(2) by (fastforce simp: heap_owned_eq [OF i] apart_def)
    ultimately show ?thesis using False s' by simp
  qed
qed

lemma heap_release_contract:
  assumes s: "heap_sane hp" and p: "p \<in> heap_owned hp"
  shows "heap_sane (heap_release p hp) \<and> heap_owned (heap_release p hp) = heap_owned hp - {p}"
proof -
  obtain as where i: "heap_inv hp as" using s by (auto simp: heap_sane_def)
  then obtain n where l: "(p - 12, n) \<in> live (blocks hp) as" using p by (auto simp: heap_owned_eq [OF i])
  from kfree_removes [OF i l] obtain hp' as' where
    k: "kfree p hp = Some hp'" "heap_inv hp' as'" "live (blocks hp') as' = live (blocks hp) as - {(p - 12, n)}" by blast
  have "n = unat (b_size (blocks hp (p - 12)))" using l by (simp add: live_def)
  moreover have "(p - 12, m) \<in> live (blocks hp) as \<Longrightarrow> m = unat (b_size (blocks hp (p - 12)))" for m
    by (simp add: live_def)
  ultimately have "heap_owned hp' = heap_owned hp - {p}"
    using k(3) by (auto simp: heap_owned_eq [OF i] heap_owned_eq [OF k(2)])
  moreover have "heap_pg hp' = heap_pg hp \<and> heap_mapped hp' = heap_mapped hp"
    using k(1) by (auto simp: kfree_def Let_def split: if_splits dest: coalesce_keeps)
  then have "heap_sane hp'" using s k(2) by (auto simp: heap_sane_def spent_def)
  ultimately show ?thesis using k(1) by (simp add: heap_release_def)
qed

lemma heap_owned_nonzero: "heap_sane hp \<Longrightarrow> 0 \<notin> heap_owned hp"
proof
  assume s: "heap_sane hp" and z: "0 \<in> heap_owned hp"
  obtain as where i: "heap_inv hp as" using s by (auto simp: heap_sane_def)
  then have "- 12 \<in> set as" using z by (auto simp: heap_owned_eq [OF i] live_def)
  moreover have "tiled (blocks hp) 0xD0000000 as (0xD0000000 + unat (heap_mapped hp))"
    using i by (simp add: heap_inv_def)
  ultimately have "unat (- 12 :: u32) + 12 + unat (b_size (blocks hp (- 12))) \<le> 0xD0000000 + unat (heap_mapped hp)"
    using tiled_bounds by blast
  moreover have "unat (- 12 :: u32) = 4294967284" by simp
  ultimately show False using i by (simp add: heap_inv_def)
qed

interpretation kheap: allocator heap_alloc heap_release heap_owned heap_sane max_request
proof
  show "heap_sane h \<Longrightarrow> 0 \<notin> heap_owned h" for h by (rule heap_owned_nonzero)
  show "heap_sane h \<Longrightarrow> unat n \<le> max_request \<Longrightarrow> heap_alloc n h = (p, h') \<Longrightarrow>
      heap_sane h' \<and> (if p = 0 then heap_owned h' = heap_owned h
        else p \<notin> heap_owned h \<and> heap_owned h' = insert p (heap_owned h))" for h n p h'
    by (rule heap_alloc_contract)
  show "heap_sane h \<Longrightarrow> p \<in> heap_owned h \<Longrightarrow>
      heap_sane (heap_release p h) \<and> heap_owned (heap_release p h) = heap_owned h - {p}" for h p
    by (rule heap_release_contract)
qed

end
