(* ===== verification/Gui.thy ===== *)
theory Gui
  imports Desktop Editor Heap_Use
begin

text \<open>
  \<open>kernel/gui.c\<close>, the events: what a key, a press, a release or a motion does to the windows, the
  editors, the icons and the files. One state holds what the file's static variables hold. The heap is
  the one the file system was mounted with; an editor is an object in a store addressed by its pointer;
  \<open>mm\<close> is what memory holds when a block is handed out and \<open>now\<close> what \<open>timer_ticks\<close> answers.
\<close>

definition ROW_H :: int where "ROW_H = 32"
definition MENU_X :: int where "MENU_X = 10"
definition MENU_W :: int where "MENU_W = 248"
definition MENU_H :: int where "MENU_H = 344"
definition DBLCLICK_TICKS :: u32 where "DBLCLICK_TICKS = 50"
definition TRASH_ROWS_MAX :: int where "TRASH_ROWS_MAX = 6"

text \<open>Restarting and shutting down do not return.\<close>

datatype power = Restart | Shutdown

record 'd gui =
  gwm :: wm
  gdesk :: desk
  gfs :: "'d fsys"
  eds :: "u32 \<Rightarrow> editor"
  bg_layer :: u32
  stagger :: int
  dragging :: "nat option"
  drag_dx :: int
  drag_dy :: int
  band_on :: bool
  band_ax :: int
  band_ay :: int
  band_x :: int
  band_y :: int
  icon_armed :: "nat option"
  icon_dragging :: bool
  trash_armed :: bool
  trash_grab_dx :: int
  trash_grab_dy :: int
  press_x :: int
  press_y :: int
  mouse_x :: int
  mouse_y :: int
  click_target :: int
  click_tick :: u32
  menu_open :: bool
  menu_y :: int
  running :: bool
  power :: "power option"

subsection \<open>The kernel below the editor\<close>

definition gui_heap :: "'d gui \<Rightarrow> heap" where
  "gui_heap g = fs_heap (gfs g)"

definition with_heap :: "heap \<Rightarrow> 'd gui \<Rightarrow> 'd gui" where
  "with_heap h g = g\<lparr>gfs := (gfs g)\<lparr>fs_heap := h\<rparr>\<rparr>"

definition gui_services :: "'d bus \<Rightarrow> (u32 \<Rightarrow> u8) \<Rightarrow> (desk \<times> 'd fsys) services" where
  "gui_services bus mm =
     \<lparr>k_malloc = (\<lambda>n (d, st). let (p, h) = heap_alloc n (fs_heap st) in (p, (d, st\<lparr>fs_heap := h\<rparr>))),
      k_free = (\<lambda>p (d, st). (d, st\<lparr>fs_heap := heap_release p (fs_heap st)\<rparr>)),
      k_stale = mm,
      k_write = (\<lambda>name data (d, st). let (r, st1) = fs_write (disk_wr bus) (cstr name) data (of_nat (length data)) st in (r, (d, st1))),
      k_refresh = (\<lambda>(d, st). refresh_icons (disk_rd bus) d st)\<rparr>"

subsection \<open>Text\<close>

definition app_str :: "u8 list \<Rightarrow> u8 list \<Rightarrow> u8 list" where
  "app_str p s = p @ s"

fun app_digits :: "nat \<Rightarrow> u8 list" where
  "app_digits v = (if v div 10 = 0 then [48 + of_nat (v mod 10)] else app_digits (v div 10) @ [48 + of_nat (v mod 10)])"

declare app_digits.simps [simp del]

definition app_int :: "u8 list \<Rightarrow> u32 \<Rightarrow> u8 list" where
  "app_int p v = p @ app_digits (unat v)"

subsection \<open>Editor windows\<close>

fun find_editor_from :: "u8 list \<Rightarrow> (nat \<Rightarrow> window) \<Rightarrow> (u32 \<Rightarrow> editor) \<Rightarrow> nat list \<Rightarrow> nat option" where
  "find_editor_from name w e [] = None"
| "find_editor_from name w e (i # r) =
     (if window.used (w i) \<and> key (w i) = Some Editor \<and> filename (e (user (w i))) = name then Some i
      else find_editor_from name w e r)"

definition find_editor :: "u8 list \<Rightarrow> 'd gui \<Rightarrow> nat option" where
  "find_editor name g = find_editor_from name (wins (gwm g)) (eds g) [0..<MAX_WINDOWS]"

definition sizeof_editor :: u32 where "sizeof_editor = 648"

definition new_editor :: "u32 \<Rightarrow> u8 list \<Rightarrow> u32 \<Rightarrow> u8 list \<Rightarrow> int \<Rightarrow> int \<Rightarrow> editor" where
  "new_editor p name bp buf len cap =
     \<lparr>ed_ptr = p, ed_bufp = bp, ed_buf = buf, ed_len = len, ed_cap = cap, ed_cursor = 0, scroll_line = 0,
      scroll_col = 0, prefcol = 0, modified = False, filename = take FS_MAX_NAME name, undo_st = [],
      redo_st = [], last_edit_tick = 0, last_edit_kind = 0\<rparr>"

text \<open>The buffer with the file in it: pointer, bytes, length and capacity, or nothing.\<close>

definition load_buffer :: "'d bus \<Rightarrow> (u32 \<Rightarrow> u8) \<Rightarrow> u8 list \<Rightarrow> 'd fsys \<Rightarrow> (u32 \<times> u8 list \<times> int \<times> int) \<times> 'd fsys" where
  "load_buffer bus mm name st =
     (let ((sz, none), st1) = fs_read (disk_rd bus) name 0 st;
          cap = (if sz > 0 then sz + 64 else 256);
          (bp, h) = heap_alloc (of_int cap) (fs_heap st1);
          st2 = st1\<lparr>fs_heap := h\<rparr>;
          stale = map (\<lambda>i. mm (bp + of_nat i)) [0..<nat cap]
      in if bp = 0 then ((0, [], 0, cap), st2)
         else if sz > 0 then
           let ((r, out), st3) = fs_read (disk_rd bus) name (of_int sz) st2
           in ((bp, out @ drop (length out) stale, sz, cap), st3)
         else ((bp, stale, 0, cap), st2))"

definition open_editor :: "'d bus \<Rightarrow> (u32 \<Rightarrow> u8) \<Rightarrow> u8 list \<Rightarrow> 'd gui \<Rightarrow> 'd gui" where
  "open_editor bus mm name g =
     (case find_editor name g of Some i \<Rightarrow> g\<lparr>gwm := show_and_raise i (gwm g)\<rparr>
      | None \<Rightarrow>
          let (p, h) = heap_alloc sizeof_editor (gui_heap g); g1 = with_heap h g
          in if p = 0 then g1
             else let ((bp, buf, len, cap), st) = load_buffer bus mm name (gfs g1); g2 = g1\<lparr>gfs := st\<rparr>
                  in if bp = 0 then with_heap (heap_release p (gui_heap g2)) g2
                     else (case add_window (170 + stagger g mod 4 * 36) (80 + stagger g mod 4 * 32) 560 420 name (Some Editor) (gwm g2) of
                         (None, wm1) \<Rightarrow> with_heap (heap_release p (heap_release bp (gui_heap g2))) (g2\<lparr>gwm := wm1\<rparr>)
                       | (Some i, wm1) \<Rightarrow>
                           g2\<lparr>gwm := wm1\<lparr>wins := (wins wm1)(i := (wins wm1 i)\<lparr>user := p, key := Some Editor,
                                 click := Some Editor, on_close := Some Editor\<rparr>)\<rparr>,
                              eds := (eds g2)(p := new_editor p name bp buf len cap), stagger := stagger g + 1\<rparr>))"

text \<open>The first untitled name that is neither a file nor open; if all 99 are taken, the last.\<close>

definition untitled :: "nat \<Rightarrow> u8 list" where
  "untitled i =
     (let p = app_str [] [117, 110, 116, 105, 116, 108, 101, 100];
          q = (if i > 1 then app_int p (of_nat i) else p)
      in app_str q [46, 116, 120, 116])"

fun untitled_from :: "'d bus \<Rightarrow> nat list \<Rightarrow> 'd gui \<Rightarrow> u8 list \<Rightarrow> u8 list \<times> 'd gui" where
  "untitled_from bus [] g name = (name, g)"
| "untitled_from bus (i # r) g name =
     (let name1 = untitled i; ((sz, none), st) = fs_read (disk_rd bus) name1 0 (gfs g); g1 = g\<lparr>gfs := st\<rparr>
      in if sz < 0 \<and> find_editor name1 g1 = None then (name1, g1) else untitled_from bus r g1 name1)"

definition open_new_file :: "'d bus \<Rightarrow> (u32 \<Rightarrow> u8) \<Rightarrow> 'd gui \<Rightarrow> 'd gui" where
  "open_new_file bus mm g = (let (name, g1) = untitled_from bus [1..<100] g [] in open_editor bus mm name g1)"

text \<open>Delivering a key or a click to the editor of window \<open>i\<close>, and closing a window.\<close>

definition editor_key_to :: "'d bus \<Rightarrow> (u32 \<Rightarrow> u8) \<Rightarrow> (nat \<Rightarrow> u32) \<Rightarrow> nat \<Rightarrow> u8 \<Rightarrow> 'd gui \<Rightarrow> 'd gui" where
  "editor_key_to bus mm now i ch g =
     (let w = wins (gwm g) i; u = user w;
          (e, (d, st)) = editor_key (gui_services bus mm) now w ch (eds g u) (gdesk g, gfs g)
      in g\<lparr>eds := (eds g)(u := e), gdesk := d, gfs := st\<rparr>)"

definition editor_click_to :: "nat \<Rightarrow> int \<Rightarrow> int \<Rightarrow> 'd gui \<Rightarrow> 'd gui" where
  "editor_click_to i mx my g =
     (let w = wins (gwm g) i; u = user w in g\<lparr>eds := (eds g)(u := editor_click w mx my (eds g u))\<rparr>)"

definition gui_close :: "'d bus \<Rightarrow> (u32 \<Rightarrow> u8) \<Rightarrow> nat \<Rightarrow> 'd gui \<Rightarrow> 'd gui" where
  "gui_close bus mm i g =
     (let w = wins (gwm g) i;
          g1 = (if on_close w \<noteq> None \<and> user w \<noteq> 0
                then let (d, st) = editor_close (gui_services bus mm) (eds g (user w)) (gdesk g, gfs g) in g\<lparr>gfs := st\<rparr>
                else g)
      in g1\<lparr>gwm := close_window (\<lambda>w. w\<lparr>user := 0\<rparr>) i (gwm g1)\<rparr>)"

subsection \<open>The trash window\<close>

definition gui_refresh :: "'d bus \<Rightarrow> 'd gui \<Rightarrow> 'd gui" where
  "gui_refresh bus g = (let (d, st) = refresh_icons (disk_rd bus) (gdesk g) (gfs g) in g\<lparr>gdesk := d, gfs := st\<rparr>)"

definition empty_trash :: "'d bus \<Rightarrow> 'd fsys \<Rightarrow> 'd fsys" where
  "empty_trash bus st =
     fold (\<lambda>i st. case fs_dir_get (int i) st of None \<Rightarrow> st
             | Some (name, sz) \<Rightarrow> if name ! 0 = TRASH_CH then snd (fs_delete (disk_wr bus) (cstr name) st) else st)
       [0..<FS_DIR_ENTRIES] st"

text \<open>The file shown in row \<open>row\<close>.\<close>

fun trash_row :: "nat list \<Rightarrow> int \<Rightarrow> int \<Rightarrow> 'd fsys \<Rightarrow> u8 list option" where
  "trash_row [] row rows st = None"
| "trash_row (i # r) row rows st =
     (case fs_dir_get (int i) st of None \<Rightarrow> trash_row r row rows st
      | Some (name, sz) \<Rightarrow>
          if name ! 0 \<noteq> TRASH_CH then trash_row r row rows st
          else if rows = row then Some (cstr name) else trash_row r row (rows + 1) st)"

definition trash_win_click :: "'d bus \<Rightarrow> window \<Rightarrow> int \<Rightarrow> int \<Rightarrow> 'd gui \<Rightarrow> 'd gui" where
  "trash_win_click bus w mx my g =
     (let bx = win_x w + win_w w - 126; yy = win_y w + win_h w - 42
      in if mx \<ge> bx \<and> mx < bx + 104 \<and> my \<ge> yy \<and> my < yy + 26 then g\<lparr>gfs := empty_trash bus (gfs g)\<rparr>
         else let x = win_x w + 22; y = win_y w + TITLE_H + 12
              in if my < y \<or> mx < x \<or> mx > win_x w + win_w w - 22 then g
                 else let row = (my - y) div 22
                      in if row \<ge> TRASH_ROWS_MAX then g
                         else case trash_row [0..<FS_DIR_ENTRIES] row 0 (gfs g) of None \<Rightarrow> g
                           | Some name \<Rightarrow> gui_refresh bus (g\<lparr>gfs := restore_file (disk_wr bus) name (gfs g)\<rparr>))"

text \<open>\<open>"Trash"\<close>\<close>

definition TRASH_TITLE :: "u8 list" where "TRASH_TITLE = [84, 114, 97, 115, 104]"

definition open_trash_window :: "wm \<Rightarrow> wm" where
  "open_trash_window s =
     (let (r, s1) = (case find_window TRASH_TITLE s of Some i \<Rightarrow> (Some i, s)
                     | None \<Rightarrow> add_window 340 220 360 230 TRASH_TITLE (Some Trash_Win) s)
      in case r of None \<Rightarrow> s1
         | Some i \<Rightarrow> show_and_raise i (s1\<lparr>wins := (wins s1)(i := (wins s1 i)\<lparr>click := Some Trash_Win\<rparr>)\<rparr>))"

subsection \<open>The start menu\<close>

datatype menu_id = MI_WELCOME | MI_EDITOR | MI_SYSTEM | MI_TRASH | MI_ABOUT | MI_RESTART | MI_SHUTDOWN

definition menu_rows :: "(menu_id \<times> int) list" where
  "menu_rows = [(MI_WELCOME, 94), (MI_EDITOR, 126), (MI_SYSTEM, 158), (MI_TRASH, 190), (MI_ABOUT, 236),
     (MI_RESTART, 268), (MI_SHUTDOWN, 300)]"

definition menu_item_at :: "int \<Rightarrow> int \<Rightarrow> int \<Rightarrow> menu_id option" where
  "menu_item_at menu_top mx my =
     map_option fst (List.find (\<lambda>(mi, yoff). mx \<ge> MENU_X + 8 \<and> mx < MENU_X + MENU_W - 8 \<and>
        my \<ge> menu_top + yoff \<and> my < menu_top + yoff + ROW_H) menu_rows)"

definition menu_choose :: "'d bus \<Rightarrow> (u32 \<Rightarrow> u8) \<Rightarrow> menu_id \<Rightarrow> 'd gui \<Rightarrow> 'd gui" where
  "menu_choose bus mm mi g =
     (case mi of
        MI_WELCOME \<Rightarrow> g\<lparr>gwm := open_app [87, 101, 108, 99, 111, 109, 101] Welcome 110 100 420 300 (gwm g)\<rparr>
      | MI_EDITOR \<Rightarrow> open_new_file bus mm g
      | MI_SYSTEM \<Rightarrow> g\<lparr>gwm := open_app [83, 121, 115, 116, 101, 109] Sysinfo 600 240 330 250 (gwm g)\<rparr>
      | MI_TRASH \<Rightarrow> g\<lparr>gwm := open_trash_window (gwm g)\<rparr>
      | MI_ABOUT \<Rightarrow> g\<lparr>gwm := open_app [65, 98, 111, 117, 116] About ((scr_w (gdesk g) - 340) sdiv 2)
                      ((scr_h (gdesk g) - 340) sdiv 2) 340 310 (gwm g)\<rparr>
      | MI_RESTART \<Rightarrow> g\<lparr>power := Some Restart\<rparr>
      | MI_SHUTDOWN \<Rightarrow> g\<lparr>power := Some Shutdown\<rparr>)"

definition menu_click :: "'d bus \<Rightarrow> (u32 \<Rightarrow> u8) \<Rightarrow> int \<Rightarrow> int \<Rightarrow> 'd gui \<Rightarrow> 'd gui" where
  "menu_click bus mm mx my g =
     (if mx < MENU_X \<or> mx \<ge> MENU_X + MENU_W \<or> my < menu_y g \<or> my \<ge> menu_y g + MENU_H then g\<lparr>menu_open := False\<rparr>
      else case menu_item_at (menu_y g) mx my of None \<Rightarrow> g
        | Some mi \<Rightarrow> menu_choose bus mm mi (g\<lparr>menu_open := False\<rparr>))"

subsection \<open>The pointer button\<close>

text \<open>Every handler returns whether the screen must be composed again.\<close>

definition is_double :: "u32 \<Rightarrow> int \<Rightarrow> 'd gui \<Rightarrow> bool \<times> 'd gui" where
  "is_double now tgt g =
     (tgt = click_target g \<and> now - click_tick g < DBLCLICK_TICKS, g\<lparr>click_target := tgt, click_tick := now\<rparr>)"

definition taskbar_down :: "int \<Rightarrow> int \<Rightarrow> 'd gui \<Rightarrow> bool \<times> 'd gui" where
  "taskbar_down mx my g =
     (let g1 = g\<lparr>click_target := - 99\<rparr>; dxc = mx - 22; dyc = my - (scr_h (gdesk g) - TASKBAR_H div 2)
      in if dxc * dxc + dyc * dyc \<le> 196 then (True, g1\<lparr>menu_open := True\<rparr>)
         else case taskbar_press (scr_h (gdesk g)) mx my (gwm g) of None \<Rightarrow> (False, g1)
           | Some i \<Rightarrow> (True, g1\<lparr>gwm := show_and_raise i (gwm g)\<rparr>))"

text \<open>The click handler of the window, called after the window has been raised.\<close>

definition body_click :: "'d bus \<Rightarrow> nat \<Rightarrow> int \<Rightarrow> int \<Rightarrow> 'd gui \<Rightarrow> 'd gui" where
  "body_click bus i mx my g =
     (case click (wins (gwm g) i) of
        Some Editor \<Rightarrow> editor_click_to i mx my g
      | Some Trash_Win \<Rightarrow> trash_win_click bus (wins (gwm g) i) mx my g
      | _ \<Rightarrow> g)"

definition window_down :: "'d bus \<Rightarrow> (u32 \<Rightarrow> u8) \<Rightarrow> press \<Rightarrow> int \<Rightarrow> int \<Rightarrow> 'd gui \<Rightarrow> 'd gui" where
  "window_down bus mm p mx my g =
     (case p of
        Close i \<Rightarrow> gui_close bus mm i g
      | Minimize i \<Rightarrow> g\<lparr>gwm := minimize_window i (gwm g)\<rparr>
      | Grab i dx dy \<Rightarrow> g\<lparr>gwm := raise_window i (gwm g), dragging := Some i, drag_dx := dx, drag_dy := dy\<rparr>
      | Body i \<Rightarrow> body_click bus i mx my (g\<lparr>gwm := raise_window i (gwm g)\<rparr>))"

definition trash_down :: "u32 \<Rightarrow> int \<Rightarrow> int \<Rightarrow> 'd gui \<Rightarrow> 'd gui" where
  "trash_down now mx my g =
     (let (dbl, g1) = is_double now (- 2) (g\<lparr>gdesk := clear_selection (gdesk g)\<rparr>)
      in if dbl then g1\<lparr>trash_armed := False, gwm := open_trash_window (gwm g1)\<rparr>
         else g1\<lparr>trash_armed := True, trash_grab_dx := mx - trash_x (gdesk g1),
                 trash_grab_dy := my - trash_y (gdesk g1), press_x := mx, press_y := my\<rparr>)"

definition icon_down :: "'d bus \<Rightarrow> (u32 \<Rightarrow> u8) \<Rightarrow> u32 \<Rightarrow> nat \<Rightarrow> int \<Rightarrow> int \<Rightarrow> 'd gui \<Rightarrow> 'd gui" where
  "icon_down bus mm now i mx my g =
     (let (dbl, g1) = is_double now (int i) g; d = gdesk g1
      in if dbl then open_editor bus mm (cstr (ic_name (icons d ! i))) (g1\<lparr>icon_armed := None\<rparr>)
         else let d1 = (if \<not> selected (icons d ! i)
                        then (let c = clear_selection d in c\<lparr>icons := (icons c)[i := (icons c ! i)\<lparr>selected := True\<rparr>]\<rparr>)
                        else d)
              in g1\<lparr>gdesk := d1, icon_armed := Some i, press_x := mx, press_y := my\<rparr>)"

definition desktop_down :: "int \<Rightarrow> int \<Rightarrow> 'd gui \<Rightarrow> 'd gui" where
  "desktop_down mx my g =
     g\<lparr>click_target := - 99, gdesk := clear_selection (gdesk g), band_on := True,
       band_ax := mx, band_x := mx, band_ay := my, band_y := my\<rparr>"

definition handle_button_down :: "'d bus \<Rightarrow> (u32 \<Rightarrow> u8) \<Rightarrow> u32 \<Rightarrow> int \<Rightarrow> int \<Rightarrow> 'd gui \<Rightarrow> bool \<times> 'd gui" where
  "handle_button_down bus mm now mx my g =
     (if menu_open g then (True, menu_click bus mm mx my g)
      else if my \<ge> scr_h (gdesk g) - TASKBAR_H then taskbar_down mx my g
      else (case window_press mx my (gwm g) of
          Some p \<Rightarrow> (True, window_down bus mm p mx my (g\<lparr>click_target := - 99\<rparr>))
        | None \<Rightarrow>
            if over_trash mx my (gdesk g) then (True, trash_down now mx my g)
            else (case icon_at mx my (gdesk g) of
                Some i \<Rightarrow> (True, icon_down bus mm now i mx my g)
              | None \<Rightarrow> (True, desktop_down mx my g))))"

text \<open>Dropping the selected icons: into the trash, or where they are.\<close>

definition trash_selected :: "'d bus \<Rightarrow> 'd gui \<Rightarrow> 'd gui" where
  "trash_selected bus g =
     g\<lparr>gfs := fold (\<lambda>ic st. if selected ic then trash_file (disk_wr bus) (cstr (ic_name ic)) st else st)
               (icons (gdesk g)) (gfs g)\<rparr>"

definition move_selected :: "int \<Rightarrow> int \<Rightarrow> desk \<Rightarrow> desk" where
  "move_selected dx dy d =
     d\<lparr>icons := map (\<lambda>ic. if selected ic
                  then (let (x, y) = clamp_cell d (ic_x ic + dx, ic_y ic + dy) in ic\<lparr>ic_x := x, ic_y := y\<rparr>)
                  else ic) (icons d)\<rparr>"

definition gui_save_layout :: "'d bus \<Rightarrow> 'd gui \<Rightarrow> 'd gui" where
  "gui_save_layout bus g = (let (d, st) = save_layout (disk_wr bus) (gdesk g) (gfs g) in g\<lparr>gdesk := d, gfs := st\<rparr>)"

definition drop_icons :: "'d bus \<Rightarrow> int \<Rightarrow> int \<Rightarrow> 'd gui \<Rightarrow> 'd gui" where
  "drop_icons bus mx my g =
     (if over_trash mx my (gdesk g) then gui_refresh bus (trash_selected bus g)
      else gui_save_layout bus (g\<lparr>gdesk := move_selected (mx - press_x g) (my - press_y g) (gdesk g)\<rparr>))"

definition handle_button_up :: "'d bus \<Rightarrow> int \<Rightarrow> int \<Rightarrow> 'd gui \<Rightarrow> bool \<times> 'd gui" where
  "handle_button_up bus mx my g =
     (let g1 = g\<lparr>dragging := None, band_on := False\<rparr>;
          g2 = (if icon_dragging g then (drop_icons bus mx my g1)\<lparr>icon_dragging := False\<rparr> else g1);
          g3 = (if trash_dragging (gdesk g2)
                then gui_save_layout bus (g2\<lparr>gdesk := (gdesk g2)\<lparr>trash_dragging := False\<rparr>\<rparr>) else g2)
      in (band_on g \<or> icon_dragging g \<or> trash_dragging (gdesk g2), g3\<lparr>icon_armed := None, trash_armed := False\<rparr>))"

subsection \<open>Keys and motion\<close>

definition handle_key :: "'d bus \<Rightarrow> (u32 \<Rightarrow> u8) \<Rightarrow> (nat \<Rightarrow> u32) \<Rightarrow> u8 \<Rightarrow> 'd gui \<Rightarrow> bool \<times> 'd gui" where
  "handle_key bus mm now ch g =
     (if ch = KEY_DEV_CONSOLE then (False, g\<lparr>running := False\<rparr>)
      else if menu_open g then (True, if ch = 27 then g\<lparr>menu_open := False\<rparr> else g)
      else case focused (gwm g) of
          Some i \<Rightarrow>
            if window.used (wins (gwm g) i) \<and> visible (wins (gwm g) i) \<and> key (wins (gwm g) i) \<noteq> None
            then (True, editor_key_to bus mm now i ch g)
            else if ch = KEY_DEL \<and> list_ex selected (icons (gdesk g)) then (True, gui_refresh bus (trash_selected bus g))
            else (False, g)
        | None \<Rightarrow>
            if ch = KEY_DEL \<and> list_ex selected (icons (gdesk g)) then (True, gui_refresh bus (trash_selected bus g))
            else (False, g))"

text \<open>A drag starts when the pointer has moved more than three pixels.\<close>

definition far :: "int \<Rightarrow> int \<Rightarrow> 'd gui \<Rightarrow> bool" where
  "far x y g \<longleftrightarrow> (let dx = x - press_x g; dy = y - press_y g in dx * dx + dy * dy > 9)"

definition trash_motion :: "int \<Rightarrow> int \<Rightarrow> 'd gui \<Rightarrow> bool \<times> 'd gui" where
  "trash_motion x y g =
     (let g1 = (if trash_armed g \<and> \<not> trash_dragging (gdesk g) \<and> far x y g
                then g\<lparr>gdesk := (gdesk g)\<lparr>trash_dragging := True\<rparr>\<rparr> else g)
      in if trash_dragging (gdesk g1)
         then let (tx, ty) = clamp_cell (gdesk g1) (x - trash_grab_dx g, y - trash_grab_dy g)
              in (True, g1\<lparr>gdesk := (gdesk g1)\<lparr>trash_x := tx, trash_y := ty\<rparr>\<rparr>)
         else (False, g1))"

definition handle_motion :: "int \<Rightarrow> int \<Rightarrow> 'd gui \<Rightarrow> bool \<times> 'd gui" where
  "handle_motion x y g0 =
     (let g = g0\<lparr>mouse_x := x, mouse_y := y\<rparr>; d = gdesk g; s = gwm g
      in if menu_open g then (True, g)
         else case dragging g of
           Some i \<Rightarrow> (True, g\<lparr>gwm := s\<lparr>wins := (wins s)(i := drag_window (scr_w d) (scr_h d) (x - drag_dx g) (y - drag_dy g) (wins s i))\<rparr>\<rparr>)
         | None \<Rightarrow>
             if band_on g then (True, g\<lparr>band_x := x, band_y := y, gdesk := update_band_selection (band_ax g) (band_ay g) x y d\<rparr>)
             else let g1 = (if icon_armed g \<noteq> None \<and> \<not> icon_dragging g \<and> far x y g then g\<lparr>icon_dragging := True\<rparr> else g)
                  in if icon_dragging g1 then (True, g1) else trash_motion x y g1)"

definition handle_event :: "'d bus \<Rightarrow> (u32 \<Rightarrow> u8) \<Rightarrow> (nat \<Rightarrow> u32) \<Rightarrow> event \<Rightarrow> 'd gui \<Rightarrow> bool \<times> 'd gui" where
  "handle_event bus mm now ev g =
     (case ev_type ev of
        EV_KEY \<Rightarrow> handle_key bus mm now (ev_ch ev) g
      | EV_TICK \<Rightarrow> (True, gui_refresh bus g)
      | EV_MOUSE_BUTTON \<Rightarrow>
          if ev_button ev = 0
          then (if ev_pressed ev \<noteq> 0 then handle_button_down bus mm (now 0) (sint (ev_x ev)) (sint (ev_y ev)) g
                else handle_button_up bus (sint (ev_x ev)) (sint (ev_y ev)) g)
          else (False, g)
      | EV_MOUSE_MOVE \<Rightarrow> handle_motion (sint (ev_x ev)) (sint (ev_y ev)) g)"

text \<open>One round of the main loop over the events waiting, until one ends the desktop: the flag says
  whether to compose. Restart and shutdown do not come back.\<close>

fun handle_events :: "'d bus \<Rightarrow> (u32 \<Rightarrow> u8) \<Rightarrow> (nat \<Rightarrow> nat \<Rightarrow> u32) \<Rightarrow> event list \<Rightarrow> 'd gui \<Rightarrow> bool \<times> 'd gui" where
  "handle_events bus mm now [] g = (False, g)"
| "handle_events bus mm now (ev # evs) g =
     (let (dirty, g1) = handle_event bus mm (now 0) ev g
      in if \<not> running g1 \<or> power g1 \<noteq> None then (dirty, g1)
         else let (dirty', g2) = handle_events bus mm (\<lambda>n. now (Suc n)) evs g1 in (dirty \<or> dirty', g2))"

text \<open>Entering the desktop. The first time it takes the block of the finished wallpaper, \<open>bufsz\<close> bytes
  (\<open>fb_buffer_size\<close>), whether or not the heap grants it.\<close>

definition take_bg_layer :: "u32 \<Rightarrow> 'd gui \<Rightarrow> 'd gui" where
  "take_bg_layer bufsz g =
     (if bg_layer g = 0 then let (p, h) = heap_alloc bufsz (gui_heap g) in (with_heap h g)\<lparr>bg_layer := p\<rparr> else g)"

definition gui_enter :: "'d bus \<Rightarrow> u32 \<Rightarrow> int \<Rightarrow> int \<Rightarrow> 'd gui \<Rightarrow> 'd gui" where
  "gui_enter bus bufsz w h g =
     (let g1 = take_bg_layer bufsz (g\<lparr>gdesk := (gdesk g)\<lparr>scr_w := w, scr_h := h, trash_x := w - ICON_CELL_W - ICON_MARGIN,
                trash_y := h - TASKBAR_H - ICON_CELL_H - 12\<rparr>, menu_y := h - TASKBAR_H - MENU_H - 10\<rparr>);
          g2 = g1\<lparr>gdesk := (gdesk g1)\<lparr>trash_dragging := False\<rparr>, band_on := False, icon_dragging := False,
                 icon_armed := None, trash_armed := False, menu_open := False\<rparr>
      in (gui_refresh bus g2)\<lparr>running := True\<rparr>)"

text \<open>The whole of \<open>gui_run\<close> on the events that arrive.\<close>

definition gui_run :: "'d bus \<Rightarrow> (u32 \<Rightarrow> u8) \<Rightarrow> (nat \<Rightarrow> nat \<Rightarrow> u32) \<Rightarrow> u32 \<Rightarrow> int \<Rightarrow> int \<Rightarrow> event list \<Rightarrow> 'd gui \<Rightarrow> 'd gui" where
  "gui_run bus mm now bufsz w h evs g = (snd (handle_events bus mm now evs (gui_enter bus bufsz w h g)))\<lparr>dragging := None\<rparr>"

definition gui_demo_windows :: "wm \<Rightarrow> wm" where
  "gui_demo_windows s =
     snd (add_window 600 240 330 250 [83, 121, 115, 116, 101, 109] (Some Sysinfo)
       (snd (add_window 110 100 420 300 [87, 101, 108, 99, 111, 109, 101] (Some Welcome) s)))"

end
