(* ===== verification/Gui_Draw.thy ===== *)
theory Gui_Draw
  imports Gui Rtc
begin

text \<open>
  \<open>kernel/gui.c\<close>, the picture: wallpaper, window chrome, the built-in apps, icons, menu, taskbar and
  the compositor. A drawing is a function on memory; those that call \<open>fb_line\<close> or walk the heap may
  not return and have results in the option type. \<open>frame\<close> holds what the drawing asks the other
  drivers for: the tick count and rate and the wall-clock time.
\<close>

record frame =
  fr_now :: u32
  fr_hz :: u32
  fr_clock :: "int \<times> int \<times> int"

definition ascii :: "string \<Rightarrow> u8 list" where "ascii s = map of_char s"

definition paint :: "(mem \<Rightarrow> mem) list \<Rightarrow> mem \<Rightarrow> mem" where "paint ps m = fold (\<lambda>p. p) ps m"

primrec sketch :: "(mem \<Rightarrow> mem option) list \<Rightarrow> mem \<Rightarrow> mem option" where
  "sketch [] m = Some m"
| "sketch (p # ps) m = Option.bind (p m) (sketch ps)"

definition ink :: "(mem \<Rightarrow> mem) \<Rightarrow> mem \<Rightarrow> mem option" where "ink p m = Some (p m)"

subsection \<open>Sizes and colours\<close>

definition WIN_RADIUS :: int where "WIN_RADIUS = 8"
definition SHADOW :: int where "SHADOW = 14"
definition MENU_RADIUS :: int where "MENU_RADIUS = 10"

definition COL_BODY :: u32 where "COL_BODY = 0x1E1E28"
definition COL_TITLE_TOP :: u32 where "COL_TITLE_TOP = 0x3A3A4E"
definition COL_TITLE_BOT :: u32 where "COL_TITLE_BOT = 0x232330"
definition COL_TITLE_TOP_U :: u32 where "COL_TITLE_TOP_U = 0x282830"
definition COL_TITLE_BOT_U :: u32 where "COL_TITLE_BOT_U = 0x1F1F26"
definition COL_TEXT :: u32 where "COL_TEXT = 0xC8C8D8"
definition COL_TEXT_DIM :: u32 where "COL_TEXT_DIM = 0x8A8AA0"
definition COL_ACCENT :: u32 where "COL_ACCENT = 0xE8743B"
definition COL_CLOSE :: u32 where "COL_CLOSE = 0xFF5F57"
definition COL_MINI :: u32 where "COL_MINI = 0xFEBC2E"
definition COL_ZOOM :: u32 where "COL_ZOOM = 0x28C840"
definition COL_ICON_PAGE :: u32 where "COL_ICON_PAGE = 0xECECF4"
definition COL_ICON_FOLD :: u32 where "COL_ICON_FOLD = 0xB8BCD0"
definition COL_ICON_RULE :: u32 where "COL_ICON_RULE = 0x9AA0B8"
definition COL_LABEL :: u32 where "COL_LABEL = 0xD8DCE8"

subsection \<open>Text and the wallpaper\<close>

definition app_2digit :: "u8 list \<Rightarrow> int \<Rightarrow> u8 list" where
  "app_2digit p v = p @ [of_int (48 + v sdiv 10), of_int (48 + v smod 10)]"

definition text_shadowed :: "framebuffer \<Rightarrow> int \<Rightarrow> int \<Rightarrow> u8 list \<Rightarrow> u32 \<Rightarrow> mem \<Rightarrow> mem" where
  "text_shadowed f x y s rgb m = fb_text f x y s rgb (fb_text f (x + 1) (y + 1) s 0x101014 m)"

definition glow :: "framebuffer \<Rightarrow> desk \<Rightarrow> int \<Rightarrow> int \<Rightarrow> int \<Rightarrow> u32 \<Rightarrow> int \<Rightarrow> mem \<Rightarrow> mem" where
  "glow f d cx cy r rgb max_alpha =
     for_int (cy - r) (cy + r + 1) (\<lambda>y m.
       if y < 0 \<or> y \<ge> scr_h d then m
       else for_int (cx - r) (cx + r + 1) (\<lambda>x m.
         if x < 0 \<or> x \<ge> scr_w d then m
         else let dx = x - cx; dy = y - cy; d2 = dx * dx + dy * dy
              in if d2 \<ge> r * r then m
                 else let t = 255 - d2 * 255 sdiv (r * r);
                          a = max_alpha * t * t sdiv (255 * 255)
                      in fb_blend_pixel f x y rgb (of_int a) m) m)"

definition lerp_rgb :: "u32 \<Rightarrow> u32 \<Rightarrow> int \<Rightarrow> int \<Rightarrow> u32" where
  "lerp_rgb a b t mx =
     (let ar = uint (drop_bit 16 a AND 0xFF); ag = uint (drop_bit 8 a AND 0xFF); ab = uint (a AND 0xFF);
          br = uint (drop_bit 16 b AND 0xFF); bg = uint (drop_bit 8 b AND 0xFF); bb = uint (b AND 0xFF);
          r = ar + (br - ar) * t sdiv mx; g = ag + (bg - ag) * t sdiv mx; bl = ab + (bb - ab) * t sdiv mx
      in push_bit 16 (of_int r) OR push_bit 8 (of_int g) OR of_int bl)"

definition render_wallpaper :: "framebuffer \<Rightarrow> desk \<Rightarrow> mem \<Rightarrow> mem" where
  "render_wallpaper f d m =
     (let brand = ascii ''RedPandaOS 1.0'';
          bx = scr_w d - int (length brand) * FONT_W - 18;
          ty = scr_h d - TASKBAR_H - 30
      in paint
        [for_int 0 (scr_h d) (\<lambda>y. fb_fill_rect f 0 y (scr_w d) 1 (lerp_rgb 0x0F2027 0x2C5364 y (scr_h d - 1))),
         glow f d (scr_w d * 78 sdiv 100) (scr_h d * 16 sdiv 100) 300 COL_ACCENT 80,
         glow f d (scr_w d * 10 sdiv 100) (scr_h d * 88 sdiv 100) 340 0x7B2FBE 65,
         glow f d (scr_w d * 46 sdiv 100) (scr_h d * 62 sdiv 100) 260 0x2EC4B6 45,
         fb_text f (bx + 1) (ty + 1) brand 0x11202A,
         fb_text f bx ty brand 0x55758A] m)"

subsection \<open>Window chrome\<close>

definition window_shadow :: "framebuffer \<Rightarrow> int \<Rightarrow> int \<Rightarrow> int \<Rightarrow> int \<Rightarrow> mem \<Rightarrow> mem" where
  "window_shadow f x y w h =
     (let cx0 = x + WIN_RADIUS; cy0 = y + WIN_RADIUS;
          cx1 = x + w - 1 - WIN_RADIUS; cy1 = y + h - 1 - WIN_RADIUS
      in for_int (y - SHADOW) (y + h + SHADOW) (\<lambda>py. for_int (x - SHADOW) (x + w + SHADOW) (\<lambda>px m.
           let qx = (if px < cx0 then cx0 else if px > cx1 then cx1 else px);
               qy = (if py < cy0 then cy0 else if py > cy1 then cy1 else py);
               dx = \<bar>px - qx\<bar>; dy = \<bar>py - qy\<bar>;
               hi = (if dx > dy then dx else dy); lo = (if dx > dy then dy else dx);
               d = hi + lo sdiv 2 - WIN_RADIUS
           in if d < 0 \<or> d \<ge> SHADOW then m
              else let t = SHADOW - d
                   in fb_blend_pixel f px py 0x000000 (of_int (t * t * 110 sdiv (SHADOW * SHADOW))) m)))"

definition window_chrome :: "framebuffer \<Rightarrow> window \<Rightarrow> bool \<Rightarrow> mem \<Rightarrow> mem option" where
  "window_chrome f win is_focused =
     (let x = win_x win; y = win_y win; w = win_w win; h = win_h win;
          top = (if is_focused then COL_TITLE_TOP else COL_TITLE_TOP_U);
          bot = (if is_focused then COL_TITLE_BOT else COL_TITLE_BOT_U);
          cy = y + TITLE_H sdiv 2;
          tx = x + (w - int (length (title win)) * FONT_W) sdiv 2;
          ba = (if is_focused then 70 else 30 :: u8)
      in sketch
        [ink (window_shadow f x y w h),
         ink (fb_fill_rounded_rect f x y w h WIN_RADIUS COL_BODY (ROUND_TOP OR ROUND_BOTTOM)),
         ink (for_int 0 TITLE_H (\<lambda>ty.
           let inset = (if ty < WIN_RADIUS then fb_round_inset ty WIN_RADIUS else 0)
           in fb_fill_rect f (x + inset) (y + ty) (w - 2 * inset) 1 (lerp_rgb top bot ty (TITLE_H - 1)))),
         ink (fb_fill_rect f x (y + TITLE_H) w 1 0x14141A),
         ink (fb_fill_circle f (x + 20) cy 6 COL_CLOSE),
         ink (fb_fill_circle f (x + 40) cy 6 COL_MINI),
         ink (fb_fill_circle f (x + 60) cy 6 COL_ZOOM),
         (if is_focused
          then sketch [fb_line f (x + 17) (cy - 3) (x + 23) (cy + 3) 0x7A1815,
                       fb_line f (x + 17) (cy + 3) (x + 23) (cy - 3) 0x7A1815,
                       ink (fb_fill_rect f (x + 37) cy 7 2 0x8A5D0A)]
          else Some),
         ink (text_shadowed f (if tx < x + 76 then x + 76 else tx) (y + (TITLE_H - FONT_H) sdiv 2) (title win)
               (if is_focused then 0xEAEAF2 else 0x9090A0)),
         ink (fb_blend_rect f (x + WIN_RADIUS) y (w - 2 * WIN_RADIUS) 1 0xFFFFFF ba),
         ink (fb_blend_rect f (x + WIN_RADIUS) (y + h - 1) (w - 2 * WIN_RADIUS) 1 0xFFFFFF (ba div 2)),
         ink (fb_blend_rect f x (y + WIN_RADIUS) 1 (h - 2 * WIN_RADIUS) 0xFFFFFF (ba div 2)),
         ink (fb_blend_rect f (x + w - 1) (y + WIN_RADIUS) 1 (h - 2 * WIN_RADIUS) 0xFFFFFF (ba div 2))])"

subsection \<open>The built-in apps\<close>

definition draw_panda :: "framebuffer \<Rightarrow> int \<Rightarrow> int \<Rightarrow> int \<Rightarrow> mem \<Rightarrow> mem" where
  "draw_panda f ox oy s m =
     (let FUR = 0xC65A1E; DARK = 0x6E3208; CREAM = 0xF2E0C8; INK = 0x1A1A1A
      in paint
        [fb_fill_rect f (ox + 1 * s) oy (3 * s) (3 * s) DARK,
         fb_fill_rect f (ox + 12 * s) oy (3 * s) (3 * s) DARK,
         fb_fill_rect f (ox + 2 * s) (oy + 1 * s) (1 * s) (1 * s) CREAM,
         fb_fill_rect f (ox + 13 * s) (oy + 1 * s) (1 * s) (1 * s) CREAM,
         fb_fill_rect f ox (oy + 2 * s) (16 * s) (12 * s) FUR,
         fb_fill_rect f (ox + 2 * s) (oy + 5 * s) (4 * s) (3 * s) CREAM,
         fb_fill_rect f (ox + 10 * s) (oy + 5 * s) (4 * s) (3 * s) CREAM,
         fb_fill_rect f (ox + 3 * s) (oy + 6 * s) (2 * s) (2 * s) INK,
         fb_fill_rect f (ox + 11 * s) (oy + 6 * s) (2 * s) (2 * s) INK,
         fb_fill_rect f (ox + 5 * s) (oy + 9 * s) (6 * s) (5 * s) CREAM,
         fb_fill_rect f (ox + 7 * s) (oy + 10 * s) (2 * s) (2 * s) INK,
         fb_fill_rect f ox (oy + 9 * s) (2 * s) (3 * s) CREAM,
         fb_fill_rect f (ox + 14 * s) (oy + 9 * s) (2 * s) (3 * s) CREAM] m)"

definition welcome_draw :: "framebuffer \<Rightarrow> window \<Rightarrow> mem \<Rightarrow> mem" where
  "welcome_draw f win m =
     (let x = win_x win + 24; y = win_y win + TITLE_H + 20
      in paint
        [fb_text_scaled f x y (ascii ''Hello!'') COL_ACCENT 2,
         fb_text f x (y + 44) (ascii ''This desktop is drawn entirely'') COL_TEXT,
         fb_text f x (y + 62) (ascii ''from scratch - every pixel by'') COL_TEXT,
         fb_text f x (y + 80) (ascii ''our own kernel.'') COL_TEXT,
         fb_text f x (y + 110) (ascii ''drag   the title bar moves me'') COL_TEXT_DIM,
         fb_text f x (y + 128) (ascii ''o o    close and minimize'') COL_TEXT_DIM,
         draw_panda f (win_x win + win_w win - 92) (win_y win + win_h win - 90) 5] m)"

text \<open>The heap walk of \<open>heap_used_bytes\<close> returns or the drawing does not; a rate of 0 would be a
  division by zero (\<open>timer_init\<close> has set 100 before the desktop runs).\<close>

definition sysinfo_draw :: "framebuffer \<Rightarrow> frame \<Rightarrow> 'd fsys \<Rightarrow> window \<Rightarrow> mem \<Rightarrow> mem option" where
  "sysinfo_draw f fr st win m =
     (case heap_used_bytes (fs_heap st) of None \<Rightarrow> None
      | Some heap_used \<Rightarrow>
     (let x = win_x win + 24; y = win_y win + TITLE_H + 18; pm = pg_pmm (heap_pg (fs_heap st));
          display = app_int (app_str (app_int (app_str [] (ascii ''display   '')) (fb_width f)) (ascii '' x '')) (fb_height f);
          memory = app_str (app_int (app_str (app_int (app_str [] (ascii ''memory    '')) (pmm_free_kb pm div 1024))
                      (ascii '' / '')) (pmm_total_kb pm div 1024)) (ascii '' MB free'');
          heap = app_str (app_int (app_str (app_int (app_str [] (ascii ''heap      '')) (heap_used div 1024))
                      (ascii '' / '')) (heap_mapped_bytes (fs_heap st) div 1024)) (ascii '' KB used'');
          disk = app_str (app_int (app_str (app_int (app_str (app_int (app_str [] (ascii ''disk      '')) (fs_free_bytes st div 1024))
                      (ascii '' / '')) (fs_total_bytes st div 1024)) (ascii '' KB free, '')) (of_int (fs_file_count st))) (ascii '' files'');
          uptime = app_str (app_int (app_str [] (ascii ''uptime    '')) (fr_now fr div fr_hz fr)) (ascii '' s'')
      in Some (paint
        [fb_text f x y display COL_TEXT,
         fb_text f x (y + 22) memory COL_TEXT,
         fb_text f x (y + 44) heap COL_TEXT,
         fb_text f x (y + 66) disk COL_TEXT,
         fb_text f x (y + 88) uptime COL_TEXT,
         fb_text f x (y + 118) (ascii ''all of it ours.'') COL_ACCENT] m)))"

definition about_draw :: "framebuffer \<Rightarrow> window \<Rightarrow> mem \<Rightarrow> mem" where
  "about_draw f w m =
     (let cx = win_x w + win_w w sdiv 2; y = win_y w + TITLE_H + 22;
          t1 = ascii ''RedPandaOS''; t2 = ascii ''version 11''; t3 = ascii ''own bootloader, own kernel,'';
          t4 = ascii ''own everything.''; t5 = ascii ''made from scratch with <3'';
          left = (\<lambda>t. cx - int (length t) * FONT_W sdiv 2)
      in paint
        [draw_panda f (cx - 32) y 4,
         fb_text_scaled f (cx - int (length t1) * FONT_W) (y + 70) t1 COL_ACCENT 2,
         fb_text f (left t2) (y + 108) t2 COL_TEXT_DIM,
         fb_text f (left t3) (y + 136) t3 COL_TEXT,
         fb_text f (left t4) (y + 154) t4 COL_TEXT,
         fb_text f (left t5) (y + 182) t5 COL_TEXT_DIM] m)"

text \<open>The editor: \<open>rows\<close> lines from byte \<open>i\<close> on; the caret and the status bar follow.\<close>

fun draw_lines :: "framebuffer \<Rightarrow> editor \<Rightarrow> int \<Rightarrow> int \<Rightarrow> int \<Rightarrow> nat \<Rightarrow> int \<Rightarrow> mem \<Rightarrow> mem" where
  "draw_lines f e tx ty cols 0 i m = m"
| "draw_lines f e tx ty cols (Suc rows) i m =
     (if i > ed_len e then m
      else let ll = ed_line_len e i;
               line = take (nat cols) (drop (nat (scroll_col e)) (take (nat ll) (drop (nat i) (ed_buf e))))
           in draw_lines f e tx (ty + ED_LINE_H) cols rows (i + ll + 1) (fb_text f tx ty (cstr line) COL_TEXT m))"

definition editor_picture :: "framebuffer \<Rightarrow> window \<Rightarrow> editor \<Rightarrow> mem \<Rightarrow> mem" where
  "editor_picture f w e m =
     (let (tx, ty, rows, cols0) = ed_metrics w;
          cols = (if cols0 > 95 then 95 else cols0);
          (cl, cc) = ed_linecol e (ed_cursor e);
          sy = win_y w + win_h w - ED_STATUS_H;
          status = app_int (app_str (app_int (app_str [] (ascii ''Ln '')) (of_int (cl + 1))) (ascii '', Col '')) (of_int (cc + 1));
          hint = (if modified e then ascii ''modified - ^S saves'' else ascii ''^S save  ^Z undo'')
      in paint
        [draw_lines f e tx ty cols (nat rows) (ed_line_start e (scroll_line e)),
         (if cl \<ge> scroll_line e \<and> cl < scroll_line e + rows \<and> cc \<ge> scroll_col e \<and> cc \<le> scroll_col e + cols
          then fb_fill_rect f (tx + (cc - scroll_col e) * FONT_W) (ty + (cl - scroll_line e) * ED_LINE_H - 1) 2 (FONT_H + 2) COL_ACCENT
          else (\<lambda>m. m)),
         fb_fill_rect f (win_x w + 1) sy (win_w w - 2) 1 0x14141A,
         fb_text f (win_x w + ED_PAD) (sy + 7) status COL_TEXT_DIM,
         fb_text f (win_x w + win_w w - ED_PAD - int (length hint) * FONT_W) (sy + 7) hint
           (if modified e then COL_ACCENT else COL_TEXT_DIM)] m)"

text \<open>Drawing first scrolls the caret into view: it changes the editor.\<close>

definition editor_draw :: "framebuffer \<Rightarrow> window \<Rightarrow> 'd gui \<times> mem \<Rightarrow> 'd gui \<times> mem" where
  "editor_draw f w = (\<lambda>(g, m).
     let (tx, ty, rows, cols) = ed_metrics w; u = user w;
         e = ed_scroll_into_view rows cols (eds g u)
     in (g\<lparr>eds := (eds g)(u := e)\<rparr>, editor_picture f w e m))"

fun trash_lines :: "framebuffer \<Rightarrow> window \<Rightarrow> 'd fsys \<Rightarrow> nat list \<Rightarrow> int \<Rightarrow> mem \<Rightarrow> int \<times> mem" where
  "trash_lines f w st [] rows m = (rows, m)"
| "trash_lines f w st (i # r) rows m =
     (if rows \<ge> TRASH_ROWS_MAX then (rows, m)
      else case fs_dir_get (int i) st of None \<Rightarrow> trash_lines f w st r rows m
        | Some (name, sz) \<Rightarrow>
            if name ! 0 \<noteq> TRASH_CH then trash_lines f w st r rows m
            else let x = win_x w + 22; y = win_y w + TITLE_H + 12; b = app_str (app_int [] sz) (ascii '' B'')
                 in trash_lines f w st r (rows + 1) (paint
                      [fb_fill_rect f x (y + rows * 22 + 3) 8 10 COL_ICON_PAGE,
                       fb_text f (x + 16) (y + rows * 22) (cstr (tl name)) COL_TEXT,
                       fb_text f (win_x w + win_w w - 22 - int (length b) * FONT_W) (y + rows * 22) b COL_TEXT_DIM] m))"

definition trash_win_draw :: "framebuffer \<Rightarrow> 'd fsys \<Rightarrow> window \<Rightarrow> mem \<Rightarrow> mem" where
  "trash_win_draw f st w m =
     (let x = win_x w + 22; y = win_y w + TITLE_H + 12; (rows, m1) = trash_lines f w st [0..<FS_DIR_ENTRIES] 0 m
      in if rows = 0 then fb_text f x (y + 8) (ascii ''the trash is empty'') COL_TEXT_DIM m1
         else let bx = win_x w + win_w w - 126; yy = win_y w + win_h w - 42
              in paint
                [fb_text f x (win_y w + win_h w - 34) (ascii ''click a file to restore'') COL_TEXT_DIM,
                 fb_fill_rounded_rect f bx yy 104 26 6 COL_ACCENT (ROUND_TOP OR ROUND_BOTTOM),
                 fb_text f (bx + (104 - 11 * FONT_W) sdiv 2) (yy + 5) (ascii ''Empty Trash'') 0xFFFFFF] m1)"

definition draw_window :: "framebuffer \<Rightarrow> frame \<Rightarrow> window \<Rightarrow> bool \<Rightarrow> 'd gui \<times> mem \<Rightarrow> ('d gui \<times> mem) option" where
  "draw_window f fr w is_focused = (\<lambda>(g, m).
     case window_chrome f w is_focused m of None \<Rightarrow> None
     | Some m1 \<Rightarrow>
        (case draw w of
           None \<Rightarrow> Some (g, m1)
         | Some Welcome \<Rightarrow> Some (g, welcome_draw f w m1)
         | Some Sysinfo \<Rightarrow> map_option (Pair g) (sysinfo_draw f fr (gfs g) w m1)
         | Some About \<Rightarrow> Some (g, about_draw f w m1)
         | Some Editor \<Rightarrow> Some (editor_draw f w (g, m1))
         | Some Trash_Win \<Rightarrow> Some (g, trash_win_draw f (gfs g) w m1)))"

subsection \<open>Icons\<close>

definition draw_doc_glyph :: "framebuffer \<Rightarrow> int \<Rightarrow> int \<Rightarrow> u8 \<Rightarrow> mem \<Rightarrow> mem" where
  "draw_doc_glyph f x y a m = paint
     [fb_blend_rect f x y 21 38 COL_ICON_PAGE a,
      fb_blend_rect f (x + 21) (y + 9) 9 29 COL_ICON_PAGE a,
      for_int 0 9 (\<lambda>i. fb_blend_rect f (x + 21) (y + i) (i + 1) 1 COL_ICON_FOLD a),
      for_int 0 4 (\<lambda>k. fb_blend_rect f (x + 5) (y + 15 + k * 6) 20 2 COL_ICON_RULE a),
      fb_blend_rect f (x + 1) (y + 38) 30 1 0x000000 (a div 3)] m"

definition draw_icon_label :: "framebuffer \<Rightarrow> int \<Rightarrow> int \<Rightarrow> u8 list \<Rightarrow> u32 \<Rightarrow> mem \<Rightarrow> mem" where
  "draw_icon_label f cx cy name rgb =
     (let t = take 11 (cstr name)
      in text_shadowed f (cx + (ICON_CELL_W - int (length t) * FONT_W) sdiv 2) (cy + 52) t rgb)"

definition draw_trash_icon :: "framebuffer \<Rightarrow> desk \<Rightarrow> 'd fsys \<Rightarrow> bool \<Rightarrow> mem \<Rightarrow> mem" where
  "draw_trash_icon f d st hot m =
     (let x = trash_x d + 30; y = trash_y d + 6;
          body = (if hot then COL_ACCENT else 0x99A1B5); dark = (if hot then 0xA84E1E else 0x6E7588)
      in paint
        [(if trash_file_count st > 0
          then paint [fb_fill_rect f (x + 7) (y - 1) 8 6 0xE8E8F0, fb_fill_rect f (x + 19) (y - 3) 9 8 0xD8D8E4]
          else (\<lambda>m. m)),
         fb_fill_rect f (x + 13) y 10 3 dark,
         fb_fill_rect f (x - 2) (y + 3) 40 5 body,
         for_int 0 32 (\<lambda>r. let inset = r * 5 sdiv 32 in fb_fill_rect f (x + 2 + inset) (y + 10 + r) (32 - 2 * inset) 1 body),
         for_int 0 3 (\<lambda>k. fb_fill_rect f (x + 9 + k * 8) (y + 14) 2 24 dark),
         text_shadowed f (trash_x d + (ICON_CELL_W - 5 * FONT_W) sdiv 2) (trash_y d + 52) (ascii ''Trash'') COL_LABEL] m)"

definition draw_icon :: "framebuffer \<Rightarrow> icon \<Rightarrow> mem \<Rightarrow> mem" where
  "draw_icon f ic m =
     (let x = ic_x ic; y = ic_y ic
      in paint
        [(if selected ic
          then paint
            [fb_blend_rect f (x + 6) y (ICON_CELL_W - 12) (ICON_CELL_H - 8) COL_ACCENT 45,
             fb_blend_rect f (x + 6) y (ICON_CELL_W - 12) 1 COL_ACCENT 150,
             fb_blend_rect f (x + 6) (y + ICON_CELL_H - 9) (ICON_CELL_W - 12) 1 COL_ACCENT 150,
             fb_blend_rect f (x + 6) y 1 (ICON_CELL_H - 8) COL_ACCENT 150,
             fb_blend_rect f (x + ICON_CELL_W - 7) y 1 (ICON_CELL_H - 8) COL_ACCENT 150]
          else (\<lambda>m. m)),
         draw_doc_glyph f (x + 33) (y + 6) 255,
         draw_icon_label f x y (ic_name ic) (if selected ic then 0xFFFFFF else COL_LABEL)] m)"

definition draw_desktop_icons :: "framebuffer \<Rightarrow> 'd gui \<Rightarrow> mem \<Rightarrow> mem" where
  "draw_desktop_icons f g m =
     (let d = gdesk g
      in draw_trash_icon f d (gfs g) (icon_dragging g \<and> over_trash (mouse_x g) (mouse_y g) d)
           (fold (draw_icon f) (icons d) m))"

definition draw_band :: "framebuffer \<Rightarrow> int \<Rightarrow> int \<Rightarrow> int \<Rightarrow> int \<Rightarrow> mem \<Rightarrow> mem" where
  "draw_band f ax ay bx b_y m =
     (let x0 = (if ax < bx then ax else bx); y0 = (if ay < b_y then ay else b_y);
          x1 = (if ax > bx then ax else bx); y1 = (if ay > b_y then ay else b_y);
          w = x1 - x0 + 1; h = y1 - y0 + 1
      in paint
        [fb_blend_rect f x0 y0 w h COL_ACCENT 30,
         fb_blend_rect f x0 y0 w 1 COL_ACCENT 160,
         fb_blend_rect f x0 y1 w 1 COL_ACCENT 160,
         fb_blend_rect f x0 y0 1 h COL_ACCENT 160,
         fb_blend_rect f x1 y0 1 h COL_ACCENT 160] m)"

definition draw_drag_ghost :: "framebuffer \<Rightarrow> 'd gui \<Rightarrow> mem \<Rightarrow> mem" where
  "draw_drag_ghost f g m =
     (let d = gdesk g; dx = mouse_x g - press_x g; dy = mouse_y g - press_y g
      in fold (\<lambda>ic m. if \<not> selected ic then m
                else let (gx, gy) = clamp_cell d (ic_x ic + dx, ic_y ic + dy)
                     in draw_doc_glyph f (gx + 33) (gy + 6) 150 m) (icons d) m)"

subsection \<open>The start menu\<close>

definition menu_label :: "menu_id \<Rightarrow> u8 list" where
  "menu_label mi =
     (case mi of
        MI_WELCOME \<Rightarrow> ascii ''Welcome'' | MI_EDITOR \<Rightarrow> ascii ''Text Editor'' | MI_SYSTEM \<Rightarrow> ascii ''System Monitor''
      | MI_TRASH \<Rightarrow> ascii ''Trash'' | MI_ABOUT \<Rightarrow> ascii ''About'' | MI_RESTART \<Rightarrow> ascii ''Restart''
      | MI_SHUTDOWN \<Rightarrow> ascii ''Shut Down'')"

definition menu_bg_at :: "int \<Rightarrow> u32" where
  "menu_bg_at ty = lerp_rgb 0x30303F 0x191922 ty (MENU_H - 1)"

definition glyph_paw :: "framebuffer \<Rightarrow> int \<Rightarrow> int \<Rightarrow> u32 \<Rightarrow> mem \<Rightarrow> mem" where
  "glyph_paw f gx gy c m = paint
     [fb_fill_circle f (gx + 8) (gy + 10) 5 c, fb_fill_circle f (gx + 3) (gy + 5) 2 c,
      fb_fill_circle f (gx + 8) (gy + 3) 2 c, fb_fill_circle f (gx + 13) (gy + 5) 2 c] m"

definition glyph_pencil :: "framebuffer \<Rightarrow> int \<Rightarrow> int \<Rightarrow> u32 \<Rightarrow> mem \<Rightarrow> mem option" where
  "glyph_pencil f gx gy c = sketch
     [fb_line f (gx + 4) (gy + 11) (gx + 11) (gy + 4) c, fb_line f (gx + 5) (gy + 12) (gx + 12) (gy + 5) c,
      fb_line f (gx + 6) (gy + 13) (gx + 13) (gy + 6) c,
      ink (fb_fill_rect f (gx + 12) (gy + 3) 3 3 c), ink (fb_fill_rect f (gx + 3) (gy + 12) 2 2 c)]"

definition glyph_gauge :: "framebuffer \<Rightarrow> int \<Rightarrow> int \<Rightarrow> u32 \<Rightarrow> mem \<Rightarrow> mem" where
  "glyph_gauge f gx gy c m = paint
     [fb_fill_rect f (gx + 2) (gy + 10) 3 5 c, fb_fill_rect f (gx + 7) (gy + 6) 3 9 c,
      fb_fill_rect f (gx + 12) (gy + 2) 3 13 c] m"

definition glyph_trash :: "framebuffer \<Rightarrow> int \<Rightarrow> int \<Rightarrow> u32 \<Rightarrow> u32 \<Rightarrow> mem \<Rightarrow> mem" where
  "glyph_trash f gx gy c bg m = paint
     [fb_fill_rect f (gx + 6) (gy + 1) 4 2 c, fb_fill_rect f (gx + 2) (gy + 3) 12 2 c,
      fb_fill_rect f (gx + 3) (gy + 7) 10 8 c, fb_fill_rect f (gx + 6) (gy + 9) 1 4 bg,
      fb_fill_rect f (gx + 9) (gy + 9) 1 4 bg] m"

definition glyph_info :: "framebuffer \<Rightarrow> int \<Rightarrow> int \<Rightarrow> u32 \<Rightarrow> u32 \<Rightarrow> mem \<Rightarrow> mem" where
  "glyph_info f gx gy c bg m = paint
     [fb_fill_circle f (gx + 8) (gy + 8) 7 c, fb_fill_circle f (gx + 8) (gy + 8) 5 bg,
      fb_fill_rect f (gx + 7) (gy + 4) 2 2 c, fb_fill_rect f (gx + 7) (gy + 7) 2 6 c] m"

definition glyph_restart :: "framebuffer \<Rightarrow> int \<Rightarrow> int \<Rightarrow> u32 \<Rightarrow> u32 \<Rightarrow> mem \<Rightarrow> mem" where
  "glyph_restart f gx gy c bg m = paint
     [fb_fill_circle f (gx + 8) (gy + 8) 7 c, fb_fill_circle f (gx + 8) (gy + 8) 4 bg,
      fb_fill_rect f (gx + 8) gy 8 8 bg, fb_fill_rect f (gx + 11) (gy + 2) 5 2 c,
      fb_fill_rect f (gx + 12) (gy + 4) 3 2 c, fb_fill_rect f (gx + 13) (gy + 6) 1 1 c] m"

definition glyph_power :: "framebuffer \<Rightarrow> int \<Rightarrow> int \<Rightarrow> u32 \<Rightarrow> u32 \<Rightarrow> mem \<Rightarrow> mem" where
  "glyph_power f gx gy c bg m = paint
     [fb_fill_circle f (gx + 8) (gy + 9) 6 c, fb_fill_circle f (gx + 8) (gy + 9) 4 bg,
      fb_fill_rect f (gx + 6) (gy + 2) 4 4 bg, fb_fill_rect f (gx + 7) (gy + 1) 2 7 c] m"

definition menu_glyph :: "framebuffer \<Rightarrow> menu_id \<Rightarrow> int \<Rightarrow> int \<Rightarrow> u32 \<Rightarrow> u32 \<Rightarrow> mem \<Rightarrow> mem option" where
  "menu_glyph f mi gx gy gc bg =
     (case mi of
        MI_WELCOME \<Rightarrow> ink (glyph_paw f gx gy gc)
      | MI_EDITOR \<Rightarrow> glyph_pencil f gx gy gc
      | MI_SYSTEM \<Rightarrow> ink (glyph_gauge f gx gy gc)
      | MI_TRASH \<Rightarrow> ink (glyph_trash f gx gy gc bg)
      | MI_ABOUT \<Rightarrow> ink (glyph_info f gx gy gc bg)
      | MI_RESTART \<Rightarrow> ink (glyph_restart f gx gy gc bg)
      | MI_SHUTDOWN \<Rightarrow> ink (glyph_power f gx gy gc bg))"

definition menu_row :: "framebuffer \<Rightarrow> int \<Rightarrow> int \<Rightarrow> menu_id option \<Rightarrow> menu_id \<times> int \<Rightarrow> mem \<Rightarrow> mem option" where
  "menu_row f mx my hover = (\<lambda>(mi, yoff).
     let ry = my + yoff; hot = (hover = Some mi);
         gc = (if hot then COL_ACCENT else 0x8E8EA8); bg = menu_bg_at (yoff + 16)
     in sketch
       [(if hot
         then ink (paint [fb_blend_rect f (mx + 8) ry (MENU_W - 16) ROW_H 0xFFFFFF 22,
                          fb_fill_rect f (mx + 8) (ry + 6) 3 (ROW_H - 12) COL_ACCENT])
         else Some),
        menu_glyph f mi (mx + 24) (ry + 8) gc bg,
        ink (fb_text f (mx + 52) (ry + 8) (menu_label mi) (if hot then 0xF2F2FA else COL_TEXT))])"

text \<open>\<open>slide\<close> is \<open>menu_slide\<close>: how far below its place the opening menu still is.\<close>

definition draw_menu :: "framebuffer \<Rightarrow> int \<Rightarrow> 'd gui \<Rightarrow> mem \<Rightarrow> mem option" where
  "draw_menu f slide g =
     (let mx = MENU_X; my = menu_y g + slide;
          hover = (if slide \<noteq> 0 then None else menu_item_at (menu_y g) (mouse_x g) (mouse_y g))
      in sketch
        [ink (window_shadow f mx my MENU_W MENU_H),
         ink (for_int 0 MENU_H (\<lambda>ty.
           let inset = (if ty < MENU_RADIUS then fb_round_inset ty MENU_RADIUS
                        else if ty \<ge> MENU_H - MENU_RADIUS then fb_round_inset (MENU_H - 1 - ty) MENU_RADIUS else 0)
           in fb_fill_rect f (mx + inset) (my + ty) (MENU_W - 2 * inset) 1 (menu_bg_at ty))),
         ink (fb_blend_rect f (mx + MENU_RADIUS) my (MENU_W - 2 * MENU_RADIUS) 1 0xFFFFFF 50),
         ink (draw_panda f (mx + 20) (my + 14) 2),
         ink (text_shadowed f (mx + 62) (my + 16) (ascii ''RedPandaOS'') 0xEAEAF2),
         ink (fb_text f (mx + 62) (my + 36) (ascii ''version 11'') COL_TEXT_DIM),
         ink (fb_blend_rect f (mx + 14) (my + 64) (MENU_W - 28) 1 0xFFFFFF 25),
         ink (fb_text f (mx + 22) (my + 70) (ascii ''APPS'') 0x60607A),
         sketch (map (menu_row f mx my hover) menu_rows),
         ink (fb_blend_rect f (mx + 14) (my + 228) (MENU_W - 28) 1 0xFFFFFF 25)])"

subsection \<open>The taskbar\<close>

fun taskbar_buttons :: "framebuffer \<Rightarrow> int \<Rightarrow> wm \<Rightarrow> nat \<Rightarrow> nat list \<Rightarrow> mem \<Rightarrow> mem" where
  "taskbar_buttons f sh s slot [] m = m"
| "taskbar_buttons f sh s slot (i # r) m =
     (if \<not> window.used (wins s i) then taskbar_buttons f sh s slot r m
      else let (bx, ypos, bw, bh) = taskbar_button_rect sh slot; w = wins s i;
               focused_btn = (focused s = Some i \<and> visible w);
               t = take 15 (title w)
           in taskbar_buttons f sh s (slot + 1) r (paint
                [fb_blend_rect f bx ypos bw bh 0xFFFFFF (if focused_btn then 60 else 25),
                 (if focused_btn then fb_fill_rect f (bx + 8) (ypos + bh - 3) (bw - 16) 2 COL_ACCENT else (\<lambda>m. m)),
                 text_shadowed f (bx + 10) (ypos + (bh - FONT_H) sdiv 2) t (if visible w then 0xD8D8E2 else 0x8888A0)] m))"

definition clock_text :: "int \<times> int \<times> int \<Rightarrow> u8 list" where
  "clock_text c = (let (hh, mm, ss) = c in app_2digit (app_2digit (app_2digit [] hh @ [58]) mm @ [58]) ss)"

definition draw_taskbar :: "framebuffer \<Rightarrow> frame \<Rightarrow> 'd gui \<Rightarrow> mem \<Rightarrow> mem" where
  "draw_taskbar f fr g m =
     (let d = gdesk g; top = scr_h d - TASKBAR_H; cx = 22; cy = top + TASKBAR_H sdiv 2
      in paint
        [fb_blend_rect f 0 top (scr_w d) TASKBAR_H 0x06060A 150,
         fb_blend_rect f 0 top (scr_w d) 1 0xFFFFFF 40,
         (if menu_open g then fb_fill_circle f cx cy 15 0x6B3A20 else (\<lambda>m. m)),
         fb_fill_circle f cx cy 12 COL_ACCENT,
         fb_fill_circle f (cx - 3) (cy - 4) 4 0xD96E33,
         fb_fill_circle f cx (cy + 3) 4 0xF2E0C8,
         fb_fill_circle f (cx - 6) (cy - 2) 2 0xF2E0C8,
         fb_fill_circle f cx (cy - 5) 2 0xF2E0C8,
         fb_fill_circle f (cx + 6) (cy - 2) 2 0xF2E0C8,
         taskbar_buttons f (scr_h d) (gwm g) 0 [0..<MAX_WINDOWS],
         text_shadowed f (scr_w d - 8 * FONT_W - 14) (top + (TASKBAR_H - FONT_H) sdiv 2) (clock_text (fr_clock fr)) 0xE0E0EA] m)"

subsection \<open>The compositor\<close>

fun draw_windows :: "framebuffer \<Rightarrow> frame \<Rightarrow> nat list \<Rightarrow> 'd gui \<times> mem \<Rightarrow> ('d gui \<times> mem) option" where
  "draw_windows f fr [] gm = Some gm"
| "draw_windows f fr (i # z) gm =
     (let w = wins (gwm (fst gm)) i
      in if window.used w \<and> visible w
         then case draw_window f fr w (focused (gwm (fst gm)) = Some i) gm of None \<Rightarrow> None
              | Some gm' \<Rightarrow> draw_windows f fr z gm'
         else draw_windows f fr z gm)"

definition backdrop :: "framebuffer \<Rightarrow> 'd gui \<Rightarrow> mem \<Rightarrow> mem" where
  "backdrop f g m = paint
     [fb_restore f (bg_layer g), draw_desktop_icons f g,
      (if band_on g then draw_band f (band_ax g) (band_ay g) (band_x g) (band_y g) else (\<lambda>m. m))] m"

definition foreground :: "framebuffer \<Rightarrow> frame \<Rightarrow> int \<Rightarrow> 'd gui \<Rightarrow> mem \<Rightarrow> mem option" where
  "foreground f fr slide g = sketch
     [ink (draw_taskbar f fr g),
      (if menu_open g then draw_menu f slide g else Some),
      (if icon_dragging g then ink (draw_drag_ghost f g) else Some),
      ink (fb_flip f)]"

definition composite :: "framebuffer \<Rightarrow> frame \<Rightarrow> int \<Rightarrow> 'd gui \<times> mem \<Rightarrow> ('d gui \<times> mem) option" where
  "composite f fr slide = (\<lambda>(g, m).
     case draw_windows f fr (zorder (gwm g)) (g, backdrop f g m) of None \<Rightarrow> None
     | Some (g1, m1) \<Rightarrow> map_option (Pair g1) (foreground f fr slide g1 m1))"

text \<open>Each frame of the animation sees the time its \<open>wait_ticks\<close> has brought.\<close>

fun animate_from :: "framebuffer \<Rightarrow> (int \<Rightarrow> frame) \<Rightarrow> int list \<Rightarrow> 'd gui \<times> mem \<Rightarrow> ('d gui \<times> mem) option" where
  "animate_from f fr [] gm = Some gm"
| "animate_from f fr (n # r) gm =
     (case composite f (fr n) ((5 - n) * 12) gm of None \<Rightarrow> None | Some gm' \<Rightarrow> animate_from f fr r gm')"

definition animate_menu_open :: "framebuffer \<Rightarrow> (int \<Rightarrow> frame) \<Rightarrow> 'd gui \<times> mem \<Rightarrow> ('d gui \<times> mem) option" where
  "animate_menu_open f fr = animate_from f fr [1..5]"

definition goodbye_screen :: "framebuffer \<Rightarrow> desk \<Rightarrow> u8 list \<Rightarrow> mem \<Rightarrow> mem" where
  "goodbye_screen f d msg m = paint
     [fb_fill_rect f 0 0 (scr_w d) (scr_h d) 0x0C0C12,
      draw_panda f (scr_w d sdiv 2 - 40) (scr_h d sdiv 2 - 100) 5,
      fb_text f ((scr_w d - int (length msg) * FONT_W) sdiv 2) (scr_h d sdiv 2 + 10) msg COL_TEXT,
      fb_flip f] m"

text \<open>After the picture of farewell the machine is told to reset or to switch off; what follows in the
  code (a triple fault, an endless halt) runs only on a machine that ignores it.\<close>

fun wait_8042 :: "'d bus \<Rightarrow> nat \<Rightarrow> ('d, unit) state" where
  "wait_8042 bus 0 = State_Monad.return ()"
| "wait_8042 bus (Suc n) =
     do { v \<leftarrow> inb bus 0x64; if v AND 2 = 0 then State_Monad.return () else wait_8042 bus n }"

definition system_restart :: "'d bus \<Rightarrow> framebuffer \<Rightarrow> desk \<Rightarrow> 'd \<times> mem \<Rightarrow> 'd \<times> mem" where
  "system_restart bus f d = (\<lambda>(dev, m).
     (snd (run_state (do { _ \<leftarrow> wait_8042 bus 100000; outb bus 0x64 0xFE }) dev),
      goodbye_screen f d (ascii ''see you in a moment...'') m))"

definition system_shutdown :: "'d bus \<Rightarrow> framebuffer \<Rightarrow> desk \<Rightarrow> 'd \<times> mem \<Rightarrow> 'd \<times> mem" where
  "system_shutdown bus f d = (\<lambda>(dev, m).
     (snd (run_state (do { _ \<leftarrow> outw bus 0x604 0x2000; _ \<leftarrow> outw bus 0xB004 0x2000; outw bus 0x4004 0x3400 }) dev),
      goodbye_screen f d (ascii ''it is now safe to turn off your RedPanda'') (goodbye_screen f d (ascii ''goodbye!'') m)))"

subsection \<open>The main loop with its screen\<close>

text \<open>Entering: the first time the finished wallpaper is copied into its block. Then the loop, one round
  for each batch of events waiting; a round that changed something and did not end the desktop composes.\<close>

definition show_wallpaper :: "framebuffer \<Rightarrow> 'd gui \<Rightarrow> 'd gui \<Rightarrow> mem \<Rightarrow> mem" where
  "show_wallpaper f g0 g m = (if bg_layer g0 = 0 then fb_snapshot f (bg_layer g) (render_wallpaper f (gdesk g) m) else m)"

fun gui_rounds :: "'d bus \<Rightarrow> (u32 \<Rightarrow> u8) \<Rightarrow> (nat \<Rightarrow> nat \<Rightarrow> nat \<Rightarrow> u32) \<Rightarrow> framebuffer \<Rightarrow> (nat \<Rightarrow> frame) \<Rightarrow> event list list \<Rightarrow>
    'd gui \<times> mem \<Rightarrow> ('d gui \<times> mem) option" where
  "gui_rounds bus mm now f fr [] gm = Some gm"
| "gui_rounds bus mm now f fr (evs # rs) (g, m) =
     (let (dirty, g1) = handle_events bus mm (now 0) evs g
      in if \<not> running g1 \<or> power g1 \<noteq> None then Some (g1, m)
         else case (if dirty then composite f (fr 0) 0 (g1, m) else Some (g1, m)) of None \<Rightarrow> None
           | Some gm \<Rightarrow> gui_rounds bus mm (\<lambda>n. now (Suc n)) f (\<lambda>n. fr (Suc n)) rs gm)"

definition gui_session :: "'d bus \<Rightarrow> (u32 \<Rightarrow> u8) \<Rightarrow> (nat \<Rightarrow> nat \<Rightarrow> nat \<Rightarrow> u32) \<Rightarrow> framebuffer \<Rightarrow> frame \<Rightarrow> (nat \<Rightarrow> frame) \<Rightarrow> event list list \<Rightarrow>
    'd gui \<times> mem \<Rightarrow> ('d gui \<times> mem) option" where
  "gui_session bus mm now f fr0 fr rs = (\<lambda>(g, m).
     let g1 = gui_enter bus (fb_buffer_size f) (framebuffer.scr_w f) (framebuffer.scr_h f) g
     in case composite f fr0 0 (g1, show_wallpaper f g g1 m) of None \<Rightarrow> None
        | Some gm \<Rightarrow> map_option (\<lambda>(g, m). (g\<lparr>dragging := None\<rparr>, m)) (gui_rounds bus mm now f fr rs gm))"

end
