(* ===== verification/Shell.thy ===== *)
theory Shell
  imports Gui_Draw Kprintf Memmap
begin

text \<open>
  \<open>kernel/shell.c\<close>: the developer console. Its state is the console with the memory it draws in, the
  desktop (which holds the volume and the heap) and the characters \<open>keyboard_getchar\<close> has still to
  deliver. What the outside decides while a command runs is the record \<open>io\<close>. \<open>None\<close> is a command
  that does not come back: it waits for input that never arrives, or the code is undefined.
\<close>

definition LINE_MAX :: nat where "LINE_MAX = 128"

record 'd shell =
  sh_con :: console
  sh_mem :: mem
  sh_gui :: "'d gui"
  sh_keys :: "u8 list"

record 'd io =
  io_bus :: "'d bus"
  io_mm :: "u32 \<Rightarrow> u8"
  io_now :: "nat \<Rightarrow> nat \<Rightarrow> nat \<Rightarrow> u32"
  io_first :: frame
  io_frames :: "nat \<Rightarrow> frame"
  io_rounds :: "event list list"
  io_events :: "event list"
  io_ticks :: u32
  io_hz :: u32

text \<open>A command returns, ends in the machine switched off, or faults with an exception vector.\<close>

datatype outcome = Back | Off | Fault nat

definition on_console :: "(console_world \<Rightarrow> console_world option) \<Rightarrow> 'd shell \<Rightarrow> 'd shell option" where
  "on_console p s = map_option (\<lambda>(t, m). s\<lparr>sh_con := t, sh_mem := m\<rparr>) (p (sh_con s, sh_mem s))"

definition tell :: "framebuffer \<Rightarrow> u8 list \<Rightarrow> arg list \<Rightarrow> 'd shell \<Rightarrow> 'd shell option" where
  "tell f fmt args = on_console (kprintf f fmt args)"

primrec tell_all :: "framebuffer \<Rightarrow> (u8 list \<times> arg list) list \<Rightarrow> 'd shell \<Rightarrow> 'd shell option" where
  "tell_all f [] s = Some s"
| "tell_all f (x # xs) s = Option.bind (tell f (fst x) (snd x) s) (tell_all f xs)"

definition line_of :: "string \<Rightarrow> u8 list" where "line_of s = ascii s @ [10]"

definition sh_files :: "'d shell \<Rightarrow> 'd fsys" where "sh_files s = gfs (sh_gui s)"

definition set_files :: "'d fsys \<Rightarrow> 'd shell \<Rightarrow> 'd shell" where
  "set_files st s = s\<lparr>sh_gui := (sh_gui s)\<lparr>gfs := st\<rparr>\<rparr>"

definition sh_kmalloc :: "u32 \<Rightarrow> 'd shell \<Rightarrow> (u32 \<times> 'd shell) option" where
  "sh_kmalloc n s = map_option (\<lambda>(p, h). (p, s\<lparr>sh_gui := with_heap h (sh_gui s)\<rparr>)) (kmalloc n (gui_heap (sh_gui s)))"

definition sh_kfree :: "u32 \<Rightarrow> 'd shell \<Rightarrow> 'd shell option" where
  "sh_kfree p s = map_option (\<lambda>h. s\<lparr>sh_gui := with_heap h (sh_gui s)\<rparr>) (kfree p (gui_heap (sh_gui s)))"

definition sh_clear :: "framebuffer \<Rightarrow> 'd shell \<Rightarrow> 'd shell" where
  "sh_clear f s = (let (t, m) = console_clear f (sh_con s, sh_mem s) in s\<lparr>sh_con := t, sh_mem := m\<rparr>)"

definition sh_color :: "u32 \<Rightarrow> u32 \<Rightarrow> 'd shell \<Rightarrow> 'd shell" where
  "sh_color fgc bgc s = (let (t, m) = console_set_color fgc bgc (sh_con s, sh_mem s) in s\<lparr>sh_con := t, sh_mem := m\<rparr>)"

definition sh_getchar :: "'d shell \<Rightarrow> (u8 \<times> 'd shell) option" where
  "sh_getchar s = (case sh_keys s of [] \<Rightarrow> None | c # r \<Rightarrow> Some (c, s\<lparr>sh_keys := r\<rparr>))"

subsection \<open>Help, memory\<close>

definition help_lines :: "string list" where
  "help_lines =
     [''  gui             back to the desktop'',
      ''  demo            open the demo windows, then the desktop'',
      ''  help            this list'',
      ''  about           about RedPandaOS'',
      ''  uptime          time since boot'',
      ''  ls              list files'',
      ''  cat <file>      print a file'',
      ''  write <f> <txt> write text to a file'',
      ''  rm <file>       delete a file'',
      ''  mem             memory map and allocator stats'',
      ''  memtest         exercise kmalloc/kfree'',
      ''  gfx             graphics demo (any key returns)'',
      ''  paint           draw with the mouse (ESC exits)'',
      ''  echo <text>     print <text>'',
      ''  clear           clear the screen'',
      ''  crash           invalid opcode -> panic screen'',
      ''  pagefault       touch unmapped memory -> page fault panic'']"

definition cmd_help :: "framebuffer \<Rightarrow> 'd shell \<Rightarrow> 'd shell option" where
  "cmd_help f = tell_all f (map (\<lambda>l. (line_of l, [])) help_lines)"

definition mem_line :: "framebuffer \<Rightarrow> nat \<Rightarrow> 'd shell \<Rightarrow> 'd shell option" where
  "mem_line f i s =
     (let e = memmap_entry (sh_mem s) i
      in tell f (line_of ''    %08x%08x  %8u KB  %s'')
           [Num (ucast (drop_bit 32 (e_base e))), Num (ucast (e_base e)), Num (ucast (drop_bit 10 (e_len e))),
            Str (Some (ascii (memmap_type_name (e_type e))))] s)"

fun mem_lines :: "framebuffer \<Rightarrow> nat list \<Rightarrow> 'd shell \<Rightarrow> 'd shell option" where
  "mem_lines f [] s = Some s"
| "mem_lines f (i # r) s = Option.bind (mem_line f i s) (mem_lines f r)"

definition cmd_mem :: "framebuffer \<Rightarrow> 'd shell \<Rightarrow> 'd shell option" where
  "cmd_mem f s =
     do { s1 \<leftarrow> tell f (line_of ''  BIOS E820 memory map:'') [] s;
          s2 \<leftarrow> mem_lines f [0..<unat (memmap_count (sh_mem s1))] s1;
          (let hp = gui_heap (sh_gui s2); pm = pg_pmm (heap_pg hp)
           in do { s3 \<leftarrow> tell f (10 # line_of ''  physical : %u KB free of %u KB usable (4 KB frames)'')
                             [Num (pmm_free_kb pm), Num (pmm_total_kb pm)] s2;
                   heap_used \<leftarrow> heap_used_bytes hp;
                   tell f (line_of ''  heap     : %u KB mapped at %p, %u bytes in use'')
                     [Num (heap_mapped_bytes hp div 1024), Num HEAP_BASE, Num heap_used] s3 }) }"

text \<open>The first byte of a block that is not as written.\<close>

definition first_bad :: "mem \<Rightarrow> u32 \<Rightarrow> u8 \<Rightarrow> nat \<Rightarrow> nat option" where
  "first_bad m p v n = List.find (\<lambda>i. m (p + of_nat i) \<noteq> v) [0..<n]"

definition memtest_free :: "framebuffer \<Rightarrow> u32 \<Rightarrow> u32 \<Rightarrow> u32 \<Rightarrow> 'd shell \<Rightarrow> 'd shell option" where
  "memtest_free f a b c s =
     do { s1 \<leftarrow> tell f (ascii ''  free b, alloc d=32 KB (should reuse b'' @ [39] @ ascii ''s space) ... '') [] s;
          s2 \<leftarrow> sh_kfree b s1;
          (d, s3) \<leftarrow> sh_kmalloc (32 * 1024) s2;
          s4 \<leftarrow> tell f (line_of ''ok (d=%p)'') [Num d] s3;
          s5 \<leftarrow> tell f (ascii ''  verifying a survived ... '') [] s4;
          (case first_bad (sh_mem s5) a 0xAA (8 * 1024) of
             Some i \<Rightarrow> tell f (line_of ''FAILED at a[%d]'') [Num (of_nat i)] s5
           | None \<Rightarrow>
               do { s6 \<leftarrow> tell f (line_of ''ok'') [] s5;
                    s7 \<leftarrow> sh_kfree a s6;
                    s8 \<leftarrow> sh_kfree c s7;
                    s9 \<leftarrow> sh_kfree d s8;
                    heap_used \<leftarrow> heap_used_bytes (gui_heap (sh_gui s9));
                    tell f (line_of ''  all freed. heap: %u KB mapped, %u bytes in use'')
                      [Num (heap_mapped_bytes (gui_heap (sh_gui s9)) div 1024), Num heap_used] s9 }) }"

definition memtest_write :: "framebuffer \<Rightarrow> u32 \<Rightarrow> u32 \<Rightarrow> u32 \<Rightarrow> 'd shell \<Rightarrow> 'd shell option" where
  "memtest_write f a b c s =
     do { s1 \<leftarrow> tell f (line_of ''ok (a=%p b=%p c=%p)'') [Num a, Num b, Num c] s;
          s2 \<leftarrow> tell f (ascii ''  writing patterns, verifying ... '') [] s1;
          (let m = memset (memset (memset (sh_mem s2) a 0xAA (8 * 1024)) b 0x5B (100 * 1024)) c 0xC7 16; s3 = s2\<lparr>sh_mem := m\<rparr>
           in case first_bad m a 0xAA (8 * 1024) of
                Some i \<Rightarrow> tell f (line_of ''FAILED at a[%d]'') [Num (of_nat i)] s3
              | None \<Rightarrow>
                 (case first_bad m b 0x5B (100 * 1024) of
                    Some i \<Rightarrow> tell f (line_of ''FAILED at b[%d]'') [Num (of_nat i)] s3
                  | None \<Rightarrow> do { s4 \<leftarrow> tell f (line_of ''ok'') [] s3; memtest_free f a b c s4 })) }"

definition cmd_memtest :: "framebuffer \<Rightarrow> 'd shell \<Rightarrow> 'd shell option" where
  "cmd_memtest f s =
     do { s1 \<leftarrow> tell f (ascii ''  alloc a=8 KB, b=100 KB, c=16 B ... '') [] s;
          (a, s2) \<leftarrow> sh_kmalloc (8 * 1024) s1;
          (b, s3) \<leftarrow> sh_kmalloc (100 * 1024) s2;
          (c, s4) \<leftarrow> sh_kmalloc 16 s3;
          (if a = 0 \<or> b = 0 \<or> c = 0 then tell f (line_of ''FAILED (out of memory?)'') [] s4
           else memtest_write f a b c s4) }"

subsection \<open>Graphics\<close>

definition shell_panda :: "framebuffer \<Rightarrow> int \<Rightarrow> int \<Rightarrow> int \<Rightarrow> mem \<Rightarrow> mem" where
  "shell_panda f ox oy s m =
     (let FUR = 0xC65A1E; DARK = 0x6E3208; CREAM = 0xF2E0C8; INK = 0x1A1A1A
      in paint
        [fb_fill_rect f (ox + 1 * s) (oy + 0 * s) (3 * s) (3 * s) DARK,
         fb_fill_rect f (ox + 12 * s) (oy + 0 * s) (3 * s) (3 * s) DARK,
         fb_fill_rect f (ox + 2 * s) (oy + 1 * s) (1 * s) (1 * s) CREAM,
         fb_fill_rect f (ox + 13 * s) (oy + 1 * s) (1 * s) (1 * s) CREAM,
         fb_fill_rect f (ox + 0 * s) (oy + 2 * s) (16 * s) (12 * s) FUR,
         fb_fill_rect f (ox + 2 * s) (oy + 5 * s) (4 * s) (3 * s) CREAM,
         fb_fill_rect f (ox + 10 * s) (oy + 5 * s) (4 * s) (3 * s) CREAM,
         fb_fill_rect f (ox + 3 * s) (oy + 6 * s) (2 * s) (2 * s) INK,
         fb_fill_rect f (ox + 11 * s) (oy + 6 * s) (2 * s) (2 * s) INK,
         fb_fill_rect f (ox + 5 * s) (oy + 9 * s) (6 * s) (5 * s) CREAM,
         fb_fill_rect f (ox + 7 * s) (oy + 10 * s) (2 * s) (2 * s) INK,
         fb_fill_rect f (ox + 0 * s) (oy + 9 * s) (2 * s) (3 * s) CREAM,
         fb_fill_rect f (ox + 14 * s) (oy + 9 * s) (2 * s) (3 * s) CREAM] m)"

definition starburst :: "framebuffer \<Rightarrow> int \<Rightarrow> int \<Rightarrow> mem \<Rightarrow> mem option" where
  "starburst f cx cy = sketch (map (\<lambda>i. sketch
     [fb_line f cx cy (cx - 200 + i * 25) (cy - 100) 0xE0A030,
      fb_line f cx cy (cx - 200 + i * 25) (cy + 100) 0x30A0E0]) [0..16])"

definition gfx_picture :: "framebuffer \<Rightarrow> mem \<Rightarrow> mem option" where
  "gfx_picture f =
     (let w = sint (fb_width f); h = sint (fb_height f)
      in sketch
        [ink (fb_fill_rect f 0 0 w h 0x101018),
         ink (fb_text f 40 24 (ascii ''RedPandaOS v5 - drawing its own pixels'') 0xFFFFFF),
         (if w = 81 then (\<lambda>_. None)
          else ink (for_int 0 (w - 80) (\<lambda>x.
            let t = of_int x * 255 div of_int (w - 81)
            in fb_fill_rect f (40 + x) 56 1 48 (push_bit 16 t OR push_bit 8 (255 - t) OR 96)))),
         ink (for_int 0 9 (\<lambda>i.
           fb_draw_rect f (40 + i * 14) (140 + i * 10) (300 - i * 28) (200 - i * 20) (0x2060A0 + of_int i * 0x101008))),
         starburst f (w - 280) 240,
         ink (shell_panda f (w sdiv 2 - 64) (h - 220) 8),
         ink (fb_text f (w sdiv 2 - 100) (h - 80) (ascii ''the resident red panda'') 0xC65A1E),
         ink (fb_text f 40 (h - 32) (ascii ''press any key to return'') 0x808080)])"

definition cmd_gfx :: "framebuffer \<Rightarrow> 'd shell \<Rightarrow> 'd shell option" where
  "cmd_gfx f s =
     do { m \<leftarrow> gfx_picture f (sh_mem s);
          (c, s1) \<leftarrow> sh_getchar (s\<lparr>sh_mem := fb_flip f m\<rparr>);
          Some (sh_clear f s1) }"

definition append_int :: "u8 list \<Rightarrow> int \<Rightarrow> u8 list" where
  "append_int p v = (p @ (if v < 0 then [45] else [])) @ app_digits (nat \<bar>v\<bar>)"

definition PAINT_BG :: u32 where "PAINT_BG = 0x16161E"
definition PAINT_BAR :: u32 where "PAINT_BAR = 0x24242E"
definition PAINT_INK :: u32 where "PAINT_INK = 0xF0F0F0"

record brush =
  br_left :: bool
  br_x :: int
  br_y :: int

definition paint_button :: "framebuffer \<Rightarrow> event \<Rightarrow> brush \<times> mem \<Rightarrow> brush \<times> mem" where
  "paint_button f ev = (\<lambda>(b, m).
     if ev_button ev = 0 then (b\<lparr>br_left := ev_pressed ev \<noteq> 0, br_x := sint (ev_x ev), br_y := sint (ev_y ev)\<rparr>, m)
     else if ev_button ev = 1 \<and> ev_pressed ev \<noteq> 0
     then (b, fb_flip f (fb_fill_rect f 0 24 (sint (fb_width f)) (sint (fb_height f) - 24) PAINT_BG m))
     else (b, m))"

definition paint_stroke :: "framebuffer \<Rightarrow> int \<Rightarrow> int \<Rightarrow> int \<Rightarrow> int \<Rightarrow> mem \<Rightarrow> mem option" where
  "paint_stroke f lx ly x y =
     (let x0 = (if lx < x then lx else x); y0 = (if ly < y then ly else y);
          x1 = (if lx > x then lx else x); y1 = (if ly > y then ly else y)
      in sketch
        [fb_line f lx ly x y PAINT_INK, fb_line f (lx + 1) ly (x + 1) y PAINT_INK,
         fb_line f lx (ly + 1) x (y + 1) PAINT_INK, fb_line f (lx + 1) (ly + 1) (x + 1) (y + 1) PAINT_INK,
         ink (fb_flip_rect f (x0 - 1) (y0 - 1) (x1 - x0 + 4) (y1 - y0 + 4))])"

definition paint_status :: "framebuffer \<Rightarrow> bool \<Rightarrow> int \<Rightarrow> int \<Rightarrow> mem \<Rightarrow> mem" where
  "paint_status f left x y m =
     (let w = sint (fb_width f); p = append_int (append_int [] x @ [44]) y;
          status = (if left then p @ [32, 76] else p)
      in paint
        [fb_fill_rect f (w - 120) 0 120 24 PAINT_BAR,
         fb_text f (w - 112) 4 status PAINT_INK,
         fb_flip_rect f (w - 120) 0 120 24] m)"

definition paint_move :: "framebuffer \<Rightarrow> event \<Rightarrow> brush \<times> mem \<Rightarrow> (brush \<times> mem) option" where
  "paint_move f ev = (\<lambda>(b, m).
     let x = sint (ev_x ev); y = sint (ev_y ev)
     in do { m1 \<leftarrow> (if br_left b \<and> br_x b \<ge> 0 \<and> y > 24 then paint_stroke f (br_x b) (br_y b) x y m else Some m);
             Some (b\<lparr>br_x := x, br_y := y\<rparr>, paint_status f (br_left b) x y m1) })"

text \<open>The loop takes events until the escape key.\<close>

fun paint_loop :: "framebuffer \<Rightarrow> event list \<Rightarrow> brush \<times> mem \<Rightarrow> mem option" where
  "paint_loop f [] bm = None"
| "paint_loop f (ev # evs) bm =
     (if ev_type ev = EV_KEY \<and> ev_ch ev = 27 then Some (snd bm)
      else if ev_type ev = EV_MOUSE_BUTTON then paint_loop f evs (paint_button f ev bm)
      else if ev_type ev = EV_MOUSE_MOVE
      then (case paint_move f ev bm of None \<Rightarrow> None | Some bm' \<Rightarrow> paint_loop f evs bm')
      else paint_loop f evs bm)"

definition cmd_paint :: "framebuffer \<Rightarrow> event list \<Rightarrow> 'd shell \<Rightarrow> 'd shell option" where
  "cmd_paint f evs s =
     (let w = sint (fb_width f); h = sint (fb_height f);
          m = paint
            [fb_fill_rect f 0 0 w h PAINT_BG,
             fb_fill_rect f 0 0 w 24 PAINT_BAR,
             fb_text f 8 4 (ascii ''paint  -  hold left button to draw, right click clears, ESC exits'') 0x9090A0,
             fb_flip f] (sh_mem s)
      in do { m1 \<leftarrow> paint_loop f evs (\<lparr>br_left = False, br_x = - 1, br_y = - 1\<rparr>, m);
              Some (sh_clear f (s\<lparr>sh_mem := m1\<rparr>)) })"

subsection \<open>Files\<close>

fun ls_lines :: "framebuffer \<Rightarrow> nat list \<Rightarrow> int \<Rightarrow> 'd shell \<Rightarrow> (int \<times> 'd shell) option" where
  "ls_lines f [] n s = Some (n, s)"
| "ls_lines f (i # r) n s =
     (case fs_dir_get (int i) (sh_files s) of None \<Rightarrow> ls_lines f r n s
      | Some (name, sz) \<Rightarrow>
          (case tell f (line_of ''  %6u  %s'') [Num sz, Str (Some (cstr name))] s of None \<Rightarrow> None
           | Some s' \<Rightarrow> ls_lines f r (n + 1) s'))"

definition cmd_ls :: "framebuffer \<Rightarrow> 'd shell \<Rightarrow> 'd shell option" where
  "cmd_ls f s =
     do { (n, s1) \<leftarrow> ls_lines f [0..<FS_DIR_ENTRIES] 0 s;
          s2 \<leftarrow> (if n = 0 then tell f (line_of ''  (no files)'') [] s1 else Some s1);
          tell f (line_of ''  %u of %u KB free'')
            [Num (fs_free_bytes (sh_files s2) div 1024), Num (fs_total_bytes (sh_files s2) div 1024)] s2 }"

text \<open>The buffer is the heap block: what \<open>fs_read\<close> stored, then what memory held before.\<close>

definition cmd_cat :: "'d bus \<Rightarrow> (u32 \<Rightarrow> u8) \<Rightarrow> framebuffer \<Rightarrow> u8 list \<Rightarrow> 'd shell \<Rightarrow> 'd shell option" where
  "cmd_cat bus mm f name s =
     (let ((sz, none), st) = fs_read (disk_rd bus) name 0 (sh_files s); s1 = set_files st s
      in if sz < 0 then tell f (line_of ''  no such file: %s'') [Str (Some name)] s1
         else if sz = 0 then tell f (line_of ''  (empty)'') [] s1
         else do { (p, s2) \<leftarrow> sh_kmalloc (of_int sz + 1) s1;
                   if p = 0 then tell f (line_of ''  out of memory'') [] s2
                   else let ((r, out), st2) = fs_read (disk_rd bus) name (of_int sz) (sh_files s2); s3 = set_files st2 s2;
                            buf = out @ map (\<lambda>i. mm (p + of_nat i)) [length out..<nat sz]
                        in do { s4 \<leftarrow> tell f (line_of ''%s'') [Str (Some (cstr buf))] s3;
                                sh_kfree p s4 } })"

definition cmd_write :: "'d bus \<Rightarrow> framebuffer \<Rightarrow> u8 list \<Rightarrow> 'd shell \<Rightarrow> 'd shell option" where
  "cmd_write bus f args s =
     (let name = takeWhile (\<lambda>c. c \<noteq> 32) args; rest = dropWhile (\<lambda>c. c \<noteq> 32) args
      in if rest = [] then tell f (line_of ''  usage: write <file> <text>'') [] s
         else let text = tl rest; (r, st) = fs_write (disk_wr bus) name text (of_nat (length text)) (sh_files s); s1 = set_files st s
              in if r < 0 then tell f (line_of ''  write failed (name too long? disk full?)'') [] s1
                 else tell f (line_of ''  wrote %u bytes to %s'') [Num (of_nat (length text)), Str (Some name)] s1)"

definition cmd_rm :: "'d bus \<Rightarrow> framebuffer \<Rightarrow> u8 list \<Rightarrow> 'd shell \<Rightarrow> 'd shell option" where
  "cmd_rm bus f name s =
     (let (r, st) = fs_delete (disk_wr bus) name (sh_files s); s1 = set_files st s
      in if r < 0 then tell f (line_of ''  no such file: %s'') [Str (Some name)] s1
         else tell f (line_of ''  deleted %s'') [Str (Some name)] s1)"

subsection \<open>About, uptime\<close>

definition COLOR_LIGHT_RED :: u32 where "COLOR_LIGHT_RED = 12"

definition cmd_about :: "framebuffer \<Rightarrow> 'd shell \<Rightarrow> 'd shell option" where
  "cmd_about f s =
     do { s1 \<leftarrow> tell_all f
            [(10 # ascii ''    ('' @ [92] @ line_of ''__/)'', []),
             (line_of ''    (o^.^)    RedPandaOS v11'', []),
             (ascii ''    z(_('' @ [34] @ ascii '')('' @ [34] @ ascii '')  '', [])]
            (sh_color COLOR_LIGHT_RED COLOR_BLACK s);
          tell f (line_of ''own bootloader, own kernel, own everything.'' @ [10]) [] (sh_color COLOR_LIGHT_GREY COLOR_BLACK s1) }"

definition cmd_uptime :: "framebuffer \<Rightarrow> u32 \<Rightarrow> u32 \<Rightarrow> 'd shell \<Rightarrow> 'd shell option" where
  "cmd_uptime f t hz s =
     (if hz = 0 then None
      else tell f (line_of ''  up %u.%02u s  (%u ticks @ %u Hz)'')
             [Num (t div hz), Num (t mod hz * 100 div hz), Num t, Num hz] s)"

subsection \<open>Running a command\<close>

definition cmd_gui :: "'d io \<Rightarrow> framebuffer \<Rightarrow> 'd shell \<Rightarrow> ('d shell \<times> outcome) option" where
  "cmd_gui io f s =
     (case gui_session (io_bus io) (io_mm io) (io_now io) f (io_first io) (io_frames io) (io_rounds io) (sh_gui s, sh_mem s) of
        None \<Rightarrow> None
      | Some (g, m) \<Rightarrow>
          let s1 = s\<lparr>sh_gui := g, sh_mem := m\<rparr>
          in if power g \<noteq> None then Some (s1, Off)
             else map_option (\<lambda>s. (s, Back))
               (tell f (ascii ''Back in the console. '' @ [39] @ ascii ''gui'' @ [39] @ line_of '' returns to the desktop.'') [] (sh_clear f s1)))"

text \<open>The store of \<open>pagefault\<close>: a fault unless the page is mapped.\<close>

definition touch_page :: "'d shell \<Rightarrow> 'd shell \<times> outcome" where
  "touch_page s =
     (case translate (heap_pg (gui_heap (sh_gui s))) 0xE0000000 of
        None \<Rightarrow> (s, Fault 14)
      | Some p \<Rightarrow> (s\<lparr>sh_mem := store32 (sh_mem s) 0xE0000000 42\<rparr>, Back))"

definition returns :: "'d shell option \<Rightarrow> ('d shell \<times> outcome) option" where
  "returns r = map_option (\<lambda>s. (s, Back)) r"

definition execute :: "'d io \<Rightarrow> framebuffer \<Rightarrow> u8 list \<Rightarrow> 'd shell \<Rightarrow> ('d shell \<times> outcome) option" where
  "execute io f line s =
     (if line = [] then returns (Some s)
      else if line = ascii ''gui'' then cmd_gui io f s
      else if line = ascii ''demo'' then cmd_gui io f (s\<lparr>sh_gui := (sh_gui s)\<lparr>gwm := gui_demo_windows (gwm (sh_gui s))\<rparr>\<rparr>)
      else if line = ascii ''ls'' then returns (cmd_ls f s)
      else if take 4 line = ascii ''cat '' then returns (cmd_cat (io_bus io) (io_mm io) f (drop 4 line) s)
      else if take 6 line = ascii ''write '' then returns (cmd_write (io_bus io) f (drop 6 line) s)
      else if take 3 line = ascii ''rm '' then returns (cmd_rm (io_bus io) f (drop 3 line) s)
      else if line = ascii ''help'' then returns (cmd_help f s)
      else if line = ascii ''about'' then returns (cmd_about f s)
      else if line = ascii ''uptime'' then returns (cmd_uptime f (io_ticks io) (io_hz io) s)
      else if line = ascii ''clear'' then returns (Some (sh_clear f s))
      else if take 5 line = ascii ''echo '' then returns (tell f (line_of ''%s'') [Str (Some (drop 5 line))] s)
      else if line = ascii ''echo'' then returns (tell f [10] [] s)
      else if line = ascii ''gfx'' then returns (cmd_gfx f s)
      else if line = ascii ''paint'' then returns (cmd_paint f (io_events io) s)
      else if line = ascii ''mem'' then returns (cmd_mem f s)
      else if line = ascii ''memtest'' then returns (cmd_memtest f s)
      else if line = ascii ''crash'' then
        map_option (\<lambda>s. (s, Fault 6)) (tell f (line_of ''  executing an invalid opcode...'') [] s)
      else if line = ascii ''pagefault'' then
        map_option touch_page (tell f (line_of ''  writing to unmapped address 0xE0000000...'') [] s)
      else returns (tell f (ascii ''  unknown command: %s  (try '' @ [39] @ ascii ''help'' @ [39] @ line_of '')'') [Str (Some line)] s))"

subsection \<open>Reading a line\<close>

fun read_line :: "framebuffer \<Rightarrow> u8 list \<Rightarrow> u8 list \<Rightarrow> console_world \<Rightarrow> (u8 list \<times> u8 list \<times> console_world) option" where
  "read_line f [] buf w = None"
| "read_line f (c # keys) buf w =
     (if c = 10 then Some (buf, keys, console_putc f 10 w)
      else if c = 8 then
        (if buf \<noteq> [] then read_line f keys (butlast buf) (console_putc f 8 w) else read_line f keys buf w)
      else if \<not> c <s 32 \<and> length buf < LINE_MAX - 1 then read_line f keys (buf @ [c]) (console_putc f c w)
      else read_line f keys buf w)"

definition shell_line :: "framebuffer \<Rightarrow> 'd shell \<Rightarrow> (u8 list \<times> 'd shell) option" where
  "shell_line f s =
     do { s1 \<leftarrow> tell f (ascii ''redpanda'') [] (sh_color COLOR_LIGHT_RED COLOR_BLACK s);
          s2 \<leftarrow> tell f (ascii ''> '') [] (sh_color COLOR_LIGHT_GREY COLOR_BLACK s1);
          (line, keys, (t, m)) \<leftarrow> read_line f (sh_keys s2) [] (sh_con s2, sh_mem s2);
          Some (line, s2\<lparr>sh_keys := keys, sh_con := t, sh_mem := m\<rparr>) }"

text \<open>One round of the loop for each element of \<open>ios\<close>; a command that does not return ends it.\<close>

fun shell_rounds :: "framebuffer \<Rightarrow> 'd io list \<Rightarrow> 'd shell \<Rightarrow> ('d shell \<times> outcome) option" where
  "shell_rounds f [] s = Some (s, Back)"
| "shell_rounds f (io # ios) s =
     (case shell_line f s of None \<Rightarrow> None
      | Some (line, s1) \<Rightarrow>
          (case execute io f line s1 of None \<Rightarrow> None
           | Some (s2, r) \<Rightarrow> if r = Back then shell_rounds f ios s2 else Some (s2, r)))"

definition shell_run :: "framebuffer \<Rightarrow> 'd io list \<Rightarrow> 'd shell \<Rightarrow> ('d shell \<times> outcome) option" where
  "shell_run f ios s =
     Option.bind (tell f (ascii ''Type '' @ [39] @ ascii ''help'' @ [39] @ line_of '' for a list of commands.'' @ [10]) [] s)
       (shell_rounds f ios)"

end
