(* ===== verification/Gui_Safe.thy ===== *)
theory Gui_Safe
  imports Gui
begin

text \<open>
  What every history of the desktop keeps. A state is safe when the windows, the desktop and the volume
  satisfy their invariants, every editor window has its editor, and the blocks of the heap are exactly
  those of the rest of the kernel and, each once, those of the open editors. Every event keeps it.
\<close>

subsection \<open>The heap is not touched by the file system\<close>

lemma flush_fat_heap [frame_simps]: "flush_fat_range wr a b st = (r, st') \<Longrightarrow> fs_heap st' = fs_heap st"
  by (auto simp: flush_fat_range_def Let_def split: prod.splits)

lemma flush_dir_heap [frame_simps]: "flush_dir wr st = (r, st') \<Longrightarrow> fs_heap st' = fs_heap st"
  by (auto simp: flush_dir_def split: prod.splits)

lemma small_steps_heap [simp]:
  "fs_heap (upd_entry i f st) = fs_heap st" "fs_heap (set_fat b v st) = fs_heap st"
  "fs_heap (drop_chain i len st) = fs_heap st" "fs_heap (link_block i prev b1 st) = fs_heap st"
  by (simp_all add: upd_entry_def set_fat_def drop_chain_def link_block_def Let_def)

lemma roll_back_heap [simp]: "fs_heap (roll_back wr i st) = fs_heap st"
  by (auto simp: roll_back_def Let_def split: prod.splits dest!: flush_fat_heap flush_dir_heap)

lemma flush_all_heap: "flush_all wr st = (r, st') \<Longrightarrow> fs_heap st' = fs_heap st"
  by (auto simp: flush_all_def split: prod.splits if_splits dest!: flush_fat_heap flush_dir_heap)

lemma write_loop_heap: "fs_heap (snd (write_loop wr i prev inp rem st)) = fs_heap st"
proof (induction wr i prev inp rem st rule: write_loop.induct)
  case (1 wr i prev inp rem st)
  show ?case
  proof (cases "rem \<noteq> 0 \<and> alloc_block st \<noteq> 0")
    case False
    then show ?thesis by (auto simp: write_loop.simps [of wr i prev inp rem st])
  next
    case True
    define st1 where "st1 = link_block i prev (alloc_block st) st"
    define sect where "sect = take (unat (chunk_len rem)) inp @ replicate (512 - unat (chunk_len rem)) 0"
    obtain r d where w: "wr (block_lba (fs_sb st1) (alloc_block st)) sect (fs_dev st1) = (r, d)" by (rule prod.exhaust)
    define st2 where "st2 = st1\<lparr>fs_sect := sect, fs_dev := d\<rparr>"
    have h: "fs_heap st2 = fs_heap st" by (simp add: st2_def st1_def)
    have u: "write_loop wr i prev inp rem st = (if r \<noteq> 0 then (- 1, st2)
        else write_loop wr i (alloc_block st) (drop (unat (chunk_len rem)) inp) (rem - chunk_len rem) st2)"
      using True w by (simp add: write_loop.simps [of wr i prev inp rem st] st1_def sect_def st2_def Let_def)
    have "r = 0 \<Longrightarrow> fs_heap (snd (write_loop wr i (alloc_block st) (drop (unat (chunk_len rem)) inp) (rem - chunk_len rem) st2)) = fs_heap st2"
      using "1.IH" [OF _ refl _ st1_def refl sect_def w [symmetric] refl st2_def] True by simp
    then show ?thesis using u h by simp
  qed
qed

lemma fs_write_heap: "fs_write wr name data len st = (r, st') \<Longrightarrow> fs_heap st' = fs_heap st"
  unfolding fs_write_def
  by (auto simp: claim_entry_def split: if_splits option.splits prod.splits dest!: flush_all_heap)
     (metis snd_conv small_steps_heap write_loop_heap)+

lemma fs_delete_heap: "fs_delete wr name st = (r, st') \<Longrightarrow> fs_heap st' = fs_heap st"
  by (auto simp: fs_delete_def split: if_splits option.splits dest!: flush_all_heap)

lemma fs_rename_heap: "fs_rename wr a b st = (r, st') \<Longrightarrow> fs_heap st' = fs_heap st"
  by (auto simp: fs_rename_def split: if_splits option.splits dest!: flush_dir_heap)

lemma read_loop_heap: "fs_heap (snd (read_loop rd b rem out st)) = fs_heap st"
proof (induction rd b rem out st rule: read_loop.induct)
  case (1 rd b rem out st)
  show ?case
  proof (cases "rem \<noteq> 0 \<and> b \<noteq> 0 \<and> b \<noteq> FAT_END")
    case False
    then show ?thesis by (auto simp: read_loop.simps [of rd b rem out st])
  next
    case True
    obtain r bs d where w: "rd (block_lba (fs_sb st) b) (fs_sect st) (fs_dev st) = ((r, bs), d)"
      by (metis prod.exhaust)
    define st1 where "st1 = st\<lparr>fs_sect := bs, fs_dev := d\<rparr>"
    have u: "read_loop rd b rem out st = (if r \<noteq> 0 then ((False, out), st1)
        else read_loop rd (fs_fat st (unat b)) (rem - chunk_len rem) (out @ take (unat (chunk_len rem)) bs) st1)"
      using True w by (simp add: read_loop.simps [of rd b rem out st] st1_def Let_def)
    have "r = 0 \<Longrightarrow> fs_heap (snd (read_loop rd (fs_fat st (unat b)) (rem - chunk_len rem) (out @ take (unat (chunk_len rem)) bs) st1)) = fs_heap st1"
      using "1.IH" [OF True _ _ refl st1_def refl, of "((r, bs), d)"] w by simp
    then show ?thesis using u by (simp add: st1_def)
  qed
qed

lemma fs_read_heap: "fs_read rd name n st = (r, st') \<Longrightarrow> fs_heap st' = fs_heap st"
  unfolding fs_read_def
  by (auto simp: Let_def split: if_splits option.splits prod.splits) (metis read_loop_heap snd_conv)+

subsection \<open>A good volume stays good\<close>

definition fs_good :: "('d \<Rightarrow> drive) \<Rightarrow> 'd fsys \<Rightarrow> bool" where
  "fs_good \<alpha> st \<longleftrightarrow> on_drive \<alpha> st \<and> fs_inv st"

lemma fs_good_heap [simp]: "fs_good \<alpha> (st\<lparr>fs_heap := h\<rparr>) = fs_good \<alpha> st"
  by (simp add: fs_good_def fs_inv_def linked_def Fs_Spec.used_def name_of_def blocks_of_def nblocks_def
      sized_def on_drive_def volume_ok_def)

lemma no_slot: "fs_good \<alpha> st \<Longrightarrow> valid_name name \<Longrightarrow> \<not> has_slot st name \<Longrightarrow> fs_write wr name data len st = (- 1, st)"
  using claim_entry_correct [of st name] by (auto simp: fs_good_def fs_inv_def fs_write_def)

lemma disk_write_good:
  assumes "drives bus \<alpha>" "fs_good \<alpha> st" "0 \<notin> set name" "length data = unat len"
    and w: "fs_write (disk_wr bus) name data len st = (r, st')"
  shows "fs_good \<alpha> st' \<and> fs_heap st' = fs_heap st"
proof -
  have g: "on_drive \<alpha> st" "fs_inv st" using assms(2) by (simp_all add: fs_good_def)
  have "fs_good \<alpha> st'"
  proof (cases "valid_name name \<and> has_slot st name")
    case True
    note full = sector_disk.fs_write_full [OF ata_is_sector_disk [OF assms(1)] g(1) [unfolded stack_defs] g(2), of name data len]
    show ?thesis
    proof (cases "blocks_for (unat len) \<le> room_for st name")
      case fits: True
      then show ?thesis using drive_write [OF assms(1) g _ _ assms(4) fits] True w by (auto simp: fs_good_def)
    next
      case False
      then show ?thesis using full True assms(4) w by (auto simp: fs_good_def stack_defs)
    qed
  next
    case False
    then have "st' = st"
      using no_slot [OF assms(2), of name "disk_wr bus" data len] assms(3) w
      by (auto simp: valid_name_def fs_write_def FS_MAX_NAME_def split: if_splits)
    then show ?thesis using assms(2) by simp
  qed
  then show ?thesis using fs_write_heap [OF w] by simp
qed

lemma disk_delete_good:
  assumes "drives bus \<alpha>" "fs_good \<alpha> st" "0 \<notin> set name" "fs_delete (disk_wr bus) name st = (r, st')"
  shows "fs_good \<alpha> st' \<and> fs_heap st' = fs_heap st"
proof -
  have g: "on_drive \<alpha> st" "fs_inv st" using assms(2) by (simp_all add: fs_good_def)
  have "fs_good \<alpha> st'"
  proof (cases "find_entry st name")
    case None
    then show ?thesis using assms(2,4) by (auto simp: fs_delete_def split: if_splits)
  next
    case (Some i)
    show ?thesis
      using sector_disk.fs_delete_ok [OF ata_is_sector_disk [OF assms(1)] g(1) [unfolded stack_defs] g(2) assms(3) Some] assms(4)
      by (auto simp: fs_good_def stack_defs)
  qed
  then show ?thesis using fs_delete_heap [OF assms(4)] by simp
qed

lemma disk_rename_good:
  assumes "drives bus \<alpha>" "fs_good \<alpha> st" "0 \<notin> set a" "0 \<notin> set b" "fs_rename (disk_wr bus) a b st = (r, st')"
  shows "fs_good \<alpha> st' \<and> fs_heap st' = fs_heap st"
proof -
  have g: "on_drive \<alpha> st" "fs_inv st" using assms(2) by (simp_all add: fs_good_def)
  have "fs_good \<alpha> st'"
  proof (cases "valid_name b \<and> find_entry st a \<noteq> None \<and> find_entry st b = None")
    case True
    then obtain i where "find_entry st a = Some i" by blast
    then show ?thesis using drive_rename [OF assms(1) g assms(3)] True assms(5) by (fastforce simp: fs_good_def)
  next
    case False
    then have "st' = st" using assms(4,5)
      by (auto simp: fs_rename_def valid_name_def FS_MAX_NAME_def split: if_splits option.splits)
    then show ?thesis using assms(2) by simp
  qed
  then show ?thesis using fs_rename_heap [OF assms(5)] by simp
qed

text \<open>A file is never larger than the volume can be.\<close>

definition MAX_FILE :: nat where "MAX_FILE = 512 * 65534"

lemma blocks_bounded:
  assumes "fs_good \<alpha> st" "Fs_Spec.used st i"
  shows "length (blocks_of st i) \<le> 65534"
proof -
  have l: "linked st" and n: "nblocks st \<le> 65534"
    using assms(1) by (auto simp: fs_good_def fs_inv_def on_drive_def volume_ok_def layout_ok_def nblocks_def)
  have c: "fat_chain (fs_fat st) (de_first (fs_dir st ! i)) (blocks_of st i)" using linked_chain [OF l assms(2)] .
  have "unat ` set (blocks_of st i) \<subseteq> {1..65534}"
  proof (intro image_subsetI)
    fix b assume b: "b \<in> set (blocks_of st i)"
    have "unat b \<le> nblocks st" using l assms(2) b unfolding linked_def by blast
    then have "unat b \<le> 65534" using n by simp
    moreover have "b \<noteq> 0" using fat_chain_member [OF c b] by blast
    then have "unat b \<noteq> 0" by (simp add: unsigned_eq_0_iff)
    ultimately show "unat b \<in> {1..65534}" by simp
  qed
  then have "card (unat ` set (blocks_of st i)) \<le> 65534"
    using card_mono [of "{1..65534 :: nat}"] by fastforce
  moreover have "card (unat ` set (blocks_of st i)) = length (blocks_of st i)"
    using fat_chain_distinct [OF c] by (simp add: card_image distinct_card inj_on_def unsigned_word_eqI)
  ultimately show ?thesis by simp
qed

lemma disk_read_good:
  assumes "drives bus \<alpha>" "fs_good \<alpha> st" "0 \<notin> set name" "fs_read (disk_rd bus) name n st = ((sz, out), st')"
  shows "fs_good \<alpha> st' \<and> fs_heap st' = fs_heap st \<and> length out \<le> unat n \<and> sz \<le> int MAX_FILE"
proof -
  have g: "on_drive \<alpha> st" "fs_inv st" using assms(2) by (simp_all add: fs_good_def)
  have "fs_good \<alpha> st' \<and> length out \<le> unat n \<and> sz \<le> int MAX_FILE"
  proof (cases "find_entry st name")
    case None
    then show ?thesis using assms(2,4) by (auto simp: fs_read_def MAX_FILE_def split: if_splits)
  next
    case (Some i)
    then obtain bs where bs: "files \<alpha> st name = Some bs" "bs = file_bytes (\<lambda>d. dr_bytes (\<alpha> d)) st i"
      by (simp add: files_def contents_def)
    have u: "Fs_Spec.used st i" using find_entry_some [OF assms(3) Some] by blast
    then have "(unat (de_size (fs_dir st ! i)) + 511) div 512 \<le> 65534"
      using blocks_bounded [OF assms(2) u] g(2) by (simp add: fs_inv_def sized_def)
    then have "unat (de_size (fs_dir st ! i)) \<le> MAX_FILE" by (simp add: MAX_FILE_def)
    then have l: "length bs \<le> MAX_FILE" by (simp add: bs(2) file_bytes_def min.coboundedI2)
    then have "sint (of_nat (length bs) :: u32) = int (length bs)" by (intro sint_of_nat_small) (simp add: MAX_FILE_def)
    then show ?thesis
      using drive_read [OF assms(1) g assms(3) bs(1), of n] assms(4) l by (auto simp: fs_good_def)
  qed
  then show ?thesis using fs_read_heap [OF assms(4)] by simp
qed

subsection \<open>A good desktop stays good\<close>

definition desk_ok :: "int \<times> int \<Rightarrow> desk \<Rightarrow> bool" where
  "desk_ok wh d \<longleftrightarrow> (scr_w d, scr_h d) = wh \<and> on_desktop d \<and> length (icons d) \<le> FS_DIR_ENTRIES \<and> (\<forall>ic \<in> set (icons d). name_field (ic_name ic))"

lemma dir_name_field:
  assumes "fs_good \<alpha> st" "fs_dir_get i st = Some (name, sz)"
  shows "name_field name"
proof -
  have "nat i < 64" "name = (de_name (fs_dir st ! nat i))[21 := 0]"
    using assms(2) by (auto simp: fs_dir_get_def FS_DIR_ENTRIES_def FS_MAX_NAME_def split: if_splits)
  then show ?thesis using assms(1) by (simp add: fs_good_def fs_inv_def linked_def name_field_def)
qed

lemma desktop_file_field: "fs_good \<alpha> st \<Longrightarrow> desktop_file st i = Some name \<Longrightarrow> name_field name"
  by (auto simp: desktop_file_def split: option.splits prod.splits if_splits dest: dir_name_field)

lemma length_map_filter: "length (List.map_filter f xs) \<le> length xs"
  by (simp add: List.map_filter_def)

lemma refresh_screen:
  assumes "refresh_icons rd d st = (d', st')"
  shows "scr_w d' = scr_w d" "scr_h d' = scr_h d"
proof -
  have "scr_w (place_new_icons d0) = scr_w d0 \<and> scr_h (place_new_icons d0) = scr_h d0" for d0
    using place_new_icons_upto [of d0] by (auto simp: placed_upto_def)
  then show "scr_w d' = scr_w d" "scr_h d' = scr_h d"
    using assms by (auto simp: refresh_icons_def load_layout_def Let_def split: prod.splits option.splits if_splits)
qed

lemma refresh_good:
  assumes "drives bus \<alpha>" "fs_good \<alpha> st" "desk_ok wh d" "refresh_icons (disk_rd bus) d st = (d', st')"
  shows "desk_ok wh d' \<and> fs_good \<alpha> st' \<and> fs_heap st' = fs_heap st"
proof -
  obtain sz out st1 where r: "fs_read (disk_rd bus) LAYOUT_FILE (of_nat LAYOUT_SIZE) st = ((sz, out), st1)"
    by (metis prod.exhaust)
  have "st' = st1" using assms(4) r by (auto simp: refresh_icons_def load_layout_def Let_def)
  then have good: "fs_good \<alpha> st'" "fs_heap st' = fs_heap st"
    using disk_read_good [OF assms(1,2) layout_file_name(2) r] by simp_all
  have "on_desktop d" using assms(3) by (simp add: desk_ok_def)
  note rs = refresh_icons_shows [OF this assms(4)]
  then have "length (icons d') \<le> FS_DIR_ENTRIES"
    using length_map_filter [of "desktop_file st'" "[0..<FS_DIR_ENTRIES]"] by (metis length_map length_upt minus_nat.diff_0)
  moreover have "name_field (ic_name ic)" if "ic \<in> set (icons d')" for ic
  proof -
    have "ic_name ic \<in> set (List.map_filter (desktop_file st') [0..<FS_DIR_ENTRIES])"
      using rs that by (metis image_eqI list.set_map)
    then obtain i where "desktop_file st' i = Some (ic_name ic)" by (auto simp: List.map_filter_def)
    then show ?thesis using desktop_file_field [OF good(1)] by blast
  qed
  ultimately show ?thesis using rs good refresh_screen [OF assms(4)] assms(3) by (simp add: desk_ok_def)
qed

lemma length_saved_layout:
  assumes "desk_ok wh d"
  shows "length (saved_layout d) = unat (of_nat (length (icons d) + 1) * of_nat REC_SIZE :: u32)"
proof -
  have "\<forall>r \<in> set (map (\<lambda>ic. layout_rec (ic_name ic) (ic_x ic) (ic_y ic)) (icons d)). length r = 26"
    using assms by (auto simp: desk_ok_def name_field_def length_layout_rec)
  from length_concat_width [OF this] have "length (saved_layout d) = 26 * (length (icons d) + 1)"
    by (simp add: saved_layout_def length_layout_rec TRASH_REC_def)
  moreover have "26 * (length (icons d) + 1) < 4294967296" using assms by (simp add: desk_ok_def FS_DIR_ENTRIES_def)
  then have "unat (of_nat (26 * (length (icons d) + 1)) :: u32) = 26 * (length (icons d) + 1)" by (rule unat_of_nat32)
  ultimately show ?thesis by (simp add: REC_SIZE_def algebra_simps)
qed

lemma save_layout_good:
  assumes "drives bus \<alpha>" "fs_good \<alpha> st" "desk_ok wh d" "save_layout (disk_wr bus) d st = (d', st')"
  shows "desk_ok wh d' \<and> fs_good \<alpha> st' \<and> fs_heap st' = fs_heap st"
proof -
  let ?b = "saved_layout d" and ?n = "length (icons d) + 1"
  obtain r st1 where w: "fs_write (disk_wr bus) LAYOUT_FILE ?b (of_nat ?n * of_nat REC_SIZE) st = (r, st1)"
    by (rule prod.exhaust)
  have e: "d' = d\<lparr>layout := ?b @ drop (length ?b) (layout d), layout_n := int ?n\<rparr>" "st' = st1"
    using assms(4) w by (simp_all add: save_layout_def Let_def)
  have "desk_ok wh d'" using assms(3) by (simp add: e desk_ok_def on_desktop_def large_screen_def in_desk_def)
  then show ?thesis
    using disk_write_good [OF assms(1,2) layout_file_name(2) length_saved_layout [OF assms(3)] w] e by simp
qed

lemma trash_file_good:
  assumes "drives bus \<alpha>" "fs_good \<alpha> st" "0 \<notin> set name"
  shows "fs_good \<alpha> (trash_file (disk_wr bus) name st) \<and> fs_heap (trash_file (disk_wr bus) name st) = fs_heap st"
proof -
  obtain r st' where w: "fs_rename (disk_wr bus) name (trash_name name) st = (r, st')" by (rule prod.exhaust)
  have "0 \<notin> set (trash_name name)" using assms(3) by (auto simp: trash_name_def TRASH_CH_def dest: in_set_takeD)
  from disk_rename_good [OF assms this w] w show ?thesis by (simp add: trash_file_def)
qed

lemma restore_file_good:
  assumes "drives bus \<alpha>" "fs_good \<alpha> st" "0 \<notin> set name"
  shows "fs_good \<alpha> (restore_file (disk_wr bus) name st) \<and> fs_heap (restore_file (disk_wr bus) name st) = fs_heap st"
proof -
  obtain r st' where w: "fs_rename (disk_wr bus) name (tl name) st = (r, st')" by (rule prod.exhaust)
  have "0 \<notin> set (tl name)" using assms(3) list.set_sel(2) by (cases name) auto
  from disk_rename_good [OF assms this w] w show ?thesis by (simp add: restore_file_def)
qed

lemma fold_good:
  assumes "\<And>x st. x \<in> set xs \<Longrightarrow> fs_good \<alpha> st \<Longrightarrow> fs_good \<alpha> (f x st) \<and> fs_heap (f x st) = fs_heap st"
    and "fs_good \<alpha> st"
  shows "fs_good \<alpha> (fold f xs st) \<and> fs_heap (fold f xs st) = fs_heap st"
  using assms
proof (induction xs arbitrary: st)
  case (Cons x xs)
  have "fs_good \<alpha> (f x st)" "fs_heap (f x st) = fs_heap st" using Cons.prems by simp_all
  then show ?case using Cons.IH [of "f x st"] Cons.prems(1) by simp
qed simp

lemma empty_trash_good:
  assumes "drives bus \<alpha>" "fs_good \<alpha> st"
  shows "fs_good \<alpha> (empty_trash bus st) \<and> fs_heap (empty_trash bus st) = fs_heap st"
  unfolding empty_trash_def
proof (rule fold_good [OF _ assms(2)])
  fix i st assume g: "fs_good \<alpha> st"
  show "fs_good \<alpha> (case fs_dir_get (int i) st of None \<Rightarrow> st
             | Some (name, sz) \<Rightarrow> if name ! 0 = TRASH_CH then snd (fs_delete (disk_wr bus) (cstr name) st) else st) \<and>
        fs_heap (case fs_dir_get (int i) st of None \<Rightarrow> st
             | Some (name, sz) \<Rightarrow> if name ! 0 = TRASH_CH then snd (fs_delete (disk_wr bus) (cstr name) st) else st) = fs_heap st"
    using g disk_delete_good [OF assms(1) g cstr_no_zero surjective_pairing] by (auto split: option.splits)
qed

text \<open>What the pointer does to the icons.\<close>

lemma desk_ok_nth:
  "desk_ok wh d \<Longrightarrow> i < length (icons d) \<Longrightarrow> in_desk d (pos_of (icons d ! i)) \<and> name_field (ic_name (icons d ! i))"
  by (simp add: desk_ok_def on_desktop_def)

lemma desk_ok_icons:
  assumes "desk_ok wh d" "length is = length (icons d)"
    and "\<And>i. i < length (icons d) \<Longrightarrow> ic_name (is ! i) = ic_name (icons d ! i) \<and> in_desk d (pos_of (is ! i))"
  shows "desk_ok wh (d\<lparr>icons := is\<rparr>)"
proof -
  have "in_desk d (pos_of ic) \<and> name_field (ic_name ic)" if "ic \<in> set is" for ic
    using that assms(2,3) desk_ok_nth [OF assms(1)] by (auto simp: in_set_conv_nth)
  then show ?thesis
    using assms(1,2) by (simp add: desk_ok_def on_desktop_def large_screen_def in_desk_def)
qed

lemma desk_ok_clear: "desk_ok wh d \<Longrightarrow> desk_ok wh (clear_selection d)"
  unfolding clear_selection_def by (rule desk_ok_icons) (auto simp: pos_of_def dest: desk_ok_nth)

lemma desk_ok_band: "desk_ok wh d \<Longrightarrow> desk_ok wh (update_band_selection ax ay px py d)"
  unfolding update_band_selection_def by (rule desk_ok_icons) (auto simp: pos_of_def dest: desk_ok_nth)

lemma desk_ok_select: "desk_ok wh d \<Longrightarrow> desk_ok wh (d\<lparr>icons := (icons d)[i := (icons d ! i)\<lparr>selected := b\<rparr>]\<rparr>)"
proof (rule desk_ok_icons)
  fix j assume "desk_ok wh d" "j < length (icons d)"
  then show "ic_name ((icons d)[i := (icons d ! i)\<lparr>selected := b\<rparr>] ! j) = ic_name (icons d ! j) \<and>
      in_desk d (pos_of ((icons d)[i := (icons d ! i)\<lparr>selected := b\<rparr>] ! j))"
    using desk_ok_nth [of wh d j] by (cases "j = i") (simp_all add: pos_of_def)
qed simp_all

lemma desk_ok_move:
  assumes "desk_ok wh d"
  shows "desk_ok wh (move_selected dx dy d)"
proof -
  have *: "clamp_cell d p = (x, y) \<Longrightarrow> in_desk d (x, y)" for p x y
    using assms clamp_in_desk [of d p] by (simp add: desk_ok_def on_desktop_def)
  show ?thesis
    unfolding move_selected_def
    by (intro desk_ok_icons [OF assms]) (auto simp: pos_of_def Let_def split: prod.splits dest: desk_ok_nth [OF assms] *)
qed

lemma desk_ok_trash [simp]:
  "desk_ok wh (d\<lparr>trash_x := x, trash_y := y\<rparr>) = desk_ok wh d" "desk_ok wh (d\<lparr>trash_dragging := b\<rparr>) = desk_ok wh d"
  by (simp_all add: desk_ok_def on_desktop_def large_screen_def in_desk_def)

subsection \<open>The services of the editor\<close>

definition gui_owned :: "desk \<times> 'd fsys \<Rightarrow> u32 set" where
  "gui_owned k = heap_owned (fs_heap (snd k))"

definition gui_sane :: "('d \<Rightarrow> drive) \<Rightarrow> int \<times> int \<Rightarrow> desk \<times> 'd fsys \<Rightarrow> bool" where
  "gui_sane \<alpha> wh k \<longleftrightarrow> desk_ok wh (fst k) \<and> fs_good \<alpha> (snd k) \<and> heap_sane (fs_heap (snd k))"

lemma gui_services_heap:
  assumes "drives bus \<alpha>"
  shows "editor_heap (gui_services bus mm) gui_owned (gui_sane \<alpha> wh) max_request"
proof
  fix h :: "desk \<times> 'a fsys" and n p :: u32 and h' :: "desk \<times> 'a fsys"
  obtain d st where h: "h = (d, st)" by (rule prod.exhaust)
  show "gui_sane \<alpha> wh h \<Longrightarrow> 0 \<notin> gui_owned h" by (simp add: gui_sane_def gui_owned_def kheap.owned_nonzero)
  show "gui_sane \<alpha> wh h' \<and> (if p = 0 then gui_owned h' = gui_owned h else p \<notin> gui_owned h \<and> gui_owned h' = insert p (gui_owned h))"
    if "gui_sane \<alpha> wh h" "unat n \<le> max_request" "k_malloc (gui_services bus mm) n h = (p, h')"
  proof -
    obtain q hp where a: "heap_alloc n (fs_heap st) = (q, hp)" by (rule prod.exhaust)
    then have "p = q" "h' = (d, st\<lparr>fs_heap := hp\<rparr>)" using that(3) by (simp_all add: gui_services_def h)
    then show ?thesis using that(1) kheap.alloc_ok [OF _ that(2) a] by (simp add: gui_sane_def gui_owned_def h)
  qed
  show "gui_sane \<alpha> wh (k_free (gui_services bus mm) p h) \<and> gui_owned (k_free (gui_services bus mm) p h) = gui_owned h - {p}"
    if "gui_sane \<alpha> wh h" "p \<in> gui_owned h"
    using that kheap.release_ok [of "fs_heap st" p] by (simp add: gui_sane_def gui_owned_def h gui_services_def)
next
  show "65536 \<le> max_request" by (simp add: max_request_def)
next
  fix h h' :: "desk \<times> 'a fsys" and b f :: "u8 list" and r :: int
  obtain d st where h: "h = (d, st)" by (rule prod.exhaust)
  assume s: "gui_sane \<alpha> wh h" and l: "length b \<le> max_request"
  show "gui_sane \<alpha> wh h' \<and> gui_owned h' = gui_owned h" if "k_write (gui_services bus mm) f b h = (r, h')"
  proof -
    obtain q st1 where w: "fs_write (disk_wr bus) (cstr f) b (of_nat (length b)) st = (q, st1)" by (rule prod.exhaust)
    have "length b < 4294967296" using l by (simp add: max_request_def)
    then have "length b = unat (of_nat (length b) :: u32)" by (simp add: unat_of_nat32)
    moreover have "fs_good \<alpha> st" using s by (simp add: gui_sane_def h)
    ultimately show ?thesis
      using disk_write_good [OF assms _ cstr_no_zero _ w] that w s by (auto simp: gui_sane_def gui_owned_def h gui_services_def)
  qed
next
  fix h :: "desk \<times> 'a fsys"
  assume s: "gui_sane \<alpha> wh h"
  obtain d st where h: "h = (d, st)" by (rule prod.exhaust)
  obtain d' st' where e: "refresh_icons (disk_rd bus) d st = (d', st')" by (rule prod.exhaust)
  have "fs_good \<alpha> st" "desk_ok wh d" using s by (simp_all add: gui_sane_def h)
  from refresh_good [OF assms this e]
  show "gui_sane \<alpha> wh (k_refresh (gui_services bus mm) h) \<and> gui_owned (k_refresh (gui_services bus mm) h) = gui_owned h"
    using s e by (simp add: gui_sane_def gui_owned_def h gui_services_def)
qed

interpretation drive_editor: editor_heap "gui_services drive_bus mm" gui_owned "gui_sane id wh" max_request for mm wh
  by (rule gui_services_heap [OF drive_bus_drives])

end
