(* ===== verification/Gui_History.thy ===== *)
theory Gui_History
  imports Gui_Safe
begin

text \<open>
  Every history of the desktop. A state is safe when the windows, the desktop and the volume satisfy
  their invariants, every editor window has its editor, and the blocks of the heap are exactly those of
  the rest of the kernel and, each once, the wallpaper and those of the open editors. Every event keeps it.
\<close>

subsection \<open>The structure of an editor never moves\<close>

lemma before_edit_ptr: "ed_ptr (fst (ed_before_edit k now kind e h)) = ed_ptr e"
  using ed_before_edit_fields(9) [OF surjective_pairing] .

lemma grow_ptr: "ed_grow k e h = (ok, e1, h1) \<Longrightarrow> ed_ptr e1 = ed_ptr e"
  by (auto simp: ed_grow_def Let_def split: if_splits prod.splits)

lemma insert_ptr: "ed_ptr (fst (ed_insert k now c e h)) = ed_ptr e"
proof -
  obtain e1 h1 where b: "ed_before_edit k now 1 e h = (e1, h1)" by (rule prod.exhaust)
  obtain ok e2 h2 where g: "ed_grow k e1 h1 = (ok, e2, h2)" by (cases "ed_grow k e1 h1") auto
  have "ed_ptr e2 = ed_ptr e" using grow_ptr [OF g] ed_before_edit_fields(9) [OF b] by simp
  then show ?thesis using b g by (simp add: ed_insert_def Let_def)
qed

lemma delete_ptr: "ed_ptr (fst (ed_delete_at k now pos e h)) = ed_ptr e"
proof -
  obtain e1 h1 where b: "ed_before_edit k now 2 e h = (e1, h1)" by (rule prod.exhaust)
  then show ?thesis using ed_before_edit_fields(9) [OF b] by (simp add: ed_delete_at_def)
qed

lemma restore_ptr: "ed_ptr (fst (ed_restore k e s h)) = ed_ptr e"
  by (simp add: ed_restore_def)

lemma undo_redo_ptr: "ed_ptr (fst (ed_undo k e h)) = ed_ptr e" "ed_ptr (fst (ed_redo k e h)) = ed_ptr e"
  by (simp_all add: ed_undo_def ed_redo_def restore_ptr split: prod.splits)

lemma tab_ptr: "ed_ptr (fst (ed_tab k now e h)) = ed_ptr e"
proof -
  have "ed_ptr (fst (fold (\<lambda>i (e, h). ed_insert k (now i) 32 e h) is eh)) = ed_ptr (fst eh)" for "is" eh
    by (induction "is" arbitrary: eh) (auto simp: insert_ptr)
  then show ?thesis by (simp add: ed_tab_def)
qed

lemma save_ptr: "ed_ptr (fst (editor_save k e h)) = ed_ptr e"
  by (simp add: editor_save_def split: prod.splits)

lemma moved_ptr: "moved e e' \<Longrightarrow> ed_ptr e' = ed_ptr e"
proof -
  assume "moved e e'"
  then have "ed_ptr (unplaced e') = ed_ptr (unplaced e)" by (simp add: moved_def)
  then show ?thesis by (simp add: unplaced_def)
qed

lemma ed_key_ptr: "ed_ptr (fst (ed_key k now ch e h)) = ed_ptr e"
  by (simp add: ed_key_def insert_ptr delete_ptr undo_redo_ptr tab_ptr save_ptr moved_ptr [OF moved_vertical]
      moved_ptr [OF moved_home] moved_ptr [OF moved_end])

lemma editor_key_ptr: "ed_ptr (fst (editor_key k now w ch e h)) = ed_ptr e"
proof -
  obtain tx ty rows cols where "ed_metrics w = (tx, ty, rows, cols)" by (cases "ed_metrics w") auto
  moreover obtain e1 h1 where e1: "ed_key k now ch e h = (e1, h1)" by (rule prod.exhaust)
  moreover have "ed_ptr e1 = ed_ptr e" using ed_key_ptr [of k now ch e h] e1 by simp
  ultimately show ?thesis by (simp add: editor_key_def moved_ptr [OF moved_scroll_into_view])
qed

subsection \<open>Safe states\<close>

definition is_ed :: "window \<Rightarrow> bool" where
  "is_ed w \<longleftrightarrow> window.used w \<and> key w = Some Editor"

definition ed_windows :: "wm \<Rightarrow> nat list" where
  "ed_windows s = filter (\<lambda>i. is_ed (wins s i)) [0..<MAX_WINDOWS]"

text \<open>The wallpaper and the editors, as a list of their blocks.\<close>

definition ptrs_of :: "wm \<Rightarrow> (u32 \<Rightarrow> editor) \<Rightarrow> nat list \<Rightarrow> u32 list" where
  "ptrs_of s e is = concat (map (\<lambda>i. ed_ptrs (e (user (wins s i)))) is)"

definition all_ptrs :: "wm \<Rightarrow> (u32 \<Rightarrow> editor) \<Rightarrow> u32 \<Rightarrow> u32 list" where
  "all_ptrs s e bg = ptrs_of s e (ed_windows s) @ (if bg = 0 then [] else [bg])"

text \<open>The function pointers of a window in use.\<close>

definition roles_ok :: "window \<Rightarrow> bool" where
  "roles_ok w \<longleftrightarrow> (window.used w \<longrightarrow>
     (key w = None \<or> key w = Some Editor) \<and> on_close w = key w \<and> (click w = Some Editor \<longrightarrow> key w = Some Editor) \<and>
     (draw w = Some Editor \<longrightarrow> key w = Some Editor))"

definition safe :: "('d \<Rightarrow> drive) \<Rightarrow> int \<times> int \<Rightarrow> u32 set \<Rightarrow> wm \<Rightarrow> desk \<Rightarrow> 'd fsys \<Rightarrow> (u32 \<Rightarrow> editor) \<Rightarrow> u32 \<Rightarrow> bool" where
  "safe \<alpha> wh R s d st e bg \<longleftrightarrow>
     wm_ok s \<and> (\<forall>i < MAX_WINDOWS. roles_ok (wins s i)) \<and>
     owns gui_owned (gui_sane \<alpha> wh) R (all_ptrs s e bg) (d, st) \<and>
     (\<forall>i \<in> set (ed_windows s). ed_ptr (e (user (wins s i))) = user (wins s i) \<and> ed_ok max_request (e (user (wins s i))))"

definition gui_safe :: "('d \<Rightarrow> drive) \<Rightarrow> int \<times> int \<Rightarrow> u32 set \<Rightarrow> 'd gui \<Rightarrow> bool" where
  "gui_safe \<alpha> wh R g \<longleftrightarrow> safe \<alpha> wh R (gwm g) (gdesk g) (gfs g) (eds g) (bg_layer g)"

lemma owns_split:
  "owns owned sane R (ps @ qs) h \<longleftrightarrow> owns owned sane (R \<union> set qs) ps h \<and> distinct qs \<and> set qs \<inter> R = {}"
  by (auto simp: owns_def)

lemma distinct_ed_windows: "distinct (ed_windows s)"
  by (simp add: ed_windows_def)

lemma mset_concat_pick:
  "distinct xs \<Longrightarrow> i \<in> set xs \<Longrightarrow>
     mset (concat (map f xs)) = mset (f i) + mset (concat (map f (filter (\<lambda>j. j \<noteq> i) xs)))"
proof (induction xs)
  case (Cons x xs)
  show ?case
  proof (cases "x = i")
    case True
    then have "filter (\<lambda>j. j \<noteq> i) xs = xs" using Cons.prems by (intro filter_True) auto
    then show ?thesis using True by simp
  next
    case False
    then show ?thesis using Cons by simp
  qed
qed simp

definition others :: "wm \<Rightarrow> (u32 \<Rightarrow> editor) \<Rightarrow> u32 \<Rightarrow> nat \<Rightarrow> u32 list" where
  "others s e bg i = ptrs_of s e (filter (\<lambda>j. j \<noteq> i) (ed_windows s)) @ (if bg = 0 then [] else [bg])"

lemma all_ptrs_pick:
  assumes "i \<in> set (ed_windows s)"
  shows "mset (all_ptrs s e bg) = mset (ed_ptrs (e (user (wins s i))) @ others s e bg i)"
  using mset_concat_pick [OF distinct_ed_windows assms, of "\<lambda>i. ed_ptrs (e (user (wins s i)))"]
  by (simp add: all_ptrs_def others_def ptrs_of_def)

text \<open>One editor, and all the other blocks as the rest.\<close>

lemma owns_pick:
  assumes "i \<in> set (ed_windows s)"
  shows "owns owned sane R (all_ptrs s e bg) h \<longleftrightarrow>
    owns owned sane (R \<union> set (others s e bg i)) (ed_ptrs (e (user (wins s i)))) h \<and>
    distinct (others s e bg i) \<and> set (others s e bg i) \<inter> R = {}"
  using owns_perm [OF all_ptrs_pick [OF assms], of owned sane R e bg h] by (simp add: owns_split)

lemma user_distinct:
  assumes "owns owned sane R (all_ptrs s e bg) h" "i \<in> set (ed_windows s)" "j \<in> set (ed_windows s)" "i \<noteq> j"
    and "ed_ptr (e (user (wins s i))) = user (wins s i)" "ed_ptr (e (user (wins s j))) = user (wins s j)"
  shows "user (wins s i) \<noteq> user (wins s j)"
proof -
  have "user (wins s j) \<in> set (others s e bg i)"
    using assms(3,4,6) by (auto simp: others_def ptrs_of_def ed_ptrs_def)
  moreover have "user (wins s i) \<in> set (ed_ptrs (e (user (wins s i))))" using assms(5) by (simp add: ed_ptrs_def)
  moreover have "set (ed_ptrs (e (user (wins s i)))) \<inter> set (others s e bg i) = {}"
    using assms(1) unfolding owns_pick [OF assms(2)] by (auto simp: owns_def)
  ultimately show ?thesis by auto
qed

subsection \<open>Windows come and go\<close>

text \<open>A change of the windows that leaves the editors alone.\<close>

definition same_eds :: "wm \<Rightarrow> wm \<Rightarrow> bool" where
  "same_eds s s' \<longleftrightarrow> (\<forall>i < MAX_WINDOWS.
     is_ed (wins s' i) = is_ed (wins s i) \<and> (is_ed (wins s i) \<longrightarrow> user (wins s' i) = user (wins s i)) \<and>
     (roles_ok (wins s i) \<longrightarrow> roles_ok (wins s' i)))"

lemma same_eds_refl: "same_eds s s"
  by (simp add: same_eds_def)

lemma same_eds_trans: "same_eds s s1 \<Longrightarrow> same_eds s1 s2 \<Longrightarrow> same_eds s s2"
  by (simp add: same_eds_def)

lemma same_eds_wins: "wins s' = wins s \<Longrightarrow> same_eds s s'"
  by (simp add: same_eds_def)

lemma same_eds_windows: "same_eds s s' \<Longrightarrow> ed_windows s' = ed_windows s"
  by (auto simp: same_eds_def ed_windows_def intro!: filter_cong)

lemma ed_windowsD: "i \<in> set (ed_windows s) \<Longrightarrow> i < MAX_WINDOWS \<and> is_ed (wins s i)"
  by (simp add: ed_windows_def)

lemma same_eds_user: "same_eds s s' \<Longrightarrow> i \<in> set (ed_windows s) \<Longrightarrow> user (wins s' i) = user (wins s i)"
  using ed_windowsD by (fastforce simp: same_eds_def)

lemma safe_windows:
  assumes "safe \<alpha> wh R s d st e bg" "wm_ok s'" "same_eds s s'"
  shows "safe \<alpha> wh R s' d st e bg"
proof -
  note w = same_eds_windows [OF assms(3)] and u = same_eds_user [OF assms(3)]
  have "map (\<lambda>i. ed_ptrs (e (user (wins s' i)))) (ed_windows s) = map (\<lambda>i. ed_ptrs (e (user (wins s i)))) (ed_windows s)"
    using u by (intro map_cong) simp_all
  then have "all_ptrs s' e bg = all_ptrs s e bg" unfolding all_ptrs_def ptrs_of_def w by (rule arg_cong)
  then show ?thesis using assms u by (simp add: safe_def w same_eds_def)
qed

lemma same_eds_set:
  assumes "\<And>j. j \<noteq> i \<Longrightarrow> wins s' j = wins s j"
    and "is_ed (wins s' i) = is_ed (wins s i)" "is_ed (wins s i) \<Longrightarrow> user (wins s' i) = user (wins s i)"
    and "roles_ok (wins s i) \<Longrightarrow> roles_ok (wins s' i)"
  shows "same_eds s s'"
proof -
  have "is_ed (wins s' j) = is_ed (wins s j) \<and> (is_ed (wins s j) \<longrightarrow> user (wins s' j) = user (wins s j)) \<and>
      (roles_ok (wins s j) \<longrightarrow> roles_ok (wins s' j))" for j
    using assms by (cases "j = i") simp_all
  then show ?thesis by (simp add: same_eds_def)
qed

lemma raise_eds: "same_eds s (raise_window i s)"
  by (rule same_eds_wins) (simp add: raise_window_def)

lemma focus_eds: "same_eds s (focus_topmost_visible s)"
  by (rule same_eds_wins) (simp add: focus_topmost_visible_def)

lemma show_eds: "same_eds s (show_and_raise i s)"
  unfolding show_and_raise_def
  by (rule same_eds_trans [OF same_eds_set [where i = i] raise_eds]) (simp_all add: is_ed_def roles_ok_def)

lemma minimize_eds: "same_eds s (minimize_window i s)"
proof -
  have *: "same_eds s (s\<lparr>wins := (wins s)(i := (wins s i)\<lparr>visible := False\<rparr>)\<rparr>)"
    by (rule same_eds_set [where i = i]) (simp_all add: is_ed_def roles_ok_def)
  then show ?thesis using same_eds_trans [OF * focus_eds] by (simp add: minimize_window_def Let_def)
qed

lemma drag_eds: "same_eds s (s\<lparr>wins := (wins s)(i := drag_window sw sh nx ny (wins s i))\<rparr>)"
  by (rule same_eds_set [where i = i]) (simp_all add: is_ed_def roles_ok_def drag_window_def Let_def)

lemma add_window_cases:
  "(\<exists>i. i < MAX_WINDOWS \<and> \<not> window.used (wins s i) \<and>
     add_window x y w h ttl drw s = (Some i, s\<lparr>wins := (wins s)(i := zero_window\<lparr>win_x := x, win_y := y, win_w := w,
        win_h := h, title := take TITLE_MAX ttl, draw := drw, visible := True, used := True\<rparr>),
        zorder := zorder s @ [i], focused := Some i\<rparr>)) \<or>
   add_window x y w h ttl drw s = (None, s)"
proof (cases "free_slot (wins s) [0..<MAX_WINDOWS]")
  case (Some i)
  then show ?thesis using free_slot_SomeD [OF Some] by (auto simp: add_window_def)
qed (simp add: add_window_def)

lemma add_window_eds:
  assumes "drw \<noteq> Some Editor"
  shows "same_eds s (snd (add_window x y w h ttl drw s))"
  using add_window_cases [of s x y w h ttl drw]
proof (elim disjE exE conjE)
  fix i assume "\<not> window.used (wins s i)" "add_window x y w h ttl drw s = (Some i, s\<lparr>wins := (wins s)(i := zero_window\<lparr>win_x := x,
     win_y := y, win_w := w, win_h := h, title := take TITLE_MAX ttl, draw := drw, visible := True, used := True\<rparr>),
     zorder := zorder s @ [i], focused := Some i\<rparr>)"
  then show ?thesis
    using assms by (intro same_eds_set [where i = i]) (simp_all add: is_ed_def roles_ok_def zero_window_def)
qed (simp add: same_eds_refl)

lemma open_app_eds:
  assumes "drw \<noteq> Editor"
  shows "same_eds s (open_app ttl drw x y w h s)"
proof -
  obtain r s1 where a: "add_window x y w h ttl (Some drw) s = (r, s1)" by (rule prod.exhaust)
  have "same_eds s s1" using add_window_eds [of "Some drw" s x y w h ttl] a assms by simp
  then show ?thesis
    using same_eds_trans [OF _ show_eds] a by (auto simp: open_app_def show_eds split: option.splits)
qed

lemma find_slot:
  assumes "wm_ok s" "(case find_window ttl s of Some i \<Rightarrow> (Some i, s) | None \<Rightarrow> add_window x y w h ttl drw s) = (r, s1)"
    and "drw \<noteq> Some Editor"
  shows "wm_ok s1 \<and> same_eds s s1 \<and> (\<forall>i. r = Some i \<longrightarrow> i < MAX_WINDOWS \<and> window.used (wins s1 i))"
proof (cases "find_window ttl s")
  case None
  then have a: "add_window x y w h ttl drw s = (r, s1)" using assms(2) by simp
  show ?thesis
    using add_window_ok [OF assms(1), of x y w h ttl drw] add_window_eds [OF assms(3), of s x y w h ttl]
      add_window_SomeD [of x y w h ttl drw s _ s1] a by auto
next
  case (Some i)
  then have e: "r = Some i" "s1 = s" using assms(2) by simp_all
  show ?thesis using assms(1) find_window_SomeD [OF Some] same_eds_refl by (simp add: e)
qed

lemma open_trash_ok:
  assumes "wm_ok s"
  shows "wm_ok (open_trash_window s) \<and> same_eds s (open_trash_window s)"
proof -
  obtain r s1 where f: "(case find_window TRASH_TITLE s of Some i \<Rightarrow> (Some i, s)
       | None \<Rightarrow> add_window 340 220 360 230 TRASH_TITLE (Some Trash_Win) s) = (r, s1)" by (rule prod.exhaust)
  note s1 = find_slot [OF assms f, simplified]
  have u: "open_trash_window s = (case r of None \<Rightarrow> s1
      | Some i \<Rightarrow> show_and_raise i (s1\<lparr>wins := (wins s1)(i := (wins s1 i)\<lparr>click := Some Trash_Win\<rparr>)\<rparr>))"
    unfolding open_trash_window_def f Let_def case_prod_conv ..
  show ?thesis
  proof (cases r)
    case None
    then show ?thesis using s1 u by simp
  next
    case (Some i)
    let ?s = "s1\<lparr>wins := (wins s1)(i := (wins s1 i)\<lparr>click := Some Trash_Win\<rparr>)\<rparr>"
    have e: "open_trash_window s = show_and_raise i ?s" using u Some by simp
    have "same_eds s1 ?s" by (rule same_eds_set [where i = i]) (simp_all add: is_ed_def roles_ok_def)
    then have "same_eds s (show_and_raise i ?s)"
      using same_eds_trans [OF same_eds_trans [OF conjunct1 [OF conjunct2 [OF s1]]] show_eds] by simp
    moreover have "topmost (wins ?s) zs = topmost (wins s1) zs" for zs by (rule topmost_cong) simp
    then have "wm_ok ?s" using s1 by (auto simp: wm_ok_def)
    then have "wm_ok (show_and_raise i ?s)" using s1 Some by (intro show_and_raise_ok) simp_all
    ultimately show ?thesis by (simp add: e)
  qed
qed

subsection \<open>Files change and editors work\<close>

lemma safeD:
  assumes "safe \<alpha> wh R s d st e bg"
  shows "wm_ok s" "desk_ok wh d" "fs_good \<alpha> st" "heap_sane (fs_heap st)" "\<And>i. i < MAX_WINDOWS \<Longrightarrow> roles_ok (wins s i)"
    "owns gui_owned (gui_sane \<alpha> wh) R (all_ptrs s e bg) (d, st)"
    "\<And>i. i \<in> set (ed_windows s) \<Longrightarrow> ed_ptr (e (user (wins s i))) = user (wins s i) \<and> ed_ok max_request (e (user (wins s i)))"
  using assms by (auto simp: safe_def owns_def gui_sane_def)

lemma safe_files:
  assumes "safe \<alpha> wh R s d st e bg" "desk_ok wh d'" "fs_good \<alpha> st'" "fs_heap st' = fs_heap st"
  shows "safe \<alpha> wh R s d' st' e bg"
  using assms by (auto simp: safe_def owns_def gui_sane_def gui_owned_def)

lemma safe_editor:
  assumes "safe \<alpha> wh R s d st e bg" "i \<in> set (ed_windows s)" "u = user (wins s i)" "ed_ptr e' = ed_ptr (e u)"
    and step: "\<And>R'. ed_holds gui_owned (gui_sane \<alpha> wh) max_request R' (e u) (d, st) \<Longrightarrow>
      ed_holds gui_owned (gui_sane \<alpha> wh) max_request R' e' (d', st')"
  shows "safe \<alpha> wh R s d' st' (e(u := e')) bg"
proof -
  note sd = safeD [OF assms(1)]
  let ?O = "others s e bg i"
  have o: "owns gui_owned (gui_sane \<alpha> wh) (R \<union> set ?O) (ed_ptrs (e u)) (d, st)" "distinct ?O" "set ?O \<inter> R = {}"
    using sd(6) unfolding owns_pick [OF assms(2)] assms(3) by simp_all
  then have "ed_holds gui_owned (gui_sane \<alpha> wh) max_request (R \<union> set ?O) (e u) (d, st)"
    using sd(7) [OF assms(2)] assms(3) by (simp add: ed_holds_def)
  from step [OF this] have n: "ed_ok max_request e'" "owns gui_owned (gui_sane \<alpha> wh) (R \<union> set ?O) (ed_ptrs e') (d', st')"
    by (simp_all add: ed_holds_def)
  have ne: "user (wins s j) \<noteq> u" if "j \<in> set (ed_windows s)" "j \<noteq> i" for j
    using user_distinct [OF sd(6) that(1) assms(2) that(2)] sd(7) that(1) assms(2,3) by simp
  have "map (\<lambda>j. ed_ptrs ((e(u := e')) (user (wins s j)))) (filter (\<lambda>j. j \<noteq> i) (ed_windows s)) =
      map (\<lambda>j. ed_ptrs (e (user (wins s j)))) (filter (\<lambda>j. j \<noteq> i) (ed_windows s))"
    using ne by (intro map_cong) auto
  then have "others s (e(u := e')) bg i = ?O" by (simp only: others_def ptrs_of_def)
  then have "owns gui_owned (gui_sane \<alpha> wh) R (all_ptrs s (e(u := e')) bg) (d', st')"
    using n(2) o(2,3) unfolding owns_pick [OF assms(2)] assms(3) [symmetric] by simp
  moreover have "ed_ptr ((e(u := e')) (user (wins s j))) = user (wins s j) \<and> ed_ok max_request ((e(u := e')) (user (wins s j)))"
    if "j \<in> set (ed_windows s)" for j
    using sd(7) [OF that] sd(7) [OF assms(2)] n(1) assms(3,4) by simp
  ultimately show ?thesis using sd(1,5) by (simp add: safe_def)
qed

lemma safe_key:
  assumes "drives bus \<alpha>" "gui_safe \<alpha> wh R g" "i < MAX_WINDOWS" "is_ed (wins (gwm g) i)"
  shows "gui_safe \<alpha> wh R (editor_key_to bus mm now i ch g)"
proof -
  let ?w = "wins (gwm g) i"
  obtain e' d' st' where k: "editor_key (gui_services bus mm) now ?w ch (eds g (user ?w)) (gdesk g, gfs g) = (e', (d', st'))"
    by (metis prod.exhaust)
  have i: "i \<in> set (ed_windows (gwm g))" using assms(3,4) by (simp add: ed_windows_def)
  have "ed_ptr e' = ed_ptr (eds g (user ?w))"
    using editor_key_ptr [of "gui_services bus mm" now ?w ch "eds g (user ?w)" "(gdesk g, gfs g)"] k by simp
  then have "safe \<alpha> wh R (gwm g) d' st' ((eds g)(user ?w := e')) (bg_layer g)"
    using safe_editor [OF assms(2) [unfolded gui_safe_def] i refl]
      editor_heap.editor_key_holds [OF gui_services_heap [OF assms(1)] _ k] by blast
  then show ?thesis using k by (simp add: gui_safe_def editor_key_to_def)
qed

lemma safe_click:
  assumes "drives bus \<alpha>" "gui_safe \<alpha> wh R g" "i < MAX_WINDOWS" "is_ed (wins (gwm g) i)"
  shows "gui_safe \<alpha> wh R (editor_click_to i mx my g)"
proof -
  let ?w = "wins (gwm g) i"
  have i: "i \<in> set (ed_windows (gwm g))" using assms(3,4) by (simp add: ed_windows_def)
  have "safe \<alpha> wh R (gwm g) (gdesk g) (gfs g) ((eds g)(user ?w := editor_click ?w mx my (eds g (user ?w)))) (bg_layer g)"
    using safe_editor [OF assms(2) [unfolded gui_safe_def] i refl moved_ptr [OF moved_click]]
      editor_heap.click_holds [OF gui_services_heap [OF assms(1)]] by blast
  then show ?thesis by (simp add: gui_safe_def editor_click_to_def Let_def)
qed

text \<open>Closing a window gives back the blocks of its editor.\<close>

lemma clear_stack_fst: "fst (ed_clear_stack (gui_services bus mm) st k) = fst k"
  by (induction st arbitrary: k) (auto simp: ed_clear_stack_def gui_services_def)

lemma editor_close_fst: "fst (editor_close (gui_services bus mm) e k) = fst k"
proof -
  have "fst (k_free (gui_services bus mm) p k) = fst k" for p k by (cases k) (simp add: gui_services_def)
  then show ?thesis by (simp add: editor_close_def clear_stack_fst)
qed

lemma close_wins: "wins (close_window f i s) = (wins s)(i := (if on_close (wins s i) \<noteq> None then f (wins s i) else wins s i)\<lparr>used := False, visible := False\<rparr>)"
  by (simp add: close_window_def focus_topmost_visible_def Let_def)

lemma close_other:
  assumes "\<not> is_ed (wins s i)"
  shows "same_eds s (close_window f i s)"
  by (rule same_eds_set [where i = i]) (use assms in \<open>simp_all add: close_wins is_ed_def roles_ok_def\<close>)

lemma ed_windows_close:
  "ed_windows (close_window f i s) = filter (\<lambda>j. j \<noteq> i) (ed_windows s)"
  unfolding ed_windows_def filter_filter by (intro filter_cong) (auto simp: close_wins is_ed_def)

lemma safe_close_editor:
  assumes "drives bus \<alpha>" "safe \<alpha> wh R s d st e bg" "i \<in> set (ed_windows s)"
    and "editor_close (gui_services bus mm) (e (user (wins s i))) (d, st) = (d', st')"
  shows "safe \<alpha> wh R (close_window f i s) d st' e bg"
proof -
  note sd = safeD [OF assms(2)]
  let ?O = "others s e bg i" and ?s = "close_window f i s"
  have o: "owns gui_owned (gui_sane \<alpha> wh) (R \<union> set ?O) (ed_ptrs (e (user (wins s i)))) (d, st)" "distinct ?O" "set ?O \<inter> R = {}"
    using sd(6) unfolding owns_pick [OF assms(3)] by simp_all
  then have "ed_holds gui_owned (gui_sane \<alpha> wh) max_request (R \<union> set ?O) (e (user (wins s i))) (d, st)"
    using sd(7) [OF assms(3)] by (simp add: ed_holds_def)
  from editor_heap.close_owns [OF gui_services_heap [OF assms(1), of mm] this]
  have n: "owns gui_owned (gui_sane \<alpha> wh) (R \<union> set ?O) [] (d, st')"
    using assms(4) editor_close_fst [of bus mm "e (user (wins s i))" "(d, st)"] by simp
  have w: "ed_windows ?s = filter (\<lambda>j. j \<noteq> i) (ed_windows s)" by (rule ed_windows_close)
  have u: "wins ?s j = wins s j" if "j \<in> set (ed_windows ?s)" for j using that by (auto simp: w close_wins)
  have "map (\<lambda>j. ed_ptrs (e (user (wins ?s j)))) (ed_windows ?s) = map (\<lambda>j. ed_ptrs (e (user (wins s j)))) (ed_windows ?s)"
    using u by (intro map_cong) auto
  then have "all_ptrs ?s e bg = ?O" by (simp only: all_ptrs_def others_def ptrs_of_def w)
  moreover have "owns gui_owned (gui_sane \<alpha> wh) R ([] @ ?O) (d, st')"
    unfolding owns_split using n o(2,3) by simp
  ultimately have "owns gui_owned (gui_sane \<alpha> wh) R (all_ptrs ?s e bg) (d, st')" by simp
  moreover have "roles_ok (wins ?s j)" if "j < MAX_WINDOWS" for j
    using sd(5) [OF that] by (simp add: close_wins roles_ok_def)
  moreover have "ed_ptr (e (user (wins ?s j))) = user (wins ?s j) \<and> ed_ok max_request (e (user (wins ?s j)))"
    if "j \<in> set (ed_windows ?s)" for j
    using sd(7) [of j] u [OF that] that by (simp add: w)
  ultimately show ?thesis using close_window_ok [OF sd(1)] by (simp add: safe_def)
qed

lemma safe_close:
  assumes "drives bus \<alpha>" "gui_safe \<alpha> wh R g" "i < MAX_WINDOWS" "window.used (wins (gwm g) i)"
  shows "gui_safe \<alpha> wh R (gui_close bus mm i g)"
proof -
  let ?w = "wins (gwm g) i" and ?f = "\<lambda>w. w\<lparr>user := 0\<rparr>"
  note sd = safeD [OF assms(2) [unfolded gui_safe_def]]
  have r: "on_close ?w = key ?w" "key ?w = None \<or> key ?w = Some Editor"
    using sd(5) [OF assms(3)] assms(4) by (simp_all add: roles_ok_def)
  show ?thesis
  proof (cases "is_ed ?w")
    case False
    then have c: "on_close ?w = None" using r assms(4) by (auto simp: is_ed_def)
    have "safe \<alpha> wh R (close_window ?f i (gwm g)) (gdesk g) (gfs g) (eds g) (bg_layer g)"
      by (rule safe_windows [OF assms(2) [unfolded gui_safe_def] close_window_ok [OF sd(1)] close_other [OF False]])
    then show ?thesis using c by (simp add: gui_safe_def gui_close_def Let_def)
  next
    case True
    then have c: "on_close ?w = Some Editor" using r by (simp add: is_ed_def)
    have i: "i \<in> set (ed_windows (gwm g))" using True assms(3) by (simp add: ed_windows_def)
    obtain d' st' where k: "editor_close (gui_services bus mm) (eds g (user ?w)) (gdesk g, gfs g) = (d', st')" by (rule prod.exhaust)
    have "user ?w \<in> gui_owned (gdesk g, gfs g)"
      using sd(6) sd(7) [OF i] unfolding owns_pick [OF i] by (auto simp: owns_def ed_ptrs_def)
    then have "user ?w \<noteq> 0" using kheap.owned_nonzero [OF sd(4)] by (auto simp: gui_owned_def)
    then have "gui_close bus mm i g = g\<lparr>gfs := st', gwm := close_window ?f i (gwm g)\<rparr>"
      using c k by (simp add: gui_close_def Let_def)
    moreover have "safe \<alpha> wh R (close_window ?f i (gwm g)) (gdesk g) st' (eds g) (bg_layer g)"
      by (rule safe_close_editor [OF assms(1) assms(2) [unfolded gui_safe_def] i k])
    ultimately show ?thesis by (simp add: gui_safe_def)
  qed
qed

subsection \<open>Opening an editor\<close>

lemma safe_heap:
  assumes "safe \<alpha> wh R s d st e bg" "heap_alloc n (fs_heap st) = (p, h)" "unat n \<le> max_request"
  shows "if p = 0 then safe \<alpha> wh R s d (st\<lparr>fs_heap := h\<rparr>) e bg
    else heap_sane h \<and> owns gui_owned (gui_sane \<alpha> wh) R (p # all_ptrs s e bg) (d, st\<lparr>fs_heap := h\<rparr>)"
  using assms(1) kheap.alloc_ok [OF safeD(4) [OF assms(1)] assms(3,2)]
  by (auto simp: safe_def owns_def gui_sane_def gui_owned_def)

lemma owns_heap:
  assumes "owns gui_owned (gui_sane \<alpha> wh) R ps (d, st)" "heap_alloc n (fs_heap st) = (p, h)" "unat n \<le> max_request"
  shows "if p = 0 then owns gui_owned (gui_sane \<alpha> wh) R ps (d, st\<lparr>fs_heap := h\<rparr>)
    else owns gui_owned (gui_sane \<alpha> wh) R (p # ps) (d, st\<lparr>fs_heap := h\<rparr>)"
  using assms(1) kheap.alloc_ok [OF _ assms(3,2)]
  by (auto simp: owns_def gui_sane_def gui_owned_def)

lemma owns_release_heap:
  assumes "owns gui_owned (gui_sane \<alpha> wh) R (p # ps) (d, st)"
  shows "owns gui_owned (gui_sane \<alpha> wh) R ps (d, st\<lparr>fs_heap := heap_release p (fs_heap st)\<rparr>)"
  using assms kheap.release_ok [of "fs_heap st" p]
  by (auto simp: owns_def gui_sane_def gui_owned_def)

lemma owns_files:
  assumes "owns gui_owned (gui_sane \<alpha> wh) R ps (d, st)" "fs_good \<alpha> st'" "fs_heap st' = fs_heap st"
  shows "owns gui_owned (gui_sane \<alpha> wh) R ps (d, st')"
  using assms by (auto simp: owns_def gui_sane_def gui_owned_def)

lemma owns_good: "owns gui_owned (gui_sane \<alpha> wh) R ps (d, st) \<Longrightarrow> fs_good \<alpha> st"
  by (simp add: owns_def gui_sane_def)

text \<open>The buffer of a file that is opened.\<close>

lemma load_buffer_owns:
  assumes "drives bus \<alpha>" "owns gui_owned (gui_sane \<alpha> wh) R ps (d, st)" "0 \<notin> set name"
    and "load_buffer bus mm name st = ((bp, buf, len, cap), st')"
  shows "if bp = 0 then owns gui_owned (gui_sane \<alpha> wh) R ps (d, st')
    else owns gui_owned (gui_sane \<alpha> wh) R (bp # ps) (d, st') \<and> 0 \<le> len \<and> len \<le> cap \<and> cap \<le> int max_request \<and> length buf = nat cap"
proof -
  obtain sz none st1 where r: "fs_read (disk_rd bus) name 0 st = ((sz, none), st1)" by (metis prod.exhaust)
  note g1 = disk_read_good [OF assms(1) owns_good [OF assms(2)] assms(3) r]
  define c where "c = (if sz > 0 then sz + 64 else 256)"
  obtain p h where a: "heap_alloc (of_int c) (fs_heap st1) = (p, h)" by (rule prod.exhaust)
  have cap: "0 \<le> c" "c \<le> int max_request" "sz \<le> c" using g1 by (auto simp: c_def MAX_FILE_def max_request_def)
  define st2 where "st2 = st1\<lparr>fs_heap := h\<rparr>"
  define stale where "stale = map (\<lambda>i. mm (p + of_nat i)) [0..<nat c]"
  have o1: "owns gui_owned (gui_sane \<alpha> wh) R ps (d, st1)" using owns_files [OF assms(2)] g1 by simp
  have o2: "if p = 0 then owns gui_owned (gui_sane \<alpha> wh) R ps (d, st2) else owns gui_owned (gui_sane \<alpha> wh) R (p # ps) (d, st2)"
    unfolding st2_def by (rule owns_heap [OF o1 a unat_of_int_le [OF cap(1,2)]])
  have u: "load_buffer bus mm name st = (if p = 0 then ((0, [], 0, c), st2)
         else if sz > 0 then let ((r, out), st3) = fs_read (disk_rd bus) name (of_int sz) st2
              in ((p, out @ drop (length out) stale, sz, c), st3)
         else ((p, stale, 0, c), st2))"
    unfolding load_buffer_def r Let_def case_prod_conv c_def [symmetric] a st2_def [symmetric] stale_def [symmetric] ..
  consider "p = 0" | "p \<noteq> 0" "sz \<le> 0" | "p \<noteq> 0" "0 < sz" by linarith
  then show ?thesis
  proof cases
    case 1
    then show ?thesis using u assms(4) o2 by simp
  next
    case 2
    then show ?thesis using u assms(4) o2 cap by (auto simp: stale_def)
  next
    case 3
    obtain q out st3 where r3: "fs_read (disk_rd bus) name (of_int sz) st2 = ((q, out), st3)" by (metis prod.exhaust)
    have o2': "owns gui_owned (gui_sane \<alpha> wh) R (p # ps) (d, st2)" using o2 3 by simp
    note g3 = disk_read_good [OF assms(1) owns_good [OF o2'] assms(3) r3]
    have "sz \<le> int (nat sz)" by simp
    then have "unat (of_int sz :: u32) \<le> nat sz" using 3 by (intro unat_of_int_le) simp_all
    then have "length out \<le> nat c" using g3 cap by linarith
    then have "length (out @ drop (length out) stale) = nat c" by (simp add: stale_def)
    moreover have "owns gui_owned (gui_sane \<alpha> wh) R (p # ps) (d, st3)" using owns_files [OF o2'] g3 by simp
    ultimately show ?thesis using 3 u r3 assms(4) cap by auto
  qed
qed

lemma safe_new_editor:
  assumes "safe \<alpha> wh R s d0 st0 e bg" "owns gui_owned (gui_sane \<alpha> wh) R (bp # p # all_ptrs s e bg) (d, st)"
    and i: "i < MAX_WINDOWS" "\<not> window.used (wins s i)" and s1: "wm_ok s1" "wins s1 = (wins s)(i := w)"
    and "is_ed w" "roles_ok w" "user w = p"
    and n: "ed_ptr n = p" "ed_bufp n = bp" "undo_st n = []" "redo_st n = []" "ed_ok max_request n"
  shows "safe \<alpha> wh R s1 d st (e(p := n)) bg"
proof -
  note sd = safeD [OF assms(1)]
  have iw: "i \<in> set (ed_windows s1)" using i assms(7) by (simp add: ed_windows_def s1)
  have rest: "filter (\<lambda>j. j \<noteq> i) (ed_windows s1) = ed_windows s"
    unfolding ed_windows_def filter_filter using i(2) by (intro filter_cong) (auto simp: s1 is_ed_def)
  have ne: "j \<noteq> i" "user (wins s j) \<noteq> p" if "j \<in> set (ed_windows s)" for j
  proof -
    show "j \<noteq> i" using that i(2) by (auto simp: ed_windows_def is_ed_def)
    have "user (wins s j) \<in> set (all_ptrs s e bg)"
      using that sd(7) [OF that] by (force simp: all_ptrs_def ptrs_of_def ed_ptrs_def)
    then show "user (wins s j) \<noteq> p" using assms(2) by (auto simp: owns_def)
  qed
  have "map (\<lambda>j. ed_ptrs ((e(p := n)) (user (wins s1 j)))) (ed_windows s) = map (\<lambda>j. ed_ptrs (e (user (wins s j)))) (ed_windows s)"
    using ne by (intro map_cong) (auto simp: s1)
  then have "others s1 (e(p := n)) bg i = all_ptrs s e bg" by (simp only: others_def ptrs_of_def rest all_ptrs_def)
  moreover have "ed_ptrs ((e(p := n)) (user (wins s1 i))) = [p, bp]" using assms(9) n by (simp add: s1 ed_ptrs_def)
  ultimately have m: "mset (all_ptrs s1 (e(p := n)) bg) = mset (bp # p # all_ptrs s e bg)"
    using all_ptrs_pick [OF iw, of "e(p := n)" bg] by simp
  have "owns gui_owned (gui_sane \<alpha> wh) R (all_ptrs s1 (e(p := n)) bg) (d, st)"
    unfolding owns_perm [OF m] by (rule assms(2))
  moreover have "roles_ok (wins s1 j)" if "j < MAX_WINDOWS" for j using sd(5) [OF that] assms(8) by (simp add: s1)
  moreover have "ed_ptr ((e(p := n)) (user (wins s1 j))) = user (wins s1 j) \<and> ed_ok max_request ((e(p := n)) (user (wins s1 j)))"
    if "j \<in> set (ed_windows s1)" for j
  proof (cases "j = i")
    case True
    then show ?thesis using assms(9) n by (simp add: s1)
  next
    case False
    then have "j \<in> set (filter (\<lambda>j. j \<noteq> i) (ed_windows s1))" using that by simp
    then have "j \<in> set (ed_windows s)" by (simp only: rest)
    then show ?thesis using ne [of j] sd(7) [of j] by (simp add: s1)
  qed
  ultimately show ?thesis using s1(1) by (simp add: safe_def)
qed

lemma find_editor_SomeD:
  assumes "find_editor name g = Some i"
  shows "i < MAX_WINDOWS \<and> window.used (wins (gwm g) i)"
proof -
  have "find_editor_from name w e is = Some i \<Longrightarrow> i \<in> set is \<and> window.used (w i)" for w e "is"
    by (induction "is") (auto split: if_splits)
  from this [of "wins (gwm g)" "eds g" "[0..<MAX_WINDOWS]"] assms show ?thesis by (simp add: find_editor_def)
qed

lemma safe_show:
  assumes "safe \<alpha> wh R s d st e bg" "i < MAX_WINDOWS" "window.used (wins s i)"
  shows "safe \<alpha> wh R (show_and_raise i s) d st e bg"
  using safe_windows [OF assms(1) show_and_raise_ok [OF safeD(1) [OF assms(1)] assms(3,2)] show_eds] .

lemma new_editor_ok:
  "0 \<le> len \<Longrightarrow> len \<le> cap \<Longrightarrow> cap \<le> int L \<Longrightarrow> length buf = nat cap \<Longrightarrow> ed_ok L (new_editor p name bp buf len cap)"
  by (simp add: ed_ok_def pos_ok_def new_editor_def)

text \<open>The window a new editor gets, and what is given back when there is none.\<close>

lemma safe_put_editor:
  assumes "safe \<alpha> wh R s d0 st0 e bg" "owns gui_owned (gui_sane \<alpha> wh) R (bp # p # all_ptrs s e bg) (d, st)"
    and "0 \<le> len" "len \<le> cap" "cap \<le> int max_request" "length buf = nat cap"
    and "add_window x y 560 420 name (Some Editor) s = (r, s1)"
  shows "(case r of None \<Rightarrow> safe \<alpha> wh R s1 d (st\<lparr>fs_heap := heap_release p (heap_release bp (fs_heap st))\<rparr>) e bg
    | Some i \<Rightarrow> safe \<alpha> wh R (s1\<lparr>wins := (wins s1)(i := (wins s1 i)\<lparr>user := p, key := Some Editor,
         click := Some Editor, on_close := Some Editor\<rparr>)\<rparr>) d st (e(p := new_editor p name bp buf len cap)) bg)"
proof (cases r)
  case None
  then have "s1 = s" using add_window_cases [of s x y 560 420 name "Some Editor"] assms(7) by auto
  moreover have "owns gui_owned (gui_sane \<alpha> wh) R (all_ptrs s e bg) (d, st\<lparr>fs_heap := heap_release p (heap_release bp (fs_heap st))\<rparr>)"
    using owns_release_heap [OF owns_release_heap [OF assms(2)]] by simp
  ultimately show ?thesis using None assms(1) by (simp add: safe_def)
next
  case (Some i)
  note ok = add_window_ok [OF safeD(1) [OF assms(1)], of x y 560 420 name "Some Editor", unfolded assms(7) snd_conv]
  have i: "i < MAX_WINDOWS" "\<not> window.used (wins s i)" "\<exists>w. wins s1 = (wins s)(i := w) \<and> window.used w"
    using add_window_cases [of s x y 560 420 name "Some Editor"] assms(7) Some by auto
  then obtain w where w: "wins s1 = (wins s)(i := w)" "window.used w" by blast
  let ?w = "w\<lparr>user := p, key := Some Editor, click := Some Editor, on_close := Some Editor\<rparr>"
  let ?s = "s1\<lparr>wins := (wins s1)(i := (wins s1 i)\<lparr>user := p, key := Some Editor, click := Some Editor, on_close := Some Editor\<rparr>)\<rparr>"
  have "topmost (wins ?s) zs = topmost (wins s1) zs" for zs by (rule topmost_cong) simp
  then have ok': "wm_ok ?s" using ok by (auto simp: wm_ok_def)
  have "safe \<alpha> wh R ?s d st (e(p := new_editor p name bp buf len cap)) bg"
    by (rule safe_new_editor [OF assms(1,2) i(1,2) ok', of ?w])
      (use w in \<open>simp_all add: is_ed_def roles_ok_def new_editor_def new_editor_ok [OF assms(3-6), unfolded new_editor_def]\<close>)
  then show ?thesis using Some by simp
qed

lemma gui_safe_wm:
  "gui_safe \<alpha> wh R g \<Longrightarrow> wm_ok s' \<Longrightarrow> same_eds (gwm g) s' \<Longrightarrow> gui_safe \<alpha> wh R (g\<lparr>gwm := s'\<rparr>)"
  using safe_windows by (simp add: gui_safe_def)

lemma sizeof_editor_small: "unat sizeof_editor \<le> max_request"
  by (simp add: sizeof_editor_def max_request_def)

lemma safe_owned:
  "safe \<alpha> wh R s d st e bg \<Longrightarrow> owns gui_owned (gui_sane \<alpha> wh) R (all_ptrs s e bg) (d, st') \<Longrightarrow> safe \<alpha> wh R s d st' e bg"
  by (simp add: safe_def)

lemma safe_open_editor:
  assumes "drives bus \<alpha>" "gui_safe \<alpha> wh R g" "0 \<notin> set name"
  shows "gui_safe \<alpha> wh R (open_editor bus mm name g)"
proof (cases "find_editor name g")
  case (Some i)
  then show ?thesis
    using safe_show [OF assms(2) [unfolded gui_safe_def]] find_editor_SomeD [OF Some]
    by (simp add: open_editor_def gui_safe_def)
next
  case None
  let ?s = "gwm g" and ?d = "gdesk g" and ?e = "eds g" and ?bg = "bg_layer g"
  note sg = assms(2) [unfolded gui_safe_def]
  obtain p h where a: "heap_alloc sizeof_editor (fs_heap (gfs g)) = (p, h)" by (rule prod.exhaust)
  note o1 = owns_heap [OF safeD(6) [OF sg] a sizeof_editor_small]
  define st1 where "st1 = (gfs g)\<lparr>fs_heap := h\<rparr>"
  show ?thesis
  proof (cases "p = 0")
    case True
    then have "safe \<alpha> wh R ?s ?d st1 ?e ?bg" using safe_owned [OF sg] o1 by (simp add: st1_def)
    then show ?thesis
      using None a True by (simp add: open_editor_def gui_heap_def with_heap_def gui_safe_def st1_def)
  next
    case False
    then have o1: "owns gui_owned (gui_sane \<alpha> wh) R (p # all_ptrs ?s ?e ?bg) (?d, st1)" using o1 by (simp add: st1_def)
    obtain bp buf len cap st2 where l: "load_buffer bus mm name st1 = ((bp, buf, len, cap), st2)" by (metis prod.exhaust)
    note o2 = load_buffer_owns [OF assms(1) o1 assms(3) l]
    show ?thesis
    proof (cases "bp = 0")
      case True
      then have "owns gui_owned (gui_sane \<alpha> wh) R (all_ptrs ?s ?e ?bg) (?d, st2\<lparr>fs_heap := heap_release p (fs_heap st2)\<rparr>)"
        using o2 owns_release_heap by simp
      then have "safe \<alpha> wh R ?s ?d (st2\<lparr>fs_heap := heap_release p (fs_heap st2)\<rparr>) ?e ?bg" by (rule safe_owned [OF sg])
      then show ?thesis
        using None a \<open>p \<noteq> 0\<close> l True by (simp add: open_editor_def gui_heap_def with_heap_def gui_safe_def st1_def)
    next
      case False
      then have o3: "owns gui_owned (gui_sane \<alpha> wh) R (bp # p # all_ptrs ?s ?e ?bg) (?d, st2)" "0 \<le> len" "len \<le> cap"
        "cap \<le> int max_request" "length buf = nat cap" using o2 by simp_all
      obtain r s1 where w: "add_window (170 + stagger g mod 4 * 36) (80 + stagger g mod 4 * 32) 560 420 name (Some Editor) ?s = (r, s1)"
        by (rule prod.exhaust)
      note put = safe_put_editor [OF sg o3 w]
      show ?thesis
        using put None a \<open>p \<noteq> 0\<close> l False w
        by (cases r) (simp_all add: open_editor_def gui_heap_def with_heap_def gui_safe_def st1_def)
    qed
  qed
qed

lemma untitled_no_zero: "0 \<notin> set (untitled i)"
proof -
  have "0 \<notin> set (app_digits v)" for v
  proof (induction v rule: app_digits.induct)
    case (1 v)
    have "(48 + of_nat (v mod 10) :: u8) \<noteq> 0"
    proof -
      have "v mod 10 < 10" by simp
      then have "unat (of_nat (48 + v mod 10) :: u8) = 48 + v mod 10" by (simp only: unat_of_nat) simp
      then have "(of_nat (48 + v mod 10) :: u8) \<noteq> 0" by (metis add_is_0 unsigned_0 zero_neq_numeral)
      then show ?thesis by simp
    qed
    then show ?case using 1 by (subst app_digits.simps) auto
  qed
  then show ?thesis by (auto simp: untitled_def app_str_def app_int_def Let_def)
qed

lemma safe_gfs:
  assumes "gui_safe \<alpha> wh R g" "fs_good \<alpha> st'" "fs_heap st' = fs_heap (gfs g)"
  shows "gui_safe \<alpha> wh R (g\<lparr>gfs := st'\<rparr>)"
  using safe_files [OF assms(1) [unfolded gui_safe_def] safeD(2) [OF assms(1) [unfolded gui_safe_def]] assms(2,3)]
  by (simp add: gui_safe_def)

lemma gui_safe_good: "gui_safe \<alpha> wh R g \<Longrightarrow> fs_good \<alpha> (gfs g) \<and> desk_ok wh (gdesk g) \<and> wm_ok (gwm g)"
  unfolding gui_safe_def by (intro conjI) (erule safeD(3), erule safeD(2), erule safeD(1))

lemma safe_untitled:
  "drives bus \<alpha> \<Longrightarrow> gui_safe \<alpha> wh R g \<Longrightarrow> 0 \<notin> set name \<Longrightarrow> untitled_from bus is g name = (name', g') \<Longrightarrow>
     gui_safe \<alpha> wh R g' \<and> 0 \<notin> set name'"
proof (induction "is" arbitrary: g name)
  case (Cons i r)
  obtain sz none st where rd: "fs_read (disk_rd bus) (untitled i) 0 (gfs g) = ((sz, none), st)" by (metis prod.exhaust)
  have "fs_good \<alpha> (gfs g)" using gui_safe_good Cons.prems(2) by blast
  from disk_read_good [OF Cons.prems(1) this untitled_no_zero rd]
  have s: "gui_safe \<alpha> wh R (g\<lparr>gfs := st\<rparr>)" using safe_gfs [OF Cons.prems(2)] by simp
  have u: "untitled_from bus (i # r) g name = (if sz < 0 \<and> find_editor (untitled i) (g\<lparr>gfs := st\<rparr>) = None
      then (untitled i, g\<lparr>gfs := st\<rparr>) else untitled_from bus r (g\<lparr>gfs := st\<rparr>) (untitled i))"
    unfolding untitled_from.simps Let_def rd case_prod_conv ..
  show ?case
    using Cons.IH [OF Cons.prems(1) s untitled_no_zero] Cons.prems(4) u s untitled_no_zero [of i] by (auto split: if_splits)
qed simp

lemma safe_open_new:
  assumes "drives bus \<alpha>" "gui_safe \<alpha> wh R g"
  shows "gui_safe \<alpha> wh R (open_new_file bus mm g)"
proof -
  obtain name g1 where u: "untitled_from bus [1..<100] g [] = (name, g1)" by (rule prod.exhaust)
  then show ?thesis
    using safe_untitled [OF assms _ u] safe_open_editor [OF assms(1)] by (simp add: open_new_file_def)
qed

subsection \<open>Every event\<close>

lemma gui_safe_fields [simp]:
  "gui_safe \<alpha> wh R (g\<lparr>dragging := x1\<rparr>) = gui_safe \<alpha> wh R g" "gui_safe \<alpha> wh R (g\<lparr>drag_dx := i1\<rparr>) = gui_safe \<alpha> wh R g"
  "gui_safe \<alpha> wh R (g\<lparr>drag_dy := i1\<rparr>) = gui_safe \<alpha> wh R g" "gui_safe \<alpha> wh R (g\<lparr>band_on := b1\<rparr>) = gui_safe \<alpha> wh R g"
  "gui_safe \<alpha> wh R (g\<lparr>band_ax := i1\<rparr>) = gui_safe \<alpha> wh R g" "gui_safe \<alpha> wh R (g\<lparr>band_ay := i1\<rparr>) = gui_safe \<alpha> wh R g"
  "gui_safe \<alpha> wh R (g\<lparr>band_x := i1\<rparr>) = gui_safe \<alpha> wh R g" "gui_safe \<alpha> wh R (g\<lparr>band_y := i1\<rparr>) = gui_safe \<alpha> wh R g"
  "gui_safe \<alpha> wh R (g\<lparr>icon_armed := x1\<rparr>) = gui_safe \<alpha> wh R g" "gui_safe \<alpha> wh R (g\<lparr>icon_dragging := b1\<rparr>) = gui_safe \<alpha> wh R g"
  "gui_safe \<alpha> wh R (g\<lparr>trash_armed := b1\<rparr>) = gui_safe \<alpha> wh R g" "gui_safe \<alpha> wh R (g\<lparr>trash_grab_dx := i1\<rparr>) = gui_safe \<alpha> wh R g"
  "gui_safe \<alpha> wh R (g\<lparr>trash_grab_dy := i1\<rparr>) = gui_safe \<alpha> wh R g" "gui_safe \<alpha> wh R (g\<lparr>press_x := i1\<rparr>) = gui_safe \<alpha> wh R g"
  "gui_safe \<alpha> wh R (g\<lparr>press_y := i1\<rparr>) = gui_safe \<alpha> wh R g" "gui_safe \<alpha> wh R (g\<lparr>mouse_x := i1\<rparr>) = gui_safe \<alpha> wh R g"
  "gui_safe \<alpha> wh R (g\<lparr>mouse_y := i1\<rparr>) = gui_safe \<alpha> wh R g" "gui_safe \<alpha> wh R (g\<lparr>click_target := i1\<rparr>) = gui_safe \<alpha> wh R g"
  "gui_safe \<alpha> wh R (g\<lparr>click_tick := t1\<rparr>) = gui_safe \<alpha> wh R g" "gui_safe \<alpha> wh R (g\<lparr>menu_open := b1\<rparr>) = gui_safe \<alpha> wh R g"
  "gui_safe \<alpha> wh R (g\<lparr>menu_y := i1\<rparr>) = gui_safe \<alpha> wh R g" "gui_safe \<alpha> wh R (g\<lparr>running := b1\<rparr>) = gui_safe \<alpha> wh R g"
  "gui_safe \<alpha> wh R (g\<lparr>power := p1\<rparr>) = gui_safe \<alpha> wh R g"
  by (simp_all add: gui_safe_def)

lemma safe_desk: "gui_safe \<alpha> wh R g \<Longrightarrow> desk_ok wh d \<Longrightarrow> gui_safe \<alpha> wh R (g\<lparr>gdesk := d\<rparr>)"
  using gui_safe_good [of \<alpha> wh R g]
  using safe_files [of \<alpha> wh R "gwm g" "gdesk g" "gfs g" "eds g" "bg_layer g" d "gfs g"]
  by (simp add: gui_safe_def)

lemma safe_both:
  "gui_safe \<alpha> wh R g \<Longrightarrow> desk_ok wh d \<Longrightarrow> fs_good \<alpha> st \<Longrightarrow> fs_heap st = fs_heap (gfs g) \<Longrightarrow> gui_safe \<alpha> wh R (g\<lparr>gdesk := d, gfs := st\<rparr>)"
  using safe_gfs [OF safe_desk] by simp

lemma safe_refresh:
  assumes "drives bus \<alpha>" "gui_safe \<alpha> wh R g"
  shows "gui_safe \<alpha> wh R (gui_refresh bus g)"
proof -
  obtain d st where r: "refresh_icons (disk_rd bus) (gdesk g) (gfs g) = (d, st)" by (rule prod.exhaust)
  have "fs_good \<alpha> (gfs g)" "desk_ok wh (gdesk g)" using gui_safe_good [OF assms(2)] by simp_all
  from refresh_good [OF assms(1) this r] show ?thesis
    using safe_both [OF assms(2)] r by (simp add: gui_refresh_def)
qed

lemma safe_save_layout:
  assumes "drives bus \<alpha>" "gui_safe \<alpha> wh R g"
  shows "gui_safe \<alpha> wh R (gui_save_layout bus g)"
proof -
  obtain d st where r: "save_layout (disk_wr bus) (gdesk g) (gfs g) = (d, st)" by (rule prod.exhaust)
  have "fs_good \<alpha> (gfs g)" "desk_ok wh (gdesk g)" using gui_safe_good [OF assms(2)] by simp_all
  from save_layout_good [OF assms(1) this r] show ?thesis
    using safe_both [OF assms(2)] r by (simp add: gui_save_layout_def)
qed

lemma safe_trash_selected:
  assumes "drives bus \<alpha>" "gui_safe \<alpha> wh R g"
  shows "gui_safe \<alpha> wh R (trash_selected bus g)"
proof -
  let ?f = "\<lambda>ic st. if selected ic then trash_file (disk_wr bus) (cstr (ic_name ic)) st else st"
  have good: "fs_good \<alpha> (gfs g)" using gui_safe_good [OF assms(2)] by simp
  have "fs_good \<alpha> (fold ?f (icons (gdesk g)) (gfs g)) \<and> fs_heap (fold ?f (icons (gdesk g)) (gfs g)) = fs_heap (gfs g)"
    using trash_file_good [OF assms(1) _ cstr_no_zero] by (intro fold_good [OF _ good]) simp
  then show ?thesis using safe_gfs [OF assms(2)] by (simp add: trash_selected_def)
qed

lemma safe_trash_click:
  assumes "drives bus \<alpha>" "gui_safe \<alpha> wh R g"
  shows "gui_safe \<alpha> wh R (trash_win_click bus w mx my g)"
proof -
  have good: "fs_good \<alpha> (gfs g)" using gui_safe_good [OF assms(2)] by simp
  have "gui_safe \<alpha> wh R (g\<lparr>gfs := empty_trash bus (gfs g)\<rparr>)"
    using safe_gfs [OF assms(2)] empty_trash_good [OF assms(1) good] by simp
  moreover have "gui_safe \<alpha> wh R (case trash_row js row rows (gfs g) of None \<Rightarrow> g
      | Some name \<Rightarrow> gui_refresh bus (g\<lparr>gfs := restore_file (disk_wr bus) name (gfs g)\<rparr>))" for js row rows
  proof (cases "trash_row js row rows (gfs g)")
    case (Some name)
    have "trash_row js row rows st = Some name \<Longrightarrow> 0 \<notin> set name" for st :: "'a fsys"
      using cstr_no_zero by (induction js arbitrary: rows) (auto split: option.splits prod.splits if_splits)
    then have "0 \<notin> set name" using Some by blast
    from restore_file_good [OF assms(1) good this]
    have "gui_safe \<alpha> wh R (g\<lparr>gfs := restore_file (disk_wr bus) name (gfs g)\<rparr>)" using safe_gfs [OF assms(2)] by blast
    then show ?thesis using Some safe_refresh [OF assms(1)] by simp
  qed (use assms(2) in simp)
  ultimately show ?thesis using assms(2) by (simp add: trash_win_click_def Let_def)
qed

lemma safe_open_trash: "gui_safe \<alpha> wh R g \<Longrightarrow> gui_safe \<alpha> wh R (g\<lparr>gwm := open_trash_window (gwm g)\<rparr>)"
  using gui_safe_wm open_trash_ok gui_safe_good by blast

lemma safe_open_app: "drw \<noteq> Editor \<Longrightarrow> gui_safe \<alpha> wh R g \<Longrightarrow> gui_safe \<alpha> wh R (g\<lparr>gwm := open_app ttl drw x y w h (gwm g)\<rparr>)"
  using gui_safe_wm [OF _ open_app_ok open_app_eds] gui_safe_good by blast

lemma safe_menu_click:
  assumes "drives bus \<alpha>" "gui_safe \<alpha> wh R g"
  shows "gui_safe \<alpha> wh R (menu_click bus mm mx my g)"
proof -
  have "gui_safe \<alpha> wh R (menu_choose bus mm mi g)" if "gui_safe \<alpha> wh R g" for mi g
    using that safe_open_app [OF _ that] safe_open_trash [OF that] safe_open_new [OF assms(1) that]
    by (cases mi) (simp_all add: menu_choose_def)
  then show ?thesis using assms(2) by (simp add: menu_click_def split: option.splits)
qed

lemma safe_window_down:
  assumes "drives bus \<alpha>" "gui_safe \<alpha> wh R g" "window_press mx my (gwm g) = Some p"
  shows "gui_safe \<alpha> wh R (window_down bus mm p mx my g)"
proof -
  obtain i where h: "hit_window (wins (gwm g)) mx my (rev (zorder (gwm g))) = Some i"
    and p: "p = Close i \<or> p = Minimize i \<or> p = Grab i (mx - win_x (wins (gwm g) i)) (my - win_y (wins (gwm g) i)) \<or> p = Body i"
    using window_press_hits [OF assms(3)] by blast
  obtain xs ys where z: "rev (zorder (gwm g)) = xs @ i # ys" and v: "visible (wins (gwm g) i)"
    using hit_window_SomeD [OF h] by blast
  have ok: "wm_ok (gwm g)" using gui_safe_good [OF assms(2)] by simp
  have "i \<in> set (rev (zorder (gwm g)))" unfolding z by simp
  then have i: "i < MAX_WINDOWS" "window.used (wins (gwm g) i)" using ok by (simp_all add: wm_ok_def)
  have m: "gui_safe \<alpha> wh R (g\<lparr>gwm := minimize_window i (gwm g)\<rparr>)"
    by (rule gui_safe_wm [OF assms(2) minimize_window_ok [OF ok] minimize_eds])
  have r: "gui_safe \<alpha> wh R (g\<lparr>gwm := raise_window i (gwm g)\<rparr>)"
    by (rule gui_safe_wm [OF assms(2) raise_window_ok [OF ok v] raise_eds])
  have w: "wins (raise_window i (gwm g)) = wins (gwm g)" by (simp add: raise_window_def)
  have "roles_ok (wins (gwm g) i)" using safeD(5) [OF assms(2) [unfolded gui_safe_def] i(1)] .
  then have "click (wins (gwm g) i) = Some Editor \<Longrightarrow> is_ed (wins (gwm g) i)" using i(2) by (simp add: roles_ok_def is_ed_def)
  then have "gui_safe \<alpha> wh R (body_click bus i mx my (g\<lparr>gwm := raise_window i (gwm g)\<rparr>))"
    using r i(1) safe_click [OF assms(1) r i(1)] safe_trash_click [OF assms(1) r] by (simp add: body_click_def w split: option.splits app.splits)
  then show ?thesis
    using p safe_close [OF assms(1,2) i] m r by (auto simp: window_down_def)
qed

lemma safe_taskbar_down:
  assumes "gui_safe \<alpha> wh R g"
  shows "gui_safe \<alpha> wh R (snd (taskbar_down mx my g))"
proof (cases "taskbar_press (scr_h (gdesk g)) mx my (gwm g)")
  case (Some i)
  then have "i < MAX_WINDOWS" "window.used (wins (gwm g) i)" using taskbar_press_SomeD by blast+
  then have "gui_safe \<alpha> wh R (g\<lparr>gwm := show_and_raise i (gwm g)\<rparr>)"
    using safe_show [OF assms [unfolded gui_safe_def]] by (simp add: gui_safe_def)
  then have "gui_safe \<alpha> wh R (g\<lparr>click_target := - 99, gwm := show_and_raise i (gwm g)\<rparr>)" by (simp add: gui_safe_def)
  then show ?thesis using Some assms by (simp add: taskbar_down_def Let_def)
qed (use assms in \<open>simp add: taskbar_down_def Let_def\<close>)

lemma safe_double: "gui_safe \<alpha> wh R g \<Longrightarrow> is_double now tgt g = (b, g') \<Longrightarrow> gui_safe \<alpha> wh R g' \<and> gdesk g' = gdesk g"
  by (auto simp: is_double_def)

lemma safe_trash_down:
  assumes "gui_safe \<alpha> wh R g"
  shows "gui_safe \<alpha> wh R (trash_down now mx my g)"
proof -
  have "gui_safe \<alpha> wh R (g\<lparr>gdesk := clear_selection (gdesk g)\<rparr>)"
    using safe_desk [OF assms desk_ok_clear] gui_safe_good [OF assms] by simp
  moreover obtain b g1 where d: "is_double now (- 2) (g\<lparr>gdesk := clear_selection (gdesk g)\<rparr>) = (b, g1)" by (rule prod.exhaust)
  ultimately have g1: "gui_safe \<alpha> wh R g1" using safe_double by blast
  then have "gui_safe \<alpha> wh R (g1\<lparr>trash_armed := False, gwm := open_trash_window (gwm g1)\<rparr>)"
    using safe_open_trash [of \<alpha> wh R "g1\<lparr>trash_armed := False\<rparr>"] by simp
  then show ?thesis using d g1 by (simp add: trash_down_def)
qed

lemma safe_icon_down:
  assumes "drives bus \<alpha>" "gui_safe \<alpha> wh R g"
  shows "gui_safe \<alpha> wh R (icon_down bus mm now i mx my g)"
proof -
  obtain b g1 where d: "is_double now (int i) g = (b, g1)" by (rule prod.exhaust)
  have g1: "gui_safe \<alpha> wh R g1" using safe_double [OF assms(2) d] by simp
  then have ok: "desk_ok wh (gdesk g1)" using gui_safe_good by blast
  have "gui_safe \<alpha> wh R (open_editor bus mm (cstr (ic_name (icons (gdesk g1) ! i))) (g1\<lparr>icon_armed := None\<rparr>))"
    using safe_open_editor [OF assms(1) _ cstr_no_zero] g1 by simp
  moreover have "gui_safe \<alpha> wh R (g1\<lparr>gdesk := (let c = clear_selection (gdesk g1)
      in c\<lparr>icons := (icons c)[i := (icons c ! i)\<lparr>selected := True\<rparr>]\<rparr>)\<rparr>)"
    using safe_desk [OF g1 desk_ok_select [OF desk_ok_clear [OF ok]]] by (simp add: Let_def)
  moreover have "gui_safe \<alpha> wh R (g1\<lparr>gdesk := gdesk g1\<rparr>)" using g1 by simp
  ultimately show ?thesis using d by (simp add: icon_down_def Let_def)
qed

lemma safe_desktop_down:
  assumes "gui_safe \<alpha> wh R g"
  shows "gui_safe \<alpha> wh R (desktop_down mx my g)"
proof -
  have "gui_safe \<alpha> wh R (g\<lparr>click_target := - 99, gdesk := clear_selection (gdesk g)\<rparr>)"
    using safe_desk [of \<alpha> wh R "g\<lparr>click_target := - 99\<rparr>" "clear_selection (gdesk g)"] gui_safe_good [OF assms] assms
    by (simp add: desk_ok_clear)
  then show ?thesis by (simp add: desktop_down_def)
qed

lemma safe_button_down:
  assumes "drives bus \<alpha>" "gui_safe \<alpha> wh R g"
  shows "gui_safe \<alpha> wh R (snd (handle_button_down bus mm now mx my g))"
proof -
  have w: "gui_safe \<alpha> wh R (window_down bus mm p mx my (g\<lparr>click_target := - 99\<rparr>))" if "window_press mx my (gwm g) = Some p" for p
    using safe_window_down [OF assms(1), of wh R "g\<lparr>click_target := - 99\<rparr>"] assms(2) that by simp
  then show ?thesis
    using safe_menu_click [OF assms] safe_taskbar_down [OF assms(2)] safe_trash_down [OF assms(2)]
      safe_icon_down [OF assms] safe_desktop_down [OF assms(2)]
    by (auto simp: handle_button_down_def split: option.splits)
qed

lemma safe_drop:
  assumes "drives bus \<alpha>" "gui_safe \<alpha> wh R g"
  shows "gui_safe \<alpha> wh R (drop_icons bus mx my g)"
proof -
  have "desk_ok wh (gdesk g)" using gui_safe_good [OF assms(2)] by simp
  from safe_desk [OF assms(2) desk_ok_move [OF this]] show ?thesis
    using safe_refresh [OF assms(1) safe_trash_selected [OF assms]] safe_save_layout [OF assms(1)]
    by (simp add: drop_icons_def)
qed

lemma safe_drop_trash:
  assumes "drives bus \<alpha>" "gui_safe \<alpha> wh R g"
  shows "gui_safe \<alpha> wh R (gui_save_layout bus (g\<lparr>gdesk := (gdesk g)\<lparr>trash_dragging := False\<rparr>\<rparr>))"
proof -
  have "desk_ok wh ((gdesk g)\<lparr>trash_dragging := False\<rparr>)" using gui_safe_good [OF assms(2)] by simp
  then show ?thesis by (rule safe_save_layout [OF assms(1) safe_desk [OF assms(2)]])
qed

lemma safe_button_up:
  assumes "drives bus \<alpha>" "gui_safe \<alpha> wh R g"
  shows "gui_safe \<alpha> wh R (snd (handle_button_up bus mx my g))"
proof -
  let ?g1 = "g\<lparr>dragging := None, band_on := False\<rparr>"
  define g2 where "g2 = (if icon_dragging g then (drop_icons bus mx my ?g1)\<lparr>icon_dragging := False\<rparr> else ?g1)"
  have g2: "gui_safe \<alpha> wh R g2" using safe_drop [OF assms(1), of wh R ?g1] assms(2) by (simp add: g2_def)
  have "snd (handle_button_up bus mx my g) = (if trash_dragging (gdesk g2)
      then gui_save_layout bus (g2\<lparr>gdesk := (gdesk g2)\<lparr>trash_dragging := False\<rparr>\<rparr>) else g2)\<lparr>icon_armed := None, trash_armed := False\<rparr>"
    unfolding handle_button_up_def Let_def g2_def snd_conv ..
  then show ?thesis using g2 safe_drop_trash [OF assms(1) g2] by simp
qed

lemma safe_handle_key:
  assumes "drives bus \<alpha>" "gui_safe \<alpha> wh R g"
  shows "gui_safe \<alpha> wh R (snd (handle_key bus mm now ch g))"
proof -
  have ok: "wm_ok (gwm g)" using gui_safe_good [OF assms(2)] by simp
  have "gui_safe \<alpha> wh R (editor_key_to bus mm now i ch g)"
    if f: "focused (gwm g) = Some i" and u: "window.used (wins (gwm g) i)" "key (wins (gwm g) i) \<noteq> None" for i
  proof -
    have "topmost (wins (gwm g)) (rev (zorder (gwm g))) = Some i" using ok f by (simp add: wm_ok_def)
    then have "i \<in> set (zorder (gwm g))" using topmost_SomeD by fastforce
    then have i: "i < MAX_WINDOWS" using ok by (simp add: wm_ok_def)
    have "is_ed (wins (gwm g) i)"
      using safeD(5) [OF assms(2) [unfolded gui_safe_def] i] u by (auto simp: roles_ok_def is_ed_def)
    then show ?thesis by (rule safe_key [OF assms i])
  qed
  moreover have "gui_safe \<alpha> wh R (gui_refresh bus (trash_selected bus g))"
    by (rule safe_refresh [OF assms(1) safe_trash_selected [OF assms]])
  ultimately show ?thesis using assms(2) by (auto simp: handle_key_def split: option.splits)
qed

lemma safe_trash_motion:
  assumes "gui_safe \<alpha> wh R g"
  shows "gui_safe \<alpha> wh R (snd (trash_motion x y g))"
proof -
  define g1 where "g1 = (if trash_armed g \<and> \<not> trash_dragging (gdesk g) \<and> far x y g
                then g\<lparr>gdesk := (gdesk g)\<lparr>trash_dragging := True\<rparr>\<rparr> else g)"
  have g1: "gui_safe \<alpha> wh R g1"
    using safe_desk [OF assms, of "(gdesk g)\<lparr>trash_dragging := True\<rparr>"] gui_safe_good [OF assms] assms by (simp add: g1_def)
  obtain tx ty where c: "clamp_cell (gdesk g1) (x - trash_grab_dx g, y - trash_grab_dy g) = (tx, ty)" by (rule prod.exhaust)
  have "gui_safe \<alpha> wh R (g1\<lparr>gdesk := (gdesk g1)\<lparr>trash_x := tx, trash_y := ty\<rparr>\<rparr>)"
    using safe_desk [OF g1, of "(gdesk g1)\<lparr>trash_x := tx, trash_y := ty\<rparr>"] gui_safe_good [OF g1] by simp
  moreover have "trash_motion x y g = (if trash_dragging (gdesk g1)
      then (True, g1\<lparr>gdesk := (gdesk g1)\<lparr>trash_x := tx, trash_y := ty\<rparr>\<rparr>) else (False, g1))"
    unfolding trash_motion_def g1_def [symmetric] Let_def c case_prod_conv ..
  ultimately show ?thesis using g1 by simp
qed

lemma safe_motion:
  assumes "gui_safe \<alpha> wh R g0"
  shows "gui_safe \<alpha> wh R (snd (handle_motion x y g0))"
proof -
  define g where "g = g0\<lparr>mouse_x := x, mouse_y := y\<rparr>"
  have g: "gui_safe \<alpha> wh R g" using assms by (simp add: g_def)
  have ok: "wm_ok (gwm g)" "desk_ok wh (gdesk g)" using gui_safe_good [OF g] by simp_all
  let ?s = "\<lambda>i. (gwm g)\<lparr>wins := (wins (gwm g))(i := drag_window (scr_w (gdesk g)) (scr_h (gdesk g)) (x - drag_dx g) (y - drag_dy g) (wins (gwm g) i))\<rparr>"
  have d: "gui_safe \<alpha> wh R (g\<lparr>gwm := ?s i\<rparr>)" for i
    by (rule gui_safe_wm [OF g wm_ok_move [OF ok(1)] drag_eds])
  have b: "gui_safe \<alpha> wh R (g\<lparr>band_x := x, band_y := y, gdesk := update_band_selection (band_ax g) (band_ay g) x y (gdesk g)\<rparr>)"
    using safe_desk [of \<alpha> wh R "g\<lparr>band_x := x, band_y := y\<rparr>", OF _ desk_ok_band [OF ok(2)]] g by simp
  have t: "gui_safe \<alpha> wh R (snd (trash_motion x y g1))" if "gui_safe \<alpha> wh R g1" for g1 using safe_trash_motion [OF that] .
  show ?thesis
    unfolding handle_motion_def g_def [symmetric] Let_def
    using g d b t by (auto split: option.splits)
qed

lemma safe_event:
  assumes "drives bus \<alpha>" "gui_safe \<alpha> wh R g"
  shows "gui_safe \<alpha> wh R (snd (handle_event bus mm now ev g))"
  using safe_handle_key [OF assms] safe_refresh [OF assms] safe_button_down [OF assms] safe_button_up [OF assms]
    safe_motion [OF assms(2)] assms(2)
  by (simp add: handle_event_def split: event_type.splits)

lemma safe_events:
  assumes "drives bus \<alpha>"
  shows "gui_safe \<alpha> wh R g \<Longrightarrow> gui_safe \<alpha> wh R (snd (handle_events bus mm now evs g))"
proof (induction evs arbitrary: g now)
  case (Cons ev evs)
  obtain b g1 where e: "handle_event bus mm (now 0) ev g = (b, g1)" by (rule prod.exhaust)
  then have "gui_safe \<alpha> wh R g1" using safe_event [OF assms Cons.prems, of mm "now 0" ev] by simp
  then have "gui_safe \<alpha> wh R g1" "gui_safe \<alpha> wh R (snd (handle_events bus mm (\<lambda>n. now (Suc n)) evs g1))"
    using Cons.IH [of g1 "\<lambda>n. now (Suc n)"] by simp_all
  then show ?case using e by (cases "handle_events bus mm (\<lambda>n. now (Suc n)) evs g1") simp
qed simp

subsection \<open>From the first entry on\<close>

text \<open>A desktop that has never been entered; \<open>demo\<close> may have opened windows already.\<close>

definition fresh_gui :: "('d \<Rightarrow> drive) \<Rightarrow> u32 set \<Rightarrow> 'd gui \<Rightarrow> bool" where
  "fresh_gui \<alpha> R g \<longleftrightarrow> wm_ok (gwm g) \<and> (\<forall>i < MAX_WINDOWS. roles_ok (wins (gwm g) i)) \<and> ed_windows (gwm g) = [] \<and>
     bg_layer g = 0 \<and> icons (gdesk g) = [] \<and>
     fs_good \<alpha> (gfs g) \<and> heap_sane (gui_heap g) \<and> heap_owned (gui_heap g) = R"

definition ready :: "('d \<Rightarrow> drive) \<Rightarrow> int \<times> int \<Rightarrow> u32 set \<Rightarrow> 'd gui \<Rightarrow> bool" where
  "ready \<alpha> wh R g \<longleftrightarrow> fresh_gui \<alpha> R g \<or> gui_safe \<alpha> wh R g"

lemma demo_windows_ok: "wm_ok s \<Longrightarrow> wm_ok (gui_demo_windows s)" and demo_windows_eds: "same_eds s (gui_demo_windows s)"
  unfolding gui_demo_windows_def
  by (intro add_window_ok, assumption) (rule same_eds_trans [OF add_window_eds add_window_eds]; simp)

lemma ready_demo: "ready \<alpha> wh R g \<Longrightarrow> ready \<alpha> wh R (g\<lparr>gwm := gui_demo_windows (gwm g)\<rparr>)"
  using gui_safe_wm [of \<alpha> wh R g "gui_demo_windows (gwm g)"] gui_safe_good [of \<alpha> wh R g] demo_windows_ok [of "gwm g"]
    demo_windows_eds [of "gwm g"] same_eds_windows [OF demo_windows_eds [of "gwm g"]]
  by (auto simp: ready_def fresh_gui_def same_eds_def gui_heap_def)

text \<open>The screen is as large as it was and large enough for the desktop.\<close>

lemma ready_screen:
  assumes "ready \<alpha> (w, h) R g" "112 \<le> w" "124 \<le> h"
  shows "gui_safe \<alpha> (w, h) R (g\<lparr>gdesk := (gdesk g)\<lparr>scr_w := w, scr_h := h, trash_x := tx, trash_y := ty\<rparr>, menu_y := my\<rparr>)"
proof -
  let ?d = "(gdesk g)\<lparr>scr_w := w, scr_h := h, trash_x := tx, trash_y := ty\<rparr>"
  consider "fresh_gui \<alpha> R g" | "gui_safe \<alpha> (w, h) R g" using assms(1) by (auto simp: ready_def)
  then show ?thesis
  proof cases
    case 1
    note f = 1 [unfolded fresh_gui_def gui_heap_def]
    have "desk_ok (w, h) ?d" using f assms(2,3) by (simp add: desk_ok_def on_desktop_def large_screen_def)
    then have "owns gui_owned (gui_sane \<alpha> (w, h)) R [] (?d, gfs g)" using f by (simp add: owns_def gui_sane_def gui_owned_def)
    moreover have "all_ptrs (gwm g) (eds g) 0 = []" using f by (simp add: all_ptrs_def ptrs_of_def)
    ultimately show ?thesis using f by (simp add: gui_safe_def safe_def)
  next
    case 2
    have "desk_ok (w, h) (gdesk g)" using gui_safe_good [OF 2] by simp
    then have "desk_ok (w, h) ?d" by (auto simp: desk_ok_def on_desktop_def large_screen_def in_desk_def)
    from safe_desk [OF 2 this] show ?thesis by simp
  qed
qed

lemma safe_take_bg:
  assumes "gui_safe \<alpha> wh R g" "unat bufsz \<le> max_request"
  shows "gui_safe \<alpha> wh R (take_bg_layer bufsz g)"
proof (cases "bg_layer g = 0")
  case True
  obtain p h where a: "heap_alloc bufsz (fs_heap (gfs g)) = (p, h)" by (rule prod.exhaust)
  note sg = assms(1) [unfolded gui_safe_def]
  note o1 = owns_heap [OF safeD(6) [OF sg] a assms(2)]
  have "owns gui_owned (gui_sane \<alpha> wh) R (all_ptrs (gwm g) (eds g) p) (gdesk g, (gfs g)\<lparr>fs_heap := h\<rparr>)"
  proof (cases "p = 0")
    case False
    then have "mset (all_ptrs (gwm g) (eds g) p) = mset (p # all_ptrs (gwm g) (eds g) (bg_layer g))"
      using True by (simp add: all_ptrs_def)
    note m = this
    show ?thesis unfolding owns_perm [OF m] using o1 False by simp
  qed (use o1 True in simp)
  then have "safe \<alpha> wh R (gwm g) (gdesk g) ((gfs g)\<lparr>fs_heap := h\<rparr>) (eds g) p" using sg by (simp add: safe_def)
  then show ?thesis using True a by (simp add: take_bg_layer_def gui_heap_def with_heap_def gui_safe_def)
qed (use assms in \<open>simp add: take_bg_layer_def\<close>)

lemma safe_enter:
  assumes "drives bus \<alpha>" "ready \<alpha> (w, h) R g" "112 \<le> w" "124 \<le> h" "unat bufsz \<le> max_request"
  shows "gui_safe \<alpha> (w, h) R (gui_enter bus bufsz w h g)"
proof -
  define g1 where "g1 = take_bg_layer bufsz (g\<lparr>gdesk := (gdesk g)\<lparr>scr_w := w, scr_h := h,
     trash_x := w - ICON_CELL_W - ICON_MARGIN, trash_y := h - TASKBAR_H - ICON_CELL_H - 12\<rparr>, menu_y := h - TASKBAR_H - MENU_H - 10\<rparr>)"
  have g1: "gui_safe \<alpha> (w, h) R g1" unfolding g1_def by (rule safe_take_bg [OF ready_screen [OF assms(2-4)] assms(5)])
  let ?d = "(gdesk g1)\<lparr>trash_dragging := False\<rparr>"
  have "desk_ok (w, h) ?d" using gui_safe_good [OF g1] by simp
  from safe_refresh [OF assms(1)] safe_desk [OF g1 this]
  have "gui_safe \<alpha> (w, h) R (gui_refresh bus (g1\<lparr>gdesk := ?d, band_on := False, icon_dragging := False, icon_armed := None,
      trash_armed := False, menu_open := False\<rparr>))" by simp
  then show ?thesis unfolding gui_enter_def g1_def [symmetric] Let_def by simp
qed

lemma safe_run:
  assumes "drives bus \<alpha>" "ready \<alpha> (w, h) R g" "112 \<le> w" "124 \<le> h" "unat bufsz \<le> max_request"
  shows "gui_safe \<alpha> (w, h) R (gui_run bus mm now bufsz w h evs g)"
  using safe_events [OF assms(1) safe_enter [OF assms]] by (simp add: gui_run_def)

text \<open>What a safe state is, spelt out.\<close>

lemma gui_safe_means:
  assumes "gui_safe \<alpha> wh R g"
  shows "wm_ok (gwm g) \<and> on_desktop (gdesk g) \<and> fs_good \<alpha> (gfs g) \<and> heap_sane (gui_heap g) \<and>
    (\<forall>i < MAX_WINDOWS. let w = wins (gwm g) i
       in window.used w \<and> Some Editor \<in> {draw w, click w, key w, on_close w} \<longrightarrow> i \<in> set (ed_windows (gwm g))) \<and>
    (\<forall>i \<in> set (ed_windows (gwm g)). let u = user (wins (gwm g) i)
       in u \<noteq> 0 \<and> ed_ptr (eds g u) = u \<and> ed_ok max_request (eds g u)) \<and>
    (let ps = all_ptrs (gwm g) (eds g) (bg_layer g)
     in distinct ps \<and> set ps \<inter> R = {} \<and> heap_owned (gui_heap g) = R \<union> set ps \<and>
        (ed_windows (gwm g) = [] \<longrightarrow> set ps \<subseteq> {bg_layer g}))"
proof -
  note s = safeD [OF assms [unfolded gui_safe_def]]
  have u: "user (wins (gwm g) i) \<noteq> 0" if "i \<in> set (ed_windows (gwm g))" for i
  proof -
    have "user (wins (gwm g) i) \<in> gui_owned (gdesk g, gfs g)"
      using s(6) s(7) [OF that] unfolding owns_pick [OF that] by (auto simp: owns_def ed_ptrs_def)
    then show ?thesis using kheap.owned_nonzero [OF s(4)] by (auto simp: gui_owned_def)
  qed
  have "ed_windows (gwm g) = [] \<Longrightarrow> set (all_ptrs (gwm g) (eds g) (bg_layer g)) \<subseteq> {bg_layer g}"
    by (auto simp: all_ptrs_def ptrs_of_def split: if_splits)
  moreover have "on_desktop (gdesk g)" using s(2) by (simp add: desk_ok_def)
  moreover have "let w = wins (gwm g) i in window.used w \<and> Some Editor \<in> {draw w, click w, key w, on_close w} \<longrightarrow>
      i \<in> set (ed_windows (gwm g))" if "i < MAX_WINDOWS" for i
    using s(5) [OF that] that by (auto simp: Let_def roles_ok_def ed_windows_def is_ed_def)
  ultimately show ?thesis
    using s(1-4) s(6) s(7) u by (simp add: owns_def gui_owned_def gui_heap_def Let_def)
qed

text \<open>C9: no history of the desktop loses or damages memory. Whatever events arrive after it is entered,
  for the first time or again, on any conforming drive: the window stack, the icons and the volume satisfy
  their invariants; a window that calls an editor's handler is an editor window, and every
  editor window has the editor it was opened with, its cursor inside its buffer and its buffer as large as its capacity; and the live blocks of the kernel heap are exactly the blocks
  \<open>R\<close> of everybody else and, each once, the wallpaper and the structure, the buffer and the undo
  snapshots of each open editor. So nothing leaks, nothing is freed twice or while it is used, and
  with no editor open the heap is back to what it was. The state left behind can be entered again.\<close>
theorem desktop_history_safe:
  assumes "drives bus \<alpha>" "ready \<alpha> (w, h) R g" "112 \<le> w" "124 \<le> h" "unat bufsz \<le> max_request"
    and "gui_run bus mm now bufsz w h evs g = g'"
  shows "wm_ok (gwm g') \<and> on_desktop (gdesk g') \<and> fs_good \<alpha> (gfs g') \<and> heap_sane (gui_heap g') \<and>
    (\<forall>i < MAX_WINDOWS. let w = wins (gwm g') i
       in window.used w \<and> Some Editor \<in> {draw w, click w, key w, on_close w} \<longrightarrow> i \<in> set (ed_windows (gwm g'))) \<and>
    (\<forall>i \<in> set (ed_windows (gwm g')). let u = user (wins (gwm g') i)
       in u \<noteq> 0 \<and> ed_ptr (eds g' u) = u \<and> ed_ok max_request (eds g' u)) \<and>
    (let ps = all_ptrs (gwm g') (eds g') (bg_layer g')
     in distinct ps \<and> set ps \<inter> R = {} \<and> heap_owned (gui_heap g') = R \<union> set ps \<and>
        (ed_windows (gwm g') = [] \<longrightarrow> set ps \<subseteq> {bg_layer g'})) \<and>
    ready \<alpha> (w, h) R g'"
proof -
  have "gui_safe \<alpha> (w, h) R g'" using safe_run [OF assms(1-5)] unfolding assms(6) [symmetric] .
  then show ?thesis using gui_safe_means by (simp add: ready_def)
qed

subsection \<open>An example\<close>

definition boot_gui :: "drive gui" where
  "boot_gui = \<lparr>gwm = no_windows, gdesk = small_desk\<lparr>icons := []\<rparr>,
     gfs = small_fs\<lparr>fs_heap := heap_bss (paging_bss (pmm_init boot_low pmm_bss))\<rparr>, eds = (\<lambda>_. small_editor),
     bg_layer = 0, stagger = 0, dragging = None, drag_dx = 0, drag_dy = 0, band_on = False, band_ax = 0, band_ay = 0,
     band_x = 0, band_y = 0, icon_armed = None, icon_dragging = False, trash_armed = False, trash_grab_dx = 0,
     trash_grab_dy = 0, press_x = 0, press_y = 0, mouse_x = 0, mouse_y = 0, click_target = - 99, click_tick = 0,
     menu_open = False, menu_y = 0, running = False, power = None\<rparr>"

lemma boot_gui_fresh: "fresh_gui id {} boot_gui"
proof -
  let ?h = "heap_bss (paging_bss (pmm_init boot_low pmm_bss))"
  have "pmm_inv (pg_pmm (heap_pg ?h))" using pmm_init_inv by (simp add: heap_bss_def paging_bss_def)
  moreover have "spent ?h < 700000000"
    by (simp add: spent_def heap_bss_def paging_bss_def card_avail_frames boot_low_free)
  ultimately have "heap_sane ?h" using heap_bss_inv by (auto simp: heap_sane_def max_request_def)
  moreover have "heap_owned ?h = {}" by (simp add: heap_owned_eq [OF heap_bss_inv] live_def)
  moreover have "fs_good id (gfs boot_gui)"
    using small_fs_drive small_fs_inv by (simp add: boot_gui_def) (simp add: fs_good_def)
  moreover have "ed_windows no_windows = []" "roles_ok (wins no_windows i)" for i
    by (simp_all add: ed_windows_def no_windows_def zero_window_def is_ed_def roles_ok_def)
  ultimately show ?thesis using no_windows_ok by (simp add: fresh_gui_def boot_gui_def gui_heap_def)
qed

text \<open>A press on the paw orb, one on "Text Editor", and the key \<open>a\<close>.\<close>

definition three_events :: "event list" where
  "three_events = [\<lparr>ev_type = EV_MOUSE_BUTTON, ev_ch = 0, ev_button = 0, ev_pressed = 1, ev_x = 22, ev_y = 750\<rparr>,
     \<lparr>ev_type = EV_MOUSE_BUTTON, ev_ch = 0, ev_button = 0, ev_pressed = 1, ev_x = 60, ev_y = 510\<rparr>,
     \<lparr>ev_type = EV_KEY, ev_ch = 97, ev_button = 0, ev_pressed = 0, ev_x = 0, ev_y = 0\<rparr>]"

lemma desktop_history_safe_witness:
  "let g' = gui_run drive_bus (\<lambda>_. 0) (\<lambda>_ _. 0) 3145728 1024 768 three_events boot_gui; ps = all_ptrs (gwm g') (eds g') (bg_layer g')
   in wm_ok (gwm g') \<and> distinct ps \<and> heap_owned (gui_heap g') = set ps"
proof -
  have "unat (3145728 :: u32) \<le> max_request" by (simp add: max_request_def)
  moreover have "ready id (1024, 768) {} boot_gui" using boot_gui_fresh by (simp add: ready_def)
  ultimately show ?thesis
    using desktop_history_safe [OF drive_bus_drives _ _ _ _ refl, of 1024 768 "{}" boot_gui 3145728 "\<lambda>_. 0" "\<lambda>_ _. 0" three_events]
    by (simp add: Let_def)
qed

end
