(* ===== verification/Gui_Screen.thy ===== *)
theory Gui_Screen
  imports Gui_Draw Gui_History Fb_Shapes Fb_Screen
begin

text \<open>
  The compositor's contract. Every drawing of \<open>kernel/gui.c\<close> is shown to stay inside the
  backbuffer and to be blind to the real screen; the proofs are syntax-directed, by the rules collected
  in \<open>pictures\<close>. From this: a composed frame always comes, the screen then shows exactly the
  backbuffer under the pointer, nothing else in memory has changed, and the frame depends on the
  state of the desktop only, not on what the two buffers held before.
\<close>

named_theorems pictures "drawings that stay in the backbuffer and do not look at the screen"

subsection \<open>Pictures\<close>

definition canvas :: "framebuffer \<Rightarrow> bool" where
  "canvas f \<longleftrightarrow> drawable f \<and> above_font (backbuf f) \<and> above_font (lfb f)"

definition off :: "framebuffer \<Rightarrow> u32 \<Rightarrow> u32 \<Rightarrow> bool" where
  "off f base a \<longleftrightarrow> unat a < unat base \<or> unat base + buffer_bytes f \<le> unat a"

definition back_only :: "framebuffer \<Rightarrow> mem \<Rightarrow> mem \<Rightarrow> bool" where
  "back_only f m m' \<longleftrightarrow> (\<forall>a. off f (backbuf f) a \<longrightarrow> m' a = m a)"

definition picture :: "framebuffer \<Rightarrow> (mem \<Rightarrow> mem) \<Rightarrow> bool" where
  "picture f p \<longleftrightarrow> (\<forall>m. back_only f m (p m)) \<and> (\<forall>m m'. screen_only f m m' \<longrightarrow> screen_only f (p m) (p m'))"

definition drawing :: "framebuffer \<Rightarrow> (mem \<Rightarrow> mem option) \<Rightarrow> bool" where
  "drawing f q \<longleftrightarrow> (\<forall>m. \<exists>m1. q m = Some m1 \<and> back_only f m m1) \<and>
     (\<forall>m m' m1 m1'. screen_only f m m' \<longrightarrow> q m = Some m1 \<longrightarrow> q m' = Some m1' \<longrightarrow> screen_only f m1 m1')"

lemma drawing_back: "drawing f q \<Longrightarrow> \<exists>m1. q m = Some m1 \<and> back_only f m m1"
  by (simp add: drawing_def)

lemma drawing_blind:
  assumes "drawing f q" "screen_only f m m'" "q m = Some m1" "q m' = Some m1'"
  shows "screen_only f m1 m1'"
  using assms(1) [unfolded drawing_def, THEN conjunct2, rule_format, OF assms(2-4)] .

lemma picture_back: "picture f p \<Longrightarrow> back_only f m (p m)"
  and picture_blind: "picture f p \<Longrightarrow> screen_only f m m' \<Longrightarrow> screen_only f (p m) (p m')"
  by (simp_all add: picture_def)

lemma canvasD:
  assumes "canvas f"
  shows "drawable f" "buffered f" "sprite_ok f" "surface f (target f)" "surface f (backbuf f)" "surface f (lfb f)"
    "target f = backbuf f" "above_font (backbuf f)" "above_font (lfb f)" "above_font (target f)" "backbuf f \<noteq> 0"
  using assms drawableD [of f] by (simp_all add: canvas_def buffered_def)

lemma screen_only_off: "screen_only f m m' \<longleftrightarrow> (\<forall>a. off f (lfb f) a \<longrightarrow> m' a = m a)"
  by (simp add: screen_only_def off_def)

lemma back_only_trans: "back_only f m m1 \<Longrightarrow> back_only f m1 m2 \<Longrightarrow> back_only f m m2"
  by (simp add: back_only_def)

lemma back_only_refl [simp]: "back_only f m m"
  by (simp add: back_only_def)

lemma touches_back_only: "canvas f \<Longrightarrow> touches f (target f) A m m' \<Longrightarrow> back_only f m m'"
  using touches_outside [of f "backbuf f" A m m'] by (simp add: canvasD back_only_def off_def)

lemma picture_id [pictures]: "picture f (\<lambda>m. m)"
  by (simp add: picture_def)

lemma picture_cong: "(\<And>m. p m = q m) \<Longrightarrow> picture f q \<Longrightarrow> picture f p"
  unfolding picture_def by simp

lemma picture_comp: "picture f p \<Longrightarrow> picture f q \<Longrightarrow> picture f (\<lambda>m. q (p m))"
  unfolding picture_def using back_only_trans by blast

lemma picture_if [pictures]: "picture f p \<Longrightarrow> picture f q \<Longrightarrow> picture f (\<lambda>m. if c then p m else q m)"
  by (cases c) simp_all

lemma picture_If [pictures]: "picture f p \<Longrightarrow> picture f q \<Longrightarrow> picture f (if c then p else q)"
  by simp

lemma picture_fold [pictures]: "(\<And>x. x \<in> set xs \<Longrightarrow> picture f (g x)) \<Longrightarrow> picture f (\<lambda>m. fold g xs m)"
proof (induction xs)
  case Nil
  show ?case by (rule picture_cong [OF _ picture_id]) simp
next
  case (Cons x xs)
  have "picture f (\<lambda>m. fold g xs (g x m))" using Cons by (intro picture_comp [of f "g x" "\<lambda>m. fold g xs m"]) simp_all
  then show ?case by (rule picture_cong [rotated]) simp
qed

lemma picture_paint [pictures]: "list_all (picture f) ps \<Longrightarrow> picture f (\<lambda>m. paint ps m)"
  unfolding paint_def by (rule picture_fold) (simp add: list_all_iff)

lemma picture_for [pictures]: "(\<And>i. picture f (body i)) \<Longrightarrow> picture f (\<lambda>m. for_int a b body m)"
  unfolding for_int_def by (rule picture_fold)

lemma drawing_some [pictures]: "drawing f Some"
  by (simp add: drawing_def)

lemma drawing_ink [pictures]: "picture f p \<Longrightarrow> drawing f (ink p)"
  unfolding picture_def drawing_def ink_def by auto

lemma drawing_If [pictures]: "drawing f p \<Longrightarrow> drawing f q \<Longrightarrow> drawing f (if c then p else q)"
  by simp

lemma drawing_bind:
  assumes "drawing f p" "drawing f q"
  shows "drawing f (\<lambda>m. Option.bind (p m) q)"
  unfolding drawing_def
proof (intro conjI allI impI)
  fix m
  obtain m1 where m1: "p m = Some m1" "back_only f m m1" using drawing_back [OF assms(1)] by blast
  obtain m2 where "q m1 = Some m2" "back_only f m1 m2" using drawing_back [OF assms(2)] by blast
  with m1 show "\<exists>m2. Option.bind (p m) q = Some m2 \<and> back_only f m m2" using back_only_trans [OF m1(2)] by simp
next
  fix m m' m2 m2'
  assume s: "screen_only f m m'" and "Option.bind (p m) q = Some m2" "Option.bind (p m') q = Some m2'"
  then obtain m1 m1' where b: "p m = Some m1" "p m' = Some m1'" and q: "q m1 = Some m2" "q m1' = Some m2'"
    by (auto simp: bind_eq_Some_conv)
  show "screen_only f m2 m2'" by (rule drawing_blind [OF assms(2) drawing_blind [OF assms(1) s b] q])
qed

lemma drawing_sketch [pictures]: "list_all (drawing f) ps \<Longrightarrow> drawing f (sketch ps)"
proof (induction ps)
  case (Cons p ps)
  have e: "sketch (p # ps) = (\<lambda>m. Option.bind (p m) (sketch ps))" by (rule ext) simp
  show ?case unfolding e using Cons by (intro drawing_bind) simp_all
qed (simp add: drawing_def)

declare sketch.simps [simp del]

subsection \<open>The framebuffer's routines\<close>

lemma screen_only_write: "screen_only f m m' \<Longrightarrow> screen_only f (m(a := v)) (m'(a := v))"
  by (simp add: screen_only_def)

lemma screen_only_for:
  assumes "screen_only f m m'" "\<And>i m m'. a \<le> i \<Longrightarrow> i < b \<Longrightarrow> screen_only f m m' \<Longrightarrow> screen_only f (body i m) (body i m')"
  shows "screen_only f (for_int a b body m) (for_int a b body m')"
proof (cases "a \<le> b")
  case True
  then show ?thesis using assms
    by (induction b arbitrary: rule: int_ge_induct) (simp_all add: for_int_step)
qed (simp add: assms)

lemma pictureI:
  assumes "canvas f" "\<And>m. touches f (target f) UNIV m (p m)"
    "\<And>m m'. screen_only f m m' \<Longrightarrow> screen_only f (p m) (p m')"
  shows "picture f p"
  using assms touches_back_only [OF assms(1)] unfolding picture_def by blast

lemma touches_all: "touches f base A m m' \<Longrightarrow> touches f base UNIV m m'"
  by (rule touches_mono) simp_all

lemma screen_only_putpixel: "screen_only f m m' \<Longrightarrow> screen_only f (fb_putpixel f x y c m) (fb_putpixel f x y c m')"
  by (simp add: fb_putpixel_def put_bgr_def Let_def screen_only_write)

lemma picture_putpixel [pictures]: "canvas f \<Longrightarrow> picture f (\<lambda>m. fb_putpixel f x y c m)"
  by (rule pictureI) (auto intro: touches_all draws_touches draws_putpixel canvasD screen_only_putpixel)

lemma screen_only_fill_row:
  assumes "bypp f = 3 \<or> bypp f = 4" "screen_only f m m'" "0 \<le> w"
  shows "screen_only f (fill_row f p w c m) (fill_row f p w c m')"
  using assms row_pointer [OF assms(3)]
  by (auto simp: fill_row_def put_bgr_def store32_def intro!: screen_only_for screen_only_write)

lemma screen_only_fill_rect:
  assumes "canvas f" "screen_only f m m'"
  shows "screen_only f (fb_fill_rect f x y w h c m) (fb_fill_rect f x y w h c m')"
  using assms(2) canvasD(4) [OF assms(1)]
  by (auto simp: fb_fill_rect_def surface_def Let_def intro!: screen_only_for screen_only_fill_row split: prod.split)

lemma picture_fill_rect [pictures]: "canvas f \<Longrightarrow> picture f (\<lambda>m. fb_fill_rect f x y w h c m)"
  by (rule pictureI) (auto intro: touches_all draws_touches draws_fill_rect canvasD screen_only_fill_rect)

lemma screen_only_blend_pixel:
  assumes "canvas f" "screen_only f m m'"
  shows "screen_only f (fb_blend_pixel f x y c al m) (fb_blend_pixel f x y c al m')"
proof (cases "on_screen f (x, y) \<and> al \<noteq> 0")
  case False
  then show ?thesis using assms(2) by (auto simp: fb_blend_pixel_def on_screen_def)
next
  case True
  let ?a = "target f + pixel_offset f x y"
  have t: "target f = backbuf f" using assms(1) by (rule canvasD)
  have 3: "2 < unat (bypp f)" using bypp_values [OF canvasD(4) [OF assms(1)]] by auto
  have same: "m (?a + of_nat k) = m' (?a + of_nat k)" if "k < 3" for k
  proof -
    have "off f (lfb f) (?a + of_nat k)"
      using back_cell [OF canvasD(2) [OF assms(1)], of "(x, y)" k] True 3 that by (simp add: t pix_def off_def)
    then show ?thesis using assms(2) by (simp add: screen_only_off)
  qed
  show ?thesis
    using True assms(2) same [of 0] same [of 1] same [of 2]
    by (auto simp: fb_blend_pixel_def on_screen_def Let_def intro!: screen_only_write)
qed

lemma picture_blend_pixel [pictures]: "canvas f \<Longrightarrow> picture f (\<lambda>m. fb_blend_pixel f x y c al m)"
  by (rule pictureI) (auto intro: touches_all touches_blend_pixel canvasD screen_only_blend_pixel)

lemma picture_blend_rect [pictures]: "canvas f \<Longrightarrow> picture f (\<lambda>m. fb_blend_rect f x y w h c al m)"
  unfolding fb_blend_rect_def by (intro pictures)

lemma picture_fill_circle [pictures]: "canvas f \<Longrightarrow> picture f (\<lambda>m. fb_fill_circle f x y r c m)"
  unfolding fb_fill_circle_def Let_def by (intro pictures)

lemma picture_rounded_rect [pictures]: "canvas f \<Longrightarrow> picture f (\<lambda>m. fb_fill_rounded_rect f x y w h r c flags m)"
  unfolding fb_fill_rounded_rect_def Let_def
  by (intro picture_for picture_if picture_comp [OF picture_fill_rect] picture_comp [OF picture_blend_pixel]
      picture_blend_pixel picture_fill_rect)

lemma glyph_same:
  assumes "canvas f" "screen_only f m m'" "0 \<le> gy" "gy < FONT_H"
  shows "m' (font_glyph c + of_int gy) = m (font_glyph c + of_int gy)"
  using glyph_address [OF assms(3, 4) canvasD(9) [OF assms(1)]] assms(2) unfolding screen_only_def by blast

lemma picture_glyph [pictures]: "canvas f \<Longrightarrow> picture f (\<lambda>m. text_glyph f c ch x y m)"
proof (rule pictureI)
  assume c: "canvas f"
  show "touches f (target f) UNIV m (text_glyph f c ch x y m)" for m
    using c by (intro touches_all [OF draws_touches [OF draws_text_glyph]] canvasD)
  show "screen_only f (text_glyph f c ch x y m) (text_glyph f c ch x y m')" if "screen_only f m m'" for m m'
    unfolding text_glyph_def Let_def
    by (intro screen_only_for [OF that]) (simp add: glyph_same [OF c] screen_only_for screen_only_putpixel)
qed

lemma picture_text [pictures]: "canvas f \<Longrightarrow> picture f (\<lambda>m. fb_text f x y s c m)"
proof (induction s arbitrary: x)
  case Nil
  show ?case by (rule picture_cong [OF _ picture_id]) simp
next
  case (Cons ch s)
  from picture_comp [OF picture_glyph [of f c ch x y] Cons.IH [of "x + FONT_W"]] Cons.prems
  have "picture f (\<lambda>m. fb_text f (x + FONT_W) y s c (text_glyph f c ch x y m))" by simp
  then show ?case by (rule picture_cong [rotated]) simp
qed

lemma picture_scaled_glyph [pictures]: "canvas f \<Longrightarrow> picture f (\<lambda>m. scaled_glyph f c sc ch x y m)"
proof (rule pictureI)
  assume c: "canvas f"
  show "touches f (target f) UNIV m (scaled_glyph f c sc ch x y m)" for m
    unfolding scaled_glyph_def Let_def using c
    by (intro touches_for) (simp add: touches_all [OF draws_touches [OF draws_fill_rect [OF canvasD(4)]]])
  show "screen_only f (scaled_glyph f c sc ch x y m) (scaled_glyph f c sc ch x y m')" if "screen_only f m m'" for m m'
    unfolding scaled_glyph_def Let_def
    by (intro screen_only_for [OF that]) (simp add: glyph_same [OF c] screen_only_for screen_only_fill_rect [OF c])
qed

lemma picture_text_scaled [pictures]: "canvas f \<Longrightarrow> picture f (\<lambda>m. fb_text_scaled f x y s c sc m)"
proof (induction s arbitrary: x)
  case Nil
  show ?case by (rule picture_cong [OF _ picture_id]) simp
next
  case (Cons ch s)
  from picture_comp [OF picture_scaled_glyph [of f c sc ch x y] Cons.IH [of "x + FONT_W * sc"]] Cons.prems
  have "picture f (\<lambda>m. fb_text_scaled f (x + FONT_W * sc) y s c sc (scaled_glyph f c sc ch x y m))" by simp
  then show ?case by (rule picture_cong [rotated]) simp
qed

lemma line_loop_same:
  assumes "line_loop f c dx dy sx sy x1 y1 x y e m = Some m1" "line_loop f c dx dy sx sy x1 y1 x y e m' = Some m1'"
    "screen_only f m m'"
  shows "screen_only f m1 m1'"
proof -
  let ?P = "\<lambda>f c dx dy sx sy x1 y1 x y e m m1. \<forall>m' m1'.
    line_loop f c dx dy sx sy x1 y1 x y e m' = Some m1' \<longrightarrow> screen_only f m m' \<longrightarrow> screen_only f m1 m1'"
  have "?P f c dx dy sx sy x1 y1 x y e m m1"
  proof (rule line_loop.raw_induct [where P = ?P, OF _ assms(1)], intro allI impI)
    fix rec f c dx dy sx sy x1 y1 x y e m m1 m' m1'
    assume IH: "\<And>f c dx dy sx sy x1 y1 x y e m m1. rec f c dx dy sx sy x1 y1 x y e m = Some m1 \<Longrightarrow>
        ?P f c dx dy sx sy x1 y1 x y e m m1"
      and l: "(let m' = fb_putpixel f x y c m
        in if x = x1 \<and> y = y1 then Some m'
           else let e2 = e * 2; (err1, xn) = (if e2 > - dy then (e - dy, x + sx) else (e, x));
                    (err2, yn) = (if e2 < dx then (err1 + dx, y + sy) else (err1, y))
                in rec f c dx dy sx sy x1 y1 xn yn err2 m') = Some m1"
      and l': "line_loop f c dx dy sx sy x1 y1 x y e m' = Some m1'" and "screen_only f m m'"
    then have s: "screen_only f (fb_putpixel f x y c m) (fb_putpixel f x y c m')" by (simp add: screen_only_putpixel)
    have IH': "screen_only f m1 m1'" if "rec f c dx dy sx sy x1 y1 x y e m = Some m1"
      "line_loop f c dx dy sx sy x1 y1 x y e m' = Some m1'" "screen_only f m m'"
      for f c dx dy sx sy x1 y1 x y e m m1 m' m1' using IH that by blast
    note l'' = l' [unfolded line_loop.simps [of f c dx dy sx sy x1 y1 x y e m']]
    show "screen_only f m1 m1'"
    proof (cases "x = x1 \<and> y = y1")
      case True
      then show ?thesis using l l'' s by simp
    next
      case False
      then show ?thesis
        using l l'' s by (cases "- dy < e * 2"; cases "e * 2 < dx") (auto simp: Let_def intro: IH')
    qed
  qed
  then show ?thesis using assms by blast
qed

lemma drawing_line [pictures]: "canvas f \<Longrightarrow> drawing f (\<lambda>m. fb_line f x0 y0 x1 y1 c m)"
  unfolding drawing_def
proof (intro conjI allI impI)
  fix m
  assume "canvas f"
  then show "\<exists>m1. fb_line f x0 y0 x1 y1 c m = Some m1 \<and> back_only f m m1"
    using fb_line_draws [OF canvasD(4), of f x0 y0 x1 y1 c m] touches_back_only [OF _ draws_touches] by blast
qed (auto simp: fb_line_def Let_def intro: line_loop_same)

subsection \<open>The drawings of the desktop\<close>

lemma picture_shadowed [pictures]: "canvas f \<Longrightarrow> picture f (\<lambda>m. text_shadowed f x y s c m)"
  unfolding text_shadowed_def by (intro picture_comp [OF picture_text picture_text])

lemma picture_glow [pictures]: "canvas f \<Longrightarrow> picture f (\<lambda>m. glow f d cx cy r c al m)"
  unfolding glow_def Let_def by (intro pictures)

lemma picture_wallpaper [pictures]: "canvas f \<Longrightarrow> picture f (\<lambda>m. render_wallpaper f d m)"
  unfolding render_wallpaper_def Let_def by (auto intro!: pictures)

lemma picture_shadow [pictures]: "canvas f \<Longrightarrow> picture f (\<lambda>m. window_shadow f x y w h m)"
  unfolding window_shadow_def Let_def by (intro pictures)

lemma drawing_chrome [pictures]: "canvas f \<Longrightarrow> drawing f (\<lambda>m. window_chrome f w foc m)"
  unfolding window_chrome_def Let_def by (auto intro!: pictures)

lemma picture_panda [pictures]: "canvas f \<Longrightarrow> picture f (\<lambda>m. draw_panda f x y s m)"
  unfolding draw_panda_def Let_def by (auto intro!: pictures)

lemma picture_welcome [pictures]: "canvas f \<Longrightarrow> picture f (\<lambda>m. welcome_draw f w m)"
  unfolding welcome_draw_def Let_def by (auto intro!: pictures)

lemma picture_about [pictures]: "canvas f \<Longrightarrow> picture f (\<lambda>m. about_draw f w m)"
  unfolding about_draw_def Let_def by (auto intro!: pictures)

lemma picture_lines [pictures]: "canvas f \<Longrightarrow> picture f (\<lambda>m. draw_lines f e tx ty cols rows i m)"
proof (induction rows arbitrary: ty i)
  case 0
  show ?case by (rule picture_cong [OF _ picture_id]) simp
next
  case (Suc rows)
  then show ?case unfolding draw_lines.simps Let_def by (intro pictures picture_comp [OF picture_text Suc.IH])
qed

lemma picture_editor [pictures]: "canvas f \<Longrightarrow> picture f (\<lambda>m. editor_picture f w e m)"
  unfolding editor_picture_def Let_def case_prod_beta by (auto intro!: pictures)

lemma picture_doc_glyph [pictures]: "canvas f \<Longrightarrow> picture f (\<lambda>m. draw_doc_glyph f x y al m)"
  unfolding draw_doc_glyph_def by (auto intro!: pictures)

lemma picture_icon_label [pictures]: "canvas f \<Longrightarrow> picture f (\<lambda>m. draw_icon_label f x y name c m)"
  unfolding draw_icon_label_def Let_def by (intro pictures)

lemma picture_trash_icon [pictures]: "canvas f \<Longrightarrow> picture f (\<lambda>m. draw_trash_icon f d st hot m)"
  unfolding draw_trash_icon_def Let_def by (auto intro!: pictures)

lemma picture_icon [pictures]: "canvas f \<Longrightarrow> picture f (\<lambda>m. draw_icon f ic m)"
  unfolding draw_icon_def Let_def by (auto intro!: pictures)

lemma picture_desktop_icons [pictures]: "canvas f \<Longrightarrow> picture f (\<lambda>m. draw_desktop_icons f g m)"
  unfolding draw_desktop_icons_def Let_def by (intro picture_comp [OF picture_fold picture_trash_icon] picture_icon)

lemma picture_band [pictures]: "canvas f \<Longrightarrow> picture f (\<lambda>m. draw_band f ax ay bx yb m)"
  unfolding draw_band_def Let_def by (auto intro!: pictures)

lemma picture_ghost [pictures]: "canvas f \<Longrightarrow> picture f (\<lambda>m. draw_drag_ghost f g m)"
  unfolding draw_drag_ghost_def Let_def case_prod_beta by (intro pictures)

lemma drawing_menu_glyph [pictures]: "canvas f \<Longrightarrow> drawing f (\<lambda>m. menu_glyph f mi gx gy c bg m)"
  unfolding menu_glyph_def glyph_paw_def glyph_pencil_def glyph_gauge_def glyph_trash_def glyph_info_def
    glyph_restart_def glyph_power_def
  by (cases mi) (auto intro!: pictures)

lemma drawing_menu_row [pictures]: "canvas f \<Longrightarrow> drawing f (\<lambda>m. menu_row f mx my hover row m)"
  unfolding menu_row_def Let_def case_prod_beta by (auto intro!: pictures)

lemma drawing_menu [pictures]: "canvas f \<Longrightarrow> drawing f (\<lambda>m. draw_menu f slide g m)"
  unfolding draw_menu_def Let_def by (auto simp: list_all_iff intro!: pictures)

lemma picture_buttons [pictures]: "canvas f \<Longrightarrow> picture f (\<lambda>m. taskbar_buttons f sh s slot is m)"
proof (induction "is" arbitrary: slot)
  case Nil
  show ?case by (rule picture_cong [OF _ picture_id]) simp
next
  case (Cons i r)
  then show ?case
    unfolding taskbar_buttons.simps Let_def case_prod_beta
    by (auto intro!: pictures picture_comp [OF picture_paint Cons.IH])
qed

lemma picture_taskbar [pictures]: "canvas f \<Longrightarrow> picture f (\<lambda>m. draw_taskbar f fr g m)"
  unfolding draw_taskbar_def Let_def by (auto intro!: pictures)

subsection \<open>The windows\<close>

text \<open>What drawing a window does to the state, and the picture it leaves.\<close>

definition scrolled :: "window \<Rightarrow> 'd gui \<Rightarrow> 'd gui" where
  "scrolled w g = (if draw w = Some Editor
     then (let (tx, ty, rows, cols) = ed_metrics w; u = user w
           in g\<lparr>eds := (eds g)(u := ed_scroll_into_view rows cols (eds g u))\<rparr>)
     else g)"

definition app_picture :: "framebuffer \<Rightarrow> frame \<Rightarrow> 'd gui \<Rightarrow> window \<Rightarrow> mem \<Rightarrow> mem option" where
  "app_picture f fr g w =
     (case draw w of
        None \<Rightarrow> Some
      | Some Welcome \<Rightarrow> ink (welcome_draw f w)
      | Some Sysinfo \<Rightarrow> sysinfo_draw f fr (gfs g) w
      | Some About \<Rightarrow> ink (about_draw f w)
      | Some Editor \<Rightarrow> ink (editor_picture f w (eds (scrolled w g) (user w)))
      | Some Trash_Win \<Rightarrow> ink (trash_win_draw f (gfs g) w))"

lemma draw_window_split:
  "draw_window f fr w foc (g, m) =
     map_option (Pair (scrolled w g)) (Option.bind (window_chrome f w foc m) (app_picture f fr g w))"
proof (cases "draw w")
  case (Some a)
  then show ?thesis
    by (cases a; cases "ed_metrics w")
      (simp_all add: draw_window_def app_picture_def scrolled_def ink_def editor_draw_def Let_def split: option.split)
qed (simp add: draw_window_def app_picture_def scrolled_def split: option.split)

definition stat_walk :: "'d gui \<Rightarrow> bool" where
  "stat_walk g \<longleftrightarrow> heap_used_bytes (gui_heap g) \<noteq> None"

lemma sane_stat_walk: "heap_sane (gui_heap g) \<Longrightarrow> stat_walk g"
proof -
  assume "heap_sane (gui_heap g)"
  then obtain as where i: "heap_inv (gui_heap g) as" by (auto simp: heap_sane_def)
  have "chain (blocks (gui_heap g)) (heap_head (gui_heap g)) as"
    "tiled (blocks (gui_heap g)) 0xD0000000 as (0xD0000000 + unat (heap_mapped (gui_heap g)))"
    "0xD0000000 + unat (heap_mapped (gui_heap g)) < 4294967296"
    using i by (simp_all add: heap_inv_def)
  with used_from_correct [of "blocks (gui_heap g)" "heap_head (gui_heap g)" as "0xD0000000"
      "0xD0000000 + unat (heap_mapped (gui_heap g))" 0]
  show ?thesis by (auto simp: stat_walk_def heap_used_bytes_def)
qed

lemma drawing_sysinfo: "canvas f \<Longrightarrow> stat_walk g \<Longrightarrow> drawing f (sysinfo_draw f fr (gfs g) w)"
proof -
  assume c: "canvas f" and s: "stat_walk g"
  then obtain n where n: "heap_used_bytes (fs_heap (gfs g)) = Some n" by (auto simp: stat_walk_def gui_heap_def)
  show ?thesis
    using c unfolding sysinfo_draw_def n option.case Let_def
    by (intro drawing_ink [unfolded ink_def]) (auto intro!: pictures)
qed

lemma picture_trash_lines: "canvas f \<Longrightarrow> picture f (\<lambda>m. snd (trash_lines f w st is rows m)) \<and>
    (\<forall>m m'. fst (trash_lines f w st is rows m) = fst (trash_lines f w st is rows m'))"
proof (induction "is" arbitrary: rows)
  case Nil
  show ?case by (simp add: picture_id)
next
  case (Cons i r)
  note IH = Cons.IH [OF Cons.prems]
  show ?case
  proof (cases "rows \<ge> TRASH_ROWS_MAX \<or> (\<forall>name sz. fs_dir_get (int i) st = Some (name, sz) \<longrightarrow> name ! 0 \<noteq> TRASH_CH)")
    case True
    then have e: "trash_lines f w st (i # r) rows m = (if TRASH_ROWS_MAX \<le> rows then (rows, m) else trash_lines f w st r rows m)" for m
      by (auto split: option.split)
    show ?thesis unfolding e using IH by (cases "TRASH_ROWS_MAX \<le> rows") (simp_all add: picture_id)
  next
    case False
    then obtain name sz where d: "fs_dir_get (int i) st = Some (name, sz)" "name ! 0 = TRASH_CH" "\<not> rows \<ge> TRASH_ROWS_MAX"
      by blast
    let ?x = "win_x w + 22" and ?y = "win_y w + TITLE_H + 12" and ?b = "app_str (app_int [] sz) (ascii '' B'')"
    let ?ps = "[fb_fill_rect f ?x (?y + rows * 22 + 3) 8 10 COL_ICON_PAGE,
      fb_text f (?x + 16) (?y + rows * 22) (cstr (tl name)) COL_TEXT,
      fb_text f (win_x w + win_w w - 22 - int (length ?b) * FONT_W) (?y + rows * 22) ?b COL_TEXT_DIM]"
    have e: "trash_lines f w st (i # r) rows m = trash_lines f w st r (rows + 1) (paint ?ps m)" for m
      using d by (simp only: trash_lines.simps if_False option.case prod.case Let_def not_True_eq_False simp_thms)
    have "list_all (picture f) ?ps" using Cons.prems by (auto intro!: pictures)
    then show ?thesis
      unfolding e using picture_comp [OF picture_paint conjunct1 [OF IH]] conjunct2 [OF IH] by blast
  qed
qed

lemma picture_trash_win [pictures]: "canvas f \<Longrightarrow> picture f (\<lambda>m. trash_win_draw f st w m)"
proof -
  assume c: "canvas f"
  let ?l = "trash_lines f w st [0..<FS_DIR_ENTRIES] 0"
  obtain n where n: "\<And>m. fst (?l m) = n" using picture_trash_lines [OF c] by metis
  show ?thesis
    unfolding trash_win_draw_def Let_def case_prod_beta n
    by (intro picture_if picture_comp [OF conjunct1 [OF picture_trash_lines [OF c]]])
      (auto intro!: pictures c)
qed

lemma drawing_app: "canvas f \<Longrightarrow> stat_walk g \<Longrightarrow> drawing f (app_picture f fr g w)"
  unfolding app_picture_def by (auto intro!: pictures drawing_sysinfo split: option.split app.split)

definition seen :: "nat list \<Rightarrow> 'd gui \<Rightarrow> 'd gui" where
  "seen z g = fold (\<lambda>i g. let w = wins (gwm g) i in if window.used w \<and> visible w then scrolled w g else g) z g"

lemma scrolled_keeps [simp]:
  "gwm (scrolled w g) = gwm g" "gfs (scrolled w g) = gfs g" "gdesk (scrolled w g) = gdesk g"
  "bg_layer (scrolled w g) = bg_layer g"
  by (simp_all add: scrolled_def Let_def case_prod_beta)

lemma draw_windows_split:
  assumes "canvas f" "stat_walk g"
  shows "\<exists>q. drawing f q \<and> (\<forall>m. draw_windows f fr z (g, m) = map_option (Pair (seen z g)) (q m))"
  using assms(2)
proof (induction z arbitrary: g)
  case Nil
  show ?case by (intro exI [of _ Some]) (simp add: seen_def drawing_some)
next
  case (Cons i z)
  let ?w = "wins (gwm g) i"
  show ?case
  proof (cases "window.used ?w \<and> visible ?w")
    case False
    then have "draw_windows f fr (i # z) (g, m) = draw_windows f fr z (g, m)" "seen (i # z) g = seen z g" for m
      using False by (auto simp: seen_def Let_def)
    then show ?thesis using Cons.IH [OF Cons.prems] by simp
  next
    case True
    have "stat_walk (scrolled ?w g)" using Cons.prems by (simp add: stat_walk_def gui_heap_def)
    from Cons.IH [OF this] obtain q where
      q: "drawing f q" "\<And>m. draw_windows f fr z (scrolled ?w g, m) = map_option (Pair (seen z (scrolled ?w g))) (q m)" by blast
    let ?foc = "focused (gwm g) = Some i"
    define p where "p m = Option.bind (window_chrome f ?w ?foc m) (app_picture f fr g ?w)" for m
    have "drawing f p"
      unfolding p_def by (rule drawing_bind [OF drawing_chrome [OF assms(1)] drawing_app [OF assms(1) Cons.prems]])
    then have "drawing f (\<lambda>m. Option.bind (p m) q)" by (rule drawing_bind) (rule q(1))
    moreover have d: "draw_window f fr ?w ?foc (g, m) = map_option (Pair (scrolled ?w g)) (p m)" for m
      by (simp only: draw_window_split p_def)
    have "seen (i # z) g = seen z (scrolled ?w g)" using True by (simp add: seen_def Let_def)
    then have "draw_windows f fr (i # z) (g, m) = map_option (Pair (seen (i # z) g)) (Option.bind (p m) q)" for m
      using True by (cases "p m") (simp_all add: d q(2))
    ultimately show ?thesis by blast
  qed
qed

subsection \<open>Copying the wallpaper and flipping\<close>

lemma bytes_eq:
  assumes "canvas f"
  shows "unat (pitch f * of_int (framebuffer.scr_h f)) = buffer_bytes f"
proof -
  note s = canvasD(6) [OF assms]
  have "0 < unat (backbuf f)" using canvasD(11) [OF assms] by (simp add: unat_gt_0)
  then have "buffer_bytes f < 4294967296"
    using canvasD(5) [OF assms] by (simp add: surface_def buffer_bytes_def)
  moreover have "pitch f * of_int (framebuffer.scr_h f) = of_nat (buffer_bytes f)"
    using s by (simp add: buffer_bytes_def surface_def)
  ultimately show ?thesis by (simp only: unat_of_nat32)
qed

lemma off_distance:
  assumes "surface f base"
  shows "off f base a \<longleftrightarrow> \<not> unat (a - base) < buffer_bytes f"
  using assms unat_lt32 [of a] by (auto simp: off_def unat_sub_if' surface_def buffer_bytes_def)

text \<open>A block of the size of a buffer, clear of both buffers.\<close>

definition layer_clear :: "framebuffer \<Rightarrow> u32 \<Rightarrow> bool" where
  "layer_clear f p \<longleftrightarrow> unat p + buffer_bytes f \<le> 4294967296 \<and>
     (\<forall>k < buffer_bytes f. off f (backbuf f) (p + of_nat k) \<and> off f (lfb f) (p + of_nat k))"

lemma layer_fwd_ok:
  assumes "canvas f" "layer_clear f p"
  shows "fwd_ok (backbuf f) p (buffer_bytes f)"
proof (rule ccontr)
  assume "\<not> ?thesis"
  then have n: "unat (backbuf f - p) < buffer_bytes f" by (simp add: fwd_ok_def)
  then have "off f (backbuf f) (p + of_nat (unat (backbuf f - p)))" using assms(2) unfolding layer_clear_def by blast
  then have "off f (backbuf f) (backbuf f)" by simp
  then show False using n by (simp add: off_def)
qed

lemma restore_copies:
  assumes "canvas f" "layer_clear f p"
  shows "fb_restore f p m = copy_bytes m (backbuf f) p (buffer_bytes f)"
  using memcpy_copies [of "backbuf f" p "pitch f * of_int (framebuffer.scr_h f)" m] layer_fwd_ok [OF assms] canvasD(11) [OF assms(1)]
  by (simp add: fb_restore_def bytes_eq [OF assms(1)])

definition same_elsewhere :: "framebuffer \<Rightarrow> mem \<Rightarrow> mem \<Rightarrow> bool" where
  "same_elsewhere f m m' \<longleftrightarrow> (\<forall>a. off f (backbuf f) a \<and> off f (lfb f) a \<longrightarrow> m' a = m a)"

lemma restore_back_only: "canvas f \<Longrightarrow> layer_clear f p \<Longrightarrow> back_only f m (fb_restore f p m)"
  by (simp add: restore_copies back_only_def copy_bytes_def off_distance [OF canvasD(5)])

lemma restore_forgets:
  assumes "canvas f" "layer_clear f p" "same_elsewhere f m m'"
  shows "screen_only f (fb_restore f p m) (fb_restore f p m')"
  unfolding screen_only_off
proof (intro allI impI)
  fix a assume a: "off f (lfb f) a"
  show "fb_restore f p m' a = fb_restore f p m a"
  proof (cases "unat (a - backbuf f) < buffer_bytes f")
    case True
    then have "off f (backbuf f) (p + of_nat (unat (a - backbuf f))) \<and> off f (lfb f) (p + of_nat (unat (a - backbuf f)))"
      using assms(2) unfolding layer_clear_def by blast
    then show ?thesis using True assms(3) by (simp add: restore_copies [OF assms(1,2)] copy_bytes_def same_elsewhere_def)
  next
    case False
    then have "off f (backbuf f) a" using off_distance [OF canvasD(5) [OF assms(1)]] by simp
    then show ?thesis using False a assms(3) by (simp add: restore_copies [OF assms(1,2)] copy_bytes_def same_elsewhere_def)
  qed
qed

lemma flip_forgets:
  assumes "canvas f" "screen_only f m m'"
  shows "fb_flip f m' = fb_flip f m"
proof -
  let ?n = "buffer_bytes f"
  have copy: "memcpy m (lfb f) (backbuf f) (pitch f * of_int (framebuffer.scr_h f)) = copy_bytes m (lfb f) (backbuf f) ?n" for m
    using memcpy_copies [of "lfb f" "backbuf f" "pitch f * of_int (framebuffer.scr_h f)" m]
      buffers_fwd_ok [OF canvasD(2) [OF assms(1)], of ?n 0] by (simp add: bytes_eq [OF assms(1)])
  have "copy_bytes m' (lfb f) (backbuf f) ?n a = copy_bytes m (lfb f) (backbuf f) ?n a" for a
  proof (cases "unat (a - lfb f) < ?n")
    case True
    let ?b = "backbuf f + (a - lfb f)"
    have "unat ?b = unat (backbuf f) + unat (a - lfb f)"
      using True canvasD(5,11) [OF assms(1)] by (intro unat_add32) (auto simp: surface_def buffer_bytes_def)
    then have "off f (lfb f) ?b" using True canvasD(2) [OF assms(1)] by (auto simp: off_def buffered_def)
    then show ?thesis using True assms(2) by (simp add: copy_bytes_def screen_only_off)
  next
    case False
    then have "off f (lfb f) a" using off_distance [OF canvasD(6) [OF assms(1)]] by simp
    then show ?thesis using False assms(2) by (simp add: copy_bytes_def screen_only_off)
  qed
  then have "copy_bytes m' (lfb f) (backbuf f) ?n = copy_bytes m (lfb f) (backbuf f) ?n" by (rule ext)
  then show ?thesis using canvasD(11) [OF assms(1)] by (simp add: fb_flip_def copy)
qed

lemma picture_backdrop:
  assumes "canvas f" "layer_clear f (bg_layer g)"
  shows "back_only f m (backdrop f g m)" "same_elsewhere f m m' \<Longrightarrow> screen_only f (backdrop f g m) (backdrop f g m')"
proof -
  define band where "band = (if band_on g then draw_band f (band_ax g) (band_ay g) (band_x g) (band_y g) else (\<lambda>m. m))"
  have "picture f band" unfolding band_def by (intro picture_If picture_band picture_id assms(1))
  then have p: "picture f (\<lambda>m. band (draw_desktop_icons f g m))" by (rule picture_comp [OF picture_desktop_icons [OF assms(1)]])
  have e: "backdrop f g m = band (draw_desktop_icons f g (fb_restore f (bg_layer g) m))" for m
    by (simp add: backdrop_def paint_def band_def)
  show "back_only f m (backdrop f g m)"
    unfolding e by (rule back_only_trans [OF restore_back_only [OF assms] picture_back [OF p]])
  show "same_elsewhere f m m' \<Longrightarrow> screen_only f (backdrop f g m) (backdrop f g m')"
    unfolding e by (rule picture_blind [OF p restore_forgets [OF assms]])
qed

definition front :: "framebuffer \<Rightarrow> frame \<Rightarrow> int \<Rightarrow> 'd gui \<Rightarrow> mem \<Rightarrow> mem option" where
  "front f fr slide g = sketch
     [ink (draw_taskbar f fr g),
      (if menu_open g then draw_menu f slide g else Some),
      (if icon_dragging g then ink (draw_drag_ghost f g) else Some)]"

lemma drawing_front: "canvas f \<Longrightarrow> drawing f (front f fr slide g)"
  unfolding front_def by (auto intro!: pictures)

lemma foreground_front: "foreground f fr slide g m = map_option (fb_flip f) (front f fr slide g m)"
proof -
  have "sketch (ps @ [ink p]) m = map_option p (sketch ps m)" for ps and p :: "mem \<Rightarrow> mem" and m
  proof (induction ps arbitrary: m)
    case (Cons q ps)
    then show ?case by (cases "q m") (simp_all add: sketch.simps)
  qed (simp add: sketch.simps ink_def)
  from this [of "[ink (draw_taskbar f fr g), _, _]"] show ?thesis by (simp add: foreground_def front_def)
qed

lemma composite_split:
  assumes "canvas f" "stat_walk g"
  shows "\<exists>q. drawing f q \<and> (\<forall>m. composite f fr slide (g, m) =
    map_option (\<lambda>m1. (seen (zorder (gwm g)) g, fb_flip f m1)) (q (backdrop f g m)))"
proof -
  let ?g = "seen (zorder (gwm g)) g"
  obtain q where q: "drawing f q"
      "\<And>m. draw_windows f fr (zorder (gwm g)) (g, m) = map_option (Pair ?g) (q m)"
    using draw_windows_split [OF assms] by blast
  have "composite f fr slide (g, m) =
      map_option (\<lambda>m1. (?g, fb_flip f m1)) (Option.bind (q (backdrop f g m)) (front f fr slide ?g))" for m
    by (cases "q (backdrop f g m)") (simp_all add: composite_def q(2) foreground_front option.map_comp comp_def)
  then show ?thesis using drawing_bind [OF q(1) drawing_front [OF assms(1)]] by blast
qed

lemma composite_frame:
  assumes "canvas f" "stat_walk g" "layer_clear f (bg_layer g)"
  shows "\<exists>m1. composite f fr slide (g, m) = Some (seen (zorder (gwm g)) g, m1) \<and>
    screen_shows f m1 \<and> same_elsewhere f m m1 \<and>
    (\<forall>m'. same_elsewhere f m m' \<longrightarrow> composite f fr slide (g, m') = composite f fr slide (g, m))"
proof -
  obtain q where q: "drawing f q" "\<And>m. composite f fr slide (g, m) =
      map_option (\<lambda>m1. (seen (zorder (gwm g)) g, fb_flip f m1)) (q (backdrop f g m))"
    using composite_split [OF assms(1,2)] by blast
  obtain m1 where m1: "q (backdrop f g m) = Some m1" "back_only f (backdrop f g m) m1"
    using drawing_back [OF q(1)] by blast
  have "back_only f m m1" using back_only_trans [OF picture_backdrop(1) [OF assms(1,3)] m1(2)] .
  moreover have "screen_only f m1 (fb_flip f m1)" by (rule fb_flip_shows(1) [OF canvasD(2,3) [OF assms(1)]])
  ultimately have "same_elsewhere f m (fb_flip f m1)" by (simp add: same_elsewhere_def back_only_def screen_only_off)
  moreover have "screen_shows f (fb_flip f m1)" by (rule flip_screen_shows [OF canvasD(2,3) [OF assms(1)]])
  moreover have "composite f fr slide (g, m') = composite f fr slide (g, m)" if s: "same_elsewhere f m m'" for m'
  proof -
    obtain m1' where m1': "q (backdrop f g m') = Some m1'" using drawing_back [OF q(1)] by blast
    have "screen_only f m1 m1'" by (rule drawing_blind [OF q(1) picture_backdrop(2) [OF assms(1,3) s] m1(1) m1'])
    then show ?thesis by (simp add: q(2) m1(1) m1' flip_forgets [OF assms(1)])
  qed
  ultimately show ?thesis by (simp add: q(2) m1(1))
qed

subsection \<open>The wallpaper block stays\<close>

named_theorems bg_keeps "operations that leave the wallpaper block alone"

lemma with_heap_bg [bg_keeps]: "bg_layer (with_heap h g) = bg_layer g"
  by (simp add: with_heap_def)

lemma refresh_bg [bg_keeps]: "bg_layer (gui_refresh bus g) = bg_layer g"
  by (simp add: gui_refresh_def case_prod_beta)

lemma open_editor_bg [bg_keeps]: "bg_layer (open_editor bus mm name g) = bg_layer g"
  by (simp add: open_editor_def Let_def case_prod_beta bg_keeps split: option.split)

lemma untitled_bg: "bg_layer (snd (untitled_from bus is g name)) = bg_layer g"
  by (induction "is" arbitrary: g name) (simp_all add: Let_def case_prod_beta)

lemma open_new_bg [bg_keeps]: "bg_layer (open_new_file bus mm g) = bg_layer g"
  by (simp add: open_new_file_def case_prod_beta bg_keeps untitled_bg)

lemma key_to_bg [bg_keeps]: "bg_layer (editor_key_to bus mm now i ch g) = bg_layer g"
  by (simp add: editor_key_to_def Let_def case_prod_beta)

lemma close_bg [bg_keeps]: "bg_layer (gui_close bus mm i g) = bg_layer g"
  by (simp add: gui_close_def Let_def case_prod_beta)

lemma trash_click_bg [bg_keeps]: "bg_layer (trash_win_click bus w mx my g) = bg_layer g"
  by (simp add: trash_win_click_def Let_def bg_keeps split: option.split)

lemma menu_click_bg [bg_keeps]: "bg_layer (menu_click bus mm mx my g) = bg_layer g"
  by (simp add: menu_click_def menu_choose_def bg_keeps split: option.split menu_id.split)

lemma double_bg [bg_keeps]: "bg_layer (snd (is_double now tgt g)) = bg_layer g"
  by (simp add: is_double_def)

lemma taskbar_down_bg [bg_keeps]: "bg_layer (snd (taskbar_down mx my g)) = bg_layer g"
  by (simp add: taskbar_down_def Let_def split: option.split)

lemma window_down_bg [bg_keeps]: "bg_layer (window_down bus mm p mx my g) = bg_layer g"
  by (simp add: window_down_def body_click_def editor_click_to_def Let_def bg_keeps split: press.split option.split app.split)

lemma down_bg [bg_keeps]: "bg_layer (snd (handle_button_down bus mm now mx my g)) = bg_layer g"
  by (simp add: handle_button_down_def trash_down_def icon_down_def desktop_down_def Let_def case_prod_beta bg_keeps
      split: option.split)

lemma up_bg [bg_keeps]: "bg_layer (snd (handle_button_up bus mx my g)) = bg_layer g"
  by (simp add: handle_button_up_def drop_icons_def trash_selected_def gui_save_layout_def Let_def case_prod_beta bg_keeps)

lemma key_bg [bg_keeps]: "bg_layer (snd (handle_key bus mm now ch g)) = bg_layer g"
  by (simp add: handle_key_def trash_selected_def bg_keeps split: option.split)

lemma motion_bg [bg_keeps]: "bg_layer (snd (handle_motion x y g)) = bg_layer g"
  by (simp add: handle_motion_def trash_motion_def Let_def case_prod_beta split: option.split)

lemma events_bg: "bg_layer (snd (handle_events bus mm now evs g)) = bg_layer g"
  by (induction evs arbitrary: g now)
    (simp_all add: handle_event_def Let_def case_prod_beta bg_keeps split: event_type.split)

subsection \<open>Drawing keeps the desktop safe\<close>

lemma safe_scrolled:
  assumes "gui_safe \<alpha> wh R g"
  shows "gui_safe \<alpha> wh R (scrolled w g)"
proof (cases "draw w = Some Editor")
  case True
  obtain tx ty rows cols where em: "ed_metrics w = (tx, ty, rows, cols)" by (metis prod.exhaust)
  let ?u = "user w" and ?s = "gwm g"
  let ?e = "ed_scroll_into_view rows cols (eds g ?u)"
  note sg = assms [unfolded gui_safe_def]
  have "safe \<alpha> wh R ?s (gdesk g) (gfs g) ((eds g)(?u := ?e)) (bg_layer g)"
  proof (cases "\<exists>i \<in> set (ed_windows ?s). user (wins ?s i) = ?u")
    case True
    then obtain i where i: "i \<in> set (ed_windows ?s)" "?u = user (wins ?s i)" by auto
    obtain sl sc where "?e = (eds g ?u)\<lparr>scroll_line := sl, scroll_col := sc\<rparr>" using scroll_into_view_eq by blast
    then have "ed_ptr ?e = ed_ptr (eds g ?u)" by simp
    from safe_editor [OF sg i this moved_holds [OF _ moved_scroll_into_view]] show ?thesis .
  next
    case False
    then have ne: "user (wins ?s i) \<noteq> ?u" if "i \<in> set (ed_windows ?s)" for i using that by blast
    then have "ptrs_of ?s ((eds g)(?u := ?e)) (ed_windows ?s) = ptrs_of ?s (eds g) (ed_windows ?s)"
      by (auto simp: ptrs_of_def intro!: arg_cong [of _ _ concat])
    then show ?thesis using sg ne by (simp add: safe_def all_ptrs_def)
  qed
  then show ?thesis using True by (simp add: gui_safe_def scrolled_def em Let_def)
qed (simp add: scrolled_def assms)

lemma safe_seen: "gui_safe \<alpha> wh R g \<Longrightarrow> gui_safe \<alpha> wh R (seen z g)"
  by (induction z arbitrary: g) (simp_all add: seen_def Let_def safe_scrolled)

lemma seen_keeps [simp]: "gwm (seen z g) = gwm g" "gfs (seen z g) = gfs g" "bg_layer (seen z g) = bg_layer g"
  by (induction z arbitrary: g) (simp_all add: seen_def Let_def)

lemma safe_stat_walk: "gui_safe \<alpha> wh R g \<Longrightarrow> stat_walk g"
  using safeD(4) sane_stat_walk by (fastforce simp: gui_safe_def gui_heap_def)

lemma same_elsewhere_trans: "same_elsewhere f m m1 \<Longrightarrow> same_elsewhere f m1 m2 \<Longrightarrow> same_elsewhere f m m2"
  by (simp add: same_elsewhere_def)

lemma rounds_safe:
  assumes "drives bus \<alpha>" "canvas f" "gui_safe \<alpha> wh R g" "layer_clear f (bg_layer g)" "screen_shows f m"
  shows "\<exists>g' m'. gui_rounds bus mm now f fr rs (g, m) = Some (g', m') \<and> gui_safe \<alpha> wh R g' \<and> screen_shows f m' \<and>
    same_elsewhere f m m'"
  using assms(3-5)
proof (induction rs arbitrary: g m now fr)
  case (Cons evs rs)
  obtain dirty g1 where e: "handle_events bus mm (now 0) evs g = (dirty, g1)" by (rule prod.exhaust)
  have g1: "gui_safe \<alpha> wh R g1" "bg_layer g1 = bg_layer g"
    using safe_events [OF assms(1) Cons.prems(1), of mm "now 0" evs] events_bg [of bus mm "now 0" evs g] by (simp_all add: e)
  show ?case
  proof (cases "\<not> running g1 \<or> power g1 \<noteq> None")
    case True
    then show ?thesis using g1(1) Cons.prems(3) by (simp add: e same_elsewhere_def)
  next
    case False
    define step where "step = (if dirty then composite f (fr 0) 0 (g1, m) else Some (g1, m))"
    obtain g2 m2 where s: "step = Some (g2, m2)" and 2: "gui_safe \<alpha> wh R g2" "bg_layer g2 = bg_layer g" "screen_shows f m2"
        "same_elsewhere f m m2"
    proof (cases dirty)
      case True
      have "layer_clear f (bg_layer g1)" using Cons.prems(2) g1(2) by simp
      from composite_frame [OF assms(2) safe_stat_walk [OF g1(1)] this, of "fr 0" 0 m] that True show ?thesis
        using safe_seen [OF g1(1)] g1(2) by (auto simp: step_def)
    qed (use that g1 Cons.prems(3) in \<open>simp add: step_def same_elsewhere_def\<close>)
    have "layer_clear f (bg_layer g2)" using Cons.prems(2) 2(2) by simp
    from Cons.IH [OF 2(1) this 2(3)] obtain g' m' where
      r: "gui_rounds bus mm (\<lambda>n. now (Suc n)) f (\<lambda>n. fr (Suc n)) rs (g2, m2) = Some (g', m')"
        "gui_safe \<alpha> wh R g'" "screen_shows f m'" "same_elsewhere f m2 m'" by blast
    have "gui_rounds bus mm now f fr (evs # rs) (g, m) = Some (g', m')"
      using False s r(1) by (simp add: e step_def)
    then show ?thesis using r(2,3) same_elsewhere_trans [OF 2(4) r(4)] by blast
  qed
qed (simp add: same_elsewhere_def)

lemma snapshot_outside:
  assumes "canvas f" "layer_clear f p" "off f p a" "off f (backbuf f) a"
  shows "fb_snapshot f p (render_wallpaper f d m) a = m a"
proof -
  let ?n = "buffer_bytes f"
  have "fwd_ok p (backbuf f) ?n"
  proof (rule ccontr)
    assume "\<not> ?thesis"
    then have n: "p \<noteq> backbuf f" "unat (p - backbuf f) < ?n" by (simp_all add: fwd_ok_def)
    then have "0 < ?n" by simp
    then have "off f (backbuf f) (p + of_nat 0)" using assms(2) unfolding layer_clear_def by blast
    then show False using n(2) off_distance [OF canvasD(5) [OF assms(1)], of p] by simp
  qed
  then have e: "fb_snapshot f p m' = copy_bytes m' p (backbuf f) ?n" for m'
    using memcpy_copies [of p "backbuf f" "pitch f * of_int (framebuffer.scr_h f)" m'] canvasD(11) [OF assms(1)]
    by (simp add: fb_snapshot_def bytes_eq [OF assms(1)])
  have "\<not> unat (a - p) < ?n" using assms(2,3) unat_lt32 [of a] by (auto simp: off_def layer_clear_def unat_sub_if')
  moreover have "render_wallpaper f d m a = m a"
    using picture_back [OF picture_wallpaper [OF assms(1)]] assms(4) by (simp add: back_only_def)
  ultimately show ?thesis by (simp add: e copy_bytes_def)
qed

lemma wallpaper_outside:
  assumes "canvas f" "layer_clear f (bg_layer g1)" "off f (bg_layer g1) a" "off f (backbuf f) a"
  shows "show_wallpaper f g g1 m a = m a"
  by (simp add: show_wallpaper_def snapshot_outside [OF assms])

lemma session_safe:
  fixes f :: framebuffer
  defines "w \<equiv> framebuffer.scr_w f" and "h \<equiv> framebuffer.scr_h f"
  assumes "drives bus \<alpha>" "ready \<alpha> (w, h) R g" "112 \<le> w" "124 \<le> h" "unat (fb_buffer_size f) \<le> max_request"
    and c: "canvas f" and l: "layer_clear f (bg_layer (gui_enter bus (fb_buffer_size f) w h g))"
  shows "\<exists>g' m'. gui_session bus mm now f fr0 fr rs (g, m) = Some (g', m') \<and> gui_safe \<alpha> (w, h) R g' \<and> screen_shows f m' \<and>
    (\<forall>a. off f (backbuf f) a \<and> off f (lfb f) a \<and> off f (bg_layer (gui_enter bus (fb_buffer_size f) w h g)) a \<longrightarrow> m' a = m a)"
proof -
  define g1 where "g1 = gui_enter bus (fb_buffer_size f) w h g"
  have g1: "gui_safe \<alpha> (w, h) R g1" unfolding g1_def by (rule safe_enter [OF assms(3-7)])
  note l1 = l [folded g1_def]
  let ?m0 = "show_wallpaper f g g1 m"
  from composite_frame [OF c safe_stat_walk [OF g1] l1, of fr0 0 ?m0] obtain m1 where
    m1: "composite f fr0 0 (g1, ?m0) = Some (seen (zorder (gwm g1)) g1, m1)" "screen_shows f m1" "same_elsewhere f ?m0 m1" by blast
  have l2: "layer_clear f (bg_layer (seen (zorder (gwm g1)) g1))" using l1 by simp
  from rounds_safe [OF assms(3) c safe_seen [OF g1] l2 m1(2), of mm now fr rs] obtain g' m' where
    r: "gui_rounds bus mm now f fr rs (seen (zorder (gwm g1)) g1, m1) = Some (g', m')" "gui_safe \<alpha> (w, h) R g'"
      "screen_shows f m'" "same_elsewhere f m1 m'" by blast
  have "gui_session bus mm now f fr0 fr rs (g, m) = Some (g'\<lparr>dragging := None\<rparr>, m')"
    using m1(1) r(1) by (simp add: gui_session_def g1_def w_def h_def)
  moreover have "gui_safe \<alpha> (w, h) R (g'\<lparr>dragging := None\<rparr>)" using r(2) by (simp add: gui_safe_def)
  moreover have "m' a = m a" if "off f (backbuf f) a" "off f (lfb f) a" "off f (bg_layer g1) a" for a
    using that m1(3) r(4) wallpaper_outside [OF c l1 that(3,1), of g m] by (simp add: same_elsewhere_def)
  ultimately show ?thesis using r(3) unfolding g1_def by blast
qed

subsection \<open>The contract\<close>

text \<open>C6: composing a frame always succeeds, whatever the state of the desktop, and then the screen
  shows at every pixel the finished backbuffer under the pointer; no byte of memory outside the two
  buffers has changed; and the frame is a function of the desktop alone: any memory that agrees outside
  the two buffers gives the very same frame, so nothing of an earlier picture shines through.\<close>

theorem composite_shows_desktop:
  assumes "canvas f" "gui_safe \<alpha> wh R g" "layer_clear f (bg_layer g)"
  shows "\<exists>g1 m1. composite f fr slide (g, m) = Some (g1, m1) \<and> gui_safe \<alpha> wh R g1 \<and>
    screen_shows f m1 \<and> same_elsewhere f m m1 \<and>
    (\<forall>m'. same_elsewhere f m m' \<longrightarrow> composite f fr slide (g, m') = composite f fr slide (g, m))"
  using composite_frame [OF assms(1) safe_stat_walk [OF assms(2)] assms(3), of fr slide m] safe_seen [OF assms(2)] by blast


subsection \<open>Examples\<close>

lemma layer_clearI:
  assumes "unat p + buffer_bytes f \<le> 4294967296"
    and "unat p + buffer_bytes f \<le> unat (backbuf f) \<or> unat (backbuf f) + buffer_bytes f \<le> unat p"
    and "unat p + buffer_bytes f \<le> unat (lfb f) \<or> unat (lfb f) + buffer_bytes f \<le> unat p"
  shows "layer_clear f p"
proof -
  have "unat (p + of_nat k) = unat p + k" if "k < buffer_bytes f" for k
  proof -
    have k: "unat (of_nat k :: u32) = k" using that assms(1) by (intro unat_of_nat32) linarith
    show ?thesis using that assms(1) unat_add32 [of p "of_nat k"] by (simp add: k)
  qed
  then show ?thesis using assms by (auto simp: layer_clear_def off_def)
qed

definition desk_fb :: framebuffer where
  "desk_fb = two_buffers\<lparr>backbuf := 0xC0000000, target := 0xC0000000, pitch := 3072, framebuffer.scr_w := 1024, framebuffer.scr_h := 768\<rparr>"

text \<open>A desktop that has been entered before: one block of the heap is the wallpaper's.\<close>

definition entered_gui :: "drive gui" where
  "entered_gui = boot_gui\<lparr>gfs := small_fs\<lparr>fs_heap := used_heap\<lparr>heap_pg := paging_bss (pmm_init boot_low pmm_bss)\<rparr>\<rparr>,
     bg_layer := 0xD000000C\<rparr>"

lemma desk_fb_canvas: "canvas desk_fb"
  by (simp add: canvas_def drawable_def desk_fb_def two_buffers_def small_screen_def buffered_def sprite_ok_def sprite_clear_def
      surface_def buffer_bytes_def above_font_def)

lemma desk_fb_layer: "layer_clear desk_fb 0xD000000C"
  by (rule layer_clearI) (simp_all add: desk_fb_def two_buffers_def small_screen_def buffer_bytes_def)

lemma entered_gui_safe: "gui_safe id (1024, 768) {} entered_gui"
proof -
  let ?h = "used_heap\<lparr>heap_pg := paging_bss (pmm_init boot_low pmm_bss)\<rparr>"
  have i: "heap_inv ?h [0xD0000000, 0xD0000074]" using used_heap_inv by (simp add: heap_inv_def)
  have "pmm_inv (pg_pmm (heap_pg ?h))" using pmm_init_inv by (simp add: paging_bss_def)
  moreover have "spent ?h < 700000000"
    by (simp add: spent_def used_heap_def paging_bss_def card_avail_frames boot_low_free)
  ultimately have "heap_sane ?h" using i by (auto simp: heap_sane_def max_request_def)
  moreover have "heap_owned ?h = {0xD000000C}"
    using used_heap_live by (auto simp: heap_owned_eq [OF i] diff_eq_eq)
  moreover have "fs_good id (small_fs\<lparr>fs_heap := ?h\<rparr>)"
    using small_fs_drive small_fs_inv by simp (simp add: fs_good_def)
  moreover have "ed_windows no_windows = []" "roles_ok (wins no_windows i)" for i
    by (simp_all add: ed_windows_def no_windows_def zero_window_def is_ed_def roles_ok_def)
  moreover have "desk_ok (1024, 768) (small_desk\<lparr>icons := []\<rparr>)"
    by (simp add: desk_ok_def on_desktop_def large_screen_def in_desk_def small_desk_def TASKBAR_H_def ICON_CELL_W_def)
  ultimately show ?thesis using no_windows_ok
    by (simp add: gui_safe_def safe_def entered_gui_def boot_gui_def owns_def gui_sane_def gui_owned_def all_ptrs_def ptrs_of_def)
qed

lemma composite_shows_desktop_witness:
  "\<exists>g1 m1. composite desk_fb \<lparr>fr_now = 500, fr_hz = 100, fr_clock = (12, 7, 59)\<rparr> 0 (entered_gui, \<lambda>a. 9) = Some (g1, m1) \<and>
    screen_shows desk_fb m1 \<and> m1 0x100000 = 9"
proof -
  from composite_shows_desktop [OF desk_fb_canvas entered_gui_safe, of "\<lparr>fr_now = 500, fr_hz = 100, fr_clock = (12, 7, 59)\<rparr>" 0 "\<lambda>a. 9"]
    desk_fb_layer
  obtain g1 m1 where r: "composite desk_fb \<lparr>fr_now = 500, fr_hz = 100, fr_clock = (12, 7, 59)\<rparr> 0 (entered_gui, \<lambda>a. 9) = Some (g1, m1)"
    "screen_shows desk_fb m1" "same_elsewhere desk_fb (\<lambda>a. 9) m1" by (auto simp: entered_gui_def)
  moreover have "off desk_fb (backbuf desk_fb) 0x100000" "off desk_fb (lfb desk_fb) 0x100000"
    by (simp_all add: off_def desk_fb_def two_buffers_def small_screen_def)
  ultimately show ?thesis by (auto simp: same_elsewhere_def)
qed


end
