(* ===== verification/Console_Mem.thy ===== *)
theory Console_Mem
  imports Console Gui_Screen
begin

text \<open>
  Scrolling, and what the text console does to memory: printing writes in the two buffers of the screen
  and nowhere else.
\<close>

subsection \<open>Scrolling\<close>

definition line_bytes :: "framebuffer \<Rightarrow> nat" where
  "line_bytes f = nat (framebuffer.scr_w f) * unat (bypp f)"

definition line_at :: "framebuffer \<Rightarrow> u32 \<Rightarrow> int \<Rightarrow> u32" where
  "line_at f base y = base + of_int y * pitch f"

lemma surface_lines:
  assumes "surface f base"
  shows "0 < line_bytes f" "line_bytes f \<le> unat (pitch f)" "unat (of_int (framebuffer.scr_w f) * bypp f) = line_bytes f"
proof -
  have b: "unat (bypp f) = 3 \<or> unat (bypp f) = 4" by (rule bypp_values [OF assms])
  have w: "0 < framebuffer.scr_w f" using assms by (simp add: surface_def)
  then show "0 < line_bytes f" using b by (auto simp: line_bytes_def)
  show le: "line_bytes f \<le> unat (pitch f)" using assms by (simp add: surface_def line_bytes_def)
  have "of_int (framebuffer.scr_w f) * bypp f = of_nat (line_bytes f)" using w by (simp add: line_bytes_def)
  moreover have "line_bytes f < 4294967296" using le unat_lt32 [of "pitch f"] by linarith
  ultimately show "unat (of_int (framebuffer.scr_w f) * bypp f) = line_bytes f" by (simp only: unat_of_nat32)
qed

lemma unat_line:
  assumes "surface f base" "0 \<le> y" "y < framebuffer.scr_h f"
  shows "unat (line_at f base y) = unat base + nat y * unat (pitch f)"
    "unat (line_at f base y) + unat (pitch f) \<le> 4294967296"
proof -
  have "Suc (nat y) * unat (pitch f) \<le> nat (framebuffer.scr_h f) * unat (pitch f)"
    using assms by (intro mult_le_mono1) auto
  then have u: "unat base + nat y * unat (pitch f) + unat (pitch f) \<le> 4294967296"
    using assms(1) by (simp add: surface_def mult.commute)
  have "0 < unat (pitch f)" using surface_lines [OF assms(1)] by linarith
  then have l: "unat base + nat y * unat (pitch f) < 4294967296" using u by linarith
  have "line_at f base y = of_nat (unat base + nat y * unat (pitch f))" using assms(2) by (simp add: line_at_def)
  then show e: "unat (line_at f base y) = unat base + nat y * unat (pitch f)" using l by (simp only: unat_of_nat32)
  then show "unat (line_at f base y) + unat (pitch f) \<le> 4294967296" using u by simp
qed

lemma pix_line:
  "0 \<le> x \<Longrightarrow> pix f base (x, y) k = line_at f base y + of_nat (nat x * unat (bypp f) + k)"
  by (simp add: pix_def pixel_offset_def line_at_def add.assoc)

lemma offset_in_line:
  assumes "surface f base" "on_screen f (x, y)" "k < unat (bypp f)"
  shows "nat x * unat (bypp f) + k < line_bytes f"
proof -
  have "nat x * unat (bypp f) + k < Suc (nat x) * unat (bypp f)" using assms(3) by simp
  also have "\<dots> \<le> line_bytes f"
    unfolding line_bytes_def using assms(2) by (intro mult_le_mono1) (auto simp: on_screen_def)
  finally show ?thesis .
qed

lemma scroll_row_copies:
  assumes "surface f (target f)" "0 < n" "0 \<le> y" "y + n < framebuffer.scr_h f"
  shows "scroll_row f n y m = copy_bytes m (line_at f (target f) y) (line_at f (target f) (y + n)) (line_bytes f)"
proof -
  note s = surface_lines [OF assms(1)]
  let ?d = "line_at f (target f) y" and ?s = "line_at f (target f) (y + n)"
  have y: "y < framebuffer.scr_h f" "0 \<le> y + n" using assms by simp_all
  note d = unat_line [OF assms(1,3) y(1)] and e = unat_line [OF assms(1) y(2) assms(4)]
  have n: "nat (y + n) = nat y + nat n" "0 < nat n" using assms by simp_all
  have "unat (pitch f) \<le> nat n * unat (pitch f)" using n(2) by (cases "nat n") simp_all
  then have "unat ?d < unat ?s" using d(1) e(1) s by (simp add: n(1) add_mult_distrib)
  then have "unat (?d - ?s) = unat ?d + 4294967296 - unat ?s" using unat_sub_if' [of ?d ?s] by simp
  then have "line_bytes f \<le> unat (?d - ?s)" using e(2) s(2) by linarith
  then have "fwd_ok ?d ?s (line_bytes f)" by (simp add: fwd_ok_def)
  then show ?thesis
    using memcpy_copies [of ?d ?s "of_int (framebuffer.scr_w f) * bypp f" m] s(3)
    by (simp add: scroll_row_def line_at_def)
qed

lemma line_distance:
  assumes "surface f base" "0 \<le> y" "y < framebuffer.scr_h f" "on_screen f (x, r)" "k < unat (bypp f)"
  shows "unat (pix f base (x, r) k - line_at f base y) < line_bytes f \<longleftrightarrow> r = y"
proof -
  note o = offset_in_line [OF assms(1,4,5)]
  note s = surface_lines [OF assms(1)]
  have r: "0 \<le> r" "r < framebuffer.scr_h f" "0 \<le> x" using assms(4) by (simp_all add: on_screen_def)
  have p: "unat (pix f base (x, r) k) = unat base + nat r * unat (pitch f) + (nat x * unat (bypp f) + k)"
    using unat_pix [OF assms(1,4,5)] by (simp add: pixel_index_def)
  note l = unat_line [OF assms(1-3)] unat_line [OF assms(1) r(1,2)]
  consider "r = y" | "nat r < nat y" | "nat y < nat r" using r(1) assms(2) by linarith
  then show ?thesis
  proof cases
    case 1
    then have "unat (pix f base (x, r) k - line_at f base y) = nat x * unat (bypp f) + k"
      using p l by (subst unat_sub32) simp_all
    then show ?thesis using o 1 by simp
  next
    case 2
    then have "Suc (nat r) * unat (pitch f) \<le> nat y * unat (pitch f)" by (intro mult_le_mono1 Suc_leI 2)
    then have "unat (pix f base (x, r) k) < unat (line_at f base y)" using p l(1) o s(2) by simp
    then have "unat (pix f base (x, r) k - line_at f base y) =
        unat (pix f base (x, r) k) + 4294967296 - unat (line_at f base y)"
      using unat_sub_if' [of "pix f base (x, r) k" "line_at f base y"] by simp
    then have "line_bytes f \<le> unat (pix f base (x, r) k - line_at f base y)" using l(2) s(2) by linarith
    then show ?thesis using 2 by auto
  next
    case 3
    then have "Suc (nat y) * unat (pitch f) \<le> nat r * unat (pitch f)" by (intro mult_le_mono1 Suc_leI 3)
    then have "unat (line_at f base y) + line_bytes f \<le> unat (pix f base (x, r) k)" using p l(1) s(2) by simp
    then have "line_bytes f \<le> unat (pix f base (x, r) k - line_at f base y)" by (subst unat_sub32) simp_all
    then show ?thesis using 3 by auto
  qed
qed

lemma scroll_row_pixel:
  assumes "surface f (target f)" "0 < n" "0 \<le> y" "y + n < framebuffer.scr_h f" "on_screen f (x, r)"
  shows "pixel f (target f) (scroll_row f n y m) (x, r) = (if r = y then pixel f (target f) m (x, y + n) else pixel f (target f) m (x, r))"
proof -
  have x: "0 \<le> x" using assms(5) by (simp add: on_screen_def)
  have y: "y < framebuffer.scr_h f" using assms(2,4) by simp
  have b: "k < unat (bypp f)" if "k < 3" for k using bypp_values [OF assms(1)] that by auto
  have "scroll_row f n y m (pix f (target f) (x, r) k) =
      (if r = y then m (pix f (target f) (x, y + n) k) else m (pix f (target f) (x, r) k))" if "k < 3" for k
  proof (cases "r = y")
    case True
    have "pix f (target f) (x, y) k - line_at f (target f) y = of_nat (nat x * unat (bypp f) + k)" by (simp add: pix_line [OF x])
    then show ?thesis
      using line_distance [OF assms(1,3) y assms(5) b [OF that]] True
      by (simp add: scroll_row_copies [OF assms(1-4)] copy_bytes_def pix_line [OF x])
  next
    case False
    then show ?thesis
      using line_distance [OF assms(1,3) y assms(5) b [OF that]] by (simp add: scroll_row_copies [OF assms(1-4)] copy_bytes_def)
  qed
  then show ?thesis by (simp add: pixel_def)
qed

lemma scroll_row_touches:
  assumes "surface f (target f)" "0 < n" "0 \<le> y" "y + n < framebuffer.scr_h f"
  shows "touches f (target f) UNIV m (scroll_row f n y m)"
  unfolding touches_def
proof (intro allI impI)
  fix a assume a: "a \<notin> cells f (target f) UNIV"
  let ?l = "line_at f (target f) y" and ?b = "unat (bypp f)"
  have "\<not> unat (a - ?l) < line_bytes f"
  proof
    assume i: "unat (a - ?l) < line_bytes f"
    let ?i = "unat (a - ?l)"
    have b: "0 < ?b" using bypp_values [OF assms(1)] by auto
    have "?i div ?b < nat (framebuffer.scr_w f)" using i b by (simp add: line_bytes_def less_mult_imp_div_less)
    then have o: "on_screen f (int (?i div ?b), y)" using assms by (auto simp: on_screen_def)
    have "pix f (target f) (int (?i div ?b), y) (?i mod ?b) = ?l + of_nat (?i div ?b * ?b + ?i mod ?b)"
      by (subst pix_line) (simp_all del: of_nat_add of_nat_mult div_mult_mod_eq)
    then have "pix f (target f) (int (?i div ?b), y) (?i mod ?b) = a" by (simp del: of_nat_add of_nat_mult)
    moreover have "?i mod ?b < ?b" using b by simp
    ultimately have "a \<in> cells f (target f) UNIV" using o unfolding cells_def
      by (intro CollectI bexI [of _ "(int (?i div ?b), y)"] conjI exI [of _ "?i mod ?b"]) simp_all
    then show False using a by contradiction
  qed
  then show "scroll_row f n y m a = m a" by (simp add: scroll_row_copies [OF assms] copy_bytes_def)
qed

lemma scroll_rows_pixel:
  assumes "surface f (target f)" "0 < n" "n \<le> framebuffer.scr_h f" "on_screen f (x, r)"
  shows "pixel f (target f) (for_int 0 (framebuffer.scr_h f - n) (scroll_row f n) m) (x, r) =
    pixel f (target f) m (x, if r < framebuffer.scr_h f - n then r + n else r)"
proof -
  let ?P = "\<lambda>i m'. \<forall>r. on_screen f (x, r) \<longrightarrow>
    pixel f (target f) m' (x, r) = pixel f (target f) m (x, if r < i then r + n else r)"
  have "?P (framebuffer.scr_h f - n) (for_int 0 (framebuffer.scr_h f - n) (scroll_row f n) m)"
  proof (rule for_int_induct [where P = ?P])
    show "0 \<le> framebuffer.scr_h f - n" using assms(3) by simp
    show "?P 0 m" by (simp add: on_screen_def)
  next
    fix i m' assume i: "0 \<le> i" "i < framebuffer.scr_h f - n" and P: "?P i m'"
    have "on_screen f (x, i + n)" using i assms(2,4) by (simp add: on_screen_def)
    then have s: "pixel f (target f) m' (x, i + n) = pixel f (target f) m (x, i + n)" using P assms(2) by simp
    have "i + n < framebuffer.scr_h f" using i by simp
    note e = scroll_row_pixel [OF assms(1,2) i(1) this]
    show "?P (i + 1) (scroll_row f n i m')"
    proof (intro allI impI)
      fix r assume o: "on_screen f (x, r)"
      then show "pixel f (target f) (scroll_row f n i m') (x, r) = pixel f (target f) m (x, if r < i + 1 then r + n else r)"
        using e [OF o] s P by (cases r i rule: linorder_cases) simp_all
    qed
  qed
  then show ?thesis using assms(4) by blast
qed

lemma scroll_rows_touches:
  assumes "surface f (target f)" "0 < n"
  shows "touches f (target f) UNIV m (for_int 0 (framebuffer.scr_h f - n) (scroll_row f n) m)"
  by (rule touches_for) (rule scroll_row_touches [OF assms]; simp)

lemma scroll_back_only:
  assumes "canvas f" "0 < n"
  shows "\<exists>m2. fb_scroll_up f n c m = fb_flip f m2 \<and> back_only f m m2"
proof -
  note d = canvasD [OF assms(1)]
  have 1: "back_only f m (for_int 0 (framebuffer.scr_h f - n) (scroll_row f n) m)"
    by (rule touches_back_only [OF assms(1) scroll_rows_touches [OF d(4) assms(2)]])
  have "back_only f m (fb_fill_rect f 0 (framebuffer.scr_h f - n) (framebuffer.scr_w f) n c
      (for_int 0 (framebuffer.scr_h f - n) (scroll_row f n) m))"
    by (rule back_only_trans [OF 1 picture_back [OF picture_fill_rect [OF assms(1)]]])
  then show ?thesis unfolding fb_scroll_up_def Let_def by blast
qed

lemma scroll_up_exact:
  assumes "drawable f" "0 < n" "n \<le> framebuffer.scr_h f" "on_screen f (x, y)"
  shows "pixel f (backbuf f) (fb_scroll_up f n c m) (x, y) =
    (if y < framebuffer.scr_h f - n then pixel f (backbuf f) m (x, y + n) else rgb_of c)"
proof -
  note d = drawableD [OF assms(1)]
  let ?m1 = "for_int 0 (framebuffer.scr_h f - n) (scroll_row f n) m"
  let ?m2 = "fb_fill_rect f 0 (framebuffer.scr_h f - n) (framebuffer.scr_w f) n c ?m1"
  have "pixel f (backbuf f) (fb_flip f ?m2) (x, y) = pixel f (backbuf f) ?m2 (x, y)"
    by (rule back_pixel_only [OF d(1) fb_flip_shows(1) [OF d(1,2)] assms(4)])
  moreover have "pixel f (target f) ?m2 (x, y) = (if y < framebuffer.scr_h f - n then pixel f (target f) ?m1 (x, y) else rgb_of c)"
    using draws_pixel [OF draws_fill_rect [OF d(3)] d(3) assms(4)] assms(4) by (auto simp: rect_def on_screen_def)
  ultimately show ?thesis
    using scroll_rows_pixel [OF d(3) assms(2-4)] by (simp add: fb_scroll_up_def Let_def d(6))
qed

subsection \<open>Printing stays in the buffers\<close>

lemma elsewhere_back: "back_only f m m' \<Longrightarrow> same_elsewhere f m m'"
  by (simp add: back_only_def same_elsewhere_def)

lemma elsewhere_screen: "screen_only f m m' \<Longrightarrow> same_elsewhere f m m'"
  by (simp add: screen_only_off same_elsewhere_def)

lemma elsewhere_flip_rect: "canvas f \<Longrightarrow> back_only f m m1 \<Longrightarrow> same_elsewhere f m (fb_flip_rect f x y w h m1)"
  using same_elsewhere_trans [OF elsewhere_back elsewhere_screen [OF flip_rect_only]] canvasD by blast

lemma elsewhere_flip: "canvas f \<Longrightarrow> back_only f m m1 \<Longrightarrow> same_elsewhere f m (fb_flip f m1)"
  using same_elsewhere_trans [OF elsewhere_back elsewhere_screen [OF fb_flip_shows(1)]] canvasD by blast

lemma fill_cell_elsewhere: "canvas f \<Longrightarrow> same_elsewhere f m (snd (fill_cell f r c (t, m)))"
  by (simp add: fill_cell_def Let_def elsewhere_flip_rect picture_back [OF picture_fill_rect])

lemma cursor_elsewhere: "canvas f \<Longrightarrow> same_elsewhere f m (snd (cursor_draw f (t, m)))"
  by (simp add: cursor_draw_def Let_def elsewhere_flip_rect picture_back [OF picture_fill_rect])

lemma glyph_elsewhere: "canvas f \<Longrightarrow> same_elsewhere f m (snd (draw_glyph f r c ch (t, m)))"
  using elsewhere_flip_rect [OF _ touches_back_only [OF _ glyph_touches [OF canvasD(4)]]]
  by (simp add: draw_glyph_def Let_def)

lemma scroll_elsewhere: "canvas f \<Longrightarrow> same_elsewhere f m (snd (console_scroll f (t, m)))"
  using scroll_back_only [of f FONT_H "bg t" m] elsewhere_flip [of f m]
  by (auto simp: console_scroll_def FONT_H_def same_elsewhere_def [of f m m])

lemma putc_body_elsewhere: "canvas f \<Longrightarrow> same_elsewhere f m (snd (putc_body f c (t, m)))"
  using fill_cell_elsewhere [of f m "row t" "col t - 1" "t\<lparr>col := col t - 1\<rparr>"] glyph_elsewhere [of f m "row t" "col t" c t]
  by (auto simp: putc_body_def same_elsewhere_def [of f m m] case_prod_beta)

lemma putc_elsewhere:
  assumes "canvas f"
  shows "same_elsewhere f (snd w) (snd (console_putc f c w))"
proof -
  obtain t m where w: "w = (t, m)" by fastforce
  obtain t1 m1 where e: "cursor_erase f (t, m) = (t1, m1)" by fastforce
  obtain t2 m2 where b: "putc_body f c (t1, m1) = (t2, m2)" by fastforce
  obtain t3 m3 where s: "console_scroll f (console_wrap t2, m2) = (t3, m3)" by fastforce
  have "same_elsewhere f m m1" using fill_cell_elsewhere [OF assms, of m "row t" "col t" t] e by (simp add: cursor_erase_def)
  moreover have "same_elsewhere f m1 m2" using putc_body_elsewhere [OF assms, of m1 c t1] b by simp
  moreover have "same_elsewhere f m2 m3" using scroll_elsewhere [OF assms, of m2 "console_wrap t2"] s by simp
  moreover have "same_elsewhere f m3 (snd (cursor_draw f (t3, m3)))" by (rule cursor_elsewhere [OF assms])
  ultimately show ?thesis by (simp add: w console_putc_def e b s same_elsewhere_def)
qed

lemma print_elsewhere: "canvas f \<Longrightarrow> same_elsewhere f (snd w) (snd (console_print f s w))"
  unfolding console_print_def
proof (induction s arbitrary: w)
  case (Cons c s)
  then show ?case using same_elsewhere_trans [OF putc_elsewhere [OF Cons.prems] Cons.IH [OF Cons.prems]] by simp
qed (simp add: same_elsewhere_def)

end
