(* ===== verification/Shell_Safe.thy ===== *)
theory Shell_Safe
  imports Shell Console_Mem
begin

text \<open>
  What every command of the console keeps: it comes back, the cursor stays on the grid, the screen shows
  what was drawn, the desktop, the volume and the heap stay consistent and no block is lost or freed twice.
\<close>

subsection \<open>Printing\<close>

definition con_ok :: "framebuffer \<Rightarrow> 'd shell \<Rightarrow> bool" where
  "con_ok f s \<longleftrightarrow> console_ok f (sh_con s, sh_mem s)"

text \<open>A step that only prints.\<close>

definition prints :: "framebuffer \<Rightarrow> ('d shell \<Rightarrow> 'd shell option) \<Rightarrow> bool" where
  "prints f p \<longleftrightarrow> (\<forall>s. con_ok f s \<longrightarrow>
     (\<exists>s'. p s = Some s' \<and> con_ok f s' \<and> sh_gui s' = sh_gui s \<and> sh_keys s' = sh_keys s))"

lemma printsD:
  assumes "prints f p" "con_ok f s"
  obtains s' where "p s = Some s'" "con_ok f s'" "sh_gui s' = sh_gui s" "sh_keys s' = sh_keys s"
  using assms by (auto simp: prints_def)

named_theorems printing

lemma prints_tell:
  assumes "drawable f" "kvprintf fmt (map shape args) \<noteq> None"
  shows "prints f (tell f fmt args)"
proof -
  obtain out where "kvprintf fmt args = Some out" using assms(2) kvprintf_shape [of fmt args] by auto
  then show ?thesis
    using console_print_ok [OF assms(1), of _ out]
    by (auto simp: prints_def con_ok_def tell_def on_console_def kprintf_def case_prod_beta)
qed

lemma prints_plain: "drawable f \<Longrightarrow> 37 \<notin> set fmt \<Longrightarrow> prints f (tell f fmt [])"
proof -
  have "37 \<notin> set fmt \<Longrightarrow> kvprintf fmt [] = Some fmt" by (induction fmt) auto
  then show "drawable f \<Longrightarrow> 37 \<notin> set fmt \<Longrightarrow> prints f (tell f fmt [])" by (intro prints_tell) simp_all
qed

lemma prints_some [printing]: "prints f Some"
  by (simp add: prints_def)

lemma prints_bind:
  assumes "prints f p" "prints f q"
  shows "prints f (\<lambda>s. Option.bind (p s) q)"
  unfolding prints_def
proof (intro allI impI)
  fix s :: "'a shell" assume "con_ok f s"
  from assms(1) this obtain s1 where 1: "p s = Some s1" "con_ok f s1" "sh_gui s1 = sh_gui s" "sh_keys s1 = sh_keys s"
    by (rule printsD)
  from assms(2) 1(2) obtain s2 where "q s1 = Some s2" "con_ok f s2" "sh_gui s2 = sh_gui s1" "sh_keys s2 = sh_keys s1"
    by (rule printsD)
  then show "\<exists>s'. Option.bind (p s) q = Some s' \<and> con_ok f s' \<and> sh_gui s' = sh_gui s \<and> sh_keys s' = sh_keys s"
    using 1 by simp
qed

lemma prints_fun: "(\<And>s. prints f (\<lambda>t. p s t)) \<Longrightarrow> prints f (\<lambda>s. p s s)"
  by (auto simp: prints_def)

lemma prints_if: "prints f p \<Longrightarrow> prints f q \<Longrightarrow> prints f (\<lambda>s. if c then p s else q s)"
  by (cases c) simp_all

lemma prints_cons:
  assumes "prints f (tell f a as :: 'd shell \<Rightarrow> 'd shell option)" "prints f (tell_all f xs :: 'd shell \<Rightarrow> 'd shell option)"
  shows "prints f (tell_all f ((a, as) # xs) :: 'd shell \<Rightarrow> 'd shell option)"
proof -
  have "prints f (\<lambda>s :: 'd shell. Option.bind (tell f a as s) (tell_all f xs))" by (rule prints_bind [OF assms])
  then show ?thesis by (simp add: prints_def)
qed

lemma prints_nil: "prints f (tell_all f [])"
  by (simp add: prints_def)

lemma prints_lines: "drawable f \<Longrightarrow> list_all (\<lambda>x. 37 \<notin> set (line_of x)) xs \<Longrightarrow> prints f (tell_all f (map (\<lambda>l. (line_of l, [])) xs))"
  by (induction xs) (auto intro!: prints_cons prints_nil prints_plain)

lemma color_ok: "con_ok f (sh_color a b s) = con_ok f s" "sh_gui (sh_color a b s) = sh_gui s" "sh_keys (sh_color a b s) = sh_keys s"
  by (simp_all add: sh_color_def con_ok_def console_ok_def console_set_color_def on_grid_def)

lemma clear_ok:
  assumes "drawable f" "on_grid (sh_con s)"
  shows "con_ok f (sh_clear f s)" "sh_gui (sh_clear f s) = sh_gui s" "sh_keys (sh_clear f s) = sh_keys s"
proof -
  note d = drawableD [OF assms(1)]
  let ?m = "fb_flip f (fb_fill_rect f 0 0 (sint (fb_width f)) (sint (fb_height f)) (bg (sh_con s)) (sh_mem s))"
  have "screen_shows f ?m" by (rule flip_screen_shows [OF d(1, 2)])
  from cursor_draw_shows [OF assms(1) this, of "(sh_con s)\<lparr>col := 0, row := 0\<rparr>"] assms(2)
  show "con_ok f (sh_clear f s)"
    by (auto simp: con_ok_def sh_clear_def console_clear_def console_ok_def on_grid_def case_prod_beta Let_def)
qed (simp_all add: sh_clear_def case_prod_beta)

subsection \<open>The formats of the shell\<close>

lemma shell_formats:
  "kvprintf (line_of ''    %08x%08x  %8u KB  %s'') [Num 0, Num 0, Num 0, Str None] \<noteq> None"
  "kvprintf (10 # line_of ''  physical : %u KB free of %u KB usable (4 KB frames)'') [Num 0, Num 0] \<noteq> None"
  "kvprintf (line_of ''  heap     : %u KB mapped at %p, %u bytes in use'') [Num 0, Num 0, Num 0] \<noteq> None"
  "kvprintf (line_of ''ok (d=%p)'') [Num 0] \<noteq> None"
  "kvprintf (line_of ''FAILED at a[%d]'') [Num 0] \<noteq> None"
  "kvprintf (line_of ''FAILED at b[%d]'') [Num 0] \<noteq> None"
  "kvprintf (line_of ''  all freed. heap: %u KB mapped, %u bytes in use'') [Num 0, Num 0] \<noteq> None"
  "kvprintf (line_of ''ok (a=%p b=%p c=%p)'') [Num 0, Num 0, Num 0] \<noteq> None"
  "kvprintf (line_of ''  %6u  %s'') [Num 0, Str None] \<noteq> None"
  "kvprintf (line_of ''  %u of %u KB free'') [Num 0, Num 0] \<noteq> None"
  "kvprintf (line_of ''  no such file: %s'') [Str None] \<noteq> None"
  "kvprintf (line_of ''%s'') [Str None] \<noteq> None"
  "kvprintf (line_of ''  wrote %u bytes to %s'') [Num 0, Str None] \<noteq> None"
  "kvprintf (line_of ''  deleted %s'') [Str None] \<noteq> None"
  "kvprintf (line_of ''  up %u.%02u s  (%u ticks @ %u Hz)'') [Num 0, Num 0, Num 0, Num 0] \<noteq> None"
  "kvprintf (ascii ''  unknown command: %s  (try '' @ [39] @ ascii ''help'' @ [39] @ line_of '')'') [Str None] \<noteq> None"
  by code_simp+

subsection \<open>Commands that only print\<close>

lemma prints_help: "drawable f \<Longrightarrow> prints f (cmd_help f)"
proof -
  have "list_all (\<lambda>x. 37 \<notin> set (line_of x)) help_lines" by code_simp
  then show "drawable f \<Longrightarrow> prints f (cmd_help f)" unfolding cmd_help_def by (intro prints_lines)
qed

lemma prints_color: "prints f p \<Longrightarrow> prints f (\<lambda>s. p (sh_color a b s))"
  unfolding prints_def using color_ok by metis

lemma about_plain:
  "37 \<notin> set (10 # ascii ''    ('' @ [92] @ line_of ''__/)'')" "37 \<notin> set (line_of ''    (o^.^)    RedPandaOS v11'')"
  "37 \<notin> set (ascii ''    z(_('' @ [34] @ ascii '')('' @ [34] @ ascii '')  '')"
  "37 \<notin> set (line_of ''own bootloader, own kernel, own everything.'' @ [10])"
  by code_simp+

lemma prints_about: "drawable f \<Longrightarrow> prints f (cmd_about f)"
  unfolding cmd_about_def
  by (intro prints_bind prints_color prints_cons prints_nil prints_plain about_plain)

lemma prints_uptime: "drawable f \<Longrightarrow> hz \<noteq> 0 \<Longrightarrow> prints f (cmd_uptime f t hz)"
  using prints_tell [of f "line_of ''  up %u.%02u s  (%u ticks @ %u Hz)''" "[Num (t div hz), Num (t mod hz * 100 div hz), Num t, Num hz]"]
    shell_formats(15) by (simp add: cmd_uptime_def [abs_def])

lemma prints_mem_line: "drawable f \<Longrightarrow> prints f (mem_line f i)"
  unfolding mem_line_def Let_def by (rule prints_fun) (rule prints_tell, assumption, simp add: shell_formats)

lemma prints_mem_lines: "drawable f \<Longrightarrow> prints f (mem_lines f is :: 'd shell \<Rightarrow> 'd shell option)"
proof (induction "is")
  case (Cons i r)
  have "prints f (\<lambda>s :: 'd shell. Option.bind (mem_line f i s) (mem_lines f r))"
    using Cons by (intro prints_bind prints_mem_line) simp_all
  then show ?case by simp
qed (simp add: prints_def)

lemma ls_lines_prints:
  assumes "drawable f" "con_ok f s"
  shows "\<exists>n' s'. ls_lines f is n s = Some (n', s') \<and> con_ok f s' \<and> sh_gui s' = sh_gui s \<and> sh_keys s' = sh_keys s"
  using assms(2)
proof (induction "is" arbitrary: n s)
  case (Cons i r)
  show ?case
  proof (cases "fs_dir_get (int i) (sh_files s)")
    case None
    then show ?thesis using Cons by simp
  next
    case (Some e)
    obtain name sz where e: "e = (name, sz)" by (rule prod.exhaust)
    have "prints f (tell f (line_of ''  %6u  %s'') [Num sz, Str (Some (cstr name))] :: 'a shell \<Rightarrow> 'a shell option)"
      by (rule prints_tell [OF assms(1)]) (simp add: shell_formats)
    from printsD [OF this Cons.prems] obtain s1 where
      1: "tell f (line_of ''  %6u  %s'') [Num sz, Str (Some (cstr name))] s = Some s1" "con_ok f s1" "sh_gui s1 = sh_gui s" "sh_keys s1 = sh_keys s" .
    show ?thesis using Cons.IH [OF 1(2), of "n + 1"] 1 Some e by simp
  qed
qed simp

lemma prints_ls:
  assumes "drawable f"
  shows "prints f (cmd_ls f)"
  unfolding prints_def
proof (intro allI impI)
  fix s :: "'a shell" assume "con_ok f s"
  from ls_lines_prints [OF assms this] obtain n s1 where
    1: "ls_lines f [0..<FS_DIR_ENTRIES] 0 s = Some (n, s1)" "con_ok f s1" "sh_gui s1 = sh_gui s" "sh_keys s1 = sh_keys s" by blast
  have "37 \<notin> set (line_of ''  (no files)'')" by code_simp
  from prints_plain [OF assms this] prints_some have "prints f (\<lambda>s. if n = 0 then tell f (line_of ''  (no files)'') [] s else Some s)"
    by (rule prints_if)
  from printsD [OF this 1(2)] obtain s2 where
    2: "(if n = 0 then tell f (line_of ''  (no files)'') [] s1 else Some s1) = Some s2" "con_ok f s2" "sh_gui s2 = sh_gui s1" "sh_keys s2 = sh_keys s1" .
  have "prints f (tell f (line_of ''  %u of %u KB free'')
      [Num (fs_free_bytes (sh_files s2) div 1024), Num (fs_total_bytes (sh_files s2) div 1024)] :: 'a shell \<Rightarrow> 'a shell option)"
    by (rule prints_tell [OF assms]) (simp add: shell_formats)
  from printsD [OF this 2(2)] show "\<exists>s'. cmd_ls f s = Some s' \<and> con_ok f s' \<and> sh_gui s' = sh_gui s \<and> sh_keys s' = sh_keys s"
    using 1 2 by (auto simp: cmd_ls_def)
qed

subsection \<open>Files and blocks\<close>

lemma ready_good: "ready \<alpha> wh R g \<Longrightarrow> fs_good \<alpha> (gfs g) \<and> heap_sane (gui_heap g) \<and> R \<subseteq> heap_owned (gui_heap g)"
  by (auto simp: ready_def fresh_gui_def gui_safe_def safe_def owns_def gui_sane_def gui_owned_def gui_heap_def)

lemma ready_files:
  assumes "ready \<alpha> wh R g" "fs_good \<alpha> st" "fs_heap st = fs_heap (gfs g)"
  shows "ready \<alpha> wh R (g\<lparr>gfs := st\<rparr>)"
  using assms safe_gfs [of \<alpha> wh R g st] by (auto simp: ready_def fresh_gui_def gui_heap_def)

text \<open>The blocks of the rest of the kernel change, those of the desktop stay.\<close>

lemma ready_owned:
  assumes "ready \<alpha> wh R g" "heap_sane h" "heap_owned h = (heap_owned (gui_heap g) - R) \<union> R'"
    "R' \<inter> (heap_owned (gui_heap g) - R) = {}"
  shows "ready \<alpha> wh R' (with_heap h g)"
proof -
  consider "fresh_gui \<alpha> R g" | "gui_safe \<alpha> wh R g" using assms(1) by (auto simp: ready_def)
  then show ?thesis
  proof cases
    case 1
    then show ?thesis using assms(2-) by (auto simp: ready_def fresh_gui_def with_heap_def gui_heap_def)
  next
    case 2
    then have o: "owns gui_owned (gui_sane \<alpha> wh) R (all_ptrs (gwm g) (eds g) (bg_layer g)) (gdesk g, gfs g)"
      by (simp add: gui_safe_def safe_def)
    have "heap_owned (gui_heap g) - R = set (all_ptrs (gwm g) (eds g) (bg_layer g))"
      using o by (auto simp: owns_def gui_owned_def gui_heap_def)
    then have "owns gui_owned (gui_sane \<alpha> wh) R' (all_ptrs (gwm g) (eds g) (bg_layer g)) (gdesk g, (gfs g)\<lparr>fs_heap := h\<rparr>)"
      using o assms(2-) by (auto simp: owns_def gui_owned_def gui_sane_def)
    then show ?thesis using 2 by (simp add: ready_def gui_safe_def safe_def with_heap_def)
  qed
qed

lemma sh_kmalloc_ready:
  assumes "ready \<alpha> wh R (sh_gui s)" "n \<noteq> 0" "unat n \<le> max_request"
  obtains p s' where "sh_kmalloc n s = Some (p, s')" "sh_con s' = sh_con s" "sh_mem s' = sh_mem s" "sh_keys s' = sh_keys s"
    "ready \<alpha> wh (if p = 0 then R else insert p R) (sh_gui s')" "p \<notin> R"
proof -
  have s: "heap_sane (gui_heap (sh_gui s))" and R: "R \<subseteq> heap_owned (gui_heap (sh_gui s))" using ready_good [OF assms(1)] by simp_all
  then obtain as where "heap_inv (gui_heap (sh_gui s)) as" by (auto simp: heap_sane_def)
  from heap_alloc_returns [OF s assms(2,3) this] obtain p h where k: "kmalloc n (gui_heap (sh_gui s)) = Some (p, h)" by blast
  then have "heap_alloc n (gui_heap (sh_gui s)) = (p, h)" by (simp add: heap_alloc_def)
  note c = kheap.alloc_ok [OF s assms(3) this]
  have "p \<notin> R" using c R kheap.owned_nonzero [OF s] by (cases "p = 0") auto
  moreover have "ready \<alpha> wh (if p = 0 then R else insert p R) (with_heap h (sh_gui s))"
    by (rule ready_owned [OF assms(1)]) (use c R in \<open>auto split: if_splits\<close>)
  ultimately show ?thesis using that [of p "s\<lparr>sh_gui := with_heap h (sh_gui s)\<rparr>"] k by (simp add: sh_kmalloc_def)
qed

lemma sh_kfree_ready:
  assumes "ready \<alpha> wh R (sh_gui s)" "p \<in> R"
  obtains s' where "sh_kfree p s = Some s'" "sh_con s' = sh_con s" "sh_mem s' = sh_mem s" "sh_keys s' = sh_keys s"
    "ready \<alpha> wh (R - {p}) (sh_gui s')"
proof -
  let ?h = "gui_heap (sh_gui s)"
  have s: "heap_sane ?h" and p: "p \<in> heap_owned ?h" and R: "R \<subseteq> heap_owned ?h" using ready_good [OF assms(1)] assms(2) by auto
  from s obtain as where i: "heap_inv ?h as" by (auto simp: heap_sane_def)
  with p obtain n where l: "(p - 12, n) \<in> live (blocks ?h) as" by (auto simp: heap_owned_eq [OF i])
  from kfree_removes [OF i l] obtain h where k: "kfree p ?h = Some h" by blast
  then have "heap_release p ?h = h" by (simp add: heap_release_def)
  then have "heap_sane h" "heap_owned h = heap_owned ?h - {p}" using kheap.release_ok [OF s p] by simp_all
  then have "ready \<alpha> wh (R - {p}) (with_heap h (sh_gui s))"
    by (intro ready_owned [OF assms(1)]) (use R assms(2) in auto)
  then show ?thesis using that [of "s\<lparr>sh_gui := with_heap h (sh_gui s)\<rparr>"] k by (simp add: sh_kfree_def)
qed

lemma sh_kfree_null: "sh_kfree 0 s = Some (s\<lparr>sh_gui := with_heap (gui_heap (sh_gui s)) (sh_gui s)\<rparr>)"
  by (simp add: sh_kfree_def kfree_def)

lemma with_own_heap [simp]: "with_heap (gui_heap g) g = g"
  by (simp add: with_heap_def gui_heap_def)

subsection \<open>Commands on files\<close>

definition sh_ok :: "framebuffer \<Rightarrow> ('d \<Rightarrow> drive) \<Rightarrow> int \<times> int \<Rightarrow> u32 set \<Rightarrow> 'd shell \<Rightarrow> bool" where
  "sh_ok f \<alpha> wh R s \<longleftrightarrow> con_ok f s \<and> ready \<alpha> wh R (sh_gui s)"

lemma prints_ok:
  assumes "prints f p" "sh_ok f \<alpha> wh R s"
  obtains s' where "p s = Some s'" "sh_ok f \<alpha> wh R s'" "sh_gui s' = sh_gui s" "sh_keys s' = sh_keys s"
  using assms by (auto simp: sh_ok_def elim!: printsD)

lemma prints_end: "prints f p \<Longrightarrow> sh_ok f \<alpha> wh R s \<Longrightarrow> \<exists>s'. p s = Some s' \<and> sh_ok f \<alpha> wh R s'"
  by (erule prints_ok) auto

lemma sh_ok_files:
  assumes "sh_ok f \<alpha> wh R s" "fs_good \<alpha> st \<and> fs_heap st = fs_heap (sh_files s)"
  shows "sh_ok f \<alpha> wh R (set_files st s)"
  using assms ready_files [of \<alpha> wh R "sh_gui s" st] by (simp add: sh_ok_def con_ok_def set_files_def sh_files_def)

lemma sh_ok_good: "sh_ok f \<alpha> wh R s \<Longrightarrow> fs_good \<alpha> (sh_files s)"
  using ready_good [of \<alpha> wh R "sh_gui s"] by (simp add: sh_ok_def sh_files_def)

lemma rm_ok:
  assumes "drawable f" "drives bus \<alpha>" "sh_ok f \<alpha> wh R s" "0 \<notin> set name"
  shows "\<exists>s'. cmd_rm bus f name s = Some s' \<and> sh_ok f \<alpha> wh R s'"
proof -
  obtain r st where d: "fs_delete (disk_wr bus) name (sh_files s) = (r, st)" by (rule prod.exhaust)
  have ok: "sh_ok f \<alpha> wh R (set_files st s)"
    by (rule sh_ok_files [OF assms(3) disk_delete_good [OF assms(2) sh_ok_good [OF assms(3)] assms(4) d]])
  have p: "prints f (tell f (line_of ''  no such file: %s'') [Str (Some name)])" "prints f (tell f (line_of ''  deleted %s'') [Str (Some name)])"
    by (intro prints_tell assms(1); simp add: shell_formats)+
  show ?thesis using prints_end [OF p(1) ok] prints_end [OF p(2) ok] by (simp add: cmd_rm_def d Let_def)
qed

lemma write_ok:
  assumes "drawable f" "drives bus \<alpha>" "sh_ok f \<alpha> wh R s" "0 \<notin> set args" "length args < 4294967296"
  shows "\<exists>s'. cmd_write bus f args s = Some s' \<and> sh_ok f \<alpha> wh R s'"
proof -
  define name where "name = takeWhile (\<lambda>c. c \<noteq> 32) args"
  define body where "body = tl (dropWhile (\<lambda>c. c \<noteq> 32) args)"
  obtain r st where w: "fs_write (disk_wr bus) name body (of_nat (length body)) (sh_files s) = (r, st)" by (rule prod.exhaust)
  have "length body \<le> length args" unfolding body_def using length_dropWhile_le [of "\<lambda>c. c \<noteq> 32" args] by simp
  then have "length body = unat (of_nat (length body) :: u32)" using assms(5) by (simp add: unat_of_nat32)
  moreover have "0 \<notin> set name" using assms(4) unfolding name_def by (auto dest: set_takeWhileD)
  ultimately have ok: "sh_ok f \<alpha> wh R (set_files st s)"
    by (intro sh_ok_files [OF assms(3) disk_write_good [OF assms(2) sh_ok_good [OF assms(3)] _ _ w]])
  have u: "37 \<notin> set (line_of ''  usage: write <file> <text>'')" "37 \<notin> set (line_of ''  write failed (name too long? disk full?)'')" by code_simp+
  have p: "prints f (tell f (line_of ''  wrote %u bytes to %s'') [Num (of_nat (length body)), Str (Some name)])"
    by (intro prints_tell assms(1)) (simp add: shell_formats)
  show ?thesis
    using prints_end [OF p ok] prints_end [OF prints_plain [OF assms(1) u(2)] ok] prints_end [OF prints_plain [OF assms(1) u(1)] assms(3)]
    by (simp add: cmd_write_def name_def [symmetric] body_def [symmetric] w Let_def)
qed

lemma cat_ok:
  assumes "drawable f" "drives bus \<alpha>" "sh_ok f \<alpha> wh R s" "0 \<notin> set name"
  shows "\<exists>s'. cmd_cat bus mm f name s = Some s' \<and> sh_ok f \<alpha> wh R s'"
proof -
  obtain sz none st where r: "fs_read (disk_rd bus) name 0 (sh_files s) = ((sz, none), st)" by (metis prod.exhaust)
  note g = disk_read_good [OF assms(2) sh_ok_good [OF assms(3)] assms(4) r]
  define s1 where "s1 = set_files st s"
  have ok1: "sh_ok f \<alpha> wh R s1" unfolding s1_def by (rule sh_ok_files [OF assms(3)]) (use g in simp)
  have p: "prints f (tell f (line_of ''  no such file: %s'') [Str (Some name)])" by (intro prints_tell assms(1)) (simp add: shell_formats)
  have u: "37 \<notin> set (line_of ''  (empty)'')" "37 \<notin> set (line_of ''  out of memory'')" by code_simp+
  show ?thesis
  proof (cases "0 < sz")
    case False
    then show ?thesis
      using prints_end [OF p ok1] prints_end [OF prints_plain [OF assms(1) u(1)] ok1]
      by (simp add: cmd_cat_def r s1_def [symmetric] Let_def)
  next
    case True
    have c: "0 \<le> sz + 1" "sz + 1 \<le> int max_request" using True g by (simp_all add: MAX_FILE_def max_request_def)
    have "(of_int (sz + 1) :: u32) \<noteq> 0"
    proof
      assume z: "(of_int (sz + 1) :: u32) = 0"
      have "unat (of_nat (nat (sz + 1)) :: u32) = nat (sz + 1)" using c(2) by (intro unat_of_nat32) (simp add: max_request_def)
      moreover have "(of_nat (nat (sz + 1)) :: u32) = of_int (sz + 1)" using True by simp
      ultimately show False using z True by simp
    qed
    moreover have "unat (of_int (sz + 1) :: u32) \<le> max_request" by (rule unat_of_int_le [OF c])
    ultimately obtain q s2 where k: "sh_kmalloc (of_int (sz + 1)) s1 = Some (q, s2)" "sh_con s2 = sh_con s1" "sh_mem s2 = sh_mem s1"
      "sh_keys s2 = sh_keys s1" "ready \<alpha> wh (if q = 0 then R else insert q R) (sh_gui s2)" "q \<notin> R"
      using ok1 unfolding sh_ok_def by (metis sh_kmalloc_ready)
    have ok2: "sh_ok f \<alpha> wh (if q = 0 then R else insert q R) s2" using ok1 k by (simp add: sh_ok_def con_ok_def)
    show ?thesis
    proof (cases "q = 0")
      case q: True
      then have "sh_ok f \<alpha> wh R s2" using ok2 by simp
      from prints_end [OF prints_plain [OF assms(1) u(2)] this] show ?thesis
        using True q k(1) by (simp add: cmd_cat_def r s1_def [symmetric] Let_def)
    next
      case q: False
      obtain n out st2 where r2: "fs_read (disk_rd bus) name (of_int sz) (sh_files s2) = ((n, out), st2)" by (metis prod.exhaust)
      define s3 where "s3 = set_files st2 s2"
      have ok2': "sh_ok f \<alpha> wh (insert q R) s2" using ok2 q by simp
      have ok3: "sh_ok f \<alpha> wh (insert q R) s3" unfolding s3_def
        by (rule sh_ok_files [OF ok2']) (use disk_read_good [OF assms(2) sh_ok_good [OF ok2'] assms(4) r2] in simp)
      define body where "body = Str (Some (cstr (out @ map (\<lambda>i. mm (q + of_nat i)) [length out..<nat sz])))"
      have "prints f (tell f (line_of ''%s'') [body])" by (intro prints_tell assms(1)) (simp add: shell_formats body_def)
      from prints_ok [OF this ok3] obtain s4 where 4: "tell f (line_of ''%s'') [body] s3 = Some s4" "sh_ok f \<alpha> wh (insert q R) s4" .
      have "ready \<alpha> wh (insert q R) (sh_gui s4)" "q \<in> insert q R" using 4 by (simp_all add: sh_ok_def)
      from sh_kfree_ready [OF this] obtain s5 where
        5: "sh_kfree q s4 = Some s5" "sh_con s5 = sh_con s4" "sh_mem s5 = sh_mem s4" "ready \<alpha> wh (insert q R - {q}) (sh_gui s5)" .
      have "cmd_cat bus mm f name s = Some s5"
        using True q k(1) 4(1) 5(1) by (simp add: cmd_cat_def r s1_def [symmetric] r2 s3_def [symmetric] body_def Let_def)
      moreover have "sh_ok f \<alpha> wh R s5" using 4 5 k(6) by (simp add: sh_ok_def con_ok_def)
      ultimately show ?thesis by blast
    qed
  qed
qed

lemma mem_ok:
  assumes "drawable f" "sh_ok f \<alpha> wh R s"
  shows "\<exists>s'. cmd_mem f s = Some s' \<and> sh_ok f \<alpha> wh R s'"
proof -
  have u: "37 \<notin> set (line_of ''  BIOS E820 memory map:'')" by code_simp
  from prints_ok [OF prints_plain [OF assms(1) u] assms(2)] obtain s1 where
    1: "tell f (line_of ''  BIOS E820 memory map:'') [] s = Some s1" "sh_ok f \<alpha> wh R s1" .
  from prints_ok [OF prints_mem_lines [OF assms(1)] 1(2)] obtain s2 where
    2: "mem_lines f [0..<unat (memmap_count (sh_mem s1))] s1 = Some s2" "sh_ok f \<alpha> wh R s2" .
  define pm where "pm = pg_pmm (heap_pg (gui_heap (sh_gui s2)))"
  have "prints f (tell f (10 # line_of ''  physical : %u KB free of %u KB usable (4 KB frames)'')
      [Num (pmm_free_kb pm), Num (pmm_total_kb pm)] :: 'a shell \<Rightarrow> 'a shell option)"
    by (intro prints_tell assms(1)) (simp only: list.map shape.simps shell_formats not_False_eq_True)
  from prints_ok [OF this 2(2)] obtain s3 where 3: "tell f (10 # line_of ''  physical : %u KB free of %u KB usable (4 KB frames)'')
      [Num (pmm_free_kb pm), Num (pmm_total_kb pm)] s2 = Some s3" "sh_ok f \<alpha> wh R s3" "sh_gui s3 = sh_gui s2" .
  have "stat_walk (sh_gui s2)" using sane_stat_walk [of "sh_gui s2"] ready_good [of \<alpha> wh R "sh_gui s2"] 2(2) by (simp add: sh_ok_def)
  then obtain n where n: "heap_used_bytes (gui_heap (sh_gui s2)) = Some n" by (auto simp: stat_walk_def)
  have "prints f (tell f (line_of ''  heap     : %u KB mapped at %p, %u bytes in use'')
      [Num (heap_mapped_bytes (gui_heap (sh_gui s2)) div 1024), Num HEAP_BASE, Num n] :: 'a shell \<Rightarrow> 'a shell option)"
    by (intro prints_tell assms(1)) (simp add: shell_formats)
  from prints_end [OF this 3(2)] show ?thesis using 1 2 3 n by (simp add: cmd_mem_def pm_def)
qed

subsection \<open>Pictures and the mouse\<close>

lemma sketch_returns: "(\<And>p m. p \<in> set ps \<Longrightarrow> \<exists>m'. p m = Some m') \<Longrightarrow> \<exists>m'. sketch ps m = Some m'"
  unfolding sketch_def
proof (induction ps arbitrary: m)
  case (Cons p ps)
  obtain m1 where "p m = Some m1" using Cons.prems [of p m] by auto
  moreover obtain m2 where "sketch ps m1 = Some m2" using Cons by (fastforce simp: sketch_def)
  ultimately show ?case by (simp add: sketch_def)
qed simp

lemma picture_draw_rect [pictures]:
  assumes "canvas f"
  shows "picture f (\<lambda>m. fb_draw_rect f x y w h c m)"
proof -
  note r = picture_fill_rect [OF assms]
  show ?thesis unfolding fb_draw_rect_def Let_def
    by (rule picture_comp [OF picture_comp [OF picture_comp [OF r r] r] r])
qed

lemma drawing_returns: "drawing f p \<Longrightarrow> \<exists>m'. p m = Some m'"
  using drawing_back by blast

lemma drawing_each: "(\<And>i. drawing f (g i)) \<Longrightarrow> drawing f (sketch (map g is))"
  by (rule drawing_sketch) (simp add: list_all_iff)

lemma drawing_starburst: "canvas f \<Longrightarrow> drawing f (starburst f cx cy)"
  unfolding starburst_def by (intro drawing_each drawing_sketch) (simp add: drawing_line)

lemma picture_shell_panda: "canvas f \<Longrightarrow> picture f (shell_panda f x y s)"
  unfolding shell_panda_def [abs_def] Let_def by (rule picture_paint) (simp add: picture_fill_rect)

lemma gfx_returns:
  assumes "canvas f" "sint (fb_width f) \<noteq> 81"
  shows "\<exists>m'. gfx_picture f m = Some m'"
proof -
  have "drawing f (gfx_picture f)"
    unfolding gfx_picture_def Let_def if_not_P [OF assms(2)]
  proof (rule drawing_sketch, unfold list.pred_inject, intro conjI TrueI)
  qed (simp | rule drawing_ink drawing_starburst picture_fill_rect picture_text picture_for picture_draw_rect picture_shell_panda assms(1))+
  then show ?thesis by (rule drawing_returns)
qed

end
