(* ===== verification/Shell_Memtest.thy ===== *)
theory Shell_Memtest
  imports Shell_Safe
begin

text \<open>
  The command \<open>memtest\<close>: three blocks are allocated, filled and verified, one is given back and another
  allocated in its place, the first is verified again, and everything is freed. On a heap in order it
  passes, because blocks are apart from each other and from the two buffers of the screen.
\<close>

subsection \<open>Blocks\<close>

lemma step_alloc:
  assumes "heap_sane hp" "heap_inv hp as" "n \<noteq> 0" "unat n \<le> max_request"
  obtains p hp' as' where "kmalloc n hp = Some (p, hp')" "heap_sane hp'" "heap_inv hp' as'" "spent hp' \<le> spent hp"
    "p = 0 \<and> live (blocks hp') as' = live (blocks hp) as \<or>
     p \<noteq> 0 \<and> (\<exists>k \<ge> unat n. live (blocks hp') as' = insert (p - 12, k) (live (blocks hp) as) \<and>
       (\<forall>r \<in> live (blocks hp) as. apart (p - 12) k r))"
proof -
  from heap_alloc_returns [OF assms(1,3,4,2)] obtain p hp' as' where k: "kmalloc n hp = Some (p, hp')" "heap_inv hp' as'"
    "p = 0 \<and> live (blocks hp') as' = live (blocks hp) as \<or>
     p \<noteq> 0 \<and> (\<exists>k \<ge> unat n. live (blocks hp') as' = insert (p - 12, k) (live (blocks hp) as) \<and>
       (\<forall>r \<in> live (blocks hp) as. apart (p - 12) k r))" by blast
  then have "heap_alloc n hp = (p, hp')" by (simp add: heap_alloc_def)
  from heap_alloc_contract [OF assms(1,4) this] have "heap_sane hp'" by simp
  moreover have "spent hp' \<le> spent hp"
    using kmalloc_within [OF _ k(1)] assms(1) by (simp add: heap_sane_def within_def)
  ultimately show ?thesis using that k by blast
qed

lemma step_free:
  assumes "heap_sane hp" "heap_inv hp as" "(p - 12, k) \<in> live (blocks hp) as"
  obtains hp' as' where "kfree p hp = Some hp'" "heap_sane hp'" "heap_inv hp' as'"
    "live (blocks hp') as' = live (blocks hp) as - {(p - 12, k)}"
proof -
  from kfree_removes [OF assms(2,3)] obtain hp' as' where f: "kfree p hp = Some hp'" "heap_inv hp' as'"
    "live (blocks hp') as' = live (blocks hp) as - {(p - 12, k)}" by blast
  have "p \<in> heap_owned hp" using assms(3) by (auto simp: heap_owned_eq [OF assms(2)])
  from heap_release_contract [OF assms(1) this] f(1) have "heap_sane hp'" by (simp add: heap_release_def)
  with that f show ?thesis by blast
qed

text \<open>The bytes of a block.\<close>

definition in_block :: "u32 \<Rightarrow> nat \<Rightarrow> u32 \<Rightarrow> bool" where
  "in_block p n a \<longleftrightarrow> unat p \<le> unat a \<and> unat a < unat p + n"

lemma live_extent:
  assumes "heap_inv hp as" "(p - 12, k) \<in> live (blocks hp) as"
  shows "0xD0000000 \<le> unat p" "unat p + k \<le> 0xD0000000 + unat (heap_mapped hp)" "unat p + k < 4294967296" "unat (p - 12) = unat p - 12"
proof -
  have t: "tiled (blocks hp) 0xD0000000 as (0xD0000000 + unat (heap_mapped hp))" "0xD0000000 + unat (heap_mapped hp) < 4294967296"
    using assms(1) by (simp_all add: heap_inv_def)
  have "p - 12 \<in> set as" "k = unat (b_size (blocks hp (p - 12)))" using assms(2) by (simp_all add: live_def)
  then have b: "0xD0000000 \<le> unat (p - 12)" "unat (p - 12) + 12 + k \<le> 0xD0000000 + unat (heap_mapped hp)"
    using tiled_bounds [OF t(1)] by auto
  have "unat p = unat (p - 12) + 12" using unat_add32 [of "p - 12" 12] b t(2) by simp
  then show "0xD0000000 \<le> unat p" "unat p + k \<le> 0xD0000000 + unat (heap_mapped hp)" "unat p + k < 4294967296"
    "unat (p - 12) = unat p - 12" using b t(2) by simp_all
qed

lemma apart_blocks:
  assumes "apart (p - 12) k (q - 12, j)" "unat (p - 12) = unat p - 12" "unat (q - 12) = unat q - 12" "12 \<le> unat p" "12 \<le> unat q"
    and "in_block p k x"
  shows "\<not> in_block q j x"
  using assms by (auto simp: apart_def in_block_def)

lemma in_block_set:
  assumes "unat p + k < 4294967296" "unat n \<le> k" "\<not> in_block p k x"
  shows "memset m p v n x = m x"
  using assms unat_lt32 [of x] by (auto simp: memset_eq set_bytes_def in_block_def unat_sub_if' split: if_splits)

lemma memset_hits:
  assumes "i < unat n"
  shows "memset m p v n (p + of_nat i) = v"
proof -
  have "unat (of_nat i :: u32) = i" using assms unat_lt32 [of n] by (intro unat_of_nat32) linarith
  then show ?thesis using assms by (simp add: memset_eq set_bytes_def)
qed

lemma in_block_nth:
  assumes "unat p + k < 4294967296" "i < k"
  shows "in_block p k (p + of_nat i)"
proof -
  have "unat (of_nat i :: u32) = i" using assms by (intro unat_of_nat32) linarith
  then have "unat (p + of_nat i) = unat p + i" using unat_add32 [of p "of_nat i"] assms by simp
  then show ?thesis using assms by (simp add: in_block_def)
qed

lemma first_bad_none: "first_bad m p v n = None \<longleftrightarrow> (\<forall>i < n. m (p + of_nat i) = v)"
  by (auto simp: first_bad_def find_None_iff)

text \<open>The buffer drawn in is a block of the heap, and neither the display's memory nor the pointer's
  image is in its range.\<close>

definition screen_block :: "framebuffer \<Rightarrow> heap \<Rightarrow> bool" where
  "screen_block f hp \<longleftrightarrow> (\<exists>as k. heap_inv hp as \<and> (backbuf f - 12, k) \<in> live (blocks hp) as \<and> buffer_bytes f \<le> k) \<and>
     (unat (lfb f) + buffer_bytes f \<le> 0xD0000000 \<or> 0xD0000000 + spent hp \<le> unat (lfb f)) \<and>
     unat (cur_sprite f) + 4 * nat (cur_w f * cur_h f) \<le> 0xD0000000"

lemma screen_block_live:
  assumes "screen_block f hp" "heap_inv hp as"
  obtains k where "(backbuf f - 12, k) \<in> live (blocks hp) as" "buffer_bytes f \<le> k"
proof -
  obtain as' k where "heap_inv hp as'" "(backbuf f - 12, k) \<in> live (blocks hp) as'" "buffer_bytes f \<le> k"
    using assms(1) by (auto simp: screen_block_def)
  moreover from this assms(2) have "as' = as" using chain_unique by (auto simp: heap_inv_def)
  ultimately show ?thesis using that by blast
qed

lemma screen_block_off:
  assumes "screen_block f hp" "heap_inv hp as" "heap_inv hp' as'" "spent hp' \<le> spent hp"
    and "(p - 12, k) \<in> live (blocks hp') as'" "\<forall>r \<in> live (blocks hp) as. apart (p - 12) k r" "in_block p k x"
  shows "off f (backbuf f) x" "off f (lfb f) x" "0xD0000000 \<le> unat x"
proof -
  obtain j where b: "(backbuf f - 12, j) \<in> live (blocks hp) as" "buffer_bytes f \<le> j"
    using screen_block_live [OF assms(1,2)] by blast
  note e = live_extent [OF assms(2) b(1)] live_extent [OF assms(3,5)]
  have "apart (p - 12) k (backbuf f - 12, j)" using assms(6) b(1) by blast
  then have "\<not> in_block (backbuf f) j x" using apart_blocks [OF _ e(8,4) _ _ assms(7)] e(1,5) by simp
  then show "off f (backbuf f) x" using b(2) by (auto simp: in_block_def off_def)
  show "0xD0000000 \<le> unat x" using e(5) assms(7) by (simp add: in_block_def)
  have "unat (heap_mapped hp') \<le> spent hp'" by (simp add: spent_def)
  then show "off f (lfb f) x" using assms(1,4,7) e(5,6) by (auto simp: screen_block_def in_block_def off_def)
qed

lemma sprite_low:
  assumes "unat (cur_sprite f) + 4 * nat (cur_w f * cur_h f) \<le> 0xD0000000" "p \<in> sprite_rect f"
    and "\<And>a. unat a < 0xD0000000 \<Longrightarrow> m' a = m a"
  shows "sprite_at f m' p = sprite_at f m p"
proof -
  let ?f = "f\<lparr>pitch := 0x30000000, framebuffer.scr_h := 1\<rparr>"
  have eq: "sprite_at ?f n p = sprite_at f n p" for n
    by (simp add: sprite_at_def sprite_pixel_def)
  have h: "m' a = m a" if "unat a < unat (0xD0000000 :: u32) \<or> unat (0xD0000000 :: u32) + buffer_bytes ?f \<le> unat a" for a
    using that unat_lt32 [of a] assms(3) [of a] by (auto simp: buffer_bytes_def)
  have "sprite_clear ?f 0xD0000000" "p \<in> sprite_rect ?f"
    using assms(1,2) by (simp_all add: sprite_clear_def buffer_bytes_def sprite_rect_def)
  from sprite_cong [OF this h] show ?thesis by (simp only: eq)
qed

text \<open>Writing in a block that is off the screen does not change what is shown.\<close>

lemma pixel_kept:
  assumes "surface f base" "on_screen f p" "\<And>a. \<not> off f base a \<Longrightarrow> m' a = m a"
  shows "pixel f base m' p = pixel f base m p"
proof -
  have "\<not> off f base (pix f base p k)" if "k < 3" for k
  proof -
    have "k < unat (bypp f)" using bypp_values [OF assms(1)] that by auto
    then show ?thesis using unat_pix [OF assms(1,2), of k] pixel_index_bound [OF assms(1,2), of k] by (simp add: off_def buffer_bytes_def)
  qed
  then show ?thesis using assms(3) by (simp add: pixel_def)
qed

lemma screen_shows_kept:
  assumes "canvas f" "screen_shows f m" "unat (cur_sprite f) + 4 * nat (cur_w f * cur_h f) \<le> 0xD0000000"
    and "\<And>a. \<not> off f (backbuf f) a \<or> \<not> off f (lfb f) a \<or> unat a < 0xD0000000 \<Longrightarrow> m' a = m a"
  shows "screen_shows f m'"
  unfolding screen_shows_def
proof (intro allI impI)
  fix p assume p: "on_screen f p"
  note d = canvasD [OF assms(1)]
  have b: "pixel f (backbuf f) m' p = pixel f (backbuf f) m p" by (rule pixel_kept [OF d(5) p]) (use assms(4) in blast)
  have l: "pixel f (lfb f) m' p = pixel f (lfb f) m p" by (rule pixel_kept [OF d(6) p]) (use assms(4) in blast)
  have "p \<in> sprite_rect f \<Longrightarrow> sprite_at f m' p = sprite_at f m p" by (rule sprite_low [OF assms(3)]) (use assms(4) in blast)+
  then show "pixel f (lfb f) m' p = composed f m' p"
    using screen_showsD [OF assms(2) p] b l by (auto simp: composed_def)
qed

lemma tell_step:
  assumes "canvas f" "con_ok f s" "kvprintf fmt (map shape args) \<noteq> None"
  obtains s' where "tell f fmt args s = Some s'" "con_ok f s'" "sh_gui s' = sh_gui s" "same_elsewhere f (sh_mem s) (sh_mem s')"
proof -
  obtain out where o: "kvprintf fmt args = Some out" using assms(3) kvprintf_shape [of fmt args] by auto
  obtain t m where t: "console_print f out (sh_con s, sh_mem s) = (t, m)" by fastforce
  have "con_ok f (s\<lparr>sh_con := t, sh_mem := m\<rparr>)"
    using console_print_ok [OF canvasD(1) [OF assms(1)] assms(2) [unfolded con_ok_def], of out] t by (simp add: con_ok_def)
  moreover have "same_elsewhere f (sh_mem s) m" using print_elsewhere [OF assms(1), of "(sh_con s, sh_mem s)" out] t by simp
  ultimately show ?thesis
    using that [of "s\<lparr>sh_con := t, sh_mem := m\<rparr>"] o t by (simp add: tell_def on_console_def kprintf_def)
qed

lemma tell_plain:
  assumes "canvas f" "con_ok f s" "37 \<notin> set fmt"
  obtains s' where "tell f fmt [] s = Some s'" "con_ok f s'" "sh_gui s' = sh_gui s" "same_elsewhere f (sh_mem s) (sh_mem s')"
proof -
  have "37 \<notin> set fmt \<Longrightarrow> kvprintf fmt [] = Some fmt" by (induction fmt) auto
  then show ?thesis using tell_step [OF assms(1,2), of fmt "[]"] that assms(3) by auto
qed

subsection \<open>The test\<close>

lemma with_heap_simps [simp]:
  "gui_heap (with_heap h g) = h" "with_heap h (with_heap h' g) = with_heap h g"
  by (simp_all add: gui_heap_def with_heap_def)

lemma without_new: "x \<notin> X \<Longrightarrow> insert x X - {p} - {q} - {x} = X - {p} - {q}"
  by blast

lemma without_three: "X - {q} - {p} - {r} = X - {p, q, r}"
  by blast

lemma memtest_free_ok:
  assumes "canvas f" "con_ok f s" "heap_sane hp" "heap_inv hp as" "gui_heap (sh_gui s) = hp"
    and "(a - 12, ka) \<in> live (blocks hp) as" "(b - 12, kb) \<in> live (blocks hp) as" "(c - 12, kc) \<in> live (blocks hp) as"
    and "a \<noteq> b" "a \<noteq> c" "b \<noteq> c" "8192 \<le> ka" and o: "\<And>x. in_block a ka x \<Longrightarrow> off f (backbuf f) x \<and> off f (lfb f) x"
    and m: "\<And>i. i < 8192 \<Longrightarrow> sh_mem s (a + of_nat i) = 0xAA"
  shows "\<exists>s' hp' as'. memtest_free f a b c s = Some s' \<and> con_ok f s' \<and> sh_gui s' = with_heap hp' (sh_gui s) \<and> heap_sane hp' \<and>
    heap_inv hp' as' \<and> live (blocks hp') as' = live (blocks hp) as - {(a - 12, ka), (b - 12, kb), (c - 12, kc)} \<and>
    same_elsewhere f (sh_mem s) (sh_mem s')"
proof -
  have u: "37 \<notin> set (ascii ''  free b, alloc d=32 KB (should reuse b'' @ [39] @ ascii ''s space) ... '')"
    "37 \<notin> set (ascii ''  verifying a survived ... '')" "37 \<notin> set (line_of ''ok'')" by code_simp+
  obtain s1 where 1: "tell f (ascii ''  free b, alloc d=32 KB (should reuse b'' @ [39] @ ascii ''s space) ... '') [] s = Some s1"
    "con_ok f s1" "sh_gui s1 = sh_gui s" "same_elsewhere f (sh_mem s) (sh_mem s1)" using tell_plain [OF assms(1,2) u(1)] .
  obtain h2 as2 where h2: "kfree b hp = Some h2" "heap_sane h2" "heap_inv h2 as2" "live (blocks h2) as2 = live (blocks hp) as - {(b - 12, kb)}"
    using step_free [OF assms(3,4,7)] .
  have "(32 * 1024 :: u32) \<noteq> 0" "unat (32 * 1024 :: u32) \<le> max_request" by (simp_all add: max_request_def)
  note al = step_alloc [OF h2(2,3) this]
  obtain d h3 as3 where h3: "kmalloc (32 * 1024) h2 = Some (d, h3)" "heap_sane h3" "heap_inv h3 as3" "spent h3 \<le> spent h2"
    "d = 0 \<and> live (blocks h3) as3 = live (blocks h2) as2 \<or>
     d \<noteq> 0 \<and> (\<exists>k \<ge> unat (32 * 1024 :: u32). live (blocks h3) as3 = insert (d - 12, k) (live (blocks h2) as2) \<and>
       (\<forall>r \<in> live (blocks h2) as2. apart (d - 12) k r))" using al .
  define s2 where "s2 = s1\<lparr>sh_gui := with_heap h2 (sh_gui s)\<rparr>"
  define s3 where "s3 = s1\<lparr>sh_gui := with_heap h3 (sh_gui s)\<rparr>"
  have c3: "con_ok f s3" "sh_mem s3 = sh_mem s1" using 1(2) by (simp_all add: s3_def con_ok_def)
  have "kvprintf (line_of ''ok (d=%p)'') (map shape [Num d]) \<noteq> None" by (simp add: shell_formats)
  from tell_step [OF assms(1) c3(1) this] obtain s4 where 4: "tell f (line_of ''ok (d=%p)'') [Num d] s3 = Some s4"
    "con_ok f s4" "sh_gui s4 = sh_gui s3" "same_elsewhere f (sh_mem s3) (sh_mem s4)" .
  obtain s5 where 5: "tell f (ascii ''  verifying a survived ... '') [] s4 = Some s5"
    "con_ok f s5" "sh_gui s5 = sh_gui s4" "same_elsewhere f (sh_mem s4) (sh_mem s5)" using tell_plain [OF assms(1) 4(2) u(2)] .
  have e5: "same_elsewhere f (sh_mem s) (sh_mem s5)" using 1(4) 4(4) 5(4) by (simp add: same_elsewhere_def c3(2))
  have "in_block a ka (a + of_nat i)" if "i < 8192" for i
    using in_block_nth [of a ka i] live_extent(3) [OF assms(4,6)] assms(12) that by linarith
  then have g: "first_bad (sh_mem s5) a 0xAA (8 * 1024) = None" using e5 o m by (simp add: first_bad_none same_elsewhere_def)
  obtain s6 where 6: "tell f (line_of ''ok'') [] s5 = Some s6"
    "con_ok f s6" "sh_gui s6 = sh_gui s5" "same_elsewhere f (sh_mem s5) (sh_mem s6)" using tell_plain [OF assms(1) 5(2) u(3)] .
  have "a - 12 \<noteq> b - 12" "c - 12 \<noteq> b - 12" using assms(9,11) by simp_all
  then have l2: "(a - 12, ka) \<in> live (blocks h2) as2" "(c - 12, kc) \<in> live (blocks h2) as2" using assms(6,8) by (simp_all add: h2(4))
  have "live (blocks h2) as2 \<subseteq> live (blocks h3) as3" using h3(5) by (elim disjE conjE exE) (simp_all add: subset_insertI)
  then have l3: "(a - 12, ka) \<in> live (blocks h3) as3" "(c - 12, kc) \<in> live (blocks h3) as3" using l2 by blast+
  obtain h7 as7 where h7: "kfree a h3 = Some h7" "heap_sane h7" "heap_inv h7 as7" "live (blocks h7) as7 = live (blocks h3) as3 - {(a - 12, ka)}"
    using step_free [OF h3(2,3) l3(1)] .
  have l7: "(c - 12, kc) \<in> live (blocks h7) as7" using l3(2) assms(10) by (simp add: h7(4))
  obtain h8 as8 where h8: "kfree c h7 = Some h8" "heap_sane h8" "heap_inv h8 as8" "live (blocks h8) as8 = live (blocks h7) as7 - {(c - 12, kc)}"
    using step_free [OF h7(2,3) l7] .
  obtain h9 as9 where h9: "kfree d h8 = Some h9" "heap_sane h9" "heap_inv h9 as9"
    "live (blocks h9) as9 = live (blocks hp) as - {(a - 12, ka), (b - 12, kb), (c - 12, kc)}"
  proof (cases "d = 0")
    case True
    then have "live (blocks h3) as3 = live (blocks h2) as2" using h3(5) by simp
    then have "live (blocks h8) as8 = live (blocks hp) as - {(a - 12, ka), (b - 12, kb), (c - 12, kc)}"
      unfolding h8(4) h7(4) by (simp only: h2(4) without_three)
    then show ?thesis using that [of h8 as8] h8(2,3) True by (simp add: kfree_def)
  next
    case False
    then obtain k where k: "live (blocks h3) as3 = insert (d - 12, k) (live (blocks h2) as2)" "\<forall>r \<in> live (blocks h2) as2. apart (d - 12) k r"
      using h3(5) False by (elim disjE conjE exE) simp_all
    have n: "(d - 12, j) \<notin> live (blocks h2) as2" for j using bspec [OF k(2), of "(d - 12, j)"] by (auto simp: apart_def)
    have "d - 12 \<noteq> a - 12" "d - 12 \<noteq> c - 12" using n [of ka] n [of kc] l2 by metis+
    then have "(d - 12, k) \<in> live (blocks h8) as8" unfolding h8(4) h7(4) k(1) by simp
    from step_free [OF h8(2,3) this] obtain h9 as9 where h9: "kfree d h8 = Some h9" "heap_sane h9" "heap_inv h9 as9"
      "live (blocks h9) as9 = live (blocks h8) as8 - {(d - 12, k)}" .
    have "live (blocks h8) as8 - {(d - 12, k)} = live (blocks hp) as - {(a - 12, ka), (b - 12, kb), (c - 12, kc)}"
      unfolding h8(4) h7(4) k(1) without_new [OF n [of k]] unfolding h2(4) by (rule without_three)
    then show ?thesis by (intro that [OF h9(1-3)]) (simp only: h9(4))
  qed
  define s9 where "s9 = s6\<lparr>sh_gui := with_heap h9 (sh_gui s)\<rparr>"
  have c9: "con_ok f s9" using 6(2) by (simp add: s9_def con_ok_def)
  have "stat_walk (sh_gui s9)" using sane_stat_walk [of "sh_gui s9"] h9(2) by (simp add: s9_def)
  moreover have gs: "gui_heap (sh_gui s9) = h9" by (simp add: s9_def)
  ultimately obtain n where n: "heap_used_bytes h9 = Some n" by (auto simp: stat_walk_def)
  have "kvprintf (line_of ''  all freed. heap: %u KB mapped, %u bytes in use'') (map shape [Num (heap_mapped_bytes h9 div 1024), Num n]) \<noteq> None"
    by (simp add: shell_formats)
  from tell_step [OF assms(1) c9 this] obtain t where t:
    "tell f (line_of ''  all freed. heap: %u KB mapped, %u bytes in use'') [Num (heap_mapped_bytes h9 div 1024), Num n] s9 = Some t"
    "con_ok f t" "sh_gui t = sh_gui s9" "same_elsewhere f (sh_mem s9) (sh_mem t)" .
  have k: "sh_kfree b s1 = Some s2" "sh_kmalloc (32 * 1024) s2 = Some (d, s3)"
    using h2(1) h3(1) assms(5) 1(3) by (simp_all add: sh_kfree_def sh_kmalloc_def s2_def s3_def)
  define s7 where "s7 = s6\<lparr>sh_gui := with_heap h7 (sh_gui s)\<rparr>"
  define s8 where "s8 = s6\<lparr>sh_gui := with_heap h8 (sh_gui s)\<rparr>"
  have k2: "sh_kfree a s6 = Some s7" "sh_kfree c s7 = Some s8" "sh_kfree d s8 = Some s9"
    using h7(1) h8(1) h9(1) 4(3) 5(3) 6(3) by (simp_all add: sh_kfree_def s7_def s8_def s9_def s3_def)
  have "memtest_free f a b c s = Some t"
    by (simp only: memtest_free_def 1(1) k 4(1) 5(1) g 6(1) k2 gs n t(1) Option.bind.simps prod.case option.case)
  moreover have "same_elsewhere f (sh_mem s) (sh_mem t)"
    using e5 6(4) t(4) by (simp add: same_elsewhere_def s9_def)
  moreover have "sh_gui t = with_heap h9 (sh_gui s)" using t(3) by (simp add: s9_def)
  ultimately show ?thesis using t(2) h9 by blast
qed

text \<open>Three blocks of the heap, apart from each other and off the screen.\<close>

lemma three_filled:
  assumes "unat a + ka < 4294967296" "unat b + kb < 4294967296" "unat c + kc < 4294967296" "8192 \<le> ka" "102400 \<le> kb" "16 \<le> kc"
    and dis: "\<forall>x. in_block a ka x \<longrightarrow> \<not> in_block b kb x \<and> \<not> in_block c kc x" "\<forall>x. in_block b kb x \<longrightarrow> \<not> in_block c kc x"
    and m: "m' = memset (memset (memset m a 0xAA (8 * 1024)) b 0x5B (100 * 1024)) c 0xC7 16"
  shows "first_bad m' a 0xAA (8 * 1024) = None" "first_bad m' b 0x5B (100 * 1024) = None"
    "\<And>x. \<not> in_block a ka x \<Longrightarrow> \<not> in_block b kb x \<Longrightarrow> \<not> in_block c kc x \<Longrightarrow> m' x = m x"
    "\<And>i. i < 8192 \<Longrightarrow> m' (a + of_nat i) = 0xAA"
proof -
  have n: "unat (8 * 1024 :: u32) = 8192" "unat (100 * 1024 :: u32) = 102400" "unat (16 :: u32) = 16" by simp_all
  have sz: "unat (8 * 1024 :: u32) \<le> ka" "unat (100 * 1024 :: u32) \<le> kb" "unat (16 :: u32) \<le> kc" unfolding n using assms(4-6) .
  note pa = in_block_set [OF assms(1) sz(1)] and pb = in_block_set [OF assms(2) sz(2)] and pc = in_block_set [OF assms(3) sz(3)]
  show a: "m' (a + of_nat i) = 0xAA" if "i < 8192" for i
  proof -
    have i: "in_block a ka (a + of_nat i)" using in_block_nth [OF assms(1), of i] that assms(4) by linarith
    have "i < unat (8 * 1024 :: u32)" using that by (simp only: n)
    moreover have "\<not> in_block b kb (a + of_nat i)" "\<not> in_block c kc (a + of_nat i)" using dis(1) i by blast+
    ultimately show ?thesis unfolding m by (simp only: pc pb memset_hits not_False_eq_True)
  qed
  have b: "m' (b + of_nat i) = 0x5B" if "i < 102400" for i
  proof -
    have i: "in_block b kb (b + of_nat i)" using in_block_nth [OF assms(2), of i] that assms(5) by linarith
    have "i < unat (100 * 1024 :: u32)" using that by (simp only: n)
    moreover have "\<not> in_block c kc (b + of_nat i)" using dis(2) i by blast
    ultimately show ?thesis unfolding m by (simp only: pc memset_hits not_False_eq_True)
  qed
  show "first_bad m' a 0xAA (8 * 1024) = None" "first_bad m' b 0x5B (100 * 1024) = None" using a b by (simp_all add: first_bad_none)
  show "\<And>x. \<not> in_block a ka x \<Longrightarrow> \<not> in_block b kb x \<Longrightarrow> \<not> in_block c kc x \<Longrightarrow> m' x = m x"
    unfolding m by (simp only: pa pb pc not_False_eq_True)
qed

lemma memtest_passes:
  assumes "canvas f" "con_ok f s" "heap_sane hp" "heap_inv hp as" "gui_heap (sh_gui s) = hp" "screen_block f hp"
    and ka: "kmalloc (8 * 1024) hp = Some (a, h1)" "a \<noteq> 0" and kb: "kmalloc (100 * 1024) h1 = Some (b, h2)" "b \<noteq> 0"
    and kc: "kmalloc 16 h2 = Some (c, h3)" "c \<noteq> 0"
  shows "\<exists>s' hp' as'. cmd_memtest f s = Some s' \<and> con_ok f s' \<and> sh_gui s' = with_heap hp' (sh_gui s) \<and> heap_sane hp' \<and>
    heap_inv hp' as' \<and> live (blocks hp') as' = live (blocks hp) as"
proof -
  have sz: "(8 * 1024 :: u32) \<noteq> 0" "unat (8 * 1024 :: u32) \<le> max_request" "(100 * 1024 :: u32) \<noteq> 0" "unat (100 * 1024 :: u32) \<le> max_request"
    "(16 :: u32) \<noteq> 0" "unat (16 :: u32) \<le> max_request" by (simp_all add: max_request_def)
  obtain na as1 where 1: "heap_sane h1" "heap_inv h1 as1" "spent h1 \<le> spent hp" "unat (8 * 1024 :: u32) \<le> na"
    "live (blocks h1) as1 = insert (a - 12, na) (live (blocks hp) as)" "\<forall>r \<in> live (blocks hp) as. apart (a - 12) na r"
    by (rule step_alloc [OF assms(3,4) sz(1,2)]) (use ka in fastforce)
  obtain nb as2 where 2: "heap_sane h2" "heap_inv h2 as2" "spent h2 \<le> spent h1" "unat (100 * 1024 :: u32) \<le> nb"
    "live (blocks h2) as2 = insert (b - 12, nb) (live (blocks h1) as1)" "\<forall>r \<in> live (blocks h1) as1. apart (b - 12) nb r"
    by (rule step_alloc [OF 1(1,2) sz(3,4)]) (use kb in fastforce)
  obtain nc as3 where 3: "heap_sane h3" "heap_inv h3 as3" "spent h3 \<le> spent h2" "unat (16 :: u32) \<le> nc"
    "live (blocks h3) as3 = insert (c - 12, nc) (live (blocks h2) as2)" "\<forall>r \<in> live (blocks h2) as2. apart (c - 12) nc r"
    by (rule step_alloc [OF 2(1,2) sz(5,6)]) (use kc in fastforce)
  have l: "(a - 12, na) \<in> live (blocks h1) as1" "(b - 12, nb) \<in> live (blocks h2) as2" "(c - 12, nc) \<in> live (blocks h3) as3"
    "(a - 12, na) \<in> live (blocks h2) as2" "(a - 12, na) \<in> live (blocks h3) as3" "(b - 12, nb) \<in> live (blocks h3) as3"
    using 1(5) 2(5) 3(5) by simp_all
  note ea = live_extent [OF 1(2) l(1)] and eb = live_extent [OF 2(2) l(2)] and ec = live_extent [OF 3(2) l(3)]
  have ap: "apart (b - 12) nb (a - 12, na)" "apart (c - 12) nc (a - 12, na)" "apart (c - 12) nc (b - 12, nb)"
    using 2(6) 3(6) l by blast+
  have sub: "live (blocks hp) as \<subseteq> live (blocks h1) as1" "live (blocks hp) as \<subseteq> live (blocks h2) as2"
    using 1(5) 2(5) by (simp_all add: subset_insertI subset_insertI2)
  have sp: "spent h2 \<le> spent hp" "spent h3 \<le> spent hp" using 1(3) 2(3) 3(3) by linarith+
  have no: "\<forall>r \<in> live (blocks hp) as. apart (b - 12) nb r" "\<forall>r \<in> live (blocks hp) as. apart (c - 12) nc r" using 2(6) 3(6) sub by blast+
  note oa = screen_block_off [OF assms(6,4) 1(2,3) l(1) 1(6)]
    and ob = screen_block_off [OF assms(6,4) 2(2) sp(1) l(2) no(1)]
    and oc = screen_block_off [OF assms(6,4) 3(2) sp(2) l(3) no(2)]
  have h: "12 \<le> unat a" "12 \<le> unat b" "12 \<le> unat c" using ea(1) eb(1) ec(1) by simp_all
  have dis: "\<forall>x. in_block a na x \<longrightarrow> \<not> in_block b nb x \<and> \<not> in_block c nc x" "\<forall>x. in_block b nb x \<longrightarrow> \<not> in_block c nc x"
    using apart_blocks [OF ap(1) eb(4) ea(4) h(2,1)] apart_blocks [OF ap(2) ec(4) ea(4) h(3,1)] apart_blocks [OF ap(3) ec(4) eb(4) h(3,2)] by blast+
  have u: "37 \<notin> set (ascii ''  alloc a=8 KB, b=100 KB, c=16 B ... '')" "37 \<notin> set (ascii ''  writing patterns, verifying ... '')"
    "37 \<notin> set (line_of ''ok'')" by code_simp+
  obtain s1 where s1: "tell f (ascii ''  alloc a=8 KB, b=100 KB, c=16 B ... '') [] s = Some s1" "con_ok f s1" "sh_gui s1 = sh_gui s"
    using tell_plain [OF assms(1,2) u(1)] by blast
  define t where "t = (\<lambda>h. s1\<lparr>sh_gui := with_heap h (sh_gui s)\<rparr>)"
  have k: "sh_kmalloc (8 * 1024) s1 = Some (a, t h1)" "sh_kmalloc (100 * 1024) (t h1) = Some (b, t h2)" "sh_kmalloc 16 (t h2) = Some (c, t h3)"
    using ka kb kc assms(5) s1(3) by (simp_all add: sh_kmalloc_def t_def)
  have "con_ok f (t h3)" using s1(2) by (simp add: t_def con_ok_def)
  moreover have "kvprintf (line_of ''ok (a=%p b=%p c=%p)'') (map shape [Num a, Num b, Num c]) \<noteq> None" by (simp add: shell_formats)
  ultimately obtain s2 where s2: "tell f (line_of ''ok (a=%p b=%p c=%p)'') [Num a, Num b, Num c] (t h3) = Some s2" "con_ok f s2" "sh_gui s2 = sh_gui (t h3)"
    using tell_step [OF assms(1)] by blast
  obtain s3 where s3: "tell f (ascii ''  writing patterns, verifying ... '') [] s2 = Some s3" "con_ok f s3" "sh_gui s3 = sh_gui s2"
    using tell_plain [OF assms(1) s2(2) u(2)] by blast
  define m where "m = memset (memset (memset (sh_mem s3) a 0xAA (8 * 1024)) b 0x5B (100 * 1024)) c 0xC7 16"
  have n: "8192 \<le> na" "102400 \<le> nb" "16 \<le> nc" using 1(4) 2(4) 3(4) by simp_all
  note w = three_filled [OF ea(3) eb(3) ec(3) n dis m_def]
  define s4 where "s4 = s3\<lparr>sh_mem := m\<rparr>"
  have keep: "m x = sh_mem s3 x" if "\<not> off f (backbuf f) x \<or> \<not> off f (lfb f) x \<or> unat x < 0xD0000000" for x
    by (rule w(3)) (use that oa [of x] ob [of x] oc [of x] in auto)
  have "screen_shows f m"
    by (rule screen_shows_kept [OF assms(1) _ _ keep]) (use s3(2) assms(6) in \<open>simp_all add: con_ok_def console_ok_def screen_block_def\<close>)
  then have c4: "con_ok f s4" using s3(2) by (simp add: s4_def con_ok_def console_ok_def)
  obtain s5 where s5: "tell f (line_of ''ok'') [] s4 = Some s5" "con_ok f s5" "sh_gui s5 = sh_gui s4" "same_elsewhere f (sh_mem s4) (sh_mem s5)"
    using tell_plain [OF assms(1) c4 u(3)] .
  have ne: "a \<noteq> b" "a \<noteq> c" "b \<noteq> c" using ap by (auto simp: apart_def)
  have g5: "gui_heap (sh_gui s5) = h3" by (simp add: s5(3) s4_def s3(3) s2(3) t_def)
  have oa': "in_block a na x \<Longrightarrow> off f (backbuf f) x \<and> off f (lfb f) x" for x using oa(1,2) by blast
  have m5: "sh_mem s5 (a + of_nat i) = 0xAA" if "i < 8192" for i
  proof -
    have "in_block a na (a + of_nat i)" using in_block_nth [OF ea(3), of i] that n(1) by linarith
    then have "sh_mem s5 (a + of_nat i) = sh_mem s4 (a + of_nat i)" using s5(4) oa' by (simp add: same_elsewhere_def)
    then show ?thesis using w(4) [OF that] by (simp add: s4_def)
  qed
  from memtest_free_ok [OF assms(1) s5(2) 3(1,2) g5 l(5,6,3) ne n(1) oa' m5] obtain s6 h6 as6 where
    6: "memtest_free f a b c s5 = Some s6" "con_ok f s6" "sh_gui s6 = with_heap h6 (sh_gui s5)" "heap_sane h6" "heap_inv h6 as6"
      "live (blocks h6) as6 = live (blocks h3) as3 - {(a - 12, na), (b - 12, nb), (c - 12, nc)}" by blast
  have "memtest_write f a b c (t h3) = Some s6"
    by (simp only: memtest_write_def s2(1) s3(1) Let_def m_def [symmetric] w(1,2) s4_def [symmetric] s5(1) 6(1)
        Option.bind.simps option.case)
  then have "cmd_memtest f s = Some s6"
    using ka(2) kb(2) kc(2) by (simp only: cmd_memtest_def s1(1) k Option.bind.simps prod.case simp_thms if_False)
  moreover have "sh_gui s6 = with_heap h6 (sh_gui s)" by (simp add: 6(3) s5(3) s4_def s3(3) s2(3) t_def)
  moreover have "(a - 12, na) \<notin> live (blocks hp) as" "(b - 12, nb) \<notin> live (blocks hp) as" "(c - 12, nc) \<notin> live (blocks hp) as"
    using 1(6) no by (auto simp: apart_def)
  then have "live (blocks h6) as6 = live (blocks hp) as" unfolding 6(6) 3(5) 2(5) 1(5) by blast
  ultimately show ?thesis using 6(2,4,5) by blast
qed

text \<open>Whatever the heap has left, the command comes back; only when an allocation fails do the blocks
  it had been given stay allocated.\<close>

lemma memtest_ok:
  assumes "canvas f" "sh_ok f \<alpha> wh R s" "screen_block f (gui_heap (sh_gui s))"
  shows "\<exists>s' R'. cmd_memtest f s = Some s' \<and> sh_ok f \<alpha> wh R' s' \<and> R \<subseteq> R'"
proof -
  have ok: "con_ok f s" "ready \<alpha> wh R (sh_gui s)" using assms(2) by (simp_all add: sh_ok_def)
  have sz: "(8 * 1024 :: u32) \<noteq> 0" "unat (8 * 1024 :: u32) \<le> max_request" "(100 * 1024 :: u32) \<noteq> 0" "unat (100 * 1024 :: u32) \<le> max_request"
    "(16 :: u32) \<noteq> 0" "unat (16 :: u32) \<le> max_request" by (simp_all add: max_request_def)
  have u: "37 \<notin> set (ascii ''  alloc a=8 KB, b=100 KB, c=16 B ... '')" "37 \<notin> set (line_of ''FAILED (out of memory?)'')" by code_simp+
  obtain s1 where s1: "tell f (ascii ''  alloc a=8 KB, b=100 KB, c=16 B ... '') [] s = Some s1" "con_ok f s1" "sh_gui s1 = sh_gui s"
    using tell_plain [OF assms(1) ok(1) u(1)] by blast
  have r1: "ready \<alpha> wh R (sh_gui s1)" using ok(2) s1(3) by simp
  define more where "more = (\<lambda>p X. if p = (0 :: u32) then X else insert p X)"
  have more: "X \<subseteq> more p X" for p X by (auto simp: more_def)
  obtain a s2 where a: "sh_kmalloc (8 * 1024) s1 = Some (a, s2)" "sh_con s2 = sh_con s1" "sh_mem s2 = sh_mem s1" "ready \<alpha> wh (more a R) (sh_gui s2)"
    using sh_kmalloc_ready [OF r1 sz(1,2)] unfolding more_def by metis
  obtain b s3 where b: "sh_kmalloc (100 * 1024) s2 = Some (b, s3)" "sh_con s3 = sh_con s2" "sh_mem s3 = sh_mem s2"
    "ready \<alpha> wh (more b (more a R)) (sh_gui s3)"
    using sh_kmalloc_ready [OF a(4) sz(3,4)] unfolding more_def by metis
  obtain c s4 where c: "sh_kmalloc 16 s3 = Some (c, s4)" "sh_con s4 = sh_con s3" "sh_mem s4 = sh_mem s3"
    "ready \<alpha> wh (more c (more b (more a R))) (sh_gui s4)"
    using sh_kmalloc_ready [OF b(4) sz(5,6)] unfolding more_def by metis
  show ?thesis
  proof (cases "a = 0 \<or> b = 0 \<or> c = 0")
    case True
    have "con_ok f s4" using s1(2) a(2,3) b(2,3) c(2,3) by (simp add: con_ok_def)
    from tell_plain [OF assms(1) this u(2)] obtain s5 where
      5: "tell f (line_of ''FAILED (out of memory?)'') [] s4 = Some s5" "con_ok f s5" "sh_gui s5 = sh_gui s4" .
    have "cmd_memtest f s = Some s5"
      using True 5(1) by (simp only: cmd_memtest_def s1(1) a(1) b(1) c(1) Option.bind.simps prod.case if_True)
    moreover have "sh_ok f \<alpha> wh (more c (more b (more a R))) s5" using 5 c(4) by (simp add: sh_ok_def)
    moreover have "R \<subseteq> more c (more b (more a R))" using more by (meson subset_trans)
    ultimately show ?thesis by blast
  next
    case False
    obtain ha hb hc where k: "kmalloc (8 * 1024) (gui_heap (sh_gui s)) = Some (a, ha)" "kmalloc (100 * 1024) ha = Some (b, hb)"
      "kmalloc 16 hb = Some (c, hc)"
      using a(1) b(1) c(1) s1(3) by (auto simp: sh_kmalloc_def)
    have hs: "heap_sane (gui_heap (sh_gui s))" "R \<subseteq> heap_owned (gui_heap (sh_gui s))" using ready_good [OF ok(2)] by simp_all
    obtain as where i: "heap_inv (gui_heap (sh_gui s)) as" using hs(1) by (auto simp: heap_sane_def)
    have nz: "a \<noteq> 0" "b \<noteq> 0" "c \<noteq> 0" using False by simp_all
    from memtest_passes [OF assms(1) ok(1) hs(1) i refl assms(3) k(1) nz(1) k(2) nz(2) k(3) nz(3)] obtain s' h' as' where
      p: "cmd_memtest f s = Some s'" "con_ok f s'" "sh_gui s' = with_heap h' (sh_gui s)" "heap_sane h'" "heap_inv h' as'"
        "live (blocks h') as' = live (blocks (gui_heap (sh_gui s))) as" by blast
    have "heap_owned h' = heap_owned (gui_heap (sh_gui s))" by (simp add: heap_owned_eq [OF p(5)] heap_owned_eq [OF i] p(6))
    then have "ready \<alpha> wh R (sh_gui s')" unfolding p(3) using hs(2) by (intro ready_owned [OF ok(2) p(4)]) auto
    then show ?thesis using p(1,2) by (auto simp: sh_ok_def)
  qed
qed

end
