(* ===== verification/Shell_Run.thy ===== *)
theory Shell_Run
  imports Shell_Memtest
begin

text \<open>
  The commands that hand the screen over, every line the console can be given, and the loop that reads
  and runs them.
\<close>

subsection \<open>Pictures, the mouse and the desktop\<close>

lemma con_ok_grid: "con_ok f s \<Longrightarrow> on_grid (sh_con s)"
  by (simp add: con_ok_def console_ok_def)

lemma cleared_ok:
  assumes "canvas f" "sh_ok f \<alpha> wh R s" "sh_con s' = sh_con s" "sh_gui s' = sh_gui s"
  shows "sh_ok f \<alpha> wh R (sh_clear f s')"
  using assms clear_ok [OF canvasD(1) [OF assms(1)], of s'] con_ok_grid [of f s] by (simp add: sh_ok_def)

lemma gfx_ok:
  assumes "canvas f" "sint (fb_width f) \<noteq> 81" "sh_ok f \<alpha> wh R s" "sh_keys s \<noteq> []"
  shows "\<exists>s'. cmd_gfx f s = Some s' \<and> sh_ok f \<alpha> wh R s' \<and> sh_keys s' = tl (sh_keys s)"
proof -
  obtain m where m: "gfx_picture f (sh_mem s) = Some m" using gfx_returns [OF assms(1,2)] by blast
  obtain c r where k: "sh_keys s = c # r" using assms(4) by (cases "sh_keys s") auto
  let ?s = "s\<lparr>sh_mem := fb_flip f m, sh_keys := r\<rparr>"
  have "cmd_gfx f s = Some (sh_clear f ?s)" by (simp add: cmd_gfx_def m sh_getchar_def k)
  moreover have "sh_ok f \<alpha> wh R (sh_clear f ?s)" by (rule cleared_ok [OF assms(1,3)]) simp_all
  moreover have "sh_keys (sh_clear f ?s) = r" by (simp add: sh_clear_def case_prod_beta)
  ultimately show ?thesis using k by simp
qed

lemma stroke_returns: "canvas f \<Longrightarrow> \<exists>m'. paint_stroke f lx ly x y m = Some m'"
  unfolding paint_stroke_def Let_def
  by (intro sketch_returns) (auto simp: ink_def intro: drawing_returns [OF drawing_line])

lemma paint_move_returns: "canvas f \<Longrightarrow> \<exists>b. paint_move f ev bm = Some b"
proof -
  assume c: "canvas f"
  obtain b m where bm: "bm = (b, m)" by fastforce
  obtain m1 where "paint_stroke f (br_x b) (br_y b) (sint (ev_x ev)) (sint (ev_y ev)) m = Some m1" using stroke_returns [OF c] by blast
  then show ?thesis by (simp add: paint_move_def bm Let_def)
qed

lemma paint_returns:
  assumes "canvas f" "\<exists>ev \<in> set evs. ev_type ev = EV_KEY \<and> ev_ch ev = 27"
  shows "\<exists>m. paint_loop f evs bm = Some m"
  using assms(2)
proof (induction evs arbitrary: bm)
  case (Cons ev evs)
  show ?case
  proof (cases "ev_type ev = EV_KEY \<and> ev_ch ev = 27")
    case False
    then have "\<exists>ev \<in> set evs. ev_type ev = EV_KEY \<and> ev_ch ev = 27" using Cons.prems by auto
    note ih = Cons.IH [OF this]
    obtain b where "paint_move f ev bm = Some b" using paint_move_returns [OF assms(1)] by blast
    then show ?thesis using False ih by simp
  qed simp
qed simp

lemma paint_ok:
  assumes "canvas f" "sh_ok f \<alpha> wh R s" "\<exists>ev \<in> set evs. ev_type ev = EV_KEY \<and> ev_ch ev = 27"
  shows "\<exists>s'. cmd_paint f evs s = Some s' \<and> sh_ok f \<alpha> wh R s'"
proof -
  define start where "start = paint
      [fb_fill_rect f 0 0 (sint (fb_width f)) (sint (fb_height f)) PAINT_BG, fb_fill_rect f 0 0 (sint (fb_width f)) 24 PAINT_BAR,
       fb_text f 8 4 (ascii ''paint  -  hold left button to draw, right click clears, ESC exits'') 0x9090A0, fb_flip f] (sh_mem s)"
  obtain m where "paint_loop f evs (\<lparr>br_left = False, br_x = - 1, br_y = - 1\<rparr>, start) = Some m"
    using paint_returns [OF assms(1,3)] by blast
  then have "cmd_paint f evs s = Some (sh_clear f (s\<lparr>sh_mem := m\<rparr>))" by (simp add: cmd_paint_def start_def [symmetric] Let_def)
  moreover have "sh_ok f \<alpha> wh R (sh_clear f (s\<lparr>sh_mem := m\<rparr>))" by (rule cleared_ok [OF assms(1,2)]) simp_all
  ultimately show ?thesis by simp
qed

lemma enter_demo_bg: "bg_layer (gui_enter bus n w h (g\<lparr>gwm := s\<rparr>)) = bg_layer (gui_enter bus n w h g)"
  by (simp add: gui_enter_def take_bg_layer_def Let_def bg_keeps gui_heap_def case_prod_beta)

lemma gui_ok:
  fixes f :: framebuffer
  defines "w \<equiv> framebuffer.scr_w f" and "h \<equiv> framebuffer.scr_h f"
  assumes "drives (io_bus io) \<alpha>" "canvas f" "sh_ok f \<alpha> (w, h) R s" "112 \<le> w" "124 \<le> h" "unat (fb_buffer_size f) \<le> max_request"
    and "layer_clear f (bg_layer (gui_enter (io_bus io) (fb_buffer_size f) w h (sh_gui s)))"
  shows "\<exists>s' r. cmd_gui io f s = Some (s', r) \<and> sh_ok f \<alpha> (w, h) R s' \<and> (r = Back \<or> r = Off \<and> power (sh_gui s') \<noteq> None)"
proof -
  have ok: "con_ok f s" "ready \<alpha> (w, h) R (sh_gui s)" using assms(5) by (simp_all add: sh_ok_def)
  from session_safe [OF assms(3) ok(2) [unfolded w_def h_def] assms(6-8) [unfolded w_def h_def] assms(4) assms(9) [unfolded w_def h_def],
      of "io_mm io" "io_now io" "io_first io" "io_frames io" "io_rounds io" "sh_mem s"]
  obtain g m where g: "gui_session (io_bus io) (io_mm io) (io_now io) f (io_first io) (io_frames io) (io_rounds io) (sh_gui s, sh_mem s) = Some (g, m)"
    "gui_safe \<alpha> (w, h) R g" "screen_shows f m" unfolding w_def h_def by blast
  define s1 where "s1 = s\<lparr>sh_gui := g, sh_mem := m\<rparr>"
  have ok1: "sh_ok f \<alpha> (w, h) R s1"
    using ok(1) g(2,3) by (simp add: s1_def sh_ok_def con_ok_def console_ok_def ready_def)
  show ?thesis
  proof (cases "power g = None")
    case False
    then show ?thesis using ok1 g(1) by (simp add: cmd_gui_def s1_def [symmetric] Let_def) (simp add: s1_def)
  next
    case True
    have "37 \<notin> set (ascii ''Back in the console. '' @ [39] @ ascii ''gui'' @ [39] @ line_of '' returns to the desktop.'')" by code_simp
    from prints_end [OF prints_plain [OF canvasD(1) [OF assms(4)] this] cleared_ok [OF assms(4) ok1 refl refl]] obtain s2 where
      2: "tell f (ascii ''Back in the console. '' @ [39] @ ascii ''gui'' @ [39] @ line_of '' returns to the desktop.'') [] (sh_clear f s1) = Some s2"
        "sh_ok f \<alpha> (w, h) R s2" by blast
    have "cmd_gui io f s = Some (s2, Back)"
      using True by (simp only: cmd_gui_def g(1) option.case prod.case Let_def s1_def [symmetric] 2(1) simp_thms if_False option.map)
    then show ?thesis using 2(2) by blast
  qed
qed

subsection \<open>Every command line\<close>

text \<open>A line is handled when its command comes back with everything in order, having given back every
  block it took (but for a memory test that found too little memory), or ends as the command is meant to:
  the machine switched off from the desktop, or the fault that the line asks for.\<close>

definition handled :: "framebuffer \<Rightarrow> ('d \<Rightarrow> drive) \<Rightarrow> int \<times> int \<Rightarrow> u32 set \<Rightarrow> u8 list \<Rightarrow> ('d shell \<times> outcome) option \<Rightarrow> bool" where
  "handled f \<alpha> wh R line res \<longleftrightarrow>
     (\<exists>s' r R'. res = Some (s', r) \<and> sh_ok f \<alpha> wh R' s' \<and> R \<subseteq> R' \<and> (line \<noteq> ascii ''memtest'' \<longrightarrow> R' = R) \<and>
       (case r of Back \<Rightarrow> True
        | Off \<Rightarrow> (line = ascii ''gui'' \<or> line = ascii ''demo'') \<and> power (sh_gui s') \<noteq> None
        | Fault n \<Rightarrow> line = ascii ''crash'' \<and> n = 6 \<or> line = ascii ''pagefault'' \<and> n = 14))"

lemma handled_if: "(c \<Longrightarrow> handled f \<alpha> wh R l p) \<Longrightarrow> (\<not> c \<Longrightarrow> handled f \<alpha> wh R l q) \<Longrightarrow> handled f \<alpha> wh R l (if c then p else q)"
  by simp

lemma handled_back: "\<exists>s'. p = Some s' \<and> sh_ok f \<alpha> wh R s' \<Longrightarrow> handled f \<alpha> wh R l (returns p)"
  by (auto simp: handled_def returns_def)

lemma handled_prints: "prints f p \<Longrightarrow> sh_ok f \<alpha> wh R s \<Longrightarrow> handled f \<alpha> wh R l (returns (p s))"
  by (rule handled_back [OF prints_end])

text \<open>What the outside has to supply for the command on the line.\<close>

definition supplied :: "framebuffer \<Rightarrow> 'd io \<Rightarrow> u8 list \<Rightarrow> 'd shell \<Rightarrow> bool" where
  "supplied f io line s \<longleftrightarrow> io_hz io \<noteq> 0 \<and>
     (line = ascii ''gfx'' \<longrightarrow> sh_keys s \<noteq> []) \<and>
     (line = ascii ''paint'' \<longrightarrow> (\<exists>ev \<in> set (io_events io). ev_type ev = EV_KEY \<and> ev_ch ev = 27)) \<and>
     (line = ascii ''memtest'' \<longrightarrow> screen_block f (gui_heap (sh_gui s))) \<and>
     (line = ascii ''pagefault'' \<longrightarrow> translate (heap_pg (gui_heap (sh_gui s))) 0xE0000000 = None) \<and>
     (line = ascii ''gui'' \<or> line = ascii ''demo'' \<longrightarrow> layer_clear f (bg_layer
       (gui_enter (io_bus io) (fb_buffer_size f) (framebuffer.scr_w f) (framebuffer.scr_h f) (sh_gui s))))"

definition large_enough :: "framebuffer \<Rightarrow> bool" where
  "large_enough f \<longleftrightarrow> 112 \<le> framebuffer.scr_w f \<and> framebuffer.scr_w f \<le> 32767 \<and> 124 \<le> framebuffer.scr_h f \<and>
     unat (fb_buffer_size f) \<le> max_request"

lemma handled_gui:
  fixes f :: framebuffer
  assumes "drives (io_bus io) \<alpha>" "canvas f" "large_enough f" "sh_ok f \<alpha> (framebuffer.scr_w f, framebuffer.scr_h f) R s"
    and "layer_clear f (bg_layer (gui_enter (io_bus io) (fb_buffer_size f) (framebuffer.scr_w f) (framebuffer.scr_h f) (sh_gui s)))"
    and "line = ascii ''gui'' \<or> line = ascii ''demo''"
  shows "handled f \<alpha> (framebuffer.scr_w f, framebuffer.scr_h f) R line (cmd_gui io f s)"
proof -
  note l = assms(3) [unfolded large_enough_def]
  obtain s' r where "cmd_gui io f s = Some (s', r)" "sh_ok f \<alpha> (framebuffer.scr_w f, framebuffer.scr_h f) R s'"
    "r = Back \<or> r = Off \<and> power (sh_gui s') \<noteq> None"
    using gui_ok [OF assms(1,2,4) _ _ _ assms(5)] l by blast
  then show ?thesis using assms(6) by (auto simp: handled_def)
qed

lemma handled_demo:
  fixes f :: framebuffer
  assumes "sh_ok f \<alpha> wh R s"
  shows "sh_ok f \<alpha> wh R (s\<lparr>sh_gui := (sh_gui s)\<lparr>gwm := gui_demo_windows (gwm (sh_gui s))\<rparr>\<rparr>)"
  using assms ready_demo [of \<alpha> wh R "sh_gui s"] by (simp add: sh_ok_def con_ok_def)

lemma handled_fault:
  assumes "canvas f" "sh_ok f \<alpha> wh R s" "37 \<notin> set fmt" "line = ascii ''crash''"
  shows "handled f \<alpha> wh R line (map_option (\<lambda>s. (s, Fault 6)) (tell f fmt [] s))"
  using prints_end [OF prints_plain [OF canvasD(1) [OF assms(1)] assms(3)] assms(2)] assms(4) by (auto simp: handled_def)

lemma handled_pagefault:
  assumes "canvas f" "sh_ok f \<alpha> wh R s" "37 \<notin> set fmt" "line = ascii ''pagefault''"
    and "translate (heap_pg (gui_heap (sh_gui s))) 0xE0000000 = None"
  shows "handled f \<alpha> wh R line (map_option touch_page (tell f fmt [] s))"
proof -
  obtain s' where "tell f fmt [] s = Some s'" "sh_ok f \<alpha> wh R s'" "sh_gui s' = sh_gui s"
    using prints_ok [OF prints_plain [OF canvasD(1) [OF assms(1)] assms(3)] assms(2)] by metis
  then show ?thesis using assms(4,5) by (auto simp: handled_def touch_page_def)
qed

lemma handled_memtest:
  assumes "canvas f" "sh_ok f \<alpha> wh R s" "screen_block f (gui_heap (sh_gui s))" "line = ascii ''memtest''"
  shows "handled f \<alpha> wh R line (returns (cmd_memtest f s))"
  using memtest_ok [OF assms(1-3)] assms(4) by (auto simp: handled_def returns_def)

lemma prints_echo: "drawable f \<Longrightarrow> prints f (tell f (line_of ''%s'') [Str (Some t)])"
  by (intro prints_tell) (simp_all add: shell_formats)

lemma prints_unknown:
  "drawable f \<Longrightarrow> prints f (tell f (ascii ''  unknown command: %s  (try '' @ [39] @ ascii ''help'' @ [39] @ line_of '')'') [Str (Some l)])"
  by (intro prints_tell) (simp_all only: list.map shape.simps shell_formats not_False_eq_True)

lemma plain_faults:
  "37 \<notin> set (line_of ''  executing an invalid opcode...'')" "37 \<notin> set (line_of ''  writing to unmapped address 0xE0000000...'')"
  "37 \<notin> set [10 :: u8]"
  by code_simp+

lemma execute_handled:
  fixes f :: framebuffer
  assumes "drives (io_bus io) \<alpha>" "canvas f" "large_enough f" "sh_ok f \<alpha> (framebuffer.scr_w f, framebuffer.scr_h f) R s"
    and line: "0 \<notin> set line" "length line < LINE_MAX" and "supplied f io line s"
  shows "handled f \<alpha> (framebuffer.scr_w f, framebuffer.scr_h f) R line (execute io f line s)"
proof -
  note sup = assms(7) [unfolded supplied_def]
  note d = canvasD(1) [OF assms(2)]
  have w: "sint (fb_width f) \<noteq> 81"
  proof -
    have "sint (fb_width f) = framebuffer.scr_w f"
      using assms(3) by (simp add: large_enough_def fb_width_def signed_of_int signed_take_bit_int_eq_self)
    then show ?thesis using assms(3) by (simp add: large_enough_def)
  qed
  have z: "0 \<notin> set (drop n line)" "length (drop n line) < 4294967296" for n
    using line by (auto simp: LINE_MAX_def dest: in_set_dropD)
  let ?H = "handled f \<alpha> (framebuffer.scr_w f, framebuffer.scr_h f) R line"
  have gui: "line = ascii ''gui'' \<Longrightarrow> ?H (cmd_gui io f s)"
    by (rule handled_gui [OF assms(1-4)]) (use sup in simp_all)
  have demo: "line = ascii ''demo'' \<Longrightarrow> ?H (cmd_gui io f (s\<lparr>sh_gui := (sh_gui s)\<lparr>gwm := gui_demo_windows (gwm (sh_gui s))\<rparr>\<rparr>))"
    by (rule handled_gui [OF assms(1-3) handled_demo [OF assms(4)]]) (use sup in \<open>simp_all add: enter_demo_bg\<close>)
  have hz: "io_hz io \<noteq> 0" using sup by blast
  have empty_line: "?H (returns (Some s))" and clear: "?H (returns (Some (sh_clear f s)))"
    using assms(4) cleared_ok [OF assms(2,4)] by (simp_all add: handled_back)
  have files: "?H (returns (cmd_cat (io_bus io) (io_mm io) f (drop 4 line) s))"
    "?H (returns (cmd_write (io_bus io) f (drop 6 line) s))" "?H (returns (cmd_rm (io_bus io) f (drop 3 line) s))"
    "?H (returns (cmd_mem f s))"
    by (rule handled_back cat_ok [OF d assms(1,4) z(1)] write_ok [OF d assms(1,4) z] rm_ok [OF d assms(1,4) z(1)] mem_ok [OF d assms(4)])+
  have gfx: "line = ascii ''gfx'' \<Longrightarrow> ?H (returns (cmd_gfx f s))"
    using gfx_ok [OF assms(2) w assms(4)] sup by (blast intro: handled_back)
  have paint: "line = ascii ''paint'' \<Longrightarrow> ?H (returns (cmd_paint f (io_events io) s))"
    using paint_ok [OF assms(2,4)] sup by (blast intro: handled_back)
  have memtest: "line = ascii ''memtest'' \<Longrightarrow> ?H (returns (cmd_memtest f s))"
    using handled_memtest [OF assms(2,4)] sup by blast
  have pagefault: "line = ascii ''pagefault'' \<Longrightarrow>
      ?H (map_option touch_page (tell f (line_of ''  writing to unmapped address 0xE0000000...'') [] s))"
    using handled_pagefault [OF assms(2,4) plain_faults(2)] sup by blast
  note printed = prints_ls [OF d] prints_help [OF d] prints_about [OF d] prints_uptime [OF d hz] prints_echo [OF d] prints_unknown [OF d]
    prints_plain [OF d plain_faults(3)]
  show ?thesis
    unfolding execute_def
    by (intro handled_if)
       (assumption | rule empty_line clear files printed [THEN handled_prints [OF _ assms(4)]] |
        erule gui demo gfx paint memtest pagefault handled_fault [OF assms(2,4) plain_faults(1)])+
qed

subsection \<open>Reading a line\<close>

text \<open>The line editor as it is meant: each key edits the line typed so far.\<close>

definition edit_key :: "u8 list \<Rightarrow> u8 \<Rightarrow> u8 list" where
  "edit_key buf c =
     (if c = 8 then butlast buf
      else if 32 \<le> c \<and> c < 128 \<and> length buf < 127 then buf @ [c] else buf)"

definition line_ok :: "u8 list \<Rightarrow> bool" where
  "line_ok l \<longleftrightarrow> length l < LINE_MAX \<and> (\<forall>c \<in> set l. 32 \<le> c \<and> c < 128)"

lemma printable_bytes:
  "list_all (\<lambda>n. (\<not> (word_of_nat n :: u8) <s 32) = (32 \<le> (word_of_nat n :: u8) \<and> (word_of_nat n :: u8) < 128)) [0..<256]"
  by code_simp

lemma printable_signed: "\<not> c <s (32 :: u8) \<longleftrightarrow> 32 \<le> c \<and> c < 128"
proof -
  have "unat c \<in> set [0..<256]" using unsigned_less [of c, where ?'a = nat] by simp
  then have "(\<not> (word_of_nat (unat c) :: u8) <s 32) = (32 \<le> (word_of_nat (unat c) :: u8) \<and> (word_of_nat (unat c) :: u8) < 128)"
    using printable_bytes unfolding list_all_iff by blast
  then show ?thesis by simp
qed

lemma edit_key_ok: "line_ok buf \<Longrightarrow> line_ok (edit_key buf c)"
  by (auto simp: line_ok_def edit_key_def LINE_MAX_def dest: in_set_butlastD)

lemma edits_ok: "line_ok buf \<Longrightarrow> line_ok (foldl edit_key buf ks)"
  by (induction ks arbitrary: buf) (simp_all add: edit_key_ok)

lemma read_line_edits:
  assumes "drawable f" "console_ok f w" "10 \<notin> set ks"
  shows "\<exists>w'. read_line f (ks @ 10 # rest) buf w = Some (foldl edit_key buf ks, rest, w') \<and> console_ok f w'"
  using assms(2,3)
proof (induction ks arbitrary: buf w)
  case Nil
  then show ?case using console_putc_ok [OF assms(1)] by simp
next
  case (Cons c ks)
  have p: "console_ok f (console_putc f d w)" for d using console_putc_ok [OF assms(1) Cons.prems(1)] by blast
  have c: "c \<noteq> 10" "10 \<notin> set ks" using Cons.prems(2) by auto
  note ih = Cons.IH [OF Cons.prems(1) c(2)] Cons.IH [OF p c(2)]
  have "\<not> c <s 32 \<and> length buf < LINE_MAX - 1 \<longleftrightarrow> 32 \<le> c \<and> c < 128 \<and> length buf < 127"
    by (simp add: printable_signed LINE_MAX_def)
  then show ?case using c(1) ih by (simp add: edit_key_def)
qed

lemma shell_line_edits:
  assumes "canvas f" "sh_ok f \<alpha> wh R s" "sh_keys s = ks @ 10 # rest" "10 \<notin> set ks"
  shows "\<exists>s'. shell_line f s = Some (foldl edit_key [] ks, s') \<and> sh_ok f \<alpha> wh R s' \<and> sh_gui s' = sh_gui s \<and> sh_keys s' = rest"
proof -
  note d = canvasD(1) [OF assms(1)]
  have u: "37 \<notin> set (ascii ''redpanda'')" "37 \<notin> set (ascii ''> '')" by code_simp+
  have 0: "con_ok f (sh_color COLOR_LIGHT_RED COLOR_BLACK s)" using assms(2) by (simp add: color_ok sh_ok_def)
  from printsD [OF prints_plain [OF d u(1)] this] obtain s1 where
    1: "tell f (ascii ''redpanda'') [] (sh_color COLOR_LIGHT_RED COLOR_BLACK s) = Some s1" "con_ok f s1"
      "sh_gui s1 = sh_gui s" "sh_keys s1 = sh_keys s" by (auto simp: color_ok)
  have "con_ok f (sh_color COLOR_LIGHT_GREY COLOR_BLACK s1)" using 1(2) by (simp add: color_ok)
  from printsD [OF prints_plain [OF d u(2)] this] obtain s2 where
    2: "tell f (ascii ''> '') [] (sh_color COLOR_LIGHT_GREY COLOR_BLACK s1) = Some s2" "con_ok f s2"
      "sh_gui s2 = sh_gui s" "sh_keys s2 = sh_keys s" using 1(3,4) by (auto simp: color_ok)
  from read_line_edits [OF d 2(2) [unfolded con_ok_def] assms(4), of rest "[]"] obtain t m where
    3: "read_line f (sh_keys s2) [] (sh_con s2, sh_mem s2) = Some (foldl edit_key [] ks, rest, (t, m))" "console_ok f (t, m)"
    using 2(4) assms(3) by auto
  have "shell_line f s = Some (foldl edit_key [] ks, s2\<lparr>sh_keys := rest, sh_con := t, sh_mem := m\<rparr>)"
    by (simp only: shell_line_def 1(1) 2(1) 3(1) Option.bind.simps prod.case)
  then show ?thesis using assms(2) 2(3) 3(2) by (auto simp: sh_ok_def con_ok_def)
qed

subsection \<open>A session\<close>

text \<open>The outside keeps supplying what the session asks of it: a finished line for every prompt, and what
  the command on it needs.\<close>

fun fed :: "framebuffer \<Rightarrow> 'd io list \<Rightarrow> 'd shell \<Rightarrow> bool" where
  "fed f [] s \<longleftrightarrow> True"
| "fed f (io # ios) s \<longleftrightarrow> 10 \<in> set (sh_keys s) \<and>
     (case shell_line f s of None \<Rightarrow> True
      | Some (line, s1) \<Rightarrow> supplied f io line s1 \<and>
          (case execute io f line s1 of Some (s2, Back) \<Rightarrow> fed f ios s2 | _ \<Rightarrow> True))"

lemma line_ok_nil: "line_ok []"
  by (simp add: line_ok_def LINE_MAX_def)

lemma line_ok_text: "line_ok l \<Longrightarrow> 0 \<notin> set l \<and> length l < LINE_MAX"
  by (auto simp: line_ok_def)

lemma rounds_handled:
  fixes f :: framebuffer
  assumes "\<forall>io \<in> set ios. drives (io_bus io) \<alpha>" "canvas f" "large_enough f"
    and "sh_ok f \<alpha> (framebuffer.scr_w f, framebuffer.scr_h f) R s" "fed f ios s"
  shows "\<exists>s' r R'. shell_rounds f ios s = Some (s', r) \<and> sh_ok f \<alpha> (framebuffer.scr_w f, framebuffer.scr_h f) R' s' \<and> R \<subseteq> R'"
  using assms(1,4,5)
proof (induction ios arbitrary: R s)
  case (Cons io ios)
  let ?wh = "(framebuffer.scr_w f, framebuffer.scr_h f)"
  have "10 \<in> set (sh_keys s)" using Cons.prems(3) by simp
  then obtain ks rest where k: "sh_keys s = ks @ 10 # rest" "10 \<notin> set ks" using split_list_first by metis
  define line where "line = foldl edit_key [] ks"
  from shell_line_edits [OF assms(2) Cons.prems(2) k] obtain s1 where
    1: "shell_line f s = Some (line, s1)" "sh_ok f \<alpha> ?wh R s1" unfolding line_def by blast
  have sup: "supplied f io line s1" using Cons.prems(3) 1(1) by simp
  have l: "0 \<notin> set line" "length line < LINE_MAX"
    using line_ok_text [OF edits_ok [OF line_ok_nil, of ks]] by (simp_all add: line_def)
  have dr: "drives (io_bus io) \<alpha>" using Cons.prems(1) by simp
  from execute_handled [OF dr assms(2,3) 1(2) l sup] obtain s2 r R2 where
    2: "execute io f line s1 = Some (s2, r)" "sh_ok f \<alpha> ?wh R2 s2" "R \<subseteq> R2" unfolding handled_def by blast
  show ?case
  proof (cases "r = Back")
    case True
    have "fed f ios s2" using Cons.prems(3) 1(1) 2(1) True by simp
    with Cons.IH [OF _ 2(2)] Cons.prems(1) obtain s' r' R' where
      "shell_rounds f ios s2 = Some (s', r')" "sh_ok f \<alpha> ?wh R' s'" "R2 \<subseteq> R'" by auto
    then show ?thesis using 1(1) 2 True by auto
  next
    case False
    then show ?thesis using 1(1) 2 by auto
  qed
qed auto

subsection \<open>What is written can be printed\<close>

lemma command_bytes:
  "ascii ''gui'' = [103, 117, 105]" "ascii ''demo'' = [100, 101, 109, 111]" "ascii ''ls'' = [108, 115]"
  "ascii ''cat '' = [99, 97, 116, 32]" "ascii ''write '' = [119, 114, 105, 116, 101, 32]"
  by code_simp+

lemma execute_write: "execute io f (ascii ''write '' @ args) s = returns (cmd_write (io_bus io) f args s)"
  and execute_cat: "execute io f (ascii ''cat '' @ args) s = returns (cmd_cat (io_bus io) (io_mm io) f args s)"
  by (simp_all add: execute_def command_bytes)

lemma write_args:
  assumes "32 \<notin> set name"
  shows "takeWhile (\<lambda>c. c \<noteq> 32) (name @ 32 # t) = name" "dropWhile (\<lambda>c. c \<noteq> 32) (name @ 32 # t) = 32 # t"
  using assms by (induction name) auto

lemma print_text: "kvprintf (line_of ''%s'') [Str (Some t)] = Some (t @ [10])"
proof -
  have "line_of ''%s'' = [37, 115, 10]" by code_simp
  then show ?thesis by (simp add: conversion_def)
qed

lemma files_heap: "files \<alpha> (st\<lparr>fs_heap := h\<rparr>) = files \<alpha> st"
proof -
  have "file_bytes g (st\<lparr>fs_heap := h\<rparr>) = file_bytes g st" for g :: "'a \<Rightarrow> u32 \<Rightarrow> u8 list"
    by (rule ext) (simp add: file_bytes_def blk_def [abs_def] blocks_of_def nblocks_def)
  then show ?thesis by (intro ext) (simp add: files_def contents_def find_entry_def)
qed

lemma cat_prints:
  assumes "drives bus \<alpha>" "on_drive \<alpha> (sh_files s)" "fs_inv (sh_files s)" "0 \<notin> set name" "files \<alpha> (sh_files s) name = Some txt"
    and "txt \<noteq> []" "0 \<notin> set txt" "length txt < 2147483647"
    and k: "kmalloc (of_nat (length txt) + 1) (fs_heap (sh_files s)) = Some (p, h)" "p \<noteq> 0"
    and "kfree p h \<noteq> None"
  shows "\<exists>s'. cmd_cat bus mm f name s = Some s' \<and> (sh_con s', sh_mem s') = console_print f (txt @ [10]) (sh_con s, sh_mem s)"
proof -
  let ?n = "of_nat (length txt) :: u32"
  have n: "sint ?n = int (length txt)" "unat ?n = length txt"
    using assms(8) by (simp_all add: unat_of_nat32 signed_of_nat signed_take_bit_int_eq_self)
  obtain st where r: "fs_read (disk_rd bus) name 0 (sh_files s) = ((int (length txt), []), st)"
    "on_drive \<alpha> st" "fs_inv st" "files \<alpha> st = files \<alpha> (sh_files s)"
    using drive_read [OF assms(1-5), of 0] n(1) by auto
  define s1 where "s1 = set_files st s"
  have h1: "gui_heap (sh_gui s1) = fs_heap (sh_files s)" using fs_read_heap [OF r(1)] by (simp add: s1_def set_files_def gui_heap_def)
  define s2 where "s2 = s1\<lparr>sh_gui := with_heap h (sh_gui s1)\<rparr>"
  have m: "sh_kmalloc (?n + 1) s1 = Some (p, s2)" using k(1) by (simp add: sh_kmalloc_def h1 s2_def)
  have f2: "sh_files s2 = st\<lparr>fs_heap := h\<rparr>" by (simp add: s2_def s1_def set_files_def sh_files_def with_heap_def)
  have g: "fs_good \<alpha> (sh_files s2)" using r(2,3) by (simp add: f2) (simp add: fs_good_def)
  have "files \<alpha> (sh_files s2) name = Some txt" using assms(5) r(4) by (simp add: f2 files_heap)
  obtain st2 where r2: "fs_read (disk_rd bus) name ?n (sh_files s2) = ((int (length txt), txt), st2)"
    using drive_read [OF assms(1) _ _ assms(4) \<open>files \<alpha> (sh_files s2) name = Some txt\<close>, of ?n] g n by (auto simp: fs_good_def)
  define s3 where "s3 = set_files st2 s2"
  have c: "cstr (txt @ map (\<lambda>i. mm (p + of_nat i)) [length txt..<nat (int (length txt))]) = txt"
    using assms(7) by (auto simp: cstr_def takeWhile_eq_all_conv)
  obtain t w where w: "console_print f (txt @ [10]) (sh_con s3, sh_mem s3) = (t, w)" by fastforce
  define s4 where "s4 = s3\<lparr>sh_con := t, sh_mem := w\<rparr>"
  have t: "tell f (line_of ''%s'') [Str (Some txt)] s3 = Some s4"
    using w by (simp add: tell_def on_console_def kprintf_def print_text s4_def)
  have "gui_heap (sh_gui s4) = h"
    using fs_read_heap [OF r2] f2 by (simp add: s4_def s3_def set_files_def gui_heap_def)
  then obtain h' where "kfree p (gui_heap (sh_gui s4)) = Some h'" using assms(11) by auto
  then have fr: "sh_kfree p s4 = Some (s4\<lparr>sh_gui := with_heap h' (sh_gui s4)\<rparr>)" by (simp add: sh_kfree_def)
  have pos: "\<not> int (length txt) < 0" "int (length txt) \<noteq> 0" using assms(6) by simp_all
  have sz: "(of_int (int (length txt)) :: u32) = ?n" by simp
  have "cmd_cat bus mm f name s = Some (s4\<lparr>sh_gui := with_heap h' (sh_gui s4)\<rparr>)"
    by (simp only: cmd_cat_def r(1) Let_def prod.case s1_def [symmetric] pos if_False sz m Option.bind.simps k(2) r2 s3_def [symmetric]
        c t fr)
  moreover have "sh_con s3 = sh_con s" "sh_mem s3 = sh_mem s" by (simp_all add: s3_def s2_def s1_def set_files_def)
  ultimately show ?thesis using w by (simp add: s4_def)
qed

text \<open>The block for \<open>cat\<close> is granted and can be given back.\<close>

lemma heap_grants:
  assumes "heap_sane hp" "n \<noteq> 0" "unat n \<le> max_request" "heap_alloc n hp = (p, h)" "p \<noteq> 0"
  shows "kmalloc n hp = Some (p, h)" "kfree p h \<noteq> None"
proof -
  obtain as where i: "heap_inv hp as" using assms(1) by (auto simp: heap_sane_def)
  obtain q h' as' where k: "kmalloc n hp = Some (q, h')" "heap_inv h' as'"
    "q = 0 \<or> (\<exists>k. (q - 12, k) \<in> live (blocks h') as')"
    using heap_alloc_returns [OF assms(1-3) i] by blast
  then have e: "q = p" "h' = h" using assms(4) by (simp_all add: heap_alloc_def)
  then show "kmalloc n hp = Some (p, h)" using k(1) by simp
  obtain j where "(p - 12, j) \<in> live (blocks h) as'" using k(3) e assms(5) by auto
  from kfree_removes [OF k(2) [unfolded e] this] show "kfree p h \<noteq> None" by auto
qed

lemma write_cat:
  assumes "drives (io_bus io) \<alpha>" "drives (io_bus io2) \<alpha>" "canvas f" "sh_ok f \<alpha> wh R s"
    and "valid_name name" "32 \<notin> set name" "has_slot (sh_files s) name"
    and "t \<noteq> []" "0 \<notin> set t" "length t < LINE_MAX" "blocks_for (length t) \<le> room_for (sh_files s) name"
    and "fst (heap_alloc (of_nat (length t) + 1) (gui_heap (sh_gui s))) \<noteq> 0"
  shows "\<exists>s1 s2. execute io f (ascii ''write '' @ name @ 32 # t) s = Some (s1, Back) \<and>
    (\<forall>n. 0 \<notin> set n \<longrightarrow> files \<alpha> (sh_files s1) n = (if n = name then Some t else files \<alpha> (sh_files s) n)) \<and>
    execute io2 f (ascii ''cat '' @ name) s1 = Some (s2, Back) \<and>
    (sh_con s2, sh_mem s2) = console_print f (t @ [10]) (sh_con s1, sh_mem s1)"
proof -
  let ?n = "of_nat (length t) :: u32"
  have len: "length t < 4294967296" "length t < 2147483647" using assms(10) by (simp_all add: LINE_MAX_def)
  have n: "unat ?n = length t" using len by (simp add: unat_of_nat32)
  have nz: "0 \<notin> set name" using assms(5) by (simp add: valid_name_def)
  have g: "on_drive \<alpha> (sh_files s)" "fs_inv (sh_files s)" using sh_ok_good [OF assms(4)] by (simp_all add: fs_good_def)
  from drive_write [OF assms(1) g assms(5,7) n [symmetric]] assms(11) n obtain st where
    w: "fs_write (disk_wr (io_bus io)) name t ?n (sh_files s) = (0, st)" "on_drive \<alpha> st" "fs_inv st"
      "\<forall>n. 0 \<notin> set n \<longrightarrow> files \<alpha> st n = (if n = name then Some t else files \<alpha> (sh_files s) n)" by auto
  have "sh_ok f \<alpha> wh R (set_files st s)"
    by (rule sh_ok_files [OF assms(4)]) (use w fs_write_heap in \<open>auto simp: fs_good_def\<close>)
  moreover have "prints f (tell f (line_of ''  wrote %u bytes to %s'') [Num ?n, Str (Some name)] :: 'a shell \<Rightarrow> 'a shell option)"
    by (intro prints_tell canvasD(1) [OF assms(3)]) (simp add: shell_formats)
  ultimately obtain s1 where 1: "tell f (line_of ''  wrote %u bytes to %s'') [Num ?n, Str (Some name)] (set_files st s) = Some s1"
    "sh_ok f \<alpha> wh R s1" "sh_gui s1 = sh_gui (set_files st s)" using prints_ok by metis
  have e1: "execute io f (ascii ''write '' @ name @ 32 # t) s = Some (s1, Back)"
    using 1(1) w(1) by (simp add: execute_write cmd_write_def write_args [OF assms(6)] returns_def Let_def)
  have f1: "sh_files s1 = st" using 1(3) by (simp add: sh_files_def set_files_def)
  have h1: "fs_heap st = gui_heap (sh_gui s)" using fs_write_heap [OF w(1)] by (simp add: gui_heap_def sh_files_def)
  obtain p h where a: "heap_alloc (?n + 1) (fs_heap st) = (p, h)" by fastforce
  have sane: "heap_sane (fs_heap st)" using ready_good [of \<alpha> wh R "sh_gui s"] assms(4) h1 by (simp add: sh_ok_def)
  have u: "unat (?n + 1) = length t + 1" using n unat_add32 [of ?n 1] len by simp
  then have "?n + 1 \<noteq> 0" "unat (?n + 1) \<le> max_request" using assms(10) by (auto simp: LINE_MAX_def max_request_def)
  moreover have "p \<noteq> 0" using assms(12) a h1 by simp
  ultimately have k: "kmalloc (?n + 1) (fs_heap st) = Some (p, h)" "p \<noteq> 0" "kfree p h \<noteq> None" using heap_grants [OF sane _ _ a] by auto
  have fl: "files \<alpha> (sh_files s1) name = Some t" using w(4) nz f1 by simp
  from cat_prints [OF assms(2) _ _ nz fl assms(8,9) len(2) _ k(2,3), where f = f and mm = "io_mm io2"] w(2,3) k(1) obtain s2 where
    2: "cmd_cat (io_bus io2) (io_mm io2) f name s1 = Some s2" "(sh_con s2, sh_mem s2) = console_print f (t @ [10]) (sh_con s1, sh_mem s1)"
    unfolding f1 by blast
  then have "execute io2 f (ascii ''cat '' @ name) s1 = Some (s2, Back)" by (simp add: execute_cat returns_def)
  then show ?thesis using e1 w(4) 2(2) f1 by auto
qed

end
