(* ===== verification/Shell_Claims.thy ===== *)
theory Shell_Claims
  imports Shell_Run
begin

text \<open>The contract of the developer console, with examples.\<close>

text \<open>Scrolling moves the picture up by the given number of pixel rows: every pixel of the backbuffer
  shows what was that far below it, the rows uncovered at the bottom have the fill colour, and the screen
  shows the result.\<close>

theorem scroll_correct:
  assumes "drawable f" "0 < n" "n \<le> framebuffer.scr_h f"
  shows "screen_shows f (fb_scroll_up f n c m) \<and>
    (\<forall>x y. on_screen f (x, y) \<longrightarrow> pixel f (backbuf f) (fb_scroll_up f n c m) (x, y) =
      (if y < framebuffer.scr_h f - n then pixel f (backbuf f) m (x, y + n) else rgb_of c))"
  using scroll_shows [OF assms(1)] scroll_up_exact [OF assms] by blast

subsection \<open>The memory test\<close>

definition enough_memory :: "heap \<Rightarrow> bool" where
  "enough_memory hp \<longleftrightarrow>
     (\<exists>a h1 b h2 c h3. kmalloc (8 * 1024) hp = Some (a, h1) \<and> a \<noteq> 0 \<and> kmalloc (100 * 1024) h1 = Some (b, h2) \<and> b \<noteq> 0 \<and>
       kmalloc 16 h2 = Some (c, h3) \<and> c \<noteq> 0)"

lemma memtest_refused:
  assumes "canvas f" "con_ok f s" "heap_sane hp" "heap_inv hp as" "gui_heap (sh_gui s) = hp" "\<not> enough_memory hp"
  shows "\<exists>s' hp' as'. cmd_memtest f s = Some s' \<and> con_ok f s' \<and> sh_gui s' = with_heap hp' (sh_gui s) \<and> heap_sane hp' \<and>
    heap_inv hp' as' \<and> live (blocks hp) as \<subseteq> live (blocks hp') as'"
proof -
  have sz: "(8 * 1024 :: u32) \<noteq> 0" "unat (8 * 1024 :: u32) \<le> max_request" "(100 * 1024 :: u32) \<noteq> 0" "unat (100 * 1024 :: u32) \<le> max_request"
    "(16 :: u32) \<noteq> 0" "unat (16 :: u32) \<le> max_request" by (simp_all add: max_request_def)
  obtain a h1 as1 where 1: "kmalloc (8 * 1024) hp = Some (a, h1)" "heap_sane h1" "heap_inv h1 as1" "live (blocks hp) as \<subseteq> live (blocks h1) as1"
    by (rule step_alloc [OF assms(3,4) sz(1,2)]) blast
  obtain b h2 as2 where 2: "kmalloc (100 * 1024) h1 = Some (b, h2)" "heap_sane h2" "heap_inv h2 as2" "live (blocks h1) as1 \<subseteq> live (blocks h2) as2"
    by (rule step_alloc [OF 1(2,3) sz(3,4)]) blast
  obtain c h3 as3 where 3: "kmalloc 16 h2 = Some (c, h3)" "heap_sane h3" "heap_inv h3 as3" "live (blocks h2) as2 \<subseteq> live (blocks h3) as3"
    by (rule step_alloc [OF 2(2,3) sz(5,6)]) blast
  have z: "a = 0 \<or> b = 0 \<or> c = 0" using assms(6) 1(1) 2(1) 3(1) unfolding enough_memory_def by blast
  have u: "37 \<notin> set (ascii ''  alloc a=8 KB, b=100 KB, c=16 B ... '')" "37 \<notin> set (line_of ''FAILED (out of memory?)'')" by code_simp+
  obtain s1 where s1: "tell f (ascii ''  alloc a=8 KB, b=100 KB, c=16 B ... '') [] s = Some s1" "con_ok f s1" "sh_gui s1 = sh_gui s"
    using tell_plain [OF assms(1,2) u(1)] by blast
  define t where "t = (\<lambda>h. s1\<lparr>sh_gui := with_heap h (sh_gui s)\<rparr>)"
  have k: "sh_kmalloc (8 * 1024) s1 = Some (a, t h1)" "sh_kmalloc (100 * 1024) (t h1) = Some (b, t h2)" "sh_kmalloc 16 (t h2) = Some (c, t h3)"
    using 1(1) 2(1) 3(1) assms(5) s1(3) by (simp_all add: sh_kmalloc_def t_def)
  have "con_ok f (t h3)" using s1(2) by (simp add: t_def con_ok_def)
  from tell_plain [OF assms(1) this u(2)] obtain s2 where
    s2: "tell f (line_of ''FAILED (out of memory?)'') [] (t h3) = Some s2" "con_ok f s2" "sh_gui s2 = sh_gui (t h3)" .
  have "cmd_memtest f s = Some s2"
    using z s2(1) by (simp only: cmd_memtest_def s1(1) k Option.bind.simps prod.case if_True)
  moreover have "sh_gui s2 = with_heap h3 (sh_gui s)" by (simp add: s2(3) t_def)
  moreover have "live (blocks hp) as \<subseteq> live (blocks h3) as3" using 1(4) 2(4) 3(4) by blast
  ultimately show ?thesis using s2(2) 3(2,3) by blast
qed

text \<open>C14: the command \<open>memtest\<close> always comes back with the console, the screen and the heap in order, and
  takes no block from anyone; when the heap can grant its three blocks the test passes, for afterwards
  exactly the blocks allocated before are allocated (a byte found wrong would leave its blocks behind):
  blocks are apart from each other and from the buffers of the screen, which the messages are drawn in.\<close>

theorem memtest_correct:
  assumes "canvas f" "con_ok f s" "heap_sane hp" "heap_inv hp as" "gui_heap (sh_gui s) = hp" "screen_block f hp"
  shows "\<exists>s' hp' as'. cmd_memtest f s = Some s' \<and> con_ok f s' \<and> sh_gui s' = with_heap hp' (sh_gui s) \<and> heap_sane hp' \<and>
    heap_inv hp' as' \<and> live (blocks hp) as \<subseteq> live (blocks hp') as' \<and>
    (enough_memory hp \<longrightarrow> live (blocks hp') as' = live (blocks hp) as)"
proof (cases "enough_memory hp")
  case True
  then obtain a h1 b h2 c h3 where k: "kmalloc (8 * 1024) hp = Some (a, h1)" "a \<noteq> 0" "kmalloc (100 * 1024) h1 = Some (b, h2)" "b \<noteq> 0"
    "kmalloc 16 h2 = Some (c, h3)" "c \<noteq> 0" unfolding enough_memory_def by blast
  from memtest_passes [OF assms k] show ?thesis by blast
next
  case False
  from memtest_refused [OF assms(1-5) False] show ?thesis using False by blast
qed

subsection \<open>Lines and sessions\<close>

text \<open>C18: reading a line: whatever keys precede the Enter, \<open>read_line\<close> returns what they spell when each
  printable key is appended while there is room for it and each backspace removes the last character; the
  line is printable ASCII and its terminating zero fits the buffer; the keys after the Enter are left for
  the next line, and the cursor is still on the grid of the screen shown.\<close>

theorem read_line_correct:
  assumes "drawable f" "console_ok f w" "10 \<notin> set ks"
  shows "\<exists>l w'. read_line f (ks @ 10 # rest) [] w = Some (l, rest, w') \<and> l = foldl edit_key [] ks \<and>
    length l < LINE_MAX \<and> (\<forall>c \<in> set l. 32 \<le> c \<and> c < 128) \<and> console_ok f w'"
  using read_line_edits [OF assms, of rest "[]"] edits_ok [OF line_ok_nil, of ks] by (simp add: line_ok_def)


text \<open>C10: what the command \<open>write\<close> stores the command \<open>cat\<close> prints: after \<open>write <name> <text>\<close> the volume
  holds exactly the other files and that text under that name, and \<open>cat <name>\<close> then prints the text and a
  newline, provided the name is valid, the volume has room and the heap grants the buffer.\<close>

theorem write_then_cat:
  assumes "drives (io_bus io) \<alpha>" "drives (io_bus io2) \<alpha>" "canvas f" "sh_ok f \<alpha> wh R s"
    and "valid_name name" "32 \<notin> set name" "has_slot (sh_files s) name"
    and "t \<noteq> []" "0 \<notin> set t" "length t < LINE_MAX" "blocks_for (length t) \<le> room_for (sh_files s) name"
    and "fst (heap_alloc (of_nat (length t) + 1) (gui_heap (sh_gui s))) \<noteq> 0"
  shows "\<exists>s1 s2. execute io f (ascii ''write '' @ name @ 32 # t) s = Some (s1, Back) \<and>
    (\<forall>n. 0 \<notin> set n \<longrightarrow> files \<alpha> (sh_files s1) n = (if n = name then Some t else files \<alpha> (sh_files s) n)) \<and>
    execute io2 f (ascii ''cat '' @ name) s1 = Some (s2, Back) \<and>
    (sh_con s2, sh_mem s2) = console_print f (t @ [10]) (sh_con s1, sh_mem s1)"
  by (rule write_cat [OF assms])

subsection \<open>Examples\<close>

lemma scroll_correct_witness:
  "screen_shows console_screen (fb_scroll_up console_screen 16 0xAA0000 (\<lambda>a. ucast a)) \<and>
   pixel console_screen (backbuf console_screen) (fb_scroll_up console_screen 16 0xAA0000 (\<lambda>a. ucast a)) (3, 5) =
     pixel console_screen (backbuf console_screen) (\<lambda>a. ucast a) (3, 21)"
proof -
  have "drawable console_screen" "0 < (16 :: int)" "16 \<le> framebuffer.scr_h console_screen"
    by (simp_all add: console_screen_def two_buffers_def small_screen_def drawable_def buffered_def sprite_ok_def sprite_clear_def
      surface_def buffer_bytes_def)
  from scroll_correct [OF this, of "0xAA0000" "\<lambda>a. ucast a"] show ?thesis
    by (auto simp: console_screen_def two_buffers_def small_screen_def on_screen_def)
qed

definition tiny_fb :: framebuffer where
  "tiny_fb = two_buffers\<lparr>backbuf := 0xD000000C, target := 0xD000000C, lfb := 0xFD000000, framebuffer.scr_w := 2,
     framebuffer.scr_h := 2, pitch := 6\<rparr>"

lemma tiny_fb_canvas: "canvas tiny_fb"
  by (simp add: canvas_def drawable_def tiny_fb_def two_buffers_def small_screen_def buffered_def sprite_ok_def sprite_clear_def
      surface_def buffer_bytes_def above_font_def)

definition sh_state :: "framebuffer \<Rightarrow> u8 list \<Rightarrow> drive shell" where
  "sh_state f keys = \<lparr>sh_con = blank_console\<lparr>cols := 2, rows := 2\<rparr>, sh_mem = fb_flip f (\<lambda>_. 0), sh_gui = entered_gui, sh_keys = keys\<rparr>"

lemma sh_state_con: "canvas f \<Longrightarrow> con_ok f (sh_state f keys)"
  using flip_screen_shows [OF canvasD(2,3)] by (simp add: sh_state_def con_ok_def console_ok_def on_grid_def blank_console_def)

lemma sh_state_ok: "canvas f \<Longrightarrow> sh_ok f id (1024, 768) {} (sh_state f keys)"
  using sh_state_con entered_gui_safe by (simp add: sh_ok_def ready_def) (simp add: sh_state_def)

lemma entered_heap: "gui_heap entered_gui = used_heap\<lparr>heap_pg := paging_bss (pmm_init boot_low pmm_bss)\<rparr>"
  by (simp add: gui_heap_def entered_gui_def)

lemma entered_heap_inv: "heap_inv (gui_heap entered_gui) [0xD0000000, 0xD0000074]"
  using used_heap_inv by (simp add: heap_inv_def entered_heap)

lemma entered_heap_sane: "heap_sane (gui_heap entered_gui)" "spent (gui_heap entered_gui) < 700000000"
proof -
  show "heap_sane (gui_heap entered_gui)"
    using entered_gui_safe by (simp add: gui_safe_def safe_def owns_def gui_sane_def gui_heap_def)
  show "spent (gui_heap entered_gui) < 700000000"
    by (simp add: entered_heap spent_def used_heap_def paging_bss_def card_avail_frames boot_low_free)
qed

lemma tiny_screen_block: "screen_block tiny_fb (gui_heap entered_gui)"
proof -
  have "(backbuf tiny_fb - 12, 104) \<in> live (blocks (gui_heap entered_gui)) [0xD0000000, 0xD0000074]" "buffer_bytes tiny_fb \<le> 104"
    using used_heap_live by (simp_all add: entered_heap tiny_fb_def two_buffers_def small_screen_def buffer_bytes_def)
  moreover have "0xD0000000 + spent (gui_heap entered_gui) \<le> unat (lfb tiny_fb)"
    "unat (cur_sprite tiny_fb) + 4 * nat (cur_w tiny_fb * cur_h tiny_fb) \<le> 0xD0000000"
    using entered_heap_sane(2) by (simp_all add: tiny_fb_def two_buffers_def small_screen_def)
  ultimately show ?thesis using entered_heap_inv unfolding screen_block_def by blast
qed

lemma memtest_correct_witness:
  "\<exists>s' hp' as'. cmd_memtest tiny_fb (sh_state tiny_fb []) = Some s' \<and> con_ok tiny_fb s' \<and> heap_inv hp' as' \<and>
     (enough_memory (gui_heap entered_gui) \<longrightarrow> live (blocks hp') as' = {(0xD0000000, 104)})"
proof -
  have "gui_heap (sh_gui (sh_state tiny_fb [])) = gui_heap entered_gui" by (simp add: sh_state_def)
  from memtest_correct [OF tiny_fb_canvas sh_state_con [OF tiny_fb_canvas] entered_heap_sane(1) entered_heap_inv this tiny_screen_block]
  show ?thesis using used_heap_live by (auto simp: entered_heap)
qed

lemma read_line_correct_witness:
  "\<exists>w'. read_line tiny_fb ([97, 98, 8, 1, 99] @ 10 # [33]) [] (sh_con (sh_state tiny_fb []), sh_mem (sh_state tiny_fb [])) = Some ([97, 99], [33], w') \<and>
     console_ok tiny_fb w'"
proof -
  have 1: "10 \<notin> set [97, 98, 8, 1, 99 :: u8]" and 2: "foldl edit_key [] [97, 98, 8, 1, 99] = [97, 99]" by code_simp+
  obtain l w' where "read_line tiny_fb ([97, 98, 8, 1, 99] @ 10 # [33]) [] (sh_con (sh_state tiny_fb []), sh_mem (sh_state tiny_fb [])) = Some (l, [33], w')"
    "l = foldl edit_key [] [97, 98, 8, 1, 99]" "console_ok tiny_fb w'"
    using read_line_correct [OF canvasD(1) [OF tiny_fb_canvas] sh_state_con [OF tiny_fb_canvas, unfolded con_ok_def] 1, of "[33]" "[]"] by blast
  then show ?thesis unfolding 2 by blast
qed

definition quiet_io :: "drive io" where
  "quiet_io = \<lparr>io_bus = drive_bus, io_mm = (\<lambda>_. 0), io_now = (\<lambda>_ _ _. 0), io_first = \<lparr>fr_now = 0, fr_hz = 100, fr_clock = (0, 0, 0)\<rparr>,
     io_frames = (\<lambda>_. \<lparr>fr_now = 0, fr_hz = 100, fr_clock = (0, 0, 0)\<rparr>), io_rounds = [], io_events = [], io_ticks = 0, io_hz = 100\<rparr>"


lemma entered_grants: "fst (heap_alloc 3 (gui_heap entered_gui)) \<noteq> 0"
proof -
  have "find_fit (blocks used_heap) 8 0xD0000074 = Some 0xD0000074" by (subst find_fit.simps) (simp add: used_heap_def)
  then have "find_fit (blocks used_heap) 8 0xD0000000 = Some 0xD0000074" by (subst find_fit.simps) (simp add: used_heap_def)
  then have "find_fit (blocks (gui_heap entered_gui)) 8 (heap_head (gui_heap entered_gui)) = Some 0xD0000074"
    by (simp add: entered_heap) (simp add: used_heap_def)
  then have "kmalloc_try (Suc (Suc 0)) 8 (gui_heap entered_gui) = Some (0xD0000080, (gui_heap entered_gui)\<lparr>blocks := take_block (blocks (gui_heap entered_gui)) 8 0xD0000074\<rparr>)"
    by (simp add: sizeof_block_def)
  then have t: "kmalloc_try 2 8 (gui_heap entered_gui) = Some (0xD0000080, (gui_heap entered_gui)\<lparr>blocks := take_block (blocks (gui_heap entered_gui)) 8 0xD0000074\<rparr>)"
    by (simp only: numeral_2_eq_2)
  have "ALIGN8 3 = 8" by (simp add: ALIGN8_def)
  then show ?thesis by (simp add: heap_alloc_def kmalloc_def t)
qed

lemma write_then_cat_witness:
  "\<exists>s1 s2. execute quiet_io desk_fb (ascii ''write '' @ [98] @ 32 # [104, 105]) (sh_state desk_fb []) = Some (s1, Back) \<and>
     files id (sh_files s1) [98] = Some [104, 105] \<and> files id (sh_files s1) [97] = Some [0, 0, 0] \<and>
     execute quiet_io desk_fb (ascii ''cat '' @ [98]) s1 = Some (s2, Back) \<and>
     (sh_con s2, sh_mem s2) = console_print desk_fb [104, 105, 10] (sh_con s1, sh_mem s1)"
proof -
  have d: "drives (io_bus quiet_io) id" using drive_bus_drives by (simp add: quiet_io_def)
  have st: "sh_files (sh_state desk_fb []) = small_fs\<lparr>fs_heap := gui_heap entered_gui\<rparr>"
    by (simp add: sh_files_def sh_state_def gui_heap_def entered_gui_def)
  have f: "files id (sh_files (sh_state desk_fb [])) [97] = Some [0, 0, 0]" using small_fs_file by (simp add: st files_heap)
  have room: "has_slot (sh_files (sh_state desk_fb [])) [98]" "1 \<le> room_for (sh_files (sh_state desk_fb [])) [98]"
    using small_fs_room
    by (simp_all add: st has_slot_def room_for_def find_entry_def Fs_Spec.used_def free_in_def free_blocks_def nblocks_def
        name_of_def small_fs_find(2) [unfolded find_entry_def])
  have g: "fst (heap_alloc (of_nat (length [104, 105 :: u8]) + 1) (gui_heap (sh_gui (sh_state desk_fb [])))) \<noteq> 0"
    using entered_grants by (simp add: sh_state_def)
  have "valid_name [98]" "32 \<notin> set [98 :: u8]" "[104, 105 :: u8] \<noteq> []" "0 \<notin> set [104, 105 :: u8]" "length [104, 105 :: u8] < LINE_MAX"
    "blocks_for (length [104, 105 :: u8]) \<le> room_for (sh_files (sh_state desk_fb [])) [98]"
    using room(2) by (simp_all add: valid_name_def LINE_MAX_def blocks_for_def)
  from write_then_cat [OF d d desk_fb_canvas sh_state_ok [OF desk_fb_canvas] this(1,2) room(1) this(3-6) g] show ?thesis
    using f by auto
qed

end
