(* ===== verification/Fs_Mount.thy ===== *)
theory Fs_Mount
  imports Fs_Ops
begin

text \<open>
  Mounting: what the file operations leave on the disk is what the next \<open>fs_mount\<close> reads back. The
  predicate \<open>saved\<close> says that superblock, FAT and directory on the disk are the cached ones; formatting
  establishes it, every operation of \<open>fs.c\<close> keeps it, and mounting a saved volume restores its files.
\<close>

subsection \<open>Bytes on disk and back\<close>

lemma le_word [simp]:
  "ucast (ucast x :: u8) OR push_bit 8 (ucast (ucast (drop_bit 8 x) :: u8)) OR
   push_bit 16 (ucast (ucast (drop_bit 16 x) :: u8)) OR push_bit 24 (ucast (ucast (drop_bit 24 x) :: u8)) = x" for x :: u32
proof (rule bit_word_eqI)
  fix n assume "n < LENGTH(32)"
  moreover have "24 \<le> n \<Longrightarrow> 24 + (n - 24) = n" "16 \<le> n \<Longrightarrow> 16 + (n - 16) = n" "8 \<le> n \<Longrightarrow> 8 + (n - 8) = n" by simp_all
  ultimately show "bit (ucast (ucast x :: u8) OR push_bit 8 (ucast (ucast (drop_bit 8 x) :: u8)) OR
      push_bit 16 (ucast (ucast (drop_bit 16 x) :: u8)) OR push_bit 24 (ucast (ucast (drop_bit 24 x) :: u8)) :: u32) n = bit x n"
    by (cases "n < 8"; cases "n < 16"; cases "n < 24") (auto simp: bit_simps)
qed

lemma superblock_roundtrip: "superblock_of (superblock_bytes s @ r) = s"
  by (simp add: superblock_of_def superblock_bytes_def le4_def un_le4_def)

lemma dirent_roundtrip:
  assumes "length (de_name e) = 22"
  shows "dirent_of (dirent_bytes e) = e"
  using assms by (simp add: dirent_of_def dirent_bytes_def nth_append le4_def un_le4_def word_bytes_def)

lemma chunk_of_concat:
  "\<forall>x \<in> set xs. length (f x) = k \<Longrightarrow> i < length xs \<Longrightarrow> take k (drop (k * i) (concat (map f xs))) = f (xs ! i)"
proof (induction xs arbitrary: i)
  case (Cons x xs)
  then show ?case by (cases i) simp_all
qed simp

lemma concat_of_chunks: "concat (map (\<lambda>s. take k (drop (k * s) B)) [0..<n]) = take (k * n) B"
proof (induction n)
  case (Suc n)
  have "take (k * Suc n) B = take (k * n) B @ take k (drop (k * n) B)"
    using take_add [of "k * n" k B] by (simp add: add.commute)
  with Suc show ?case by simp
qed simp

lemma dir_roundtrip:
  assumes "length dir = 64" "\<forall>i < 64. length (de_name (dir ! i)) = 22"
  shows "dir_of (map (dir_sector dir) [0..<4]) = dir"
proof -
  have names: "\<forall>e \<in> set dir. length (de_name e) = 22" using assms by (metis in_set_conv_nth)
  then have len: "\<forall>e \<in> set dir. length (dirent_bytes e) = 32" by (simp add: length_dirent_bytes)
  then have "length (concat (map dirent_bytes dir)) = 2048"
    using assms(1) by (simp add: length_concat comp_def sum_list_triv cong: map_cong)
  then have B: "concat (map (dir_sector dir) [0..<4]) = concat (map dirent_bytes dir)"
    unfolding dir_sector_def concat_of_chunks by simp
  show ?thesis
  proof (rule nth_equalityI)
    show "length (dir_of (map (dir_sector dir) [0..<4])) = length dir" by (simp add: dir_of_def FS_DIR_ENTRIES_def assms(1))
    fix i assume "i < length (dir_of (map (dir_sector dir) [0..<4]))"
    then have i: "i < 64" by (simp add: dir_of_def FS_DIR_ENTRIES_def)
    have "dir_of (map (dir_sector dir) [0..<4]) ! i = dirent_of (take 32 (drop (32 * i) (concat (map dirent_bytes dir))))"
      unfolding dir_of_def B using i by (simp add: FS_DIR_ENTRIES_def)
    also have "\<dots> = dirent_of (dirent_bytes (dir ! i))" using chunk_of_concat [OF len] i assms(1) by simp
    also have "\<dots> = dir ! i" using names i assms(1) by (simp add: dirent_roundtrip)
    finally show "dir_of (map (dir_sector dir) [0..<4]) ! i = dir ! i" .
  qed
qed

lemma fat_roundtrip:
  assumes "cs ! (b div 256) = fat_sector fat (b div 256)"
  shows "fat_of cs b = fat b"
proof -
  have "fat_of cs b = id_word (concat (map word_bytes (map (\<lambda>j. fat (256 * (b div 256) + j)) [0..<256]))) (b mod 256)"
    by (simp add: fat_of_def assms fat_sector_def id_word_def comp_def)
  also have "\<dots> = fat b" by (subst identify_words) simp_all
  finally show ?thesis .
qed

subsection \<open>What is on the disk is what is cached\<close>

definition super_saved :: "('s \<Rightarrow> u32 \<Rightarrow> u8 list) \<Rightarrow> 's fsys \<Rightarrow> bool" where
  "super_saved sector st \<longleftrightarrow>
     superblock_of (sector (fs_dev st) FS_START_LBA) = fs_sb st \<and> sb_magic (fs_sb st) = FS_MAGIC \<and> sb_version (fs_sb st) = FS_VERSION"

text \<open>The FAT sectors that hold entries of data blocks, and the directory.\<close>

definition tables_saved :: "('s \<Rightarrow> u32 \<Rightarrow> u8 list) \<Rightarrow> 's fsys \<Rightarrow> bool" where
  "tables_saved sector st \<longleftrightarrow>
     (\<forall>k. unat (sb_fat_start (fs_sb st)) \<le> unat k \<and> unat k \<le> unat (sb_fat_start (fs_sb st)) + nblocks st div 256 \<longrightarrow>
        sector (fs_dev st) k = fat_sector (fs_fat st) (unat k - unat (sb_fat_start (fs_sb st)))) \<and>
     (\<forall>k. unat (sb_dir_start (fs_sb st)) \<le> unat k \<and> unat k < unat (sb_dir_start (fs_sb st)) + 4 \<longrightarrow>
        sector (fs_dev st) k = dir_sector (fs_dir st) (unat k - unat (sb_dir_start (fs_sb st))))"

definition saved :: "('s \<Rightarrow> u32 \<Rightarrow> u8 list) \<Rightarrow> 's fsys \<Rightarrow> bool" where
  "saved sector st \<longleftrightarrow> super_saved sector st \<and> tables_saved sector st"

lemma unat_start: "unat FS_START_LBA = 193"
  by (simp add: FS_START_LBA_def)

lemma find_from_used:
  "find_from es name k = Some i \<Longrightarrow> k \<le> i \<and> i - k < length es \<and> de_used (es ! (i - k)) \<noteq> 0"
proof (induction es arbitrary: k)
  case (Cons e es)
  show ?case
  proof (cases "de_used e \<noteq> 0 \<and> strcmp_bytes (cstr (de_name e)) name = 0")
    case True
    with Cons.prems show ?thesis by auto
  next
    case False
    then have "find_from es name (Suc k) = Some i" using Cons.prems by auto
    from Cons.IH [OF this] have "Suc k \<le> i" "i - Suc k < length es" "de_used (es ! (i - Suc k)) \<noteq> 0" by blast+
    moreover have "i - k = Suc (i - Suc k)" using \<open>Suc k \<le> i\<close> by simp
    ultimately show ?thesis by simp
  qed
qed simp

text \<open>A state with the same tables over the same data has the same files.\<close>

lemma same_view:
  assumes lk: "linked st" and eq: "fs_sb st' = fs_sb st" "fs_dir st' = fs_dir st" "sector (fs_dev st') = sector (fs_dev st)"
    and fat: "\<And>b. b \<le> nblocks st \<Longrightarrow> fs_fat st' b = fs_fat st b"
  shows "linked st'" "\<And>i. used st i \<Longrightarrow> sized st' i = sized st i" "used st' = used st" "contents sector st' = contents sector st"
proof -
  have s: "used st' i = used st i" "name_of st' i = name_of st i" "nblocks st' = nblocks st" for i
    by (simp_all add: used_def name_of_def nblocks_def eq)
  then show "used st' = used st" by (simp add: fun_eq_iff)
  have ch: "fat_chain (fs_fat st') (de_first (fs_dir st' ! i)) (blocks_of st i)" if "used st i" for i
  proof -
    have "\<forall>b \<in> set (blocks_of st i). fs_fat st' (unat b) = fs_fat st (unat b)"
      using linked_range [OF lk that] fat by blast
    from fat_chain_cong [OF this] show ?thesis using linked_chain [OF lk that] by (simp add: eq)
  qed
  then have b: "blocks_of st' i = blocks_of st i" if "used st i" for i
    using chain_of_eq [OF ch [OF that]] by (simp add: blocks_of_def)
  show "linked st'"
    using lk ch b unfolding linked_def s(1-3) eq by simp
  show "sized st' i = sized st i" if "used st i" for i using b [OF that] by (simp add: sized_def eq)
  have f: "find_entry st' n = find_entry st n" for n by (simp add: find_entry_def eq)
  show "contents sector st' = contents sector st"
  proof
    fix n
    have "file_bytes sector st' i = file_bytes sector st i" if "find_entry st n = Some i" for i
    proof -
      have "used st i" using that find_from_used [of "fs_dir st" n 0 i] by (simp add: find_entry_def used_def)
      moreover have "blk sector st' = blk sector st" by (rule ext) (simp add: blk_def eq)
      ultimately show ?thesis using b by (simp add: file_bytes_def eq)
    qed
    then show "contents sector st' n = contents sector st n"
      by (cases "find_entry st n") (simp_all add: contents_def f)
  qed
qed

context sector_disk
begin

lemma fat_flushed:
  assumes "ready (fs_dev st)" "cap (fs_dev st) \<le> 4294967296"
    and "unat (sb_fat_start (fs_sb st)) + Suc (unat (l * 2 div BLOCK_SIZE)) \<le> cap (fs_dev st)"
  shows "\<exists>d. flush_fat_range wr 0 l st = (0, st\<lparr>fs_dev := d\<rparr>) \<and> ready d \<and> cap d = cap (fs_dev st) \<and>
    (\<forall>k. unat k < cap (fs_dev st) \<longrightarrow> sector d k =
       (if unat (sb_fat_start (fs_sb st)) \<le> unat k \<and> unat k \<le> unat (sb_fat_start (fs_sb st)) + unat (l * 2 div BLOCK_SIZE)
        then fat_sector (fs_fat st) (unat k - unat (sb_fat_start (fs_sb st))) else sector (fs_dev st) k))"
proof -
  let ?n = "Suc (unat (l * 2 div BLOCK_SIZE))"
  let ?cs = "map (fat_sector (fs_fat st)) [0..<?n]"
  have "unat (sb_fat_start (fs_sb st)) + length ?cs \<le> cap (fs_dev st)" "\<forall>c \<in> set ?cs. length c = 512" using assms(3) by simp_all
  from wr_run_ok [OF assms(1) this(1) assms(2) this(2)] obtain d where
    d: "wr_run wr (sb_fat_start (fs_sb st)) ?cs (fs_dev st) = (0, d)" "ready d" "cap d = cap (fs_dev st)"
      "\<And>k. unat k < cap (fs_dev st) \<Longrightarrow> sector d k =
        (if unat (sb_fat_start (fs_sb st)) \<le> unat k \<and> unat k < unat (sb_fat_start (fs_sb st)) + length ?cs
         then ?cs ! (unat k - unat (sb_fat_start (fs_sb st))) else sector (fs_dev st) k)" by auto
  have "flush_fat_range wr 0 l st = (0, st\<lparr>fs_dev := d\<rparr>)" using d(1) by (simp add: flush_fat_range_def)
  moreover have "sector d k =
      (if unat (sb_fat_start (fs_sb st)) \<le> unat k \<and> unat k \<le> unat (sb_fat_start (fs_sb st)) + unat (l * 2 div BLOCK_SIZE)
       then fat_sector (fs_fat st) (unat k - unat (sb_fat_start (fs_sb st))) else sector (fs_dev st) k)"
    if "unat k < cap (fs_dev st)" for k
    unfolding d(4) [OF that] by (auto simp: nth_map simp del: upt_Suc)
  ultimately show ?thesis using d(2,3) by blast
qed

lemma dir_flushed:
  assumes "ready (fs_dev st)" "cap (fs_dev st) \<le> 4294967296" "unat (sb_dir_start (fs_sb st)) + 4 \<le> cap (fs_dev st)"
    and "unat (sb_dir_sectors (fs_sb st)) = 4" "length (fs_dir st) = 64" "\<forall>i < 64. length (de_name (fs_dir st ! i)) = 22"
  shows "\<exists>d. flush_dir wr st = (0, st\<lparr>fs_dev := d\<rparr>) \<and> ready d \<and> cap d = cap (fs_dev st) \<and>
    (\<forall>k. unat k < cap (fs_dev st) \<longrightarrow> sector d k =
       (if unat (sb_dir_start (fs_sb st)) \<le> unat k \<and> unat k < unat (sb_dir_start (fs_sb st)) + 4
        then dir_sector (fs_dir st) (unat k - unat (sb_dir_start (fs_sb st))) else sector (fs_dev st) k))"
proof -
  let ?cs = "map (dir_sector (fs_dir st)) [0..<4]"
  have "unat (sb_dir_start (fs_sb st)) + length ?cs \<le> cap (fs_dev st)" "\<forall>c \<in> set ?cs. length c = 512"
    using assms(3) length_dir_sector [OF assms(5,6)] by auto
  from wr_run_ok [OF assms(1) this(1) assms(2) this(2)] obtain d where
    d: "wr_run wr (sb_dir_start (fs_sb st)) ?cs (fs_dev st) = (0, d)" "ready d" "cap d = cap (fs_dev st)"
      "\<And>k. unat k < cap (fs_dev st) \<Longrightarrow> sector d k =
        (if unat (sb_dir_start (fs_sb st)) \<le> unat k \<and> unat k < unat (sb_dir_start (fs_sb st)) + length ?cs
         then ?cs ! (unat k - unat (sb_dir_start (fs_sb st))) else sector (fs_dev st) k)" by auto
  have "flush_dir wr st = (0, st\<lparr>fs_dev := d\<rparr>)" using d(1) by (simp add: flush_dir_def assms(4))
  moreover have "sector d k =
      (if unat (sb_dir_start (fs_sb st)) \<le> unat k \<and> unat k < unat (sb_dir_start (fs_sb st)) + 4
       then dir_sector (fs_dir st) (unat k - unat (sb_dir_start (fs_sb st))) else sector (fs_dev st) k)"
    if "unat k < cap (fs_dev st)" for k
  proof -
    have "?cs ! i = dir_sector (fs_dir st) i" if "i < 4" for i using that by (simp del: upt_Suc)
    then show ?thesis unfolding d(4) [OF that] by (auto simp del: upt_Suc)
  qed
  ultimately show ?thesis using d(2,3) by blast
qed

end

subsection \<open>Every operation keeps the disk up to date\<close>

context sector_disk
begin

lemma layout_facts:
  assumes "layout_ok sb c"
  shows "unat (sb_data_blocks sb * 2 div BLOCK_SIZE) = unat (sb_data_blocks sb) div 256" "c \<le> 4294967296"
    "unat (sb_fat_start sb) + Suc (unat (sb_data_blocks sb) div 256) \<le> unat (sb_dir_start sb)"
    "unat (sb_dir_start sb) + 4 \<le> unat (sb_data_start sb)" "unat (sb_data_start sb) \<le> c" "193 < unat (sb_fat_start sb)"
  using assms last_fat_sector [OF assms] by (auto simp: layout_ok_def)

lemma flush_all_saves:
  assumes vol: "volume_ok ready cap st" and lk: "linked st" and sup: "super_saved sector st"
  shows "\<exists>d. flush_all wr st = (0, st\<lparr>fs_dev := d\<rparr>) \<and> saved sector (st\<lparr>fs_dev := d\<rparr>) \<and>
    volume_ok ready cap (st\<lparr>fs_dev := d\<rparr>)"
proof -
  let ?sb = "fs_sb st"
  have r: "ready (fs_dev st)" and lay: "layout_ok ?sb (cap (fs_dev st))" using vol by (simp_all add: volume_ok_def)
  note lf = layout_facts [OF lay]
  have "unat (sb_fat_start ?sb) + Suc (unat (sb_data_blocks ?sb * 2 div BLOCK_SIZE)) \<le> cap (fs_dev st)" using lf by linarith
  from fat_flushed [OF r lf(2) this, unfolded lf(1)] obtain d where
    d: "flush_fat_range wr 0 (sb_data_blocks ?sb) st = (0, st\<lparr>fs_dev := d\<rparr>)" "ready d" "cap d = cap (fs_dev st)"
      "\<forall>k. unat k < cap (fs_dev st) \<longrightarrow> sector d k =
       (if unat (sb_fat_start ?sb) \<le> unat k \<and> unat k \<le> unat (sb_fat_start ?sb) + unat (sb_data_blocks ?sb) div 256
        then fat_sector (fs_fat st) (unat k - unat (sb_fat_start ?sb)) else sector (fs_dev st) k)" by blast
  let ?st = "st\<lparr>fs_dev := d\<rparr>"
  have "ready (fs_dev ?st)" "cap (fs_dev ?st) \<le> 4294967296" "unat (sb_dir_start (fs_sb ?st)) + 4 \<le> cap (fs_dev ?st)"
    "unat (sb_dir_sectors (fs_sb ?st)) = 4" "length (fs_dir ?st) = 64" "\<forall>i < 64. length (de_name (fs_dir ?st ! i)) = 22"
    using d(2,3) lf lk lay by (simp_all add: linked_def layout_ok_def)
  from dir_flushed [OF this] obtain d' where
    d': "flush_dir wr ?st = (0, ?st\<lparr>fs_dev := d'\<rparr>)" "ready d'" "cap d' = cap d"
      "\<forall>k. unat k < cap d \<longrightarrow> sector d' k =
       (if unat (sb_dir_start ?sb) \<le> unat k \<and> unat k < unat (sb_dir_start ?sb) + 4
        then dir_sector (fs_dir st) (unat k - unat (sb_dir_start ?sb)) else sector d k)" by auto
  have "sector d' FS_START_LBA = sector (fs_dev st) FS_START_LBA"
    using d(3,4) d'(4) lf by (simp add: unat_start)
  then have "super_saved sector (st\<lparr>fs_dev := d'\<rparr>)" using sup by (simp add: super_saved_def)
  moreover have "tables_saved sector (st\<lparr>fs_dev := d'\<rparr>)"
    unfolding tables_saved_def using d(3,4) d'(4) lf by (auto simp: nblocks_def)
  moreover have "flush_all wr st = (0, st\<lparr>fs_dev := d'\<rparr>)" using d(1) d'(1) by (simp add: flush_all_def)
  ultimately show ?thesis using d(3) d'(2,3) lay by (auto simp: saved_def volume_ok_def)
qed

lemma roll_back_saves:
  assumes "volume_ok ready cap st" "linked st" "used st i" "super_saved sector st"
  shows "saved sector (roll_back wr i st)"
proof -
  let ?st = "drop_chain i 0 st"
  have dc: "linked ?st" "fs_dev ?st = fs_dev st" using drop_chain_correct [OF assms(2,3), where sector = sector and len = 0] by blast+
  have sb: "fs_sb ?st = fs_sb st" by (simp add: drop_chain_def upd_entry_def)
  have "volume_ok ready cap ?st" "super_saved sector ?st"
    using assms(1,4) dc(2) sb by (simp_all add: volume_ok_def super_saved_def)
  from flush_all_saves [OF this(1) dc(1) this(2)] obtain d where
    d: "flush_all wr ?st = (0, ?st\<lparr>fs_dev := d\<rparr>)" "saved sector (?st\<lparr>fs_dev := d\<rparr>)" by blast
  have "roll_back wr i st = snd (flush_all wr ?st)"
    using d(1) by (auto simp: roll_back_def flush_all_def Let_def sb split: prod.splits if_splits)
  then show ?thesis using d by simp
qed

lemma write_loop_saves:
  "volume_ok ready cap st \<Longrightarrow> linked st \<Longrightarrow> used st i \<Longrightarrow> super_saved sector st \<Longrightarrow>
   prev = (if blocks_of st i = [] then 0 else last (blocks_of st i)) \<Longrightarrow> length inp = unat remaining \<Longrightarrow>
   (\<exists>st'. write_loop wr i prev inp remaining st = (0, st') \<and> volume_ok ready cap st' \<and> linked st' \<and> super_saved sector st') \<or>
   (\<exists>st'. write_loop wr i prev inp remaining st = (- 1, st') \<and> saved sector st')"
proof (induction "unat remaining" arbitrary: prev inp remaining st rule: less_induct)
  case less
  show ?case
  proof (cases "remaining = 0")
    case True
    then have "write_loop wr i prev inp remaining st = (0, st)" by (simp add: write_loop.simps [of wr i prev inp])
    then show ?thesis using less.prems(1,2,4) by blast
  next
    case False
    then have pos: "0 < unat remaining" by (simp add: unat_gt_0)
    let ?b = "alloc_block st" and ?n = "chunk_len remaining"
    let ?sect = "take (unat ?n) inp @ replicate (512 - unat ?n) 0"
    show ?thesis
    proof (cases "?b = 0")
      case True
      then have "write_loop wr i prev inp remaining st = (- 1, roll_back wr i st)"
        using \<open>remaining \<noteq> 0\<close> by (subst write_loop.simps) simp
      with roll_back_saves [OF less.prems(1-4)] show ?thesis by blast
    next
      case b: False
      have len: "length ?sect = 512" using less.prems(6) by (simp add: unat_chunk_len)
      obtain d where d: "wr (block_lba (fs_sb (link_block i prev ?b st)) ?b) ?sect (fs_dev (link_block i prev ?b st)) = (0, d)"
          "volume_ok ready cap ((link_block i prev ?b st)\<lparr>fs_sect := ?sect, fs_dev := d\<rparr>)"
          "extended sector i st [?b] ((link_block i prev ?b st)\<lparr>fs_sect := ?sect, fs_dev := d\<rparr>)" "unat ?b \<in> free_in st"
        using write_step [OF less.prems(1-3,5) refl b len] by blast
      let ?st2 = "(link_block i prev ?b st)\<lparr>fs_sect := ?sect, fs_dev := d\<rparr>"
      have st1: "fs_sb (link_block i prev ?b st) = fs_sb st" "fs_dev (link_block i prev ?b st) = fs_dev st"
        by (simp_all add: link_block_def set_fat_def upd_entry_def Let_def)
      have r: "ready (fs_dev st)" and lay: "layout_ok (fs_sb st) (cap (fs_dev st))"
        using less.prems(1) by (simp_all add: volume_ok_def)
      have rng: "1 \<le> unat ?b" "unat ?b \<le> nblocks st" using d(4) by (auto simp: free_in_def free_blocks_def)
      have lba: "unat (block_lba (fs_sb st) ?b) = unat (sb_data_start (fs_sb st)) + unat ?b - 1"
        using unat_block_lba [OF lay rng(1)] rng(2) by (simp add: nblocks_def)
      have inside: "unat (block_lba (fs_sb st) ?b) < cap (fs_dev st)"
        using lba rng lay by (auto simp: layout_ok_def nblocks_def)
      have start: "193 < unat (sb_data_start (fs_sb st))" "unat (sb_data_start (fs_sb st)) \<le> cap (fs_dev st)"
        using layout_facts [OF lay] by linarith+
      have ne: "FS_START_LBA \<noteq> block_lba (fs_sb st) ?b"
        using lba start(1) rng(1) by (auto simp: u32_eq_iff unat_start)
      have "sector d FS_START_LBA = sector (fs_dev st) FS_START_LBA"
        using wr_ok [OF r inside len] d(1) ne start unfolding st1 by (auto simp: unat_start)
      then have sup: "super_saved sector ?st2" using less.prems(4) by (simp add: super_saved_def st1)
      have run: "write_loop wr i prev inp remaining st =
          write_loop wr i ?b (drop (unat ?n) inp) (remaining - ?n) ?st2"
        using False b d(1) by (subst write_loop.simps) (simp add: Let_def)
      have rem: "unat (remaining - ?n) = unat remaining - unat ?n"
        by (rule unat_sub32) (simp add: unat_chunk_len)
      have lk2: "linked ?st2" "used ?st2 i" "blocks_of ?st2 i = blocks_of st i @ [?b]"
        using d(3) by (simp_all add: extended_def del: dev_update sect_update)
      have "unat (remaining - ?n) < unat remaining" using rem pos by (simp add: unat_chunk_len)
      moreover have "?b = (if blocks_of ?st2 i = [] then 0 else last (blocks_of ?st2 i))" unfolding lk2(3) by simp
      moreover have "length (drop (unat ?n) inp) = unat (remaining - ?n)" using less.prems(6) rem by simp
      ultimately show ?thesis unfolding run using less.hyps [OF _ d(2) lk2(1,2) sup] by blast
    qed
  qed
qed

end

text \<open>The operations that change the volume, in any order, with any names and contents.\<close>

datatype fs_op = Write "u8 list" "u8 list" | Delete "u8 list" | Rename "u8 list" "u8 list"

fun fs_do :: "'s wr \<Rightarrow> fs_op \<Rightarrow> 's fsys \<Rightarrow> 's fsys" where
  "fs_do wr (Write name data) st = snd (fs_write wr name data (of_nat (length data)) st)"
| "fs_do wr (Delete name) st = snd (fs_delete wr name st)"
| "fs_do wr (Rename oldname newname) st = snd (fs_rename wr oldname newname st)"

text \<open>Names hold no NUL, lengths fit 32 bits.\<close>

fun op_ok :: "fs_op \<Rightarrow> bool" where
  "op_ok (Write name data) \<longleftrightarrow> 0 \<notin> set name \<and> length data < 4294967296"
| "op_ok (Delete name) \<longleftrightarrow> 0 \<notin> set name"
| "op_ok (Rename oldname newname) \<longleftrightarrow> 0 \<notin> set oldname \<and> 0 \<notin> set newname"

lemma flush_sb: "fs_sb (snd (flush_fat_range wr a c st)) = fs_sb st" "fs_sb (snd (flush_dir wr st)) = fs_sb st"
    "fs_sb (snd (flush_all wr st)) = fs_sb st"
  by (auto simp: flush_fat_range_def flush_dir_def flush_all_def Let_def split: prod.splits)

lemma write_loop_sb: "fs_sb (snd (write_loop wr i prev inp r st)) = fs_sb st"
proof (induction wr i prev inp r st rule: write_loop.induct)
  case (1 wr i prev inp r st)
  have rb: "fs_sb (roll_back wr i st) = fs_sb st"
    using flush_sb(1) [of wr 0 "sb_data_blocks (fs_sb st)" "drop_chain i 0 st"]
      flush_sb(2) [of wr "snd (flush_fat_range wr 0 (sb_data_blocks (fs_sb st)) (drop_chain i 0 st))"]
    by (simp add: roll_back_def case_prod_beta Let_def drop_chain_def upd_entry_def)
  have lb: "fs_sb (link_block i prev (alloc_block st) st) = fs_sb st"
    by (simp add: link_block_def set_fat_def upd_entry_def Let_def)
  show ?case
  proof (cases "r = 0 \<or> alloc_block st = 0")
    case True
    then show ?thesis using rb by (subst write_loop.simps) (auto simp: Let_def)
  next
    case False
    let ?n = "chunk_len r" and ?st1 = "link_block i prev (alloc_block st) st"
    let ?sect = "take (unat ?n) inp @ replicate (512 - unat ?n) 0"
    obtain q d where w: "wr (block_lba (fs_sb ?st1) (alloc_block st)) ?sect (fs_dev ?st1) = (q, d)" by fastforce
    let ?st2 = "?st1\<lparr>fs_sect := ?sect, fs_dev := d\<rparr>"
    have run: "write_loop wr i prev inp r st =
        (if q \<noteq> 0 then (- 1, ?st2) else write_loop wr i (alloc_block st) (drop (unat ?n) inp) (r - ?n) ?st2)"
      using False w by (subst write_loop.simps) (simp add: Let_def)
    show ?thesis
    proof (cases "q = 0")
      case True
      from 1 [OF _ refl _ refl refl refl w [symmetric] refl refl] False True
      have "fs_sb (snd (write_loop wr i (alloc_block st) (drop (unat ?n) inp) (r - ?n) ?st2)) = fs_sb ?st2" by simp
      then show ?thesis using run True lb by simp
    next
      case False
      then show ?thesis using run lb by simp
    qed
  qed
qed

lemma do_sb: "fs_sb (fs_do wr op st) = fs_sb st"
proof (cases op)
  case (Write name data)
  show ?thesis
  proof (cases "claim_entry name st")
    case None
    then show ?thesis using Write by (simp add: fs_write_def)
  next
    case (Some p)
    obtain i st1 where p: "p = (i, st1)" by fastforce
    have c: "fs_sb st1 = fs_sb st" using Some p by (auto simp: claim_entry_def upd_entry_def split: option.splits)
    let ?st2 = "drop_chain i (of_nat (length data)) st1"
    obtain r st3 where w: "write_loop wr i 0 data (of_nat (length data)) ?st2 = (r, st3)" by fastforce
    have "fs_sb ?st2 = fs_sb st1" by (simp add: drop_chain_def upd_entry_def)
    then have "fs_sb st3 = fs_sb st"
      using write_loop_sb [of wr i 0 data "of_nat (length data)" ?st2] c by (simp only: w snd_conv)
    moreover have "fs_do wr op st = (if \<not> fs_mounted st \<or> name = [] \<or> length name > FS_MAX_NAME then st
        else if r \<noteq> 0 then st3 else snd (flush_all wr st3))"
      using Write Some p w by (simp add: fs_write_def)
    ultimately show ?thesis by (simp add: flush_sb(3))
  qed
next
  case (Delete name)
  then show ?thesis by (auto simp: fs_delete_def flush_sb upd_entry_def split: option.split)
next
  case (Rename a b)
  then show ?thesis by (auto simp: fs_rename_def flush_sb upd_entry_def split: option.split)
qed

lemma fold_do_sb: "fs_sb (fold (fs_do wr) ops st) = fs_sb st"
  by (induction ops arbitrary: st) (simp_all add: do_sb)

definition good :: "('s \<Rightarrow> bool) \<Rightarrow> ('s \<Rightarrow> nat) \<Rightarrow> ('s \<Rightarrow> u32 \<Rightarrow> u8 list) \<Rightarrow> 's fsys \<Rightarrow> bool" where
  "good ready cap sector st \<longleftrightarrow> volume_ok ready cap st \<and> fs_inv st \<and> saved sector st"

context sector_disk
begin

lemma claim_keeps: "claim_entry name st = Some (i, st1) \<Longrightarrow> fs_sb st1 = fs_sb st \<and> fs_dev st1 = fs_dev st"
  by (auto simp: claim_entry_def upd_entry_def split: option.splits)

lemma fs_write_saves:
  assumes vol: "volume_ok ready cap st" and inv: "fs_inv st" and sav: "saved sector st"
    and name: "valid_name name" and slot: "has_slot st name" and len: "length data = unat l"
  shows "saved sector (snd (fs_write wr name data l st))"
proof -
  have mounted: "fs_mounted st" and lk: "linked st" using inv by (simp_all add: fs_inv_def)
  obtain i st1 where c: "claim_entry name st = Some (i, st1)"
      and p: "let st2 = drop_chain i l st1 in linked st2 \<and> used st2 i \<and> name_of st2 i = name \<and>
       keeps sector i st st2 \<and> fs_dev st2 = fs_dev st \<and> blocks_of st2 i = [] \<and> de_size (fs_dir st2 ! i) = l \<and>
       card (free_in st2) = room_for st name \<and> (used st i \<longrightarrow> name_of st i = name)"
    using prepare_write [OF lk name slot, of l sector] by blast
  define st2 where "st2 = drop_chain i l st1"
  have s2: "linked st2" "used st2 i" "fs_dev st2 = fs_dev st" "fs_sb st2 = fs_sb st" "blocks_of st2 i = []"
    using p by (simp_all add: Let_def st2_def keeps_def)
  have v2: "volume_ok ready cap st2" "super_saved sector st2"
    using vol sav s2(3,4) by (simp_all add: volume_ok_def saved_def super_saved_def)
  have w: "fs_write wr name data l st = (let (r, st3) = write_loop wr i 0 data l st2 in if r \<noteq> 0 then (- 1, st3) else flush_all wr st3)"
    using mounted name c by (simp add: fs_write_def valid_name_def FS_MAX_NAME_def st2_def)
  have "0 = (if blocks_of st2 i = [] then 0 else last (blocks_of st2 i))" using s2(5) by simp
  from write_loop_saves [OF v2(1) s2(1,2) v2(2) this len] show ?thesis
  proof
    assume "\<exists>st'. write_loop wr i 0 data l st2 = (0, st') \<and> volume_ok ready cap st' \<and> linked st' \<and> super_saved sector st'"
    then obtain st3 where r: "write_loop wr i 0 data l st2 = (0, st3)" "volume_ok ready cap st3" "linked st3" "super_saved sector st3"
      by blast
    from flush_all_saves [OF r(2-4)] show ?thesis using w r(1) by auto
  next
    assume "\<exists>st'. write_loop wr i 0 data l st2 = (- 1, st') \<and> saved sector st'"
    then show ?thesis using w by auto
  qed
qed

lemma write_good:
  assumes "good ready cap sector st" "0 \<notin> set name" "length data < 4294967296"
  shows "good ready cap sector (fs_do wr (Write name data) st)"
proof -
  have g: "volume_ok ready cap st" "fs_inv st" "saved sector st" "fs_mounted st" "linked st"
    using assms(1) by (simp_all add: good_def fs_inv_def)
  let ?l = "of_nat (length data) :: u32"
  have len: "length data = unat ?l" using assms(3) by (simp add: unat_of_nat32)
  show ?thesis
  proof (cases "valid_name name \<and> has_slot st name")
    case True
    have "\<exists>r st'. fs_write wr name data ?l st = (r, st') \<and> volume_ok ready cap st' \<and> fs_inv st'"
    proof (cases "blocks_for (unat ?l) \<le> room_for st name")
      case fits: True
      from fs_write_ok [OF g(1,2) _ _ len fits] True show ?thesis by blast
    next
      case False
      then have "room_for st name < blocks_for (unat ?l)" by simp
      from fs_write_full [OF g(1,2) _ _ len this] True show ?thesis by blast
    qed
    then show ?thesis using fs_write_saves [OF g(1-3) _ _ len] True by (auto simp: good_def)
  next
    case False
    have "fs_write wr name data ?l st = (- 1, st)"
    proof (cases "valid_name name")
      case True
      then have "claim_entry name st = None" using False claim_entry_correct [OF g(5), of name sector] by blast
      then show ?thesis by (simp add: fs_write_def)
    next
      case False
      then show ?thesis using assms(2) by (auto simp: fs_write_def valid_name_def FS_MAX_NAME_def)
    qed
    then show ?thesis using assms(1) by simp
  qed
qed

lemma delete_good:
  assumes "good ready cap sector st" "0 \<notin> set name"
  shows "good ready cap sector (fs_do wr (Delete name) st)"
proof -
  have g: "volume_ok ready cap st" "fs_inv st" "saved sector st" "fs_mounted st"
    using assms(1) by (simp_all add: good_def fs_inv_def)
  show ?thesis
  proof (cases "find_entry st name")
    case None
    then show ?thesis using assms(1) by (simp add: fs_delete_def)
  next
    case (Some i)
    obtain st' where d: "fs_delete wr name st = (0, st')" "volume_ok ready cap st'" "fs_inv st'"
      using fs_delete_ok [OF g(1,2) assms(2) Some] by blast
    let ?st = "upd_entry i (\<lambda>_. zero_dirent) (st\<lparr>fs_fat := free_chain (fs_fat st) (de_first (fs_dir st ! i))\<rparr>)"
    have f: "flush_all wr ?st = (0, st')" using d(1) g(4) Some by (simp add: fs_delete_def)
    have sb: "fs_sb ?st = fs_sb st" "fs_dev ?st = fs_dev st" by (simp_all add: upd_entry_def)
    have "fs_sb st' = fs_sb ?st \<and> fs_fat st' = fs_fat ?st \<and> fs_dir st' = fs_dir ?st"
      using f by (auto simp: flush_all_def flush_fat_range_def flush_dir_def Let_def split: prod.splits if_splits)
    then have "linked ?st = linked st'"
      by (simp add: linked_def used_def name_of_def blocks_of_def nblocks_def)
    then have "linked ?st" using d(3) by (simp add: fs_inv_def)
    moreover have "volume_ok ready cap ?st" "super_saved sector ?st"
      using g(1,3) unfolding volume_ok_def saved_def super_saved_def sb by simp_all
    ultimately have "saved sector st'" using flush_all_saves [of ?st] f by auto
    then show ?thesis using d by (simp add: good_def)
  qed
qed

end

context sector_disk
begin

lemma rename_good:
  assumes "good ready cap sector st" "0 \<notin> set oldname" "0 \<notin> set newname"
  shows "good ready cap sector (fs_do wr (Rename oldname newname) st)"
proof -
  have g: "volume_ok ready cap st" "fs_inv st" "saved sector st" "fs_mounted st" "linked st"
    using assms(1) by (simp_all add: good_def fs_inv_def)
  show ?thesis
  proof (cases "valid_name newname \<and> find_entry st newname = None \<and> find_entry st oldname \<noteq> None")
    case False
    then have "fs_rename wr oldname newname st = (- 1, st)"
      using assms(3) by (auto simp: fs_rename_def valid_name_def FS_MAX_NAME_def split: option.splits)
    then show ?thesis using assms(1) by simp
  next
    case True
    then obtain i where i: "find_entry st oldname = Some i" "valid_name newname" "find_entry st newname = None" by blast
    obtain st' where d: "fs_rename wr oldname newname st = (0, st')" "volume_ok ready cap st'" "fs_inv st'"
      using fs_rename_ok [OF g(1,2) assms(2) i(2,1,3)] by blast
    let ?st = "upd_entry i (\<lambda>e. e\<lparr>de_name := newname @ [0] @ replicate (21 - length newname) 0\<rparr>) st"
    have f: "flush_dir wr ?st = (0, st')"
      using d(1) g(4) i by (simp add: fs_rename_def valid_name_def FS_MAX_NAME_def)
    have sb: "fs_sb ?st = fs_sb st" "fs_dev ?st = fs_dev st" "fs_fat ?st = fs_fat st" by (simp_all add: upd_entry_def)
    have eq: "fs_sb st' = fs_sb st" "fs_fat st' = fs_fat st" "fs_dir st' = fs_dir ?st"
      using f by (auto simp: flush_dir_def upd_entry_def Let_def split: prod.splits)
    have "linked st'" using d(3) by (simp add: fs_inv_def)
    then have dir: "length (fs_dir ?st) = 64" "\<forall>i < 64. length (de_name (fs_dir ?st ! i)) = 22"
      unfolding linked_def eq(3) by blast+
    have r: "ready (fs_dev st)" and lay: "layout_ok (fs_sb st) (cap (fs_dev st))" using g(1) by (simp_all add: volume_ok_def)
    note lf = layout_facts [OF lay]
    have "ready (fs_dev ?st)" "cap (fs_dev ?st) \<le> 4294967296" "unat (sb_dir_start (fs_sb ?st)) + 4 \<le> cap (fs_dev ?st)"
      "unat (sb_dir_sectors (fs_sb ?st)) = 4" using r lf lay unfolding sb by (simp_all add: layout_ok_def)
    from dir_flushed [OF this dir] obtain e where
      e: "flush_dir wr ?st = (0, ?st\<lparr>fs_dev := e\<rparr>)" and
      k: "\<forall>k. unat k < cap (fs_dev st) \<longrightarrow> sector e k =
         (if unat (sb_dir_start (fs_sb st)) \<le> unat k \<and> unat k < unat (sb_dir_start (fs_sb st)) + 4
          then dir_sector (fs_dir ?st) (unat k - unat (sb_dir_start (fs_sb st))) else sector (fs_dev st) k)"
      unfolding sb by blast
    have dev: "fs_dev st' = e" using e f by auto
    have "sector e FS_START_LBA = sector (fs_dev st) FS_START_LBA" using k lf by (simp add: unat_start)
    then have "super_saved sector st'" using g(3) by (simp add: saved_def super_saved_def eq dev)
    moreover have "tables_saved sector st'"
      using g(3) k lf unfolding saved_def tables_saved_def eq(1-2) dev nblocks_def by (auto simp: eq(3))
    ultimately show ?thesis using d by (simp add: good_def saved_def)
  qed
qed

lemma ops_good: "good ready cap sector st \<Longrightarrow> \<forall>op \<in> set ops. op_ok op \<Longrightarrow> good ready cap sector (fold (fs_do wr) ops st)"
proof (induction ops arbitrary: st)
  case (Cons op ops)
  have "good ready cap sector (fs_do wr op st)"
  proof (cases op)
    case (Write n d) then show ?thesis using write_good [OF Cons.prems(1)] Cons.prems(2) by simp
  next
    case (Delete n) then show ?thesis using delete_good [OF Cons.prems(1)] Cons.prems(2) by simp
  next
    case (Rename n d) then show ?thesis using rename_good [OF Cons.prems(1)] Cons.prems(2) by simp
  qed
  then show ?case using Cons.IH Cons.prems(2) by simp
qed simp

end

subsection \<open>Mounting\<close>

text \<open>The heap grants the two caches.\<close>

definition caches_granted :: "u32 \<Rightarrow> u32 \<Rightarrow> heap \<Rightarrow> bool" where
  "caches_granted fat_sectors dir_sectors h \<longleftrightarrow>
     (\<exists>p h1 q h2. kmalloc (fat_sectors * BLOCK_SIZE) h = Some (p, h1) \<and> p \<noteq> 0 \<and>
        kmalloc (dir_sectors * BLOCK_SIZE) h1 = Some (q, h2) \<and> q \<noteq> 0)"

context sector_disk
begin

lemma load_saved:
  assumes g: "good ready cap sector st" and b: "fs_sb b = fs_sb st" "ready (fs_dev b)" "cap (fs_dev b) = cap (fs_dev st)"
      "sector (fs_dev b) = sector (fs_dev st)"
  shows "\<exists>d fat. fs_load rd b = (0, b\<lparr>fs_fat := fat, fs_dir := fs_dir st, fs_dev := d\<rparr>) \<and> ready d \<and> cap d = cap (fs_dev st) \<and>
    sector d = sector (fs_dev st) \<and> (\<forall>i. i div 256 \<le> nblocks st div 256 \<longrightarrow> fat i = fs_fat st i)"
proof -
  let ?sb = "fs_sb st" and ?sec = "sector (fs_dev st)"
  have lay: "layout_ok ?sb (cap (fs_dev st))" and lk: "linked st" and tab: "tables_saved sector st"
    using g by (simp_all add: good_def volume_ok_def fs_inv_def saved_def)
  note lf = layout_facts [OF lay]
  have n: "unat (sb_dir_sectors ?sb) = 4" "nblocks st div 256 < unat (sb_fat_sectors ?sb)"
    "unat (sb_fat_start ?sb) + unat (sb_fat_sectors ?sb) \<le> unat (sb_dir_start ?sb)"
    using lay last_fat_sector [OF lay] by (simp_all add: layout_ok_def nblocks_def)
  let ?F = "map (\<lambda>i. ?sec (sb_fat_start ?sb + of_nat i)) [0..<unat (sb_fat_sectors ?sb)]"
  let ?D = "map (\<lambda>i. ?sec (sb_dir_start ?sb + of_nat i)) [0..<4]"
  have "unat (sb_fat_start ?sb) + length (replicate (unat (sb_fat_sectors ?sb)) ([] :: u8 list)) \<le> cap (fs_dev b)"
    "cap (fs_dev b) \<le> 4294967296" using n lf b(3) by simp_all
  from rd_run_ok [OF b(2) this] obtain d1 where
    d1: "rd_run rd (sb_fat_start ?sb) (replicate (unat (sb_fat_sectors ?sb)) []) (fs_dev b) = ((0, ?F), d1)" "ready d1"
      "cap d1 = cap (fs_dev st)" "sector d1 = ?sec"
    using b(3,4) by auto
  have "unat (sb_dir_start ?sb) + length (replicate 4 ([] :: u8 list)) \<le> cap d1" "cap d1 \<le> 4294967296" using lf d1(3) by simp_all
  from rd_run_ok [OF d1(2) this] obtain d2 where
    d2: "rd_run rd (sb_dir_start ?sb) (replicate 4 []) d1 = ((0, ?D), d2)" "ready d2" "cap d2 = cap (fs_dev st)" "sector d2 = ?sec"
    using d1(3,4) by auto
  have at: "unat (x + of_nat i) = unat x + i" if "unat x + i < 4294967296" for x :: u32 and i
    using that by (simp add: unat_add32 unat_of_nat32)
  have "?D = map (dir_sector (fs_dir st)) [0..<4]"
  proof (rule map_cong [OF refl])
    fix i assume i: "i \<in> set [0..<4]"
    then have "unat (sb_dir_start ?sb) + i < 4294967296" using lf by auto
    then show "?sec (sb_dir_start ?sb + of_nat i) = dir_sector (fs_dir st) i" using tab i by (simp add: tables_saved_def at)
  qed
  then have dir: "dir_of ?D = fs_dir st"
    by (simp only:) (rule dir_roundtrip, use lk in \<open>simp_all add: linked_def\<close>)
  have fat: "fat_of ?F i = fs_fat st i" if k: "i div 256 \<le> nblocks st div 256" for i
  proof (rule fat_roundtrip)
    have "unat (sb_fat_start ?sb) + i div 256 < 4294967296" using k n lf by linarith
    then have "?sec (sb_fat_start ?sb + of_nat (i div 256)) = fat_sector (fs_fat st) (i div 256)"
      using tab k by (simp add: tables_saved_def at)
    then show "?F ! (i div 256) = fat_sector (fs_fat st) (i div 256)" using k n(2) by simp
  qed
  have "fs_load rd b = (0, b\<lparr>fs_fat := fat_of ?F, fs_dir := dir_of ?D, fs_dev := d2\<rparr>)"
    using d1(1) d2(1) by (simp add: fs_load_def Let_def b(1) n(1))
  then show ?thesis unfolding dir using d2(2-4) fat by blast
qed

end

context sector_disk
begin

lemma mount_saved:
  assumes g: "good ready cap sector st" and dev: "fs_dev b = fs_dev st"
    and init: "init (fs_total b) (fs_dev st) = ((0, n), d0)" "ready d0" "cap d0 = cap (fs_dev st)" "sector d0 = sector (fs_dev st)"
    and n: "209 < unat n" and heap: "caches_granted (sb_fat_sectors (fs_sb st)) (sb_dir_sectors (fs_sb st)) (fs_heap b)"
  shows "\<exists>st'. fs_mount init rd wr b = Some (0, st') \<and> good ready cap sector st' \<and>
    contents sector st' = contents sector st \<and> fs_sb st' = fs_sb st"
proof -
  have lay: "layout_ok (fs_sb st) (cap (fs_dev st))" and lk: "linked st" and sz: "\<And>i. used st i \<Longrightarrow> sized st i"
    and sup: "super_saved sector st" and tab: "tables_saved sector st"
    using g by (simp_all add: good_def volume_ok_def fs_inv_def saved_def)
  obtain p h1 q h2 where h: "kmalloc (sb_fat_sectors (fs_sb st) * BLOCK_SIZE) (fs_heap b) = Some (p, h1)" "p \<noteq> 0"
      "kmalloc (sb_dir_sectors (fs_sb st) * BLOCK_SIZE) h1 = Some (q, h2)" "q \<noteq> 0"
    using heap by (auto simp: caches_granted_def)
  have "unat FS_START_LBA < cap d0" using layout_facts [OF lay] init(3) by (simp add: unat_start)
  from rd_ok [OF init(2) this, of "fs_sect b"] obtain d1 where
    d1: "rd FS_START_LBA (fs_sect b) d0 = ((0, sector (fs_dev st) FS_START_LBA), d1)" "ready d1" "cap d1 = cap (fs_dev st)"
      "sector d1 = sector (fs_dev st)" using init(3,4) by auto
  let ?b = "b\<lparr>fs_total := n, fs_sect := sector (fs_dev st) FS_START_LBA, fs_dev := d1, fs_sb := fs_sb st, fs_heap := h2\<rparr>"
  obtain d fat where l: "fs_load rd ?b = (0, ?b\<lparr>fs_fat := fat, fs_dir := fs_dir st, fs_dev := d\<rparr>)" "ready d" "cap d = cap (fs_dev st)"
      "sector d = sector (fs_dev st)" "\<forall>i. i div 256 \<le> nblocks st div 256 \<longrightarrow> fat i = fs_fat st i"
    using load_saved [OF g, of ?b] d1(2-4) by auto
  let ?st = "?b\<lparr>fs_fat := fat, fs_dir := fs_dir st, fs_dev := d, fs_mounted := True\<rparr>"
  have big: "\<not> n \<le> FS_START_LBA + 16" using n by (simp add: word_le_nat_alt FS_START_LBA_def)
  have own: "superblock_of (sector (fs_dev st) FS_START_LBA) = fs_sb st" "sb_magic (fs_sb st) = FS_MAGIC" "sb_version (fs_sb st) = FS_VERSION"
    using sup by (simp_all add: super_saved_def)
  have m: "fs_mount init rd wr b = Some (0, ?st)"
    using dev init(1) big d1(1) own h l(1) by (simp add: fs_mount_def Let_def)
  have v: "linked ?st" "\<And>i. used st i \<Longrightarrow> sized ?st i = sized st i" "used ?st = used st" "contents sector ?st = contents sector st"
    using same_view [OF lk, of ?st sector] l(4,5) div_le_mono by simp_all
  have sect: "fat_sector fat s = fat_sector (fs_fat st) s" if "s \<le> nblocks st div 256" for s
    using that l(5) unfolding fat_sector_def by (intro arg_cong [where f = concat] map_cong refl) simp
  have "tables_saved sector ?st"
    unfolding tables_saved_def
  proof (intro conjI allI impI)
    fix k :: u32 assume k: "unat (sb_dir_start (fs_sb ?st)) \<le> unat k \<and> unat k < unat (sb_dir_start (fs_sb ?st)) + 4"
    then show "sector (fs_dev ?st) k = dir_sector (fs_dir ?st) (unat k - unat (sb_dir_start (fs_sb ?st)))"
      using tab by (simp add: tables_saved_def l(4))
  next
    fix k :: u32 assume k: "unat (sb_fat_start (fs_sb ?st)) \<le> unat k \<and>
      unat k \<le> unat (sb_fat_start (fs_sb ?st)) + nblocks ?st div 256"
    then have "unat k - unat (sb_fat_start (fs_sb st)) \<le> nblocks st div 256"
      using diff_le_mono [of "unat k" "unat (sb_fat_start (fs_sb st)) + nblocks st div 256" "unat (sb_fat_start (fs_sb st))"]
      by (simp add: nblocks_def)
    from sect [OF this] k show "sector (fs_dev ?st) k = fat_sector (fs_fat ?st) (unat k - unat (sb_fat_start (fs_sb ?st)))"
      using tab by (simp add: tables_saved_def l(4) nblocks_def)
  qed
  moreover have "super_saved sector ?st" using sup by (simp add: super_saved_def l(4))
  moreover have "volume_ok ready cap ?st" using lay l(2,3) by (simp add: volume_ok_def)
  moreover have "fs_inv ?st" using v(1-3) sz by (simp add: fs_inv_def)
  ultimately have "good ready cap sector ?st" by (simp add: good_def saved_def)
  then show ?thesis using m v(4) by (intro exI [of _ ?st]) simp
qed

end

text \<open>The geometry of a fresh volume on a disk of \<open>n\<close> sectors.\<close>

definition fresh_sb :: "u32 \<Rightarrow> superblock" where
  "fresh_sb n = (let sb = format_sb n in if sb_data_blocks sb > 0xFFFE then sb\<lparr>sb_data_blocks := 0xFFFE\<rparr> else sb)"

lemma format_geometry:
  assumes n: "209 < unat n" "unat n \<le> 268435456"
  defines "F \<equiv> (2 * (unat n - 193) + 511) div 512"
  shows "unat (sb_fat_start (format_sb n)) = 194" "unat (sb_fat_sectors (format_sb n)) = F" "unat (sb_dir_start (format_sb n)) = 194 + F"
    "unat (sb_dir_sectors (format_sb n)) = 4" "unat (sb_data_start (format_sb n)) = 198 + F"
    "unat (sb_data_blocks (format_sb n)) = unat n - 198 - F" "unat (sb_fs_sectors (format_sb n)) = unat n - 193"
    "sb_magic (format_sb n) = FS_MAGIC" "sb_version (format_sb n) = FS_VERSION" "F + 198 < unat n" "unat n - 193 \<le> 256 * F"
    "FAT_SECTORS (n - FS_START_LBA) = sb_fat_sectors (format_sb n)" "DIR_SECTORS = sb_dir_sectors (format_sb n)"
proof -
  have fs: "unat (n - FS_START_LBA) = unat n - 193" using n(1) by (simp add: unat_sub32 FS_START_LBA_def)
  have F: "F + 198 < unat n" "unat n - 193 \<le> 256 * F" using n unfolding F_def by linarith+
  have "unat ((n - FS_START_LBA) * 2) = 2 * (unat n - 193)" using n(2) fs by (subst unat_mult32) simp_all
  then have "unat ((n - FS_START_LBA) * 2 + BLOCK_SIZE - 1) = 2 * (unat n - 193) + 511"
    using n(2) unat_add32 [of "(n - FS_START_LBA) * 2" 511] by (simp add: BLOCK_SIZE_def add_diff_eq [symmetric])
  then have fat: "unat (FAT_SECTORS (n - FS_START_LBA)) = F"
    by (simp add: FAT_SECTORS_def unat_div_distrib F_def BLOCK_SIZE_def)
  have dirs: "DIR_SECTORS = 4" by (simp add: DIR_SECTORS_def FS_DIR_ENTRIES_def BLOCK_SIZE_def)
  have st: "FS_START_LBA + 1 = 194" by (simp add: FS_START_LBA_def)
  have ds: "unat (194 + FAT_SECTORS (n - FS_START_LBA)) = 194 + F" using fat n(2) F(1) by (subst unat_add32) simp_all
  then have da: "unat (194 + FAT_SECTORS (n - FS_START_LBA) + 4) = 198 + F" using n(2) F(1) by (subst unat_add32) simp_all
  have "unat (n - FS_START_LBA - 1) = unat n - 194" using fs n(1) by (subst unat_sub32) simp_all
  then have "unat (n - FS_START_LBA - 1 - FAT_SECTORS (n - FS_START_LBA)) = unat n - 194 - F"
    using fat F(1) by (subst unat_sub32) simp_all
  then have db: "unat (n - FS_START_LBA - 1 - FAT_SECTORS (n - FS_START_LBA) - 4) = unat n - 198 - F"
    using F(1) by (subst unat_sub32) simp_all
  show "unat (sb_fat_start (format_sb n)) = 194" "unat (sb_fat_sectors (format_sb n)) = F" "unat (sb_dir_start (format_sb n)) = 194 + F"
    "unat (sb_dir_sectors (format_sb n)) = 4" "unat (sb_data_start (format_sb n)) = 198 + F"
    "unat (sb_data_blocks (format_sb n)) = unat n - 198 - F" "unat (sb_fs_sectors (format_sb n)) = unat n - 193"
    "sb_magic (format_sb n) = FS_MAGIC" "sb_version (format_sb n) = FS_VERSION"
    "FAT_SECTORS (n - FS_START_LBA) = sb_fat_sectors (format_sb n)" "DIR_SECTORS = sb_dir_sectors (format_sb n)"
    unfolding format_sb_def Let_def superblock.select_convs st dirs by (rule fat ds da db fs refl | simp)+
  show "F + 198 < unat n" "unat n - 193 \<le> 256 * F" by (rule F)+
qed

lemma fresh_sb_fields:
  "sb_fat_start (fresh_sb n) = sb_fat_start (format_sb n)" "sb_fat_sectors (fresh_sb n) = sb_fat_sectors (format_sb n)"
  "sb_dir_start (fresh_sb n) = sb_dir_start (format_sb n)" "sb_dir_sectors (fresh_sb n) = sb_dir_sectors (format_sb n)"
  "sb_data_start (fresh_sb n) = sb_data_start (format_sb n)" "sb_fs_sectors (fresh_sb n) = sb_fs_sectors (format_sb n)"
  "sb_magic (fresh_sb n) = sb_magic (format_sb n)" "sb_version (fresh_sb n) = sb_version (format_sb n)"
  "unat (sb_data_blocks (fresh_sb n)) = min (unat (sb_data_blocks (format_sb n))) 65534"
  by (auto simp: fresh_sb_def Let_def word_less_nat_alt)

lemma fresh_layout:
  assumes "209 < unat n" "unat n \<le> 268435456"
  shows "layout_ok (fresh_sb n) (unat n)"
proof -
  define F where "F = (2 * (unat n - 193) + 511) div 512"
  note g = format_geometry [OF assms, folded F_def]
  have "min (unat n - 198 - F) 65534 \<le> unat n - 198 - F" "unat n - 198 - F < 256 * F" using g(10,11) by linarith+
  then show ?thesis
    unfolding layout_ok_def fresh_sb_fields g(1-6) using g(10) assms by linarith
qed

lemma layout_larger: "layout_ok sb c \<Longrightarrow> c \<le> c' \<Longrightarrow> c' \<le> 268435456 \<Longrightarrow> layout_ok sb c'"
  by (auto simp: layout_ok_def)

lemma sint_small:
  assumes "n < 2147483648"
  shows "sint (of_nat n :: u32) = int n"
proof -
  have "sint (word_of_int (int n) :: u32) = signed_take_bit 31 (int n)" by (simp only: sint_sbintrunc') simp
  also have "\<dots> = int n" using assms by (intro signed_take_bit_int_eq_self) simp_all
  finally show ?thesis by simp
qed

text \<open>No file, every data block free.\<close>

definition empty_volume :: "('s \<Rightarrow> u32 \<Rightarrow> u8 list) \<Rightarrow> 's fsys \<Rightarrow> bool" where
  "empty_volume sector st \<longleftrightarrow> (\<forall>i. \<not> used st i) \<and> (\<forall>n. contents sector st n = None) \<and> free_in st = {1..nblocks st}"

lemma blank_tables:
  assumes "fs_dir st = replicate FS_DIR_ENTRIES zero_dirent" "fs_fat st = (\<lambda>_. 0)"
  shows "linked st" "empty_volume sector st"
proof -
  have len: "length (fs_dir st) = 64" by (simp add: assms(1) FS_DIR_ENTRIES_def)
  have at: "fs_dir st ! i = zero_dirent" if "i < 64" for i using that by (simp add: assms(1) FS_DIR_ENTRIES_def)
  then have nu: "\<not> used st i" for i by (auto simp: used_def len zero_dirent_def)
  then have "find_entry st n = None" for n
    using find_from_used [of "fs_dir st" n 0] by (cases "find_entry st n") (auto simp: find_entry_def used_def)
  then show "empty_volume sector st"
    using nu by (auto simp: empty_volume_def contents_def free_in_def free_blocks_def assms(2))
  show "linked st" using nu at by (simp add: linked_def len) (simp add: zero_dirent_def)
qed

context sector_disk
begin

lemma format_saved:
  assumes tot: "fs_total b = n" and n: "209 < unat n" "unat n \<le> 268435456" and dev: "ready (fs_dev b)" "unat n \<le> cap (fs_dev b)"
    "cap (fs_dev b) \<le> 268435456"
  shows "\<exists>d s. fs_format wr b = (0, b\<lparr>fs_sb := fresh_sb n, fs_fat := (\<lambda>_. 0), fs_dir := replicate FS_DIR_ENTRIES zero_dirent,
      fs_sect := s, fs_dev := d\<rparr>) \<and> ready d \<and> cap d = cap (fs_dev b) \<and>
    saved sector (b\<lparr>fs_sb := fresh_sb n, fs_fat := (\<lambda>_. 0), fs_dir := replicate FS_DIR_ENTRIES zero_dirent, fs_sect := s, fs_dev := d\<rparr>)"
proof -
  let ?sb = "fresh_sb n"
  define F where "F = (2 * (unat n - 193) + 511) div 512"
  note g = format_geometry [OF n, folded F_def]
  note f = fresh_sb_fields [of n]
  have lay: "layout_ok ?sb (cap (fs_dev b))" using layout_larger [OF fresh_layout [OF n] dev(2,3)] .
  note lf = layout_facts [OF lay]
  let ?b = "b\<lparr>fs_sb := ?sb, fs_fat := (\<lambda>_. 0), fs_dir := replicate FS_DIR_ENTRIES zero_dirent\<rparr>"
  let ?l = "sb_fs_sectors ?sb - 1"
  have ul: "unat ?l = unat n - 194" using g(7) f(6) n by (subst unat_sub32) simp_all
  have "unat (?l * 2) = 2 * (unat n - 194)" using ul n(2) by (subst unat_mult32) simp_all
  then have us: "unat (?l * 2 div BLOCK_SIZE) = (2 * (unat n - 194)) div 512" by (simp add: unat_div_distrib BLOCK_SIZE_def)
  have le: "(2 * (unat n - 194)) div 512 < F" using n(1) unfolding F_def by linarith
  have room: "194 + F + 4 \<le> cap (fs_dev b)" using g(10) dev(2) by linarith
  have starts: "unat (sb_fat_start ?sb) = 194" "unat (sb_dir_start ?sb) = 194 + F" "unat (sb_dir_sectors ?sb) = 4"
    using f(1,3,4) g(1,3,4) by simp_all
  have cap32: "cap (fs_dev ?b) \<le> 4294967296" "ready (fs_dev ?b)" using dev by simp_all
  have "unat (sb_fat_start (fs_sb ?b)) + Suc (unat (?l * 2 div BLOCK_SIZE)) \<le> cap (fs_dev ?b)"
    using le room unfolding us by (simp add: starts)
  from fat_flushed [OF cap32(2,1) this] obtain d1 where
    d1: "flush_fat_range wr 0 ?l ?b = (0, ?b\<lparr>fs_dev := d1\<rparr>)" "ready d1" "cap d1 = cap (fs_dev b)"
      "\<forall>k. unat k < cap (fs_dev b) \<longrightarrow> sector d1 k =
        (if 194 \<le> unat k \<and> unat k \<le> 194 + (2 * (unat n - 194)) div 512 then fat_sector (\<lambda>_. 0) (unat k - 194) else sector (fs_dev b) k)"
    unfolding us by (auto simp: starts)
  let ?b1 = "?b\<lparr>fs_dev := d1\<rparr>"
  have names: "length (fs_dir ?b1) = 64" "\<forall>i < 64. length (de_name (fs_dir ?b1 ! i)) = 22" by (simp_all add: FS_DIR_ENTRIES_def zero_dirent_def)
  have "ready (fs_dev ?b1)" "cap (fs_dev ?b1) \<le> 4294967296" "unat (sb_dir_start (fs_sb ?b1)) + 4 \<le> cap (fs_dev ?b1)"
    "unat (sb_dir_sectors (fs_sb ?b1)) = 4" using d1(2,3) dev(3) room starts by simp_all
  from dir_flushed [OF this names] obtain d2 where
    d2: "flush_dir wr ?b1 = (0, ?b1\<lparr>fs_dev := d2\<rparr>)" "ready d2" "cap d2 = cap (fs_dev b)"
      "\<forall>k. unat k < cap (fs_dev b) \<longrightarrow> sector d2 k =
        (if 194 + F \<le> unat k \<and> unat k < 194 + F + 4 then dir_sector (replicate FS_DIR_ENTRIES zero_dirent) (unat k - (194 + F)) else sector d1 k)"
    using d1(3) by (auto simp: starts)
  let ?s = "superblock_bytes ?sb @ replicate 476 0"
  have "unat FS_START_LBA < cap d2" "length ?s = 512"
    using d2(3) room by (simp_all add: unat_start superblock_bytes_def le4_def)
  from wr_ok [OF d2(2) this] obtain d where
    d: "wr FS_START_LBA ?s d2 = (0, d)" "ready d" "cap d = cap (fs_dev b)"
      "\<forall>k. unat k < cap (fs_dev b) \<longrightarrow> sector d k = (if k = FS_START_LBA then ?s else sector d2 k)"
    using d2(3) by auto
  let ?st = "b\<lparr>fs_sb := ?sb, fs_fat := (\<lambda>_. 0), fs_dir := replicate FS_DIR_ENTRIES zero_dirent, fs_sect := ?s, fs_dev := d\<rparr>"
  have ne: "\<not> sint (sb_data_blocks (format_sb n)) < 1"
  proof -
    have "unat (sb_data_blocks (format_sb n)) < 2147483648" "0 < unat (sb_data_blocks (format_sb n))" using g(6,10) n by linarith+
    moreover have "sint (sb_data_blocks (format_sb n)) = int (unat (sb_data_blocks (format_sb n)))"
      using sint_small [OF calculation(1)] by simp
    ultimately show ?thesis by linarith
  qed
  have fmt: "fs_format wr b = (0, ?st)"
  proof -
    have "(if sb_data_blocks (format_sb n) > 0xFFFE then (format_sb n)\<lparr>sb_data_blocks := 0xFFFE\<rparr> else format_sb n) = ?sb"
      by (simp add: fresh_sb_def Let_def)
    then show ?thesis using ne d1(1) d2(1) d(1) by (simp add: fs_format_def Let_def tot)
  qed
  have "super_saved sector ?st"
  proof -
    have "sector d FS_START_LBA = ?s" using d(4) room by (simp add: unat_start)
    then show ?thesis using f(7,8) g(8,9) by (simp add: super_saved_def superblock_roundtrip)
  qed
  moreover have "tables_saved sector ?st"
  proof -
    have nb: "nblocks ?st div 256 \<le> (2 * (unat n - 194)) div 512"
    proof -
      have "nblocks ?st \<le> unat n - 194" using f(9) g(6) by (simp add: nblocks_def)
      then have "nblocks ?st div 256 \<le> (unat n - 194) div 256" by (rule div_le_mono)
      then show ?thesis by simp
    qed
    have at: "sector d k = (if 194 + F \<le> unat k \<and> unat k < 194 + F + 4 then dir_sector (fs_dir ?st) (unat k - (194 + F))
        else if 194 \<le> unat k \<and> unat k \<le> 194 + (2 * (unat n - 194)) div 512 then fat_sector (fs_fat ?st) (unat k - 194) else sector (fs_dev b) k)"
      if "194 \<le> unat k" "unat k < 194 + F + 4" for k
    proof -
      have "k \<noteq> FS_START_LBA" using that(1) by (auto simp: u32_eq_iff unat_start)
      then show ?thesis using that room d1(4) d2(4) d(4) by simp
    qed
    show ?thesis
      unfolding tables_saved_def using nb le at by (simp add: starts)
  qed
  ultimately show ?thesis using fmt d(2,3) by (auto simp: saved_def)
qed

end

context sector_disk
begin

lemma mount_fresh:
  assumes init: "init (fs_total b) (fs_dev b) = ((0, n), d0)" "ready d0" "unat n \<le> cap d0" "cap d0 \<le> 268435456"
    and n: "209 < unat n"
    and foreign: "sb_magic (superblock_of (sector d0 FS_START_LBA)) \<noteq> FS_MAGIC \<or> sb_version (superblock_of (sector d0 FS_START_LBA)) \<noteq> FS_VERSION"
    and heap: "caches_granted (FAT_SECTORS (n - FS_START_LBA)) DIR_SECTORS (fs_heap b)"
  shows "\<exists>st. fs_mount init rd wr b = Some (0, st) \<and> good ready cap sector st \<and> empty_volume sector st \<and> fs_sb st = fresh_sb n"
proof -
  obtain p h1 q h2 where h: "kmalloc (FAT_SECTORS (n - FS_START_LBA) * BLOCK_SIZE) (fs_heap b) = Some (p, h1)" "p \<noteq> 0"
      "kmalloc (DIR_SECTORS * BLOCK_SIZE) h1 = Some (q, h2)" "q \<noteq> 0"
    using heap by (auto simp: caches_granted_def)
  have "unat FS_START_LBA < cap d0" using n init(3) by (simp add: unat_start)
  from rd_ok [OF init(2) this, of "fs_sect b"] obtain d1 where
    d1: "rd FS_START_LBA (fs_sect b) d0 = ((0, sector d0 FS_START_LBA), d1)" "ready d1" "cap d1 = cap d0" by auto
  let ?sb1 = "(superblock_of (sector d0 FS_START_LBA))\<lparr>sb_fat_sectors := FAT_SECTORS (n - FS_START_LBA), sb_dir_sectors := DIR_SECTORS\<rparr>"
  let ?b = "b\<lparr>fs_total := n, fs_sect := sector d0 FS_START_LBA, fs_dev := d1, fs_sb := ?sb1, fs_heap := h2\<rparr>"
  have n2: "unat n \<le> 268435456" and dev: "unat n \<le> cap (fs_dev ?b)" "cap (fs_dev ?b) \<le> 268435456" "ready (fs_dev ?b)"
    using init d1(2,3) by simp_all
  have "fs_total ?b = n" by simp
  from format_saved [OF this n n2 dev(3,1,2)] obtain d s where
    f: "fs_format wr ?b = (0, ?b\<lparr>fs_sb := fresh_sb n, fs_fat := (\<lambda>_. 0), fs_dir := replicate FS_DIR_ENTRIES zero_dirent, fs_sect := s, fs_dev := d\<rparr>)"
      "ready d" "cap d = cap d0"
      "saved sector (?b\<lparr>fs_sb := fresh_sb n, fs_fat := (\<lambda>_. 0), fs_dir := replicate FS_DIR_ENTRIES zero_dirent, fs_sect := s, fs_dev := d\<rparr>)"
    using d1(3) by auto
  let ?st1 = "?b\<lparr>fs_sb := fresh_sb n, fs_fat := (\<lambda>_. 0), fs_dir := replicate FS_DIR_ENTRIES zero_dirent, fs_sect := s, fs_dev := d\<rparr>"
  let ?st = "?st1\<lparr>fs_mounted := True\<rparr>"
  have big: "\<not> n \<le> FS_START_LBA + 16" using n by (simp add: word_le_nat_alt FS_START_LBA_def)
  have "fs_mount init rd wr b = Some (0, ?st)"
    using init(1) big d1(1) foreign h f(1) unfolding fs_mount_def by (simp add: Let_def)
  moreover have "saved sector ?st"
    using f(4) by (simp add: saved_def super_saved_def tables_saved_def nblocks_def)
  moreover have "volume_ok ready cap ?st"
    using layout_larger [OF fresh_layout [OF n n2], of "cap d0"] init(3,4) f(2,3) by (simp add: volume_ok_def)
  moreover have "linked ?st" "empty_volume sector ?st" using blank_tables [of ?st] by simp_all
  moreover have "fs_inv ?st" using \<open>linked ?st\<close> \<open>empty_volume sector ?st\<close> by (simp add: fs_inv_def empty_volume_def)
  moreover have "fs_sb ?st = fresh_sb n" by simp
  ultimately show ?thesis unfolding good_def by blast
qed

end

subsection \<open>The kernel's stack\<close>

definition disk_init :: "'d bus \<Rightarrow> u32 \<Rightarrow> 'd \<Rightarrow> (int \<times> u32) \<times> 'd" where
  "disk_init bus tot d = run_state (ata_init bus tot) d"

lemma disk_init_ok:
  assumes "drives bus \<alpha>" "dr_ready (\<alpha> d)" "0 < dr_capacity (\<alpha> d)" "dr_capacity (\<alpha> d) < 4294967296"
  shows "\<exists>d'. disk_init bus tot d = ((0, of_nat (dr_capacity (\<alpha> d))), d') \<and> dr_ready (\<alpha> d') \<and>
    dr_limit (\<alpha> d') = dr_limit (\<alpha> d) \<and> dr_bytes (\<alpha> d') = dr_bytes (\<alpha> d)"
proof -
  obtain e where e: "run_state (ata_init drive_bus tot) (\<alpha> d) = ((0, of_nat (dr_capacity (\<alpha> d))), e)" "dr_ready e"
      "dr_sectors e = dr_sectors (\<alpha> d)" "dr_capacity e = dr_capacity (\<alpha> d)"
    using ata_init_drive [OF assms(2-4)] by blast
  have "run_state (ata_init drive_bus tot) (\<alpha> d) = (fst (disk_init bus tot d), \<alpha> (snd (disk_init bus tot d)))"
    using sim_ata_init [OF assms(1), of tot] by (simp add: sim_def disk_init_def)
  with e have "fst (disk_init bus tot d) = (0, of_nat (dr_capacity (\<alpha> d)))" "\<alpha> (snd (disk_init bus tot d)) = e" by simp_all
  then show ?thesis
    using e by (intro exI [of _ "snd (disk_init bus tot d)"]) (auto simp: dr_limit_def dr_bytes_def fun_eq_iff prod_eq_iff)
qed

text \<open>The volume on the drive is the one in memory.\<close>

definition on_disk :: "('d \<Rightarrow> drive) \<Rightarrow> 'd fsys \<Rightarrow> bool" where
  "on_disk \<alpha> st \<longleftrightarrow> on_drive \<alpha> st \<and> fs_inv st \<and> saved (\<lambda>d. dr_bytes (\<alpha> d)) st"

lemma on_disk_good: "on_disk \<alpha> st \<longleftrightarrow> good (\<lambda>d. dr_ready (\<alpha> d)) (\<lambda>d. dr_limit (\<alpha> d)) (\<lambda>d. dr_bytes (\<alpha> d)) st"
  by (simp add: on_disk_def good_def stack_defs)

text \<open>The size of the drive is part of the contract.\<close>

lemma ata_sized_disk:
  assumes "drives bus \<alpha>" "c < 268435456"
  shows "sector_disk (disk_rd bus) (disk_wr bus) (\<lambda>d. dr_ready (\<alpha> d) \<and> dr_capacity (\<alpha> d) = c) (\<lambda>d. dr_limit (\<alpha> d)) (\<lambda>d. dr_bytes (\<alpha> d))"
proof
  note sd = ata_is_sector_disk [OF assms(1)]
  have same: "dr_capacity (\<alpha> s') = c" if "dr_capacity (\<alpha> s) = c" "dr_limit (\<alpha> s') = dr_limit (\<alpha> s)" for s s'
    using that assms(2) by (simp add: dr_limit_def min_def split: if_splits)
  show "length (dr_bytes (\<alpha> s) l) = 512" if "dr_ready (\<alpha> s) \<and> dr_capacity (\<alpha> s) = c" for s l
    using sector_disk.sector_512 [OF sd] that by blast
  show "\<exists>s'. disk_rd bus l buf s = ((0, dr_bytes (\<alpha> s) l), s') \<and> (dr_ready (\<alpha> s') \<and> dr_capacity (\<alpha> s') = c) \<and>
      dr_limit (\<alpha> s') = dr_limit (\<alpha> s) \<and> dr_bytes (\<alpha> s') = dr_bytes (\<alpha> s)"
    if "dr_ready (\<alpha> s) \<and> dr_capacity (\<alpha> s) = c" "unat l < dr_limit (\<alpha> s)" for s l buf
    using sector_disk.rd_ok [OF sd, of s l buf] that same by blast
  show "\<exists>s'. disk_wr bus l buf s = (0, s') \<and> (dr_ready (\<alpha> s') \<and> dr_capacity (\<alpha> s') = c) \<and> dr_limit (\<alpha> s') = dr_limit (\<alpha> s) \<and>
      (\<forall>k. unat k < dr_limit (\<alpha> s) \<longrightarrow> dr_bytes (\<alpha> s') k = (if k = l then buf else dr_bytes (\<alpha> s) k))"
    if "dr_ready (\<alpha> s) \<and> dr_capacity (\<alpha> s) = c" "unat l < dr_limit (\<alpha> s)" "length buf = 512" for s l buf
    using sector_disk.wr_ok [OF sd, of s l buf] that same by blast
qed

lemma mount_formats:
  assumes "drives bus \<alpha>" "dr_ready (\<alpha> (fs_dev b))" "209 < dr_capacity (\<alpha> (fs_dev b))" "dr_capacity (\<alpha> (fs_dev b)) < 268435456"
    and "sb_magic (superblock_of (dr_bytes (\<alpha> (fs_dev b)) FS_START_LBA)) \<noteq> FS_MAGIC \<or>
      sb_version (superblock_of (dr_bytes (\<alpha> (fs_dev b)) FS_START_LBA)) \<noteq> FS_VERSION"
    and "caches_granted (FAT_SECTORS (of_nat (dr_capacity (\<alpha> (fs_dev b))) - FS_START_LBA)) DIR_SECTORS (fs_heap b)"
  shows "\<exists>st. fs_mount (disk_init bus) (disk_rd bus) (disk_wr bus) b = Some (0, st) \<and> on_disk \<alpha> st \<and>
    empty_volume (\<lambda>d. dr_bytes (\<alpha> d)) st \<and> fs_sb st = fresh_sb (of_nat (dr_capacity (\<alpha> (fs_dev b)))) \<and>
    dr_capacity (\<alpha> (fs_dev st)) = dr_capacity (\<alpha> (fs_dev b))"
proof -
  let ?c = "dr_capacity (\<alpha> (fs_dev b))"
  have c: "0 < ?c" "?c < 4294967296" "unat (of_nat ?c :: u32) = ?c" using assms(3,4) by (simp_all add: unat_of_nat32)
  obtain d0 where d0: "disk_init bus (fs_total b) (fs_dev b) = ((0, of_nat ?c), d0)" "dr_ready (\<alpha> d0)"
      "dr_limit (\<alpha> d0) = dr_limit (\<alpha> (fs_dev b))" "dr_bytes (\<alpha> d0) = dr_bytes (\<alpha> (fs_dev b))"
    using disk_init_ok [OF assms(1,2) c(1,2)] by blast
  have r0: "dr_ready (\<alpha> d0) \<and> dr_capacity (\<alpha> d0) = ?c"
    using d0(2,3) assms(4) by (simp add: dr_limit_def min_def split: if_splits)
  have n: "unat (of_nat ?c :: u32) \<le> dr_limit (\<alpha> d0)" "dr_limit (\<alpha> d0) \<le> 268435456" "209 < unat (of_nat ?c :: u32)"
    using assms(3,4) d0(3) c(3) by (simp_all add: dr_limit_def)
  from sector_disk.mount_fresh [where init = "disk_init bus" and b = b, OF ata_sized_disk [OF assms(1,4)] d0(1) r0 n] assms(5,6) d0(4)
  obtain st where "fs_mount (disk_init bus) (disk_rd bus) (disk_wr bus) b = Some (0, st)"
      "good (\<lambda>d. dr_ready (\<alpha> d) \<and> dr_capacity (\<alpha> d) = ?c) (\<lambda>d. dr_limit (\<alpha> d)) (\<lambda>d. dr_bytes (\<alpha> d)) st"
      "empty_volume (\<lambda>d. dr_bytes (\<alpha> d)) st" "fs_sb st = fresh_sb (of_nat ?c)" by auto
  then show ?thesis by (auto simp: on_disk_good good_def volume_ok_def)
qed

lemma survives_reboot:
  assumes "drives bus \<alpha>" "on_disk \<alpha> st" "\<forall>op \<in> set ops. op_ok op" "fs_dev b = fs_dev (fold (fs_do (disk_wr bus)) ops st)"
    and "209 < dr_capacity (\<alpha> (fs_dev st))" "dr_capacity (\<alpha> (fs_dev st)) < 268435456"
    and "caches_granted (sb_fat_sectors (fs_sb st)) (sb_dir_sectors (fs_sb st)) (fs_heap b)"
  shows "\<exists>st'. fs_mount (disk_init bus) (disk_rd bus) (disk_wr bus) b = Some (0, st') \<and> on_disk \<alpha> st' \<and>
    files \<alpha> st' = files \<alpha> (fold (fs_do (disk_wr bus)) ops st)"
proof -
  let ?st = "fold (fs_do (disk_wr bus)) ops st" and ?c = "dr_capacity (\<alpha> (fs_dev st))"
  let ?ready = "\<lambda>d. dr_ready (\<alpha> d) \<and> dr_capacity (\<alpha> d) = ?c"
  note sd = ata_sized_disk [OF assms(1,6)]
  have "good ?ready (\<lambda>d. dr_limit (\<alpha> d)) (\<lambda>d. dr_bytes (\<alpha> d)) st"
    using assms(2) by (simp add: on_disk_good good_def volume_ok_def)
  from sector_disk.ops_good [OF sd this assms(3)]
  have good: "good ?ready (\<lambda>d. dr_limit (\<alpha> d)) (\<lambda>d. dr_bytes (\<alpha> d)) ?st" .
  then have r: "dr_ready (\<alpha> (fs_dev ?st))" "dr_capacity (\<alpha> (fs_dev ?st)) = ?c" by (simp_all add: good_def volume_ok_def)
  have c: "0 < ?c" "?c < 4294967296" "unat (of_nat ?c :: u32) = ?c" using assms(5,6) by (simp_all add: unat_of_nat32)
  obtain d0 where d0: "disk_init bus (fs_total b) (fs_dev ?st) = ((0, of_nat ?c), d0)" "dr_ready (\<alpha> d0)"
      "dr_limit (\<alpha> d0) = dr_limit (\<alpha> (fs_dev ?st))" "dr_bytes (\<alpha> d0) = dr_bytes (\<alpha> (fs_dev ?st))"
    using disk_init_ok [OF assms(1) r(1)] c(1,2) r(2) by metis
  have r0: "?ready d0" using d0(2,3) r(2) assms(6) by (simp add: dr_limit_def min_def split: if_splits)
  have n: "209 < unat (of_nat ?c :: u32)" using c assms(5) by simp
  have heap: "caches_granted (sb_fat_sectors (fs_sb ?st)) (sb_dir_sectors (fs_sb ?st)) (fs_heap b)"
    using assms(7) fold_do_sb [of "disk_wr bus" ops st] by simp
  obtain st' where "fs_mount (disk_init bus) (disk_rd bus) (disk_wr bus) b = Some (0, st')"
      "good ?ready (\<lambda>d. dr_limit (\<alpha> d)) (\<lambda>d. dr_bytes (\<alpha> d)) st'" "contents (\<lambda>d. dr_bytes (\<alpha> d)) st' = contents (\<lambda>d. dr_bytes (\<alpha> d)) ?st"
    using sector_disk.mount_saved [where init = "disk_init bus" and b = b, OF sd good assms(4) d0(1) r0 d0(3,4) n heap] by blast
  moreover from this(2) have "on_disk \<alpha> st'" by (simp add: on_disk_good good_def volume_ok_def)
  ultimately show ?thesis by (auto simp: files_def)
qed

text \<open>C16: mounting a disk that holds no volume formats it: on any drive with more than 209 sectors \<open>fs_mount\<close>
  returns 0 and leaves a consistent volume without files, all of whose data blocks are free, and the
  superblock, FAT and directory on the disk are those in memory.\<close>

theorem fs_mount_formats:
  assumes "drives bus \<alpha>" "dr_ready (\<alpha> (fs_dev b))" "209 < dr_capacity (\<alpha> (fs_dev b))" "dr_capacity (\<alpha> (fs_dev b)) < 268435456"
    and "sb_magic (superblock_of (dr_bytes (\<alpha> (fs_dev b)) FS_START_LBA)) \<noteq> FS_MAGIC \<or>
      sb_version (superblock_of (dr_bytes (\<alpha> (fs_dev b)) FS_START_LBA)) \<noteq> FS_VERSION"
    and "caches_granted (FAT_SECTORS (of_nat (dr_capacity (\<alpha> (fs_dev b))) - FS_START_LBA)) DIR_SECTORS (fs_heap b)"
  shows "\<exists>st. fs_mount (disk_init bus) (disk_rd bus) (disk_wr bus) b = Some (0, st) \<and> on_disk \<alpha> st \<and>
    (\<forall>n. files \<alpha> st n = None) \<and> free_in st = {1..nblocks st}"
  using mount_formats [OF assms] by (auto simp: empty_volume_def files_def)

text \<open>C1: the volume survives a reboot: whatever is written, deleted and renamed after mounting, successful or
  refused, a later \<open>fs_mount\<close> of that disk, from whatever state memory is in, returns 0 and shows exactly
  the files the last operation left.\<close>

theorem fs_survives_reboot:
  assumes "drives bus \<alpha>" "on_disk \<alpha> st" "\<forall>op \<in> set ops. op_ok op" "fs_dev b = fs_dev (fold (fs_do (disk_wr bus)) ops st)"
    and "209 < dr_capacity (\<alpha> (fs_dev st))" "dr_capacity (\<alpha> (fs_dev st)) < 268435456"
    and "caches_granted (sb_fat_sectors (fs_sb st)) (sb_dir_sectors (fs_sb st)) (fs_heap b)"
  shows "\<exists>st'. fs_mount (disk_init bus) (disk_rd bus) (disk_wr bus) b = Some (0, st') \<and> on_disk \<alpha> st' \<and>
    files \<alpha> st' = files \<alpha> (fold (fs_do (disk_wr bus)) ops st)"
  by (rule survives_reboot [OF assms])

subsection \<open>Examples\<close>

text \<open>A heap with one free block, and the file system before it is mounted on the blank drive.\<close>

definition free_heap :: heap where
  "free_heap = \<lparr>blocks = (\<lambda>_. \<lparr>b_size = 8000, b_free = True, b_next = 0\<rparr>), heap_head = 0xD0000000, heap_mapped = 8192,
     heap_pg = paging_bss pmm_bss\<rparr>"

definition unmounted :: "drive fsys" where
  "unmounted = small_fs\<lparr>fs_mounted := False, fs_heap := free_heap\<rparr>"

lemma free_heap_grants: "caches_granted 4 4 free_heap"
proof -
  have a: "ALIGN8 2048 = 2048" by (simp add: ALIGN8_def)
  have z: "((2048 :: u32) = 0) = False" by simp
  have f: "find_fit (blocks free_heap) 2048 0xD0000000 = Some 0xD0000000"
    by (subst find_fit.simps) (simp add: free_heap_def)
  let ?m = "take_block (blocks free_heap) 2048 0xD0000000"
  have "kmalloc_try (Suc (Suc 0)) 2048 free_heap = Some (0xD000000C, free_heap\<lparr>blocks := ?m\<rparr>)"
    using f by (simp add: sizeof_block_def) (simp add: free_heap_def sizeof_block_def)
  then have 1: "kmalloc 2048 free_heap = Some (0xD000000C, free_heap\<lparr>blocks := ?m\<rparr>)"
    using z by (simp only: kmalloc_def a numeral_2_eq_2 if_False)
  have "find_fit ?m 2048 0xD000080C = Some 0xD000080C"
    by (subst find_fit.simps) (simp add: free_heap_def take_block_def sizeof_block_def)
  then have "find_fit ?m 2048 0xD0000000 = Some 0xD000080C"
    by (subst find_fit.simps) (simp add: free_heap_def take_block_def sizeof_block_def)
  then have "kmalloc_try (Suc (Suc 0)) 2048 (free_heap\<lparr>blocks := ?m\<rparr>) =
      Some (0xD0000818, free_heap\<lparr>blocks := take_block ?m 2048 0xD000080C\<rparr>)"
    by (simp add: sizeof_block_def) (simp add: free_heap_def sizeof_block_def)
  then have "kmalloc 2048 (free_heap\<lparr>blocks := ?m\<rparr>) = Some (0xD0000818, free_heap\<lparr>blocks := take_block ?m 2048 0xD000080C\<rparr>)"
    using z by (simp only: kmalloc_def a numeral_2_eq_2 if_False)
  with 1 show ?thesis by (simp add: caches_granted_def BLOCK_SIZE_def)
qed

lemma unmounted_fresh:
  "fs_dev unmounted = blank_drive" "dr_capacity blank_drive = 1000" "fs_heap unmounted = free_heap"
  "sb_magic (superblock_of (dr_bytes blank_drive FS_START_LBA)) \<noteq> FS_MAGIC"
  "caches_granted (FAT_SECTORS (1000 - FS_START_LBA)) DIR_SECTORS free_heap"
proof -
  have sub: "set (dr_bytes blank_drive FS_START_LBA) \<subseteq> {0}" by (auto simp: dr_bytes_def blank_drive_def word_bytes_def)
  have len: "length (dr_bytes blank_drive FS_START_LBA) = 512" using length_dr_bytes blank_drive_ready(1) by simp
  have "dr_bytes blank_drive FS_START_LBA ! i = 0" if "i < 512" for i
  proof -
    have "dr_bytes blank_drive FS_START_LBA ! i \<in> set (dr_bytes blank_drive FS_START_LBA)" using that len by simp
    then show ?thesis using sub by blast
  qed
  then show "sb_magic (superblock_of (dr_bytes blank_drive FS_START_LBA)) \<noteq> FS_MAGIC"
    by (simp add: superblock_of_def un_le4_def FS_MAGIC_def)
  have "FAT_SECTORS (1000 - FS_START_LBA) = 4" "DIR_SECTORS = 4"
    by (simp_all add: FAT_SECTORS_def DIR_SECTORS_def FS_START_LBA_def BLOCK_SIZE_def FS_DIR_ENTRIES_def)
  then show "caches_granted (FAT_SECTORS (1000 - FS_START_LBA)) DIR_SECTORS free_heap" using free_heap_grants by simp
qed (simp_all add: unmounted_def small_fs_def blank_drive_def)

lemma fs_mount_formats_witness:
  "\<exists>st. fs_mount (disk_init drive_bus) (disk_rd drive_bus) (disk_wr drive_bus) unmounted = Some (0, st) \<and> on_disk id st \<and>
     files id st [97] = None"
proof -
  have "dr_ready (id (fs_dev unmounted))" "209 < dr_capacity (id (fs_dev unmounted))" "dr_capacity (id (fs_dev unmounted)) < 268435456"
    "sb_magic (superblock_of (dr_bytes (id (fs_dev unmounted)) FS_START_LBA)) \<noteq> FS_MAGIC \<or>
      sb_version (superblock_of (dr_bytes (id (fs_dev unmounted)) FS_START_LBA)) \<noteq> FS_VERSION"
    "caches_granted (FAT_SECTORS (of_nat (dr_capacity (id (fs_dev unmounted))) - FS_START_LBA)) DIR_SECTORS (fs_heap unmounted)"
    using blank_drive_ready(1) unmounted_fresh by simp_all
  from fs_mount_formats [OF drive_bus_drives this] show ?thesis by blast
qed

lemma fs_survives_reboot_witness:
  "\<exists>st b st'. on_disk id st \<and> files id st [97] = None \<and>
     fs_mount (disk_init drive_bus) (disk_rd drive_bus) (disk_wr drive_bus) b = Some (0, st') \<and> files id st' [97] = Some [1, 2, 3]"
proof -
  note sd = ata_is_sector_disk [OF drive_bus_drives]
  have "dr_ready (id (fs_dev unmounted))" "209 < dr_capacity (id (fs_dev unmounted))" "dr_capacity (id (fs_dev unmounted)) < 268435456"
    "sb_magic (superblock_of (dr_bytes (id (fs_dev unmounted)) FS_START_LBA)) \<noteq> FS_MAGIC \<or>
      sb_version (superblock_of (dr_bytes (id (fs_dev unmounted)) FS_START_LBA)) \<noteq> FS_VERSION"
    "caches_granted (FAT_SECTORS (of_nat (dr_capacity (id (fs_dev unmounted))) - FS_START_LBA)) DIR_SECTORS (fs_heap unmounted)"
    using blank_drive_ready(1) unmounted_fresh by simp_all
  from mount_formats [OF drive_bus_drives this] obtain st where
    st: "on_disk id st" "empty_volume (\<lambda>d. dr_bytes (id d)) st" "fs_sb st = fresh_sb (of_nat (dr_capacity (id (fs_dev unmounted))))"
      "dr_capacity (id (fs_dev st)) = dr_capacity (id (fs_dev unmounted))" by blast
  have cap: "fs_sb st = fresh_sb 1000" "dr_capacity (id (fs_dev st)) = 1000" using st(3,4) unmounted_fresh(1,2) by simp_all
  let ?ops = "[Write [97] [1, 2, 3]]"
  let ?b = "unmounted\<lparr>fs_dev := fs_dev (fold (fs_do (disk_wr drive_bus)) ?ops st)\<rparr>"
  have geo: "sb_fat_sectors (fs_sb st) = 4" "sb_dir_sectors (fs_sb st) = 4" "nblocks st = 798"
    by (simp_all add: cap(1) nblocks_def fresh_sb_def format_sb_def FAT_SECTORS_def DIR_SECTORS_def FS_START_LBA_def BLOCK_SIZE_def
        FS_DIR_ENTRIES_def Let_def)
  have vol: "volume_ok (\<lambda>d. dr_ready (id d)) (\<lambda>d. dr_limit (id d)) st" "fs_inv st"
    using st(1) by (simp_all add: on_disk_good good_def)
  have slot: "has_slot st [97]" using st(2) unfolding has_slot_def empty_volume_def by (intro disjI2 exI [of _ 0]) simp
  have room: "blocks_for (unat (3 :: u32)) \<le> room_for st [97]"
    using st(2) by (simp add: room_for_def empty_volume_def geo(3) blocks_for_def)
  obtain st1 where "fs_write (disk_wr drive_bus) [97] [1, 2, 3] 3 st = (0, st1)"
      "contents (\<lambda>d. dr_bytes (id d)) st1 [97] = Some [1, 2, 3]"
    using sector_disk.fs_write_ok [OF sd vol _ slot _ room, of "[1, 2, 3]"] by (auto simp: valid_name_def)
  then have wr: "files id (fold (fs_do (disk_wr drive_bus)) ?ops st) [97] = Some [1, 2, 3]" by (simp add: files_def)
  have "\<forall>op \<in> set ?ops. op_ok op" "fs_dev ?b = fs_dev (fold (fs_do (disk_wr drive_bus)) ?ops st)"
    "209 < dr_capacity (id (fs_dev st))" "dr_capacity (id (fs_dev st)) < 268435456"
    "caches_granted (sb_fat_sectors (fs_sb st)) (sb_dir_sectors (fs_sb st)) (fs_heap ?b)"
    using cap(2) geo unmounted_fresh(3) free_heap_grants by simp_all
  from fs_survives_reboot [OF drive_bus_drives st(1) this] wr st(1,2) show ?thesis
    by (metis empty_volume_def files_def)
qed

end
