(* ===== verification/Isr.thy ===== *)
theory Isr
  imports Timer Mouse Keyboard Kprintf Gui_Draw
begin

text \<open>
  \<open>kernel/isr.c\<close>: the dispatcher behind the stubs of \<open>isr.asm\<close>. An exception ends in the panic screen
  and a halted machine; a hardware interrupt runs the handler registered for it and is acknowledged. The
  machine is what the three handlers of the kernel and the panic screen touch: their states, the one
  framebuffer with its memory, the event queue, the console and the devices behind the ports.
\<close>

subsection \<open>The dispatcher\<close>

definition exception_names :: "string list" where
  "exception_names =
     [''Divide Error'', ''Debug'', ''Non-Maskable Interrupt'', ''Breakpoint'', ''Overflow'', ''Bound Range Exceeded'',
      ''Invalid Opcode'', ''Device Not Available'', ''Double Fault'', ''Coprocessor Segment Overrun'', ''Invalid TSS'',
      ''Segment Not Present'', ''Stack-Segment Fault'', ''General Protection Fault'', ''Page Fault'', ''Reserved'',
      ''x87 Floating-Point Error'', ''Alignment Check'', ''Machine Check'', ''SIMD Floating-Point Error'',
      ''Virtualization Error'', ''Control Protection Error'', ''Reserved'', ''Reserved'', ''Reserved'', ''Reserved'',
      ''Reserved'', ''Reserved'', ''Reserved'', ''Reserved'', ''Reserved'', ''Reserved'']"

record registers =
  r_gs :: u32
  r_fs :: u32
  r_es :: u32
  r_ds :: u32
  r_edi :: u32
  r_esi :: u32
  r_ebp :: u32
  r_esp :: u32
  r_ebx :: u32
  r_edx :: u32
  r_ecx :: u32
  r_eax :: u32
  int_no :: u32
  err_code :: u32
  r_eip :: u32
  r_cs :: u32
  r_eflags :: u32

text \<open>Several calls of \<open>kprintf\<close>, in order.\<close>

fun kprintf_all :: "framebuffer \<Rightarrow> (u8 list \<times> arg list) list \<Rightarrow> console_world \<Rightarrow> console_world option" where
  "kprintf_all f [] w = Some w"
| "kprintf_all f ((fmt, args) # xs) w = Option.bind (kprintf f fmt args w) (kprintf_all f xs)"

text \<open>\<open>cr2\<close> is the register of that name, read only for a page fault.\<close>

definition panic_lines :: "u32 \<Rightarrow> registers \<Rightarrow> (u8 list \<times> arg list) list" where
  "panic_lines cr2 r =
     [(10 # 10 # ascii ''   KERNEL PANIC  (the red panda fell out of the tree)'' @ [10, 10], []),
      (ascii ''   exception %u: %s'' @ [10], [Num (int_no r), Str (Some (ascii (exception_names ! unat (int_no r))))]),
      (ascii ''   error code: %08x'' @ [10], [Num (err_code r)])] @
     (if int_no r = 14 then [(ascii ''   faulting address (cr2): %08x'' @ [10], [Num cr2])] else []) @
     [([10], []),
      (ascii ''   eip=%08x  cs=%08x  eflags=%08x'' @ [10], [Num (r_eip r), Num (r_cs r), Num (r_eflags r)]),
      (ascii ''   eax=%08x ebx=%08x ecx=%08x edx=%08x'' @ [10], [Num (r_eax r), Num (r_ebx r), Num (r_ecx r), Num (r_edx r)]),
      (ascii ''   esi=%08x edi=%08x ebp=%08x esp=%08x'' @ [10], [Num (r_esi r), Num (r_edi r), Num (r_ebp r), Num (r_esp r)]),
      (ascii ''   ds=%08x  es=%08x  fs=%08x  gs=%08x'' @ [10], [Num (r_ds r), Num (r_es r), Num (r_fs r), Num (r_gs r)]),
      (10 # ascii ''   System halted.'', [])]"

definition panic :: "framebuffer \<Rightarrow> u32 \<Rightarrow> registers \<Rightarrow> console_world \<Rightarrow> console_world option" where
  "panic f cr2 r w = kprintf_all f (panic_lines cr2 r) (console_clear f (console_set_color COLOR_WHITE COLOR_RED w))"

record 'd machine =
  ma_tab :: irq_table
  ma_timer :: timer
  ma_kbd :: keyboard
  ma_queue :: "event ring"
  ma_mouse :: mouse
  ma_fb :: framebuffer
  ma_mem :: mem
  ma_con :: console
  ma_dev :: 'd

text \<open>A call through the table, the function pointer being one of the three handlers.\<close>

definition run_irq :: "'d bus \<Rightarrow> irq_handler \<Rightarrow> 'd machine \<Rightarrow> 'd machine" where
  "run_irq bus h m =
     (case h of
        Timer_Irq \<Rightarrow> let (t, q) = timer_irq (ma_timer m, ma_queue m) in m\<lparr>ma_timer := t, ma_queue := q\<rparr>
      | Keyboard_Irq \<Rightarrow>
          let ((k, q), d) = run_state (keyboard_irq bus (ma_kbd m, ma_queue m)) (ma_dev m)
          in m\<lparr>ma_kbd := k, ma_queue := q, ma_dev := d\<rparr>
      | Mouse_Irq \<Rightarrow>
          let ((s, (f, mm), q), d) = run_state (mouse_irq bus (ma_mouse m, (ma_fb m, ma_mem m), ma_queue m)) (ma_dev m)
          in m\<lparr>ma_mouse := s, ma_fb := f, ma_mem := mm, ma_queue := q, ma_dev := d\<rparr>)"

text \<open>The interrupted code goes on, or the processor is halted; \<open>None\<close> is a call through a pointer read behind
  the table, for a vector the stubs do not raise.\<close>

datatype 'd after = Resumed "'d machine" | Halted "'d machine"

definition interrupt_dispatch :: "'d bus \<Rightarrow> u32 \<Rightarrow> registers \<Rightarrow> 'd machine \<Rightarrow> 'd after option" where
  "interrupt_dispatch bus cr2 r m =
     (if int_no r < 32 then
        map_option (\<lambda>(t, mm). Halted (m\<lparr>ma_con := t, ma_mem := mm\<rparr>)) (panic (ma_fb m) cr2 r (ma_con m, ma_mem m))
      else
        let irq = unat (int_no r - 32)
        in if irq \<ge> 16 then None
           else let m1 = (case ma_tab m irq of None \<Rightarrow> m | Some h \<Rightarrow> run_irq bus h m)
                in Some (Resumed (m1\<lparr>ma_dev := snd (run_state (pic_send_eoi bus (of_nat irq)) (ma_dev m1))\<rparr>)))"

text \<open>Interrupts one after the other; an exception ends the run.\<close>

fun interrupts :: "'d bus \<Rightarrow> u32 \<Rightarrow> registers list \<Rightarrow> 'd machine \<Rightarrow> 'd after option" where
  "interrupts bus cr2 [] m = Some (Resumed m)"
| "interrupts bus cr2 (r # rs) m =
     (case interrupt_dispatch bus cr2 r m of
        Some (Resumed m1) \<Rightarrow> interrupts bus cr2 rs m1
      | e \<Rightarrow> e)"

subsection \<open>The panic screen\<close>

lemma kprintf_all_ok:
  "drawable f \<Longrightarrow> console_ok f w \<Longrightarrow> list_all (\<lambda>(fmt, args). kvprintf fmt (map shape args) \<noteq> None) xs \<Longrightarrow>
   \<exists>w'. kprintf_all f xs w = Some w' \<and> console_ok f w' \<and> w' = console_print f (concat (map (\<lambda>(fmt, args). the (kvprintf fmt args)) xs)) w"
proof (induction xs arbitrary: w)
  case (Cons x xs)
  obtain fmt args where x: "x = (fmt, args)" by fastforce
  obtain out where o: "kvprintf fmt args = Some out" using Cons.prems(3) kvprintf_shape [of fmt args] by (auto simp: x)
  have "console_ok f (console_print f out w)" using console_print_ok [OF Cons.prems(1,2)] by blast
  from Cons.IH [OF Cons.prems(1) this] Cons.prems(3)
  show ?case by (auto simp: x o kprintf_def console_print_def)
qed (simp add: console_print_def)

lemma panic_formats:
  "kvprintf (10 # 10 # ascii ''   KERNEL PANIC  (the red panda fell out of the tree)'' @ [10, 10]) [] \<noteq> None"
  "kvprintf (ascii ''   exception %u: %s'' @ [10]) [Num 0, Str None] \<noteq> None"
  "kvprintf (ascii ''   error code: %08x'' @ [10]) [Num 0] \<noteq> None"
  "kvprintf (ascii ''   faulting address (cr2): %08x'' @ [10]) [Num 0] \<noteq> None"
  "kvprintf [10] [] \<noteq> None"
  "kvprintf (ascii ''   eip=%08x  cs=%08x  eflags=%08x'' @ [10]) [Num 0, Num 0, Num 0] \<noteq> None"
  "kvprintf (ascii ''   eax=%08x ebx=%08x ecx=%08x edx=%08x'' @ [10]) [Num 0, Num 0, Num 0, Num 0] \<noteq> None"
  "kvprintf (ascii ''   esi=%08x edi=%08x ebp=%08x esp=%08x'' @ [10]) [Num 0, Num 0, Num 0, Num 0] \<noteq> None"
  "kvprintf (ascii ''   ds=%08x  es=%08x  fs=%08x  gs=%08x'' @ [10]) [Num 0, Num 0, Num 0, Num 0] \<noteq> None"
  "kvprintf (10 # ascii ''   System halted.'') [] \<noteq> None"
  by code_simp+

lemma panic_lines_ok: "list_all (\<lambda>(fmt, args). kvprintf fmt (map shape args) \<noteq> None) (panic_lines cr2 r)"
  using panic_formats
  by (cases "int_no r = 14")
    (simp_all only: panic_lines_def list_all_append list.pred_inject list.map shape.simps prod.case simp_thms if_True if_False)

lemma clear_shows:
  assumes "drawable f" "Console.on_grid (fst w)"
  shows "console_ok f (console_clear f w)"
proof -
  obtain t m where w: "w = (t, m)" by fastforce
  note d = drawableD [OF assms(1)]
  let ?m = "fb_flip f (fb_fill_rect f 0 0 (sint (fb_width f)) (sint (fb_height f)) (bg t) m)"
  have "screen_shows f ?m" by (rule flip_screen_shows [OF d(1, 2)])
  from cursor_draw_shows [OF assms(1) this, of "t\<lparr>col := 0, row := 0\<rparr>"] assms(2)
  show ?thesis by (auto simp: w console_clear_def console_ok_def Console.on_grid_def case_prod_beta Let_def)
qed

text \<open>What a panic prints.\<close>

definition panic_text :: "u32 \<Rightarrow> registers \<Rightarrow> u8 list" where
  "panic_text cr2 r = concat (map (\<lambda>(fmt, args). the (kvprintf fmt args)) (panic_lines cr2 r))"

lemma panic_shows:
  assumes "drawable f" "Console.on_grid (fst w)"
  shows "\<exists>w'. panic f cr2 r w = Some w' \<and> console_ok f w' \<and>
    w' = console_print f (panic_text cr2 r) (console_clear f (console_set_color COLOR_WHITE COLOR_RED w))"
proof -
  have "Console.on_grid (fst (console_set_color COLOR_WHITE COLOR_RED w))"
    using assms(2) by (cases w) (simp add: console_set_color_def Console.on_grid_def)
  from kprintf_all_ok [OF assms(1) clear_shows [OF assms(1) this] panic_lines_ok]
  show ?thesis unfolding panic_def panic_text_def by blast
qed

subsection \<open>Hardware interrupts\<close>

text \<open>What holds between any two interrupts.\<close>

definition machine_ok :: "'d machine \<Rightarrow> bool" where
  "machine_ok m \<longleftrightarrow>
     pointer_ok (ma_mouse m, (ma_fb m, ma_mem m), ma_queue m) \<and> drawable (ma_fb m) \<and> Console.on_grid (ma_con m) \<and>
     ring_ok (ma_queue m) \<and> ring_ok (kb_buf (ma_kbd m)) \<and> (\<forall>c \<in> set (ring_items (kb_buf (ma_kbd m))). c \<noteq> 0 \<and> c < 128)"

lemma push_event_ok [simp]: "ring_ok q \<Longrightarrow> ring_ok (input_push e q)"
  by (simp add: input_push_def ring_push_ok)

lemma keyboard_queue_ok: "ring_ok q \<Longrightarrow> ring_ok (snd (keyboard_byte sc (k, q)))"
proof -
  assume q: "ring_ok q"
  have e: "ring_ok (snd (extended_key sc (k', q)))" for k' using q by (simp add: extended_key_def push_special_def)
  have p: "ring_ok (snd (plain_key sc (k', q)))" for k' using q by (simp add: plain_key_def push_special_def Let_def)
  show ?thesis using q e p by (simp add: keyboard_byte_def Let_def)
qed

lemma buttons_queue_ok: "ring_ok q \<Longrightarrow> ring_ok (snd (mouse_buttons b s q))"
  by (simp add: mouse_buttons_def Let_def)

lemma mouse_frame:
  assumes "ring_ok q" "mouse_byte b (s, (f, m), q) = (s', (f', m'), q')"
  shows "ring_ok q'" "drawable f' = drawable f"
proof -
  have same: "\<exists>x y. f = f\<lparr>cur_x := x, cur_y := y\<rparr>" by (intro exI [of _ "cur_x f"] exI [of _ "cur_y f"]) simp
  have move: "ring_ok (snd (snd (mouse_move dx dy (s, (f, m), q)))) \<and>
      (\<exists>x y. fst (fst (snd (mouse_move dx dy (s, (f, m), q)))) = f\<lparr>cur_x := x, cur_y := y\<rparr>)" for dx dy and s :: mouse
    using assms(1) same by (cases "dx \<noteq> 0 \<or> dy \<noteq> 0") (auto simp: mouse_move_def fb_cursor_move_def Let_def)
  have packet: "ring_ok (snd (snd (process_packet (s, (f, m), q)))) \<and>
      (\<exists>x y. fst (fst (snd (process_packet (s, (f, m), q)))) = f\<lparr>cur_x := x, cur_y := y\<rparr>)" for s :: mouse
  proof (cases "packet s ! 0 AND 0xC0 \<noteq> 0")
    case True
    then show ?thesis using assms(1) same by (simp add: process_packet_def)
  next
    case False
    define dx where "dx = uint (packet s ! 1) - (if packet s ! 0 AND 0x10 \<noteq> 0 then 256 else 0)"
    define dy where "dy = uint (packet s ! 2) - (if packet s ! 0 AND 0x20 \<noteq> 0 then 256 else 0)"
    obtain s1 fm q1 where mv: "mouse_move dx dy (s, (f, m), q) = (s1, fm, q1)" by (metis prod_cases3)
    have p: "process_packet (s, (f, m), q) =
        (fst (mouse_buttons (packet s ! 0 AND 7) s1 q1), fm, snd (mouse_buttons (packet s ! 0 AND 7) s1 q1))"
      using False mv unfolding dx_def dy_def by (simp add: process_packet_def Let_def case_prod_beta)
    show ?thesis using move [where s = s and dx = dx and dy = dy] buttons_queue_ok [of q1] by (simp add: p mv)
  qed
  have "ring_ok q' \<and> (\<exists>x y. f' = f\<lparr>cur_x := x, cur_y := y\<rparr>)"
  proof (cases "cycle s = 0 \<and> b AND 0x08 = 0 \<or> cycle s + 1 \<noteq> 3")
    case True
    then have "f' = f \<and> q' = q" using assms(2) by (auto simp: mouse_byte_def Let_def split: if_splits)
    then show ?thesis using assms(1) same by metis
  next
    case False
    then have "(s', (f', m'), q') = process_packet (s\<lparr>packet := (packet s)[cycle s := b], cycle := 0\<rparr>, (f, m), q)"
      using assms(2) by (simp add: mouse_byte_def Let_def)
    with packet [of "s\<lparr>packet := (packet s)[cycle s := b], cycle := 0\<rparr>"] show ?thesis by (metis fst_conv snd_conv)
  qed
  then obtain x y where r: "ring_ok q'" and f': "f' = f\<lparr>cur_x := x, cur_y := y\<rparr>" by blast
  show "ring_ok q'" by (rule r)
  show "drawable f' = drawable f"
    unfolding f' by (simp add: drawable_def buffered_def sprite_ok_def sprite_clear_def surface_def buffer_bytes_def)
qed

lemma run_irq_ok:
  assumes "machine_ok m"
  shows "machine_ok (run_irq bus h m)"
proof (cases h)
  case Timer_Irq
  obtain t q where e: "timer_irq (ma_timer m, ma_queue m) = (t, q)" by fastforce
  have "ring_ok (ma_queue m)" using assms by (simp add: machine_ok_def)
  then have "ring_ok q" using e by (auto simp: timer_irq_def Let_def split: if_splits)
  then show ?thesis using assms by (simp add: Timer_Irq run_irq_def e machine_ok_def pointer_ok_def)
next
  case Keyboard_Irq
  obtain sc d where sc: "bus_in8 bus KBD_DATA (ma_dev m) = (sc, d)" by fastforce
  obtain k q where e: "keyboard_byte sc (ma_kbd m, ma_queue m) = (k, q)" by fastforce
  have ok: "ring_ok (ma_queue m)" "ring_ok (kb_buf (ma_kbd m))" "\<forall>c \<in> set (ring_items (kb_buf (ma_kbd m))). c \<noteq> 0 \<and> c < 128"
    using assms by (simp_all add: machine_ok_def)
  have "ring_ok q" using keyboard_queue_ok [OF ok(1), of sc "ma_kbd m"] by (simp add: e)
  moreover have "ring_ok (kb_buf k) \<and> (\<forall>c \<in> set (ring_items (kb_buf k)). c \<noteq> 0 \<and> c < 128)"
    using keyboard_byte_ring [of sc "ma_kbd m" "ma_queue m"] ok(2,3) by (auto simp: e ring_push_ok ring_push_items split: if_splits)
  ultimately show ?thesis using assms by (simp add: Keyboard_Irq run_irq_def keyboard_irq_def sc e machine_ok_def pointer_ok_def)
next
  case Mouse_Irq
  obtain b d where b: "bus_in8 bus PS2_DATA (ma_dev m) = (b, d)" by fastforce
  obtain s f mm q where e: "mouse_byte b (ma_mouse m, (ma_fb m, ma_mem m), ma_queue m) = (s, (f, mm), q)"
    by (metis prod_cases3 prod.exhaust)
  have ok: "pointer_ok (ma_mouse m, (ma_fb m, ma_mem m), ma_queue m)" "ring_ok (ma_queue m)" "drawable (ma_fb m)"
    using assms by (simp_all add: machine_ok_def)
  note fr = mouse_frame [OF ok(2) e]
  have "pointer_ok (s, (f, mm), q)" using mouse_byte_ok [OF ok(1), of b] by (simp add: e)
  then show ?thesis using assms fr ok(3) by (simp add: Mouse_Irq run_irq_def mouse_irq_def b e machine_ok_def)
qed

lemma run_irq_ticks: "ma_tab (run_irq bus h m) = ma_tab m"
  "ticks (ma_timer (run_irq bus h m)) = ticks (ma_timer m) + (if h = Timer_Irq then 1 else 0)"
  by (cases h; simp add: run_irq_def case_prod_beta Let_def timer_irq_def)+

lemma run_irq_dev:
  assumes "\<forall>d. \<beta> (snd (bus_in8 bus 0x60 d)) = \<beta> d"
  shows "\<beta> (ma_dev (run_irq bus h m)) = \<beta> (ma_dev m)"
  using assms by (cases h) (simp_all add: run_irq_def keyboard_irq_def mouse_irq_def KBD_DATA_def PS2_DATA_def case_prod_beta Let_def)

lemma machine_ok_dev [simp]: "machine_ok (m\<lparr>ma_dev := d\<rparr>) = machine_ok m"
  by (simp add: machine_ok_def)

lemma dispatch_ok:
  assumes pics: "has_pics bus \<beta>" and read: "\<forall>d. \<beta> (snd (bus_in8 bus 0x60 d)) = \<beta> d" and ok: "machine_ok m"
    and vec: "32 \<le> int_no r" "int_no r < 48"
  shows "\<exists>m'. interrupt_dispatch bus cr2 r m = Some (Resumed m') \<and> machine_ok m' \<and> ma_tab m' = ma_tab m \<and>
    ticks (ma_timer m') = ticks (ma_timer m) + (if ma_tab m (unat (int_no r) - 32) = Some Timer_Irq then 1 else 0) \<and>
    pic_eois (fst (\<beta> (ma_dev m'))) = pic_eois (fst (\<beta> (ma_dev m))) + 1 \<and>
    pic_eois (snd (\<beta> (ma_dev m'))) = pic_eois (snd (\<beta> (ma_dev m))) + (if 40 \<le> int_no r then 1 else 0)"
proof -
  let ?irq = "unat (int_no r) - 32"
  have irq: "unat (int_no r - 32) = ?irq" "?irq < 16" using vec by (simp_all add: unat_sub32 word_le_nat_alt word_less_nat_alt)
  have slave: "(8 :: u8) \<le> of_nat ?irq \<longleftrightarrow> 40 \<le> int_no r"
  proof -
    have "(8 :: u8) \<le> of_nat k \<longleftrightarrow> 8 \<le> k" if "k < 16" for k using that by (simp add: word_le_nat_alt unat_of_nat)
    from this [OF irq(2)] have "(8 :: u8) \<le> of_nat ?irq \<longleftrightarrow> 8 \<le> ?irq" .
    moreover have "8 \<le> ?irq \<longleftrightarrow> 40 \<le> int_no r" using vec(1) by (simp add: word_le_nat_alt) arith
    ultimately show ?thesis by (rule trans)
  qed
  define m1 where "m1 = (case ma_tab m ?irq of None \<Rightarrow> m | Some h \<Rightarrow> run_irq bus h m)"
  have m1: "machine_ok m1" "ma_tab m1 = ma_tab m" "\<beta> (ma_dev m1) = \<beta> (ma_dev m)"
    "ticks (ma_timer m1) = ticks (ma_timer m) + (if ma_tab m ?irq = Some Timer_Irq then 1 else 0)"
    using ok by (auto simp: m1_def run_irq_ok run_irq_ticks run_irq_dev [OF read] split: option.split)
  have "\<not> int_no r < 32" using vec(1) by simp
  then have "interrupt_dispatch bus cr2 r m = Some (Resumed (m1\<lparr>ma_dev := snd (run_state (pic_send_eoi bus (of_nat ?irq)) (ma_dev m1))\<rparr>))"
    using irq by (simp add: interrupt_dispatch_def m1_def Let_def)
  then show ?thesis
    using m1 pic_send_eoi_correct [OF pics, of "of_nat ?irq" "ma_dev m1"] slave by simp
qed

lemma handled:
  assumes "has_pics bus \<beta>" "\<forall>d. \<beta> (snd (bus_in8 bus 0x60 d)) = \<beta> d"
  shows "machine_ok m \<Longrightarrow> \<forall>r \<in> set rs. int_no r < 48 \<Longrightarrow>
    (\<exists>m'. interrupts bus cr2 rs m = Some (Halted m') \<and> (\<exists>r \<in> set rs. int_no r < 32) \<and> console_ok (ma_fb m') (ma_con m', ma_mem m')) \<or>
    (\<exists>m'. interrupts bus cr2 rs m = Some (Resumed m') \<and> machine_ok m' \<and> (\<forall>r \<in> set rs. 32 \<le> int_no r) \<and>
       ticks (ma_timer m') = ticks (ma_timer m) + of_nat (length (filter (\<lambda>r. ma_tab m (unat (int_no r) - 32) = Some Timer_Irq) rs)) \<and>
       pic_eois (fst (\<beta> (ma_dev m'))) = pic_eois (fst (\<beta> (ma_dev m))) + length rs \<and>
       pic_eois (snd (\<beta> (ma_dev m'))) = pic_eois (snd (\<beta> (ma_dev m))) + length (filter (\<lambda>r. 40 \<le> int_no r) rs))"
proof (induction rs arbitrary: m)
  case Nil
  then show ?case by simp
next
  case (Cons r rs)
  show ?case
  proof (cases "int_no r < 32")
    case True
    have "drawable (ma_fb m)" "Console.on_grid (fst (ma_con m, ma_mem m))" using Cons.prems(1) by (simp_all add: machine_ok_def)
    from panic_shows [OF this, of cr2 r] obtain t mm where
      "panic (ma_fb m) cr2 r (ma_con m, ma_mem m) = Some (t, mm)" "console_ok (ma_fb m) (t, mm)" by auto
    then show ?thesis using True by (simp add: interrupt_dispatch_def)
  next
    case False
    have "32 \<le> int_no r" "int_no r < 48" using False Cons.prems(2) by simp_all
    from dispatch_ok [OF assms Cons.prems(1) this, of cr2] obtain m1 where
      1: "interrupt_dispatch bus cr2 r m = Some (Resumed m1)" "machine_ok m1" "ma_tab m1 = ma_tab m"
        "ticks (ma_timer m1) = ticks (ma_timer m) + (if ma_tab m (unat (int_no r) - 32) = Some Timer_Irq then 1 else 0)"
        "pic_eois (fst (\<beta> (ma_dev m1))) = pic_eois (fst (\<beta> (ma_dev m))) + 1"
        "pic_eois (snd (\<beta> (ma_dev m1))) = pic_eois (snd (\<beta> (ma_dev m))) + (if 40 \<le> int_no r then 1 else 0)" by blast
    have "\<forall>r \<in> set rs. int_no r < 48" using Cons.prems(2) by simp
    from Cons.IH [OF 1(2) this] show ?thesis
      using 1 \<open>32 \<le> int_no r\<close> by auto
  qed
qed


definition isr_registers :: "u32 \<Rightarrow> registers" where
  "isr_registers n =
     \<lparr>r_gs = 0, r_fs = 0, r_es = 0, r_ds = 0, r_edi = 0, r_esi = 0, r_ebp = 0, r_esp = 0, r_ebx = 0, r_edx = 0, r_ecx = 0,
      r_eax = 0, int_no = n, err_code = 0, r_eip = 0, r_cs = 8, r_eflags = 0\<rparr>"

definition idle_machine :: "(pic \<times> pic) machine" where
  "idle_machine =
     \<lparr>ma_tab = irq_register 12 Mouse_Irq (irq_register 1 Keyboard_Irq (irq_register 0 Timer_Irq (\<lambda>_. None))),
      ma_timer = \<lparr>ticks = 0, hz = 100\<rparr>, ma_kbd = fst keyboard_bss, ma_queue = ring_empty no_event,
      ma_mouse = fst start_world, ma_fb = console_screen, ma_mem = fb_flip console_screen (\<lambda>_. 0),
      ma_con = blank_console\<lparr>cols := 2, rows := 2\<rparr>, ma_dev = (raw_pic, raw_pic)\<rparr>"

lemma idle_machine_ok: "machine_ok idle_machine"
proof -
  have d: "drawable console_screen"
    by (simp add: console_screen_def two_buffers_def small_screen_def drawable_def buffered_def sprite_ok_def sprite_clear_def
      surface_def buffer_bytes_def)
  note f = flip_screen_shows [OF drawableD(1,2) [OF d], of "\<lambda>_. 0"]
  show ?thesis
    using f d by (simp add: machine_ok_def idle_machine_def pointer_ok_def start_world_def drawableD keyboard_bss_def Console.on_grid_def
        blank_console_def) (simp add: console_screen_def two_buffers_def small_screen_def on_screen_def)
qed


end
