(* ===== verification/Spec2Isabelle.thy ===== *)
theory Spec2Isabelle
  imports Kstring Pmm Paging Heap Ata Fs_Ops Input Irq Keyboard Timer Rtc Idt Mouse Cursor Console Kprintf Wm Shell_Claims Fs_Mount Isr
begin

text \<open>RedPandaOS kernel: verification development.\<close>

end
